(* ===== verification/Prelude.thy ===== *)
theory Prelude
  imports Main "HOL-Library.Word"
begin

text \<open>
  Shared vocabulary of the development: the machine integers of the Rust sources, the
  outcomes of kernel code (a value, a Rust \<^verbatim>\<open>Err\<close>, or a panic), the
  state-and-error combinators the stateful components are written with, little-endian
  encodings, and generic facts on lists and words.

  The kernel is built by \<^verbatim>\<open>boot.sh\<close> with \<^verbatim>\<open>cargo build\<close>, that is in
  the dev profile, in which integer overflow and out-of-range indexing panic. A panic ends
  in \<^verbatim>\<open>loop {}\<close> (ross-kernel/src/main.rs), so a panicking operation never returns.
\<close>

unbundle bit_operations_syntax

named_theorems mem_simps \<open>reading memory after a write\<close>
named_theorems run_simps \<open>evaluation rules of the state-and-error combinators\<close>

section \<open>Machine integers\<close>

type_synonym u8 = "8 word"
type_synonym u16 = "16 word"
type_synonym u32 = "32 word"
type_synonym u64 = "64 word"

text \<open>
  Lengths and indices (\<^verbatim>\<open>usize\<close>, 64 bits) are natural numbers where the value is
  the length of a list or is bounded by the code; an addition that could leave the range
  is written with the checked operation below.
\<close>

type_synonym usize = nat

definition usize_bound :: nat where
  "usize_bound = 2 ^ 64"

text \<open>The bytes of a string literal; all literals of the sources are ASCII where the code looks at them.\<close>

definition ascii :: "string \<Rightarrow> u8 list" where
  "ascii s = map (\<lambda>c. of_nat (of_char c)) s"

section \<open>Outcomes\<close>

datatype exn =
    Panic string   \<comment> \<open>overflow, index out of range, \<open>expect\<close>, page fault: does not return\<close>
  | Err string     \<comment> \<open>a Rust \<open>Err\<close>; the message is empty for \<open>Err(())\<close>\<close>

type_synonym 'a res = "exn + 'a"

definition bindR :: "'a res \<Rightarrow> ('a \<Rightarrow> 'b res) \<Rightarrow> 'b res" where
  "bindR r f = (case r of Inl e \<Rightarrow> Inl e | Inr x \<Rightarrow> f x)"

lemma bindR_simps [simp, run_simps]:
  "bindR (Inl e) f = Inl e"
  "bindR (Inr x) f = f x"
  by (simp_all add: bindR_def)

lemma bindR_cong [fundef_cong]:
  "r = r' \<Longrightarrow> (\<And>x. r' = Inr x \<Longrightarrow> f x = f' x) \<Longrightarrow> bindR r f = bindR r' f'"
  by (cases r') simp_all

lemma bindR_Inr: "bindR r f = Inr y \<longleftrightarrow> (\<exists>x. r = Inr x \<and> f x = Inr y)"
  by (cases r) simp_all

definition usize_add :: "usize \<Rightarrow> usize \<Rightarrow> usize res" where
  "usize_add a b = (if a + b < usize_bound then Inr (a + b)
     else Inl (Panic ''attempt to add with overflow''))"

lemma usize_add_ok [simp]: "a + b < usize_bound \<Longrightarrow> usize_add a b = Inr (a + b)"
  by (simp add: usize_add_def)

definition add64 :: "u64 \<Rightarrow> u64 \<Rightarrow> u64 res" where
  "add64 a b = (if unat a + unat b < 2 ^ 64 then Inr (a + b)
     else Inl (Panic ''attempt to add with overflow''))"

section \<open>State and errors\<close>

text \<open>
  A stateful operation maps the state to an outcome and the state it leaves behind. The
  state is returned on every branch: an \<^verbatim>\<open>Err\<close> that a caller handles leaves the
  effects made before it.
\<close>

type_synonym ('s, 'a) op = "'s \<Rightarrow> 'a res \<times> 's"

definition retS :: "'a \<Rightarrow> ('s, 'a) op" where
  "retS x = (\<lambda>s. (Inr x, s))"

definition throwS :: "exn \<Rightarrow> ('s, 'a) op" where
  "throwS e = (\<lambda>s. (Inl e, s))"

definition bindS :: "('s, 'a) op \<Rightarrow> ('a \<Rightarrow> ('s, 'b) op) \<Rightarrow> ('s, 'b) op" where
  "bindS m f = (\<lambda>s. case m s of (Inl e, s') \<Rightarrow> (Inl e, s') | (Inr x, s') \<Rightarrow> f x s')"

definition liftS :: "'a res \<Rightarrow> ('s, 'a) op" where
  "liftS r = (\<lambda>s. (r, s))"

text \<open>\<open>matchS m ok err\<close> is \<^verbatim>\<open>match m { Ok(x) => ok(x), Err(e) => err(e) }\<close>.\<close>

definition matchS :: "('s, 'a) op \<Rightarrow> ('a \<Rightarrow> ('s, 'b) op) \<Rightarrow> (string \<Rightarrow> ('s, 'b) op) \<Rightarrow> ('s, 'b) op" where
  "matchS m ok err = (\<lambda>s. case m s of
       (Inr x, s') \<Rightarrow> ok x s'
     | (Inl (Err msg), s') \<Rightarrow> err msg s'
     | (Inl (Panic p), s') \<Rightarrow> (Inl (Panic p), s'))"

text \<open>\<^verbatim>\<open>.map_err(|_| ())\<close>.\<close>

definition map_errS :: "('s, 'a) op \<Rightarrow> ('s, 'a) op" where
  "map_errS m = matchS m retS (\<lambda>_. throwS (Err ''''))"

text \<open>Reading and changing the state.\<close>

definition getS :: "('s \<Rightarrow> 'a) \<Rightarrow> ('s, 'a) op" where
  "getS f = (\<lambda>s. (Inr (f s), s))"

definition modS :: "('s \<Rightarrow> 's) \<Rightarrow> ('s, unit) op" where
  "modS f = (\<lambda>s. (Inr (), f s))"

lemma getS_run [simp, run_simps]: "getS f s = (Inr (f s), s)"
  by (simp add: getS_def)

lemma modS_run [simp, run_simps]: "modS f s = (Inr (), f s)"
  by (simp add: modS_def)

lemma op_simps [simp, run_simps]:
  "retS x s = (Inr x, s)"
  "throwS e s = (Inl e, s)"
  "liftS r s = (r, s)"
  by (simp_all add: retS_def throwS_def liftS_def)

lemma bindS_ok [run_simps]: "m s = (Inr x, s') \<Longrightarrow> bindS m f s = f x s'"
  by (simp add: bindS_def)

lemma bindS_throw [run_simps]: "m s = (Inl e, s') \<Longrightarrow> bindS m f s = (Inl e, s')"
  by (simp add: bindS_def)

lemma bindS_assoc: "bindS (bindS m f) g = bindS m (\<lambda>x. bindS (f x) g)"
  by (auto simp: bindS_def fun_eq_iff split: prod.splits sum.splits)

lemma bindS_Inr:
  "bindS m f s = (Inr y, s'') \<longleftrightarrow> (\<exists>x s'. m s = (Inr x, s') \<and> f x s' = (Inr y, s''))"
  by (auto simp: bindS_def split: prod.splits sum.splits)

lemma bindS_InrE [elim]:
  assumes "bindS m f s = (Inr y, s'')"
  obtains x s' where "m s = (Inr x, s')" and "f x s' = (Inr y, s'')"
  using assms by (auto simp: bindS_Inr)

lemma matchS_ok [run_simps]: "m s = (Inr x, s') \<Longrightarrow> matchS m ok err s = ok x s'"
  by (simp add: matchS_def)

lemma matchS_err [run_simps]: "m s = (Inl (Err e), s') \<Longrightarrow> matchS m ok err s = err e s'"
  by (simp add: matchS_def)

lemma matchS_panic [run_simps]: "m s = (Inl (Panic p), s') \<Longrightarrow> matchS m ok err s = (Inl (Panic p), s')"
  by (simp add: matchS_def)

lemma map_errS_ok [run_simps]: "m s = (Inr x, s') \<Longrightarrow> map_errS m s = (Inr x, s')"
  by (simp add: map_errS_def matchS_def)

lemma map_errS_Inr: "map_errS m s = (Inr x, s') \<longleftrightarrow> m s = (Inr x, s')"
  by (auto simp: map_errS_def matchS_def split: prod.splits sum.splits exn.splits)

text \<open>A \<^verbatim>\<open>for\<close> loop over a range.\<close>

primrec forS :: "'a list \<Rightarrow> ('a \<Rightarrow> ('s, unit) op) \<Rightarrow> ('s, unit) op" where
  "forS [] f = retS ()"
| "forS (x # xs) f = bindS (f x) (\<lambda>_. forS xs f)"

lemma forS_append: "forS (xs @ ys) f = bindS (forS xs f) (\<lambda>_. forS ys f)"
proof (induction xs)
  case (Cons x xs)
  then show ?case by (auto simp: bindS_def split: prod.splits sum.splits)
qed (simp add: bindS_def)

text \<open>An operation keeps a predicate when it does so on every branch, errors included.\<close>

definition keepsS :: "('s \<Rightarrow> bool) \<Rightarrow> ('s, 'a) op \<Rightarrow> bool" where
  "keepsS P m \<longleftrightarrow> (\<forall>s. P s \<longrightarrow> P (snd (m s)))"

lemma keepsS_D: "keepsS P m \<Longrightarrow> P s \<Longrightarrow> m s = (r, s') \<Longrightarrow> P s'"
  unfolding keepsS_def by (metis snd_conv)

lemma keepsS_ret [intro]: "keepsS P (retS x)"
  by (simp add: keepsS_def)

lemma keepsS_throw [intro]: "keepsS P (throwS e)"
  by (simp add: keepsS_def)

lemma keepsS_lift [intro]: "keepsS P (liftS r)"
  by (simp add: keepsS_def)

lemma keepsS_bind [intro]:
  "keepsS P m \<Longrightarrow> (\<And>x. keepsS P (f x)) \<Longrightarrow> keepsS P (bindS m f)"
  unfolding keepsS_def bindS_def
  by (auto split: prod.splits sum.splits)

lemma keepsS_match [intro]:
  "keepsS P m \<Longrightarrow> (\<And>x. keepsS P (f x)) \<Longrightarrow> (\<And>e. keepsS P (g e)) \<Longrightarrow> keepsS P (matchS m f g)"
  unfolding keepsS_def matchS_def
  by (auto split: prod.splits sum.splits exn.splits)

lemma keepsS_map_err [intro]: "keepsS P m \<Longrightarrow> keepsS P (map_errS m)"
  unfolding map_errS_def by blast

lemma keepsS_if: "(c \<Longrightarrow> keepsS P a) \<Longrightarrow> (\<not> c \<Longrightarrow> keepsS P b) \<Longrightarrow> keepsS P (if c then a else b)"
  by simp

lemma keepsS_forS: "(\<And>x. x \<in> set xs \<Longrightarrow> keepsS P (f x)) \<Longrightarrow> keepsS P (forS xs f)"
  by (induction xs) auto

lemma keepsS_get: "keepsS P (getS g)"
  by (simp add: keepsS_def)

lemma keepsS_getS: "(\<And>s. P s \<Longrightarrow> P (snd (f (g s) s))) \<Longrightarrow> keepsS P (bindS (getS g) f)"
  by (simp add: keepsS_def bindS_def)

text \<open>
  Total correctness: \<open>okS m s P\<close> says that \<open>m\<close> returns a value when it runs in \<open>s\<close>, and that the
  value and the new state satisfy \<open>P\<close>.
\<close>

definition okS :: "('s, 'a) op \<Rightarrow> 's \<Rightarrow> ('a \<Rightarrow> 's \<Rightarrow> bool) \<Rightarrow> bool" where
  "okS m s P \<longleftrightarrow> (\<exists>x s'. m s = (Inr x, s') \<and> P x s')"

named_theorems ok_simps \<open>total correctness of the combinators\<close>

lemma okS_ret [ok_simps]: "okS (retS x) s P \<longleftrightarrow> P x s"
  by (simp add: okS_def)

lemma okS_get [ok_simps]: "okS (getS f) s P \<longleftrightarrow> P (f s) s"
  by (simp add: okS_def)

lemma okS_mod [ok_simps]: "okS (modS f) s P \<longleftrightarrow> P () (f s)"
  by (simp add: okS_def)

lemma okS_throw [ok_simps]: "okS (throwS e) s P \<longleftrightarrow> False"
  by (simp add: okS_def)

lemma okS_lift [ok_simps]: "okS (liftS (Inr x)) s P \<longleftrightarrow> P x s"
  by (simp add: okS_def)

lemma okS_pair [ok_simps]:
  "okS (Pair (Inr x)) s P \<longleftrightarrow> P x s" "okS (Pair (Inl e)) s P \<longleftrightarrow> False"
  by (simp_all add: okS_def)

lemma okS_bind [ok_simps]: "okS (bindS m f) s P \<longleftrightarrow> okS m s (\<lambda>x s'. okS (f x) s' P)"
  by (auto simp: okS_def bindS_Inr)

lemma liftS_bindR: "bindS (liftS (bindR r g)) h = bindS (liftS r) (\<lambda>x. bindS (liftS (g x)) h)"
  by (cases r) (auto simp: bindS_def fun_eq_iff)

lemma okS_map_err [ok_simps]: "okS (map_errS m) s P \<longleftrightarrow> okS m s P"
  by (simp add: okS_def map_errS_Inr)

lemma okS_mono: "okS m s P \<Longrightarrow> (\<And>x s'. P x s' \<Longrightarrow> Q x s') \<Longrightarrow> okS m s Q"
  by (auto simp: okS_def)

lemma okS_conj: "okS m s P \<Longrightarrow> okS m s Q \<Longrightarrow> okS m s (\<lambda>x s'. P x s' \<and> Q x s')"
  by (auto simp: okS_def)

lemma okS_I: "m s = (Inr x, s') \<Longrightarrow> P x s' \<Longrightarrow> okS m s P"
  by (auto simp: okS_def)

lemma okS_E:
  assumes "okS m s P"
  obtains x s' where "m s = (Inr x, s')" and "P x s'"
  using assms by (auto simp: okS_def)

text \<open>The rule for a counting loop with an invariant.\<close>

lemma forS_rule:
  assumes "I 0 s" and "\<And>i s. i < n \<Longrightarrow> I i s \<Longrightarrow> okS (f i) s (\<lambda>_ s'. I (Suc i) s')"
  shows "okS (forS [0 ..< n] f) s (\<lambda>_ s'. I n s')"
  using assms
proof (induction n)
  case (Suc n)
  have "okS (f n) s' (\<lambda>_ s''. I (Suc n) s'')" if "I n s'" for s' using Suc.prems(2) [OF _ that] by simp
  moreover have "okS (forS [0 ..< n] f) s (\<lambda>_ s'. I n s')" by (rule Suc.IH) (use Suc.prems in auto)
  ultimately show ?case by (simp add: forS_append okS_bind okS_ret) (auto elim!: okS_mono)
qed (simp add: okS_ret)

section \<open>Little-endian encodings\<close>

primrec le_bytes :: "nat \<Rightarrow> 'a::len word \<Rightarrow> u8 list" where
  "le_bytes 0 w = []"
| "le_bytes (Suc n) w = ucast w # le_bytes n (drop_bit 8 w)"

primrec le_word :: "u8 list \<Rightarrow> 'a::len word" where
  "le_word [] = 0"
| "le_word (b # bs) = ucast b OR push_bit 8 (le_word bs)"

lemma length_le_bytes [simp]: "length (le_bytes n w) = n"
  by (induction n arbitrary: w) simp_all

lemma le_word_le_bytes: "le_word (le_bytes n w) = take_bit (8 * n) w"
proof (induction n arbitrary: w)
  case 0
  show ?case by simp
next
  case (Suc n)
  have "ucast (ucast w :: u8) OR push_bit 8 (take_bit (8 * n) (drop_bit 8 w)) = take_bit (8 * Suc n) w"
    by (rule bit_word_eqI) (auto simp: bit_simps)
  with Suc show ?case by simp
qed

lemma take_bit_full: "LENGTH('a) \<le> k \<Longrightarrow> take_bit k w = (w :: 'a::len word)"
  by (rule bit_word_eqI) (auto simp: bit_simps)

lemma le_word_le_bytes_full [simp]:
  "LENGTH('a) \<le> 8 * n \<Longrightarrow> le_word (le_bytes n w) = (w :: 'a::len word)"
  by (simp add: le_word_le_bytes take_bit_full)

text \<open>\<^verbatim>\<open>u16::from_le_bytes\<close> and its kin.\<close>

abbreviation u16_le :: "u8 \<Rightarrow> u8 \<Rightarrow> u16" where
  "u16_le b0 b1 \<equiv> le_word [b0, b1]"

abbreviation u32_le :: "u8 \<Rightarrow> u8 \<Rightarrow> u8 \<Rightarrow> u8 \<Rightarrow> u32" where
  "u32_le b0 b1 b2 b3 \<equiv> le_word [b0, b1, b2, b3]"

section \<open>Single bits\<close>

text \<open>\<^verbatim>\<open>1 << n\<close>, for \<open>n\<close> below the width.\<close>

definition one_shl :: "nat \<Rightarrow> 'a::len word" where
  "one_shl n = push_bit n 1"

lemma bit_one_shl [simp]: "bit (one_shl n :: 'a::len word) i \<longleftrightarrow> i = n \<and> n < LENGTH('a)"
  by (auto simp: one_shl_def bit_simps)

lemma and_one_shl_zero: "(w :: 'a::len word) AND one_shl i = 0 \<longleftrightarrow> \<not> bit w i"
  unfolding one_shl_def by (simp only: bit_iff_and_push_bit_not_eq_0 not_not)

lemma take_bit_small:
  assumes "unat (f :: 'a::len word) < 2 ^ n"
  shows "take_bit n f = f"
proof -
  have "unat (take_bit n f) = unat f"
    using assms by (simp add: unsigned_take_bit_eq take_bit_nat_eq_self)
  then show ?thesis by (rule unsigned_word_eqI)
qed

lemma bit_bound: "unat (w :: 'a::len word) < 2 ^ n \<Longrightarrow> bit w k \<Longrightarrow> k < n"
  using take_bit_small [of w n] by (metis bit_take_bit_iff)

lemma unat_lt_32: "unat (w :: u32) < 2 ^ 32"
  using unsigned_less [of w] by simp

lemma unat_ucast_up: "LENGTH('a) \<le> LENGTH('b) \<Longrightarrow> unat (ucast (w :: 'a::len word) :: 'b::len word) = unat w"
  by (simp add: unsigned_ucast_eq take_bit_nat_eq_self_iff order_less_le_trans [OF unsigned_less])

section \<open>Slices\<close>

text \<open>\<^verbatim>\<open>buf[off..off + xs.len()].copy_from_slice(xs)\<close>, for a range inside the buffer.\<close>

definition put_at :: "nat \<Rightarrow> 'a list \<Rightarrow> 'a list \<Rightarrow> 'a list" where
  "put_at off xs buf = take off buf @ xs @ drop (off + length xs) buf"

definition subslice :: "nat \<Rightarrow> nat \<Rightarrow> 'a list \<Rightarrow> 'a list" where
  "subslice off n xs = take n (drop off xs)"

lemma length_put_at [simp]: "off + length xs \<le> length buf \<Longrightarrow> length (put_at off xs buf) = length buf"
  by (simp add: put_at_def)

lemma length_subslice: "length (subslice off n xs) = min n (length xs - off)"
  by (simp add: subslice_def)

lemma length_subslice_in [simp]: "off + n \<le> length xs \<Longrightarrow> length (subslice off n xs) = n"
  by (simp add: subslice_def)

lemma nth_put_at:
  assumes "off + length xs \<le> length buf" and "i < length buf"
  shows "put_at off xs buf ! i =
    (if off \<le> i \<and> i < off + length xs then xs ! (i - off) else buf ! i)"
  using assms by (auto simp: put_at_def nth_append min_def)

lemma nth_subslice [simp]: "i < n \<Longrightarrow> off + n \<le> length xs \<Longrightarrow> subslice off n xs ! i = xs ! (off + i)"
  by (simp add: subslice_def)

lemma subslice_put_at [simp]:
  "off + length xs \<le> length buf \<Longrightarrow> n = length xs \<Longrightarrow> subslice off n (put_at off xs buf) = xs"
  by (simp add: subslice_def put_at_def)

lemma subslice_put_at_disjoint:
  assumes "off + length xs \<le> length buf" and "o2 + n \<le> length buf"
    and "o2 + n \<le> off \<or> off + length xs \<le> o2"
  shows "subslice o2 n (put_at off xs buf) = subslice o2 n buf"
  using assms by (intro nth_equalityI) (auto simp: nth_put_at)

end
