(* ===== verification/Vnode.thy ===== *)
theory Vnode
  imports Prelude
begin

text \<open>
  What every file system node of ross-kernel/src/vfs.rs has in common: the type of a node and
  the \<^verbatim>\<open>Stat\<close> record. Rust strings are UTF-8, so \<^verbatim>\<open>&str\<close> is a list of bytes.
\<close>

type_synonym str = "u8 list"

datatype NodeType = File | Directory

record Stat =
  stat_size :: nat
  node_type :: NodeType

end
