(* ===== verification/Strings.thy ===== *)
theory Strings
  imports Vnode
begin

text \<open>
  The operations of Rust's \<^verbatim>\<open>str\<close> that the kernel uses (the language's library, not code of
  the repository), on the bytes of the string: validity of UTF-8, trimming, splitting at a
  byte, prefixes, and the parsing of numbers.
\<close>

section \<open>UTF-8\<close>

definition in_range :: "u8 \<Rightarrow> u8 \<Rightarrow> u8 \<Rightarrow> bool" where
  "in_range lo hi b \<longleftrightarrow> lo \<le> b \<and> b \<le> hi"

definition cont :: "u8 \<Rightarrow> bool" where
  "cont = in_range 0x80 0xBF"

text \<open>
  \<^verbatim>\<open>str::from_utf8\<close> accepts the well-formed sequences of the Unicode standard: no overlong
  forms, no surrogates, nothing above U+10FFFF. The second byte of a three- or four-byte form
  is restricted by the first.
\<close>

definition snd3 :: "u8 \<Rightarrow> u8 \<Rightarrow> bool" where
  "snd3 b c \<longleftrightarrow> (if b = 0xE0 then in_range 0xA0 0xBF c else if b = 0xED then in_range 0x80 0x9F c
     else in_range 0xE1 0xEF b \<and> cont c)"

definition snd4 :: "u8 \<Rightarrow> u8 \<Rightarrow> bool" where
  "snd4 b c \<longleftrightarrow> (if b = 0xF0 then in_range 0x90 0xBF c else if b = 0xF4 then in_range 0x80 0x8F c
     else in_range 0xF1 0xF3 b \<and> cont c)"

text \<open>The length of the character a string starts with; 0 where there is none.\<close>

fun char_len :: "u8 list \<Rightarrow> nat" where
  "char_len [] = 0"
| "char_len (b # s) =
     (if b < 0x80 then 1
      else if 1 \<le> length s \<and> in_range 0xC2 0xDF b \<and> cont (s ! 0) then 2
      else if 2 \<le> length s \<and> snd3 b (s ! 0) \<and> cont (s ! 1) then 3
      else if 3 \<le> length s \<and> snd4 b (s ! 0) \<and> cont (s ! 1) \<and> cont (s ! 2) then 4
      else 0)"

fun utf8_valid :: "u8 list \<Rightarrow> bool" where
  "utf8_valid s \<longleftrightarrow>
     (if s = [] then True else if char_len s = 0 then False else utf8_valid (drop (char_len s) s))"

declare utf8_valid.simps [simp del]

lemma utf8_valid_Nil [simp]: "utf8_valid []"
  by (simp add: utf8_valid.simps)

lemma char_len_le: "char_len s \<le> length s"
  by (cases s) auto

lemma char_len_append:
  assumes "0 < char_len s"
  shows "char_len (s @ t) = char_len s"
proof (cases s)
  case (Cons b r)
  consider "b < 0x80" | "1 \<le> length r" "in_range 0xC2 0xDF b" "cont (r ! 0)" "\<not> b < 0x80"
    | "2 \<le> length r" "snd3 b (r ! 0)" "cont (r ! 1)" "\<not> b < 0x80"
    | "3 \<le> length r" "snd4 b (r ! 0)" "cont (r ! 1)" "cont (r ! 2)" "\<not> b < 0x80"
  proof -
    have ite: "0 < (if p then 1 else if q then 2 else if u then 3 else if v then 4 else 0 :: nat)
      \<Longrightarrow> p \<or> \<not> p \<and> (q \<or> u \<or> v)" for p q u v
      by (simp split: if_splits)
    from ite [OF assms [unfolded Cons char_len.simps]] that show thesis by blast
  qed
  moreover have "(r @ t) ! i = r ! i" if "i < length r" for i
    using that by (rule nth_append_left)
  then have "1 \<le> length r \<Longrightarrow> (r @ t) ! 0 = r ! 0" "2 \<le> length r \<Longrightarrow> (r @ t) ! 1 = r ! 1"
    "3 \<le> length r \<Longrightarrow> (r @ t) ! 2 = r ! 2" by force+
  ultimately show ?thesis
    by cases (simp_all add: Cons)
qed (use assms in simp)

lemma utf8_valid_append: "utf8_valid s \<Longrightarrow> utf8_valid (s @ t) \<longleftrightarrow> utf8_valid t"
proof (induction s rule: utf8_valid.induct)
  case (1 s)
  show ?case
  proof (cases "s = []")
    case False
    with 1(2) have *: "0 < char_len s" "utf8_valid (drop (char_len s) s)"
      by (simp_all add: utf8_valid.simps [of s] split: if_splits)
    with 1 False have "utf8_valid (drop (char_len s) s @ t) \<longleftrightarrow> utf8_valid t" by blast
    with * False show ?thesis
      by (simp add: utf8_valid.simps [of "s @ t"] char_len_append char_len_le)
  qed simp
qed

lemma utf8_valid_ascii: "\<forall>b \<in> set s. b < 0x80 \<Longrightarrow> utf8_valid s"
  by (induction s) (simp_all add: utf8_valid.simps [of "_ # _"])

section \<open>Trimming\<close>

text \<open>\<^verbatim>\<open>trim_matches\<close> and \<^verbatim>\<open>trim_start_matches\<close> with an ASCII character.\<close>

definition trim_start_matches :: "u8 \<Rightarrow> str \<Rightarrow> str" where
  "trim_start_matches c = dropWhile (\<lambda>b. b = c)"

definition trim_matches :: "u8 \<Rightarrow> str \<Rightarrow> str" where
  "trim_matches c s = rev (dropWhile (\<lambda>b. b = c) (rev (dropWhile (\<lambda>b. b = c) s)))"

lemma trim_matches_padded:
  assumes "s \<noteq> []" and "hd s \<noteq> c" and "last s \<noteq> c"
  shows "trim_matches c (s @ replicate k c) = s"
proof -
  have "dropWhile (\<lambda>b. b = c) (s @ replicate k c) = s @ replicate k c"
    using assms by (cases s) simp_all
  moreover have "dropWhile (\<lambda>b. b = c) (replicate k c @ rev s) = rev s"
    using assms by (induction k) (simp_all add: dropWhile_eq_self_iff hd_rev)
  ultimately show ?thesis by (simp add: trim_matches_def)
qed

text \<open>The encodings of the characters with the property White\_Space, for \<^verbatim>\<open>trim\<close>.\<close>

definition white_space :: "str list" where
  "white_space = [[0x09], [0x0A], [0x0B], [0x0C], [0x0D], [0x20], [0xC2, 0x85], [0xC2, 0xA0], [0xE1, 0x9A, 0x80]] @
     map (\<lambda>k. [0xE2, 0x80, 0x80 + of_nat k]) [0 ..< 11] @
     [[0xE2, 0x80, 0xA8], [0xE2, 0x80, 0xA9], [0xE2, 0x80, 0xAF], [0xE2, 0x81, 0x9F], [0xE3, 0x80, 0x80]]"

definition starts_with :: "str \<Rightarrow> str \<Rightarrow> bool" where
  "starts_with p s \<longleftrightarrow> take (length p) s = p"

fun strip_all :: "str list \<Rightarrow> str \<Rightarrow> str" where
  "strip_all ws s =
     (case find (\<lambda>w. w \<noteq> [] \<and> starts_with w s) ws of
        None \<Rightarrow> s
      | Some w \<Rightarrow> if s = [] \<or> w = [] then s else strip_all ws (drop (length w) s))"

declare strip_all.simps [simp del]

definition trim :: "str \<Rightarrow> str" where
  "trim s = rev (strip_all (map rev white_space) (rev (strip_all white_space s)))"

lemma strip_all_none: "(\<And>w. w \<in> set ws \<Longrightarrow> \<not> starts_with w s) \<Longrightarrow> strip_all ws s = s"
  by (subst strip_all.simps) (auto split: option.splits simp: find_Some_iff)

lemma trim_id:
  assumes "s \<noteq> []" and "hd s \<notin> hd ` set white_space" and "last s \<notin> last ` set white_space"
  shows "trim s = s"
proof -
  have ne: "w \<noteq> []" if "w \<in> set white_space" for w using that by (auto simp: white_space_def)
  have hd_eq: "hd w = hd t" if "starts_with w t" "w \<noteq> []" for w t
    using that by (cases w; cases t) (auto simp: starts_with_def)
  have "strip_all white_space s = s"
  proof (rule strip_all_none)
    fix w assume "w \<in> set white_space"
    then show "\<not> starts_with w s" using hd_eq [of w s] assms(2) ne by (metis imageI)
  qed
  moreover have "strip_all (map rev white_space) (rev s) = rev s"
  proof (rule strip_all_none)
    fix v assume "v \<in> set (map rev white_space)"
    then obtain w where w: "v = rev w" "w \<in> set white_space" by auto
    then show "\<not> starts_with v (rev s)" using hd_eq [of v "rev s"] assms(3) ne by (metis hd_rev imageI rev_is_Nil_conv)
  qed
  ultimately show ?thesis by (simp add: trim_def)
qed

section \<open>Numbers\<close>

text \<open>
  \<^verbatim>\<open>usize::from_str_radix(s, r)\<close> for a radix up to ten: an optional plus sign and at least one digit; \<open>None\<close>
  is any error, overflow included.
\<close>

definition digit_of :: "nat \<Rightarrow> u8 \<Rightarrow> nat option" where
  "digit_of r b = (if 48 \<le> unat b \<and> unat b < 48 + r then Some (unat b - 48) else None)"

primrec parse_digits :: "nat \<Rightarrow> str \<Rightarrow> nat \<Rightarrow> nat option" where
  "parse_digits r [] acc = Some acc"
| "parse_digits r (b # s) acc =
     (case digit_of r b of
        None \<Rightarrow> None
      | Some d \<Rightarrow> if acc * r + d < usize_bound then parse_digits r s (acc * r + d) else None)"

definition from_str_radix :: "nat \<Rightarrow> str \<Rightarrow> nat option" where
  "from_str_radix r s =
     (if s = [] \<or> s = [0x2B] \<or> s = [0x2D] then None
      else if hd s = 0x2B then parse_digits r (tl s) 0 else parse_digits r s 0)"

text \<open>The digits of a number in a field of fixed width.\<close>

lemma unat_digit: "d < 10 \<Longrightarrow> unat (of_nat (48 + d) :: u8) = 48 + d"
  unfolding unat_of_nat by simp

primrec digits :: "nat \<Rightarrow> nat \<Rightarrow> nat \<Rightarrow> str" where
  "digits r 0 v = []"
| "digits r (Suc k) v = digits r k (v div r) @ [of_nat (48 + v mod r)]"

lemma length_digits [simp]: "length (digits r k v) = k"
  by (induction k arbitrary: v) simp_all

lemma digits_range: "b \<in> set (digits r k v) \<Longrightarrow> 0 < r \<Longrightarrow> r \<le> 10 \<Longrightarrow> 48 \<le> unat b \<and> unat b < 48 + r"
proof (induction k arbitrary: v)
  case (Suc k)
  have "v mod r < r" using Suc.prems by simp
  then have "unat (of_nat (48 + v mod r) :: u8) = 48 + v mod r" using Suc.prems by (intro unat_digit) linarith
  with Suc \<open>v mod r < r\<close> show ?case by (auto simp del: of_nat_add)
qed simp

lemma parse_digits_append:
  "parse_digits r (s @ t) acc = (case parse_digits r s acc of None \<Rightarrow> None | Some a \<Rightarrow> parse_digits r t a)"
  by (induction s arbitrary: acc) (simp_all split: option.splits)

lemma parse_digits_digits:
  assumes "1 < r" and "r \<le> 10" and "v < r ^ k" and "v < usize_bound"
  shows "parse_digits r (digits r k v) 0 = Some v"
  using assms
proof (induction k arbitrary: v)
  case (Suc k)
  have lt: "v mod r < r" using Suc.prems by simp
  then have u: "unat (of_nat (48 + v mod r) :: u8) = 48 + v mod r" using Suc.prems by (intro unat_digit) linarith
  then have d: "digit_of r (of_nat (48 + v mod r)) = Some (v mod r)"
    using lt unfolding digit_of_def u by simp
  have "v div r < r ^ k" "v div r < usize_bound"
    using Suc.prems by (simp_all add: less_mult_imp_div_less mult.commute le_less_trans [OF div_le_dividend])
  from Suc.IH [OF Suc.prems(1,2) this] Suc.prems(4) d show ?case
    by (simp add: parse_digits_append del: of_nat_add)
qed simp

lemma from_str_radix_digits:
  assumes "1 < r" and "r \<le> 10" and "0 < k" and "v < r ^ k" and "v < usize_bound"
  shows "from_str_radix r (digits r k v) = Some v"
proof -
  have mem: "48 \<le> unat b" if "b \<in> set (digits r k v)" for b
    using digits_range [OF that] assms(1,2) by simp
  have ne: "digits r k v \<noteq> []" using assms(3) by (metis length_digits length_0_conv less_irrefl)
  moreover have "hd (digits r k v) \<noteq> 0x2B" "hd (digits r k v) \<noteq> 0x2D"
    using mem [OF hd_in_set [OF ne]] by auto
  ultimately show ?thesis using parse_digits_digits [OF assms(1,2,4,5)] by (auto simp: from_str_radix_def)
qed

end
