(* ===== verification/Ramfs.thy ===== *)
theory Ramfs
  imports Strings
begin

text \<open>
  The boot ram disk (ross-kernel/src/ramfs.rs): a ustar archive in memory, parsed once into a flat list
  of files. The archive format, on the writer's side, is the reference the parser is proved
  against.
\<close>

section \<open>State and operations\<close>

record TarHeader =
  hdr_name :: "u8 list"
  hdr_mode :: "u8 list"
  hdr_uid :: "u8 list"
  hdr_gid :: "u8 list"
  hdr_size :: "u8 list"
  hdr_mtime :: "u8 list"
  hdr_checksum :: "u8 list"
  hdr_typeflag :: "u8 list"
  hdr_linkname :: "u8 list"
  hdr_magic :: "u8 list"
  hdr_version :: "u8 list"
  hdr_uname :: "u8 list"
  hdr_gname :: "u8 list"
  hdr_devmajor :: "u8 list"
  hdr_devminor :: "u8 list"
  hdr_prefix :: "u8 list"

record TarFile =
  tar_name :: str
  tar_data :: "u8 list"

record TarFileSystem =
  tar_files :: "TarFile list"

definition tarfile_attribute :: "TarFile \<Rightarrow> Stat" where
  "tarfile_attribute f = \<lparr>stat_size = length (tar_data f), node_type = File\<rparr>"

text \<open>Like \<open>fat_read\<close>, \<^verbatim>\<open>read\<close> returns the number of bytes and the buffer.\<close>

definition tarfile_read :: "TarFile \<Rightarrow> nat \<Rightarrow> u8 list \<Rightarrow> (nat \<times> u8 list) res" where
  "tarfile_read f off buffer =
     (if length (tar_data f) \<le> off then Inr (0, buffer)
      else let available = length (tar_data f) - off; to_copy = min available (length buffer) in
        Inr (to_copy, put_at 0 (subslice off to_copy (tar_data f)) buffer))"

definition tarfile_readdir :: "TarFile \<Rightarrow> str list res" where
  "tarfile_readdir f = Inl (Err '''')"

definition tarfile_finddir :: "TarFile \<Rightarrow> str \<Rightarrow> TarFile res" where
  "tarfile_finddir f name = Inl (Err '''')"

text \<open>The cast of the bytes at an offset to the \<^verbatim>\<open>repr(C)\<close> structure.\<close>

definition header_at :: "u8 list \<Rightarrow> nat \<Rightarrow> TarHeader" where
  "header_at data off = (let fld = (\<lambda>o' n. subslice (off + o') n data) in
     \<lparr>hdr_name = fld 0 100, hdr_mode = fld 100 8, hdr_uid = fld 108 8, hdr_gid = fld 116 8,
      hdr_size = fld 124 12, hdr_mtime = fld 136 12, hdr_checksum = fld 148 8, hdr_typeflag = fld 156 1,
      hdr_linkname = fld 157 100, hdr_magic = fld 257 6, hdr_version = fld 263 2, hdr_uname = fld 265 32,
      hdr_gname = fld 297 32, hdr_devmajor = fld 329 8, hdr_devminor = fld 337 8, hdr_prefix = fld 345 155\<rparr>)"

definition ustar :: str where
  "ustar = [0x75, 0x73, 0x74, 0x61, 0x72]"

definition dot_slash :: str where
  "dot_slash = [0x2E, 0x2F]"

definition entry_name :: "TarHeader \<Rightarrow> str" where
  "entry_name h =
     (let name = trim_matches 0 (if utf8_valid (hdr_name h) then hdr_name h else []) in
      if starts_with dot_slash name then drop 2 name else name)"

definition entry_len :: "TarHeader \<Rightarrow> nat" where
  "entry_len h =
     (let size_str = (if utf8_valid (hdr_size h) then hdr_size h else [0x30]) in
      case from_str_radix 8 (trim (trim_matches 0 size_str)) of Some n \<Rightarrow> n | None \<Rightarrow> 0)"

text \<open>\<^verbatim>\<open>offset += 512 + ((size + 511) & !511)\<close>, with the overflow checks.\<close>

definition tar_advance :: "nat \<Rightarrow> nat \<Rightarrow> nat res" where
  "tar_advance off sz =
     bindR (usize_add sz 511) (\<lambda>t.
     bindR (usize_add 512 (t div 512 * 512)) (\<lambda>d.
     usize_add off d))"

definition slice :: "nat \<Rightarrow> nat \<Rightarrow> u8 list \<Rightarrow> u8 list res" where
  "slice lo hi data =
     (if lo \<le> hi \<and> hi \<le> length data then Inr (subslice lo (hi - lo) data)
      else Inl (Panic ''range end index out of range''))"

lemma tar_advance_gt: "tar_advance off sz = Inr off1 \<Longrightarrow> off < off1"
  by (auto simp: tar_advance_def bindR_Inr usize_add_def split: if_splits)

function tar_loop :: "u8 list \<Rightarrow> nat \<Rightarrow> TarFile list \<Rightarrow> TarFile list res" where
  "tar_loop data off files =
     bindR (usize_add off 512) (\<lambda>lim.
     if length data < lim then Inr files
     else let header = header_at data off in
       if take 5 (hdr_magic header) \<noteq> ustar then Inr files
       else let name = entry_name header; sz = entry_len header in
         if name = [] \<or> name = [0x2E] then
           bindR (tar_advance off sz) (\<lambda>off'. tar_loop data off' files)
         else
           bindR (usize_add (off + 512) sz) (\<lambda>hi.
           bindR (slice (off + 512) hi data) (\<lambda>file_data.
           bindR (tar_advance off sz) (\<lambda>off'.
             tar_loop data off' (files @ [\<lparr>tar_name = name, tar_data = file_data\<rparr>])))))"
  by pat_completeness auto
termination
  by (relation "measure (\<lambda>(data, off, files). length data - off)")
    (auto simp: usize_add_def dest!: tar_advance_gt split: if_splits)

declare tar_loop.simps [simp del]

definition tar_new :: "u8 list \<Rightarrow> TarFileSystem res" where
  "tar_new data = bindR (tar_loop data 0 []) (\<lambda>files. Inr \<lparr>tar_files = files\<rparr>)"

definition tarfs_attribute :: "TarFileSystem \<Rightarrow> Stat" where
  "tarfs_attribute t = \<lparr>stat_size = 0, node_type = Directory\<rparr>"

definition tarfs_read :: "TarFileSystem \<Rightarrow> nat \<Rightarrow> u8 list \<Rightarrow> (nat \<times> u8 list) res" where
  "tarfs_read t off buffer = Inl (Err '''')"

definition tarfs_readdir :: "TarFileSystem \<Rightarrow> str list res" where
  "tarfs_readdir t = Inr (map tar_name (tar_files t))"

definition tarfs_finddir :: "TarFileSystem \<Rightarrow> str \<Rightarrow> TarFile res" where
  "tarfs_finddir t name =
     (case find (\<lambda>f. tar_name f = name) (tar_files t) of
        Some f \<Rightarrow> Inr f
      | None \<Rightarrow> Inl (Err ''''))"

section \<open>The archive format\<close>

text \<open>
  A ustar entry: the header block, the data, and zeros up to the next block. The fields the
  kernel does not look at are taken from \<open>meta\<close>.
\<close>

definition meta_ok :: "TarHeader \<Rightarrow> bool" where
  "meta_ok h \<longleftrightarrow> length (hdr_mode h) = 8 \<and> length (hdr_uid h) = 8 \<and> length (hdr_gid h) = 8 \<and>
     length (hdr_mtime h) = 12 \<and> length (hdr_checksum h) = 8 \<and> length (hdr_typeflag h) = 1 \<and>
     length (hdr_linkname h) = 100 \<and> length (hdr_version h) = 2 \<and> length (hdr_uname h) = 32 \<and>
     length (hdr_gname h) = 32 \<and> length (hdr_devmajor h) = 8 \<and> length (hdr_devminor h) = 8 \<and>
     length (hdr_prefix h) = 155"

definition header_block :: "TarHeader \<Rightarrow> u8 list" where
  "header_block h = hdr_name h @ hdr_mode h @ hdr_uid h @ hdr_gid h @ hdr_size h @ hdr_mtime h @
     hdr_checksum h @ hdr_typeflag h @ hdr_linkname h @ hdr_magic h @ hdr_version h @ hdr_uname h @
     hdr_gname h @ hdr_devmajor h @ hdr_devminor h @ hdr_prefix h @ replicate 12 0"

definition entry_header :: "TarHeader \<Rightarrow> str \<Rightarrow> nat \<Rightarrow> TarHeader" where
  "entry_header meta name sz = meta\<lparr>hdr_name := name @ replicate (100 - length name) 0,
     hdr_size := digits 8 11 sz @ [0], hdr_magic := ustar @ [0]\<rparr>"

definition padded :: "nat \<Rightarrow> nat" where
  "padded n = (n + 511) div 512 * 512"

definition tar_entry :: "TarHeader \<Rightarrow> str \<Rightarrow> u8 list \<Rightarrow> u8 list" where
  "tar_entry meta name data =
     header_block (entry_header meta name (length data)) @ data @ replicate (padded (length data) - length data) 0"

text \<open>
  Archivers write a name as it is or behind \<^verbatim>\<open>./\<close>, and may put an entry for the
  directory \<^verbatim>\<open>./\<close> itself into the archive. The archive ends with zero
  blocks.
\<close>

datatype tar_item = Dir TarHeader | Plain TarHeader TarFile | Dotted TarHeader TarFile

primrec item_bytes :: "tar_item \<Rightarrow> u8 list" where
  "item_bytes (Dir meta) = tar_entry meta dot_slash []"
| "item_bytes (Plain meta f) = tar_entry meta (tar_name f) (tar_data f)"
| "item_bytes (Dotted meta f) = tar_entry meta (dot_slash @ tar_name f) (tar_data f)"

primrec item_files :: "tar_item \<Rightarrow> TarFile list" where
  "item_files (Dir meta) = []"
| "item_files (Plain meta f) = [f]"
| "item_files (Dotted meta f) = [f]"

definition tar_archive :: "tar_item list \<Rightarrow> u8 list" where
  "tar_archive items = concat (map item_bytes items) @ replicate 1024 0"

definition name_ok :: "str \<Rightarrow> bool" where
  "name_ok name \<longleftrightarrow> name \<noteq> [] \<and> name \<noteq> [0x2E] \<and> utf8_valid name \<and> hd name \<noteq> 0 \<and> last name \<noteq> 0 \<and>
     \<not> starts_with dot_slash name"

primrec item_ok :: "tar_item \<Rightarrow> bool" where
  "item_ok (Dir meta) \<longleftrightarrow> meta_ok meta"
| "item_ok (Plain meta f) \<longleftrightarrow> meta_ok meta \<and> name_ok (tar_name f) \<and> length (tar_name f) \<le> 100 \<and>
     length (tar_data f) < 8 ^ 11"
| "item_ok (Dotted meta f) \<longleftrightarrow> meta_ok meta \<and> name_ok (tar_name f) \<and> length (tar_name f) \<le> 98 \<and>
     length (tar_data f) < 8 ^ 11"

section \<open>Reading one entry back\<close>

lemma padded_simps [simp]: "n \<le> padded n" "padded n < n + 512" "padded 0 = 0"
  unfolding padded_def by simp_all

lemma length_header_block [simp]:
  "meta_ok h \<Longrightarrow> length (hdr_name h) = 100 \<Longrightarrow> length (hdr_size h) = 12 \<Longrightarrow> length (hdr_magic h) = 6 \<Longrightarrow>
    length (header_block h) = 512"
  by (simp add: meta_ok_def header_block_def)

lemma header_at_block:
  assumes "meta_ok h" and "length (hdr_name h) = 100" and "length (hdr_size h) = 12" and "length (hdr_magic h) = 6"
  shows "header_at (pre @ header_block h @ post) (length pre) = h"
  using assms by (simp add: meta_ok_def header_at_def header_block_def subslice_def)

lemma entry_header_simps [simp]:
  "meta_ok (entry_header meta name sz) \<longleftrightarrow> meta_ok meta"
  "length name \<le> 100 \<Longrightarrow> length (hdr_name (entry_header meta name sz)) = 100"
  "length (hdr_size (entry_header meta name sz)) = 12"
  "hdr_magic (entry_header meta name sz) = ustar @ [0]" "length ustar = 5"
  by (simp_all add: entry_header_def meta_ok_def ustar_def)

lemma length_tar_entry [simp]:
  "meta_ok meta \<Longrightarrow> length name \<le> 100 \<Longrightarrow> length (tar_entry meta name data) = 512 + padded (length data)"
  by (simp add: tar_entry_def)

lemma entry_name_header:
  assumes "utf8_valid name" and "name \<noteq> []" and "hd name \<noteq> 0" and "last name \<noteq> 0"
  shows "entry_name (entry_header meta name sz) = (if starts_with dot_slash name then drop 2 name else name)"
proof -
  have "utf8_valid (name @ replicate k 0)" for k
    using assms(1) by (simp add: utf8_valid_append utf8_valid_ascii)
  then show ?thesis using assms by (simp add: entry_name_def entry_header_def trim_matches_padded)
qed

lemma white_space_ends:
  "w \<in> set white_space \<Longrightarrow> \<not> (48 \<le> unat (hd w) \<and> unat (hd w) < 58)"
  "w \<in> set white_space \<Longrightarrow> \<not> (48 \<le> unat (last w) \<and> unat (last w) < 58)"
  by (auto simp: white_space_def upt_conv_Cons)

lemma entry_len_header:
  assumes "sz < 8 ^ 11"
  shows "entry_len (entry_header meta name sz) = sz"
proof -
  let ?d = "digits 8 11 sz"
  have ne: "?d \<noteq> []" by (metis length_digits list.size(3) zero_neq_numeral)
  have r: "48 \<le> unat b \<and> unat b < 56" if "b \<in> set ?d" for b using digits_range [OF that] by simp
  have "\<forall>b \<in> set (?d @ [0]). b < 0x80" using r by (force simp: word_less_nat_alt)
  then have u: "utf8_valid (?d @ [0])" by (rule utf8_valid_ascii)
  have "hd ?d \<noteq> 0" "last ?d \<noteq> 0" using r [OF hd_in_set [OF ne]] r [OF last_in_set [OF ne]] by auto
  from trim_matches_padded [OF ne this, of 1] have t: "trim_matches 0 (?d @ [0]) = ?d" by simp
  have "hd ?d \<notin> hd ` set white_space" "last ?d \<notin> last ` set white_space"
    using r [OF hd_in_set [OF ne]] r [OF last_in_set [OF ne]] white_space_ends by fastforce+
  from trim_id [OF ne this] have "trim ?d = ?d" .
  moreover have "from_str_radix 8 ?d = Some sz"
    using assms by (intro from_str_radix_digits) (simp_all add: usize_bound_def)
  ultimately show ?thesis by (simp add: entry_len_def entry_header_def u t)
qed

section \<open>Reading an archive back\<close>

lemma tar_advance_ok: "off + 512 + padded sz < usize_bound \<Longrightarrow> tar_advance off sz = Inr (off + (512 + padded sz))"
  by (simp add: tar_advance_def padded_def usize_add_def bindR_def)

lemma tar_loop_entry:
  assumes "meta_ok meta" and "length raw \<le> 100" and "length data < 8 ^ 11"
    and "utf8_valid raw" "raw \<noteq> []" "hd raw \<noteq> 0" "last raw \<noteq> 0"
    and name: "name = (if starts_with dot_slash raw then drop 2 raw else raw)"
    and archive: "archive = pre @ tar_entry meta raw data @ post" and "length archive < 2 ^ 63"
  shows "tar_loop archive (length pre) files =
    tar_loop archive (length pre + length (tar_entry meta raw data))
      (files @ (if name = [] \<or> name = [0x2E] then [] else [\<lparr>tar_name = name, tar_data = data\<rparr>]))"
proof -
  let ?h = "entry_header meta raw (length data)" and ?n = "length data"
  have len: "length pre + 512 + padded ?n \<le> length archive" using assms(1,2) archive by simp
  then have b: "length pre + 512 + padded ?n < usize_bound" using assms(10) by (simp add: usize_bound_def)
  have b': "length pre + 512 + ?n < usize_bound" by (rule le_less_trans [OF _ b]) simp
  have le: "length pre + 512 + ?n \<le> length archive" by (rule order_trans [OF _ len]) simp
  have h: "header_at archive (length pre) = ?h"
    using assms(1,2) header_at_block [of ?h pre] by (simp add: archive tar_entry_def)
  have n: "entry_name ?h = name" "entry_len ?h = ?n" "take 5 (hdr_magic ?h) = ustar"
    using entry_name_header [of raw] entry_len_header assms by simp_all
  have d: "slice (length pre + 512) (length pre + 512 + ?n) archive = Inr data"
    using le assms(1,2) by (simp add: slice_def archive tar_entry_def subslice_def)
  show ?thesis
    using b b' le assms(1,2)
    by (subst tar_loop.simps) (simp add: h n d tar_advance_ok)
qed

lemma dot_slash_simps [simp]: "starts_with dot_slash (dot_slash @ s)" "length dot_slash = 2" "hd dot_slash = 0x2E"
  "dot_slash \<noteq> []" "drop 2 dot_slash = []" "drop 2 (dot_slash @ s) = s" "last dot_slash = 0x2F" "starts_with dot_slash dot_slash"
  "utf8_valid dot_slash"
  using utf8_valid_ascii [of dot_slash] by (simp_all add: starts_with_def dot_slash_def)

lemma tar_file_eta [simp]: "\<lparr>tar_name = tar_name f, tar_data = tar_data f\<rparr> = f"
  by simp

lemma tar_loop_item:
  assumes "item_ok it" and archive: "archive = pre @ item_bytes it @ post" and "length archive < 2 ^ 63"
  shows "tar_loop archive (length pre) files =
    tar_loop archive (length (pre @ item_bytes it)) (files @ item_files it)"
proof (cases it)
  case (Dir meta)
  with assms tar_loop_entry [of meta dot_slash "[]" "[]" archive pre post files] show ?thesis by simp
next
  case (Plain meta f)
  with assms tar_loop_entry [of meta "tar_name f" "tar_data f" "tar_name f" archive pre post files]
  show ?thesis by (simp add: name_ok_def)
next
  case (Dotted meta f)
  with assms tar_loop_entry [of meta "dot_slash @ tar_name f" "tar_data f" "tar_name f" archive pre post files]
  show ?thesis by (simp add: name_ok_def utf8_valid_append)
qed

lemma tar_loop_end:
  assumes "archive = pre @ replicate 1024 0" and "length archive < 2 ^ 63"
  shows "tar_loop archive (length pre) files = Inr files"
proof -
  have "take 5 (hdr_magic (header_at archive (length pre))) = replicate 5 0"
    by (simp add: header_at_def subslice_def assms(1))
  moreover have "replicate 5 0 ! 0 \<noteq> ustar ! 0" by (simp add: ustar_def)
  then have "replicate 5 0 \<noteq> ustar" by force
  ultimately show ?thesis using assms by (subst tar_loop.simps) (simp add: usize_bound_def)
qed

lemma tar_loop_items:
  assumes "\<forall>it \<in> set items. item_ok it"
    and "archive = pre @ concat (map item_bytes items) @ replicate 1024 0" and "length archive < 2 ^ 63"
  shows "tar_loop archive (length pre) files = Inr (files @ concat (map item_files items))"
  using assms
proof (induction items arbitrary: pre files)
  case Nil
  then show ?case by (simp add: tar_loop_end)
next
  case (Cons it items)
  then have "tar_loop archive (length pre) files = tar_loop archive (length (pre @ item_bytes it)) (files @ item_files it)"
    by (intro tar_loop_item [where post = "concat (map item_bytes items) @ replicate 1024 0"]) simp_all
  with Cons.IH [of "pre @ item_bytes it" "files @ item_files it"] Cons.prems show ?case by simp
qed

lemma tar_new_items:
  assumes "\<forall>it \<in> set items. item_ok it" and "length (tar_archive items) < 2 ^ 63"
  shows "tar_new (tar_archive items) = Inr \<lparr>tar_files = concat (map item_files items)\<rparr>"
  using tar_loop_items [OF assms(1) _ assms(2), of "[]" "[]"] by (simp add: tar_archive_def tar_new_def)

text \<open>
  \<^bold>\<open>C15.\<close> The ram disk is what was archived: for every archive in the ustar format, of plain
  entries, entries behind \<^verbatim>\<open>./\<close> and entries of the root directory, with any owner, mode and
  time fields, \<open>tar_new\<close> returns exactly the archived files with their names and
  contents, in the order of the archive.
\<close>

theorem tar_roundtrip:
  assumes "\<forall>it \<in> set items. item_ok it" and "length (tar_archive items) < 2 ^ 63"
  shows "tar_new (tar_archive items) = Inr \<lparr>tar_files = concat (map item_files items)\<rparr>"
  by (rule tar_new_items [OF assms])

definition demo_meta :: TarHeader where
  "demo_meta = \<lparr>hdr_name = [], hdr_mode = replicate 8 0, hdr_uid = replicate 8 0, hdr_gid = replicate 8 0,
      hdr_size = [], hdr_mtime = replicate 12 0, hdr_checksum = replicate 8 0, hdr_typeflag = [0x30],
      hdr_linkname = replicate 100 0, hdr_magic = [], hdr_version = [0x30, 0x30], hdr_uname = replicate 32 0,
      hdr_gname = replicate 32 0, hdr_devmajor = replicate 8 0, hdr_devminor = replicate 8 0, hdr_prefix = replicate 155 0\<rparr>"

definition demo_motd :: TarFile where
  "demo_motd = \<lparr>tar_name = [0x6D, 0x6F, 0x74, 0x64], tar_data = [0x68, 0x69]\<rparr>"

lemma demo_meta_ok: "meta_ok demo_meta"
  by (simp add: meta_ok_def demo_meta_def)

lemma demo_motd_ok: "name_ok (tar_name demo_motd)"
  using utf8_valid_ascii [of "tar_name demo_motd"]
  by (simp add: name_ok_def demo_motd_def starts_with_def dot_slash_def)

definition demo_items :: "tar_item list" where
  "demo_items = [Dir demo_meta, Dotted demo_meta demo_motd]"

lemma demo_items_ok: "\<forall>it \<in> set demo_items. item_ok it" "length (tar_archive demo_items) < 2 ^ 63"
  using demo_meta_ok demo_motd_ok by (simp_all add: demo_items_def tar_archive_def demo_motd_def padded_def)

theorem tar_roundtrip_witness:
  "tar_new (tar_archive [Dir demo_meta, Dotted demo_meta demo_motd]) = Inr \<lparr>tar_files = [demo_motd]\<rparr>"
  using tar_roundtrip [OF demo_items_ok] by (simp add: demo_items_def)

section \<open>Any image\<close>

text \<open>On arbitrary bytes, what the parser returns lies inside the image.\<close>

definition file_in :: "u8 list \<Rightarrow> TarFile \<Rightarrow> bool" where
  "file_in data f \<longleftrightarrow> tar_name f \<noteq> [] \<and> tar_name f \<noteq> [0x2E] \<and>
     (\<exists>off. 512 \<le> off \<and> off + length (tar_data f) \<le> length data \<and> tar_data f = subslice off (length (tar_data f)) data)"

lemma slice_in:
  assumes "slice lo hi data = Inr d" and "512 \<le> lo" and "name \<noteq> []" and "name \<noteq> [0x2E]"
  shows "file_in data \<lparr>tar_name = name, tar_data = d\<rparr>"
proof -
  from assms(1) have "lo \<le> hi" "hi \<le> length data" "d = subslice lo (hi - lo) data"
    by (auto simp: slice_def split: if_splits)
  then have "lo + length d \<le> length data" "d = subslice lo (length d) data" by simp_all
  with assms(2-4) show ?thesis by (auto simp: file_in_def)
qed

lemma tar_loop_inside:
  assumes "tar_loop data off files = Inr files'" and "\<forall>f \<in> set files. file_in data f"
  shows "\<forall>f \<in> set files'. file_in data f"
  using assms
proof (induction data off files rule: tar_loop.induct)
  case (1 data off files)
  let ?h = "header_at data off"
  let ?name = "entry_name ?h" and ?sz = "entry_len ?h"
  from 1(3) have add: "usize_add off 512 = Inr (off + 512)"
    by (subst (asm) tar_loop.simps) (auto simp: bindR_Inr usize_add_def split: if_splits)
  consider (stop) "files' = files"
    | (skip) off1 where "\<not> length data < off + 512" "\<not> take 5 (hdr_magic ?h) \<noteq> ustar" "?name = [] \<or> ?name = [0x2E]"
        "tar_advance off ?sz = Inr off1" "tar_loop data off1 files = Inr files'"
    | (entry) hi d off1 where "\<not> length data < off + 512" "\<not> take 5 (hdr_magic ?h) \<noteq> ustar" "\<not> (?name = [] \<or> ?name = [0x2E])"
        "usize_add (off + 512) ?sz = Inr hi" "slice (off + 512) hi data = Inr d" "tar_advance off ?sz = Inr off1"
        "tar_loop data off1 (files @ [\<lparr>tar_name = ?name, tar_data = d\<rparr>]) = Inr files'"
    using 1(3) add by (subst (asm) tar_loop.simps) (auto simp: bindR_Inr Let_def split: if_splits)
  then show ?case
  proof cases
    case stop
    with 1(4) show ?thesis by simp
  next
    case skip
    from 1(1) [OF add skip(1) refl skip(2) refl refl skip(3,4,5) 1(4)] show ?thesis .
  next
    case entry
    from slice_in [OF entry(5), of ?name] entry(3) 1(4)
    have "\<forall>f \<in> set (files @ [\<lparr>tar_name = ?name, tar_data = d\<rparr>]). file_in data f" by simp
    from 1(2) [OF add entry(1) refl entry(2) refl refl entry(3,4,5,6,7) this] show ?thesis .
  qed
qed

text \<open>
  Whatever bytes the loader hands over, the files of a successful parse have a name
  and their contents are bytes of the image, behind a header block.
\<close>

lemma tar_new_inside:
  assumes "tar_new data = Inr t" and "f \<in> set (tar_files t)"
  shows "file_in data f"
proof -
  from assms(1) have "tar_loop data 0 [] = Inr (tar_files t)"
    by (auto simp: tar_new_def bindR_Inr)
  from tar_loop_inside [OF this] assms(2) show ?thesis by simp
qed

end
