(* ===== verification/Ahci.thy ===== *)
theory Ahci
  imports Prelude
begin

text \<open>
  The SATA driver (ross-kernel/src/ahci.rs): the command structures the driver builds in
  memory, the guards and the polling loop of \<^verbatim>\<open>read_sectors\<close> and
  \<^verbatim>\<open>write_sectors\<close>. The controller and the drive are hardware: they are the parameter
  \<open>hba\<close> of the driver, and what the driver relies on is the locale \<open>ata_drive\<close>, which states
  what the AHCI and ATA command set documents promise for a well-formed transfer command.
  The contract of the driver, as its clients use it, is the locale \<open>block_device\<close>.
\<close>

type_synonym sector = "u8 list"

section \<open>Command structures\<close>

record CommandHeader =
  flags :: u16
  prdtl :: u16
  prdbc :: u32
  ctba :: u32
  ctbau :: u32

record PrdtEntry =
  dba :: u32
  dbau :: u32
  dbc :: u32

record CommandTable =
  cfis :: "u8 list"
  acmd :: "u8 list"
  prdt :: "PrdtEntry list"

record PortState =
  port :: u8
  clb_phys :: u64
  ct_phys :: u64
  dma_phys :: u64

text \<open>
  The driver's state: \<^verbatim>\<open>PORT\<close>, the command header of slot 0 (at \<open>clb_phys\<close>), the command
  table (at \<open>ct_phys\<close>), the memory the controller transfers to and from, by page, and the
  drive.
\<close>

record 'd ahci =
  PORT :: "PortState option"
  header :: CommandHeader
  ctable :: CommandTable
  pages :: "u64 \<Rightarrow> u8 list"
  media :: 'd

definition ATA_CMD_READ_DMA_EXT :: u8 where "ATA_CMD_READ_DMA_EXT = 0x25"
definition ATA_CMD_WRITE_DMA_EXT :: u8 where "ATA_CMD_WRITE_DMA_EXT = 0x35"
definition IS_TFES :: u32 where "IS_TFES = one_shl 30"
definition TFD_ERR :: u32 where "TFD_ERR = one_shl 0"

text \<open>
  The registers the driver polls after it has set the command-issue bit: \<open>PX_IS\<close> and \<open>PX_CI\<close>
  at each turn of the loop, \<open>PX_TFD\<close> after it.
\<close>

record reply =
  px_is :: "nat \<Rightarrow> u32"
  px_ci :: "nat \<Rightarrow> u32"
  px_tfd :: u32

text \<open>
  The controller: given the port, the header and the table of the issued command, memory and
  the drive, the registers it shows, and the memory and the drive it leaves behind.
\<close>

type_synonym 'd hba = "u8 \<Rightarrow> CommandHeader \<Rightarrow> CommandTable \<Rightarrow> (u64 \<Rightarrow> u8 list) \<Rightarrow> 'd
  \<Rightarrow> reply \<times> (u64 \<Rightarrow> u8 list) \<times> 'd"

section \<open>The driver\<close>

definition make_cfis :: "u8 \<Rightarrow> u64 \<Rightarrow> u16 \<Rightarrow> u8 list" where
  "make_cfis cmd lba count =
     (replicate 64 0)[0 := 0x27, 1 := one_shl 7, 2 := cmd,
        4 := ucast (lba AND 0xFF),
        5 := ucast (drop_bit 8 lba AND 0xFF),
        6 := ucast (drop_bit 16 lba AND 0xFF),
        7 := one_shl 6,
        8 := ucast (drop_bit 24 lba AND 0xFF),
        9 := ucast (drop_bit 32 lba AND 0xFF),
        10 := ucast (drop_bit 40 lba AND 0xFF),
        12 := ucast (count AND 0xFF),
        13 := ucast (drop_bit 8 count AND 0xFF)]"

definition make_prdt :: "u64 \<Rightarrow> nat \<Rightarrow> PrdtEntry" where
  "make_prdt addr nbytes =
     \<lparr>dba = ucast (addr AND 0xFFFFFFFF), dbau = ucast (drop_bit 32 addr), dbc = of_nat nbytes - 1\<rparr>"

definition fill_table :: "u8 \<Rightarrow> u64 \<Rightarrow> u16 \<Rightarrow> u64 \<Rightarrow> nat \<Rightarrow> CommandTable \<Rightarrow> CommandTable" where
  "fill_table cmd lba count addr nbytes t =
     t\<lparr>cfis := make_cfis cmd lba count, prdt := (prdt t)[0 := make_prdt addr nbytes]\<rparr>"

text \<open>The completion loop: at most \<open>n\<close> more turns, the next one is turn \<open>i\<close>.\<close>

datatype polled = Cleared | TaskFileError | TimedOut

fun poll :: "nat \<Rightarrow> reply \<Rightarrow> nat \<Rightarrow> polled" where
  "poll n r i =
     (if n = 0 then TimedOut
      else if px_is r i AND IS_TFES \<noteq> 0 then TaskFileError
      else if px_ci r i AND 1 = 0 then Cleared
      else poll (n - 1) r (i + 1))"

declare poll.simps [simp del]

definition complete :: "string \<Rightarrow> reply \<Rightarrow> unit res" where
  "complete timeout r =
     (case poll 10000000 r 0 of
        TaskFileError \<Rightarrow> Inl (Err ''AHCI task file error'')
      | TimedOut \<Rightarrow> Inl (Err timeout)
      | Cleared \<Rightarrow> if px_tfd r AND TFD_ERR \<noteq> 0 then Inl (Err ''AHCI TFD error bit'') else Inr ())"

text \<open>\<^verbatim>\<open>PORT.lock()\<close> and \<open>ok_or\<close>.\<close>

definition port_state :: "('d ahci, PortState) op" where
  "port_state s = (case PORT s of None \<Rightarrow> (Inl (Err ''AHCI not initialized''), s) | Some p \<Rightarrow> (Inr p, s))"

text \<open>Writing 1 to \<open>PX_CI\<close> hands the command to the controller.\<close>

definition issue :: "'d hba \<Rightarrow> string \<Rightarrow> PortState \<Rightarrow> ('d ahci, unit) op" where
  "issue hba timeout p s =
     (let (r, m, d) = hba (port p) (header s) (ctable s) (pages s) (media s)
      in (complete timeout r, s\<lparr>pages := m, media := d\<rparr>))"

definition read_sectors :: "'d hba \<Rightarrow> u64 \<Rightarrow> u16 \<Rightarrow> u8 list \<Rightarrow> ('d ahci, u8 list) op" where
  "read_sectors hba lba count buf =
     (if count = 0 then retS buf
      else if count > 8 then throwS (Err ''AHCI: max 8 sectors per call'')
      else let bytes = unat count * 512 in
        if length buf < bytes then throwS (Err ''AHCI: buf too small'')
        else bindS port_state (\<lambda>p.
          bindS (\<lambda>s. (Inr (), s\<lparr>
                   ctable := fill_table ATA_CMD_READ_DMA_EXT lba count (dma_phys p) bytes (ctable s),
                   header := (header s)\<lparr>flags := 5, prdtl := 1, prdbc := 0\<rparr>\<rparr>)) (\<lambda>_.
          bindS (issue hba ''AHCI read timed out'' p) (\<lambda>_.
          (\<lambda>s. (Inr (put_at 0 (take bytes (pages s (dma_phys p))) buf), s))))))"

definition write_sectors :: "'d hba \<Rightarrow> u64 \<Rightarrow> u16 \<Rightarrow> u8 list \<Rightarrow> ('d ahci, unit) op" where
  "write_sectors hba lba count buf =
     (if count = 0 then retS ()
      else if count > 8 then throwS (Err ''AHCI: max 8 sectors per call'')
      else let bytes = unat count * 512 in
        if length buf < bytes then throwS (Err ''AHCI: buf too small'')
        else bindS port_state (\<lambda>p.
          bindS (\<lambda>s. (Inr (), s\<lparr>
                   pages := (pages s)(dma_phys p := put_at 0 (take bytes buf) (pages s (dma_phys p))),
                   ctable := fill_table ATA_CMD_WRITE_DMA_EXT lba count (dma_phys p) bytes (ctable s),
                   header := (header s)\<lparr>flags := 5 OR one_shl 6, prdtl := 1, prdbc := 0\<rparr>\<rparr>)) (\<lambda>_.
          issue hba ''AHCI write timed out'' p)))"

definition is_ready :: "'d ahci \<Rightarrow> bool" where
  "is_ready s \<longleftrightarrow> PORT s \<noteq> None"

section \<open>What the drive reads from a command\<close>

definition fis_lba :: "u8 list \<Rightarrow> nat" where
  "fis_lba f = unat (le_word [f ! 4, f ! 5, f ! 6, f ! 8, f ! 9, f ! 10] :: u64)"

definition fis_count :: "u8 list \<Rightarrow> nat" where
  "fis_count f = unat (u16_le (f ! 12) (f ! 13))"

definition prd_addr :: "PrdtEntry \<Rightarrow> u64" where
  "prd_addr e = ucast (dba e) OR push_bit 32 (ucast (dbau e))"

text \<open>
  A register FIS of five dwords with the command bit and 48 bit addressing, one PRDT entry
  that covers the transfer, and the direction bit that the command asks for.
\<close>

definition transfer_cmd :: "u8 \<Rightarrow> bool \<Rightarrow> nat \<Rightarrow> nat \<Rightarrow> u64 \<Rightarrow> CommandHeader \<Rightarrow> CommandTable \<Rightarrow> bool" where
  "transfer_cmd cmd w lba n addr h t \<longleftrightarrow>
     cfis t ! 0 = 0x27 \<and> bit (cfis t ! 1) 7 \<and> cfis t ! 2 = cmd \<and> bit (cfis t ! 7) 6 \<and>
     fis_lba (cfis t) = lba \<and> fis_count (cfis t) = n \<and>
     take_bit 5 (flags h) = 5 \<and> (bit (flags h) 6 \<longleftrightarrow> w) \<and> prdtl h = 1 \<and>
     prdt t \<noteq> [] \<and> prd_addr (prdt t ! 0) = addr \<and> unat (dbc (prdt t ! 0)) + 1 = n * 512"

definition sectors_at :: "(nat \<Rightarrow> sector) \<Rightarrow> nat \<Rightarrow> nat \<Rightarrow> u8 list" where
  "sectors_at f lba n = concat (map f [lba ..< lba + n])"

definition store_sectors :: "nat \<Rightarrow> nat \<Rightarrow> u8 list \<Rightarrow> (nat \<Rightarrow> sector) \<Rightarrow> nat \<Rightarrow> sector" where
  "store_sectors lba n bs f =
     (\<lambda>k. if lba \<le> k \<and> k < lba + n then subslice ((k - lba) * 512) 512 bs else f k)"

text \<open>The registers of a command that completes without an error within the driver's patience.\<close>

definition completes :: "reply \<Rightarrow> bool" where
  "completes r \<longleftrightarrow> (\<exists>n < 10000000. px_ci r n AND 1 = 0 \<and> (\<forall>i \<le> n. px_is r i AND IS_TFES = 0)) \<and>
     px_tfd r AND TFD_ERR = 0"

section \<open>The command block\<close>

lemma mask_bytes: "(x :: 'a::len word) AND 0xFF = take_bit 8 x"
proof -
  have "(0xFF :: 'a word) = mask 8" by (simp add: mask_eq_exp_minus_1)
  then show ?thesis by (simp add: take_bit_eq_mask)
qed

lemma ucast_take_bit: "(ucast (take_bit 8 (x :: 'a::len word)) :: u8) = ucast x"
  by (rule bit_word_eqI) (simp add: bit_simps)

lemma le_bytes_drop: "le_bytes n (w :: 'a::len word) = map (\<lambda>i. ucast (drop_bit (8 * i) w)) [0 ..< n]"
proof (induction n arbitrary: w)
  case (Suc n)
  have "[0 ..< Suc n] = 0 # map Suc [0 ..< n]" by (simp add: upt_conv_Cons map_Suc_upt del: upt_Suc)
  then show ?case using Suc by (simp add: drop_bit_drop_bit add.commute o_def del: upt_Suc)
qed simp

lemma make_cfis_nth:
  "make_cfis cmd lba count ! 0 = 0x27" "make_cfis cmd lba count ! 1 = one_shl 7"
  "make_cfis cmd lba count ! 2 = cmd" "make_cfis cmd lba count ! 7 = one_shl 6"
  "make_cfis cmd lba count ! 4 = ucast lba" "make_cfis cmd lba count ! 5 = ucast (drop_bit 8 lba)"
  "make_cfis cmd lba count ! 6 = ucast (drop_bit 16 lba)" "make_cfis cmd lba count ! 8 = ucast (drop_bit 24 lba)"
  "make_cfis cmd lba count ! 9 = ucast (drop_bit 32 lba)" "make_cfis cmd lba count ! 10 = ucast (drop_bit 40 lba)"
  "make_cfis cmd lba count ! 12 = ucast count" "make_cfis cmd lba count ! 13 = ucast (drop_bit 8 count)"
  by (simp_all add: make_cfis_def mask_bytes ucast_take_bit)

lemma upt_6: "[0 ..< 6] = [0, 1, 2, 3, 4, 5 :: nat]"
  by (simp add: upt_rec)

lemma upt_2: "[0 ..< 2] = [0, 1 :: nat]"
  by (simp add: upt_rec)

lemma fis_decode:
  assumes "unat lba < 2 ^ 48"
  shows "fis_lba (make_cfis cmd lba count) = unat lba"
proof -
  let ?f = "make_cfis cmd lba count"
  have "[?f ! 4, ?f ! 5, ?f ! 6, ?f ! 8, ?f ! 9, ?f ! 10] = le_bytes 6 lba"
    by (simp add: le_bytes_drop upt_6 make_cfis_nth)
  then show "fis_lba ?f = unat lba"
    unfolding fis_lba_def by (simp only: le_word_le_bytes) (use assms in \<open>simp add: take_bit_small\<close>)
qed

lemma fis_count_decode: "fis_count (make_cfis cmd lba count) = unat count"
proof -
  let ?f = "make_cfis cmd lba count"
  have "[?f ! 12, ?f ! 13] = le_bytes 2 count"
    by (simp add: le_bytes_drop upt_2 make_cfis_nth)
  then have "u16_le (?f ! 12) (?f ! 13) = count" by (simp only:) (simp add: le_word_le_bytes take_bit_full)
  then show "fis_count ?f = unat count" unfolding fis_count_def by simp
qed

lemma prd_addr_make: "prd_addr (make_prdt a n) = a"
proof -
  have "(0xFFFFFFFF :: u64) = mask 32" by (simp add: mask_eq_exp_minus_1)
  then have "a AND 0xFFFFFFFF = take_bit 32 a" by (simp add: take_bit_eq_mask)
  then show ?thesis
    unfolding prd_addr_def make_prdt_def by (intro bit_word_eqI) (auto simp: bit_simps)
qed

lemma dbc_make:
  assumes "0 < n" and "n < 2 ^ 32"
  shows "unat (dbc (make_prdt a n)) + 1 = n"
proof -
  have "unat (of_nat n :: u32) = n" using assms by (simp add: unat_of_nat)
  then have "unat (of_nat n - 1 :: u32) = n - 1" using assms by (simp add: unat_minus_one word_unat_eq_iff)
  then show ?thesis using assms by (simp add: make_prdt_def)
qed

lemma transfer_cmd_made:
  assumes "unat lba < 2 ^ 48" and "count \<noteq> 0" and "count \<le> 8" and "prdt t \<noteq> []"
  shows "transfer_cmd ATA_CMD_READ_DMA_EXT False (unat lba) (unat count) a (h\<lparr>flags := 5, prdtl := 1, prdbc := 0\<rparr>)
           (fill_table ATA_CMD_READ_DMA_EXT lba count a (unat count * 512) t)" (is ?r)
    and "transfer_cmd ATA_CMD_WRITE_DMA_EXT True (unat lba) (unat count) a
           (h\<lparr>flags := 5 OR one_shl 6, prdtl := 1, prdbc := 0\<rparr>)
           (fill_table ATA_CMD_WRITE_DMA_EXT lba count a (unat count * 512) t)" (is ?w)
proof -
  have c: "0 < unat count" "unat count \<le> 8" using assms by (simp_all add: word_le_nat_alt unat_gt_0)
  have d: "unat (dbc (make_prdt a (unat count * 512))) + 1 = unat count * 512" using c by (intro dbc_make) simp_all
  have fl: "take_bit 5 (5 :: u16) = 5" "\<not> bit (5 :: u16) 6" by simp_all
  have z: "take_bit 5 (one_shl 6 :: u16) = 0" by (rule bit_word_eqI) (auto simp: bit_simps)
  have fw: "take_bit 5 (5 OR one_shl 6 :: u16) = 5" "bit (5 OR one_shl 6 :: u16) 6"
    by (simp_all only: take_bit_or z) (simp_all add: bit_simps)
  note base = transfer_cmd_def fill_table_def make_cfis_nth fis_decode [OF assms(1)] fis_count_decode prd_addr_make d assms(4)
  show ?r by (simp add: base fl del: One_nat_def)
  show ?w by (simp add: base z fw del: One_nat_def)
qed

section \<open>Completion\<close>

lemma poll_cleared:
  assumes "px_ci r (i + k) AND 1 = 0" and "\<forall>j \<le> i + k. px_is r j AND IS_TFES = 0" and "k < n"
  shows "poll n r i = Cleared"
  using assms
proof (induction k arbitrary: i n)
  case (Suc k)
  then show ?case by (subst poll.simps) (simp add: Suc.IH)
qed (subst poll.simps, simp)

lemma complete_ok: "completes r \<Longrightarrow> complete msg r = Inr ()"
  using poll_cleared [of r 0 _ 10000000] by (auto simp: completes_def complete_def)

section \<open>The contracts\<close>

text \<open>
  The hardware: a drive whose sectors \<open>sect\<close> shows, of \<open>cap\<close> sectors. A well-formed transfer
  inside the drive completes; a read puts the sectors at the address of the PRDT entry, a
  write stores the bytes found there.
\<close>

locale ata_drive =
  fixes hba :: "'d hba" and sect :: "'d \<Rightarrow> nat \<Rightarrow> sector" and cap :: "'d \<Rightarrow> nat"
  assumes length_sect: "length (sect d k) = 512"
    and cap_48: "cap d \<le> 2 ^ 48"
    and drive_read: "transfer_cmd ATA_CMD_READ_DMA_EXT False lba n a h t \<Longrightarrow> 0 < n \<Longrightarrow> lba + n \<le> cap d \<Longrightarrow>
      n * 512 \<le> length (m a) \<Longrightarrow>
      \<exists>r d'. hba p h t m d = (r, m(a := put_at 0 (sectors_at (sect d) lba n) (m a)), d') \<and> completes r \<and>
        sect d' = sect d \<and> cap d' = cap d"
    and drive_write: "transfer_cmd ATA_CMD_WRITE_DMA_EXT True lba n a h t \<Longrightarrow> 0 < n \<Longrightarrow> lba + n \<le> cap d \<Longrightarrow>
      n * 512 \<le> length (m a) \<Longrightarrow>
      \<exists>r d'. hba p h t m d = (r, m, d') \<and> completes r \<and>
        sect d' = store_sectors lba n (m a) (sect d) \<and> cap d' = cap d"

text \<open>
  The driver, as the filesystem sees it: reads return the sectors of the disk, writes store
  them, and both keep the device ready.
\<close>

record 's device =
  dev_read :: "u64 \<Rightarrow> u16 \<Rightarrow> u8 list \<Rightarrow> ('s, u8 list) op"
  dev_write :: "u64 \<Rightarrow> u16 \<Rightarrow> u8 list \<Rightarrow> ('s, unit) op"

definition ahci_device :: "'d hba \<Rightarrow> 'd ahci device" where
  "ahci_device hba = \<lparr>dev_read = read_sectors hba, dev_write = write_sectors hba\<rparr>"

locale block_device =
  fixes dev :: "'s device"
    and disk :: "'s \<Rightarrow> nat \<Rightarrow> sector" and size_of :: "'s \<Rightarrow> nat" and ready :: "'s \<Rightarrow> bool"
  assumes length_disk: "length (disk s k) = 512"
    and size_bound: "size_of s \<le> 2 ^ 48"
    and rd_ok: "ready s \<Longrightarrow> count \<noteq> 0 \<Longrightarrow> count \<le> 8 \<Longrightarrow> unat lba + unat count \<le> size_of s \<Longrightarrow>
      unat count * 512 \<le> length buf \<Longrightarrow>
      \<exists>s'. dev_read dev lba count buf s = (Inr (put_at 0 (sectors_at (disk s) (unat lba) (unat count)) buf), s') \<and>
        ready s' \<and> disk s' = disk s \<and> size_of s' = size_of s"
    and wr_ok: "ready s \<Longrightarrow> count \<noteq> 0 \<Longrightarrow> count \<le> 8 \<Longrightarrow> unat lba + unat count \<le> size_of s \<Longrightarrow>
      unat count * 512 \<le> length buf \<Longrightarrow>
      \<exists>s'. dev_write dev lba count buf s = (Inr (), s') \<and>
        ready s' \<and> disk s' = store_sectors (unat lba) (unat count) buf (disk s) \<and> size_of s' = size_of s"

text \<open>The device is set up: a port, a DMA page of 4096 bytes and a command table.\<close>

definition port_ready :: "'d ahci \<Rightarrow> bool" where
  "port_ready s \<longleftrightarrow> (case PORT s of None \<Rightarrow> False
     | Some p \<Rightarrow> length (pages s (dma_phys p)) = 4096 \<and> prdt (ctable s) \<noteq> [])"

lemma length_sectors_at [simp]: "(\<And>k. length (f k) = 512) \<Longrightarrow> length (sectors_at f lba n) = n * 512"
  by (simp add: sectors_at_def length_concat o_def sum_list_const_mult sum_list_triv)

lemma store_sectors_prefix:
  assumes "n * 512 \<le> length bs"
  shows "store_sectors lba n (put_at 0 (take (n * 512) bs) m) f = store_sectors lba n bs f"
proof -
  have "subslice ((k - lba) * 512) 512 (put_at 0 (take (n * 512) bs) m) = subslice ((k - lba) * 512) 512 bs"
    if "lba \<le> k" "k < lba + n" for k
  proof -
    have "(k - lba) * 512 + 512 \<le> n * 512" using that by simp
    then show ?thesis using assms by (simp add: subslice_def put_at_def take_drop min_def)
  qed
  then show ?thesis by (auto simp: store_sectors_def fun_eq_iff)
qed

lemma count_bounds: "count \<noteq> 0 \<Longrightarrow> count \<le> (8 :: u16) \<Longrightarrow> 0 < unat count \<and> unat count \<le> 8"
  by (simp add: word_le_nat_alt unat_gt_0)

context ata_drive
begin

lemma read_sectors_ok:
  assumes "port_ready s" and "count \<noteq> 0" "count \<le> 8" and "unat lba + unat count \<le> cap (media s)"
    and "unat count * 512 \<le> length buf"
  shows "\<exists>s'. read_sectors hba lba count buf s =
      (Inr (put_at 0 (sectors_at (sect (media s)) (unat lba) (unat count)) buf), s') \<and>
    port_ready s' \<and> sect (media s') = sect (media s) \<and> cap (media s') = cap (media s)"
proof -
  obtain p where p: "PORT s = Some p" "length (pages s (dma_phys p)) = 4096" "prdt (ctable s) \<noteq> []"
    using assms(1) by (auto simp: port_ready_def split: option.splits)
  have c: "0 < unat count" "unat count \<le> 8" using count_bounds assms(2,3) by auto
  have lba: "unat lba < 2 ^ 48" using assms(4) c cap_48 [of "media s"] by linarith
  let ?h = "(header s)\<lparr>flags := 5, prdtl := 1, prdbc := 0\<rparr>"
  let ?t = "fill_table ATA_CMD_READ_DMA_EXT lba count (dma_phys p) (unat count * 512) (ctable s)"
  let ?bs = "sectors_at (sect (media s)) (unat lba) (unat count)"
  obtain r d' where r: "hba (port p) ?h ?t (pages s) (media s) =
      (r, (pages s)(dma_phys p := put_at 0 ?bs (pages s (dma_phys p))), d')" "completes r"
      "sect d' = sect (media s)" "cap d' = cap (media s)"
    using drive_read [OF transfer_cmd_made(1) [OF lba assms(2,3) p(3)], of "media s" "pages s"] c assms(4) p by force
  have len: "length ?bs = unat count * 512" by (simp add: length_sect)
  have "\<not> 8 < count" "\<not> length buf < unat count * 512" using assms by auto
  moreover have "prdt ?t \<noteq> []" using p(3) by (simp add: fill_table_def)
  ultimately show ?thesis using assms(2) p r(2,3,4) c
    by (simp add: read_sectors_def Let_def bindS_def port_state_def issue_def r(1) complete_ok port_ready_def len
        put_at_def)
qed

lemma write_sectors_ok:
  assumes "port_ready s" and "count \<noteq> 0" "count \<le> 8" and "unat lba + unat count \<le> cap (media s)"
    and "unat count * 512 \<le> length buf"
  shows "\<exists>s'. write_sectors hba lba count buf s = (Inr (), s') \<and>
    port_ready s' \<and> sect (media s') = store_sectors (unat lba) (unat count) buf (sect (media s)) \<and>
    cap (media s') = cap (media s)"
proof -
  obtain p where p: "PORT s = Some p" "length (pages s (dma_phys p)) = 4096" "prdt (ctable s) \<noteq> []"
    using assms(1) by (auto simp: port_ready_def split: option.splits)
  have c: "0 < unat count" "unat count \<le> 8" using count_bounds assms(2,3) by auto
  have lba: "unat lba < 2 ^ 48" using assms(4) c cap_48 [of "media s"] by linarith
  let ?h = "(header s)\<lparr>flags := 5 OR one_shl 6, prdtl := 1, prdbc := 0\<rparr>"
  let ?t = "fill_table ATA_CMD_WRITE_DMA_EXT lba count (dma_phys p) (unat count * 512) (ctable s)"
  let ?m = "(pages s)(dma_phys p := put_at 0 (take (unat count * 512) buf) (pages s (dma_phys p)))"
  have lm: "length (?m (dma_phys p)) = 4096" using p(2) c assms(5) by (simp add: put_at_def)
  obtain r d' where r: "hba (port p) ?h ?t ?m (media s) = (r, ?m, d')" "completes r"
      "sect d' = store_sectors (unat lba) (unat count) (?m (dma_phys p)) (sect (media s))" "cap d' = cap (media s)"
    using drive_write [OF transfer_cmd_made(2) [OF lba assms(2,3) p(3)], of "media s" ?m] c assms(4) lm by force
  have "\<not> 8 < count" "\<not> length buf < unat count * 512" using assms by auto
  moreover have "prdt ?t \<noteq> []" using p(3) by (simp add: fill_table_def)
  moreover have "sect d' = store_sectors (unat lba) (unat count) buf (sect (media s))"
    using r(3) store_sectors_prefix [OF assms(5)] by simp
  ultimately show ?thesis using assms(2) p(1) r(2,4) lm
    by (simp add: write_sectors_def Let_def bindS_def port_state_def issue_def r(1) complete_ok port_ready_def)
qed

end

sublocale ata_drive \<subseteq> block_device "ahci_device hba" "\<lambda>s. sect (media s)" "\<lambda>s. cap (media s)" port_ready
  by unfold_locales
    (unfold ahci_device_def device.select_convs,
     (rule length_sect cap_48 read_sectors_ok write_sectors_ok; assumption)+)

section \<open>A drive that meets the contract\<close>

text \<open>
  A drive whose medium is an image of 65536 sectors; it answers every command at once. It
  shows that the assumptions of \<open>ata_drive\<close> can hold.
\<close>

definition ram_sect :: "(nat \<Rightarrow> sector) \<Rightarrow> nat \<Rightarrow> sector" where
  "ram_sect d k = (if length (d k) = 512 then d k else replicate 512 0)"

definition ram_cap :: "(nat \<Rightarrow> sector) \<Rightarrow> nat" where
  "ram_cap d = 65536"

definition ram_reply :: reply where
  "ram_reply = \<lparr>px_is = (\<lambda>_. 0), px_ci = (\<lambda>_. 0), px_tfd = 0\<rparr>"

definition ram_hba :: "(nat \<Rightarrow> sector) hba" where
  "ram_hba p h t m d =
     (let a = prd_addr (prdt t ! 0); lba = fis_lba (cfis t); n = fis_count (cfis t)
      in if bit (flags h) 6 then (ram_reply, m, store_sectors lba n (m a) (ram_sect d))
         else (ram_reply, m(a := put_at 0 (sectors_at (ram_sect d) lba n) (m a)), d))"

lemma ram_completes: "completes ram_reply"
  by (auto simp: completes_def ram_reply_def intro: exI [of _ 0])

lemma ram_sect_store:
  assumes "n * 512 \<le> length bs"
  shows "ram_sect (store_sectors lba n bs (ram_sect d)) = store_sectors lba n bs (ram_sect d)"
proof
  fix k
  have "length (store_sectors lba n bs (ram_sect d) k) = 512"
  proof (cases "lba \<le> k \<and> k < lba + n")
    case True
    then have "Suc (k - lba) * 512 \<le> n * 512" by (intro mult_le_mono1) linarith
    then show ?thesis using True assms by (simp add: store_sectors_def)
  qed (auto simp: store_sectors_def ram_sect_def)
  then show "ram_sect (store_sectors lba n bs (ram_sect d)) k = store_sectors lba n bs (ram_sect d) k"
    by (simp add: ram_sect_def)
qed

interpretation ram: ata_drive ram_hba ram_sect ram_cap
proof
  fix lba n a h t d m p
  assume a: "transfer_cmd ATA_CMD_READ_DMA_EXT False lba n a h t"
  show "\<exists>r d'. ram_hba p h t m d = (r, m(a := put_at 0 (sectors_at (ram_sect d) lba n) (m a)), d') \<and>
      completes r \<and> ram_sect d' = ram_sect d \<and> ram_cap d' = ram_cap d"
    using a by (simp add: ram_hba_def transfer_cmd_def ram_completes ram_cap_def)
next
  fix lba n a h t d p and m :: "u64 \<Rightarrow> u8 list"
  assume a: "transfer_cmd ATA_CMD_WRITE_DMA_EXT True lba n a h t" and l: "n * 512 \<le> length (m a)"
  show "\<exists>r d'. ram_hba p h t m d = (r, m, d') \<and> completes r \<and>
      ram_sect d' = store_sectors lba n (m a) (ram_sect d) \<and> ram_cap d' = ram_cap d"
    using a ram_sect_store [OF l] by (simp add: ram_hba_def transfer_cmd_def ram_completes ram_cap_def)
qed (simp_all add: ram_sect_def ram_cap_def)

end
