(* ===== verification/Fat32.thy ===== *)
theory Fat32
  imports Ahci Vnode
begin

text \<open>
  The FAT32 driver (ross-kernel/src/fat32.rs): the boot sector, the cluster and FAT
  operations, directory entries with 8.3 names, and the file operations of a node. Every
  operation takes the block device it calls as its first argument; the kernel's is
  \<open>ahci_device\<close>.
\<close>

section \<open>The boot sector\<close>

record BiosParameterBlock =
  bytes_per_sector :: u32
  sectors_per_cluster :: u32
  reserved_sectors :: u32
  num_fats :: u32
  fat_size_sectors :: u32
  root_cluster :: u32

definition is_power_of_two :: "u32 \<Rightarrow> bool" where
  "is_power_of_two w \<longleftrightarrow> (\<exists>k < 32. w = one_shl k)"

definition parse_bpb :: "u8 list \<Rightarrow> BiosParameterBlock res" where
  "parse_bpb sector =
     (if sector ! 510 \<noteq> 0x55 \<or> sector ! 511 \<noteq> 0xAA then Inl (Err ''FAT32: missing 0x55AA signature'')
      else let
        bps = ucast (u16_le (sector ! 0x0B) (sector ! 0x0C)) :: u32;
        spc = ucast (sector ! 0x0D) :: u32;
        rsvd = ucast (u16_le (sector ! 0x0E) (sector ! 0x0F)) :: u32;
        nfat = ucast (sector ! 0x10) :: u32;
        fat16 = ucast (u16_le (sector ! 0x16) (sector ! 0x17)) :: u32;
        fat32 = u32_le (sector ! 0x24) (sector ! 0x25) (sector ! 0x26) (sector ! 0x27);
        root = u32_le (sector ! 0x2C) (sector ! 0x2D) (sector ! 0x2E) (sector ! 0x2F)
      in if fat16 \<noteq> 0 then Inl (Err ''FAT32: FAT12/16 not supported'')
         else if bps \<noteq> 512 then Inl (Err ''FAT32: only 512-byte sectors supported'')
         else if spc = 0 \<or> \<not> is_power_of_two spc then Inl (Err ''FAT32: bad sectors_per_cluster'')
         else Inr \<lparr>bytes_per_sector = bps, sectors_per_cluster = spc, reserved_sectors = rsvd,
                   num_fats = nfat, fat_size_sectors = fat32, root_cluster = root\<rparr>)"

section \<open>Clusters and the file allocation table\<close>

record Fat32Fs =
  bpb :: BiosParameterBlock
  fat_start_sector :: u64
  data_start_sector :: u64

text \<open>
  The sums and products of \<open>mount\<close> and of the functions below stay under \<open>2 ^ 64\<close>: the fields of
  the boot sector have 8, 16 and 32 bits.
\<close>

definition mount :: "'s device \<Rightarrow> ('s, Fat32Fs) op" where
  "mount dev =
     bindS (dev_read dev 0 1 (replicate 512 0)) (\<lambda>sec.
     bindS (liftS (parse_bpb sec)) (\<lambda>b.
       let fat_start = ucast (reserved_sectors b) :: u64;
           data_start = fat_start + ucast (num_fats b) * ucast (fat_size_sectors b)
       in retS \<lparr>bpb = b, fat_start_sector = fat_start, data_start_sector = data_start\<rparr>))"

definition cluster_to_sector :: "Fat32Fs \<Rightarrow> u32 \<Rightarrow> u64 res" where
  "cluster_to_sector fs cluster =
     (if cluster < 2 then Inl (Panic ''attempt to subtract with overflow'')
      else Inr (data_start_sector fs + (ucast cluster - 2) * ucast (sectors_per_cluster (bpb fs))))"

definition cluster_size_bytes :: "Fat32Fs \<Rightarrow> nat" where
  "cluster_size_bytes fs = unat (sectors_per_cluster (bpb fs)) * 512"

text \<open>The transfer loops: \<open>rem\<close> sectors left, at most 8 at a time.\<close>

fun read_chunks :: "'s device \<Rightarrow> nat \<Rightarrow> u64 \<Rightarrow> nat \<Rightarrow> u8 list \<Rightarrow> ('s, u8 list) op" where
  "read_chunks dev rem sec off buf =
     (if rem = 0 then retS buf
      else let cnt = min rem 8 in
        if length buf < off then throwS (Panic ''range start index out of range'')
        else bindS (dev_read dev sec (of_nat cnt) (drop off buf)) (\<lambda>tail.
          read_chunks dev (rem - cnt) (sec + of_nat cnt) (off + cnt * 512) (take off buf @ tail)))"

fun write_chunks :: "'s device \<Rightarrow> nat \<Rightarrow> u64 \<Rightarrow> nat \<Rightarrow> u8 list \<Rightarrow> ('s, unit) op" where
  "write_chunks dev rem sec off buf =
     (if rem = 0 then retS ()
      else let cnt = min rem 8 in
        if length buf < off then throwS (Panic ''range start index out of range'')
        else bindS (dev_write dev sec (of_nat cnt) (drop off buf)) (\<lambda>_.
          write_chunks dev (rem - cnt) (sec + of_nat cnt) (off + cnt * 512) buf))"

declare read_chunks.simps [simp del] write_chunks.simps [simp del]

definition read_cluster :: "'s device \<Rightarrow> Fat32Fs \<Rightarrow> u32 \<Rightarrow> u8 list \<Rightarrow> ('s, u8 list) op" where
  "read_cluster dev fs cluster buf =
     bindS (liftS (cluster_to_sector fs cluster)) (\<lambda>first.
       read_chunks dev (unat (sectors_per_cluster (bpb fs))) first 0 buf)"

definition write_cluster :: "'s device \<Rightarrow> Fat32Fs \<Rightarrow> u32 \<Rightarrow> u8 list \<Rightarrow> ('s, unit) op" where
  "write_cluster dev fs cluster buf =
     bindS (liftS (cluster_to_sector fs cluster)) (\<lambda>first.
       write_chunks dev (unat (sectors_per_cluster (bpb fs))) first 0 buf)"

definition u32_at :: "nat \<Rightarrow> u8 list \<Rightarrow> u32" where
  "u32_at pos buf = u32_le (buf ! pos) (buf ! (pos + 1)) (buf ! (pos + 2)) (buf ! (pos + 3))"

definition next_cluster :: "'s device \<Rightarrow> Fat32Fs \<Rightarrow> u32 \<Rightarrow> ('s, u32) op" where
  "next_cluster dev fs cluster =
     (let ob = (ucast cluster :: u64) * 4;
          sec = fat_start_sector fs + ob div 512;
          pos = unat (ob mod 512)
      in bindS (dev_read dev sec 1 (replicate 512 0)) (\<lambda>buf.
           retS (u32_at pos buf AND 0x0FFFFFFF)))"

definition set_fat_copy :: "'s device \<Rightarrow> Fat32Fs \<Rightarrow> u32 \<Rightarrow> u32 \<Rightarrow> nat \<Rightarrow> ('s, unit) op" where
  "set_fat_copy dev fs cluster value f =
     (let ob = (ucast cluster :: u64) * 4;
          sec_off = ob div 512;
          pos = unat (ob mod 512);
          sec = fat_start_sector fs + of_nat f * ucast (fat_size_sectors (bpb fs)) + sec_off
      in bindS (dev_read dev sec 1 (replicate 512 0)) (\<lambda>buf.
         let existing = u32_at pos buf;
             new = (existing AND 0xF0000000) OR (value AND 0x0FFFFFFF)
         in dev_write dev sec 1 (put_at pos (le_bytes 4 new) buf)))"

definition set_fat_entry :: "'s device \<Rightarrow> Fat32Fs \<Rightarrow> u32 \<Rightarrow> u32 \<Rightarrow> ('s, unit) op" where
  "set_fat_entry dev fs cluster value =
     forS [0 ..< unat (num_fats (bpb fs))] (set_fat_copy dev fs cluster value)"

text \<open>The first free entry of one FAT sector, whose first entry is number \<open>si * 128\<close>.\<close>

definition free_in_sector :: "nat \<Rightarrow> u8 list \<Rightarrow> u32 option" where
  "free_in_sector si buf =
     map_option (\<lambda>i. of_nat (si * 128) + of_nat i)
       (find (\<lambda>i. \<not> (of_nat (si * 128) + of_nat i :: u32) < 2 \<and> u32_at (i * 4) buf AND 0x0FFFFFFF = 0) [0 ..< 128])"

primrec scan_fat :: "'s device \<Rightarrow> Fat32Fs \<Rightarrow> nat list \<Rightarrow> ('s, u32 option) op" where
  "scan_fat dev fs [] = retS None"
| "scan_fat dev fs (si # sis) =
     bindS (dev_read dev (fat_start_sector fs + of_nat si) 1 (replicate 512 0)) (\<lambda>buf.
       case free_in_sector si buf of
         Some c \<Rightarrow> retS (Some c)
       | None \<Rightarrow> scan_fat dev fs sis)"

definition alloc_cluster :: "'s device \<Rightarrow> Fat32Fs \<Rightarrow> u32 option \<Rightarrow> ('s, u32) op" where
  "alloc_cluster dev fs prev =
     bindS (scan_fat dev fs [0 ..< unat (fat_size_sectors (bpb fs))]) (\<lambda>found.
       case found of
         None \<Rightarrow> throwS (Err ''FAT32: disk full'')
       | Some c \<Rightarrow>
           bindS (set_fat_entry dev fs c 0x0FFFFFFF) (\<lambda>_.
           bindS (case prev of None \<Rightarrow> retS () | Some p \<Rightarrow> set_fat_entry dev fs p c) (\<lambda>_.
           bindS (write_cluster dev fs c (replicate (cluster_size_bytes fs) 0)) (\<lambda>_.
           retS c))))"

text \<open>A cluster number that continues a chain.\<close>

definition in_chain :: "u32 \<Rightarrow> bool" where
  "in_chain c \<longleftrightarrow> 2 \<le> c \<and> c < 0x0FFFFFF8"

text \<open>
  Loops that follow a chain take fuel; running out of it stands for a loop that does not
  return. In \<open>read_chain_into\<close> every turn adds a byte, so that \<open>max\<close> turns are enough.
\<close>

definition diverges :: exn where
  "diverges = Panic ''does not return''"

fun read_chain_loop :: "'s device \<Rightarrow> Fat32Fs \<Rightarrow> nat \<Rightarrow> u32 \<Rightarrow> u8 list \<Rightarrow> nat \<Rightarrow> ('s, u8 list) op" where
  "read_chain_loop dev fs fuel cluster out mx =
     (if in_chain cluster \<and> length out < mx then
        (if fuel = 0 then throwS diverges
         else let cb = cluster_size_bytes fs; tk = min cb (mx - length out) in
           bindS (read_cluster dev fs cluster (replicate cb 0)) (\<lambda>bs.
           bindS (next_cluster dev fs cluster) (\<lambda>nxt.
             read_chain_loop dev fs (fuel - 1) nxt (take (length out + tk) (out @ bs)) mx)))
      else retS out)"

declare read_chain_loop.simps [simp del]

definition read_chain_into :: "'s device \<Rightarrow> Fat32Fs \<Rightarrow> u32 \<Rightarrow> nat \<Rightarrow> ('s, u8 list) op" where
  "read_chain_into dev fs first mx =
     (if first < 2 then retS [] else read_chain_loop dev fs mx first [] mx)"

section \<open>Directory entries\<close>

text \<open>
  Pushing \<^verbatim>\<open>b as char\<close> to a string appends the encoding of the Latin-1 character \<open>b\<close>.
\<close>

definition to_ascii_lowercase :: "u8 \<Rightarrow> u8" where
  "to_ascii_lowercase b = (if 65 \<le> b \<and> b \<le> 90 then b + 32 else b)"

definition to_ascii_uppercase :: "u8 \<Rightarrow> u8" where
  "to_ascii_uppercase b = (if 97 \<le> b \<and> b \<le> 122 then b - 32 else b)"

definition eq_ignore_ascii_case :: "str \<Rightarrow> str \<Rightarrow> bool" where
  "eq_ignore_ascii_case a b \<longleftrightarrow> map to_ascii_lowercase a = map to_ascii_lowercase b"

definition utf8_latin1 :: "u8 \<Rightarrow> str" where
  "utf8_latin1 b = (if b < 128 then [b] else [0xC0 OR drop_bit 6 b, 0x80 OR (b AND 0x3F)])"

text \<open>\<^verbatim>\<open>rposition\<close> of the last byte that is not a space, and the bytes up to it.\<close>

definition trim_spaces :: "u8 list \<Rightarrow> u8 list" where
  "trim_spaces xs = rev (dropWhile (\<lambda>b. b = 32) (rev xs))"

definition decode_8_3 :: "u8 list \<Rightarrow> str" where
  "decode_8_3 e =
     (let name = trim_spaces (subslice 0 8 e); ext = trim_spaces (subslice 8 3 e);
          s = concat (map (\<lambda>b. utf8_latin1 (to_ascii_lowercase b)) name)
      in if ext \<noteq> [] then s @ [46] @ concat (map (\<lambda>b. utf8_latin1 (to_ascii_lowercase b)) ext)
         else s)"

definition name_matches :: "u8 list \<Rightarrow> str \<Rightarrow> bool" where
  "name_matches e target \<longleftrightarrow> eq_ignore_ascii_case (decode_8_3 e) target"

definition first_cluster_of :: "u8 list \<Rightarrow> u32" where
  "first_cluster_of e =
     push_bit 16 (ucast (u16_le (e ! 0x14) (e ! 0x15))) OR ucast (u16_le (e ! 0x1A) (e ! 0x1B))"

definition entry_size :: "u8 list \<Rightarrow> u32" where
  "entry_size e = u32_at 0x1C e"

text \<open>\<^verbatim>\<open>name.rfind('.')\<close>: what stands before and after the last dot.\<close>

definition split_last_dot :: "str \<Rightarrow> str \<times> str" where
  "split_last_dot name =
     (if 46 \<in> set name
      then let ext = rev (takeWhile (\<lambda>b. b \<noteq> 46) (rev name))
           in (take (length name - length ext - 1) name, ext)
      else (name, []))"

definition to_8_3 :: "str \<Rightarrow> u8 list option" where
  "to_8_3 name =
     (let (base, ext) = split_last_dot name
      in if base = [] \<or> 8 < length base \<or> 3 < length ext then None
         else Some (put_at 8 (map to_ascii_uppercase ext)
                (put_at 0 (map to_ascii_uppercase base) (replicate 11 32))))"

section \<open>Nodes\<close>

record Fat32Node =
  node_fs :: Fat32Fs
  first_cluster :: u32
  file_size :: u32
  is_dir :: bool
  parent_cluster :: u32
  dir_entry_offset :: nat

definition dir_node :: "Fat32Fs \<Rightarrow> u32 \<Rightarrow> u32 \<Rightarrow> nat \<Rightarrow> Fat32Node" where
  "dir_node f first parent off = \<lparr>node_fs = f, first_cluster = first, file_size = 0, is_dir = True,
     parent_cluster = parent, dir_entry_offset = off\<rparr>"

definition file_node :: "Fat32Fs \<Rightarrow> u32 \<Rightarrow> u32 \<Rightarrow> u32 \<Rightarrow> nat \<Rightarrow> Fat32Node" where
  "file_node f first sz parent off = \<lparr>node_fs = f, first_cluster = first, file_size = sz, is_dir = False,
     parent_cluster = parent, dir_entry_offset = off\<rparr>"

definition root :: "Fat32Fs \<Rightarrow> Fat32Node" where
  "root f = dir_node f (root_cluster (bpb f)) 0 0"

text \<open>
  The callback of \<open>walk_dir\<close> is an \<^verbatim>\<open>FnMut\<close>: it takes and returns the variables it
  captures, here \<open>acc\<close>. One cluster of entries ends with the end-of-directory mark, a hit, or
  the last entry.
\<close>

datatype 'a walked = EndOfDir | Hit 'a | MoreEntries

type_synonym ('acc, 'a) visitor = "u8 list \<Rightarrow> u32 \<Rightarrow> nat \<Rightarrow> 'acc \<Rightarrow> 'a option \<times> 'acc"

definition slots :: "nat \<Rightarrow> nat list" where
  "slots cb = map (\<lambda>k. 32 * k) [0 ..< cb div 32]"

primrec walk_slots :: "('acc, 'a) visitor \<Rightarrow> u8 list \<Rightarrow> u32 \<Rightarrow> nat list \<Rightarrow> 'acc \<Rightarrow> 'a walked \<times> 'acc" where
  "walk_slots f buf cluster [] acc = (MoreEntries, acc)"
| "walk_slots f buf cluster (i # is) acc =
     (let entry = subslice i 32 buf; b0 = entry ! 0 in
      if b0 = 0 then (EndOfDir, acc)
      else if b0 = 0xE5 then walk_slots f buf cluster is acc
      else let attr = entry ! 0x0B in
        if attr = 0x0F \<or> attr AND 0x08 \<noteq> 0 then walk_slots f buf cluster is acc
        else case f entry cluster i acc of
            (Some v, acc') \<Rightarrow> (Hit v, acc')
          | (None, acc') \<Rightarrow> walk_slots f buf cluster is acc')"

text \<open>
  A chain has less than \<open>2 ^ 28\<close> clusters unless it runs in a circle, and then the loops
  below do not return.
\<close>

definition chain_fuel :: nat where
  "chain_fuel = 2 ^ 28"

fun walk_chain :: "'s device \<Rightarrow> Fat32Fs \<Rightarrow> ('acc, 'a) visitor \<Rightarrow> nat \<Rightarrow> u32 \<Rightarrow> 'acc \<Rightarrow> ('s, 'a option \<times> 'acc) op" where
  "walk_chain dev f visit fuel cluster acc =
     (if in_chain cluster then
        (if fuel = 0 then throwS diverges
         else let cb = cluster_size_bytes f in
           bindS (read_cluster dev f cluster (replicate cb 0)) (\<lambda>buf.
             case walk_slots visit buf cluster (slots cb) acc of
               (EndOfDir, acc') \<Rightarrow> retS (None, acc')
             | (Hit v, acc') \<Rightarrow> retS (Some v, acc')
             | (MoreEntries, acc') \<Rightarrow>
                 bindS (next_cluster dev f cluster) (\<lambda>nxt.
                   walk_chain dev f visit (fuel - 1) nxt acc')))
      else retS (None, acc))"

declare walk_chain.simps [simp del]

definition walk_dir :: "'s device \<Rightarrow> Fat32Node \<Rightarrow> ('acc, 'a) visitor \<Rightarrow> 'acc \<Rightarrow> ('s, 'a option \<times> 'acc) op" where
  "walk_dir dev n visit acc = walk_chain dev (node_fs n) visit chain_fuel (first_cluster n) acc"

fun free_slot_chain :: "'s device \<Rightarrow> Fat32Fs \<Rightarrow> nat \<Rightarrow> u32 \<Rightarrow> u32 \<Rightarrow> ('s, u32 \<times> nat) op" where
  "free_slot_chain dev f fuel cluster last_cluster =
     (if in_chain cluster then
        (if fuel = 0 then throwS diverges
         else let cb = cluster_size_bytes f in
           bindS (read_cluster dev f cluster (replicate cb 0)) (\<lambda>buf.
             case find (\<lambda>i. buf ! i = 0 \<or> buf ! i = 0xE5) (slots cb) of
               Some i \<Rightarrow> retS (cluster, i)
             | None \<Rightarrow> bindS (next_cluster dev f cluster) (\<lambda>nxt.
                   free_slot_chain dev f (fuel - 1) nxt cluster)))
      else bindS (alloc_cluster dev f (Some last_cluster)) (\<lambda>new_c. retS (new_c, 0)))"

declare free_slot_chain.simps [simp del]

definition find_free_slot :: "'s device \<Rightarrow> Fat32Node \<Rightarrow> ('s, u32 \<times> nat) op" where
  "find_free_slot dev n = free_slot_chain dev (node_fs n) chain_fuel (first_cluster n) (first_cluster n)"

text \<open>\<^verbatim>\<open>buf[off..off + xs.len()].copy_from_slice(xs)\<close>.\<close>

definition copy_into :: "nat \<Rightarrow> 'a list \<Rightarrow> 'a list \<Rightarrow> 'a list res" where
  "copy_into off xs buf =
     (if off + length xs \<le> length buf then Inr (put_at off xs buf)
      else Inl (Panic ''range end index out of range''))"

definition update_size_on_disk :: "'s device \<Rightarrow> Fat32Node \<Rightarrow> u32 \<Rightarrow> ('s, unit) op" where
  "update_size_on_disk dev n new_size =
     (if parent_cluster n = 0 then retS ()
      else bindS (read_cluster dev (node_fs n) (parent_cluster n) (replicate (cluster_size_bytes (node_fs n)) 0)) (\<lambda>buf.
           bindS (liftS (copy_into (dir_entry_offset n + 0x1C) (le_bytes 4 new_size) buf)) (\<lambda>buf'.
           write_cluster dev (node_fs n) (parent_cluster n) buf')))"

section \<open>The file operations\<close>

definition fat_attribute :: "Fat32Node \<Rightarrow> Stat" where
  "fat_attribute n = \<lparr>stat_size = unat (file_size n), node_type = (if is_dir n then Directory else File)\<rparr>"

text \<open>\<^verbatim>\<open>read\<close> returns the number of bytes and the buffer.\<close>

definition fat_read :: "'s device \<Rightarrow> Fat32Node \<Rightarrow> nat \<Rightarrow> u8 list \<Rightarrow> ('s, nat \<times> u8 list) op" where
  "fat_read dev n off buffer =
     (if is_dir n then throwS (Err '''')
      else let total = unat (file_size n) in
        if total \<le> off then retS (0, buffer)
        else let want = min (length buffer) (total - off) in
          bindS (map_errS (read_chain_into dev (node_fs n) (first_cluster n) (off + want))) (\<lambda>chain.
            let stop = min (length chain) (off + want) in
            if stop \<le> off then retS (0, buffer)
            else let k = stop - off in retS (k, put_at 0 (subslice off k chain) buffer)))"

text \<open>
  \<^verbatim>\<open>write\<close> changes the node (its atomics) and the disk, also on its way to an error:
  its state is the device and the node.
\<close>

definition on_disk :: "('s, 'a) op \<Rightarrow> ('s \<times> 'n, 'a) op" where
  "on_disk m = (\<lambda>(s, n). let (r, s') = m s in (r, (s', n)))"

definition get_node :: "('s \<times> 'n, 'n) op" where
  "get_node = (\<lambda>(s, n). (Inr n, (s, n)))"

definition set_node :: "('n \<Rightarrow> 'n) \<Rightarrow> ('s \<times> 'n, unit) op" where
  "set_node f = (\<lambda>(s, n). (Inr (), (s, f n)))"

text \<open>The next cluster of a chain, or a new one at its end.\<close>

definition next_or_alloc :: "'s device \<Rightarrow> Fat32Fs \<Rightarrow> u32 \<Rightarrow> ('s, u32) op" where
  "next_or_alloc dev f cluster =
     bindS (map_errS (next_cluster dev f cluster)) (\<lambda>nxt.
       if 0x0FFFFFF8 \<le> nxt then map_errS (alloc_cluster dev f (Some cluster)) else retS nxt)"

primrec skip_clusters :: "'s device \<Rightarrow> Fat32Fs \<Rightarrow> nat \<Rightarrow> u32 \<Rightarrow> ('s, u32) op" where
  "skip_clusters dev f 0 cluster = retS cluster"
| "skip_clusters dev f (Suc k) cluster =
     bindS (next_or_alloc dev f cluster) (\<lambda>nxt. skip_clusters dev f k nxt)"

text \<open>
  The loop over the data; \<open>written\<close> bytes are on the disk. Every turn writes a byte, so that as
  many turns as there are bytes are enough.
\<close>

fun write_loop :: "'s device \<Rightarrow> Fat32Fs \<Rightarrow> nat \<Rightarrow> u32 \<Rightarrow> nat \<Rightarrow> nat \<Rightarrow> u8 list \<Rightarrow> ('s, nat) op" where
  "write_loop dev f fuel cluster buf_off written data =
     (if written < length data then
        (if fuel = 0 then throwS diverges
         else let cb = cluster_size_bytes f in
           bindS (map_errS (read_cluster dev f cluster (replicate cb 0))) (\<lambda>buf.
           let tk = min (length data - written) (cb - buf_off) in
           bindS (liftS (copy_into buf_off (subslice written tk data) buf)) (\<lambda>buf'.
           bindS (map_errS (write_cluster dev f cluster buf')) (\<lambda>_.
           let written' = written + tk in
           bindS (if written' < length data then next_or_alloc dev f cluster else retS cluster) (\<lambda>cluster'.
             write_loop dev f (fuel - 1) cluster' 0 written' data)))))
      else retS written)"

declare write_loop.simps [simp del]

text \<open>The first cluster of an empty file, entered in its directory entry.\<close>

definition enter_first_cluster :: "'s device \<Rightarrow> Fat32Node \<Rightarrow> u32 \<Rightarrow> ('s, unit) op" where
  "enter_first_cluster dev n c =
     (if parent_cluster n = 0 then retS ()
      else bindS (map_errS (read_cluster dev (node_fs n) (parent_cluster n)
                   (replicate (cluster_size_bytes (node_fs n)) 0))) (\<lambda>buf.
           let o' = dir_entry_offset n in
           bindS (liftS (copy_into (o' + 0x14)
                   [ucast (drop_bit 16 c AND 0xFF), ucast (drop_bit 24 c AND 0xFF)] buf)) (\<lambda>buf.
           bindS (liftS (copy_into (o' + 0x1A)
                   [ucast (c AND 0xFF), ucast (drop_bit 8 c AND 0xFF)] buf)) (\<lambda>buf.
           map_errS (write_cluster dev (node_fs n) (parent_cluster n) buf)))))"

definition ensure_first_cluster :: "'s device \<Rightarrow> ('s \<times> Fat32Node, unit) op" where
  "ensure_first_cluster dev =
     bindS get_node (\<lambda>n.
       if first_cluster n < 2 then
         bindS (on_disk (map_errS (alloc_cluster dev (node_fs n) None))) (\<lambda>c.
         bindS (set_node (\<lambda>n. n\<lparr>first_cluster := c\<rparr>)) (\<lambda>_.
         on_disk (enter_first_cluster dev n c)))
       else retS ())"

definition fat_write :: "'s device \<Rightarrow> nat \<Rightarrow> u8 list \<Rightarrow> ('s \<times> Fat32Node, nat) op" where
  "fat_write dev off data =
     bindS get_node (\<lambda>n.
       if is_dir n \<or> data = [] then throwS (Err '''')
       else let cb = cluster_size_bytes (node_fs n); old_size = unat (file_size n) in
         bindS (liftS (usize_add off (length data))) (\<lambda>sum.
         let new_size = max sum old_size in
         bindS (ensure_first_cluster dev) (\<lambda>_.
         if cb = 0 then throwS (Panic ''attempt to divide by zero'')
         else bindS get_node (\<lambda>n1.
         bindS (on_disk (skip_clusters dev (node_fs n) (off div cb) (first_cluster n1))) (\<lambda>cluster.
         bindS (on_disk (write_loop dev (node_fs n) (length data) cluster (off mod cb) 0 data)) (\<lambda>written.
         bindS (if old_size < new_size then
                  bindS (set_node (\<lambda>n. n\<lparr>file_size := of_nat new_size\<rparr>)) (\<lambda>_.
                    on_disk (map_errS (update_size_on_disk dev n1 (of_nat new_size))))
                else retS ()) (\<lambda>_.
         retS written)))))))"

definition fat_create :: "'s device \<Rightarrow> Fat32Node \<Rightarrow> str \<Rightarrow> ('s, Fat32Node) op" where
  "fat_create dev n name =
     (if \<not> is_dir n then throwS (Err '''')
      else case to_8_3 name of
        None \<Rightarrow> throwS (Err '''')
      | Some name83 \<Rightarrow>
          bindS (map_errS (walk_dir dev n
              (\<lambda>e _ _ acc. (if name_matches e name then Some () else None, acc)) ())) (\<lambda>(dup, _).
          if dup \<noteq> None then throwS (Err '''')
          else bindS (map_errS (find_free_slot dev n)) (\<lambda>(slot_cluster, slot_off).
            let cb = cluster_size_bytes (node_fs n) in
            bindS (map_errS (read_cluster dev (node_fs n) slot_cluster (replicate cb 0))) (\<lambda>buf.
            bindS (liftS (copy_into slot_off ((put_at 0 name83 (replicate 32 0))[0x0B := 0x20]) buf)) (\<lambda>buf'.
            let buf'' = (if slot_off + 64 \<le> cb then buf'[slot_off + 32 := 0] else buf') in
            bindS (map_errS (write_cluster dev (node_fs n) slot_cluster buf'')) (\<lambda>_.
            retS (file_node (node_fs n) 0 0 slot_cluster slot_off)))))))"

definition fat_readdir :: "'s device \<Rightarrow> Fat32Node \<Rightarrow> ('s, str list) op" where
  "fat_readdir dev n =
     (if \<not> is_dir n then throwS (Err '''')
      else bindS (map_errS (walk_dir dev n
             (\<lambda>e _ _ names. (None :: unit option, names @ [decode_8_3 e])) [])) (\<lambda>(_, names). retS names))"

definition fat_finddir :: "'s device \<Rightarrow> Fat32Node \<Rightarrow> str \<Rightarrow> ('s, Fat32Node) op" where
  "fat_finddir dev n name =
     (if \<not> is_dir n then throwS (Err '''')
      else bindS (map_errS (walk_dir dev n
             (\<lambda>e cluster i acc.
                (if \<not> name_matches e name then None
                 else Some (first_cluster_of e, entry_size e, e ! 0x0B AND 0x10 \<noteq> 0, cluster, i), acc)) ())) (\<lambda>(found, _).
        case found of
          Some (first, sz, dir, pcluster, poff) \<Rightarrow>
            retS (if dir then dir_node (node_fs n) first pcluster poff
                  else file_node (node_fs n) first sz pcluster poff)
        | None \<Rightarrow> throwS (Err '''')))"

end
