(* ===== verification/Fat32Disk.thy ===== *)
theory Fat32Disk
  imports Fat32
begin

text \<open>
  The FAT32 volume as an abstract store: a table \<open>fat\<close> from cluster numbers to their
  successors, and the contents \<open>clus\<close> of the clusters, both read off the sectors of the
  device. The cluster and FAT operations of the driver are shown to be the reads and updates
  of this store, over any block device that keeps its contract.
\<close>

section \<open>The volume\<close>

abbreviation spc :: "Fat32Fs \<Rightarrow> nat" where "spc f \<equiv> unat (sectors_per_cluster (bpb f))"
abbreviation nfats :: "Fat32Fs \<Rightarrow> nat" where "nfats f \<equiv> unat (num_fats (bpb f))"
abbreviation fatsz :: "Fat32Fs \<Rightarrow> nat" where "fatsz f \<equiv> unat (fat_size_sectors (bpb f))"
abbreviation fat0 :: "Fat32Fs \<Rightarrow> nat" where "fat0 f \<equiv> unat (fat_start_sector f)"
abbreviation data0 :: "Fat32Fs \<Rightarrow> nat" where "data0 f \<equiv> unat (data_start_sector f)"

definition fat_raw :: "Fat32Fs \<Rightarrow> (nat \<Rightarrow> sector) \<Rightarrow> nat \<Rightarrow> u32 \<Rightarrow> u32" where
  "fat_raw f d k c = u32_at (unat c mod 128 * 4) (d (fat0 f + k * fatsz f + unat c div 128))"

text \<open>Numbers past the end of the table have no successor.\<close>

definition fat :: "Fat32Fs \<Rightarrow> (nat \<Rightarrow> sector) \<Rightarrow> u32 \<Rightarrow> u32" where
  "fat f d c = (if unat c < 128 * fatsz f then fat_raw f d 0 c AND 0x0FFFFFFF else 0x0FFFFFFF)"

definition first_sector :: "Fat32Fs \<Rightarrow> u32 \<Rightarrow> nat" where
  "first_sector f c = data0 f + (unat c - 2) * spc f"

definition clus :: "Fat32Fs \<Rightarrow> (nat \<Rightarrow> sector) \<Rightarrow> u32 \<Rightarrow> u8 list" where
  "clus f d c = (if c < 2 then [] else sectors_at d (first_sector f c) (spc f))"

text \<open>
  The layout of a volume on a device of \<open>n\<close> sectors: a power of two up to 128 sectors per
  cluster, at least one table, the tables in front of the data and inside the device, and
  no more than \<open>2 ^ 28\<close> table entries.
\<close>

definition geom :: "Fat32Fs \<Rightarrow> nat \<Rightarrow> bool" where
  "geom f n \<longleftrightarrow> 0 < spc f \<and> spc f \<le> 128 \<and> 0 < nfats f \<and> fatsz f * 128 \<le> 2 ^ 28 \<and>
     data0 f = fat0 f + nfats f * fatsz f \<and> data0 f \<le> n \<and> n \<le> 2 ^ 48"

definition in_data :: "Fat32Fs \<Rightarrow> nat \<Rightarrow> u32 \<Rightarrow> bool" where
  "in_data f n c \<longleftrightarrow> in_chain c \<and> unat c < 128 * fatsz f \<and> first_sector f c + spc f \<le> n"

section \<open>Sectors\<close>

lemma sectors_at_cong: "(\<And>k. lba \<le> k \<Longrightarrow> k < lba + n \<Longrightarrow> f k = g k) \<Longrightarrow> sectors_at f lba n = sectors_at g lba n"
  by (auto simp: sectors_at_def intro!: arg_cong [where f = concat])

lemma sectors_at_Suc: "sectors_at d lba (Suc n) = d lba @ sectors_at d (Suc lba) n"
  by (simp add: sectors_at_def upt_conv_Cons del: upt_Suc)

lemma sectors_at_store_same:
  assumes "n * 512 \<le> length bs"
  shows "sectors_at (store_sectors lba n bs d) lba n = take (n * 512) bs"
  using assms
proof (induction n arbitrary: lba bs)
  case (Suc n)
  have hd: "store_sectors lba (Suc n) bs d lba = take 512 bs"
    by (simp add: store_sectors_def subslice_def)
  have tl: "sectors_at (store_sectors lba (Suc n) bs d) (Suc lba) n =
      sectors_at (store_sectors (Suc lba) n (drop 512 bs) d) (Suc lba) n"
  proof (rule sectors_at_cong)
    fix k assume k: "Suc lba \<le> k" "k < Suc lba + n"
    then have "(k - lba) * 512 = (k - Suc lba) * 512 + 512" by (metis Suc_diff_le add.commute diff_Suc_Suc mult_Suc)
    then show "store_sectors lba (Suc n) bs d k = store_sectors (Suc lba) n (drop 512 bs) d k"
      using k by (simp add: store_sectors_def subslice_def)
  qed
  have "sectors_at (store_sectors lba (Suc n) bs d) lba (Suc n) = take 512 bs @ take (n * 512) (drop 512 bs)"
    unfolding sectors_at_Suc hd tl using Suc.prems by (subst Suc.IH) simp_all
  then show ?case by (simp add: take_add)
qed (simp add: sectors_at_def)

lemma sectors_at_store_other:
  "lba + n \<le> l2 \<or> l2 + k \<le> lba \<Longrightarrow> sectors_at (store_sectors lba n bs d) l2 k = sectors_at d l2 k"
  by (rule sectors_at_cong) (auto simp: store_sectors_def)

lemma sectors_at_add: "sectors_at d lba (a + b) = sectors_at d lba a @ sectors_at d (lba + a) b"
  by (simp add: sectors_at_def upt_add_eq_append [of lba "lba + a" b, simplified] add.assoc [symmetric])

lemma sectors_at_1 [simp]: "sectors_at d lba 1 = d lba" "sectors_at d lba (Suc 0) = d lba"
  by (simp_all add: sectors_at_def)

text \<open>Writing a run of sectors in two parts is writing it at once.\<close>

lemma store_sectors_add:
  "store_sectors (lba + a) b (drop (a * 512) bs) (store_sectors lba a bs d) = store_sectors lba (a + b) bs d"
proof
  fix k
  have "(k - (lba + a)) * 512 + a * 512 = (k - lba) * 512" if "lba + a \<le> k"
    using that by (metis diff_diff_left add.commute diff_add_inverse le_add_diff_inverse add_mult_distrib add_le_imp_le_diff)
  then show "store_sectors (lba + a) b (drop (a * 512) bs) (store_sectors lba a bs d) k = store_sectors lba (a + b) bs d k"
    by (auto simp: store_sectors_def subslice_def add.commute)
qed

lemma store_sectors_0 [simp]: "store_sectors lba 0 bs d = d"
  by (auto simp: store_sectors_def fun_eq_iff)

lemma put_at_split:
  assumes "off + length xs + length ys \<le> length buf"
  shows "put_at (off + length xs) ys (take off buf @ put_at 0 xs (drop off buf)) = put_at off (xs @ ys) buf"
  using assms by (simp add: put_at_def add.commute add.left_commute)

section \<open>Cluster transfers\<close>

context block_device
begin

definition view :: "'s \<Rightarrow> nat \<Rightarrow> (nat \<Rightarrow> sector) \<Rightarrow> bool" where
  "view s n d \<longleftrightarrow> ready s \<and> size_of s = n \<and> disk s = d"

lemma view_len: "view s n d \<Longrightarrow> length (d k) = 512"
  using length_disk by (auto simp: view_def)

lemma view_size: "view s n d \<Longrightarrow> n \<le> 2 ^ 48"
  using size_bound by (auto simp: view_def)

lemma dev_read_view:
  assumes "view s n d" and "0 < k" "k \<le> 8" and "unat lba + k \<le> n" and "k * 512 \<le> length buf"
  shows "okS (dev_read dev lba (of_nat k) buf) s
           (\<lambda>r s'. r = put_at 0 (sectors_at d (unat lba) k) buf \<and> view s' n d)"
proof -
  have k: "unat (of_nat k :: u16) = k" using assms(3) by (simp add: unat_of_nat)
  have "(of_nat k :: u16) \<noteq> 0" "(of_nat k :: u16) \<le> 8"
    using assms(2,3) k by (auto simp: word_le_nat_alt word_unat_eq_iff)
  then show ?thesis
    using rd_ok [of s "of_nat k" lba buf] assms k by (auto simp: okS_def view_def)
qed

lemma dev_write_view:
  assumes "view s n d" and "0 < k" "k \<le> 8" and "unat lba + k \<le> n" and "k * 512 \<le> length buf"
  shows "okS (dev_write dev lba (of_nat k) buf) s (\<lambda>_ s'. view s' n (store_sectors (unat lba) k buf d))"
proof -
  have k: "unat (of_nat k :: u16) = k" using assms(3) by (simp add: unat_of_nat)
  have "(of_nat k :: u16) \<noteq> 0" "(of_nat k :: u16) \<le> 8"
    using assms(2,3) k by (auto simp: word_le_nat_alt word_unat_eq_iff)
  then show ?thesis
    using wr_ok [of s "of_nat k" lba buf] assms k by (auto simp: okS_def view_def)
qed

lemma unat_add_sectors: "view s n d \<Longrightarrow> unat (lba :: u64) + k \<le> n \<Longrightarrow> unat (lba + of_nat k) = unat lba + k"
  using view_size [of s n d] by (simp add: unat_word_ariths unat_of_nat)

lemma read_chunks_view:
  assumes "view s n d" and "unat sec + rem \<le> n" and "off + rem * 512 \<le> length buf"
  shows "okS (read_chunks dev rem sec off buf) s
           (\<lambda>r s'. r = put_at off (sectors_at d (unat sec) rem) buf \<and> view s' n d)"
  using assms
proof (induction rem arbitrary: sec off buf s rule: less_induct)
  case (less rem)
  show ?case
  proof (cases "rem = 0")
    case True
    then show ?thesis using less.prems by (simp add: read_chunks.simps ok_simps put_at_def sectors_at_def)
  next
    case False
    let ?k = "min rem 8"
    have k: "0 < ?k" "?k \<le> 8" "rem - ?k < rem" "rem = ?k + (rem - ?k)" using False by auto
    let ?bs = "sectors_at d (unat sec) ?k"
    have l: "length ?bs = ?k * 512" using view_len [OF less.prems(1)] by simp
    have 1: "okS (dev_read dev sec (of_nat ?k) (drop off buf)) s
        (\<lambda>r s'. r = put_at 0 ?bs (drop off buf) \<and> view s' n d)"
      using less.prems k by (intro dev_read_view) auto
    have split: "sectors_at d (unat sec) rem = ?bs @ sectors_at d (unat sec + ?k) (rem - ?k)"
      by (subst k(4)) (rule sectors_at_add)
    have 2: "okS (read_chunks dev (rem - ?k) (sec + of_nat ?k) (off + ?k * 512) (take off buf @ put_at 0 ?bs (drop off buf))) s'
        (\<lambda>r s'. r = put_at off (sectors_at d (unat sec) rem) buf \<and> view s' n d)" if "view s' n d" for s'
    proof -
      have u: "unat (sec + of_nat ?k) = unat sec + ?k" using less.prems(1,2) k by (intro unat_add_sectors) auto
      have lt: "length (take off buf @ put_at 0 ?bs (drop off buf)) = length buf" using less.prems(3) l by (simp add: put_at_def)
      have "put_at (off + ?k * 512) (sectors_at d (unat sec + ?k) (rem - ?k)) (take off buf @ put_at 0 ?bs (drop off buf)) =
          put_at off (sectors_at d (unat sec) rem) buf"
        unfolding split l [symmetric] using less.prems(3) l view_len [OF that] by (intro put_at_split) simp
      then show ?thesis
        using less.IH [OF k(3) that, of "sec + of_nat ?k" "off + ?k * 512" "take off buf @ put_at 0 ?bs (drop off buf)"]
          less.prems(2,3) u lt k(4) by (simp add: algebra_simps)
    qed
    have "\<not> length buf < off" using less.prems(3) by simp
    then show ?thesis using False 2
      by (subst read_chunks.simps) (auto simp: Let_def ok_simps intro!: okS_mono [OF 1])
  qed
qed

lemma write_chunks_view:
  assumes "view s n d" and "unat sec + rem \<le> n" and "off + rem * 512 \<le> length buf"
  shows "okS (write_chunks dev rem sec off buf) s
           (\<lambda>_ s'. view s' n (store_sectors (unat sec) rem (drop off buf) d))"
  using assms
proof (induction rem arbitrary: sec off s d rule: less_induct)
  case (less rem)
  show ?case
  proof (cases "rem = 0")
    case True
    then show ?thesis using less.prems by (simp add: write_chunks.simps ok_simps)
  next
    case False
    let ?k = "min rem 8"
    have k: "0 < ?k" "?k \<le> 8" "rem - ?k < rem" "?k + (rem - ?k) = rem" using False by auto
    let ?d = "store_sectors (unat sec) ?k (drop off buf) d"
    have 1: "okS (dev_write dev sec (of_nat ?k) (drop off buf)) s (\<lambda>_ s'. view s' n ?d)"
      using less.prems k by (intro dev_write_view) auto
    have u: "unat (sec + of_nat ?k) = unat sec + ?k" using less.prems(1,2) k by (intro unat_add_sectors) auto
    have split: "store_sectors (unat sec + ?k) (rem - ?k) (drop (off + ?k * 512) buf) ?d =
        store_sectors (unat sec) rem (drop off buf) d"
      using store_sectors_add [of "unat sec" ?k "rem - ?k" "drop off buf" d] k(4) by (simp add: add.commute)
    have 2: "okS (write_chunks dev (rem - ?k) (sec + of_nat ?k) (off + ?k * 512) buf) s'
        (\<lambda>_ s'. view s' n (store_sectors (unat sec) rem (drop off buf) d))" if "view s' n ?d" for s'
      using less.IH [OF k(3) that, of "sec + of_nat ?k" "off + ?k * 512"] less.prems(2,3) u k(4) split
      by (simp add: algebra_simps)
    have "\<not> length buf < off" using less.prems(3) by simp
    then show ?thesis using False 2
      by (subst write_chunks.simps) (auto simp: Let_def ok_simps intro!: okS_mono [OF 1])
  qed
qed

end

section \<open>Updates of the store\<close>

definition put_clus :: "Fat32Fs \<Rightarrow> u32 \<Rightarrow> u8 list \<Rightarrow> (nat \<Rightarrow> sector) \<Rightarrow> nat \<Rightarrow> sector" where
  "put_clus f c bs d = store_sectors (first_sector f c) (spc f) bs d"

definition fat_sector :: "Fat32Fs \<Rightarrow> nat \<Rightarrow> u32 \<Rightarrow> nat" where
  "fat_sector f k c = fat0 f + k * fatsz f + unat c div 128"

definition fat_value :: "u32 \<Rightarrow> u32 \<Rightarrow> u32" where
  "fat_value existing v = (existing AND 0xF0000000) OR (v AND 0x0FFFFFFF)"

definition put_fat_copy :: "Fat32Fs \<Rightarrow> u32 \<Rightarrow> u32 \<Rightarrow> nat \<Rightarrow> (nat \<Rightarrow> sector) \<Rightarrow> nat \<Rightarrow> sector" where
  "put_fat_copy f c v k d = store_sectors (fat_sector f k c) 1
     (put_at (unat c mod 128 * 4) (le_bytes 4 (fat_value (fat_raw f d k c) v)) (d (fat_sector f k c))) d"

definition put_fat :: "Fat32Fs \<Rightarrow> u32 \<Rightarrow> u32 \<Rightarrow> (nat \<Rightarrow> sector) \<Rightarrow> nat \<Rightarrow> sector" where
  "put_fat f c v d = fold (put_fat_copy f c v) [0 ..< nfats f] d"

definition secs :: "(nat \<Rightarrow> sector) \<Rightarrow> bool" where
  "secs d \<longleftrightarrow> (\<forall>k. length (d k) = 512)"

lemma fat_pos: "unat (c :: u32) mod 128 * 4 + 4 \<le> 512"
proof -
  have "unat c mod 128 < 128" by simp
  then show ?thesis by linarith
qed

lemma u32_at_put:
  assumes "pos + 4 \<le> length buf"
  shows "u32_at pos (put_at pos (le_bytes 4 w) buf) = w"
proof -
  have b: "le_bytes 4 w = [le_bytes 4 w ! 0, le_bytes 4 w ! 1, le_bytes 4 w ! 2, le_bytes 4 w ! 3]"
    by (rule nth_equalityI) (auto simp: less_Suc_eq numeral_eq_Suc)
  have n: "put_at pos (le_bytes 4 w) buf ! (pos + i) = le_bytes 4 w ! i" if "i < 4" for i
    using that assms by (simp add: nth_put_at)
  have "u32_at pos (put_at pos (le_bytes 4 w) buf) = le_word (le_bytes 4 w)"
    unfolding u32_at_def using n [of 0] n [of 1] n [of 2] n [of 3] b by simp
  then show ?thesis by simp
qed

lemma u32_at_put_other:
  assumes "pos + 4 \<le> length buf" "p2 + 4 \<le> length buf" and "p2 + 4 \<le> pos \<or> pos + 4 \<le> p2"
  shows "u32_at p2 (put_at pos (le_bytes 4 w) buf) = u32_at p2 buf"
proof -
  have n: "put_at pos (le_bytes 4 w) buf ! (p2 + i) = buf ! (p2 + i)" if "i < 4" for i
    using that assms by (auto simp: nth_put_at)
  show ?thesis
    unfolding u32_at_def using n [of 0] n [of 1] n [of 2] n [of 3] by simp
qed

lemma fat_value_mask: "fat_value x v AND 0x0FFFFFFF = v AND 0x0FFFFFFF"
proof -
  have m: "(0x0FFFFFFF :: u32) = mask 28" "(0xF0000000 :: u32) = NOT (mask 28)"
    by (simp_all add: mask_eq_exp_minus_1)
  show ?thesis unfolding fat_value_def m by (rule bit_word_eqI) (auto simp: bit_simps)
qed

lemma secs_store: "secs d \<Longrightarrow> n * 512 \<le> length bs \<Longrightarrow> secs (store_sectors lba n bs d)"
  unfolding secs_def store_sectors_def
proof (intro allI, simp, intro impI)
  fix k assume "n * 512 \<le> length bs" and k: "lba \<le> k \<and> k < lba + n"
  moreover have "Suc (k - lba) * 512 \<le> n * 512" using k by (intro mult_le_mono1) linarith
  ultimately show "length (subslice ((k - lba) * 512) 512 bs) = 512" by simp
qed

lemma store_one: "length b = 512 \<Longrightarrow> store_sectors l 1 b d = d(l := b)"
  by (auto simp: store_sectors_def fun_eq_iff subslice_def)

lemma put_fat_copy_upd:
  assumes "secs d"
  shows "put_fat_copy f c v k d = d(fat_sector f k c :=
    put_at (unat c mod 128 * 4) (le_bytes 4 (fat_value (fat_raw f d k c) v)) (d (fat_sector f k c)))"
  unfolding put_fat_copy_def using assms fat_pos [of c] by (intro store_one) (simp add: secs_def)

lemma secs_put_fat_copy: "secs d \<Longrightarrow> secs (put_fat_copy f c v k d)"
  using fat_pos [of c] by (auto simp: put_fat_copy_upd secs_def)

lemma put_fat_copy_other: "secs d \<Longrightarrow> l \<noteq> fat_sector f k c \<Longrightarrow> put_fat_copy f c v k d l = d l"
  by (simp add: put_fat_copy_upd)

lemma fat_sector_inj:
  assumes "fat_sector f k c = fat_sector f k' c'" and "unat c < 128 * fatsz f" "unat c' < 128 * fatsz f"
  shows "k = k' \<and> unat c div 128 = unat c' div 128"
proof -
  have q: "unat c div 128 < fatsz f" "unat c' div 128 < fatsz f" using assms(2,3) by (simp_all add: div_less_iff_less_mult)
  have e: "k * fatsz f + unat c div 128 = k' * fatsz f + unat c' div 128"
    using assms(1) by (simp add: fat_sector_def)
  from arg_cong [OF e, of "\<lambda>x. x div fatsz f"] q have "k = k'" by simp
  with e show ?thesis by simp
qed

lemma fat_raw_put_copy:
  assumes "secs d" and c: "unat c < 128 * fatsz f" "unat c' < 128 * fatsz f"
  shows "fat_raw f (put_fat_copy f c v k d) k' c' =
    (if k' = k \<and> c' = c then fat_value (fat_raw f d k c) v else fat_raw f d k' c')"
proof (cases "fat_sector f k' c' = fat_sector f k c")
  case True
  with fat_sector_inj [OF _ c(2,1)] have kk: "k' = k" "unat c' div 128 = unat c div 128" by auto
  let ?b = "d (fat_sector f k c)"
  have raw: "fat_raw f x k c' = u32_at (unat c' mod 128 * 4) (x (fat_sector f k c))" for x
    using kk True by (simp add: fat_raw_def fat_sector_def)
  have lb: "length ?b = 512" using assms(1) by (simp add: secs_def)
  show ?thesis
  proof (cases "c' = c")
    case eq: True
    then show ?thesis using kk fat_pos [of c] lb raw by (simp add: put_fat_copy_upd [OF assms(1)] u32_at_put)
  next
    case False
    then have "unat c' mod 128 \<noteq> unat c mod 128" using kk(2) by (metis div_mult_mod_eq word_unat_eq_iff)
    then have "unat c' mod 128 * 4 + 4 \<le> unat c mod 128 * 4 \<or> unat c mod 128 * 4 + 4 \<le> unat c' mod 128 * 4" by linarith
    then have "u32_at (unat c' mod 128 * 4) (put_fat_copy f c v k d (fat_sector f k c)) = u32_at (unat c' mod 128 * 4) ?b"
      using fat_pos [of c] fat_pos [of c'] lb by (simp add: put_fat_copy_upd [OF assms(1)] u32_at_put_other)
    then show ?thesis using False kk raw by simp
  qed
next
  case False
  then have "\<not> (k' = k \<and> c' = c)" by auto
  then show ?thesis using False unfolding fat_raw_def fat_sector_def [symmetric]
    by (auto simp: put_fat_copy_upd [OF assms(1)])
qed

lemma fold_put_copies:
  assumes "secs d" and c: "unat c < 128 * fatsz f"
  shows "secs (fold (put_fat_copy f c v) ks d)"
    and "distinct ks \<Longrightarrow> unat c' < 128 * fatsz f \<Longrightarrow> fat_raw f (fold (put_fat_copy f c v) ks d) k c' =
      (if k \<in> set ks \<and> c' = c then fat_value (fat_raw f d k c) v else fat_raw f d k c')"
    and "(\<And>j. j \<in> set ks \<Longrightarrow> fat_sector f j c \<noteq> l) \<Longrightarrow> fold (put_fat_copy f c v) ks d l = d l"
proof -
  show "secs (fold (put_fat_copy f c v) ks d)"
    using assms(1) by (induction ks arbitrary: d) (simp_all add: secs_put_fat_copy)
  show "distinct ks \<Longrightarrow> unat c' < 128 * fatsz f \<Longrightarrow> fat_raw f (fold (put_fat_copy f c v) ks d) k c' =
      (if k \<in> set ks \<and> c' = c then fat_value (fat_raw f d k c) v else fat_raw f d k c')"
    using assms(1) by (induction ks arbitrary: d) (auto simp: secs_put_fat_copy fat_raw_put_copy c)
  show "(\<And>j. j \<in> set ks \<Longrightarrow> fat_sector f j c \<noteq> l) \<Longrightarrow> fold (put_fat_copy f c v) ks d l = d l"
    using assms(1) by (induction ks arbitrary: d) (simp_all add: secs_put_fat_copy put_fat_copy_other [OF _ not_sym])
qed

lemma fat_sector_bound:
  assumes "geom f n" and "unat c < 128 * fatsz f" and "k < nfats f"
  shows "fat_sector f k c < data0 f"
proof -
  have "unat c div 128 < fatsz f" using assms(2) by (simp add: div_less_iff_less_mult)
  moreover have "Suc k * fatsz f \<le> nfats f * fatsz f" using assms(3) by (intro mult_le_mono1) simp
  ultimately show ?thesis using assms(1) by (simp add: fat_sector_def geom_def)
qed

lemma two_le: "2 \<le> c \<longleftrightarrow> 2 \<le> unat (c :: u32)"
  by (simp add: word_le_nat_alt)

lemma first_sector_disjoint:
  assumes "2 \<le> c" "2 \<le> c'" "c \<noteq> c'"
  shows "first_sector f c + spc f \<le> first_sector f c' \<or> first_sector f c' + spc f \<le> first_sector f c"
proof -
  have "unat c \<noteq> unat c'" using assms(3) by (simp add: word_unat_eq_iff)
  then have "unat c - 2 + 1 \<le> unat c' - 2 \<or> unat c' - 2 + 1 \<le> unat c - 2"
    using assms(1,2) by (auto simp: two_le)
  then have "(unat c - 2 + 1) * spc f \<le> (unat c' - 2) * spc f \<or> (unat c' - 2 + 1) * spc f \<le> (unat c - 2) * spc f"
    by (meson mult_le_mono1)
  then show ?thesis by (auto simp: first_sector_def)
qed

text \<open>The four laws of the store.\<close>

lemma fat_put_fat:
  assumes "geom f n" and "secs d" and "unat c < 128 * fatsz f"
  shows "fat f (put_fat f c v d) = (fat f d)(c := v AND 0x0FFFFFFF)"
proof
  fix c'
  have "0 < nfats f" using assms(1) by (simp add: geom_def)
  then show "fat f (put_fat f c v d) c' = ((fat f d)(c := v AND 0x0FFFFFFF)) c'"
    using fold_put_copies(2) [OF assms(2,3), of "[0 ..< nfats f]" c' v 0] assms(3)
    by (auto simp: fat_def put_fat_def fat_value_mask)
qed

lemma clus_put_fat:
  assumes "geom f n" and "secs d" and "unat c < 128 * fatsz f"
  shows "clus f (put_fat f c v d) = clus f d"
proof -
  have "put_fat f c v d l = d l" if "data0 f \<le> l" for l
    unfolding put_fat_def using that fat_sector_bound [OF assms(1,3)]
    by (intro fold_put_copies(3) [OF assms(2,3)]) fastforce
  then have "sectors_at (put_fat f c v d) (first_sector f c') (spc f) = sectors_at d (first_sector f c') (spc f)" for c'
    by (intro sectors_at_cong) (simp add: first_sector_def)
  then show ?thesis by (auto simp: clus_def fun_eq_iff)
qed

lemma fat_put_clus:
  assumes "geom f n"
  shows "fat f (put_clus f c bs d) = fat f d"
proof
  fix c'
  show "fat f (put_clus f c bs d) c' = fat f d c'"
  proof (cases "unat c' < 128 * fatsz f")
    case True
    then have "fat_sector f 0 c' < data0 f" using assms by (intro fat_sector_bound) (auto simp: geom_def)
    then have "put_clus f c bs d (fat_sector f 0 c') = d (fat_sector f 0 c')"
      by (simp add: put_clus_def store_sectors_def first_sector_def)
    then show ?thesis by (simp add: fat_def fat_raw_def fat_sector_def)
  qed (simp add: fat_def)
qed

lemma clus_put_clus:
  assumes "2 \<le> c" and "spc f * 512 \<le> length bs"
  shows "clus f (put_clus f c bs d) = (clus f d)(c := take (spc f * 512) bs)"
proof
  fix c'
  show "clus f (put_clus f c bs d) c' = ((clus f d)(c := take (spc f * 512) bs)) c'"
  proof (cases "c' = c")
    case True
    then show ?thesis using assms by (auto simp: clus_def put_clus_def sectors_at_store_same)
  next
    case False
    then show ?thesis using first_sector_disjoint [OF assms(1), of c' f]
      by (auto simp: clus_def put_clus_def sectors_at_store_other not_less)
  qed
qed

lemma secs_put:
  "secs d \<Longrightarrow> unat c < 128 * fatsz f \<Longrightarrow> secs (put_fat f c v d)"
  "secs d \<Longrightarrow> spc f * 512 \<le> length bs \<Longrightarrow> secs (put_clus f c bs d)"
  by (simp_all add: put_fat_def fold_put_copies(1) put_clus_def secs_store)

lemma length_clus: "secs d \<Longrightarrow> 2 \<le> c \<Longrightarrow> length (clus f d c) = cluster_size_bytes f"
  by (auto simp: clus_def secs_def cluster_size_bytes_def)

section \<open>The operations of the driver\<close>

lemma cluster_to_sector_ok:
  assumes "geom f n" and "in_data f n c"
  obtains x where "cluster_to_sector f c = Inr x" and "unat x = first_sector f c"
proof -
  have c: "2 \<le> unat c" "first_sector f c + spc f \<le> n" "n \<le> 2 ^ 48" "spc f \<le> 128"
    using assms by (auto simp: in_data_def in_chain_def geom_def two_le)
  let ?c = "ucast c :: u64" and ?p = "ucast (sectors_per_cluster (bpb f)) :: u64"
  have u: "unat ?c = unat c" "unat ?p = spc f" by (simp_all add: unat_ucast_up)
  have s: "unat (?c - 2) = unat c - 2" using c(1) u by (simp add: unat_sub word_le_nat_alt)
  have b: "(unat c - 2) * spc f < 2 ^ 64"
    using c(2,3) by (simp add: first_sector_def)
  have m: "unat ((?c - 2) * ?p) = (unat c - 2) * spc f" using b s u by (simp add: unat_word_ariths)
  have a: "data0 f + (unat c - 2) * spc f < 2 ^ 64" using c(2,3) by (simp add: first_sector_def)
  have "unat (data_start_sector f + (?c - 2) * ?p) = data0 f + (unat c - 2) * spc f"
    using m a by (simp add: unat_word_ariths)
  then show ?thesis using that [of "data_start_sector f + (?c - 2) * ?p"] c(1)
    by (simp add: cluster_to_sector_def first_sector_def word_less_nat_alt)
qed

lemma fat_offset:
  "unat ((ucast (c :: u32) :: u64) * 4 div 512) = unat c div 128"
  "unat ((ucast (c :: u32) :: u64) * 4 mod 512) = unat c mod 128 * 4"
proof -
  have "unat c < 2 ^ 32" using unat_lt_32 [of c] by simp
  then have "unat ((ucast c :: u64) * 4) = unat c * 4" by (simp add: unat_word_ariths unat_ucast_up)
  then show "unat ((ucast (c :: u32) :: u64) * 4 div 512) = unat c div 128"
    "unat ((ucast (c :: u32) :: u64) * 4 mod 512) = unat c mod 128 * 4"
    by (simp_all add: unat_div unat_mod_distrib div_mult2_eq [of "unat c * 4" 4 128, simplified]
        mult_mod_left [of "unat c" 128 4, simplified])
qed

lemma fat_lba:
  assumes "geom f n" and "unat c < 128 * fatsz f" and "k < nfats f"
  shows "unat (fat_start_sector f + of_nat k * ucast (fat_size_sectors (bpb f)) + (ucast c :: u64) * 4 div 512) =
    fat_sector f k c"
proof -
  have b: "fat_sector f k c < 2 ^ 48" using fat_sector_bound [OF assms] assms(1) by (simp add: geom_def)
  have "k < 2 ^ 32" using assms(3) unat_lt_32 [of "num_fats (bpb f)"] by simp
  then have "unat (of_nat k :: u64) = k" by (simp add: unat_of_nat)
  moreover have "unat (ucast (fat_size_sectors (bpb f)) :: u64) = fatsz f" by (simp add: unat_ucast_up)
  ultimately have m: "unat (of_nat k * ucast (fat_size_sectors (bpb f)) :: u64) = k * fatsz f"
    using b by (simp add: unat_word_ariths fat_sector_def)
  show ?thesis using m fat_offset(1) [of c] b by (simp add: unat_word_ariths fat_sector_def)
qed

context block_device
begin

lemma view_secs: "view s n d \<Longrightarrow> secs d"
  using view_len by (simp add: secs_def)

lemma read_cluster_view:
  assumes "view s n d" and "geom f n" and "in_data f n c" and "length buf = cluster_size_bytes f"
  shows "okS (read_cluster dev f c buf) s (\<lambda>r s'. r = clus f d c \<and> view s' n d)"
proof -
  obtain x where x: "cluster_to_sector f c = Inr x" "unat x = first_sector f c"
    using cluster_to_sector_ok [OF assms(2,3)] .
  have "put_at 0 (sectors_at d (first_sector f c) (spc f)) buf = clus f d c"
    using assms(3,4) view_len [OF assms(1)]
    by (auto simp: put_at_def clus_def in_data_def in_chain_def cluster_size_bytes_def)
  then show ?thesis
    using read_chunks_view [OF assms(1), of x "spc f" 0 buf] assms(3,4) x
    by (simp add: read_cluster_def ok_simps in_data_def cluster_size_bytes_def)
qed

lemma write_cluster_view:
  assumes "view s n d" and "geom f n" and "in_data f n c" and "length buf = cluster_size_bytes f"
  shows "okS (write_cluster dev f c buf) s (\<lambda>_ s'. view s' n (put_clus f c buf d))"
proof -
  obtain x where x: "cluster_to_sector f c = Inr x" "unat x = first_sector f c"
    using cluster_to_sector_ok [OF assms(2,3)] .
  then show ?thesis
    using write_chunks_view [OF assms(1), of x "spc f" 0 buf] assms(3,4)
    by (simp add: write_cluster_def ok_simps in_data_def cluster_size_bytes_def put_clus_def)
qed

lemma read_one:
  assumes "view s n d" and "unat lba < n"
  shows "okS (dev_read dev lba 1 (replicate 512 0)) s (\<lambda>r s'. r = d (unat lba) \<and> view s' n d)"
  using dev_read_view [OF assms(1), of 1 lba "replicate 512 0"] assms(2) view_len [OF assms(1), of "unat lba"]
  by (simp add: put_at_def)

lemma write_one:
  assumes "view s n d" and "unat lba < n" and "512 \<le> length buf"
  shows "okS (dev_write dev lba 1 buf) s (\<lambda>_ s'. view s' n (store_sectors (unat lba) 1 buf d))"
  using dev_write_view [OF assms(1), of 1 lba buf] assms(2,3) by simp

lemma next_cluster_view:
  assumes "view s n d" and "geom f n" and "unat c < 128 * fatsz f"
  shows "okS (next_cluster dev f c) s (\<lambda>r s'. r = fat f d c \<and> view s' n d)"
proof -
  have "0 < nfats f" using assms(2) by (simp add: geom_def)
  from fat_lba [OF assms(2,3) this] have l: "unat (fat_start_sector f + (ucast c :: u64) * 4 div 512) = fat_sector f 0 c" by simp
  have "fat_sector f 0 c < n"
    using fat_sector_bound [OF assms(2,3) \<open>0 < nfats f\<close>] assms(2) by (simp add: geom_def)
  then have 1: "okS (dev_read dev (fat_start_sector f + (ucast c :: u64) * 4 div 512) 1 (replicate 512 0)) s
      (\<lambda>r s'. r = d (fat_sector f 0 c) \<and> view s' n d)"
    using read_one [OF assms(1), of "fat_start_sector f + (ucast c :: u64) * 4 div 512"] unfolding l by simp
  show ?thesis
    unfolding next_cluster_def Let_def okS_bind okS_ret fat_offset(2)
    using assms(3) by (intro okS_mono [OF 1]) (simp add: fat_def fat_raw_def fat_sector_def)
qed

lemma set_fat_copy_view:
  assumes "view s n d" and "geom f n" and "unat c < 128 * fatsz f" and "k < nfats f"
  shows "okS (set_fat_copy dev f c v k) s (\<lambda>_ s'. view s' n (put_fat_copy f c v k d))"
proof -
  let ?l = "fat_start_sector f + of_nat k * ucast (fat_size_sectors (bpb f)) + (ucast c :: u64) * 4 div 512"
  have l: "unat ?l = fat_sector f k c" by (rule fat_lba [OF assms(2-4)])
  have b: "unat ?l < n" unfolding l using fat_sector_bound [OF assms(2-4)] assms(2) by (simp add: geom_def)
  have "okS (dev_write dev ?l 1 (put_at (unat c mod 128 * 4) (le_bytes 4 (fat_value (u32_at (unat c mod 128 * 4) buf) v)) buf)) s'
      (\<lambda>_ s'. view s' n (put_fat_copy f c v k d))"
    if "buf = d (unat ?l)" "view s' n d" for buf s'
    using write_one [OF that(2) b, of "put_at (unat c mod 128 * 4) (le_bytes 4 (fat_value (u32_at (unat c mod 128 * 4) buf) v)) buf"]
      that fat_pos [of c] view_len [OF assms(1)]
    unfolding l by (simp add: put_fat_copy_def fat_raw_def fat_sector_def)
  then show ?thesis
    unfolding set_fat_copy_def Let_def okS_bind fat_offset(2) fat_value_def [symmetric]
    by (intro okS_mono [OF read_one [OF assms(1) b]]) simp
qed

lemma set_fat_entry_view:
  assumes "view s n d" and "geom f n" and "unat c < 128 * fatsz f"
  shows "okS (set_fat_entry dev f c v) s (\<lambda>_ s'. view s' n (put_fat f c v d))"
proof -
  have "okS (forS ks (set_fat_copy dev f c v)) s (\<lambda>_ s'. view s' n (fold (put_fat_copy f c v) ks d))"
    if "set ks \<subseteq> {..< nfats f}" for ks
    using that assms(1)
  proof (induction ks arbitrary: s d)
    case (Cons k ks)
    then have k: "k < nfats f" by simp
    show ?case using Cons
      by (simp only: forS.simps okS_bind fold.simps o_apply)
        (rule okS_mono [OF set_fat_copy_view [OF Cons.prems(2) assms(2,3) k]], simp)
  qed (simp add: ok_simps)
  then show ?thesis by (simp add: set_fat_entry_def put_fat_def lessThan_atLeast0)
qed

end

section \<open>Allocation\<close>

definition free :: "Fat32Fs \<Rightarrow> (nat \<Rightarrow> sector) \<Rightarrow> u32 set" where
  "free f d = {c. 2 \<le> c \<and> fat f d c = 0}"

text \<open>The table marks no cluster free that lies outside of the device.\<close>

definition free_in_data :: "Fat32Fs \<Rightarrow> nat \<Rightarrow> (nat \<Rightarrow> sector) \<Rightarrow> bool" where
  "free_in_data f n d \<longleftrightarrow> free f d \<subseteq> Collect (in_data f n)"

lemma free_bound: "c \<in> free f d \<Longrightarrow> unat c < 128 * fatsz f"
  by (auto simp: free_def fat_def split: if_splits)

lemma entry_number:
  assumes "geom f n" and "si < fatsz f" and "i < 128"
  shows "unat (of_nat (si * 128) + of_nat i :: u32) = si * 128 + i"
proof -
  have "Suc si * 128 \<le> fatsz f * 128" using assms(2) by (intro mult_le_mono1) simp
  then have "si * 128 + i < 2 ^ 32" using assms by (simp add: geom_def)
  then show ?thesis unfolding of_nat_add [symmetric] by (simp add: unat_of_nat del: of_nat_add)
qed

lemma free_in_sector_iff:
  assumes "geom f n" and "si < fatsz f" and "i < 128"
  shows "(\<not> (of_nat (si * 128) + of_nat i :: u32) < 2 \<and> u32_at (i * 4) (d (fat0 f + si)) AND 0x0FFFFFFF = 0) \<longleftrightarrow>
    of_nat (si * 128) + of_nat i \<in> free f d"
proof -
  let ?c = "of_nat (si * 128) + of_nat i :: u32"
  have u: "unat ?c = si * 128 + i" by (rule entry_number [OF assms])
  then have q: "unat ?c div 128 = si" "unat ?c mod 128 = i" using assms(3) by simp_all
  have "unat ?c < 128 * fatsz f" using q(1) assms(2) by (metis div_less_iff_less_mult mult.commute zero_less_numeral)
  then have "fat f d ?c = u32_at (i * 4) (d (fat0 f + si)) AND 0x0FFFFFFF"
    unfolding fat_def fat_raw_def q by simp
  then show ?thesis by (simp add: free_def not_less)
qed

lemma free_in_sector_spec:
  assumes "geom f n" and "si < fatsz f"
  shows "free_in_sector si (d (fat0 f + si)) = None \<Longrightarrow> unat c div 128 = si \<Longrightarrow> c \<notin> free f d"
    and "free_in_sector si (d (fat0 f + si)) = Some c \<Longrightarrow>
      c \<in> free f d \<and> unat c div 128 = si \<and> (\<forall>c' \<in> free f d. unat c' div 128 = si \<longrightarrow> c \<le> c')"
proof -
  let ?n = "\<lambda>i. of_nat (si * 128) + of_nat i :: u32"
  let ?P = "\<lambda>i. \<not> ?n i < 2 \<and> u32_at (i * 4) (d (fat0 f + si)) AND 0x0FFFFFFF = 0"
  have num: "c = ?n (unat c mod 128)" if "unat c div 128 = si" for c
  proof -
    have "unat (?n (unat c mod 128)) = si * 128 + unat c mod 128" by (intro entry_number [OF assms]) simp
    also have "\<dots> = unat c" using that div_mult_mod_eq [of "unat c" 128] by simp
    finally show ?thesis by (simp add: word_unat_eq_iff)
  qed
  show "c \<notin> free f d" if "free_in_sector si (d (fat0 f + si)) = None" "unat c div 128 = si"
  proof -
    have "\<not> ?P (unat c mod 128)" using that(1) by (auto simp: free_in_sector_def find_None_iff)
    then have "?n (unat c mod 128) \<notin> free f d" using free_in_sector_iff [OF assms, of "unat c mod 128" d] by auto
    then show ?thesis using num [OF that(2)] by simp
  qed
  assume "free_in_sector si (d (fat0 f + si)) = Some c"
  then obtain i where i: "i < 128" "?P i" "\<forall>j < i. \<not> ?P j" "c = ?n i"
    unfolding free_in_sector_def by (auto simp: find_Some_iff)
  have uc: "unat c = si * 128 + i" using entry_number [OF assms i(1)] i(4) by simp
  have "c \<le> c'" if "c' \<in> free f d" "unat c' div 128 = si" for c'
  proof (rule ccontr)
    assume "\<not> c \<le> c'"
    then have "unat c' < unat c" by (simp add: word_le_nat_alt)
    then have "unat c' mod 128 < i" using uc that(2) div_mult_mod_eq [of "unat c'" 128] by linarith
    with i(3) have "\<not> ?P (unat c' mod 128)" by blast
    then have "?n (unat c' mod 128) \<notin> free f d" using free_in_sector_iff [OF assms, of "unat c' mod 128" d] by auto
    then show False using num [OF that(2)] that(1) by simp
  qed
  moreover have "c \<in> free f d" using free_in_sector_iff [OF assms i(1), of d] i(2,4) by simp
  moreover have "unat c div 128 = si" using uc i(1) by simp
  ultimately show "c \<in> free f d \<and> unat c div 128 = si \<and> (\<forall>c' \<in> free f d. unat c' div 128 = si \<longrightarrow> c \<le> c')" by blast
qed

definition least_free :: "Fat32Fs \<Rightarrow> (nat \<Rightarrow> sector) \<Rightarrow> u32 \<Rightarrow> bool" where
  "least_free f d c \<longleftrightarrow> c \<in> free f d \<and> (\<forall>c' \<in> free f d. c \<le> c')"

lemma least_free_step:
  assumes "geom f n" and "si < fatsz f" and "free_in_sector si (d (fat0 f + si)) = Some c"
    and "\<And>c'. c' \<in> free f d \<Longrightarrow> si \<le> unat c' div 128"
  shows "least_free f d c"
proof -
  have sp: "c \<in> free f d \<and> unat c div 128 = si \<and> (\<forall>c' \<in> free f d. unat c' div 128 = si \<longrightarrow> c \<le> c')"
    by (rule free_in_sector_spec(2) [where d = d, OF assms(1,2,3)])
  have "c \<le> c'" if "c' \<in> free f d" for c'
  proof (cases "unat c' div 128 = si")
    case False
    then have "Suc (unat c div 128) \<le> unat c' div 128" using assms(4) [OF that] sp by simp
    then have "unat c \<le> unat c'" by (meson Suc_le_lessD div_le_mono leD nat_le_linear)
    then show ?thesis by (simp add: word_le_nat_alt)
  qed (use sp that in blast)
  then show ?thesis using sp by (simp add: least_free_def)
qed

text \<open>The disk after an allocation.\<close>

definition allocated :: "Fat32Fs \<Rightarrow> u32 option \<Rightarrow> u32 \<Rightarrow> (nat \<Rightarrow> sector) \<Rightarrow> nat \<Rightarrow> sector" where
  "allocated f prev c d = put_clus f c (replicate (cluster_size_bytes f) 0)
     ((case prev of None \<Rightarrow> id | Some p \<Rightarrow> put_fat f p c) (put_fat f c 0x0FFFFFFF d))"

context block_device
begin

lemma scan_fat_view:
  assumes "view s n d" and "geom f n" and "\<And>c. c \<in> free f d \<Longrightarrow> i \<le> unat c div 128" and "i \<le> fatsz f"
  shows "okS (scan_fat dev f [i ..< fatsz f]) s (\<lambda>r s'. view s' n d \<and>
    (case r of None \<Rightarrow> free f d = {} | Some c \<Rightarrow> least_free f d c))"
  using assms
proof (induction "fatsz f - i" arbitrary: i s)
  case 0
  have "free f d = {}"
  proof (rule ccontr)
    assume "free f d \<noteq> {}"
    then obtain c where c: "c \<in> free f d" by blast
    then have "unat c div 128 < fatsz f" using free_bound by (simp add: div_less_iff_less_mult mult.commute)
    then show False using 0 c by fastforce
  qed
  then show ?case using 0 by (simp add: ok_simps)
next
  case (Suc m)
  then have i: "i < fatsz f" by simp
  have l: "unat (fat_start_sector f + of_nat i) = fat0 f + i" and b: "fat0 f + i < n"
  proof -
    have "i < nfats f * fatsz f" using i Suc.prems(2) by (simp add: geom_def less_le_trans)
    then show b: "fat0 f + i < n" using Suc.prems(2) by (simp add: geom_def)
    then show "unat (fat_start_sector f + of_nat i) = fat0 f + i"
      using unat_add_sectors [OF Suc.prems(1), of "fat_start_sector f" i] by simp
  qed
  have step: "okS (case free_in_sector i (d (fat0 f + i)) of Some c \<Rightarrow> retS (Some c) | None \<Rightarrow> scan_fat dev f [Suc i ..< fatsz f]) s'
      (\<lambda>r s'. view s' n d \<and> (case r of None \<Rightarrow> free f d = {} | Some c \<Rightarrow> least_free f d c))" if v: "view s' n d" for s'
  proof (cases "free_in_sector i (d (fat0 f + i))")
    case None
    have "Suc i \<le> unat c div 128" if "c \<in> free f d" for c
      using free_in_sector_spec(1) [where d = d and c = c, OF Suc.prems(2) i None] Suc.prems(3) [OF that] that by fastforce
    then show ?thesis using None Suc.hyps(1) [of "Suc i", OF _ v Suc.prems(2)] Suc.hyps(2) i by simp
  next
    case (Some c)
    then show ?thesis using v least_free_step [where d = d, OF Suc.prems(2) i Some Suc.prems(3)] by (simp add: ok_simps)
  qed
  have "okS (scan_fat dev f (i # [Suc i ..< fatsz f])) s
      (\<lambda>r s'. view s' n d \<and> (case r of None \<Rightarrow> free f d = {} | Some c \<Rightarrow> least_free f d c))"
    unfolding scan_fat.simps okS_bind
    by (rule okS_mono [OF read_one [OF Suc.prems(1)]]) (use l b step in auto)
  then show ?case using i by (simp add: upt_conv_Cons)
qed

lemma alloc_cluster_view:
  assumes "view s n d" and "geom f n" and "free_in_data f n d" and "free f d \<noteq> {}"
    and "case prev of None \<Rightarrow> True | Some p \<Rightarrow> unat p < 128 * fatsz f"
  shows "okS (alloc_cluster dev f prev) s (\<lambda>c s'. least_free f d c \<and> view s' n (allocated f prev c d))"
proof -
  have 1: "okS (scan_fat dev f [0 ..< fatsz f]) s (\<lambda>r s'. view s' n d \<and>
      (case r of None \<Rightarrow> free f d = {} | Some c \<Rightarrow> least_free f d c))"
    by (rule scan_fat_view [OF assms(1,2)]) simp_all
  have 2: "okS (set_fat_entry dev f c 0x0FFFFFFF) s' (\<lambda>_ s'.
      okS (case prev of None \<Rightarrow> retS () | Some p \<Rightarrow> set_fat_entry dev f p c) s' (\<lambda>_ s'.
      okS (write_cluster dev f c (replicate (cluster_size_bytes f) 0)) s' (\<lambda>_ s'.
      view s' n (allocated f prev c d))))" if "least_free f d c" "view s' n d" for c s'
  proof -
    have c: "unat c < 128 * fatsz f" "in_data f n c"
      using that(1) assms(3) by (auto simp: least_free_def free_in_data_def free_bound)
    have w: "okS (write_cluster dev f c (replicate (cluster_size_bytes f) 0)) s'' (\<lambda>_ s'.
        view s' n (put_clus f c (replicate (cluster_size_bytes f) 0) d''))" if "view s'' n d''" for s'' d''
      by (rule write_cluster_view [OF that assms(2) c(2)]) simp
    show ?thesis
    proof (rule okS_mono [OF set_fat_entry_view [OF that(2) assms(2) c(1)]], cases prev)
      case None
      fix s'' assume "view s'' n (put_fat f c 0xFFFFFFF d)"
      with None w show "okS (case prev of None \<Rightarrow> retS () | Some p \<Rightarrow> set_fat_entry dev f p c) s'' (\<lambda>_ s'.
          okS (write_cluster dev f c (replicate (cluster_size_bytes f) 0)) s' (\<lambda>_ s'. view s' n (allocated f prev c d)))"
        by (simp add: ok_simps allocated_def)
    next
      case (Some p)
      fix s'' assume v: "view s'' n (put_fat f c 0xFFFFFFF d)"
      have p: "unat p < 128 * fatsz f" using assms(5) Some by simp
      show "okS (case prev of None \<Rightarrow> retS () | Some p \<Rightarrow> set_fat_entry dev f p c) s'' (\<lambda>_ s'.
          okS (write_cluster dev f c (replicate (cluster_size_bytes f) 0)) s' (\<lambda>_ s'. view s' n (allocated f prev c d)))"
        using okS_mono [OF set_fat_entry_view [OF v assms(2) p, of c]] w Some by (simp add: allocated_def)
    qed
  qed
  show ?thesis
    unfolding alloc_cluster_def okS_bind
    by (rule okS_mono [OF 1]) (use 2 assms(4) in \<open>auto split: option.splits simp: ok_simps elim: okS_mono\<close>)
qed

lemma alloc_cluster_full:
  assumes "view s n d" and "geom f n" and "free f d = {}"
  shows "\<exists>s'. alloc_cluster dev f prev s = (Inl (Err ''FAT32: disk full''), s') \<and> view s' n d"
proof -
  have "okS (scan_fat dev f [0 ..< fatsz f]) s (\<lambda>r s'. view s' n d \<and>
      (case r of None \<Rightarrow> free f d = {} | Some c \<Rightarrow> least_free f d c))"
    by (rule scan_fat_view [OF assms(1,2)]) simp_all
  then show ?thesis
    using assms(3) by (auto simp: okS_def alloc_cluster_def bindS_def least_free_def split: option.splits)
qed

end

end
