(* ===== verification/Fat32File.thy ===== *)
theory Fat32File
  imports Fat32Disk
begin

text \<open>
  Files of a FAT32 volume: chains of clusters, the bytes of a file, and the correctness of
  reading and writing. Chains are paths through the table, in the way lists on a heap are
  paths through the pointer fields.
\<close>

section \<open>Chains\<close>

primrec chain :: "(u32 \<Rightarrow> u32) \<Rightarrow> u32 \<Rightarrow> u32 list \<Rightarrow> bool" where
  "chain h c [] \<longleftrightarrow> 0x0FFFFFF8 \<le> c"
| "chain h c (x # xs) \<longleftrightarrow> c = x \<and> in_chain x \<and> chain h (h x) xs"

lemma chain_in_chain: "chain h c cs \<Longrightarrow> x \<in> set cs \<Longrightarrow> in_chain x"
  by (induction cs arbitrary: c) auto

lemma chain_end: "in_chain c \<Longrightarrow> \<not> 0x0FFFFFF8 \<le> c"
  by (simp add: in_chain_def not_le)

lemma chain_unique: "chain h c xs \<Longrightarrow> chain h c ys \<Longrightarrow> xs = ys"
proof (induction xs arbitrary: c ys)
  case Nil
  then show ?case by (cases ys) (auto dest: chain_end)
next
  case (Cons x xs)
  then show ?case by (cases ys) (auto dest: chain_end)
qed

lemma chain_suffix: "chain h c (xs @ y # ys) \<Longrightarrow> chain h y (y # ys)"
  by (induction xs arbitrary: c) auto

lemma chain_distinct: "chain h c cs \<Longrightarrow> distinct cs"
proof (induction cs arbitrary: c)
  case (Cons x xs)
  have "x \<notin> set xs"
  proof
    assume "x \<in> set xs"
    then obtain as bs where "xs = as @ x # bs" by (meson split_list)
    then have "chain h x (x # bs)" using Cons.prems chain_suffix [of h x "x # as"] by simp
    moreover have "chain h x (x # xs)" using Cons.prems by simp
    ultimately have "bs = xs" using chain_unique by blast
    then show False using \<open>xs = as @ x # bs\<close> by simp
  qed
  then show ?case using Cons by auto
qed simp

lemma chain_cong: "(\<And>x. x \<in> set cs \<Longrightarrow> h x = h' x) \<Longrightarrow> chain h c cs = chain h' c cs"
  by (induction cs arbitrary: c) auto

lemma chain_next_nonzero: "chain h c cs \<Longrightarrow> x \<in> set cs \<Longrightarrow> h x \<noteq> 0"
proof (induction cs arbitrary: c)
  case (Cons y ys)
  have "h y \<noteq> 0" using Cons.prems(1) by (cases ys) (auto simp: in_chain_def)
  then show ?case using Cons by auto
qed simp

lemma chain_append_path:
  assumes "chain h c (xs @ ys)" and "\<And>x. x \<in> set xs \<Longrightarrow> h' x = h x" and "ys \<noteq> []" and "chain h' (hd ys) (ys @ zs)"
  shows "chain h' c (xs @ ys @ zs)"
  using assms
proof (induction xs arbitrary: c)
  case Nil
  then show ?case by (cases ys) auto
qed auto

text \<open>A chain of clusters of the volume.\<close>

definition file_chain :: "Fat32Fs \<Rightarrow> nat \<Rightarrow> (nat \<Rightarrow> sector) \<Rightarrow> u32 \<Rightarrow> u32 list \<Rightarrow> bool" where
  "file_chain f n d c cs \<longleftrightarrow> (if c < 2 then cs = [] else chain (fat f d) c cs \<and> (\<forall>x \<in> set cs. in_data f n x))"

definition file_data :: "Fat32Fs \<Rightarrow> (nat \<Rightarrow> sector) \<Rightarrow> u32 list \<Rightarrow> u8 list" where
  "file_data f d cs = concat (map (clus f d) cs)"

lemma file_data_simps [simp]:
  "file_data f d [] = []"
  "file_data f d (c # cs) = clus f d c @ file_data f d cs"
  "file_data f d (xs @ ys) = file_data f d xs @ file_data f d ys"
  by (simp_all add: file_data_def)

lemma file_data_cong: "(\<And>x. x \<in> set cs \<Longrightarrow> clus f d x = clus f d' x) \<Longrightarrow> file_data f d cs = file_data f d' cs"
  by (induction cs) auto

lemma length_file_data:
  "secs d \<Longrightarrow> \<forall>x \<in> set cs. 2 \<le> x \<Longrightarrow> length (file_data f d cs) = length cs * cluster_size_bytes f"
  by (induction cs) (auto simp: length_clus)

lemma in_data_2: "in_data f n x \<Longrightarrow> 2 \<le> x"
  by (simp add: in_data_def in_chain_def)

lemma in_data_chain: "in_data f n x \<Longrightarrow> in_chain x"
  by (simp add: in_data_def)

lemma in_data_bound: "in_data f n x \<Longrightarrow> unat x < 128 * fatsz f"
  by (simp add: in_data_def)

lemma cluster_size_pos: "geom f n \<Longrightarrow> 0 < cluster_size_bytes f"
  by (simp add: geom_def cluster_size_bytes_def)

section \<open>Reading\<close>

context block_device
begin

lemma read_chain_loop_view:
  assumes "view s n d" and "geom f n" and "chain (fat f d) c cs" and "\<forall>x \<in> set cs. in_data f n x"
    and "length out \<le> mx" and "mx - length out \<le> fuel"
  shows "okS (read_chain_loop dev f fuel c out mx) s
    (\<lambda>r s'. r = take mx (out @ file_data f d cs) \<and> view s' n d)"
  using assms
proof (induction cs arbitrary: c out fuel s)
  case Nil
  then show ?case by (subst read_chain_loop.simps) (auto simp: in_chain_def ok_simps)
next
  case (Cons x xs)
  let ?cb = "cluster_size_bytes f"
  have c: "c = x" "in_chain x" "in_data f n x" using Cons.prems by auto
  show ?case
  proof (cases "length out < mx")
    case False
    then have "length out = mx" using Cons.prems(5) by simp
    then show ?thesis using Cons.prems(1) by (subst read_chain_loop.simps) (simp add: ok_simps)
  next
    case True
    let ?tk = "min ?cb (mx - length out)" and ?b = "clus f d x"
    let ?out = "take (length out + ?tk) (out @ ?b)"
    have lb: "length ?b = ?cb" using length_clus [OF view_secs [OF Cons.prems(1)] in_data_2 [OF c(3)]] .
    have tk: "0 < ?tk" "?tk \<le> ?cb" using True cluster_size_pos [OF Cons.prems(2)] by auto
    have lo: "length ?out = length out + ?tk" using lb tk(2) by simp
    have full: "take mx (?out @ file_data f d xs) = take mx (out @ file_data f d (x # xs))"
    proof (cases "?cb \<le> mx - length out")
      case True
      then show ?thesis using lb by simp
    next
      case False
      then have "length out + ?tk = mx" using True by simp
      then show ?thesis using lb by (simp add: take_append)
    qed
    have IH: "okS (read_chain_loop dev f (fuel - 1) (fat f d x) ?out mx) s'
        (\<lambda>r s'. r = take mx (out @ file_data f d (x # xs)) \<and> view s' n d)" if "view s' n d" for s'
    proof -
      have "chain (fat f d) (fat f d x) xs" "\<forall>x \<in> set xs. in_data f n x" using Cons.prems(3,4) by auto
      moreover have "length ?out \<le> mx" "mx - length ?out \<le> fuel - 1"
        unfolding lo using tk(1) Cons.prems(5,6) by auto
      ultimately show ?thesis using Cons.IH [OF that Cons.prems(2)] unfolding full [symmetric] by blast
    qed
    have "fuel \<noteq> 0" using True Cons.prems(6) by simp
    then show ?thesis
      unfolding c(1) using True c(2)
      by (subst read_chain_loop.simps) (auto simp: Let_def okS_bind simp del: take_append file_data_simps One_nat_def
          intro!: okS_mono [OF read_cluster_view [OF Cons.prems(1,2) c(3)]] okS_mono [OF next_cluster_view [OF _ Cons.prems(2) in_data_bound [OF c(3)]]] IH)
  qed
qed

lemma read_chain_into_view:
  assumes "view s n d" and "geom f n" and "file_chain f n d c cs"
  shows "okS (read_chain_into dev f c mx) s (\<lambda>r s'. r = take mx (file_data f d cs) \<and> view s' n d)"
  using assms read_chain_loop_view [OF assms(1,2), of c cs "[]" mx mx]
  by (auto simp: read_chain_into_def file_chain_def ok_simps)

lemma fat_read_view:
  assumes "view s n d" and "geom (node_fs nd) n" and "file_chain (node_fs nd) n d (first_cluster nd) cs"
    and "\<not> is_dir nd"
  defines "content \<equiv> take (unat (file_size nd)) (file_data (node_fs nd) d cs)"
  shows "okS (fat_read dev nd off buffer) s (\<lambda>r s'.
    r = (min (length buffer) (length content - off), put_at 0 (take (length buffer) (drop off content)) buffer) \<and> view s' n d)"
proof (cases "unat (file_size nd) \<le> off")
  case True
  then show ?thesis using assms by (simp add: fat_read_def ok_simps put_at_def)
next
  case False
  let ?sz = "unat (file_size nd)" and ?data = "file_data (node_fs nd) d cs"
  let ?want = "min (length buffer) (?sz - off)"
  let ?chain = "take (off + ?want) ?data"
  have k: "min (length ?chain) (off + ?want) - off = min (length buffer) (length content - off)"
    by (auto simp: content_def)
  have b: "subslice off (min (length buffer) (length content - off)) ?chain = take (length buffer) (drop off content)"
    by (cases "off \<le> length content") (auto simp: subslice_def content_def intro!: nth_equalityI)
  have z: "min (length buffer) (length content - off) = 0 \<Longrightarrow> put_at 0 (take (length buffer) (drop off content)) buffer = buffer"
    by (auto simp: put_at_def min_def split: if_splits)
  show ?thesis
    using False assms(4) k b z
    by (auto simp: fat_read_def Let_def ok_simps intro!: okS_mono [OF read_chain_into_view [OF assms(1-3)]])
qed

end

section \<open>Growing a chain\<close>

lemma put_at_Nil [simp]: "put_at off [] b = b"
  by (simp add: put_at_def)

lemma put_at_append: "off + length xs \<le> length b \<Longrightarrow> put_at off xs (b @ ys) = put_at off xs b @ ys"
  by (simp add: put_at_def)

lemma put_at_across:
  "off + length xs = length b \<Longrightarrow> put_at off (xs @ ys) (b @ z) = put_at off xs b @ put_at 0 ys z"
  by (simp add: put_at_def flip: add.assoc)

lemma link_value: "in_chain c \<Longrightarrow> c AND 0x0FFFFFFF = c"
proof -
  assume "in_chain c"
  then have "c < 0x0FFFFFF8" by (simp add: in_chain_def)
  then have "unat c < unat (0x0FFFFFF8 :: u32)" by (simp only: word_less_nat_alt)
  then have "unat c < 2 ^ 28" by simp
  moreover have "(0x0FFFFFFF :: u32) = mask 28" by (simp add: mask_eq_exp_minus_1)
  ultimately show ?thesis by (simp only: take_bit_eq_mask [symmetric]) (rule take_bit_small)
qed

lemma allocated_store:
  assumes "geom f n" and "secs d" and "in_data f n c" and "case prev of None \<Rightarrow> True | Some p \<Rightarrow> in_data f n p"
  shows "fat f (allocated f prev c d) =
      (case prev of None \<Rightarrow> (fat f d)(c := 0x0FFFFFFF) | Some p \<Rightarrow> (fat f d)(c := 0x0FFFFFFF, p := c))"
    and "clus f (allocated f prev c d) = (clus f d)(c := replicate (cluster_size_bytes f) 0)"
proof -
  note c = in_data_bound [OF assms(3)] in_data_2 [OF assms(3)]
  have l: "c AND 0x0FFFFFFF = c" using assms(3) by (intro link_value) (simp add: in_data_def)
  have s1: "secs (put_fat f c 0x0FFFFFFF d)" by (rule secs_put(1) [OF assms(2) c(1)])
  show "fat f (allocated f prev c d) =
      (case prev of None \<Rightarrow> (fat f d)(c := 0x0FFFFFFF) | Some p \<Rightarrow> (fat f d)(c := 0x0FFFFFFF, p := c))"
    using assms(4) by (auto simp: allocated_def fat_put_clus [OF assms(1)] fat_put_fat [OF assms(1)] s1 assms(2) c l
        in_data_bound split: option.splits)
  show "clus f (allocated f prev c d) = (clus f d)(c := replicate (cluster_size_bytes f) 0)"
    using assms(4) by (auto simp: allocated_def clus_put_clus c clus_put_fat [OF assms(1)] s1 assms(2)
        in_data_bound cluster_size_bytes_def split: option.splits)
qed

lemma free_allocated:
  assumes "geom f n" and "secs d" and "in_data f n c" and "in_data f n p" and "p \<notin> free f d"
  shows "free f (allocated f (Some p) c d) = free f d - {c}"
  using assms(3-5) by (auto simp: free_def allocated_store [OF assms(1-3)] in_data_def in_chain_def)

lemma free_allocated_None:
  assumes "geom f n" and "secs d" and "in_data f n c"
  shows "free f (allocated f None c d) = free f d - {c}"
  using assms(3) by (auto simp: free_def allocated_store [OF assms(1-3)])

text \<open>
  \<open>d'\<close> arises from \<open>d\<close> by writing to the clusters of the chain \<open>cs\<close> that starts at its head, and
  by appending the clusters \<open>new\<close>, which were free.
\<close>

definition extends :: "Fat32Fs \<Rightarrow> nat \<Rightarrow> (nat \<Rightarrow> sector) \<Rightarrow> u32 list \<Rightarrow> (nat \<Rightarrow> sector) \<Rightarrow> u32 list \<Rightarrow> bool" where
  "extends f n d cs d' new \<longleftrightarrow>
     file_chain f n d' (hd cs) (cs @ new) \<and> set new \<subseteq> free f d \<and> free f d' = free f d - set new \<and>
     (\<forall>x. x \<notin> set (cs @ new) \<longrightarrow> fat f d' x = fat f d x \<and> clus f d' x = clus f d x)"

lemma file_chain_Cons:
  "file_chain f n d c (x # xs) \<longleftrightarrow> c = x \<and> in_data f n x \<and> chain (fat f d) (fat f d x) xs \<and> (\<forall>y \<in> set xs. in_data f n y)"
  by (auto simp: file_chain_def in_data_def in_chain_def not_le [symmetric])

lemma file_chain_suffix: "file_chain f n d c (xs @ r # ys) \<Longrightarrow> file_chain f n d r (r # ys)"
  unfolding file_chain_Cons using chain_suffix [of "fat f d" c xs r ys] by (auto simp: file_chain_def split: if_splits)

lemma file_chain_not_free: "file_chain f n d c cs \<Longrightarrow> x \<in> set cs \<Longrightarrow> x \<notin> free f d"
  using chain_next_nonzero by (auto simp: file_chain_def free_def split: if_splits)

lemma file_chain_distinct: "file_chain f n d c cs \<Longrightarrow> distinct cs"
  using chain_distinct by (auto simp: file_chain_def split: if_splits)

lemma extends_step:
  assumes "file_chain f n d c (c # p # post)" and "extends f n d (p # post) d' new"
  shows "extends f n d (c # p # post) d' new"
proof -
  have c: "c \<notin> set (p # post)" using file_chain_distinct [OF assms(1)] by simp
  moreover have "c \<notin> set new" using file_chain_not_free [OF assms(1)] assms(2) by (auto simp: extends_def)
  ultimately have "fat f d' c = fat f d c" using assms(2) by (simp add: extends_def)
  then show ?thesis using assms by (auto simp: extends_def file_chain_Cons)
qed

lemma extends_alloc:
  assumes "geom f n" and "secs d" and "file_chain f n d c [c]" and "in_data f n r" and "r \<in> free f d"
    and "extends f n (allocated f (Some c) r d) [r] d' new"
  shows "extends f n d [c] d' (r # new)"
proof -
  have c: "in_data f n c" "c \<notin> free f d" using assms(3) file_chain_not_free [OF assms(3)] by (auto simp: file_chain_Cons)
  note st = allocated_store [OF assms(1,2,4), of "Some c", simplified, OF c(1)]
  have fr: "free f (allocated f (Some c) r d) = free f d - {r}" by (rule free_allocated [OF assms(1,2,4) c])
  have cr: "c \<noteq> r" using c(2) assms(5) by auto
  have cn: "c \<notin> set (r # new)" using c(2) assms(6) cr fr by (auto simp: extends_def)
  then have "fat f d' c = r" using assms(6) st cr by (simp add: extends_def)
  moreover have "fat f d' x = fat f d x \<and> clus f d' x = clus f d x" if "x \<notin> set (c # r # new)" for x
    using that assms(6) st by (simp add: extends_def)
  ultimately show ?thesis using assms(4-6) c fr by (auto simp: extends_def file_chain_Cons in_data_chain)
qed

lemma extends_refl: "file_chain f n d c (c # cs) \<Longrightarrow> extends f n d (c # cs) d []"
  by (simp add: extends_def)

lemma card_free_less: "r \<in> free f d \<Longrightarrow> card (free f d) = Suc (card (free f d - {r}))"
  by (rule card.remove) simp_all

section \<open>Writing\<close>

context block_device
begin

lemma next_or_alloc_next:
  assumes "view s n d" and "geom f n" and "file_chain f n d c (c # p # post)"
  shows "okS (next_or_alloc dev f c) s (\<lambda>r s'. r = p \<and> view s' n d)"
proof -
  have c: "unat c < 128 * fatsz f" "fat f d c = p" "in_chain p"
    using assms(3) by (auto simp: file_chain_Cons in_data_def)
  then show ?thesis
    by (auto simp: next_or_alloc_def ok_simps dest: chain_end intro!: okS_mono [OF next_cluster_view [OF assms(1,2) c(1)]])
qed

lemma next_or_alloc_end:
  assumes "view s n d" and "geom f n" and "file_chain f n d c [c]" and "free_in_data f n d" and "free f d \<noteq> {}"
  shows "okS (next_or_alloc dev f c) s (\<lambda>r s'. least_free f d r \<and> view s' n (allocated f (Some c) r d))"
proof -
  have c: "unat c < 128 * fatsz f" "0x0FFFFFF8 \<le> fat f d c"
    using assms(3) by (auto simp: file_chain_Cons in_data_def)
  have a: "okS (alloc_cluster dev f (Some c)) s' (\<lambda>r s'. least_free f d r \<and> view s' n (allocated f (Some c) r d))"
    if "view s' n d" for s' using alloc_cluster_view [OF that assms(2,4,5), of "Some c"] c(1) by simp
  then show ?thesis using c
    by (auto simp: next_or_alloc_def ok_simps intro!: okS_mono [OF next_cluster_view [OF assms(1,2) c(1)]])
qed

lemma alloc_step:
  assumes "view s n d" and "geom f n" and "file_chain f n d c [c]" and "free_in_data f n d" and "least_free f d r"
  shows "file_chain f n (allocated f (Some c) r d) r [r]" and "free_in_data f n (allocated f (Some c) r d)"
    and "card (free f d) = Suc (card (free f (allocated f (Some c) r d)))"
    and "clus f (allocated f (Some c) r d) = (clus f d)(r := replicate (cluster_size_bytes f) 0)"
    and "in_data f n r" and "r \<in> free f d" and "c \<noteq> r"
proof -
  note sec = view_secs [OF assms(1)]
  show r: "in_data f n r" "r \<in> free f d" using assms(4,5) by (auto simp: least_free_def free_in_data_def)
  have c: "in_data f n c" "c \<notin> free f d" using assms(3) file_chain_not_free [OF assms(3)] by (auto simp: file_chain_Cons)
  note st = allocated_store [OF assms(2) sec r(1), of "Some c", simplified, OF c(1)]
  have fr: "free f (allocated f (Some c) r d) = free f d - {r}" by (rule free_allocated [OF assms(2) sec r(1) c])
  show "c \<noteq> r" using c r by auto
  then show "file_chain f n (allocated f (Some c) r d) r [r]" using r st by (simp add: file_chain_Cons)
  show "free_in_data f n (allocated f (Some c) r d)" using assms(4) fr by (auto simp: free_in_data_def)
  show "card (free f d) = Suc (card (free f (allocated f (Some c) r d)))" using card_free_less [OF r(2)] fr by simp
  show "clus f (allocated f (Some c) r d) = (clus f d)(r := replicate (cluster_size_bytes f) 0)" by (rule st(2))
qed

text \<open>The chain \<open>cs\<close> of the disk \<open>d\<close> was extended, and \<open>P\<close> holds of the new disk and clusters.\<close>

definition grown :: "nat \<Rightarrow> Fat32Fs \<Rightarrow> (nat \<Rightarrow> sector) \<Rightarrow> u32 list \<Rightarrow>
    ((nat \<Rightarrow> sector) \<Rightarrow> u32 list \<Rightarrow> bool) \<Rightarrow> 's \<Rightarrow> bool" where
  "grown n f d cs P s' \<longleftrightarrow> (\<exists>d' new. view s' n d' \<and> extends f n d cs d' new \<and> P d' new)"

lemma grown_step:
  assumes "file_chain f n d c (c # p # post)" and "grown n f d (p # post) P s'"
    and "\<And>d' new. P d' new \<Longrightarrow> clus f d' c = clus f d c \<Longrightarrow> Q d' new"
  shows "grown n f d (c # p # post) Q s'"
proof -
  obtain d' new where h: "view s' n d'" "extends f n d (p # post) d' new" "P d' new"
    using assms(2) by (auto simp: grown_def)
  note e = extends_step [OF assms(1) h(2)]
  have "c \<notin> set (p # post @ new)"
    using file_chain_distinct [of f n d' c "c # p # post @ new"] e by (simp add: extends_def)
  then have "clus f d' c = clus f d c" using h(2) by (simp add: extends_def)
  then show ?thesis using e h assms(3) by (auto simp: grown_def)
qed

lemma grown_alloc:
  assumes "view s n d" and "geom f n" and "file_chain f n d c [c]" and "free_in_data f n d" and "least_free f d r"
    and "grown n f (allocated f (Some c) r d) [r] P s'"
    and "\<And>d' new. P d' new \<Longrightarrow> clus f d' c = clus f d c \<Longrightarrow> Q d' (r # new)"
  shows "grown n f d [c] Q s'"
proof -
  note st = alloc_step [OF assms(1-5)]
  obtain d' new where h: "view s' n d'" "extends f n (allocated f (Some c) r d) [r] d' new" "P d' new"
    using assms(6) by (auto simp: grown_def)
  have e: "extends f n d [c] d' (r # new)"
    by (rule extends_alloc [OF assms(2) view_secs [OF assms(1)] assms(3) st(5,6) h(2)])
  have "c \<notin> set (r # new)" using file_chain_distinct [of f n d' c "c # r # new"] e by (simp add: extends_def)
  then have "clus f d' c = clus f d c" using h(2) st(4,7) by (simp add: extends_def)
  then show ?thesis using e h(1,3) assms(7) by (auto simp: grown_def)
qed

text \<open>Skipping to the cluster of the offset.\<close>

lemma skip_clusters_view:
  assumes "view s n d" and "geom f n" and "file_chain f n d c (c # post)" and "free_in_data f n d"
    and "k \<le> length post + card (free f d)"
  shows "okS (skip_clusters dev f k c) s (\<lambda>r. grown n f d (c # post) (\<lambda>d' new.
    r = (c # post @ new) ! k \<and> length new = k - length post \<and>
    file_data f d' (c # post @ new) = file_data f d (c # post) @ replicate (length new * cluster_size_bytes f) 0))"
  using assms
proof (induction k arbitrary: s d c post)
  case 0
  then show ?case by (auto simp: ok_simps grown_def intro!: exI [of _ d] exI [of _ "[]"] extends_refl)
next
  case (Suc k)
  let ?P = "\<lambda>d c post k r d' new. r = (c # post @ new) ! k \<and> length new = k - length post \<and>
    file_data f d' (c # post @ new) = file_data f d (c # post) @ replicate (length new * cluster_size_bytes f) 0"
  show ?case
  proof (cases post)
    case (Cons p post')
    note fc = Suc.prems(3) [unfolded Cons]
    have fc': "file_chain f n d p (p # post')" using fc by (auto simp: file_chain_Cons)
    have "okS (skip_clusters dev f k p) s' (\<lambda>r. grown n f d (c # p # post') (?P d c (p # post') (Suc k) r))"
      if v: "view s' n d" for s'
    proof (rule okS_mono [OF Suc.IH [OF v Suc.prems(2) fc' Suc.prems(4)]])
      fix r s'' assume "grown n f d (p # post') (?P d p post' k r) s''"
      then show "grown n f d (c # p # post') (?P d c (p # post') (Suc k) r) s''"
        by (rule grown_step [OF fc]) simp
    qed (use Suc.prems(5) Cons in simp)
    then show ?thesis unfolding Cons skip_clusters.simps okS_bind
      by (intro okS_mono [OF next_or_alloc_next [OF Suc.prems(1,2) fc]]) blast
  next
    case Nil
    note fc = Suc.prems(3) [unfolded Nil]
    have fne: "free f d \<noteq> {}" using Suc.prems(5) Nil by auto
    have "okS (skip_clusters dev f k r) s' (\<lambda>q. grown n f d [c] (?P d c [] (Suc k) q))"
      if r: "least_free f d r" and v: "view s' n (allocated f (Some c) r d)" for r s'
    proof (rule okS_mono [OF Suc.IH [OF v Suc.prems(2)]])
      note st = alloc_step [OF Suc.prems(1,2) fc Suc.prems(4) r]
      show "file_chain f n (allocated f (Some c) r d) r [r]" "free_in_data f n (allocated f (Some c) r d)" by (fact st)+
      show "k \<le> length [] + card (free f (allocated f (Some c) r d))" using st(3) Suc.prems(5) Nil by simp
      fix q s'' assume "grown n f (allocated f (Some c) r d) [r] (?P (allocated f (Some c) r d) r [] k q) s''"
      then show "grown n f d [c] (?P d c [] (Suc k) q) s''"
        by (rule grown_alloc [OF Suc.prems(1,2) fc Suc.prems(4) r]) (simp add: st(4) replicate_add)
    qed
    then show ?thesis unfolding Nil skip_clusters.simps okS_bind
      by (intro okS_mono [OF next_or_alloc_end [OF Suc.prems(1,2) fc Suc.prems(4) fne]]) blast
  qed
qed

end

lemma free_put_clus: "geom f n \<Longrightarrow> free f (put_clus f c b d) = free f d"
  by (simp add: free_def fat_put_clus)

lemma file_chain_put_clus: "geom f n \<Longrightarrow> file_chain f n (put_clus f c b d) x cs = file_chain f n d x cs"
  by (simp add: file_chain_def fat_put_clus)

lemma extends_put_clus:
  assumes "geom f n" and "2 \<le> c" and "length b = cluster_size_bytes f"
    and "extends f n (put_clus f c b d) (c # post) d' new"
  shows "extends f n d (c # post) d' new"
  using assms(2-4) by (auto simp: extends_def free_put_clus [OF assms(1)] fat_put_clus [OF assms(1)]
      clus_put_clus cluster_size_bytes_def)

text \<open>One turn of the loop: the bytes that go to the current cluster, and the others.\<close>

lemma write_last:
  assumes "length b = cb" and "boff \<le> cb" and "tk = min (length data - written) (cb - boff)"
    and "written + tk = length data"
  shows "put_at boff (subslice written tk data) b @ rest = put_at boff (drop written data) (b @ rest)"
proof -
  have "tk = length data - written" using assms(4) by simp
  then have "subslice written tk data = drop written data" by (simp add: subslice_def)
  then show ?thesis using assms by (simp add: put_at_append)
qed

lemma write_more:
  assumes "length b = cb" and "boff \<le> cb" and "tk = min (length data - written) (cb - boff)"
    and "written + tk < length data"
  shows "put_at boff (subslice written tk data) b @ put_at 0 (drop (written + tk) data) rest =
    put_at boff (drop written data) (b @ rest)"
proof -
  have tk: "tk = cb - boff" using assms by simp
  have "drop written data = subslice written tk data @ drop (written + tk) data"
    unfolding subslice_def by (metis append_take_drop_id drop_drop add.commute)
  moreover have "boff + length (subslice written tk data) = length b" using assms tk by simp
  ultimately show ?thesis by (simp add: put_at_across)
qed

context block_device
begin

abbreviation overwritten where
  "overwritten f d cs off xs d' new \<equiv>
    file_data f d' (cs @ new) = put_at off xs (file_data f d cs @ replicate (length new * cluster_size_bytes f) 0)"

lemma grown_put_clus:
  assumes "geom f n" and "in_data f n c" and "length b = cluster_size_bytes f"
    and "grown n f (put_clus f c b d) (c # post) P s'"
  shows "grown n f d (c # post) P s'"
  using assms(4) extends_put_clus [OF assms(1) in_data_2 [OF assms(2)] assms(3)] unfolding grown_def by blast

lemma write_loop_view:
  assumes "view s n d" and "geom f n" and "file_chain f n d c (c # post)" and "free_in_data f n d"
    and "boff < cluster_size_bytes f" and "written \<le> length data" and "length data - written \<le> fuel"
    and "boff + (length data - written) \<le> (Suc (length post) + card (free f d)) * cluster_size_bytes f"
  shows "okS (write_loop dev f fuel c boff written data) s (\<lambda>r s'. r = length data \<and>
    grown n f d (c # post) (overwritten f d (c # post) boff (drop written data)) s')"
  using assms
proof (induction fuel arbitrary: s d c post boff written)
  case 0
  then show ?case
    by (subst write_loop.simps) (auto simp: ok_simps grown_def intro!: exI [of _ d] exI [of _ "[]"] extends_refl)
next
  case (Suc fuel)
  let ?cb = "cluster_size_bytes f"
  show ?case
  proof (cases "written < length data")
    case False
    then show ?thesis using Suc.prems
      by (subst write_loop.simps) (auto simp: ok_simps grown_def intro!: exI [of _ d] exI [of _ "[]"] extends_refl)
  next
    case True
    define tk where "tk = min (length data - written) (?cb - boff)"
    define b where "b = put_at boff (subslice written tk data) (clus f d c)"
    define d1 where "d1 = put_clus f c b d"
    have c: "in_data f n c" using Suc.prems(3) by (simp add: file_chain_Cons)
    have lc: "length (clus f d c) = ?cb" by (rule length_clus [OF view_secs [OF Suc.prems(1)] in_data_2 [OF c]])
    have tk: "0 < tk" "boff + tk \<le> ?cb" "written + tk \<le> length data" using True Suc.prems(5) by (auto simp: tk_def)
    have ls: "length (subslice written tk data) = tk" using tk(3) by simp
    have lb: "length b = ?cb" using tk(2) lc ls by (simp add: b_def)
    have cp: "copy_into boff (subslice written tk data) (clus f d c) = Inr b"
      using tk(2) ls lc by (simp add: copy_into_def b_def)
    have d1: "fat f d1 = fat f d" "free f d1 = free f d" "clus f d1 = (clus f d)(c := b)"
      using lb in_data_2 [OF c] by (simp_all add: d1_def fat_put_clus [OF Suc.prems(2)] free_put_clus [OF Suc.prems(2)]
          clus_put_clus cluster_size_bytes_def)
    have fc1: "file_chain f n d1 x xs = file_chain f n d x xs" for x xs
      by (simp add: d1_def file_chain_put_clus [OF Suc.prems(2)])
    have fd1: "free_in_data f n d1" using Suc.prems(4) d1(2) by (simp add: free_in_data_def)
    have cpost: "c \<notin> set post" using file_chain_distinct [OF Suc.prems(3)] by simp
    have fdp: "file_data f d1 post = file_data f d post" using cpost d1(3) by (intro file_data_cong) auto
    let ?W = "write_loop dev f fuel"
    let ?goal = "\<lambda>r s'. r = length data \<and> grown n f d (c # post) (overwritten f d (c # post) boff (drop written data)) s'"
    have step: "okS (if written + tk < length data then next_or_alloc dev f c else retS c) s'
        (\<lambda>c' s''. okS (?W c' 0 (written + tk) data) s'' ?goal)" if v: "view s' n d1" for s'
    proof (cases "written + tk < length data")
      case False
      then have e: "written + tk = length data" using tk(3) by simp
      have "overwritten f d (c # post) boff (drop written data) d1 []"
        using write_last [OF lc _ tk_def e, of "file_data f d post"] Suc.prems(5) fdp d1(3) by (simp add: b_def)
      moreover have "extends f n d (c # post) d1 []"
        using extends_put_clus [OF Suc.prems(2) in_data_2 [OF c] lb, of d post d1 "[]"] Suc.prems(3) fc1
        by (simp add: d1_def extends_refl)
      ultimately have "grown n f d (c # post) (overwritten f d (c # post) boff (drop written data)) s'"
        using v unfolding grown_def by blast
      then show ?thesis using e False by (subst write_loop.simps) (simp add: ok_simps)
    next
      case more: True
      have bt: "boff + tk = ?cb" using more by (simp add: tk_def) (use Suc.prems(5) in linarith)
      have rest: "length data - (written + tk) \<le> (length post + card (free f d)) * ?cb"
        using Suc.prems(8) bt by (simp add: algebra_simps)
      have fin: "overwritten f d (c # post) boff (drop written data) d' new"
        if "overwritten f d1 post 0 (drop (written + tk) data) d' new" "clus f d' c = clus f d1 c" for d' new
        using write_more [OF lc _ tk_def more, of "file_data f d post @ replicate (length new * ?cb) 0"] that Suc.prems(5) fdp d1(3)
        by (simp add: b_def)
      have fuel: "length data - (written + tk) \<le> fuel" "0 < ?cb" using Suc.prems(5,7) tk(1) by auto
      show ?thesis
      proof (cases post)
        case (Cons p post')
        note fc = Suc.prems(3) [folded fc1, unfolded Cons]
        have fc': "file_chain f n d1 p (p # post')" using fc by (auto simp: file_chain_Cons)
        have "okS (?W p 0 (written + tk) data) s'' ?goal" if v': "view s'' n d1" for s''
        proof (rule okS_mono [OF Suc.IH [OF v' Suc.prems(2) fc' fd1 fuel(2) tk(3) fuel(1)]])
          show "0 + (length data - (written + tk)) \<le> (Suc (length post') + card (free f d1)) * ?cb"
            using rest Cons d1(2) by simp
          fix r q assume g: "r = length data \<and>
            grown n f d1 (p # post') (overwritten f d1 (p # post') 0 (drop (written + tk) data)) q"
          have "grown n f d1 (c # p # post') (overwritten f d (c # post) boff (drop written data)) q"
            by (rule grown_step [OF fc g [THEN conjunct2]]) (use fin Cons in simp)
          then show "?goal r q" using g grown_put_clus [OF Suc.prems(2) c lb] Cons by (auto simp: d1_def)
        qed
        then show ?thesis using more fc
          by (auto intro!: okS_mono [OF next_or_alloc_next [OF v Suc.prems(2) fc]])
      next
        case Nil
        note fc = Suc.prems(3) [folded fc1, unfolded Nil]
        have fne: "free f d1 \<noteq> {}" using rest more Nil d1(2) by auto
        have "okS (?W r 0 (written + tk) data) s'' ?goal"
          if r: "least_free f d1 r" and v': "view s'' n (allocated f (Some c) r d1)" for r s''
        proof (rule okS_mono [OF Suc.IH [OF v' Suc.prems(2)]])
          note st = alloc_step [OF v Suc.prems(2) fc fd1 r]
          show "file_chain f n (allocated f (Some c) r d1) r [r]" "free_in_data f n (allocated f (Some c) r d1)" by (fact st)+
          show "0 < ?cb" "written + tk \<le> length data" "length data - (written + tk) \<le> fuel" by (fact fuel tk)+
          show "0 + (length data - (written + tk)) \<le> (Suc (length []) + card (free f (allocated f (Some c) r d1))) * ?cb"
            using rest Nil d1(2) st(3) by simp
          fix q t assume g: "q = length data \<and> grown n f (allocated f (Some c) r d1) [r]
            (overwritten f (allocated f (Some c) r d1) [r] 0 (drop (written + tk) data)) t"
          have "grown n f d1 [c] (overwritten f d (c # post) boff (drop written data)) t"
          proof (rule grown_alloc [OF v Suc.prems(2) fc fd1 r g [THEN conjunct2]])
            fix d' new assume "overwritten f (allocated f (Some c) r d1) [r] 0 (drop (written + tk) data) d' new"
              and "clus f d' c = clus f d1 c"
            then show "overwritten f d (c # post) boff (drop written data) d' (r # new)"
              using fin [of d' "r # new"] Nil st(4) by (simp add: replicate_add)
          qed
          then show "?goal q t" using g grown_put_clus [OF Suc.prems(2) c lb] Nil by (auto simp: d1_def)
        qed
        then show ?thesis using more
          by (auto intro!: okS_mono [OF next_or_alloc_end [OF v Suc.prems(2) fc fd1 fne]])
      qed
    qed
    have w: "okS (write_cluster dev f c b) s' (\<lambda>_ s'. view s' n d1)" if "view s' n d" for s'
      unfolding d1_def by (rule write_cluster_view [OF that Suc.prems(2) c lb])
    show ?thesis
      using True step
      by (subst write_loop.simps)
        (auto simp: Let_def okS_bind okS_map_err tk_def [symmetric] cp okS_lift simp del: One_nat_def
          intro!: okS_mono [OF read_cluster_view [OF Suc.prems(1,2) c]] okS_mono [OF w])
  qed
qed

end

section \<open>Directory entries of a file\<close>

lemma put_at_in_slice:
  assumes "k + length xs \<le> m" and "off + m \<le> length buf"
  shows "put_at (off + k) xs buf = put_at off (put_at k xs (subslice off m buf)) buf"
  using assms by (intro nth_equalityI) (auto simp: nth_put_at)

lemma put_at_twice: "length xs = length ys \<Longrightarrow> off + length xs \<le> length buf \<Longrightarrow> put_at off xs (put_at off ys buf) = put_at off xs buf"
  by (intro nth_equalityI) (auto simp: nth_put_at)

definition entry_of :: "Fat32Fs \<Rightarrow> (nat \<Rightarrow> sector) \<Rightarrow> Fat32Node \<Rightarrow> u8 list" where
  "entry_of f d nd = subslice (dir_entry_offset nd) 32 (clus f d (parent_cluster nd))"

definition describes :: "u8 list \<Rightarrow> Fat32Node \<Rightarrow> bool" where
  "describes e nd \<longleftrightarrow> first_cluster_of e = first_cluster nd \<and> entry_size e = file_size nd"

text \<open>The 32 bytes of an entry after its first-cluster fields, or its size, were set.\<close>

definition with_first :: "u32 \<Rightarrow> u8 list \<Rightarrow> u8 list" where
  "with_first c e = put_at 0x1A [ucast (c AND 0xFF), ucast (drop_bit 8 c AND 0xFF)]
     (put_at 0x14 [ucast (drop_bit 16 c AND 0xFF), ucast (drop_bit 24 c AND 0xFF)] e)"

definition with_size :: "u32 \<Rightarrow> u8 list \<Rightarrow> u8 list" where
  "with_size sz e = put_at 0x1C (le_bytes 4 sz) e"

lemma length_with [simp]: "length e = 32 \<Longrightarrow> length (with_first c e) = 32" "length e = 32 \<Longrightarrow> length (with_size sz e) = 32"
  by (simp_all add: with_first_def with_size_def)

lemma entry_with_first:
  assumes "length e = 32"
  shows "first_cluster_of (with_first c e) = c" and "entry_size (with_first c e) = entry_size e"
    and "take 12 (with_first c e) = take 12 e"
proof -
  have nth: "with_first c e ! 0x14 = ucast (drop_bit 16 c)" "with_first c e ! 0x15 = ucast (drop_bit 24 c)"
    "with_first c e ! 0x1A = ucast c" "with_first c e ! 0x1B = ucast (drop_bit 8 c)"
    using assms by (simp_all add: with_first_def nth_put_at mask_bytes ucast_take_bit)
  have "push_bit 16 (ucast (u16_le (ucast (drop_bit 16 c)) (ucast (drop_bit 24 c))) :: u32) OR
      ucast (u16_le (ucast c) (ucast (drop_bit 8 c))) = c"
  proof (rule bit_word_eqI)
    fix i :: nat assume i: "i < LENGTH(32)"
    consider "i < 8" | "8 \<le> i" "i < 16" | "16 \<le> i" "i < 24" | "24 \<le> i" by linarith
    then show "bit (push_bit 16 (ucast (u16_le (ucast (drop_bit 16 c)) (ucast (drop_bit 24 c))) :: u32) OR
      ucast (u16_le (ucast c) (ucast (drop_bit 8 c)))) i = bit c i"
      using i by cases (simp_all add: bit_simps less_diff_conv2 le_diff_conv2)
  qed
  then show "first_cluster_of (with_first c e) = c" by (simp add: first_cluster_of_def nth)
  show "entry_size (with_first c e) = entry_size e"
    using assms by (simp add: entry_size_def u32_at_def with_first_def nth_put_at)
  show "take 12 (with_first c e) = take 12 e"
    using assms by (intro nth_equalityI) (auto simp: with_first_def nth_put_at)
qed

lemma entry_with_size:
  assumes "length e = 32"
  shows "entry_size (with_size sz e) = sz" and "first_cluster_of (with_size sz e) = first_cluster_of e"
    and "take 12 (with_size sz e) = take 12 e"
proof -
  show "entry_size (with_size sz e) = sz" using assms by (simp add: entry_size_def with_size_def u32_at_put)
  show "first_cluster_of (with_size sz e) = first_cluster_of e"
    using assms by (simp add: first_cluster_of_def with_size_def nth_put_at)
  show "take 12 (with_size sz e) = take 12 e"
    using assms by (intro nth_equalityI) (auto simp: with_size_def nth_put_at)
qed

text \<open>The directory entry lies in a cluster of the volume that is neither free nor part of the file.\<close>

definition entry_ok :: "Fat32Fs \<Rightarrow> nat \<Rightarrow> (nat \<Rightarrow> sector) \<Rightarrow> Fat32Node \<Rightarrow> u32 list \<Rightarrow> bool" where
  "entry_ok f n d nd cs \<longleftrightarrow> parent_cluster nd = 0 \<or>
     in_data f n (parent_cluster nd) \<and> parent_cluster nd \<notin> set cs \<and> parent_cluster nd \<notin> free f d \<and>
     dir_entry_offset nd + 32 \<le> cluster_size_bytes f"

definition set_entry_of :: "Fat32Fs \<Rightarrow> Fat32Node \<Rightarrow> (u8 list \<Rightarrow> u8 list) \<Rightarrow> (nat \<Rightarrow> sector) \<Rightarrow> nat \<Rightarrow> sector" where
  "set_entry_of f nd g d = (if parent_cluster nd = 0 then d
     else put_clus f (parent_cluster nd)
       (put_at (dir_entry_offset nd) (g (entry_of f d nd)) (clus f d (parent_cluster nd))) d)"

lemma length_entry_of:
  assumes "secs d" and "entry_ok f n d nd cs" and "parent_cluster nd \<noteq> 0"
  shows "length (entry_of f d nd) = 32"
  using assms length_clus [OF assms(1), of "parent_cluster nd" f]
  by (auto simp: entry_of_def entry_ok_def in_data_def in_chain_def)

lemma set_entry_store:
  assumes "geom f n" and "secs d" and "entry_ok f n d nd cs" and "\<forall>e. length e = 32 \<longrightarrow> length (g e) = 32"
  shows "fat f (set_entry_of f nd g d) = fat f d" and "free f (set_entry_of f nd g d) = free f d"
    and "x \<noteq> parent_cluster nd \<Longrightarrow> clus f (set_entry_of f nd g d) x = clus f d x"
    and "parent_cluster nd \<noteq> 0 \<Longrightarrow> clus f (set_entry_of f nd g d) (parent_cluster nd) =
      put_at (dir_entry_offset nd) (g (entry_of f d nd)) (clus f d (parent_cluster nd))"
    and "secs (set_entry_of f nd g d)"
proof -
  show "fat f (set_entry_of f nd g d) = fat f d" by (simp add: set_entry_of_def fat_put_clus [OF assms(1)])
  show "free f (set_entry_of f nd g d) = free f d" by (simp add: set_entry_of_def free_put_clus [OF assms(1)])
  have l: "length (put_at (dir_entry_offset nd) (g (entry_of f d nd)) (clus f d (parent_cluster nd))) = spc f * 512"
    if "parent_cluster nd \<noteq> 0"
  proof -
    have "length (g (entry_of f d nd)) = 32" using assms(4) length_entry_of [OF assms(2,3) that] by blast
    moreover have "length (clus f d (parent_cluster nd)) = cluster_size_bytes f" "dir_entry_offset nd + 32 \<le> cluster_size_bytes f"
      using assms(3) that length_clus [OF assms(2)] by (auto simp: entry_ok_def in_data_2)
    ultimately show ?thesis by (simp add: cluster_size_bytes_def)
  qed
  have p: "2 \<le> parent_cluster nd" if "parent_cluster nd \<noteq> 0" using assms(3) that by (auto simp: entry_ok_def in_data_2)
  show "clus f (set_entry_of f nd g d) x = clus f d x" if "x \<noteq> parent_cluster nd"
    using that l p by (cases "parent_cluster nd = 0") (simp_all add: set_entry_of_def clus_put_clus)
  show "clus f (set_entry_of f nd g d) (parent_cluster nd) =
      put_at (dir_entry_offset nd) (g (entry_of f d nd)) (clus f d (parent_cluster nd))" if "parent_cluster nd \<noteq> 0"
    using that l p by (simp add: set_entry_of_def clus_put_clus)
  show "secs (set_entry_of f nd g d)" using assms(2) l by (auto simp: set_entry_of_def secs_put)
qed

context block_device
begin

lemma rewrite_entry_view:
  assumes "view s n d" and "geom (node_fs nd) n" and "entry_ok (node_fs nd) n d nd cs" and "parent_cluster nd \<noteq> 0"
    and "\<And>e. length e = 32 \<Longrightarrow> length (g e) = 32"
    and "\<And>buf. length buf = cluster_size_bytes (node_fs nd) \<Longrightarrow>
      k buf = Inr (put_at (dir_entry_offset nd) (g (subslice (dir_entry_offset nd) 32 buf)) buf)"
  shows "okS (bindS (read_cluster dev (node_fs nd) (parent_cluster nd) (replicate (cluster_size_bytes (node_fs nd)) 0)) (\<lambda>buf.
      bindS (liftS (k buf)) (\<lambda>buf'. write_cluster dev (node_fs nd) (parent_cluster nd) buf'))) s
    (\<lambda>_ s'. view s' n (set_entry_of (node_fs nd) nd g d))"
proof -
  let ?f = "node_fs nd" and ?p = "parent_cluster nd"
  have p: "in_data ?f n ?p" "dir_entry_offset nd + 32 \<le> cluster_size_bytes ?f" using assms(3,4) by (auto simp: entry_ok_def)
  have l: "length (clus ?f d ?p) = cluster_size_bytes ?f" by (rule length_clus [OF view_secs [OF assms(1)] in_data_2 [OF p(1)]])
  let ?b = "put_at (dir_entry_offset nd) (g (entry_of ?f d nd)) (clus ?f d ?p)"
  have "length (entry_of ?f d nd) = 32" by (rule length_entry_of [OF view_secs [OF assms(1)] assms(3,4)])
  then have lb: "length ?b = cluster_size_bytes ?f" using assms(5) l p(2) by simp
  have kb: "k (clus ?f d ?p) = Inr ?b" using assms(6) [OF l] by (simp add: entry_of_def)
  have w: "okS (write_cluster dev ?f ?p ?b) s' (\<lambda>_ s'. view s' n (set_entry_of ?f nd g d))" if "view s' n d" for s'
    using write_cluster_view [OF that assms(2) p(1) lb] assms(4) by (simp add: set_entry_of_def)
  show ?thesis
    unfolding okS_bind
    by (rule okS_mono [OF read_cluster_view [OF assms(1,2) p(1)]]) (auto simp: kb ok_simps w)
qed

lemma update_size_view:
  assumes "view s n d" and "geom (node_fs nd) n" and "entry_ok (node_fs nd) n d nd cs"
  shows "okS (update_size_on_disk dev nd sz) s (\<lambda>_ s'. view s' n (set_entry_of (node_fs nd) nd (with_size sz) d))"
proof (cases "parent_cluster nd = 0")
  case True
  then show ?thesis using assms(1) by (simp add: update_size_on_disk_def set_entry_of_def ok_simps)
next
  case False
  let ?o = "dir_entry_offset nd"
  have "copy_into (?o + 0x1C) (le_bytes 4 sz) buf = Inr (put_at ?o (with_size sz (subslice ?o 32 buf)) buf)"
    if "length buf = cluster_size_bytes (node_fs nd)" for buf
    using that assms(3) False put_at_in_slice [of "0x1C" "le_bytes 4 sz" 32 ?o buf]
    by (auto simp: copy_into_def with_size_def entry_ok_def)
  then show ?thesis
    using rewrite_entry_view [OF assms False, where g = "with_size sz" and k = "copy_into (?o + 0x1C) (le_bytes 4 sz)"] False
    by (simp add: update_size_on_disk_def)
qed

lemma enter_first_view:
  assumes "view s n d" and "geom (node_fs nd) n" and "entry_ok (node_fs nd) n d nd cs"
  shows "okS (enter_first_cluster dev nd c) s (\<lambda>_ s'. view s' n (set_entry_of (node_fs nd) nd (with_first c) d))"
proof (cases "parent_cluster nd = 0")
  case True
  then show ?thesis using assms(1) by (simp add: enter_first_cluster_def set_entry_of_def ok_simps)
next
  case False
  let ?o = "dir_entry_offset nd"
  let ?hi = "[ucast (drop_bit 16 c AND 0xFF), ucast (drop_bit 24 c AND 0xFF)] :: u8 list"
  let ?lo = "[ucast (c AND 0xFF), ucast (drop_bit 8 c AND 0xFF)] :: u8 list"
  let ?k = "\<lambda>buf. bindR (copy_into (?o + 0x14) ?hi buf) (copy_into (?o + 0x1A) ?lo)"
  have k: "?k buf = Inr (put_at ?o (with_first c (subslice ?o 32 buf)) buf)"
    if l: "length buf = cluster_size_bytes (node_fs nd)" for buf
  proof -
    have b: "?o + 32 \<le> length buf" using l assms(3) False by (simp add: entry_ok_def)
    have 1: "put_at (?o + 0x14) ?hi buf = put_at ?o (put_at 0x14 ?hi (subslice ?o 32 buf)) buf"
      using b by (intro put_at_in_slice) simp_all
    have 2: "put_at (?o + 0x1A) ?lo (put_at (?o + 0x14) ?hi buf) =
        put_at ?o (put_at 0x1A ?lo (subslice ?o 32 (put_at (?o + 0x14) ?hi buf))) (put_at (?o + 0x14) ?hi buf)"
      using b by (intro put_at_in_slice) simp_all
    have "put_at (?o + 0x1A) ?lo (put_at (?o + 0x14) ?hi buf) = put_at ?o (with_first c (subslice ?o 32 buf)) buf"
      by (subst 2) (use b in \<open>simp add: 1 with_first_def put_at_twice\<close>)
    then show ?thesis using b by (simp add: copy_into_def)
  qed
  have "okS (enter_first_cluster dev nd c) s P = okS (bindS (read_cluster dev (node_fs nd) (parent_cluster nd)
      (replicate (cluster_size_bytes (node_fs nd)) 0)) (\<lambda>buf. bindS (liftS (?k buf)) (\<lambda>buf'.
        write_cluster dev (node_fs nd) (parent_cluster nd) buf'))) s P" for P
    using False by (simp only: enter_first_cluster_def if_False Let_def okS_bind okS_map_err liftS_bindR)
  then show ?thesis using rewrite_entry_view [OF assms False, where g = "with_first c" and k = ?k] k by simp
qed

end

section \<open>The whole write\<close>

lemma okS_on_disk [ok_simps]: "okS (on_disk m) (s, nd) P \<longleftrightarrow> okS m s (\<lambda>x s'. P x (s', nd))"
  by (auto simp: okS_def on_disk_def split: prod.splits)

lemma okS_get_node [ok_simps]: "okS get_node (s, nd) P \<longleftrightarrow> P nd (s, nd)"
  by (simp add: okS_def get_node_def)

lemma okS_set_node [ok_simps]: "okS (set_node g) (s, nd) P \<longleftrightarrow> P () (s, g nd)"
  by (simp add: okS_def set_node_def)

lemma extends_suffix:
  assumes "extends f n d cs d2 new" and "cs \<noteq> []" and "cs @ new = pre @ r # suf" and "extends f n d2 (r # suf) d3 new2"
  shows "extends f n d cs d3 (new @ new2)" and "file_data f d3 pre = file_data f d2 pre"
proof -
  have fc: "file_chain f n d2 (hd cs) (pre @ r # suf)" using assms(1,3) by (simp add: extends_def)
  have two: "\<not> hd cs < 2" using fc in_data_2 by (cases pre) (auto simp: file_chain_def split: if_splits)
  have dis: "x \<notin> set (r # suf)" "x \<notin> set new2" if "x \<in> set pre" for x
    using that file_chain_distinct [OF fc] file_chain_not_free [OF fc] assms(4) by (auto simp: extends_def)
  then have same: "fat f d3 x = fat f d2 x" "clus f d3 x = clus f d2 x" if "x \<in> set pre" for x
    using that assms(4) by (auto simp: extends_def)
  show "file_data f d3 pre = file_data f d2 pre" using same by (intro file_data_cong) simp
  have "in_data f n r" using fc two by (simp add: file_chain_def)
  then have tail: "chain (fat f d3) r ((r # suf) @ new2) \<and> (\<forall>x \<in> set ((r # suf) @ new2). in_data f n x)"
    using assms(4) in_data_2 [of f n r] by (simp add: extends_def file_chain_Cons in_data_chain)
  have "chain (fat f d3) (hd cs) (pre @ (r # suf) @ new2)"
    by (rule chain_append_path [of "fat f d2"]) (use fc two same tail in \<open>auto simp: file_chain_def\<close>)
  moreover have "\<forall>x \<in> set (pre @ (r # suf) @ new2). in_data f n x"
    using fc two tail by (auto simp: file_chain_def)
  moreover have eq: "cs @ new @ new2 = pre @ (r # suf) @ new2" using assms(3) by (metis append.assoc)
  ultimately have "file_chain f n d3 (hd cs) (cs @ new @ new2)" unfolding eq file_chain_def using two by simp
  moreover have "fat f d3 x = fat f d x \<and> clus f d3 x = clus f d x" if "x \<notin> set (cs @ new @ new2)" for x
  proof -
    have "x \<notin> set (cs @ new)" "x \<notin> set ((r # suf) @ new2)" using that unfolding eq assms(3) by auto
    then show ?thesis using assms(1,4) by (simp add: extends_def)
  qed
  ultimately show "extends f n d cs d3 (new @ new2)" using assms(1,4) unfolding extends_def by auto
qed

text \<open>
  The effect of a write: the chain grows by free clusters, the bytes land at the offset, the
  node and its directory entry follow, and nothing else changes.
\<close>

definition written_to :: "Fat32Fs \<Rightarrow> nat \<Rightarrow> (nat \<Rightarrow> sector) \<Rightarrow> Fat32Node \<Rightarrow> u32 list \<Rightarrow> nat \<Rightarrow> u8 list \<Rightarrow>
    (nat \<Rightarrow> sector) \<Rightarrow> Fat32Node \<Rightarrow> u32 list \<Rightarrow> bool" where
  "written_to f n d nd cs off data d' nd' new \<longleftrightarrow>
     nd' = nd\<lparr>first_cluster := hd (cs @ new), file_size := of_nat (max (off + length data) (unat (file_size nd)))\<rparr> \<and>
     file_chain f n d' (first_cluster nd') (cs @ new) \<and> set new \<subseteq> free f d \<and> free f d' = free f d - set new \<and>
     file_data f d' (cs @ new) =
       put_at off data (file_data f d cs @ replicate (length new * cluster_size_bytes f) 0) \<and>
     (\<forall>x. x \<notin> set (cs @ new) \<longrightarrow> fat f d' x = fat f d x \<and>
        (x \<noteq> parent_cluster nd \<longrightarrow> clus f d' x = clus f d x)) \<and>
     (parent_cluster nd \<noteq> 0 \<longrightarrow> (\<exists>e. length e = 32 \<and>
        clus f d' (parent_cluster nd) = put_at (dir_entry_offset nd) e (clus f d (parent_cluster nd)) \<and>
        take 12 e = take 12 (entry_of f d nd) \<and> (describes (entry_of f d nd) nd \<longrightarrow> describes e nd')))"

lemma list_split_at: "k < length xs \<Longrightarrow> xs = take k xs @ xs ! k # drop (Suc k) xs"
  by (rule id_take_nth_drop)

lemma put_at_shift: "put_at (length a + off) xs (a @ b) = a @ put_at off xs b"
  by (simp add: put_at_def)

context block_device
begin

lemma skip_and_write_view:
  assumes "view s n d" and "geom f n" and "file_chain f n d c (c # post)" and "free_in_data f n d" and "data \<noteq> []"
    and "off + length data \<le> (Suc (length post) + card (free f d)) * cluster_size_bytes f"
  shows "okS (bindS (skip_clusters dev f (off div cluster_size_bytes f) c) (\<lambda>r.
      write_loop dev f (length data) r (off mod cluster_size_bytes f) 0 data)) s
    (\<lambda>r s'. r = length data \<and> grown n f d (c # post) (overwritten f d (c # post) off data) s')"
proof -
  let ?cb = "cluster_size_bytes f"
  let ?k = "off div ?cb" and ?b = "off mod ?cb"
  have cb: "0 < ?cb" by (rule cluster_size_pos [OF assms(2)])
  have "off < (Suc (length post) + card (free f d)) * ?cb" using assms(5,6) by (cases data) auto
  then have k: "?k \<le> length post + card (free f d)" using cb by (simp add: div_less_iff_less_mult less_Suc_eq_le [symmetric])
  have "okS (write_loop dev f (length data) r ?b 0 data) s'
      (\<lambda>r s'. r = length data \<and> grown n f d (c # post) (overwritten f d (c # post) off data) s')"
    if g: "grown n f d (c # post) (\<lambda>d' new. r = (c # post @ new) ! ?k \<and> length new = ?k - length post \<and>
      file_data f d' (c # post @ new) = file_data f d (c # post) @ replicate (length new * ?cb) 0) s'" for r s'
  proof -
    obtain d2 new where h: "view s' n d2" "extends f n d (c # post) d2 new" "r = (c # post @ new) ! ?k"
      "length new = ?k - length post"
      "file_data f d2 (c # post @ new) = file_data f d (c # post) @ replicate (length new * ?cb) 0"
      using g unfolding grown_def by blast
    let ?cs = "c # post @ new"
    have kl: "?k < length ?cs" using h(4) by simp
    let ?pre = "take ?k ?cs" and ?suf = "drop (Suc ?k) ?cs"
    have sp: "?cs = ?pre @ r # ?suf" using list_split_at [OF kl] h(3) by simp
    have fc2: "file_chain f n d2 c (?pre @ r # ?suf)" using h(2) sp by (simp add: extends_def)
    have two: "\<not> c < 2" using assms(3) in_data_2 [of f n c] by (simp add: file_chain_Cons)
    have fcr: "file_chain f n d2 r (r # ?suf)"
      by (rule file_chain_suffix [OF fc2])
    have fr2: "free f d2 = free f d - set new" "set new \<subseteq> free f d" using h(2) by (auto simp: extends_def)
    have fd2: "free_in_data f n d2" using assms(4) fr2 by (auto simp: free_in_data_def)
    have "distinct new" using file_chain_distinct [OF fc2 [folded sp]] by simp
    then have card2: "card (free f d2) + length new = card (free f d)"
      unfolding fr2(1) using fr2(2) by (simp add: card_Diff_subset distinct_card card_mono flip: distinct_card)
    have ls: "length ?suf = length ?cs - Suc ?k" by (rule length_drop)
    have "Suc (length ?suf) + card (free f d2) + ?k = Suc (length post) + card (free f d)"
      unfolding ls using card2 kl by simp
    note cnt = this [symmetric]
    have "?b + length data + ?k * ?cb = off + length data" by (simp add: add.commute add.left_commute)
    also have "\<dots> \<le> (Suc (length ?suf) + card (free f d2) + ?k) * ?cb"
      using assms(6) unfolding cnt .
    finally have room: "?b + (length data - 0) \<le> (Suc (length ?suf) + card (free f d2)) * ?cb"
      by (simp only: add_mult_distrib add_le_cancel_right diff_zero)
    have "grown n f d (c # post) (overwritten f d (c # post) off data) t"
      if g3: "grown n f d2 (r # ?suf) (overwritten f d2 (r # ?suf) ?b data) t" for t
    proof -
      obtain d3 new2 where q: "view t n d3" "extends f n d2 (r # ?suf) d3 new2" "overwritten f d2 (r # ?suf) ?b data d3 new2"
        using g3 unfolding grown_def by blast
      have sp': "(c # post) @ new = ?pre @ r # ?suf" using sp by simp
      note ex = extends_suffix [OF h(2) list.distinct(2) sp' q(2)]
      have "length (file_data f d2 ?pre) = ?k * ?cb"
        using length_file_data [OF view_secs [OF h(1)], of ?pre f] kl fc2 two in_data_2 by (fastforce simp: file_chain_def)
      then have o: "off = length (file_data f d2 ?pre) + ?b" by simp
      have "file_data f d3 ((c # post) @ new @ new2) = file_data f d3 ?pre @ file_data f d3 ((r # ?suf) @ new2)"
        using sp' by (metis append.assoc file_data_simps(3))
      also have "\<dots> = file_data f d2 ?pre @ put_at ?b data (file_data f d2 (r # ?suf) @ replicate (length new2 * ?cb) 0)"
        using ex(2) q(3) by simp
      also have "\<dots> = put_at off data (file_data f d2 (?pre @ r # ?suf) @ replicate (length new2 * ?cb) 0)"
        by (subst (3) o) (simp only: file_data_simps(3) append.assoc put_at_shift)
      also have "\<dots> = put_at off data (file_data f d (c # post) @ replicate (length (new @ new2) * ?cb) 0)"
        using h(5) sp by (simp add: replicate_add distrib_right)
      finally show ?thesis using ex(1) q(1) unfolding grown_def by blast
    qed
    then show ?thesis
      using okS_mono [OF write_loop_view [OF h(1) assms(2) fcr fd2 _ _ _ room, of "length data"]] cb by auto
  qed
  then show ?thesis
    unfolding okS_bind by (rule okS_mono [OF skip_clusters_view [OF assms(1-4) k]])
qed

end

text \<open>The disk once the file has a first cluster.\<close>

definition started :: "Fat32Fs \<Rightarrow> (nat \<Rightarrow> sector) \<Rightarrow> Fat32Node \<Rightarrow> u32 list \<Rightarrow> (nat \<Rightarrow> sector) \<Rightarrow> u32 list \<Rightarrow> bool" where
  "started f d nd cs d1 cs1 \<longleftrightarrow> cs \<noteq> [] \<and> cs1 = cs \<and> d1 = d \<or>
     cs = [] \<and> (\<exists>c. c \<in> free f d \<and> cs1 = [c] \<and> d1 = set_entry_of f nd (with_first c) (allocated f None c d))"

text \<open>What the first cluster changes: the chain, the free clusters and the directory entry.\<close>

lemma started_effect:
  assumes "geom f n" and "secs d" and "file_chain f n d (first_cluster nd) cs" and "free_in_data f n d"
    and "entry_ok f n d nd cs" and "started f d nd cs d1 cs1"
  obtains new0 where "cs1 = cs @ new0" and "file_chain f n d1 (hd cs1) cs1" and "cs1 \<noteq> []"
    and "set new0 \<subseteq> free f d" and "free f d1 = free f d - set new0" and "distinct new0"
    and "file_data f d1 cs1 = file_data f d cs @ replicate (length new0 * cluster_size_bytes f) 0"
    and "\<And>x. x \<notin> set cs1 \<Longrightarrow> fat f d1 x = fat f d x \<and> (x \<noteq> parent_cluster nd \<longrightarrow> clus f d1 x = clus f d x)"
    and "entry_ok f n d1 nd cs1" and "secs d1"
    and "parent_cluster nd \<noteq> 0 \<Longrightarrow> \<exists>e. length e = 32 \<and>
      clus f d1 (parent_cluster nd) = put_at (dir_entry_offset nd) e (clus f d (parent_cluster nd)) \<and>
      take 12 e = take 12 (entry_of f d nd) \<and> entry_size e = entry_size (entry_of f d nd) \<and>
      (first_cluster_of (entry_of f d nd) = first_cluster nd \<longrightarrow> first_cluster_of e = hd cs1)"
proof (cases "cs = []")
  case False
  then have s: "cs1 = cs" "d1 = d" using assms(6) by (auto simp: started_def)
  have hd: "first_cluster nd = hd cs" using assms(3) False by (cases cs) (auto simp: file_chain_def split: if_splits)
  have id: "put_at (dir_entry_offset nd) (entry_of f d nd) (clus f d (parent_cluster nd)) = clus f d (parent_cluster nd)"
    if "parent_cluster nd \<noteq> 0"
    using that assms(5) length_clus [OF assms(2), of "parent_cluster nd" f] in_data_2
    by (intro nth_equalityI) (auto simp: entry_of_def entry_ok_def nth_put_at)
  show ?thesis
    by (rule that [of "[]"])
      (use False s hd assms id length_entry_of [OF assms(2,5)] in \<open>auto intro!: exI [of _ "entry_of f d nd"]\<close>)
next
  case True
  then obtain c where c: "c \<in> free f d" "cs1 = [c]" "d1 = set_entry_of f nd (with_first c) (allocated f None c d)"
    using assms(6) by (auto simp: started_def)
  let ?d = "allocated f None c d" and ?p = "parent_cluster nd"
  have ic: "in_data f n c" using assms(4) c(1) by (auto simp: free_in_data_def)
  note al = allocated_store [OF assms(1,2) ic, of None, simplified]
  have fr: "free f ?d = free f d - {c}" by (rule free_allocated_None [OF assms(1,2) ic])
  have sec: "secs ?d"
    using assms(2) in_data_bound [OF ic] by (simp add: allocated_def secs_put cluster_size_bytes_def)
  have pc: "?p \<noteq> 0 \<Longrightarrow> ?p \<noteq> c" using assms(5) c(1) by (auto simp: entry_ok_def)
  have c0: "c \<noteq> 0" using in_data_2 [OF ic] by auto
  have eok: "entry_ok f n ?d nd cs" using assms(5) fr by (auto simp: entry_ok_def)
  have "\<forall>e. length e = 32 \<longrightarrow> length (with_first c e) = 32" by simp
  note se = set_entry_store [OF assms(1) sec eok this]
  have clus_p: "?p \<noteq> 0 \<Longrightarrow> clus f ?d ?p = clus f d ?p" using pc al(2) by simp
  have eo: "?p \<noteq> 0 \<Longrightarrow> entry_of f ?d nd = entry_of f d nd" using clus_p by (simp add: entry_of_def)
  have cc: "clus f d1 c = replicate (cluster_size_bytes f) 0"
    using se(3) [of c] pc al(2) c(3) c0 by (cases "?p = 0") auto
  show ?thesis
  proof (rule that [of "[c]"])
    show "cs1 = cs @ [c]" "cs1 \<noteq> []" "set [c] \<subseteq> free f d" "distinct [c]" using True c by auto
    show "file_chain f n d1 (hd cs1) cs1" using c ic se(1) al(1) by (simp add: file_chain_Cons)
    show "free f d1 = free f d - set [c]" using c(3) se(2) fr by simp
    show "file_data f d1 cs1 = file_data f d cs @ replicate (length [c] * cluster_size_bytes f) 0"
      using True c(2) cc by simp
    show "fat f d1 x = fat f d x \<and> (x \<noteq> ?p \<longrightarrow> clus f d1 x = clus f d x)" if "x \<notin> set cs1" for x
      using that c se(1,3) al by simp
    show "entry_ok f n d1 nd cs1" using eok pc c se(2) by (auto simp: entry_ok_def True)
    show "secs d1" using c(3) se(5) by simp
    assume p: "?p \<noteq> 0"
    have l: "length (entry_of f d nd) = 32" by (rule length_entry_of [OF assms(2,5) p])
    show "\<exists>e. length e = 32 \<and> clus f d1 ?p = put_at (dir_entry_offset nd) e (clus f d ?p) \<and>
      take 12 e = take 12 (entry_of f d nd) \<and> entry_size e = entry_size (entry_of f d nd) \<and>
      (first_cluster_of (entry_of f d nd) = first_cluster nd \<longrightarrow> first_cluster_of e = hd cs1)"
      using se(4) [OF p] c(2,3) eo [OF p] clus_p [OF p] l entry_with_first [OF l]
      by (intro exI [of _ "with_first c (entry_of f d nd)"]) simp
  qed
qed

context block_device
begin

lemma ensure_first_view:
  assumes "view s n d" and "geom (node_fs nd) n" and "file_chain (node_fs nd) n d (first_cluster nd) cs"
    and "first_cluster nd < 0x0FFFFFF8" and "free_in_data (node_fs nd) n d" and "entry_ok (node_fs nd) n d nd cs"
    and "cs = [] \<Longrightarrow> free (node_fs nd) d \<noteq> {}"
  shows "okS (ensure_first_cluster dev) (s, nd) (\<lambda>_ (s', nd'). \<exists>d1 cs1. view s' n d1 \<and>
    started (node_fs nd) d nd cs d1 cs1 \<and> nd' = nd\<lparr>first_cluster := hd cs1\<rparr>)"
proof (cases "first_cluster nd < 2")
  case False
  then have "cs \<noteq> []" "hd cs = first_cluster nd"
    using assms(3,4) by (cases cs; auto simp: file_chain_def not_le [symmetric])+
  then show ?thesis using False assms(1) by (auto simp: ensure_first_cluster_def ok_simps started_def)
next
  case True
  let ?f = "node_fs nd"
  have cs: "cs = []" using True assms(3) by (simp add: file_chain_def)
  have e: "okS (enter_first_cluster dev nd c) s' (\<lambda>_ s'. \<exists>d1 cs1. view s' n d1 \<and>
      started ?f d nd cs d1 cs1 \<and> nd\<lparr>first_cluster := c\<rparr> = nd\<lparr>first_cluster := hd cs1\<rparr>)"
    if c: "least_free ?f d c" and v: "view s' n (allocated ?f None c d)" for c s'
  proof -
    have ic: "in_data ?f n c" "c \<in> free ?f d" using assms(5) c by (auto simp: least_free_def free_in_data_def)
    have "free ?f (allocated ?f None c d) = free ?f d - {c}"
      by (rule free_allocated_None [OF assms(2) view_secs [OF assms(1)] ic(1)])
    then have "entry_ok ?f n (allocated ?f None c d) nd cs" using assms(6) by (auto simp: entry_ok_def)
    from enter_first_view [OF v assms(2) this, of c] show ?thesis
      using cs ic(2) by (elim okS_mono, intro exI [of _ "set_entry_of ?f nd (with_first c) (allocated ?f None c d)"] exI [of _ "[c]"])
        (auto simp: started_def)
  qed
  show ?thesis
    using True cs e alloc_cluster_view [OF assms(1,2,5) assms(7), of None]
    by (auto simp: ensure_first_cluster_def ok_simps elim!: okS_mono)
qed

end

lemma node_fields [simp]:
  "entry_of f d (nd\<lparr>first_cluster := c\<rparr>) = entry_of f d nd"
  "set_entry_of f (nd\<lparr>first_cluster := c\<rparr>) g d = set_entry_of f nd g d"
  "entry_ok f n d (nd\<lparr>first_cluster := c\<rparr>) cs = entry_ok f n d nd cs"
  by (simp_all add: entry_of_def set_entry_of_def entry_ok_def)

lemma extends_entry_ok:
  assumes "entry_ok f n d nd cs" and "extends f n d cs d' new"
  shows "entry_ok f n d' nd (cs @ new)" and "parent_cluster nd \<noteq> 0 \<Longrightarrow> clus f d' (parent_cluster nd) = clus f d (parent_cluster nd)"
  using assms by (auto simp: entry_ok_def extends_def)

lemma length_put_entry:
  assumes "secs d" and "entry_ok f n d nd cs" and "parent_cluster nd \<noteq> 0" and "length e = 32"
  shows "subslice (dir_entry_offset nd) 32 (put_at (dir_entry_offset nd) e (clus f d (parent_cluster nd))) = e"
    and "length e' = 32 \<Longrightarrow> put_at (dir_entry_offset nd) e (put_at (dir_entry_offset nd) e' (clus f d (parent_cluster nd))) =
      put_at (dir_entry_offset nd) e (clus f d (parent_cluster nd))"
proof -
  have "length (clus f d (parent_cluster nd)) = cluster_size_bytes f" "dir_entry_offset nd + 32 \<le> cluster_size_bytes f"
    using assms(2,3) length_clus [OF assms(1)] in_data_2 by (auto simp: entry_ok_def)
  then show "subslice (dir_entry_offset nd) 32 (put_at (dir_entry_offset nd) e (clus f d (parent_cluster nd))) = e"
    and "length e' = 32 \<Longrightarrow> put_at (dir_entry_offset nd) e (put_at (dir_entry_offset nd) e' (clus f d (parent_cluster nd))) =
      put_at (dir_entry_offset nd) e (clus f d (parent_cluster nd))"
    using assms(4) by (simp_all add: put_at_twice)
qed

text \<open>The last step: the size field, when the file has grown.\<close>

lemma written_finish:
  assumes "geom f n" and "secs d" and "secs d3" and "file_chain f n d (first_cluster nd) cs" and "free_in_data f n d"
    and "entry_ok f n d nd cs" and "started f d nd cs d1 cs1" and "extends f n d1 cs1 d3 new"
    and "file_data f d3 (cs1 @ new) = put_at off data (file_data f d1 cs1 @ replicate (length new * cluster_size_bytes f) 0)"
    and sz: "sz = max (off + length data) (unat (file_size nd))"
    and d4: "d4 = (if unat (file_size nd) < sz then set_entry_of f nd (with_size (of_nat sz)) d3 else d3)"
  shows "\<exists>new'. written_to f n d nd cs off data d4 (nd\<lparr>first_cluster := hd cs1, file_size := of_nat sz\<rparr>) new'"
proof -
  let ?p = "parent_cluster nd" and ?o = "dir_entry_offset nd"
  obtain new0 where st: "cs1 = cs @ new0" "file_chain f n d1 (hd cs1) cs1" "cs1 \<noteq> []"
    "set new0 \<subseteq> free f d" "free f d1 = free f d - set new0" "distinct new0"
    "file_data f d1 cs1 = file_data f d cs @ replicate (length new0 * cluster_size_bytes f) 0"
    "\<And>x. x \<notin> set cs1 \<Longrightarrow> fat f d1 x = fat f d x \<and> (x \<noteq> ?p \<longrightarrow> clus f d1 x = clus f d x)"
    "entry_ok f n d1 nd cs1" "secs d1"
    "?p \<noteq> 0 \<Longrightarrow> \<exists>e. length e = 32 \<and> clus f d1 ?p = put_at ?o e (clus f d ?p) \<and> take 12 e = take 12 (entry_of f d nd) \<and>
      entry_size e = entry_size (entry_of f d nd) \<and>
      (first_cluster_of (entry_of f d nd) = first_cluster nd \<longrightarrow> first_cluster_of e = hd cs1)"
    using started_effect [OF assms(1,2,4-7)] by blast
  note ek = extends_entry_ok [OF st(9) assms(8)]
  have "\<forall>e. length e = 32 \<longrightarrow> length (with_size (of_nat sz) e) = 32" by simp
  note se = set_entry_store [OF assms(1,3) ek(1) this]
  have d4s: "fat f d4 = fat f d3" "free f d4 = free f d3" "x \<noteq> ?p \<Longrightarrow> clus f d4 x = clus f d3 x" for x
    using se(1-3) d4 by auto
  let ?new = "new0 @ new" and ?nd = "nd\<lparr>first_cluster := hd cs1, file_size := of_nat sz\<rparr>"
  have hd: "hd (cs @ ?new) = hd cs1" using st(1,3) by (metis append.assoc hd_append2)
  have eq: "cs @ ?new = cs1 @ new" using st(1) by simp
  have pnot: "?p \<notin> set (cs1 @ new)" if "?p \<noteq> 0" using ek(1) that by (simp add: entry_ok_def)
  have fd: "file_data f d4 (cs1 @ new) = file_data f d3 (cs1 @ new)"
  proof (rule file_data_cong)
    fix x assume "x \<in> set (cs1 @ new)"
    moreover have "0 \<notin> set (cs1 @ new)"
      using assms(8) in_data_2 [of f n 0] by (auto simp: extends_def file_chain_def split: if_splits)
    ultimately have "x \<noteq> ?p" using pnot by metis
    then show "clus f d4 x = clus f d3 x" by (rule d4s(3))
  qed
  have "\<exists>e. length e = 32 \<and> clus f d4 ?p = put_at ?o e (clus f d ?p) \<and> take 12 e = take 12 (entry_of f d nd) \<and>
      (describes (entry_of f d nd) nd \<longrightarrow> describes e ?nd)" if p: "?p \<noteq> 0"
  proof -
    obtain e where e: "length e = 32" "clus f d1 ?p = put_at ?o e (clus f d ?p)" "take 12 e = take 12 (entry_of f d nd)"
      "entry_size e = entry_size (entry_of f d nd)"
      "first_cluster_of (entry_of f d nd) = first_cluster nd \<longrightarrow> first_cluster_of e = hd cs1" using st(11) [OF p] by blast
    have c3: "clus f d3 ?p = put_at ?o e (clus f d ?p)" using ek(2) [OF p] e(2) by simp
    note pe = length_put_entry [OF assms(2,6) p]
    have e3: "entry_of f d3 nd = e" using c3 pe(1) [OF e(1)] by (simp add: entry_of_def)
    show ?thesis
    proof (cases "unat (file_size nd) < sz")
      case True
      have "clus f d4 ?p = put_at ?o (with_size (of_nat sz) e) (clus f d ?p)"
        using se(4) [OF p] d4 True e3 c3 pe(2) [of "with_size (of_nat sz) e" e] e(1) by simp
      then show ?thesis using e entry_with_size [OF e(1), of "of_nat sz"]
        by (intro exI [of _ "with_size (of_nat sz) e"]) (auto simp: describes_def)
    next
      case False
      then have "of_nat sz = file_size nd" using sz by simp
      then show ?thesis using False d4 e c3 by (intro exI [of _ e]) (auto simp: describes_def)
    qed
  qed
  moreover have "file_chain f n d4 (hd cs1) (cs1 @ new)"
    using assms(8) st(3) d4s(1) by (simp add: extends_def file_chain_def)
  moreover have "set ?new \<subseteq> free f d" "free f d4 = free f d - set ?new"
    using assms(8) st(4,5) d4s(2) by (auto simp: extends_def)
  moreover have "file_data f d4 (cs1 @ new) = put_at off data (file_data f d cs @ replicate (length ?new * cluster_size_bytes f) 0)"
    using fd assms(9) st(7) by (simp add: replicate_add distrib_right)
  moreover have "fat f d4 x = fat f d x \<and> (x \<noteq> ?p \<longrightarrow> clus f d4 x = clus f d x)" if "x \<notin> set (cs1 @ new)" for x
    using that assms(8) st(8) [of x] d4s by (simp add: extends_def)
  ultimately have "written_to f n d nd cs off data d4 ?nd ?new"
    unfolding written_to_def eq hd [unfolded eq] sz [symmetric] by simp
  then show ?thesis by blast
qed

context block_device
begin

lemma fat_write_view:
  assumes "view s n d" and "geom (node_fs nd) n" and "file_chain (node_fs nd) n d (first_cluster nd) cs"
    and "first_cluster nd < 0x0FFFFFF8" and "free_in_data (node_fs nd) n d" and "entry_ok (node_fs nd) n d nd cs"
    and "\<not> is_dir nd" and "data \<noteq> []" and "off + length data < 2 ^ 32"
    and "off + length data \<le> (length cs + card (free (node_fs nd) d)) * cluster_size_bytes (node_fs nd)"
  shows "okS (fat_write dev off data) (s, nd) (\<lambda>r (s', nd'). r = length data \<and>
    (\<exists>d' new. view s' n d' \<and> written_to (node_fs nd) n d nd cs off data d' nd' new))"
proof -
  let ?f = "node_fs nd" and ?cb = "cluster_size_bytes (node_fs nd)"
  define sz where "sz = max (off + length data) (unat (file_size nd))"
  let ?done = "\<lambda>r s' nd'. r = length data \<and> (\<exists>d' new. view s' n d' \<and> written_to ?f n d nd cs off data d' nd' new)"
  have cb: "0 < ?cb" by (rule cluster_size_pos [OF assms(2)])
  have len: "0 < length data" using assms(8) by simp
  have fne: "cs = [] \<Longrightarrow> free ?f d \<noteq> {}" using assms(10) len by auto
  have usz: "usize_add off (length data) = Inr (off + length data)" using assms(9) by (simp add: usize_add_def usize_bound_def)
  have main: "okS (bindS (skip_clusters dev ?f (off div ?cb) (hd cs1)) (\<lambda>r. write_loop dev ?f (length data) r (off mod ?cb) 0 data)) s1
      (\<lambda>r s3. r = length data \<and> (\<exists>d3 new. view s3 n d3 \<and> extends ?f n d1 cs1 d3 new \<and>
        file_data ?f d3 (cs1 @ new) = put_at off data (file_data ?f d1 cs1 @ replicate (length new * ?cb) 0)))"
    if v: "view s1 n d1" and st: "started ?f d nd cs d1 cs1" for s1 d1 cs1
  proof -
    obtain new0 where e: "cs1 = cs @ new0" "file_chain ?f n d1 (hd cs1) cs1" "cs1 \<noteq> []" "set new0 \<subseteq> free ?f d"
      "free ?f d1 = free ?f d - set new0" "distinct new0"
      using started_effect [OF assms(2) view_secs [OF assms(1)] assms(3,5,6) st] by metis
    obtain c post where cs1: "cs1 = c # post" using e(3) by (cases cs1) auto
    have "card (free ?f d1) + length new0 = card (free ?f d)"
      unfolding e(5) using e(4,6) by (simp add: card_Diff_subset card_mono flip: distinct_card)
    moreover have "Suc (length post) = length cs + length new0" using e(1) cs1 by (metis length_Cons length_append)
    ultimately have "length cs + card (free ?f d) = Suc (length post) + card (free ?f d1)" by simp
    then have room: "off + length data \<le> (Suc (length post) + card (free ?f d1)) * ?cb" using assms(10) by simp
    have fd1: "free_in_data ?f n d1" using assms(5) e(5) by (auto simp: free_in_data_def)
    have fc: "file_chain ?f n d1 c (c # post)" using e(2) cs1 by simp
    show ?thesis
      using skip_and_write_view [OF v assms(2) fc fd1 assms(8) room] unfolding cs1 grown_def by simp
  qed
  have fin: "okS (if unat (file_size nd) < sz
        then bindS (set_node (\<lambda>n. n\<lparr>file_size := of_nat sz\<rparr>)) (\<lambda>_.
          on_disk (map_errS (update_size_on_disk dev (nd\<lparr>first_cluster := hd cs1\<rparr>) (of_nat sz))))
        else retS ()) (s3, nd\<lparr>first_cluster := hd cs1\<rparr>)
      (\<lambda>_ (s', nd'). ?done (length data) s' nd')"
    if st: "started ?f d nd cs d1 cs1" and v: "view s3 n d3" and ex: "extends ?f n d1 cs1 d3 new"
      and ow: "file_data ?f d3 (cs1 @ new) = put_at off data (file_data ?f d1 cs1 @ replicate (length new * ?cb) 0)"
    for s3 d1 cs1 d3 new
  proof -
    note wf = written_finish [OF assms(2) view_secs [OF assms(1)] view_secs [OF v] assms(3,5,6) st ex ow sz_def refl]
    have ek: "entry_ok ?f n d3 nd (cs1 @ new)"
      by (rule started_effect [OF assms(2) view_secs [OF assms(1)] assms(3,5,6) st]) (rule extends_entry_ok(1) [OF _ ex])
    show ?thesis
    proof (cases "unat (file_size nd) < sz")
      case True
      have "okS (update_size_on_disk dev (nd\<lparr>first_cluster := hd cs1\<rparr>) (of_nat sz)) s3
          (\<lambda>_ s'. view s' n (set_entry_of ?f nd (with_size (of_nat sz)) d3))"
        using update_size_view [of s3 n d3 "nd\<lparr>first_cluster := hd cs1\<rparr>" "cs1 @ new" "of_nat sz"] v assms(2) ek by simp
      then show ?thesis using True wf by (auto simp: ok_simps elim!: okS_mono)
    next
      case False
      then have "of_nat sz = file_size nd" by (simp add: sz_def)
      then have "nd\<lparr>first_cluster := hd cs1, file_size := of_nat sz\<rparr> = nd\<lparr>first_cluster := hd cs1\<rparr>" by simp
      then show ?thesis using False wf v by (auto simp: ok_simps)
    qed
  qed
  have nodes: "okS (ensure_first_cluster dev) (s, nd) (\<lambda>_ st. okS (bindS get_node (\<lambda>n1.
      bindS (on_disk (skip_clusters dev ?f (off div ?cb) (first_cluster n1))) (\<lambda>cluster.
      bindS (on_disk (write_loop dev ?f (length data) cluster (off mod ?cb) 0 data)) (\<lambda>written.
      bindS (if unat (file_size nd) < sz
             then bindS (set_node (\<lambda>n. n\<lparr>file_size := of_nat sz\<rparr>)) (\<lambda>_.
               on_disk (map_errS (update_size_on_disk dev n1 (of_nat sz))))
             else retS ()) (\<lambda>_. retS written))))) st (\<lambda>r (s', nd'). ?done r s' nd'))"
  proof (rule okS_mono [OF ensure_first_view [OF assms(1-6) fne]])
    fix u st assume "case st of (s', nd') \<Rightarrow> \<exists>d1 cs1. view s' n d1 \<and> started ?f d nd cs d1 cs1 \<and> nd' = nd\<lparr>first_cluster := hd cs1\<rparr>"
    then obtain s1 d1 cs1 where st: "st = (s1, nd\<lparr>first_cluster := hd cs1\<rparr>)" "view s1 n d1" "started ?f d nd cs d1 cs1"
      by (cases st) auto
    have fcl: "first_cluster (nd\<lparr>first_cluster := hd cs1\<rparr>) = hd cs1" by simp
    show "okS (bindS get_node (\<lambda>n1.
      bindS (on_disk (skip_clusters dev ?f (off div ?cb) (first_cluster n1))) (\<lambda>cluster.
      bindS (on_disk (write_loop dev ?f (length data) cluster (off mod ?cb) 0 data)) (\<lambda>written.
      bindS (if unat (file_size nd) < sz
             then bindS (set_node (\<lambda>n. n\<lparr>file_size := of_nat sz\<rparr>)) (\<lambda>_.
               on_disk (map_errS (update_size_on_disk dev n1 (of_nat sz))))
             else retS ()) (\<lambda>_. retS written))))) st (\<lambda>r (s', nd'). ?done r s' nd')"
      unfolding st(1) okS_bind okS_get_node okS_on_disk okS_ret fcl
    proof (rule okS_mono [OF main [OF st(2,3), unfolded okS_bind]], erule okS_mono, elim conjE exE)
      fix x and q :: "'s" and d3 new
      assume "x = length data" and "view q n d3" "extends ?f n d1 cs1 d3 new"
        "file_data ?f d3 (cs1 @ new) = put_at off data (file_data ?f d1 cs1 @ replicate (length new * ?cb) 0)"
      then show "okS (if unat (file_size nd) < sz
          then bindS (set_node (\<lambda>n. n\<lparr>file_size := of_nat sz\<rparr>)) (\<lambda>_.
            on_disk (map_errS (update_size_on_disk dev (nd\<lparr>first_cluster := hd cs1\<rparr>) (of_nat sz))))
          else retS ()) (q, nd\<lparr>first_cluster := hd cs1\<rparr>) (\<lambda>_ (s', nd'). ?done x s' nd')"
        using fin [OF st(3)] by blast
    qed
  qed
  show ?thesis
    using nodes [unfolded sz_def] assms(7,8) cb usz
    by (simp add: fat_write_def okS_bind okS_get_node Let_def okS_lift)
qed

end

end
