(* ===== verification/Volume.thy ===== *)
theory Volume
  imports Fat32File
begin

text \<open>
  FAT32 on the SATA driver: the results of the file system for the kernel's own device
  \<open>ahci_device\<close>, over every drive that keeps the contract \<open>ata_drive\<close>, and a small volume on a
  concrete drive.
\<close>

section \<open>A small volume\<close>

text \<open>
  One sector per cluster, one table of one sector behind the boot sector. Clusters 2 and 3
  are chains of their own: a file with the directory entry at the start of cluster 3.
\<close>

definition demo_fs :: Fat32Fs where
  "demo_fs = \<lparr>bpb = \<lparr>bytes_per_sector = 512, sectors_per_cluster = 1, reserved_sectors = 1, num_fats = 1,
     fat_size_sectors = 1, root_cluster = 3\<rparr>, fat_start_sector = 1, data_start_sector = 2\<rparr>"

definition demo_table :: "u8 list" where
  "demo_table = [0xF8, 0xFF, 0xFF, 0x0F, 0xFF, 0xFF, 0xFF, 0x0F, 0xFF, 0xFF, 0xFF, 0x0F, 0xFF, 0xFF, 0xFF, 0x0F] @ replicate 496 0"

definition demo_media :: "nat \<Rightarrow> sector" where
  "demo_media k = (if k = 1 then demo_table else if k = 2 then replicate 512 7 else replicate 512 0)"

definition demo_ahci :: "(nat \<Rightarrow> sector) ahci" where
  "demo_ahci = \<lparr>PORT = Some \<lparr>port = 0, clb_phys = 0x1000, ct_phys = 0x3000, dma_phys = 0x4000\<rparr>,
     header = \<lparr>flags = 0, prdtl = 0, prdbc = 0, ctba = 0x3000, ctbau = 0\<rparr>,
     ctable = \<lparr>cfis = replicate 64 0, acmd = replicate 16 0, prdt = replicate 8 \<lparr>dba = 0, dbau = 0, dbc = 0\<rparr>\<rparr>,
     pages = (\<lambda>_. replicate 4096 0), media = demo_media\<rparr>"

definition demo_file :: Fat32Node where
  "demo_file = file_node demo_fs 2 10 3 0"

lemma demo_ready: "port_ready demo_ahci"
  by (simp add: port_ready_def demo_ahci_def)

lemma demo_geom: "geom demo_fs 65536"
  by (simp add: geom_def demo_fs_def)

lemma demo_media_sect: "ram_sect (media demo_ahci) = demo_media" "ram_cap (media demo_ahci) = 65536"
  by (auto simp: ram_sect_def demo_ahci_def demo_media_def demo_table_def ram_cap_def fun_eq_iff)

lemma demo_in_data:
  assumes "2 \<le> c" and "unat c < 128"
  shows "in_data demo_fs 65536 c"
proof -
  have "c < 0x0FFFFFF8" using assms(2) by (simp add: word_less_nat_alt)
  then show ?thesis using assms by (simp add: in_data_def in_chain_def demo_fs_def first_sector_def)
qed

lemma demo_fat: "fat demo_fs demo_media 2 = 0x0FFFFFFF" "fat demo_fs demo_media 3 = 0x0FFFFFFF"
  by (simp_all add: fat_def fat_raw_def demo_fs_def demo_media_def demo_table_def u32_at_def)

lemma demo_free_in_data: "free_in_data demo_fs 65536 d"
proof -
  have "unat c < 128" if "c \<in> free demo_fs d" for c using free_bound [OF that] by (simp add: demo_fs_def)
  moreover have "2 \<le> c" if "c \<in> free demo_fs d" for c using that by (simp add: free_def)
  ultimately show ?thesis using demo_in_data by (auto simp: free_in_data_def)
qed

lemma demo_chain: "file_chain demo_fs 65536 demo_media 2 [2]"
  using demo_in_data [of 2] by (simp add: file_chain_Cons demo_fat)

lemma demo_cluster_size: "cluster_size_bytes demo_fs = 512"
  by (simp add: cluster_size_bytes_def demo_fs_def)

lemma demo_entry_ok: "entry_ok demo_fs 65536 demo_media demo_file [2]"
  using demo_in_data [of 3]
  by (simp add: entry_ok_def demo_file_def file_node_def free_def demo_fat demo_cluster_size)

lemma demo_node: "node_fs demo_file = demo_fs" "first_cluster demo_file = 2" "\<not> is_dir demo_file"
  by (simp_all add: demo_file_def file_node_def)

lemmas demo_facts = demo_ready demo_geom demo_media_sect demo_chain demo_entry_ok demo_free_in_data demo_cluster_size demo_node

section \<open>Reading and writing files\<close>

text \<open>The device is ready, the volume lies on it, and the file is a chain of its clusters.\<close>

definition file_on :: "('d \<Rightarrow> nat \<Rightarrow> sector) \<Rightarrow> ('d \<Rightarrow> nat) \<Rightarrow> 'd ahci \<Rightarrow> Fat32Node \<Rightarrow> u32 list \<Rightarrow> bool" where
  "file_on sect cap s nd cs \<longleftrightarrow> port_ready s \<and> geom (node_fs nd) (cap (media s)) \<and>
     file_chain (node_fs nd) (cap (media s)) (sect (media s)) (first_cluster nd) cs \<and>
     first_cluster nd < 0x0FFFFFF8 \<and> \<not> is_dir nd"

text \<open>The bytes of the file.\<close>

definition contents :: "('d \<Rightarrow> nat \<Rightarrow> sector) \<Rightarrow> 'd ahci \<Rightarrow> Fat32Node \<Rightarrow> u32 list \<Rightarrow> u8 list" where
  "contents sect s nd cs = take (unat (file_size nd)) (file_data (node_fs nd) (sect (media s)) cs)"

lemma demo_file_on: "file_on ram_sect ram_cap demo_ahci demo_file [2]"
  by (simp add: file_on_def demo_facts)

context ata_drive
begin

lemma port_view: "port_ready s \<Longrightarrow> view s (cap (media s)) (sect (media s))"
  by (simp add: view_def)

lemma ahci_read_file:
  assumes "file_on sect cap s nd cs"
  obtains s' where "fat_read (ahci_device hba) nd off buffer s =
      (Inr (min (length buffer) (length (contents sect s nd cs) - off),
            put_at 0 (take (length buffer) (drop off (contents sect s nd cs))) buffer), s')"
    and "port_ready s'" and "sect (media s') = sect (media s)" and "cap (media s') = cap (media s)"
proof -
  have a: "port_ready s" "geom (node_fs nd) (cap (media s))"
    "file_chain (node_fs nd) (cap (media s)) (sect (media s)) (first_cluster nd) cs" "\<not> is_dir nd"
    using assms by (auto simp: file_on_def)
  show ?thesis
    using fat_read_view [OF port_view [OF a(1)] a(2-4), of off buffer, folded contents_def] that
    by (auto simp: okS_def view_def contents_def)
qed

lemma ahci_write_file:
  assumes "file_on sect cap s nd cs" and "free_in_data (node_fs nd) (cap (media s)) (sect (media s))"
    and "entry_ok (node_fs nd) (cap (media s)) (sect (media s)) nd cs" and "data \<noteq> []" and "off + length data < 2 ^ 32"
    and "off + length data \<le> (length cs + card (free (node_fs nd) (sect (media s)))) * cluster_size_bytes (node_fs nd)"
  obtains s' nd' new where "fat_write (ahci_device hba) off data (s, nd) = (Inr (length data), (s', nd'))"
    and "port_ready s'" and "cap (media s') = cap (media s)"
    and "written_to (node_fs nd) (cap (media s)) (sect (media s)) nd cs off data (sect (media s')) nd' new"
proof -
  have a: "port_ready s" "geom (node_fs nd) (cap (media s))"
    "file_chain (node_fs nd) (cap (media s)) (sect (media s)) (first_cluster nd) cs"
    "first_cluster nd < 0x0FFFFFF8" "\<not> is_dir nd"
    using assms(1) by (auto simp: file_on_def)
  show ?thesis
    using fat_write_view [OF port_view [OF a(1)] a(2-4) assms(2,3) a(5) assms(4-6)] that
    by (fastforce simp: okS_def view_def)
qed

end

text \<open>
  \<^bold>\<open>C27.\<close> Reading a file through FAT32 and the SATA driver returns its bytes: on a device
  that keeps the ATA contract, \<open>fat_read\<close> at any offset, into a buffer of any length, returns
  exactly the bytes of the file from the offset on, as many as there are and the buffer
  holds, and leaves the disk as it was.
\<close>

theorem fat_read_correct:
  assumes "ata_drive hba sect cap" and "file_on sect cap s nd cs"
  shows "\<exists>s'. fat_read (ahci_device hba) nd off buffer s =
      (Inr (min (length buffer) (length (contents sect s nd cs) - off),
            put_at 0 (take (length buffer) (drop off (contents sect s nd cs))) buffer), s') \<and>
    sect (media s') = sect (media s)"
  by (rule ata_drive.ahci_read_file [OF assms]) blast

theorem fat_read_correct_witness:
  "\<exists>s'. fat_read (ahci_device ram_hba) demo_file 4 (replicate 3 0) demo_ahci = (Inr (3, replicate 3 7), s') \<and>
    ram_sect (media s') = demo_media"
  using fat_read_correct [OF ram.ata_drive_axioms demo_file_on, of 4 "replicate 3 0"]
  by (simp add: contents_def demo_facts demo_file_def file_node_def clus_def first_sector_def demo_fs_def
      demo_media_def put_at_def)



lemma put_at_fits: "length (put_at off xs b) = length b \<Longrightarrow> off + length xs \<le> length b \<or> xs = []"
  by (auto simp: put_at_def min_def split: if_splits)

lemma written_contents:
  assumes "secs d" and "secs d'" and "\<forall>x \<in> set cs. 2 \<le> x" and "off + length data < 2 ^ 32"
    and "written_to f n d nd cs off data d' nd' new"
  shows "take (length data) (drop off (take (unat (file_size nd')) (file_data f d' (cs @ new)))) = data"
proof -
  have nd': "unat (file_size nd') = max (off + length data) (unat (file_size nd))"
    using assms(4,5) unat_lt_32 [of "file_size nd"] by (simp add: written_to_def unat_of_nat)
  have "\<forall>x \<in> set new. 2 \<le> x" using assms(5) by (auto simp: written_to_def free_def)
  then have fc: "\<forall>x \<in> set (cs @ new). 2 \<le> x" using assms(3) by auto
  have fd: "file_data f d' (cs @ new) =
      put_at off data (file_data f d cs @ replicate (length new * cluster_size_bytes f) 0)"
    using assms(5) unfolding written_to_def by blast
  let ?b = "file_data f d cs @ replicate (length new * cluster_size_bytes f) 0"
  have "length (file_data f d' (cs @ new)) = length ?b"
    using length_file_data [OF assms(2) fc] length_file_data [OF assms(1,3)] by (simp add: distrib_right)
  then have fit: "off + length data \<le> length ?b \<or> data = []"
    unfolding fd by (rule put_at_fits)
  have "take (length data) (drop off (file_data f d' (cs @ new))) = data"
    using fit unfolding fd by (auto simp: put_at_def)
  moreover have "min (length data) (max (off + length data) (unat (file_size nd)) - off) = length data" by simp
  ultimately show ?thesis unfolding nd' drop_take take_take by metis
qed

context ata_drive
begin

lemma media_secs: "secs (sect (media s))"
  by (simp add: secs_def length_sect)

lemma ahci_write_read:
  assumes "file_on sect cap s nd cs" and "free_in_data (node_fs nd) (cap (media s)) (sect (media s))"
    and "entry_ok (node_fs nd) (cap (media s)) (sect (media s)) nd cs" and "data \<noteq> []" and "off + length data < 2 ^ 32"
    and "off + length data \<le> (length cs + card (free (node_fs nd) (sect (media s)))) * cluster_size_bytes (node_fs nd)"
  obtains s' nd' s'' where "fat_write (ahci_device hba) off data (s, nd) = (Inr (length data), (s', nd'))"
    and "fat_read (ahci_device hba) nd' off (replicate (length data) 0) s' = (Inr (length data, data), s'')"
proof -
  obtain s' nd' new where w: "fat_write (ahci_device hba) off data (s, nd) = (Inr (length data), (s', nd'))"
    "port_ready s'" "cap (media s') = cap (media s)"
    "written_to (node_fs nd) (cap (media s)) (sect (media s)) nd cs off data (sect (media s')) nd' new"
    using ahci_write_file [OF assms] .
  have cs2: "\<forall>x \<in> set cs. 2 \<le> x" using assms(1) in_data_2 by (auto simp: file_on_def file_chain_def split: if_splits)
  note wc = written_contents [OF media_secs media_secs cs2 assms(5) w(4)]
  have nd': "node_fs nd' = node_fs nd" "is_dir nd' = is_dir nd" "first_cluster nd' = hd (cs @ new)"
    and fc: "file_chain (node_fs nd) (cap (media s)) (sect (media s')) (first_cluster nd') (cs @ new)"
    using w(4) unfolding written_to_def by auto
  have "cs @ new \<noteq> []" using wc assms(4) by auto
  then have "in_data (node_fs nd) (cap (media s)) (first_cluster nd')" 
    using fc nd'(3) hd_in_set [of "cs @ new"] unfolding file_chain_def by (metis (no_types))
  then have on: "file_on sect cap s' nd' (cs @ new)"
    using assms(1) w(2,3) nd' fc by (simp add: file_on_def in_data_def in_chain_def)
  have c: "take (length data) (drop off (contents sect s' nd' (cs @ new))) = data"
    using wc nd'(1) by (simp add: contents_def)
  from arg_cong [OF c, of length] have l: "min (length data) (length (contents sect s' nd' (cs @ new)) - off) = length data"
    by (simp add: min.commute)
  show ?thesis
    using ahci_read_file [OF on, of off "replicate (length data) 0"] that [OF w(1)] c l by (auto simp: put_at_def)
qed

end

text \<open>
  What is written is read back: on a device that keeps the ATA contract and has room
  for the result, \<open>fat_write\<close> succeeds, and a read of the same length at the same offset of
  the updated node returns the bytes that were written.
\<close>

lemma fat_write_read_roundtrip:
  assumes "ata_drive hba sect cap" and "file_on sect cap s nd cs"
    and "free_in_data (node_fs nd) (cap (media s)) (sect (media s))"
    and "entry_ok (node_fs nd) (cap (media s)) (sect (media s)) nd cs" and "data \<noteq> []" and "off + length data < 2 ^ 32"
    and "off + length data \<le> (length cs + card (free (node_fs nd) (sect (media s)))) * cluster_size_bytes (node_fs nd)"
  shows "\<exists>s' nd' s''. fat_write (ahci_device hba) off data (s, nd) = (Inr (length data), (s', nd')) \<and>
    fat_read (ahci_device hba) nd' off (replicate (length data) 0) s' = (Inr (length data, data), s'')"
  by (rule ata_drive.ahci_write_read [OF assms]) blast

section \<open>Allocation and mounting\<close>

context ata_drive
begin

lemma ahci_alloc:
  assumes "port_ready s" and "geom f (cap (media s))" and "free_in_data f (cap (media s)) (sect (media s))"
    and "free f (sect (media s)) \<noteq> {}" and "in_data f (cap (media s)) p"
  obtains c s' where "alloc_cluster (ahci_device hba) f (Some p) s = (Inr c, s')" and "least_free f (sect (media s)) c"
    and "fat f (sect (media s')) = (fat f (sect (media s)))(c := 0x0FFFFFFF, p := c)"
    and "clus f (sect (media s')) = (clus f (sect (media s)))(c := replicate (cluster_size_bytes f) 0)"
proof -
  have p: "case Some p of None \<Rightarrow> True | Some p \<Rightarrow> unat p < 128 * fatsz f" using assms(5) by (simp add: in_data_def)
  obtain c s' where r: "alloc_cluster (ahci_device hba) f (Some p) s = (Inr c, s')" "least_free f (sect (media s)) c"
    "view s' (cap (media s)) (allocated f (Some p) c (sect (media s)))"
    using alloc_cluster_view [OF port_view [OF assms(1)] assms(2-4) p] by (auto simp: okS_def)
  have ic: "in_data f (cap (media s)) c" using r(2) assms(3) by (auto simp: least_free_def free_in_data_def)
  note st = allocated_store [OF assms(2) media_secs ic, of "Some p", simplified, OF assms(5)]
  have m: "sect (media s') = allocated f (Some p) c (sect (media s))" using r(3) by (simp add: view_def)
  show ?thesis by (rule that [OF r(1,2)]) (simp_all add: m st)
qed

lemma ahci_full:
  assumes "port_ready s" and "geom f (cap (media s))" and "free f (sect (media s)) = {}"
  shows "\<exists>s'. alloc_cluster (ahci_device hba) f prev s = (Inl (Err ''FAT32: disk full''), s') \<and>
    sect (media s') = sect (media s)"
  using alloc_cluster_full [OF port_view [OF assms(1)] assms(2,3), of prev] by (auto simp: view_def)

lemma ahci_mount:
  assumes "port_ready s" and "0 < cap (media s)"
  shows "\<exists>s'. mount (ahci_device hba) s =
    (bindR (parse_bpb (sect (media s) 0)) (\<lambda>b. Inr \<lparr>bpb = b, fat_start_sector = ucast (reserved_sectors b),
       data_start_sector = ucast (reserved_sectors b) + ucast (num_fats b) * ucast (fat_size_sectors b)\<rparr>), s')"
  using read_one [OF port_view [OF assms(1)], of 0] assms(2)
  by (auto simp: okS_def mount_def bindS_def bindR_def Let_def split: sum.splits)

end

text \<open>
  Allocating a cluster behind \<open>p\<close> takes the lowest free one, marks it as the end of
  its chain, links it from \<open>p\<close> and fills it with zeros; no other table entry and no other
  cluster changes.
\<close>

lemma alloc_cluster_lowest:
  assumes "ata_drive hba sect cap" and "port_ready s" and "geom f (cap (media s))"
    and "free_in_data f (cap (media s)) (sect (media s))" and "free f (sect (media s)) \<noteq> {}"
    and "in_data f (cap (media s)) p"
  shows "\<exists>c s'. alloc_cluster (ahci_device hba) f (Some p) s = (Inr c, s') \<and>
    c \<in> free f (sect (media s)) \<and> (\<forall>c' \<in> free f (sect (media s)). c \<le> c') \<and>
    fat f (sect (media s')) = (fat f (sect (media s)))(c := 0x0FFFFFFF, p := c) \<and>
    clus f (sect (media s')) = (clus f (sect (media s)))(c := replicate (cluster_size_bytes f) 0)"
  by (rule ata_drive.ahci_alloc [OF assms]) (auto simp: least_free_def)

lemma demo_free_5: "5 \<in> free demo_fs demo_media"
  by (simp add: free_def fat_def fat_raw_def demo_fs_def demo_media_def demo_table_def u32_at_def)

text \<open>
  On a full disk the allocation reports \<^verbatim>\<open>disk full\<close> and leaves the disk
  unchanged.
\<close>

lemma alloc_cluster_disk_full:
  assumes "ata_drive hba sect cap" and "port_ready s" and "geom f (cap (media s))" and "free f (sect (media s)) = {}"
  shows "\<exists>s'. alloc_cluster (ahci_device hba) f prev s = (Inl (Err ''FAT32: disk full''), s') \<and>
    sect (media s') = sect (media s)"
  by (rule ata_drive.ahci_full [OF assms])

definition full_media :: "nat \<Rightarrow> sector" where
  "full_media k = replicate 512 0xFF"

lemma full_free: "free demo_fs full_media = {}"
proof -
  have "u32_at (unat c mod 128 * 4) (replicate 512 0xFF) = 0xFFFFFFFF" for c :: u32
    using fat_pos [of c] by (simp add: u32_at_def)
  then have "fat demo_fs full_media c = 0x0FFFFFFF" for c
    by (simp add: fat_def fat_raw_def full_media_def)
  then show ?thesis by (simp add: free_def)
qed

text \<open>The fields of a boot sector that parses.\<close>

lemma power_of_two_byte:
  assumes "is_power_of_two (ucast (b :: u8))"
  shows "unat b \<le> 128"
proof -
  obtain k where k: "(ucast b :: u32) = one_shl k" "k < 32" using assms by (auto simp: is_power_of_two_def)
  have ub: "unat (ucast b :: u32) = unat b" by (rule unat_ucast_up) simp
  have "bit (ucast b :: u32) k" unfolding k(1) using k(2) by simp
  then have "k < 8" using bit_imp_le_length [of b k] by (auto simp: bit_simps)
  then have "k \<le> 7" by simp
  have "unat (one_shl k :: u32) = 2 ^ k" using k(2)
    by (simp only: one_shl_def unsigned_push_bit_eq) (simp add: take_bit_nat_eq_self)
  also have "\<dots> \<le> 2 ^ 7" using \<open>k \<le> 7\<close> by (intro power_increasing) simp_all
  finally show ?thesis using ub k(1) by simp
qed

lemma parse_bpb_fields:
  assumes "parse_bpb sec = Inr b"
  shows "0 < unat (sectors_per_cluster b) \<and> unat (sectors_per_cluster b) \<le> 128"
    and "unat (num_fats b) < 2 ^ 8" and "unat (reserved_sectors b) < 2 ^ 16" and "bytes_per_sector b = 512"
proof -
  from assms have b: "sectors_per_cluster b = ucast (sec ! 0x0D)" "num_fats b = ucast (sec ! 0x10)"
    "reserved_sectors b = ucast (u16_le (sec ! 0x0E) (sec ! 0x0F))" "bytes_per_sector b = 512"
    "ucast (sec ! 0x0D) \<noteq> (0 :: u32)" "is_power_of_two (ucast (sec ! 0x0D))"
    by (auto simp: parse_bpb_def Let_def split: if_splits)
  show "0 < unat (sectors_per_cluster b) \<and> unat (sectors_per_cluster b) \<le> 128"
    using b(5) power_of_two_byte [OF b(6)] unfolding b(1) by (simp add: unat_ucast_up unat_gt_0 flip: unat_gt_0)
  show "unat (num_fats b) < 2 ^ 8" using unsigned_less [of "sec ! 0x10"] unfolding b(2) by (simp add: unat_ucast_up)
  show "unat (reserved_sectors b) < 2 ^ 16"
    using unsigned_less [of "u16_le (sec ! 0x0E) (sec ! 0x0F)"] unfolding b(3) by (simp add: unat_ucast_up)
  show "bytes_per_sector b = 512" by (fact b(4))
qed

text \<open>
  Mounting a disk whose first sector parses yields a volume with the geometry the
  file operations need, in exact arithmetic: 1 to 128 sectors per cluster, and the data area
  starts behind the tables without overflow; the three conditions the boot sector can still
  violate are the ones the last clause names.
\<close>

lemma mount_geometry:
  assumes "ata_drive hba sect cap" and "port_ready s" and "0 < cap (media s)" and "parse_bpb (sect (media s) 0) = Inr b"
  shows "\<exists>f s'. mount (ahci_device hba) s = (Inr f, s') \<and> bpb f = b \<and> 0 < spc f \<and> spc f \<le> 128 \<and>
    fat0 f = unat (reserved_sectors b) \<and> data0 f = fat0 f + nfats f * fatsz f \<and>
    (geom f (cap (media s)) \<longleftrightarrow> 0 < nfats f \<and> fatsz f * 128 \<le> 2 ^ 28 \<and> data0 f \<le> cap (media s))"
proof -
  let ?f = "\<lparr>bpb = b, fat_start_sector = ucast (reserved_sectors b),
    data_start_sector = ucast (reserved_sectors b) + ucast (num_fats b) * ucast (fat_size_sectors b)\<rparr>"
  note fl = parse_bpb_fields [OF assms(4)]
  have fs: "unat (fat_size_sectors b) < 2 ^ 32" by (rule unat_lt_32)
  have "unat (num_fats b) * unat (fat_size_sectors b) \<le> 2 ^ 8 * 2 ^ 32"
    using fl(2) fs by (intro mult_le_mono) simp_all
  then have small: "unat (reserved_sectors b) + unat (num_fats b) * unat (fat_size_sectors b) < 2 ^ 64"
    using fl(3) by simp
  have u: "unat (ucast (reserved_sectors b) :: u64) = unat (reserved_sectors b)"
    "unat (ucast (num_fats b) :: u64) = unat (num_fats b)"
    "unat (ucast (fat_size_sectors b) :: u64) = unat (fat_size_sectors b)" by (simp_all add: unat_ucast_up)
  have ds: "data0 ?f = fat0 ?f + nfats ?f * fatsz ?f"
    using small u by (simp add: unat_word_ariths)
  have "cap (media s) \<le> 2 ^ 48" by (rule ata_drive.cap_48 [OF assms(1)])
  then have "geom ?f (cap (media s)) \<longleftrightarrow> 0 < nfats ?f \<and> fatsz ?f * 128 \<le> 2 ^ 28 \<and> data0 ?f \<le> cap (media s)"
    using fl(1) ds by (auto simp: geom_def)
  moreover obtain s' where "mount (ahci_device hba) s = (Inr ?f, s')"
    using ata_drive.ahci_mount [OF assms(1-3)] assms(4) by auto
  ultimately show ?thesis using fl(1) ds u(1) by (intro exI [of _ ?f] exI [of _ s']) simp
qed

definition demo_boot :: "u8 list" where
  "demo_boot = (replicate 512 0)[0x0C := 2, 0x0D := 1, 0x0E := 1, 0x10 := 1, 0x24 := 1, 0x2C := 3, 510 := 0x55, 511 := 0xAA]"

section \<open>Sectors\<close>

context ata_drive
begin

lemma ahci_sectors:
  assumes "port_ready s" and "0 < k" "k \<le> 8" and "unat lba + k \<le> cap (media s)" and "length buf = k * 512"
  obtains s' s'' where "write_sectors hba lba (of_nat k) buf s = (Inr (), s')"
    and "read_sectors hba lba (of_nat k) (replicate (k * 512) 0) s' = (Inr buf, s'')"
    and "\<And>l. l < unat lba \<or> unat lba + k \<le> l \<Longrightarrow> sect (media s') l = sect (media s) l"
proof -
  have "okS (dev_write (ahci_device hba) lba (of_nat k) buf) s
      (\<lambda>_ s'. view s' (cap (media s)) (store_sectors (unat lba) k buf (sect (media s))))"
    using assms by (intro dev_write_view port_view) simp_all
  then obtain s' where w: "write_sectors hba lba (of_nat k) buf s = (Inr (), s')"
    "view s' (cap (media s)) (store_sectors (unat lba) k buf (sect (media s)))"
    by (auto simp: okS_def ahci_device_def)
  have "okS (dev_read (ahci_device hba) lba (of_nat k) (replicate (k * 512) 0)) s'
      (\<lambda>r s''. r = put_at 0 (sectors_at (store_sectors (unat lba) k buf (sect (media s))) (unat lba) k) (replicate (k * 512) 0) \<and>
        view s'' (cap (media s)) (store_sectors (unat lba) k buf (sect (media s))))"
    using assms by (intro dev_read_view w(2)) simp_all
  then obtain s'' where "read_sectors hba lba (of_nat k) (replicate (k * 512) 0) s' = (Inr buf, s'')"
    using assms(5) by (auto simp: okS_def ahci_device_def sectors_at_store_same put_at_def)
  moreover have "sect (media s') l = sect (media s) l" if "l < unat lba \<or> unat lba + k \<le> l" for l
    using that w(2) by (auto simp: view_def store_sectors_def)
  ultimately show ?thesis using that w(1) by blast
qed

end

text \<open>
  One to eight sectors written to the disk are read back as they were written, the
  address and the count passing through the bytes of the command block, and every other
  sector keeps its contents.
\<close>

lemma sectors_roundtrip:
  assumes "ata_drive hba sect cap" and "port_ready s" and "0 < k" "k \<le> 8" and "unat lba + k \<le> cap (media s)"
    and "length buf = k * 512"
  shows "\<exists>s' s''. write_sectors hba lba (of_nat k) buf s = (Inr (), s') \<and>
    read_sectors hba lba (of_nat k) (replicate (k * 512) 0) s' = (Inr buf, s'') \<and>
    (\<forall>l. l < unat lba \<or> unat lba + k \<le> l \<longrightarrow> sect (media s') l = sect (media s) l)"
  by (rule ata_drive.ahci_sectors [OF assms]) blast

text \<open>The registers of a command that never completes.\<close>

definition stuck :: "reply \<Rightarrow> bool" where
  "stuck r \<longleftrightarrow> (\<forall>i. px_is r i AND IS_TFES = 0 \<and> px_ci r i AND 1 \<noteq> 0)"

lemma complete_stuck: "stuck r \<Longrightarrow> complete msg r = Inl (Err msg)"
proof -
  assume s: "stuck r"
  have "poll n r i = TimedOut" for n i
    using s unfolding stuck_def by (induction n arbitrary: i) (simp_all add: poll.simps)
  then show ?thesis by (simp add: complete_def)
qed

lemma issue_stuck: "(\<And>h t m d. stuck (fst (hba (port p) h t m d))) \<Longrightarrow> fst (issue hba msg p s) = Inl (Err msg)"
  unfolding issue_def by (auto simp: split_beta complete_stuck)

lemma bindS_fst_throw: "fst (m s) = Inl e \<Longrightarrow> fst (bindS m f s) = Inl e"
  by (cases "m s") (simp add: bindS_def)

text \<open>
  \<^bold>\<open>C28.\<close> The errors of a read, for any controller: no sector count above eight, no
  buffer that is too short and no uninitialised port reaches the controller, and a command
  that the controller does not complete within ten million polls is reported as a timeout.
\<close>

theorem read_sectors_errors:
  assumes "8 < count \<or> count \<noteq> 0 \<and> (length buf < unat count * 512 \<or> PORT s = None \<or>
      (\<forall>p. PORT s = Some p \<longrightarrow> (\<forall>h t m d. stuck (fst (hba (port p) h t m d)))))"
  shows "fst (read_sectors hba lba count buf s) = Inl (Err
    (if 8 < count then ''AHCI: max 8 sectors per call''
     else if length buf < unat count * 512 then ''AHCI: buf too small''
     else if PORT s = None then ''AHCI not initialized''
     else ''AHCI read timed out''))"
proof -
  consider "8 < count" | "\<not> 8 < count" "count \<noteq> 0" "length buf < unat count * 512"
    | "\<not> 8 < count" "count \<noteq> 0" "\<not> length buf < unat count * 512" "PORT s = None"
    | p where "\<not> 8 < count" "count \<noteq> 0" "\<not> length buf < unat count * 512" "PORT s = Some p"
        "\<And>h t m d. stuck (fst (hba (port p) h t m d))"
    using assms by (cases "PORT s") auto
  then show ?thesis
  proof cases
    case 4
    let ?t = "fill_table ATA_CMD_READ_DMA_EXT lba count (dma_phys p) (unat count * 512) (ctable s)"
    let ?s = "s\<lparr>ctable := ?t, header := (header s)\<lparr>flags := 5, prdtl := 1, prdbc := 0\<rparr>\<rparr>"
    have "fst (bindS (issue hba ''AHCI read timed out'' p)
        (\<lambda>_ s. (Inr (put_at 0 (take (unat count * 512) (pages s (dma_phys p))) buf), s)) ?s) = Inl (Err ''AHCI read timed out'')"
      by (rule bindS_fst_throw, rule issue_stuck, rule 4(5))
    moreover have "bindS port_state g s = g p s" for g :: "PortState \<Rightarrow> ('a ahci, u8 list) op"
      by (rule bindS_ok) (simp add: port_state_def 4(4))
    moreover have "bindS (\<lambda>s. (Inr (), u s)) g s = g () (u s)" for u :: "'a ahci \<Rightarrow> 'a ahci" and g :: "unit \<Rightarrow> ('a ahci, u8 list) op"
      by (rule bindS_ok) simp
    ultimately show ?thesis using 4(1-4) by (simp add: read_sectors_def Let_def)
  qed (auto simp: read_sectors_def Let_def bindS_def port_state_def)
qed

theorem read_sectors_errors_witness:
  "fst (read_sectors (\<lambda>p h t m d. (\<lparr>px_is = (\<lambda>_. 0), px_ci = (\<lambda>_. 1), px_tfd = 0\<rparr>, m, d)) 5 1 (replicate 512 0) demo_ahci) =
    Inl (Err ''AHCI read timed out'')"
proof -
  let ?hba = "\<lambda>p h t m d. (\<lparr>px_is = (\<lambda>_. 0), px_ci = (\<lambda>_. 1), px_tfd = 0\<rparr>, m, d) :: reply \<times> _"
  have "\<forall>p. PORT demo_ahci = Some p \<longrightarrow> (\<forall>h t m d. stuck (fst (?hba (port p) h t m d)))" by (simp add: stuck_def)
  then show ?thesis
    using read_sectors_errors [of 1 "replicate 512 0" demo_ahci ?hba 5] by (simp add: demo_ahci_def)
qed

end
