(* ===== verification/Fat32Dir.thy ===== *)
theory Fat32Dir
  imports Volume
begin

text \<open>
  Directories of a FAT32 volume: 8.3 names, the walk over the entries of a directory chain
  against a reference that lists the live entries, and the operations built on it.
\<close>

section \<open>Names\<close>

lemma ascii_case:
  "to_ascii_lowercase (to_ascii_uppercase b) = to_ascii_lowercase b"
  "to_ascii_lowercase (to_ascii_lowercase b) = to_ascii_lowercase b"
  "to_ascii_uppercase b = 32 \<longleftrightarrow> b = 32"
  "b < 128 \<Longrightarrow> to_ascii_lowercase b < 128"
proof -
  have s: "unat (b - 32) = unat b - 32" if "97 \<le> unat b" using that by (simp add: unat_sub word_le_nat_alt)
  have a: "unat (b + 32) = unat b + 32" if "unat b \<le> 90" using that by (simp add: unat_word_ariths)
  show "to_ascii_lowercase (to_ascii_uppercase b) = to_ascii_lowercase b"
    using s by (auto simp: to_ascii_lowercase_def to_ascii_uppercase_def word_le_nat_alt)
  show "to_ascii_lowercase (to_ascii_lowercase b) = to_ascii_lowercase b"
    using a by (auto simp: to_ascii_lowercase_def word_le_nat_alt)
  show "to_ascii_uppercase b = 32 \<longleftrightarrow> b = 32"
    using s by (auto simp: to_ascii_uppercase_def word_le_nat_alt word_unat_eq_iff)
  show "to_ascii_lowercase b < 128" if "b < 128"
    using that a by (auto simp: to_ascii_lowercase_def word_less_nat_alt word_le_nat_alt)
qed

lemma trim_spaces_pad:
  assumes "xs = [] \<or> last xs \<noteq> 32"
  shows "trim_spaces (xs @ replicate k 32) = xs"
proof -
  have "dropWhile (\<lambda>b. b = 32) (replicate k 32 @ rev xs) = dropWhile (\<lambda>b. b = 32) (rev xs)"
    by (induction k) simp_all
  moreover have "dropWhile (\<lambda>b. b = 32) (rev xs) = rev xs" using assms by (cases xs rule: rev_cases) auto
  ultimately show ?thesis by (simp add: trim_spaces_def)
qed

lemma lower_utf8:
  "\<forall>b \<in> set xs. b < 128 \<Longrightarrow>
   concat (map (\<lambda>b. utf8_latin1 (to_ascii_lowercase b)) (map to_ascii_uppercase xs)) = map to_ascii_lowercase xs"
  by (induction xs) (simp_all add: ascii_case utf8_latin1_def)

lemma split_last_dot_join:
  assumes "split_last_dot name = (base, ext)"
  shows "name = (if 46 \<in> set name then base @ 46 # ext else base)" and "46 \<notin> set ext"
    and "46 \<notin> set name \<Longrightarrow> ext = []"
proof -
  have "name = base @ 46 # ext \<and> 46 \<notin> set ext" if d: "46 \<in> set name"
  proof -
    let ?r = "rev name"
    have e: "ext = rev (takeWhile (\<lambda>b. b \<noteq> 46) ?r)" "base = take (length name - length ext - 1) name"
      using assms d by (auto simp: split_last_dot_def Let_def)
    have "dropWhile (\<lambda>b. b \<noteq> 46) ?r \<noteq> []" using d by auto
    then obtain t where t: "dropWhile (\<lambda>b. b \<noteq> 46) ?r = 46 # t"
      using hd_dropWhile [of "\<lambda>b. b \<noteq> 46" ?r] by (metis list.collapse)
    have "?r = rev ext @ 46 # t" using takeWhile_dropWhile_id [of "\<lambda>b. b \<noteq> 46" ?r] t e(1) by simp
    then have n: "name = rev t @ 46 # ext" by (metis rev_append rev_rev_ident rev.simps(2) append.assoc append_Cons append_Nil)
    then have "base = rev t" using e(2) by simp
    moreover have "46 \<notin> set ext" using e(1) by (auto dest: set_takeWhileD)
    ultimately show ?thesis using n by simp
  qed
  moreover have "base = name" "ext = []" if "46 \<notin> set name" using assms that by (auto simp: split_last_dot_def)
  ultimately show "name = (if 46 \<in> set name then base @ 46 # ext else base)" "46 \<notin> set ext"
    "46 \<notin> set name \<Longrightarrow> ext = []" by (cases "46 \<in> set name"; simp)+
qed

text \<open>
  Names that survive the conversion: ASCII, no space at the end of the base or the
  extension, and no dot at the end.
\<close>

definition plain_8_3 :: "str \<Rightarrow> bool" where
  "plain_8_3 name \<longleftrightarrow> (\<forall>b \<in> set name. b < 128) \<and>
     (let (base, ext) = split_last_dot name
      in base \<noteq> [] \<and> last base \<noteq> 32 \<and> (46 \<in> set name \<longrightarrow> ext \<noteq> [] \<and> last ext \<noteq> 32))"

lemma to_8_3_fields:
  assumes "to_8_3 name = Some n" and "split_last_dot name = (base, ext)"
  shows "length n = 11" and "base \<noteq> []" and "length base \<le> 8" and "length ext \<le> 3"
    and "take 8 n = map to_ascii_uppercase base @ replicate (8 - length base) 32"
    and "drop 8 n = map to_ascii_uppercase ext @ replicate (3 - length ext) 32"
  using assms by (auto simp: to_8_3_def put_at_def split: if_splits)

lemma decode_to_8_3:
  assumes "to_8_3 name = Some n" and "plain_8_3 name"
  shows "map to_ascii_lowercase (decode_8_3 (n @ rest)) = map to_ascii_lowercase name"
proof -
  obtain base ext where be: "split_last_dot name = (base, ext)" by (cases "split_last_dot name")
  note f = to_8_3_fields [OF assms(1) be] and j = split_last_dot_join [OF be]
  have p: "\<forall>b \<in> set name. b < 128" "last base \<noteq> 32" "46 \<in> set name \<Longrightarrow> ext \<noteq> [] \<and> last ext \<noteq> 32"
    using assms(2) be by (auto simp: plain_8_3_def)
  have sub: "set base \<subseteq> set name" "set ext \<subseteq> set name" using j by (auto split: if_splits)
  have "subslice 0 8 (n @ rest) = map to_ascii_uppercase base @ replicate (8 - length base) 32"
    using f(1,5) by (simp add: subslice_def)
  moreover have "last (map to_ascii_uppercase base) \<noteq> 32" using p(2) f(2) by (simp add: last_map ascii_case)
  ultimately have nm: "trim_spaces (subslice 0 8 (n @ rest)) = map to_ascii_uppercase base" by (simp add: trim_spaces_pad)
  have "subslice 8 3 (n @ rest) = map to_ascii_uppercase ext @ replicate (3 - length ext) 32"
    using f(1,4,6) by (simp add: subslice_def)
  moreover have "map to_ascii_uppercase ext = [] \<or> last (map to_ascii_uppercase ext) \<noteq> 32"
    using p(3) j(3) by (cases "46 \<in> set name") (auto simp: last_map ascii_case)
  ultimately have ex: "trim_spaces (subslice 8 3 (n @ rest)) = map to_ascii_uppercase ext" by (simp only: trim_spaces_pad)
  have lo: "concat (map (\<lambda>b. utf8_latin1 (to_ascii_lowercase b)) (map to_ascii_uppercase xs)) = map to_ascii_lowercase xs"
    if "set xs \<subseteq> set name" for xs using that p(1) by (intro lower_utf8) auto
  have "decode_8_3 (n @ rest) = map to_ascii_lowercase (if 46 \<in> set name then base @ 46 # ext else base)"
    using p(3) j(3) lo [OF sub(1)] lo [OF sub(2)]
    by (cases "46 \<in> set name") (auto simp: decode_8_3_def nm ex Let_def to_ascii_lowercase_def simp del: map_map)
  then show ?thesis using j(1) by (simp add: ascii_case o_def split: if_splits)
qed

text \<open>
  An 8.3 entry answers to the name it was made from: for every name that \<open>to_8_3\<close>
  accepts and that has no trailing dot, no trailing space and only ASCII characters, an entry
  that starts with the eleven bytes \<open>to_8_3\<close> returns matches the name, in any letter case.
\<close>

lemma to_8_3_matches:
  assumes "to_8_3 name = Some n" and "plain_8_3 name"
  shows "length n = 11 \<and> name_matches (n @ rest) name \<and> name_matches (n @ rest) (map to_ascii_uppercase name)"
proof -
  obtain base ext where be: "split_last_dot name = (base, ext)" by (cases "split_last_dot name")
  show ?thesis
    using decode_to_8_3 [OF assms, of rest] to_8_3_fields(1) [OF assms(1) be]
    by (simp add: name_matches_def eq_ignore_ascii_case_def ascii_case o_def)
qed

section \<open>Walking a directory\<close>

text \<open>The entries of a directory chain with their places, and the live ones among them.\<close>

definition dir_entries :: "Fat32Fs \<Rightarrow> (nat \<Rightarrow> sector) \<Rightarrow> u32 list \<Rightarrow> (u32 \<times> nat \<times> u8 list) list" where
  "dir_entries f d cs = concat (map (\<lambda>c. map (\<lambda>i. (c, i, subslice i 32 (clus f d c))) (slots (cluster_size_bytes f))) cs)"

definition skipped_entry :: "u8 list \<Rightarrow> bool" where
  "skipped_entry e \<longleftrightarrow> e ! 0 = 0xE5 \<or> e ! 0x0B = 0x0F \<or> e ! 0x0B AND 0x08 \<noteq> 0"

definition live :: "(u32 \<times> nat \<times> u8 list) list \<Rightarrow> (u32 \<times> nat \<times> u8 list) list" where
  "live es = filter (\<lambda>(_, _, e). \<not> skipped_entry e) (takeWhile (\<lambda>(_, _, e). e ! 0 \<noteq> 0) es)"

primrec visit_all :: "('acc, 'a) visitor \<Rightarrow> (u32 \<times> nat \<times> u8 list) list \<Rightarrow> 'acc \<Rightarrow> 'a option \<times> 'acc" where
  "visit_all v [] acc = (None, acc)"
| "visit_all v (x # xs) acc = (case x of (c, i, e) \<Rightarrow> (case v e c i acc of
       (Some r, acc') \<Rightarrow> (Some r, acc') | (None, acc') \<Rightarrow> visit_all v xs acc'))"

lemma walk_slots_live:
  "(case walk_slots v buf c is acc of
      (EndOfDir, a) \<Rightarrow> (None, a) | (Hit r, a) \<Rightarrow> (Some r, a) | (MoreEntries, a) \<Rightarrow> visit_all v (live es) a) =
   visit_all v (live (map (\<lambda>i. (c, i, subslice i 32 buf)) is @ es)) acc"
  by (induction "is" arbitrary: acc) (auto simp: live_def skipped_entry_def Let_def split: option.splits prod.splits)

lemma chain_length:
  assumes "chain h c cs"
  shows "length cs \<le> chain_fuel"
proof -
  have "unat ` set cs \<subseteq> {..< 2 ^ 28}"
  proof
    fix k assume "k \<in> unat ` set cs"
    then obtain x where x: "x \<in> set cs" "k = unat x" by auto
    then have "x < 0x0FFFFFF8" using chain_in_chain [OF assms] by (auto simp: in_chain_def)
    then have "unat x < unat (0x0FFFFFF8 :: u32)" by (simp only: word_less_nat_alt)
    then show "k \<in> {..< 2 ^ 28}" using x(2) by simp
  qed
  then have "card (unat ` set cs) \<le> 2 ^ 28" using card_mono [of "{..< 2 ^ 28}" "unat ` set cs"] by simp
  moreover have "card (unat ` set cs) = card (set cs)" by (intro card_image inj_onI) (simp add: word_unat_eq_iff)
  ultimately show ?thesis using distinct_card [OF chain_distinct [OF assms]] by (simp add: chain_fuel_def)
qed

context block_device
begin

lemma walk_chain_view:
  assumes "view s n d" and "geom f n" and "chain (fat f d) c cs" and "\<forall>x \<in> set cs. in_data f n x" and "length cs \<le> fuel"
  shows "okS (walk_chain dev f v fuel c acc) s (\<lambda>r s'. r = visit_all v (live (dir_entries f d cs)) acc \<and> view s' n d)"
  using assms
proof (induction cs arbitrary: c fuel s acc)
  case Nil
  then show ?case by (subst walk_chain.simps) (auto simp: ok_simps dir_entries_def live_def dest: chain_end)
next
  case (Cons x xs)
  have c: "c = x" "in_chain x" "in_data f n x" using Cons.prems by auto
  have k: "fuel \<noteq> 0" "length xs \<le> fuel - 1" using Cons.prems(5) by auto
  let ?cb = "cluster_size_bytes f"
  let ?w = "walk_slots v (clus f d x) x (slots ?cb) acc"
  have vis: "visit_all v (live (dir_entries f d (x # xs))) acc = (case ?w of
      (EndOfDir, a) \<Rightarrow> (None, a) | (Hit r, a) \<Rightarrow> (Some r, a) | (MoreEntries, a) \<Rightarrow> visit_all v (live (dir_entries f d xs)) a)"
    by (simp add: walk_slots_live dir_entries_def)
  have IH: "okS (walk_chain dev f v (fuel - 1) (fat f d x) a) s'
      (\<lambda>r s'. r = visit_all v (live (dir_entries f d xs)) a \<and> view s' n d)" if "view s' n d" for s' a
    using Cons.IH [OF that Cons.prems(2) _ _ k(2)] Cons.prems(3,4) by simp
  have step: "okS (case ?w of (EndOfDir, acc') \<Rightarrow> retS (None, acc') | (Hit v, acc') \<Rightarrow> retS (Some v, acc')
      | (MoreEntries, acc') \<Rightarrow> bindS (next_cluster dev f x) (\<lambda>nxt. walk_chain dev f v (fuel - 1) nxt acc')) s'
      (\<lambda>r s'. r = visit_all v (live (dir_entries f d (x # xs))) acc \<and> view s' n d)" if "view s' n d" for s'
    using that vis
    by (auto simp: ok_simps simp del: One_nat_def split: prod.splits walked.splits
        intro!: okS_mono [OF next_cluster_view [OF that Cons.prems(2) in_data_bound [OF c(3)]]] IH)
  show ?case
    unfolding c(1) using c(2) k step
    by (subst walk_chain.simps) (auto simp: Let_def okS_bind simp del: One_nat_def
        intro!: okS_mono [OF read_cluster_view [OF Cons.prems(1,2) c(3)]])
qed

lemma walk_dir_view:
  assumes "view s n d" and "geom (node_fs nd) n" and "file_chain (node_fs nd) n d (first_cluster nd) cs" and "cs \<noteq> []"
  shows "okS (walk_dir dev nd v acc) s (\<lambda>r s'. r = visit_all v (live (dir_entries (node_fs nd) d cs)) acc \<and> view s' n d)"
proof -
  have c: "chain (fat (node_fs nd) d) (first_cluster nd) cs" "\<forall>x \<in> set cs. in_data (node_fs nd) n x"
    using assms(3,4) by (auto simp: file_chain_def split: if_splits)
  show ?thesis unfolding walk_dir_def by (rule walk_chain_view [OF assms(1,2) c chain_length [OF c(1)]])
qed

lemma readdir_view:
  assumes "view s n d" and "geom (node_fs nd) n" and "file_chain (node_fs nd) n d (first_cluster nd) cs" and "cs \<noteq> []"
    and "is_dir nd"
  shows "okS (fat_readdir dev nd) s (\<lambda>r s'. r = map (\<lambda>(_, _, e). decode_8_3 e) (live (dir_entries (node_fs nd) d cs)) \<and> view s' n d)"
proof -
  have "visit_all (\<lambda>e _ _ names. (None :: unit option, names @ [decode_8_3 e])) es acc =
      (None, acc @ map (\<lambda>(_, _, e). decode_8_3 e) es)" for es acc
    by (induction es arbitrary: acc) auto
  then show ?thesis using assms(5)
    by (auto simp: fat_readdir_def ok_simps intro!: okS_mono [OF walk_dir_view [OF assms(1-4)]])
qed

lemma finddir_view:
  assumes "view s n d" and "geom (node_fs nd) n" and "file_chain (node_fs nd) n d (first_cluster nd) cs" and "cs \<noteq> []"
    and "is_dir nd" and "find (\<lambda>(_, _, e). name_matches e name) (live (dir_entries (node_fs nd) d cs)) = Some (c, i, e)"
  shows "okS (fat_finddir dev nd name) s (\<lambda>r s'. r = (if e ! 0x0B AND 0x10 \<noteq> 0 then dir_node (node_fs nd) (first_cluster_of e) c i
      else file_node (node_fs nd) (first_cluster_of e) (entry_size e) c i) \<and> view s' n d)"
proof -
  let ?v = "\<lambda>e cluster i acc. (if \<not> name_matches e name then None
     else Some (first_cluster_of e, entry_size e, e ! 0x0B AND 0x10 \<noteq> 0, cluster, i), acc)"
  have vis: "visit_all ?v es () = (map_option (\<lambda>(c, i, e). (first_cluster_of e, entry_size e, e ! 0x0B AND 0x10 \<noteq> 0, c, i))
      (find (\<lambda>(_, _, e). name_matches e name) es), ())" for es
    by (induction es) auto
  show ?thesis using assms(5,6) vis
    by (auto simp: fat_finddir_def ok_simps intro!: okS_mono [OF walk_dir_view [OF assms(1-4)]])
qed

end

section \<open>Creating a file\<close>

lemma slots_bound: "i \<in> set (slots cb) \<Longrightarrow> i + 32 \<le> cb \<and> 32 dvd i"
proof -
  assume "i \<in> set (slots cb)"
  then obtain k where k: "i = 32 * k" "k < cb div 32" by (auto simp: slots_def)
  then have "32 * Suc k \<le> 32 * (cb div 32)" by (intro mult_le_mono2) simp
  then show ?thesis using k(1) mult_div_mod_eq [of 32 cb] by simp
qed

lemma distinct_slots: "distinct (slots cb)"
  by (simp add: slots_def distinct_map inj_on_def)

lemma slots_next:
  assumes "slots cb = is @ i # js"
  shows "js = [] \<longleftrightarrow> \<not> i + 64 \<le> cb" and "js \<noteq> [] \<Longrightarrow> hd js = i + 32"
proof -
  let ?k = "length is"
  have len: "length (slots cb) = cb div 32" by (simp add: slots_def)
  have k: "?k < cb div 32" using arg_cong [OF assms, of length] len by simp
  have "i = slots cb ! ?k" using assms by simp
  then have i: "i = 32 * ?k" using k by (simp add: slots_def)
  have "length js = cb div 32 - Suc ?k" using arg_cong [OF assms, of length] len by simp
  then have "js = [] \<longleftrightarrow> cb div 32 \<le> Suc ?k" by auto
  also have "\<dots> \<longleftrightarrow> \<not> i + 64 \<le> cb"
    unfolding i using less_eq_div_iff_mult_less_eq [of 32 "Suc (Suc ?k)" cb] by auto
  finally show "js = [] \<longleftrightarrow> \<not> i + 64 \<le> cb" .
  assume "js \<noteq> []"
  then have "hd js = slots cb ! Suc ?k" using assms by (simp add: nth_append hd_conv_nth)
  moreover have "Suc ?k < cb div 32" using \<open>js \<noteq> []\<close> \<open>length js = cb div 32 - Suc ?k\<close> by (cases js) auto
  ultimately show "hd js = i + 32" unfolding i by (simp add: slots_def)
qed

lemma dir_entries_split:
  assumes "cs = as @ c # bs" and "slots (cluster_size_bytes f) = is @ i # js"
  shows "dir_entries f d cs = (dir_entries f d as @ map (\<lambda>i. (c, i, subslice i 32 (clus f d c))) is) @
    (c, i, subslice i 32 (clus f d c)) # (map (\<lambda>i. (c, i, subslice i 32 (clus f d c))) js @ dir_entries f d bs)"
  using assms by (simp add: dir_entries_def)

lemma dir_entries_cong: "(\<And>c. c \<in> set cs \<Longrightarrow> clus f d c = clus f d' c) \<Longrightarrow> dir_entries f d cs = dir_entries f d' cs"
  by (induction cs) (auto simp: dir_entries_def)

definition free_entry :: "u32 \<times> nat \<times> u8 list \<Rightarrow> bool" where
  "free_entry = (\<lambda>(_, _, e). e ! 0 = 0 \<or> e ! 0 = 0xE5)"

lemma find_split: "find P xs = Some x \<Longrightarrow> \<exists>ys zs. xs = ys @ x # zs \<and> (\<forall>y \<in> set ys. \<not> P y) \<and> P x"
proof (induction xs)
  case (Cons a xs)
  show ?case
  proof (cases "P a")
    case True
    then show ?thesis using Cons.prems by (intro exI [of _ "[]"] exI [of _ xs]) simp
  next
    case False
    then obtain ys zs where "xs = ys @ x # zs" "\<forall>y \<in> set ys. \<not> P y" "P x" using Cons by auto
    then show ?thesis using False by (intro exI [of _ "a # ys"] exI [of _ zs]) simp
  qed
qed simp

lemma fst_dir_entries: "map (\<lambda>(c, i, _). (c, i)) (dir_entries f d cs) = concat (map (\<lambda>c. map (Pair c) (slots (cluster_size_bytes f))) cs)"
  by (induction cs) (simp_all add: dir_entries_def)

lemma distinct_dir_entries: "distinct cs \<Longrightarrow> distinct (dir_entries f d cs)"
proof -
  assume "distinct cs"
  then have "distinct (concat (map (\<lambda>c. map (Pair c) (slots (cluster_size_bytes f))) cs))"
    by (induction cs) (auto simp: distinct_map distinct_slots inj_on_def)
  then show ?thesis using distinct_map [of "\<lambda>(c, i, _). (c, i)" "dir_entries f d cs"] by (simp add: fst_dir_entries)
qed

text \<open>The first free slot of a directory: its cluster and place, and the entries before it.\<close>

lemma first_free_slot:
  assumes "distinct cs" and "find free_entry (dir_entries f d cs) = Some (c, i, e)"
  obtains as bs "is" js where "cs = as @ c # bs" and "slots (cluster_size_bytes f) = is @ i # js"
    and "e = subslice i 32 (clus f d c)"
    and "\<forall>x \<in> set (dir_entries f d as @ map (\<lambda>i. (c, i, subslice i 32 (clus f d c))) is). \<not> free_entry x"
proof -
  obtain ys zs where sp: "dir_entries f d cs = ys @ (c, i, e) # zs" "\<forall>y \<in> set ys. \<not> free_entry y"
    using find_split [OF assms(2)] by blast
  then have "(c, i, e) \<in> set (dir_entries f d cs)" by simp
  then have m: "c \<in> set cs" "i \<in> set (slots (cluster_size_bytes f))" "e = subslice i 32 (clus f d c)"
    by (auto simp: dir_entries_def)
  obtain as bs where as: "cs = as @ c # bs" using m(1) by (meson split_list)
  obtain "is" js where sl: "slots (cluster_size_bytes f) = is @ i # js" using m(2) by (meson split_list)
  let ?X = "dir_entries f d as @ map (\<lambda>i. (c, i, subslice i 32 (clus f d c))) is"
  have eq: "ys @ (c, i, e) # zs = ?X @ (c, i, e) # (map (\<lambda>i. (c, i, subslice i 32 (clus f d c))) js @ dir_entries f d bs)"
    using dir_entries_split [OF as sl, of d] sp(1) m(3) by simp
  have "distinct (ys @ (c, i, e) # zs)" using distinct_dir_entries [OF assms(1)] sp(1) by metis
  then have "ys = ?X" using append_Cons_eq_iff [THEN iffD1, OF _ _ eq] by simp
  then show ?thesis using that [OF as sl m(3)] sp(2) by blast
qed

text \<open>The cluster after a creation in slot \<open>i\<close>.\<close>

definition filled :: "nat \<Rightarrow> nat \<Rightarrow> u8 list \<Rightarrow> u8 list \<Rightarrow> u8 list" where
  "filled cb i ne b = (if i + 64 \<le> cb then (put_at i ne b)[i + 32 := 0] else put_at i ne b)"

text \<open>The directory after the slot was filled with \<open>ne\<close> and the next one cut off.\<close>

lemma live_after_fill:
  assumes "distinct cs" and "find free_entry (dir_entries f d cs) = Some (c, i, e)"
    and "clus f d' = (clus f d)(c := filled (cluster_size_bytes f) i ne (clus f d c))"
    and "length ne = 32" and "ne ! 0 \<noteq> 0" and "\<not> skipped_entry ne" and "length (clus f d c) = cluster_size_bytes f"
    and "i + 64 \<le> cluster_size_bytes f \<or> c = last cs"
  shows "live (dir_entries f d' cs) =
    filter (\<lambda>(_, _, e). \<not> skipped_entry e) (takeWhile (\<lambda>x. \<not> free_entry x) (dir_entries f d cs)) @ [(c, i, ne)]"
proof -
  let ?cb = "cluster_size_bytes f"
  obtain as bs "is" js where sp: "cs = as @ c # bs" "slots ?cb = is @ i # js" "e = subslice i 32 (clus f d c)"
    "\<forall>x \<in> set (dir_entries f d as @ map (\<lambda>i. (c, i, subslice i 32 (clus f d c))) is). \<not> free_entry x"
    using first_free_slot [OF assms(1,2)] .
  let ?X = "dir_entries f d as @ map (\<lambda>i. (c, i, subslice i 32 (clus f d c))) is"
  have ib: "i + 32 \<le> ?cb" using slots_bound [of i ?cb] sp(2) by simp
  have disj: "j + 32 \<le> i \<or> i + 32 \<le> j" if "j \<in> set (slots ?cb)" "j \<noteq> i" for j
    using slots_bound [of j ?cb] slots_bound [of i ?cb] that sp(2) by (auto elim!: dvdE)
  have nth': "clus f d' c ! k = (if i \<le> k \<and> k < i + 32 then ne ! (k - i)
      else if k = i + 32 \<and> i + 64 \<le> ?cb then 0 else clus f d c ! k)" if "k < ?cb" for k
    using that ib assms(3,4,7) by (auto simp: filled_def nth_put_at nth_list_update)
  have l': "length (clus f d' c) = ?cb" using assms(3,4,7) ib by (simp add: filled_def)
  have here: "subslice i 32 (clus f d' c) = ne"
    using assms(4) l' ib by (intro nth_equalityI) (simp_all add: nth')
  have before: "subslice j 32 (clus f d' c) = subslice j 32 (clus f d c)" if "j \<in> set is" for j
  proof -
    have j: "j \<in> set (slots ?cb)" "j \<noteq> i" using that sp(2) distinct_slots [of ?cb] by auto
    have "sorted (slots ?cb)" by (simp add: slots_def sorted_iff_nth_mono)
    then have "j \<le> i" using that sp(2) by (auto simp: sorted_append)
    then have "j + 32 \<le> i" using disj [OF j] by auto
    then show ?thesis using l' ib assms(7) by (intro nth_equalityI) (simp_all add: nth')
  qed
  have asX: "dir_entries f d' as = dir_entries f d as"
    using assms(1,3) sp(1) by (intro dir_entries_cong) auto
  have isX: "map (\<lambda>i. (c, i, subslice i 32 (clus f d' c))) is = map (\<lambda>i. (c, i, subslice i 32 (clus f d c))) is"
    using before by simp
  let ?Y = "map (\<lambda>i. (c, i, subslice i 32 (clus f d' c))) js @ dir_entries f d' bs"
  have new: "dir_entries f d' cs = ?X @ (c, i, ne) # ?Y"
    using dir_entries_split [OF sp(1,2), of d'] here asX isX by simp
  have stop: "takeWhile (\<lambda>(_, _, e). e ! 0 \<noteq> 0) ?Y = []"
  proof (cases "i + 64 \<le> ?cb")
    case True
    then have js: "js \<noteq> []" "hd js = i + 32" using slots_next [OF sp(2)] by auto
    have "subslice (i + 32) 32 (clus f d' c) ! 0 = 0" using True l' nth' [of "i + 32"] by simp
    then show ?thesis using js by (cases js) auto
  next
    case False
    then have "c = last cs" using assms(8) by simp
    then have "bs = []" using sp(1) assms(1) by (cases bs rule: rev_cases) auto
    then show ?thesis using False slots_next [OF sp(2)] by (simp add: dir_entries_def)
  qed
  have nz: "\<forall>x \<in> set ?X. case x of (_, _, e) \<Rightarrow> e ! 0 \<noteq> 0" using sp(4) unfolding free_entry_def by fastforce
  have "takeWhile (\<lambda>(_, _, e). e ! 0 \<noteq> 0) (dir_entries f d' cs) = ?X @ [(c, i, ne)]"
    unfolding new using nz stop assms(5) by (subst takeWhile_append2) auto
  moreover have "takeWhile (\<lambda>x. \<not> free_entry x) (dir_entries f d cs) = ?X"
  proof -
    have "free_entry (c, i, e)" using find_split [OF assms(2)] by blast
    then show ?thesis unfolding dir_entries_split [OF sp(1,2)] sp(3) [symmetric] using sp(4)
      by (subst takeWhile_append2) auto
  qed
  ultimately show ?thesis using assms(6) by (simp add: live_def)
qed

text \<open>The entry \<open>create\<close> writes: the name, the archive attribute, and zeros.\<close>

definition new_entry :: "u8 list \<Rightarrow> u8 list" where
  "new_entry name83 = (put_at 0 name83 (replicate 32 0))[0x0B := 0x20]"

lemma new_entry_fields:
  assumes "length n = 11"
  shows "length (new_entry n) = 32" and "new_entry n = n @ (0x20 # replicate 20 0)" and "new_entry n ! 0 = n ! 0"
    and "new_entry n ! 0x0B = 0x20" and "first_cluster_of (new_entry n) = 0" and "entry_size (new_entry n) = 0"
proof -
  show l: "length (new_entry n) = 32" using assms by (simp add: new_entry_def)
  have nth: "new_entry n ! i = (if i < 11 then n ! i else if i = 11 then 0x20 else 0)" if "i < 32" for i
    using that assms by (auto simp: new_entry_def nth_put_at nth_list_update)
  show "new_entry n = n @ (0x20 # replicate 20 0)"
    using assms l by (intro nth_equalityI) (auto simp: nth nth_append nth_Cons')
  show "new_entry n ! 0 = n ! 0" "new_entry n ! 0x0B = 0x20" by (simp_all add: nth)
  show "first_cluster_of (new_entry n) = 0" "entry_size (new_entry n) = 0"
    by (simp_all add: first_cluster_of_def entry_size_def u32_at_def nth)
qed

lemma dir_entries_Cons:
  "dir_entries f d (x # xs) = map (\<lambda>i. (x, i, subslice i 32 (clus f d x))) (slots (cluster_size_bytes f)) @ dir_entries f d xs"
  by (simp add: dir_entries_def)

context block_device
begin

lemma free_slot_view:
  assumes "view s n d" and "geom f n" and "chain (fat f d) c cs" and "\<forall>x \<in> set cs. in_data f n x" and "length cs \<le> fuel"
    and "find free_entry (dir_entries f d cs) = Some (c', i, e)"
  shows "okS (free_slot_chain dev f fuel c lc) s (\<lambda>r s'. r = (c', i) \<and> view s' n d)"
  using assms
proof (induction cs arbitrary: c fuel s lc)
  case Nil
  then show ?case by (simp add: dir_entries_def)
next
  case (Cons x xs)
  have c: "c = x" "in_chain x" "in_data f n x" using Cons.prems by auto
  have k: "fuel \<noteq> 0" "length xs \<le> fuel - 1" using Cons.prems(5) by auto
  let ?cb = "cluster_size_bytes f" and ?b = "clus f d x"
  have lb: "length ?b = ?cb" by (rule length_clus [OF view_secs [OF Cons.prems(1)] in_data_2 [OF c(3)]])
  have ent: "free_entry (x, i, subslice i 32 ?b) \<longleftrightarrow> ?b ! i = 0 \<or> ?b ! i = 0xE5" if "i \<in> set (slots ?cb)" for i
    using slots_bound [OF that] lb by (simp add: free_entry_def)
  have "find free_entry (map (\<lambda>i. (x, i, subslice i 32 ?b)) is @ ys) = (case find (\<lambda>i. ?b ! i = 0 \<or> ?b ! i = 0xE5) is of
      Some i \<Rightarrow> Some (x, i, subslice i 32 ?b) | None \<Rightarrow> find free_entry ys)" if "set is \<subseteq> set (slots ?cb)" for "is" ys
    using that by (induction "is") (auto simp: ent)
  then have fnd: "find free_entry (dir_entries f d (x # xs)) = (case find (\<lambda>i. ?b ! i = 0 \<or> ?b ! i = 0xE5) (slots ?cb) of
      Some i \<Rightarrow> Some (x, i, subslice i 32 ?b) | None \<Rightarrow> find free_entry (dir_entries f d xs))"
    by (simp add: dir_entries_Cons)
  have step: "okS (case find (\<lambda>i. ?b ! i = 0 \<or> ?b ! i = 0xE5) (slots ?cb) of Some i \<Rightarrow> retS (x, i)
      | None \<Rightarrow> bindS (next_cluster dev f x) (\<lambda>nxt. free_slot_chain dev f (fuel - 1) nxt x)) s'
      (\<lambda>r s'. r = (c', i) \<and> view s' n d)" if v: "view s' n d" for s'
  proof (cases "find (\<lambda>i. ?b ! i = 0 \<or> ?b ! i = 0xE5) (slots ?cb)")
    case None
    then have f': "find free_entry (dir_entries f d xs) = Some (c', i, e)" using fnd Cons.prems(6) by simp
    have "okS (free_slot_chain dev f (fuel - 1) (fat f d x) x) s'' (\<lambda>r s'. r = (c', i) \<and> view s' n d)" if "view s'' n d" for s''
      using Cons.IH [OF that Cons.prems(2) _ _ k(2) f'] Cons.prems(3,4) by simp
    then show ?thesis using None
      by (auto simp: okS_bind simp del: One_nat_def
          intro!: okS_mono [OF next_cluster_view [OF v Cons.prems(2) in_data_bound [OF c(3)]]])
  next
    case (Some j)
    then show ?thesis using fnd Cons.prems(6) v by (simp add: ok_simps)
  qed
  show ?case
    unfolding c(1) using c(2) k step
    by (subst free_slot_chain.simps) (auto simp: Let_def okS_bind simp del: One_nat_def
        intro!: okS_mono [OF read_cluster_view [OF Cons.prems(1,2) c(3)]])
qed

lemma create_view:
  assumes "view s n d" and "geom (node_fs nd) n" and "file_chain (node_fs nd) n d (first_cluster nd) cs" and "cs \<noteq> []"
    and "is_dir nd" and "to_8_3 name = Some n83"
    and "find (\<lambda>(_, _, e). name_matches e name) (live (dir_entries (node_fs nd) d cs)) = None"
    and "find free_entry (dir_entries (node_fs nd) d cs) = Some (c, i, e)"
  shows "okS (fat_create dev nd name) s (\<lambda>r s'. r = file_node (node_fs nd) 0 0 c i \<and>
    view s' n (put_clus (node_fs nd) c (filled (cluster_size_bytes (node_fs nd)) i (new_entry n83) (clus (node_fs nd) d c)) d))"
proof -
  let ?f = "node_fs nd" and ?cb = "cluster_size_bytes (node_fs nd)"
  have ch: "chain (fat ?f d) (first_cluster nd) cs" "\<forall>x \<in> set cs. in_data ?f n x"
    using assms(3,4) by (auto simp: file_chain_def split: if_splits)
  have m: "c \<in> set cs" "i \<in> set (slots ?cb)"
    using find_split [OF assms(8)] in_set_conv_decomp [of "(c, i, e)" "dir_entries ?f d cs"] by (auto simp: dir_entries_def)
  have c: "in_data ?f n c" using ch(2) m(1) by blast
  have lb: "length (clus ?f d c) = ?cb" by (rule length_clus [OF view_secs [OF assms(1)] in_data_2 [OF c]])
  obtain base ext where "split_last_dot name = (base, ext)" by (cases "split_last_dot name")
  then have ln: "length (new_entry n83) = 32" by (intro new_entry_fields(1) to_8_3_fields(1) [OF assms(6)])
  have ib: "i + 32 \<le> ?cb" using slots_bound [OF m(2)] by simp
  have cp: "copy_into i (new_entry n83) (clus ?f d c) = Inr (put_at i (new_entry n83) (clus ?f d c))"
    using ib ln lb by (simp add: copy_into_def)
  have lf: "length (filled ?cb i (new_entry n83) (clus ?f d c)) = ?cb" using ib ln lb by (simp add: filled_def)
  have vis: "fst (visit_all (\<lambda>e _ _ acc. (if name_matches e name then Some () else None, acc)) es ()) =
      map_option (\<lambda>_. ()) (find (\<lambda>(_, _, e). name_matches e name) es)" for es
    by (induction es) auto
  have 1: "okS (walk_dir dev nd (\<lambda>e _ _ acc. (if name_matches e name then Some () else None, acc)) ()) s
      (\<lambda>r s'. fst r = None \<and> view s' n d)"
    by (rule okS_mono [OF walk_dir_view [OF assms(1-4)]]) (simp add: vis assms(7))
  have 2: "okS (find_free_slot dev nd) s' (\<lambda>r s'. r = (c, i) \<and> view s' n d)" if "view s' n d" for s'
    unfolding find_free_slot_def by (rule free_slot_view [OF that assms(2) ch chain_length [OF ch(1)] assms(8)])
  have 3: "okS (write_cluster dev ?f c (filled ?cb i (new_entry n83) (clus ?f d c))) s'
      (\<lambda>_ s'. view s' n (put_clus ?f c (filled ?cb i (new_entry n83) (clus ?f d c)) d))" if "view s' n d" for s'
    by (rule write_cluster_view [OF that assms(2) c lf])
  have 4: "okS (read_cluster dev ?f c (replicate ?cb 0)) s' (\<lambda>r s'. r = clus ?f d c \<and> view s' n d)" if "view s' n d" for s'
    by (rule read_cluster_view [OF that assms(2) c]) simp
  show ?thesis
    using assms(5,6)
    by (auto simp: fat_create_def okS_bind okS_map_err Let_def okS_ret okS_lift new_entry_def [symmetric] cp filled_def [symmetric]
        split: prod.splits intro!: okS_mono [OF 1] okS_mono [OF 2] okS_mono [OF 4] okS_mono [OF 3])
qed

end

text \<open>The directory \<open>nd\<close>, its chain \<open>cs\<close>, and the first free slot \<open>(c, i)\<close> in it for a new name.\<close>

definition dir_on :: "('d \<Rightarrow> nat \<Rightarrow> sector) \<Rightarrow> ('d \<Rightarrow> nat) \<Rightarrow> 'd ahci \<Rightarrow> Fat32Node \<Rightarrow> u32 list \<Rightarrow> bool" where
  "dir_on sect cap s nd cs \<longleftrightarrow> port_ready s \<and> geom (node_fs nd) (cap (media s)) \<and> is_dir nd \<and> cs \<noteq> [] \<and>
     file_chain (node_fs nd) (cap (media s)) (sect (media s)) (first_cluster nd) cs"

definition entries_on :: "('d \<Rightarrow> nat \<Rightarrow> sector) \<Rightarrow> 'd ahci \<Rightarrow> Fat32Node \<Rightarrow> u32 list \<Rightarrow> (u32 \<times> nat \<times> u8 list) list" where
  "entries_on sect s nd cs = dir_entries (node_fs nd) (sect (media s)) cs"

definition new_name :: "('d \<Rightarrow> nat \<Rightarrow> sector) \<Rightarrow> 'd ahci \<Rightarrow> Fat32Node \<Rightarrow> u32 list \<Rightarrow> str \<Rightarrow> bool" where
  "new_name sect s nd cs name \<longleftrightarrow> plain_8_3 name \<and> 0 \<notin> set name \<and>
     find (\<lambda>(_, _, e). name_matches e name) (live (entries_on sect s nd cs)) = None"

lemma to_8_3_head:
  assumes "to_8_3 name = Some n" and "plain_8_3 name" and "0 \<notin> set name"
  shows "n ! 0 \<noteq> 0" and "n ! 0 \<noteq> 0xE5"
proof -
  obtain base ext where be: "split_last_dot name = (base, ext)" by (cases "split_last_dot name")
  note f = to_8_3_fields [OF assms(1) be] and j = split_last_dot_join [OF be]
  have b: "base ! 0 \<in> set name" using j(1) f(2) by (cases base) (auto split: if_splits)
  have "take 8 n ! 0 = to_ascii_uppercase (base ! 0)" unfolding f(5) using f(2) by (simp add: nth_append)
  then have n: "n ! 0 = to_ascii_uppercase (base ! 0)" by simp
  have lt: "base ! 0 < 128" "base ! 0 \<noteq> 0" using assms(2,3) b by (auto simp: plain_8_3_def)
  have u: "unat (base ! 0) < 128" "unat (base ! 0) \<noteq> 0" using lt by (auto simp: word_less_nat_alt unat_eq_0)
  have "unat (to_ascii_uppercase (base ! 0)) < 128 \<and> unat (to_ascii_uppercase (base ! 0)) \<noteq> 0"
    using u by (auto simp: to_ascii_uppercase_def word_le_nat_alt unat_sub)
  then show "n ! 0 \<noteq> 0" "n ! 0 \<noteq> 0xE5" unfolding n by (auto simp: word_unat_eq_iff)
qed

lemma not_skipped_new:
  assumes "to_8_3 name = Some n" and "plain_8_3 name" and "0 \<notin> set name"
  shows "length n = 11" and "new_entry n ! 0 \<noteq> 0" and "\<not> skipped_entry (new_entry n)"
proof -
  obtain base ext where be: "split_last_dot name = (base, ext)" by (cases "split_last_dot name")
  show l: "length n = 11" by (rule to_8_3_fields(1) [OF assms(1) be])
  show "new_entry n ! 0 \<noteq> 0" "\<not> skipped_entry (new_entry n)"
    using to_8_3_head [OF assms] new_entry_fields [OF l] by (simp_all add: skipped_entry_def)
qed

lemma find_new_entry:
  fixes c :: u32 and i :: nat
  assumes "to_8_3 name = Some n83" and "plain_8_3 name" and "0 \<notin> set name"
    and "find (\<lambda>(_, _, e). name_matches e name) es = None"
  shows "find (\<lambda>(_, _, e). name_matches e name) (es @ [(c, i, new_entry n83)]) = Some (c, i, new_entry n83)"
proof -
  have nm: "name_matches (new_entry n83) name"
    using decode_to_8_3 [OF assms(1,2), of "0x20 # replicate 20 0"]
    by (simp add: name_matches_def eq_ignore_ascii_case_def new_entry_fields(2) [OF not_skipped_new(1) [OF assms(1-3)]])
  have "find P (xs @ [y]) = Some y" if "find P xs = None" "P y" for P xs and y :: "u32 \<times> nat \<times> u8 list"
    using that by (induction xs) (auto split: if_splits)
  with nm assms(4) show ?thesis by simp
qed

lemma live_until_end:
  assumes "find free_entry es = Some (c, i, e)" and "e ! 0 = 0"
  shows "live es = filter (\<lambda>(_, _, e). \<not> skipped_entry e) (takeWhile (\<lambda>x. \<not> free_entry x) es)"
proof -
  obtain ys zs where sp: "es = ys @ (c, i, e) # zs" "\<forall>y \<in> set ys. \<not> free_entry y" "free_entry (c, i, e)"
    using find_split [OF assms(1)] by blast
  have "\<forall>y \<in> set ys. case y of (_, _, e) \<Rightarrow> e ! 0 \<noteq> 0" using sp(2) unfolding free_entry_def by fastforce
  then have "takeWhile (\<lambda>(_, _, e). e ! 0 \<noteq> 0) es = ys" unfolding sp(1) using assms(2) by (subst takeWhile_append2) auto
  moreover have "takeWhile (\<lambda>x. \<not> free_entry x) es = ys" unfolding sp(1) using sp(2,3) by (subst takeWhile_append2) auto
  ultimately show ?thesis by (simp add: live_def)
qed

context ata_drive
begin

text \<open>After a creation, the live entries are the ones before the slot and the new one.\<close>

lemma ahci_create:
  assumes "dir_on sect cap s nd cs" and "to_8_3 name = Some n83" and "new_name sect s nd cs name"
    and "find free_entry (entries_on sect s nd cs) = Some (c, i, e)"
    and "i + 64 \<le> cluster_size_bytes (node_fs nd) \<or> c = last cs"
  obtains s' where "fat_create (ahci_device hba) nd name s = (Inr (file_node (node_fs nd) 0 0 c i), s')"
    and "dir_on sect cap s' nd cs"
    and "live (entries_on sect s' nd cs) = filter (\<lambda>(_, _, e). \<not> skipped_entry e)
      (takeWhile (\<lambda>x. \<not> free_entry x) (entries_on sect s nd cs)) @ [(c, i, new_entry n83)]"
    and "sect (media s') = put_clus (node_fs nd) c
      (filled (cluster_size_bytes (node_fs nd)) i (new_entry n83) (clus (node_fs nd) (sect (media s)) c)) (sect (media s))"
    and "cap (media s') = cap (media s)"
proof -
  let ?f = "node_fs nd" and ?d = "sect (media s)" and ?n = "cap (media s)" and ?cb = "cluster_size_bytes (node_fs nd)"
  have a: "port_ready s" "geom ?f ?n" "file_chain ?f ?n ?d (first_cluster nd) cs" "cs \<noteq> []" "is_dir nd"
    using assms(1) by (auto simp: dir_on_def)
  have nn: "plain_8_3 name" "0 \<notin> set name"
    "find (\<lambda>(_, _, e). name_matches e name) (live (dir_entries ?f ?d cs)) = None"
    using assms(3) by (auto simp: new_name_def entries_on_def)
  have fe: "find free_entry (dir_entries ?f ?d cs) = Some (c, i, e)" using assms(4) by (simp add: entries_on_def)
  note ns = not_skipped_new [OF assms(2) nn(1,2)]
  let ?b = "filled ?cb i (new_entry n83) (clus ?f ?d c)"
  obtain s' where r: "fat_create (ahci_device hba) nd name s = (Inr (file_node ?f 0 0 c i), s')"
    "view s' ?n (put_clus ?f c ?b ?d)"
    using create_view [OF port_view [OF a(1)] a(2-5) assms(2) nn(3) fe] by (auto simp: okS_def)
  have dis: "distinct cs" by (rule file_chain_distinct [OF a(3)])
  obtain as bs "is" js where sp: "cs = as @ c # bs" "slots ?cb = is @ i # js" using first_free_slot [OF dis fe] by metis
  have c: "in_data ?f ?n c" using a(3,4) sp(1) by (auto simp: file_chain_def split: if_splits)
  have lc: "length (clus ?f ?d c) = ?cb" by (rule length_clus [OF media_secs in_data_2 [OF c]])
  have ib: "i + 32 \<le> ?cb" using slots_bound [of i ?cb] sp(2) by simp
  have lb: "length ?b = ?cb" using ib lc new_entry_fields(1) [OF ns(1)] by (simp add: filled_def)
  have cl: "clus ?f (put_clus ?f c ?b ?d) = (clus ?f ?d)(c := ?b)"
    using lb in_data_2 [OF c] by (simp add: clus_put_clus cluster_size_bytes_def)
  have m: "sect (media s') = put_clus ?f c ?b ?d" "cap (media s') = ?n" "port_ready s'" using r(2) by (auto simp: view_def)
  show ?thesis
  proof (rule that [OF r(1) _ _ m(1,2)])
    show "dir_on sect cap s' nd cs" using a m by (simp add: dir_on_def file_chain_put_clus)
    show "live (entries_on sect s' nd cs) = filter (\<lambda>(_, _, e). \<not> skipped_entry e)
      (takeWhile (\<lambda>x. \<not> free_entry x) (entries_on sect s nd cs)) @ [(c, i, new_entry n83)]"
      unfolding entries_on_def m(1)
      by (rule live_after_fill [OF dis fe cl new_entry_fields(1) [OF ns(1)] ns(2,3) lc assms(5)])
  qed
qed

lemma ahci_finddir:
  assumes "dir_on sect cap s nd cs" and "find (\<lambda>(_, _, e). name_matches e name) (live (entries_on sect s nd cs)) = Some (c, i, e)"
  obtains s' where "fat_finddir (ahci_device hba) nd name s = (Inr (if e ! 0x0B AND 0x10 \<noteq> 0
      then dir_node (node_fs nd) (first_cluster_of e) c i
      else file_node (node_fs nd) (first_cluster_of e) (entry_size e) c i), s')" and "sect (media s') = sect (media s)"
proof -
  let ?f = "node_fs nd" and ?d = "sect (media s)" and ?n = "cap (media s)"
  have a: "port_ready s" "geom ?f ?n" "file_chain ?f ?n ?d (first_cluster nd) cs" "cs \<noteq> []" "is_dir nd"
    using assms(1) by (auto simp: dir_on_def)
  show ?thesis
    using finddir_view [OF port_view [OF a(1)] a(2-5) assms(2) [unfolded entries_on_def]] that
    by (auto simp: okS_def view_def)
qed

lemma ahci_readdir:
  assumes "dir_on sect cap s nd cs"
  obtains s' where "fat_readdir (ahci_device hba) nd s = (Inr (map (\<lambda>(_, _, e). decode_8_3 e) (live (entries_on sect s nd cs))), s')"
    and "sect (media s') = sect (media s)"
proof -
  let ?f = "node_fs nd" and ?d = "sect (media s)" and ?n = "cap (media s)"
  have a: "port_ready s" "geom ?f ?n" "file_chain ?f ?n ?d (first_cluster nd) cs" "cs \<noteq> []" "is_dir nd"
    using assms by (auto simp: dir_on_def)
  show ?thesis
    using readdir_view [OF port_view [OF a(1)] a(2-5)] that by (auto simp: okS_def view_def entries_on_def)
qed

lemma ahci_create_find:
  assumes "dir_on sect cap s nd cs" and "to_8_3 name = Some n83" and "new_name sect s nd cs name"
    and "find free_entry (entries_on sect s nd cs) = Some (c, i, e)" and "e ! 0 = 0"
    and "i + 64 \<le> cluster_size_bytes (node_fs nd) \<or> c = last cs"
  obtains s' s'' where "fat_create (ahci_device hba) nd name s = (Inr (file_node (node_fs nd) 0 0 c i), s')"
    and "live (entries_on sect s' nd cs) = live (entries_on sect s nd cs) @ [(c, i, new_entry n83)]"
    and "fat_finddir (ahci_device hba) nd name s' = (Inr (file_node (node_fs nd) 0 0 c i), s'')"
proof -
  obtain s' where r: "fat_create (ahci_device hba) nd name s = (Inr (file_node (node_fs nd) 0 0 c i), s')"
    "dir_on sect cap s' nd cs" "live (entries_on sect s' nd cs) = filter (\<lambda>(_, _, e). \<not> skipped_entry e)
      (takeWhile (\<lambda>x. \<not> free_entry x) (entries_on sect s nd cs)) @ [(c, i, new_entry n83)]"
    by (rule ahci_create [OF assms(1-4,6)])
  have l: "live (entries_on sect s' nd cs) = live (entries_on sect s nd cs) @ [(c, i, new_entry n83)]"
    using r(3) live_until_end [OF assms(4,5)] by simp
  have nn: "plain_8_3 name" "0 \<notin> set name" "find (\<lambda>(_, _, e). name_matches e name) (live (entries_on sect s nd cs)) = None"
    using assms(3) by (auto simp: new_name_def)
  note ne = new_entry_fields [OF not_skipped_new(1) [OF assms(2) nn(1,2)]]
  have "find (\<lambda>(_, _, e). name_matches e name) (live (entries_on sect s' nd cs)) = Some (c, i, new_entry n83)"
    unfolding l by (rule find_new_entry [OF assms(2) nn])
  from ahci_finddir [OF r(2) this] obtain s'' where
    "fat_finddir (ahci_device hba) nd name s' = (Inr (file_node (node_fs nd) 0 0 c i), s'')"
    using ne(4-6) by auto
  then show ?thesis using that [OF r(1) l] by blast
qed

end

section \<open>The directory operations on the kernel's device\<close>

definition demo_root :: Fat32Node where
  "demo_root = root demo_fs"

lemma demo_root_simps: "node_fs demo_root = demo_fs" "is_dir demo_root" "first_cluster demo_root = 3"
  by (simp_all add: demo_root_def root_def dir_node_def demo_fs_def)

lemma demo_dir_on: "dir_on ram_sect ram_cap demo_ahci demo_root [3]"
  using demo_in_data [of 3] by (simp add: dir_on_def demo_facts demo_root_simps file_chain_Cons demo_fat)

lemma demo_clus3: "clus demo_fs d 3 = d 3"
  by (simp add: clus_def first_sector_def demo_fs_def)

lemma demo_slots: "slots 512 = 0 # 32 # map (\<lambda>k. 32 * k) [2 ..< 16]"
  by (simp add: slots_def upt_rec)


lemma demo_live: "live (entries_on ram_sect demo_ahci demo_root [3]) = []"
  "find free_entry (entries_on ram_sect demo_ahci demo_root [3]) = Some (3, 0, replicate 32 0)"
  by (simp_all add: live_def entries_on_def dir_entries_def demo_root_simps demo_facts demo_slots demo_clus3
      demo_media_def subslice_def free_entry_def)


text \<open>
  Creating a file in a directory whose first free slot is its end mark appends
  exactly the new entry to the live entries of the directory, and looking the name up
  afterwards finds the file that \<open>fat_create\<close> returned, empty and without a cluster.
\<close>

lemma fat_create_then_find:
  assumes "ata_drive hba sect cap" and "dir_on sect cap s nd cs" and "to_8_3 name = Some n83"
    and "new_name sect s nd cs name" and "find free_entry (entries_on sect s nd cs) = Some (c, i, e)" and "e ! 0 = 0"
    and "i + 64 \<le> cluster_size_bytes (node_fs nd) \<or> c = last cs"
  shows "\<exists>s' s''. fat_create (ahci_device hba) nd name s = (Inr (file_node (node_fs nd) 0 0 c i), s') \<and>
    live (entries_on sect s' nd cs) = live (entries_on sect s nd cs) @ [(c, i, new_entry n83)] \<and>
    fat_finddir (ahci_device hba) nd name s' = (Inr (file_node (node_fs nd) 0 0 c i), s'')"
  by (rule ata_drive.ahci_create_find [OF assms]) blast

lemma name_a: "to_8_3 [97] = Some (65 # replicate 10 32)" "plain_8_3 [97]"
proof -
  have "replicate 7 (32 :: u8) @ replicate 3 32 = replicate 10 32" by (simp flip: replicate_add)
  then show "to_8_3 [97] = Some (65 # replicate 10 32)"
    by (simp add: to_8_3_def split_last_dot_def to_ascii_uppercase_def put_at_def)
qed (simp add: plain_8_3_def split_last_dot_def)

text \<open>
  \<^bold>\<open>C30.\<close> Creating a file in the slot of a deleted entry cuts the directory off: when the
  first free slot holds a deleted entry that is not the last of its cluster, the live
  entries after \<open>fat_create\<close> are the ones before the slot and the new one; every entry
  behind the slot is lost.
\<close>

theorem fat_create_truncates:
  assumes "ata_drive hba sect cap" and "dir_on sect cap s nd cs" and "to_8_3 name = Some n83"
    and "new_name sect s nd cs name" and "find free_entry (entries_on sect s nd cs) = Some (c, i, e)" and "e ! 0 = 0xE5"
    and "i + 64 \<le> cluster_size_bytes (node_fs nd)"
  shows "\<exists>s'. fat_create (ahci_device hba) nd name s = (Inr (file_node (node_fs nd) 0 0 c i), s') \<and>
    live (entries_on sect s' nd cs) = filter (\<lambda>(_, _, e). \<not> skipped_entry e)
      (takeWhile (\<lambda>x. \<not> free_entry x) (entries_on sect s nd cs)) @ [(c, i, new_entry n83)]"
  by (rule ata_drive.ahci_create [OF assms(1-5) disjI1 [OF assms(7)]]) blast

definition used_dir :: "u8 list" where
  "used_dir = (0xE5 # replicate 31 0) @ (66 # replicate 10 32 @ 0x20 # replicate 20 0) @ replicate 448 0"

definition used_media :: "nat \<Rightarrow> sector" where
  "used_media k = (if k = 3 then used_dir else demo_media k)"

lemma used_facts:
  "ram_sect used_media = used_media" "ram_cap used_media = 65536"
  "file_chain demo_fs 65536 used_media 3 [3]"
proof -
  show "ram_sect used_media = used_media" "ram_cap used_media = 65536"
    by (auto simp: ram_sect_def used_media_def used_dir_def demo_media_def demo_table_def ram_cap_def fun_eq_iff)
  have "fat demo_fs used_media 3 = 0x0FFFFFFF"
    by (simp add: fat_def fat_raw_def demo_fs_def used_media_def demo_media_def demo_table_def u32_at_def)
  then show "file_chain demo_fs 65536 used_media 3 [3]" using demo_in_data [of 3] by (simp add: file_chain_Cons)
qed

lemma used_entries:
  "entries_on ram_sect (demo_ahci\<lparr>media := used_media\<rparr>) demo_root [3] =
     (3, 0, 0xE5 # replicate 31 0) # (3, 32, 66 # replicate 10 32 @ 0x20 # replicate 20 0) #
     map (\<lambda>i. (3, i, subslice i 32 used_dir)) (map (\<lambda>k. 32 * k) [2 ..< 16])"
  by (simp add: entries_on_def dir_entries_def demo_root_simps used_facts demo_facts demo_slots demo_clus3
      used_media_def subslice_def) (simp add: used_dir_def)

theorem fat_create_truncates_witness:
  "\<exists>s'. fat_create (ahci_device ram_hba) demo_root [97] (demo_ahci\<lparr>media := used_media\<rparr>) =
      (Inr (file_node demo_fs 0 0 3 0), s') \<and>
    (3, 32, 66 # replicate 10 32 @ 0x20 # replicate 20 0) \<in> set (live (entries_on ram_sect (demo_ahci\<lparr>media := used_media\<rparr>) demo_root [3])) \<and>
    live (entries_on ram_sect s' demo_root [3]) = [(3, 0, new_entry (65 # replicate 10 32))]"
proof -
  let ?s = "demo_ahci\<lparr>media := used_media\<rparr>"
  have on: "dir_on ram_sect ram_cap ?s demo_root [3]"
    by (simp add: dir_on_def demo_root_simps used_facts demo_geom) (simp add: port_ready_def demo_ahci_def)
  have z: "subslice 64 32 used_dir ! 0 = 0" by (simp add: used_dir_def subslice_def)
  have up: "[2 ..< 16] = (2 :: nat) # [3 ..< 16]" by (simp add: upt_rec)
  have lv: "live (entries_on ram_sect ?s demo_root [3]) = [(3, 32, 66 # replicate 10 32 @ 0x20 # replicate 20 0)]"
    unfolding used_entries up by (simp add: live_def skipped_entry_def z nth_append)
  have ff: "find free_entry (entries_on ram_sect ?s demo_root [3]) = Some (3, 0, 0xE5 # replicate 31 0)"
    unfolding used_entries by (simp add: free_entry_def)
  have tw: "takeWhile (\<lambda>x. \<not> free_entry x) (entries_on ram_sect ?s demo_root [3]) = []"
    unfolding used_entries by (simp add: free_entry_def)
  have "decode_8_3 (66 # replicate 10 32 @ 0x20 # replicate 20 0) = [98]"
    using trim_spaces_pad [of "[66]" 7] trim_spaces_pad [of "[]" 3]
    by (simp add: decode_8_3_def subslice_def utf8_latin1_def to_ascii_lowercase_def)
  then have nn: "new_name ram_sect ?s demo_root [3] [97]"
    by (simp add: new_name_def name_a lv name_matches_def eq_ignore_ascii_case_def to_ascii_lowercase_def)
  show ?thesis
    using fat_create_truncates [OF ram.ata_drive_axioms on name_a(1) nn ff]
    by (simp add: lv tw demo_root_simps demo_facts)
qed

end
