(* ===== verification/Vfs.thy ===== *)
theory Vfs
  imports Ramfs Fat32Dir
begin

text \<open>
  The virtual file system (ross-kernel/src/vfs.rs): nodes of the ram disk and of the FAT32 volume behind
  one trait, the two roots, and the resolution of paths. The nodes are values, as in the
  theories of the file systems; the operations run on the state of the block device.
\<close>

section \<open>Nodes\<close>

text \<open>\<^verbatim>\<open>dyn VfsNode\<close>: the implementations of the trait in the kernel.\<close>

datatype VfsNode = TarFileNode TarFile | TarFsNode TarFileSystem | FatNode Fat32Node

primrec vn_attribute :: "VfsNode \<Rightarrow> Stat" where
  "vn_attribute (TarFileNode f) = tarfile_attribute f"
| "vn_attribute (TarFsNode t) = tarfs_attribute t"
| "vn_attribute (FatNode n) = fat_attribute n"

primrec vn_read :: "'s device \<Rightarrow> VfsNode \<Rightarrow> nat \<Rightarrow> u8 list \<Rightarrow> ('s, nat \<times> u8 list) op" where
  "vn_read dev (TarFileNode f) off buffer = liftS (tarfile_read f off buffer)"
| "vn_read dev (TarFsNode t) off buffer = liftS (tarfs_read t off buffer)"
| "vn_read dev (FatNode n) off buffer = fat_read dev n off buffer"

primrec vn_readdir :: "'s device \<Rightarrow> VfsNode \<Rightarrow> ('s, str list) op" where
  "vn_readdir dev (TarFileNode f) = liftS (tarfile_readdir f)"
| "vn_readdir dev (TarFsNode t) = liftS (tarfs_readdir t)"
| "vn_readdir dev (FatNode n) = fat_readdir dev n"

primrec vn_finddir :: "'s device \<Rightarrow> VfsNode \<Rightarrow> str \<Rightarrow> ('s, VfsNode) op" where
  "vn_finddir dev (TarFileNode f) name = bindS (liftS (tarfile_finddir f name)) (\<lambda>n. retS (TarFileNode n))"
| "vn_finddir dev (TarFsNode t) name = bindS (liftS (tarfs_finddir t name)) (\<lambda>n. retS (TarFileNode n))"
| "vn_finddir dev (FatNode n) name = bindS (fat_finddir dev n name) (\<lambda>n. retS (FatNode n))"

text \<open>\<^verbatim>\<open>write\<close> and \<^verbatim>\<open>create\<close> have a default, which FAT32 alone overrides.\<close>

definition write_default :: "nat \<Rightarrow> u8 list \<Rightarrow> ('s, nat) op" where
  "write_default off data = throwS (Err '''')"

definition create_default :: "str \<Rightarrow> ('s, VfsNode) op" where
  "create_default name = throwS (Err '''')"

definition vn_write :: "'s device \<Rightarrow> nat \<Rightarrow> u8 list \<Rightarrow> ('s \<times> VfsNode, nat) op" where
  "vn_write dev off data = (\<lambda>(s, node). case node of
       FatNode n \<Rightarrow> (case fat_write dev off data (s, n) of (r, (s', n')) \<Rightarrow> (r, (s', FatNode n')))
     | _ \<Rightarrow> write_default off data (s, node))"

primrec vn_create :: "'s device \<Rightarrow> VfsNode \<Rightarrow> str \<Rightarrow> ('s, VfsNode) op" where
  "vn_create dev (TarFileNode f) name = create_default name"
| "vn_create dev (TarFsNode t) name = create_default name"
| "vn_create dev (FatNode n) name = bindS (fat_create dev n name) (\<lambda>n. retS (FatNode n))"

section \<open>Roots and paths\<close>

record VfsRoot =
  root_node :: "VfsNode option"
  disk_root :: "VfsNode option"

definition VFS :: VfsRoot where
  "VFS = \<lparr>root_node = None, disk_root = None\<rparr>"

definition vfs_init :: "VfsNode \<Rightarrow> VfsRoot \<Rightarrow> VfsRoot" where
  "vfs_init r v = v\<lparr>root_node := Some r\<rparr>"

definition mount_disk :: "VfsNode \<Rightarrow> VfsRoot \<Rightarrow> VfsRoot" where
  "mount_disk r v = v\<lparr>disk_root := Some r\<rparr>"

text \<open>\<^verbatim>\<open>str::split\<close> at an ASCII character: the empty string has one, empty, piece.\<close>

fun split_on :: "u8 \<Rightarrow> str \<Rightarrow> str list" where
  "split_on c [] = [[]]"
| "split_on c (b # s) = (if b = c then [] # split_on c s
     else case split_on c s of w # ws \<Rightarrow> (b # w) # ws | [] \<Rightarrow> [[b]])"

definition strip_prefix :: "str \<Rightarrow> str \<Rightarrow> str option" where
  "strip_prefix p s = (if starts_with p s then Some (drop (length p) s) else None)"

definition mnt_disk :: str where
  "mnt_disk = [0x6D, 0x6E, 0x74, 0x2F, 0x64, 0x69, 0x73, 0x6B]"

definition components :: "str \<Rightarrow> str list" where
  "components path = filter (\<lambda>w. w \<noteq> []) (split_on 0x2F path)"

primrec find_all :: "'s device \<Rightarrow> VfsNode \<Rightarrow> str list \<Rightarrow> ('s, VfsNode) op" where
  "find_all dev current [] = retS current"
| "find_all dev current (w # ws) = bindS (vn_finddir dev current w) (\<lambda>n. find_all dev n ws)"

definition vfs_open :: "'s device \<Rightarrow> VfsRoot \<Rightarrow> str \<Rightarrow> ('s, VfsNode) op" where
  "vfs_open dev vfs path =
     (let trimmed = trim_start_matches 0x2F path in
      case strip_prefix mnt_disk trimmed of
        Some rest \<Rightarrow>
          (case disk_root vfs of
             None \<Rightarrow> throwS (Err '''')
           | Some current \<Rightarrow> find_all dev current (components (trim_start_matches 0x2F rest)))
      | None \<Rightarrow>
          (case root_node vfs of
             None \<Rightarrow> throwS (Err '''')
           | Some current \<Rightarrow> find_all dev current (components trimmed)))"

text \<open>\<^verbatim>\<open>rfind('/')\<close> with the two sides of the separator.\<close>

definition split_last_slash :: "str \<Rightarrow> str \<times> str" where
  "split_last_slash s =
     (if 0x2F \<in> set s then
        (let name = rev (takeWhile (\<lambda>b. b \<noteq> 0x2F) (rev s)) in (take (length s - length name - 1) s, name))
      else ([], s))"

definition vfs_create :: "'s device \<Rightarrow> VfsRoot \<Rightarrow> str \<Rightarrow> ('s, VfsNode) op" where
  "vfs_create dev vfs path =
     (let trimmed = trim_start_matches 0x2F path;
          (parent_path, name) = split_last_slash trimmed in
      bindS (if parent_path = [] then vfs_open dev vfs [0x2F] else vfs_open dev vfs parent_path) (\<lambda>parent.
        vn_create dev parent name))"

section \<open>Components of a path\<close>

lemma split_on_ne [simp]: "split_on c s \<noteq> []"
  by (induction s) (auto split: list.splits)

lemma split_on_free: "c \<notin> set s \<Longrightarrow> split_on c s = [s]"
  by (induction s) auto

lemma split_on_join: "c \<notin> set w \<Longrightarrow> split_on c (w @ c # s) = w # split_on c s"
  by (induction w) auto

lemma components_slash [simp]: "components (0x2F # s) = components s"
  by (simp add: components_def)

lemma components_Nil [simp]: "components [] = []"
  by (simp add: components_def)

lemma components_trim [simp]: "components (trim_start_matches 0x2F s) = components s"
  by (induction s) (auto simp: trim_start_matches_def)

lemma components_word: "0x2F \<notin> set w \<Longrightarrow> w \<noteq> [] \<Longrightarrow> components w = [w]"
  by (simp add: components_def split_on_free)

lemma components_join: "0x2F \<notin> set w \<Longrightarrow> w \<noteq> [] \<Longrightarrow> components (w @ 0x2F # s) = w # components s"
  by (simp add: components_def split_on_join)

text \<open>A path is built from its components, whatever the number of slashes between them.\<close>

lemma split_on_parts: "w \<in> set (split_on c s) \<Longrightarrow> c \<notin> set w"
proof (induction s arbitrary: w)
  case (Cons b s)
  obtain v vs where "split_on c s = v # vs" using split_on_ne [of c s] by (cases "split_on c s") auto
  with Cons show ?case by (auto split: if_splits)
qed simp

lemma components_parts: "w \<in> set (components s) \<Longrightarrow> w \<noteq> [] \<and> 0x2F \<notin> set w"
  using split_on_parts by (auto simp: components_def)

section \<open>The ram disk\<close>

lemma find_all_file: "find_all dev (TarFileNode f) ws s = (if ws = [] then Inr (TarFileNode f) else Inl (Err ''''), s)"
  by (cases ws) (simp_all add: tarfile_finddir_def bindS_def)

definition look_up :: "TarFileSystem \<Rightarrow> str list \<Rightarrow> VfsNode option" where
  "look_up t ws = (case ws of
     [] \<Rightarrow> Some (TarFsNode t)
   | [w] \<Rightarrow> map_option TarFileNode (find (\<lambda>f. tar_name f = w) (tar_files t))
   | _ \<Rightarrow> None)"

lemma find_all_ramdisk:
  "find_all dev (TarFsNode t) ws s = (case look_up t ws of Some n \<Rightarrow> Inr n | None \<Rightarrow> Inl (Err ''''), s)"
proof (cases ws)
  case (Cons w ws')
  then show ?thesis
    by (cases "find (\<lambda>f. tar_name f = w) (tar_files t)"; cases ws')
      (simp_all add: look_up_def tarfs_finddir_def tarfile_finddir_def bindS_def)
qed (simp add: look_up_def)

lemma open_ramdisk:
  assumes "root_node v = Some (TarFsNode t)" and "\<not> starts_with mnt_disk (trim_start_matches 0x2F path)"
  shows "vfs_open dev v path s = (case look_up t (components path) of Some n \<Rightarrow> Inr n | None \<Rightarrow> Inl (Err ''''), s)"
  using assms by (simp add: vfs_open_def strip_prefix_def find_all_ramdisk)

text \<open>
  \<^bold>\<open>C31.\<close> Opening a path of the ram disk, outside \<^verbatim>\<open>mnt/disk\<close>: slashes before, after and between the components
  do not matter; no component is the root, one component is the first file of that name, and
  two or more are always an error, also where the archive holds a file with exactly that
  path as its name.
\<close>

theorem vfs_open_ramdisk:
  assumes "root_node v = Some (TarFsNode t)" and "\<not> starts_with mnt_disk (trim_start_matches 0x2F path)"
  shows "vfs_open dev v path s =
    (case components path of
       [] \<Rightarrow> (Inr (TarFsNode t), s)
     | [w] \<Rightarrow> (case find (\<lambda>f. tar_name f = w) (tar_files t) of
           Some f \<Rightarrow> (Inr (TarFileNode f), s)
         | None \<Rightarrow> (Inl (Err ''''), s))
     | w # w' # ws \<Rightarrow> (Inl (Err ''''), s))"
  using open_ramdisk [OF assms, of dev s] by (auto simp: look_up_def split: list.splits option.splits)

definition demo_vfs :: VfsRoot where
  "demo_vfs = mount_disk (FatNode demo_root) (vfs_init (TarFsNode \<lparr>tar_files = [demo_motd]\<rparr>) VFS)"

lemma demo_vfs_simps [simp]: "root_node demo_vfs = Some (TarFsNode \<lparr>tar_files = [demo_motd]\<rparr>)"
  "disk_root demo_vfs = Some (FatNode demo_root)"
  by (simp_all add: demo_vfs_def vfs_init_def mount_disk_def)

theorem vfs_open_ramdisk_witness:
  "vfs_open (ahci_device ram_hba) demo_vfs [0x2F, 0x6D, 0x6F, 0x74, 0x64] demo_ahci = (Inr (TarFileNode demo_motd), demo_ahci)"
  using vfs_open_ramdisk [of demo_vfs "\<lparr>tar_files = [demo_motd]\<rparr>" "[0x2F, 0x6D, 0x6F, 0x74, 0x64]" "ahci_device ram_hba" demo_ahci]
  by (simp add: trim_start_matches_def starts_with_def mnt_disk_def components_def demo_motd_def)

section \<open>The disk\<close>

text \<open>The path \<^verbatim>\<open>/mnt/disk/name\<close>.\<close>

definition disk_path :: "str \<Rightarrow> str" where
  "disk_path name = 0x2F # mnt_disk @ 0x2F # name"

lemma mnt_disk_simps [simp]: "trim_start_matches 0x2F (0x2F # s) = trim_start_matches 0x2F s"
  "trim_start_matches 0x2F (mnt_disk @ s) = mnt_disk @ s" "trim_start_matches 0x2F mnt_disk = mnt_disk"
  "trim_start_matches 0x2F [] = []" "strip_prefix mnt_disk (mnt_disk @ s) = Some s" "strip_prefix mnt_disk mnt_disk = Some []" "mnt_disk \<noteq> []"
  by (simp_all add: trim_start_matches_def mnt_disk_def strip_prefix_def starts_with_def)

lemma vfs_open_disk:
  assumes "disk_root v = Some r" and "0x2F \<notin> set name" and "name \<noteq> []"
  shows "vfs_open dev v (disk_path name) = vn_finddir dev r name"
  using assms by (auto simp: vfs_open_def disk_path_def components_word bindS_def fun_eq_iff split: prod.splits sum.splits)

lemma vfs_create_disk:
  assumes "disk_root v = Some r" and "0x2F \<notin> set name" and "name \<noteq> []"
  shows "vfs_create dev v (disk_path name) = vn_create dev r name"
proof -
  have tw: "takeWhile (\<lambda>b. b \<noteq> 0x2F) (rev (mnt_disk @ 0x2F # name)) = rev name"
    using assms(2) by (simp add: takeWhile_append)
  have "split_last_slash (mnt_disk @ 0x2F # name) = (mnt_disk, name)"
    unfolding split_last_slash_def tw by simp
  then show ?thesis
    using assms by (simp add: vfs_create_def disk_path_def Let_def vfs_open_def bindS_def)
qed

end
