(* ===== verification/Store.thy ===== *)
theory Store
  imports Vfs
begin

text \<open>
  The file systems together: a file that is created, written and opened again, through the
  virtual file system, FAT32 and the SATA driver.
\<close>

section \<open>Rewriting one entry of a directory\<close>

definition set_slot :: "u32 \<Rightarrow> nat \<Rightarrow> u8 list \<Rightarrow> u32 \<times> nat \<times> u8 list \<Rightarrow> u32 \<times> nat \<times> u8 list" where
  "set_slot c i e = (\<lambda>(c', i', x). if c' = c \<and> i' = i then (c, i, e) else (c', i', x))"

lemma set_slot_here [simp]: "set_slot c i e (c, i, x) = (c, i, e)"
  by (simp add: set_slot_def)

lemma dir_entries_set_slot:
  assumes "i \<in> set (slots (cluster_size_bytes f))" and "length e = 32" and "length (clus f d c) = cluster_size_bytes f"
    and "clus f d' c = put_at i e (clus f d c)" and "\<forall>x \<in> set cs. x \<noteq> c \<longrightarrow> clus f d' x = clus f d x"
  shows "dir_entries f d' cs = map (set_slot c i e) (dir_entries f d cs)"
proof -
  let ?cb = "cluster_size_bytes f"
  have ib: "i + 32 \<le> ?cb" using slots_bound [OF assms(1)] by simp
  have sl: "subslice j 32 (clus f d' c) = (if j = i then e else subslice j 32 (clus f d c))" if "j \<in> set (slots ?cb)" for j
  proof (cases "j = i")
    case False
    then have "j + 32 \<le> i \<or> i + 32 \<le> j" using slots_bound [OF that] slots_bound [OF assms(1)] by (auto elim!: dvdE)
    then show ?thesis using False slots_bound [OF that] ib assms(2,3)
      unfolding assms(4) by (subst subslice_put_at_disjoint) auto
  qed (use ib assms(2-4) in simp)
  have "map (\<lambda>j. (x, j, subslice j 32 (clus f d' x))) (slots ?cb) =
      map (set_slot c i e) (map (\<lambda>j. (x, j, subslice j 32 (clus f d x))) (slots ?cb))" if "x \<in> set cs" for x
    using sl assms(5) that by (cases "x = c") (auto simp: set_slot_def)
  then show ?thesis unfolding dir_entries_def map_concat map_map by (auto intro!: arg_cong [where f = concat])
qed

text \<open>What a directory scan looks at is in the first twelve bytes.\<close>

lemma nth_take_12: "take 12 e = take 12 e' \<Longrightarrow> k < 12 \<Longrightarrow> e ! k = e' ! k"
  by (metis nth_take)

lemma decode_8_3_12:
  assumes "take 12 e = take 12 e'"
  shows "decode_8_3 e = decode_8_3 e'"
proof -
  have "subslice 0 8 x = take 8 (take 12 x)" "subslice 8 3 x = drop 8 (take 11 (take 12 x))" for x :: "u8 list"
    by (simp_all add: subslice_def take_drop)
  then show ?thesis using assms unfolding decode_8_3_def by metis
qed

lemma scan_12:
  assumes "take 12 e = take 12 e'"
  shows "skipped_entry e = skipped_entry e'" and "(e ! 0 = 0) = (e' ! 0 = 0)" and "name_matches e name = name_matches e' name"
  using nth_take_12 [OF assms, of 0] nth_take_12 [OF assms, of 11] decode_8_3_12 [OF assms]
  by (simp_all add: skipped_entry_def name_matches_def)

lemma live_map:
  assumes "\<And>x. x \<in> set es \<Longrightarrow> take 12 (snd (snd (u x))) = take 12 (snd (snd x))"
  shows "live (map u es) = map u (live es)"
  using assms
proof (induction es)
  case (Cons x es)
  obtain c i e c' i' e' where x: "x = (c, i, e)" "u x = (c', i', e')" by (cases x; cases "u x") auto
  with Cons.prems [of x] have "take 12 e' = take 12 e" by simp
  from scan_12(1,2) [OF this] Cons x show ?case by (simp add: live_def)
qed (simp add: live_def)

lemma find_map_12:
  assumes "\<And>x. x \<in> set es \<Longrightarrow> take 12 (snd (snd (u x))) = take 12 (snd (snd x))"
  shows "find (\<lambda>(_, _, e). name_matches e name) (map u es) = map_option u (find (\<lambda>(_, _, e). name_matches e name) es)"
  using assms
proof (induction es)
  case (Cons x es)
  obtain c i e c' i' e' where x: "x = (c, i, e)" "u x = (c', i', e')" by (cases x; cases "u x") auto
  with Cons.prems [of x] have "take 12 e' = take 12 e" by simp
  from scan_12(3) [OF this] Cons x show ?case by simp
qed simp

lemma live_subset: "set (live es) \<subseteq> set es"
  by (auto simp: live_def dest: set_takeWhileD)

lemma find_live:
  assumes "find P (live (dir_entries f d cs)) = Some (c, i, e)"
  shows "c \<in> set cs" and "i \<in> set (slots (cluster_size_bytes f))" and "e = subslice i 32 (clus f d c)"
proof -
  have "(c, i, e) \<in> set (dir_entries f d cs)"
    using assms live_subset by (metis find_Some_iff nth_mem subsetD)
  then show "c \<in> set cs" "i \<in> set (slots (cluster_size_bytes f))" "e = subslice i 32 (clus f d c)"
    by (auto simp: dir_entries_def)
qed

lemma find_after_rewrite:
  assumes "i \<in> set (slots (cluster_size_bytes f))" and "length e = 32" and "length (clus f d c) = cluster_size_bytes f"
    and "clus f d' c = put_at i e (clus f d c)" and "\<forall>x \<in> set cs. x \<noteq> c \<longrightarrow> clus f d' x = clus f d x"
    and "take 12 e = take 12 (subslice i 32 (clus f d c))"
    and "find (\<lambda>(_, _, e). name_matches e name) (live (dir_entries f d cs)) = Some (c, i, e0)"
  shows "find (\<lambda>(_, _, e). name_matches e name) (live (dir_entries f d' cs)) = Some (c, i, e)"
proof -
  have same: "take 12 (snd (snd (set_slot c i e x))) = take 12 (snd (snd x))" if "x \<in> set (dir_entries f d cs)" for x
    using that assms(6) by (auto simp: dir_entries_def set_slot_def)
  show ?thesis
    using find_map_12 [of "live (dir_entries f d cs)" "set_slot c i e" name] same assms(7) live_subset [of "dir_entries f d cs"]
    by (auto simp: dir_entries_set_slot [OF assms(1-5)] live_map)
qed

section \<open>Create, write, find, read\<close>

context ata_drive
begin

text \<open>The file a creation leaves behind, as the write needs it.\<close>

lemma created_file_on:
  assumes "dir_on sect cap s nd cs" and "c \<in> set cs" and "i \<in> set (slots (cluster_size_bytes (node_fs nd)))"
  shows "file_on sect cap s (file_node (node_fs nd) 0 0 c i) []"
    and "entry_ok (node_fs nd) (cap (media s)) (sect (media s)) (file_node (node_fs nd) 0 0 c i) []"
proof -
  have a: "port_ready s" "geom (node_fs nd) (cap (media s))"
    "file_chain (node_fs nd) (cap (media s)) (sect (media s)) (first_cluster nd) cs"
    using assms(1) by (auto simp: dir_on_def)
  show "file_on sect cap s (file_node (node_fs nd) 0 0 c i) []"
    using a by (simp add: file_on_def file_node_def file_chain_def)
  have "in_data (node_fs nd) (cap (media s)) c" using a(3) assms(2) by (auto simp: file_chain_def split: if_splits)
  then show "entry_ok (node_fs nd) (cap (media s)) (sect (media s)) (file_node (node_fs nd) 0 0 c i) []"
    using file_chain_not_free [OF a(3) assms(2)] slots_bound [OF assms(3)] by (simp add: entry_ok_def file_node_def)
qed

text \<open>A write to a new file keeps its directory, in which the name now stands for the written file.\<close>

lemma found_after_write:
  assumes "dir_on sect cap s nd cs"
    and "find (\<lambda>(_, _, e). name_matches e name) (live (entries_on sect s nd cs)) = Some (c, i, e)"
    and "e ! 0x0B AND 0x10 = 0" and "first_cluster_of e = 0" and "entry_size e = 0"
    and "port_ready s'" and "cap (media s') = cap (media s)"
    and "written_to (node_fs nd) (cap (media s)) (sect (media s)) (file_node (node_fs nd) 0 0 c i) [] 0 data (sect (media s')) nd' new"
  obtains s'' where "fat_finddir (ahci_device hba) nd name s' = (Inr nd', s'')"
    and "port_ready s''" and "sect (media s'') = sect (media s')" and "cap (media s'') = cap (media s')"
proof -
  let ?f = "node_fs nd" and ?n = "cap (media s)" and ?d = "sect (media s)" and ?d' = "sect (media s')"
    and ?nd = "file_node (node_fs nd) 0 0 c i"
  have a: "geom ?f ?n" "file_chain ?f ?n ?d (first_cluster nd) cs" "is_dir nd" "cs \<noteq> []"
    using assms(1) by (auto simp: dir_on_def)
  note m = find_live [OF assms(2) [unfolded entries_on_def]]
  have c: "in_data ?f ?n c" using a(2) m(1) by (auto simp: file_chain_def split: if_splits)
  then have c0: "c \<noteq> 0" using in_data_2 [OF c] by auto
  have lc: "length (clus ?f ?d c) = cluster_size_bytes ?f" by (rule length_clus [OF media_secs in_data_2 [OF c]])
  have e: "e = subslice i 32 (clus ?f ?d c)" "e = entry_of ?f ?d ?nd"
    using find_live(3) [OF assms(2) [unfolded entries_on_def]] by (simp_all add: entry_of_def file_node_def)
  have w: "nd' = ?nd\<lparr>first_cluster := hd new, file_size := of_nat (length data)\<rparr>" "set new \<subseteq> free ?f ?d"
    "\<forall>x. x \<notin> set new \<longrightarrow> fat ?f ?d' x = fat ?f ?d x \<and> (x \<noteq> c \<longrightarrow> clus ?f ?d' x = clus ?f ?d x)"
    using assms(8) by (simp_all add: written_to_def file_node_def)
  obtain e' where e': "length e' = 32" "clus ?f ?d' c = put_at i e' (clus ?f ?d c)" "take 12 e' = take 12 e" "describes e' nd'"
    using assms(8) c0 e assms(4,5) by (auto simp: written_to_def file_node_def describes_def)
  have dj: "x \<notin> set new" if "x \<in> set cs" for x using w(2) file_chain_not_free [OF a(2) that] by blast
  then have "\<forall>x \<in> set cs. x \<noteq> c \<longrightarrow> clus ?f ?d' x = clus ?f ?d x" using w(3) by blast
  from find_after_rewrite [OF m(2) e'(1) lc e'(2) this] e'(3) e(1) assms(2)
  have fnd: "find (\<lambda>(_, _, e). name_matches e name) (live (entries_on sect s' nd cs)) = Some (c, i, e')"
    by (simp add: entries_on_def)
  have fc: "file_chain ?f ?n ?d' (first_cluster nd) cs"
    using a(2) w(3) dj chain_cong [of cs "fat ?f ?d'" "fat ?f ?d"] by (auto simp: file_chain_def)
  have "e' ! 0x0B AND 0x10 = 0" using nth_take_12 [OF e'(3), of 11] assms(3) by simp
  moreover have "nd' = file_node ?f (first_cluster_of e') (entry_size e') c i"
    using e'(4) w(1) by (simp add: describes_def file_node_def)
  ultimately show ?thesis
    using finddir_view [OF port_view [OF assms(6)] a(1) [folded assms(7)] fc [folded assms(7)] a(4,3) fnd [unfolded entries_on_def]] that
    by (auto simp: okS_def view_def)
qed

text \<open>The bytes of a file that was empty before the write.\<close>

lemma written_new_contents:
  assumes "file_on sect cap s nd []" and "file_size nd = 0" and "data \<noteq> []" and "length data < 2 ^ 32"
    and "port_ready s'" and "cap (media s') = cap (media s)"
    and "written_to (node_fs nd) (cap (media s)) (sect (media s)) nd [] 0 data (sect (media s')) nd' new"
  shows "file_on sect cap s' nd' new" and "contents sect s' nd' new = data" and "unat (file_size nd') = length data"
proof -
  have w: "nd' = nd\<lparr>first_cluster := hd new, file_size := of_nat (length data)\<rparr>"
    "file_chain (node_fs nd) (cap (media s)) (sect (media s')) (hd new) new"
    using assms(2,7) by (auto simp: written_to_def)
  show sz: "unat (file_size nd') = length data" using assms(4) by (simp add: w(1) unat_of_nat)
  show c: "contents sect s' nd' new = data"
    using written_contents [OF media_secs media_secs _ _ assms(7)] assms(4) sz by (simp add: contents_def w(1))
  then have "new \<noteq> []" using assms(3) by (auto simp: contents_def)
  then have "in_data (node_fs nd) (cap (media s)) (hd new)"
    using w(2) hd_in_set [of new] unfolding file_chain_def by (metis (no_types))
  then show "file_on sect cap s' nd' new"
    using assms(1,5,6) w by (simp add: file_on_def in_data_def in_chain_def)
qed

text \<open>A name that is not there.\<close>

lemma ahci_finddir_missing:
  assumes "dir_on sect cap s nd cs" and "find (\<lambda>(_, _, e). name_matches e name) (live (entries_on sect s nd cs)) = None"
  obtains s' where "fat_finddir (ahci_device hba) nd name s = (Inl (Err ''''), s')" and "dir_on sect cap s' nd cs"
    and "sect (media s') = sect (media s)" and "cap (media s') = cap (media s)"
proof -
  let ?f = "node_fs nd" and ?d = "sect (media s)" and ?n = "cap (media s)"
  let ?v = "\<lambda>e cluster i acc. (if \<not> name_matches e name then None
     else Some (first_cluster_of e, entry_size e, e ! 0x0B AND 0x10 \<noteq> 0, cluster, i), acc)"
  have a: "port_ready s" "geom ?f ?n" "file_chain ?f ?n ?d (first_cluster nd) cs" "cs \<noteq> []" "is_dir nd"
    using assms(1) by (auto simp: dir_on_def)
  have "\<forall>x \<in> set es. case x of (c, i, e) \<Rightarrow> \<not> name_matches e name \<Longrightarrow> visit_all ?v es () = (None, ())" for es
    by (induction es) auto
  then have vis: "visit_all ?v (live (dir_entries ?f ?d cs)) () = (None, ())"
    using assms(2) by (auto simp: entries_on_def find_None_iff)
  obtain s' where w: "walk_dir (ahci_device hba) nd ?v () s = (Inr (None, ()), s')" "view s' ?n ?d"
    using walk_dir_view [OF port_view [OF a(1)] a(2-4), of ?v "()"] vis by (auto elim: okS_E)
  show ?thesis
  proof (rule that)
    show "fat_finddir (ahci_device hba) nd name s = (Inl (Err ''''), s')"
      using a(5) w(1) by (simp add: fat_finddir_def bindS_def map_errS_def matchS_def)
    show "dir_on sect cap s' nd cs" "sect (media s') = sect (media s)" "cap (media s') = cap (media s)"
      using a w(2) by (auto simp: view_def dir_on_def)
  qed
qed

lemma ahci_save_load:
  assumes "dir_on sect cap s nd cs" and "to_8_3 name = Some n83" and "new_name sect s nd cs name"
    and "find free_entry (entries_on sect s nd cs) = Some (c, i, e)" and "e ! 0 = 0"
    and "i + 64 \<le> cluster_size_bytes (node_fs nd) \<or> c = last cs"
    and "free_in_data (node_fs nd) (cap (media s)) (sect (media s))" and "data \<noteq> []" and "length data < 2 ^ 32"
    and "length data \<le> card (free (node_fs nd) (sect (media s))) * cluster_size_bytes (node_fs nd)"
  obtains n1 s1 n2 s2 s3 s4 where "fat_create (ahci_device hba) nd name s = (Inr n1, s1)"
    and "fat_write (ahci_device hba) 0 data (s1, n1) = (Inr (length data), (s2, n2))"
    and "fat_finddir (ahci_device hba) nd name s2 = (Inr n2, s3)" and "unat (file_size n2) = length data"
    and "fat_read (ahci_device hba) n2 0 (replicate (length data + k) 0) s3 = (Inr (length data, data @ replicate k 0), s4)"
proof -
  let ?f = "node_fs nd" and ?n1 = "file_node (node_fs nd) 0 0 c i"
  have g: "geom ?f (cap (media s))" using assms(1) by (simp add: dir_on_def)
  obtain s1 where cr: "fat_create (ahci_device hba) nd name s = (Inr ?n1, s1)" "dir_on sect cap s1 nd cs"
    "live (entries_on sect s1 nd cs) = filter (\<lambda>(_, _, e). \<not> skipped_entry e)
      (takeWhile (\<lambda>x. \<not> free_entry x) (entries_on sect s nd cs)) @ [(c, i, new_entry n83)]"
    "free ?f (sect (media s1)) = free ?f (sect (media s))" "cap (media s1) = cap (media s)"
    by (rule ahci_create [OF assms(1-4,6)]) (simp add: free_put_clus [OF g])
  have nn: "plain_8_3 name" "0 \<notin> set name" "find (\<lambda>(_, _, e). name_matches e name) (live (entries_on sect s nd cs)) = None"
    using assms(3) by (auto simp: new_name_def)
  note ne = new_entry_fields [OF not_skipped_new(1) [OF assms(2) nn(1,2)]]
  have fnd: "find (\<lambda>(_, _, e). name_matches e name) (live (entries_on sect s1 nd cs)) = Some (c, i, new_entry n83)"
    unfolding cr(3) live_until_end [OF assms(4,5), symmetric] by (rule find_new_entry [OF assms(2) nn])
  note m = find_live [OF fnd [unfolded entries_on_def]]
  note on = created_file_on [OF cr(2) m(1,2)]
  have nf: "node_fs ?n1 = ?f" "file_size ?n1 = 0" by (simp_all add: file_node_def)
  have fr: "free_in_data ?f (cap (media s1)) (sect (media s1))" using assms(7) cr(4,5) by (simp add: free_in_data_def)
  obtain s2 n2 new where w: "fat_write (ahci_device hba) 0 data (s1, ?n1) = (Inr (length data), (s2, n2))" "port_ready s2"
    "cap (media s2) = cap (media s1)" "written_to ?f (cap (media s1)) (sect (media s1)) ?n1 [] 0 data (sect (media s2)) n2 new"
    using ahci_write_file [OF on(1), unfolded nf(1), OF fr on(2) assms(8), of 0] assms(9,10) cr(4) by auto
  obtain s3 where f: "fat_finddir (ahci_device hba) nd name s2 = (Inr n2, s3)" "port_ready s3"
    "sect (media s3) = sect (media s2)" "cap (media s3) = cap (media s2)"
    by (rule found_after_write [OF cr(2) fnd _ ne(5,6) w(2-4)]) (simp_all add: ne(4))
  have "written_to (node_fs ?n1) (cap (media s1)) (sect (media s1)) ?n1 [] 0 data (sect (media s2)) n2 new"
    using w(4) by (simp only: nf(1))
  note c = written_new_contents [OF on(1) nf(2) assms(8,9) w(2,3) this]
  have "file_on sect cap s3 n2 new" "contents sect s3 n2 new = data"
    using c(1,2) f(2-4) by (simp_all add: file_on_def contents_def)
  from ahci_read_file [OF this(1), of 0 "replicate (length data + k) 0"] this(2)
  obtain s4 where "fat_read (ahci_device hba) n2 0 (replicate (length data + k) 0) s3 = (Inr (length data, data @ replicate k 0), s4)"
    by (auto simp: put_at_def)
  then show ?thesis using that [OF cr(1) w(1) f(1) c(3)] by blast
qed

end

section \<open>Through the virtual file system\<close>

text \<open>
  \<^bold>\<open>C3.\<close> A file survives: on a mounted FAT32 volume with room for it, creating a file under
  \<^verbatim>\<open>/mnt/disk\<close>, writing bytes to it and opening the same path again gives a node of exactly that
  size, equal to the one that was written, and reading it gives the bytes and nothing behind
  them. The whole path from the virtual file system to the drive is the kernel's code; of the drive only the
  ATA contract is assumed.
\<close>

theorem vfs_save_load:
  assumes "ata_drive hba sect cap" and "disk_root v = Some (FatNode nd)" and "dir_on sect cap s nd cs"
    and "to_8_3 name = Some n83" and "0x2F \<notin> set name" and "new_name sect s nd cs name"
    and "find free_entry (entries_on sect s nd cs) = Some (c, i, e)" and "e ! 0 = 0"
    and "i + 64 \<le> cluster_size_bytes (node_fs nd) \<or> c = last cs"
    and "free_in_data (node_fs nd) (cap (media s)) (sect (media s))" and "data \<noteq> []" and "length data < 2 ^ 32"
    and "length data \<le> card (free (node_fs nd) (sect (media s))) * cluster_size_bytes (node_fs nd)"
  shows "\<exists>n1 s1 n2 s2 s3 s4.
    vfs_create (ahci_device hba) v (disk_path name) s = (Inr n1, s1) \<and>
    vn_write (ahci_device hba) 0 data (s1, n1) = (Inr (length data), (s2, n2)) \<and>
    vfs_open (ahci_device hba) v (disk_path name) s2 = (Inr n2, s3) \<and>
    vn_attribute n2 = \<lparr>stat_size = length data, node_type = File\<rparr> \<and>
    vn_read (ahci_device hba) n2 0 (replicate (length data + k) 0) s3 = (Inr (length data, data @ replicate k 0), s4)"
proof -
  have ne: "name \<noteq> []" using assms(4) by (auto simp: to_8_3_def split_last_dot_def)
  obtain n1 s1 n2 s2 s3 s4 where r: "fat_create (ahci_device hba) nd name s = (Inr n1, s1)"
    "fat_write (ahci_device hba) 0 data (s1, n1) = (Inr (length data), (s2, n2))"
    "fat_finddir (ahci_device hba) nd name s2 = (Inr n2, s3)" "unat (file_size n2) = length data"
    "fat_read (ahci_device hba) n2 0 (replicate (length data + k) 0) s3 = (Inr (length data, data @ replicate k 0), s4)"
    by (rule ata_drive.ahci_save_load [OF assms(1,3,4,6-13)])
  have "is_dir n2 = False" using r(5) by (auto simp: fat_read_def)
  with r show ?thesis
    by (intro exI [of _ "FatNode n1"] exI [of _ s1] exI [of _ "FatNode n2"] exI [of _ s2] exI [of _ s3] exI [of _ s4])
      (simp add: vfs_create_disk [OF assms(2,5) ne] vfs_open_disk [OF assms(2,5) ne] vn_write_def fat_attribute_def bindS_def)
qed

theorem vfs_save_load_witness:
  "\<exists>n1 s1 n2 s2 s3 s4.
    vfs_create (ahci_device ram_hba) demo_vfs (disk_path [97]) demo_ahci = (Inr n1, s1) \<and>
    vn_write (ahci_device ram_hba) 0 [1, 2, 3] (s1, n1) = (Inr (length [1, 2, 3 :: u8]), (s2, n2)) \<and>
    vfs_open (ahci_device ram_hba) demo_vfs (disk_path [97]) s2 = (Inr n2, s3) \<and>
    vn_attribute n2 = \<lparr>stat_size = length [1, 2, 3 :: u8], node_type = File\<rparr> \<and>
    vn_read (ahci_device ram_hba) n2 0 (replicate (length [1, 2, 3 :: u8] + 1) 0) s3 =
      (Inr (length [1, 2, 3 :: u8], [1, 2, 3] @ replicate 1 0), s4)"
proof -
  have nn: "new_name ram_sect demo_ahci demo_root [3] [97]" by (simp add: new_name_def name_a demo_live)
  have "0 < card (free demo_fs demo_media)" using demo_free_5 by (auto simp: card_gt_0_iff)
  then have room: "length [1, 2, 3 :: u8] \<le> card (free demo_fs demo_media) * 512" by (simp add: Suc_le_eq)
  show ?thesis
    by (rule vfs_save_load [OF ram.ata_drive_axioms demo_vfs_simps(2) demo_dir_on name_a(1) _ nn demo_live(2)])
      (use room in \<open>simp_all add: demo_root_simps demo_facts\<close>)
qed

end
