(* ===== verification/Memory.thy ===== *)
theory Memory
  imports Prelude
begin

text \<open>
  Physical memory as the kernel sees it through its higher-half alias: one byte per
  address, with the 64 bit accesses of page table entries, byte copies and page fills, and
  the facts that reduce a read after a write to a comparison of addresses.
\<close>

type_synonym mem = "u64 \<Rightarrow> u8"

definition wr_bytes :: "u64 \<Rightarrow> u8 list \<Rightarrow> mem \<Rightarrow> mem" where
  "wr_bytes a bs m = (\<lambda>x. if unat (x - a) < length bs then bs ! unat (x - a) else m x)"

definition rd_bytes :: "mem \<Rightarrow> u64 \<Rightarrow> nat \<Rightarrow> u8 list" where
  "rd_bytes m a n = map (\<lambda>i. m (a + of_nat i)) [0 ..< n]"

definition fill_bytes :: "u64 \<Rightarrow> nat \<Rightarrow> u8 \<Rightarrow> mem \<Rightarrow> mem" where
  "fill_bytes a n b m = (\<lambda>x. if unat (x - a) < n then b else m x)"

definition rd64 :: "mem \<Rightarrow> u64 \<Rightarrow> u64" where
  "rd64 m a = le_word (rd_bytes m a 8)"

definition wr64 :: "u64 \<Rightarrow> u64 \<Rightarrow> mem \<Rightarrow> mem" where
  "wr64 a v = wr_bytes a (le_bytes 8 v)"

definition zero_page :: "u64 \<Rightarrow> mem \<Rightarrow> mem" where
  "zero_page p = fill_bytes p 4096 0"

section \<open>Alignment\<close>

definition aligned :: "nat \<Rightarrow> u64 \<Rightarrow> bool" where
  "aligned n a \<longleftrightarrow> take_bit n a = 0"

lemma aligned_dvd: "aligned n a \<Longrightarrow> n \<le> 64 \<Longrightarrow> 2 ^ n dvd unat a"
proof -
  assume "aligned n a"
  then have "unat (take_bit n a) = 0" by (simp add: aligned_def)
  then have "take_bit n (unat a) = 0" by (simp add: unsigned_take_bit_eq)
  then show ?thesis by (simp add: take_bit_eq_mod mod_eq_0_iff_dvd)
qed

lemma aligned_iff: "n \<le> 64 \<Longrightarrow> aligned n a \<longleftrightarrow> unat a mod 2 ^ n = 0"
  by (metis aligned_def take_bit_eq_mod unat_eq_zero unsigned_take_bit_eq)

lemma aligned_bit: "aligned n a \<Longrightarrow> k < n \<Longrightarrow> \<not> bit a k"
proof -
  assume "aligned n a" and "k < n"
  then have "bit (take_bit n a) k = bit (0::u64) k" by (simp add: aligned_def)
  with \<open>k < n\<close> show ?thesis by (simp add: bit_take_bit_iff)
qed

lemma aligned_mult: "aligned n (2 ^ n * k)"
proof -
  have "take_bit n (push_bit n k) = 0" by (rule bit_word_eqI) (simp add: bit_simps)
  then show ?thesis by (simp add: aligned_def push_bit_eq_mult mult.commute)
qed

lemma aligned_multE:
  assumes "aligned n a"
  obtains k where "a = 2 ^ n * k"
proof
  show "a = 2 ^ n * drop_bit n a"
    using bits_ident [of n a] assms by (simp add: aligned_def push_bit_eq_mult mult.commute)
qed

lemma aligned_diff: "aligned n a \<Longrightarrow> aligned n b \<Longrightarrow> aligned n (a - b)"
  by (elim aligned_multE) (simp add: aligned_mult flip: right_diff_distrib)

lemma aligned_add: "aligned n a \<Longrightarrow> aligned n b \<Longrightarrow> aligned n (a + b)"
  by (elim aligned_multE) (simp add: aligned_mult flip: distrib_left)

lemma aligned_less: "aligned n a \<Longrightarrow> unat a < 2 ^ n \<Longrightarrow> n \<le> 64 \<Longrightarrow> a = 0"
  using aligned_dvd [of n a] by (metis gr_zeroI nat_dvd_not_less unat_eq_zero)

lemma unat_lt_64: "unat (d :: u64) < 2 ^ 64"
  using unsigned_less [of d] by simp

lemma unat_aligned_add:
  assumes "aligned n d" and "unat k < 2 ^ n" and "n \<le> 64"
  shows "unat (d + k) = unat d + unat k"
proof -
  obtain q where q: "unat d = 2 ^ n * q" using aligned_dvd [OF assms(1,3)] by (auto elim: dvdE)
  have e: "(2::nat) ^ 64 = 2 ^ n * 2 ^ (64 - n)" using assms(3) by (simp flip: power_add)
  have "2 ^ n * q < 2 ^ n * 2 ^ (64 - n)" using q e unat_lt_64 [of d] by simp
  then have "q + 1 \<le> 2 ^ (64 - n)" by simp
  then have "2 ^ n * (q + 1) \<le> 2 ^ n * 2 ^ (64 - n)" by (rule mult_le_mono2)
  then have "unat d + 2 ^ n \<le> 2 ^ 64" unfolding e q by (simp add: distrib_left)
  then have "unat d + unat k < 2 ^ 64" using assms(2) by linarith
  then show ?thesis using unat_add_lem [of d k] by simp
qed

section \<open>Reads after writes\<close>

lemma rd64_wr64_same [mem_simps]: "rd64 (wr64 a v m) a = v"
proof -
  have "rd_bytes (wr64 a v m) a 8 = le_bytes 8 v"
    by (rule nth_equalityI) (simp_all add: rd_bytes_def wr64_def wr_bytes_def unat_of_nat)
  then show ?thesis by (simp add: rd64_def)
qed

lemma rd64_cong: "(\<And>i. i < 8 \<Longrightarrow> m (a + of_nat i) = m' (a + of_nat i)) \<Longrightarrow> rd64 m a = rd64 m' a"
  unfolding rd64_def rd_bytes_def by (intro arg_cong [of _ _ le_word] map_cong) simp_all

lemma rd64_wr64_other:
  assumes "aligned 3 a" and "aligned 3 b" and "a \<noteq> b"
  shows "rd64 (wr64 a v m) b = rd64 m b"
proof (rule rd64_cong)
  fix i :: nat assume i: "i < 8"
  have d: "aligned 3 (b - a)" using assms by (simp add: aligned_diff)
  have "unat (b - a) \<ge> 8" using aligned_less [OF d] assms(3) by (simp add: not_less) force
  moreover have "unat (b - a + of_nat i) = unat (b - a) + i"
    using unat_aligned_add [OF d, of "of_nat i"] i by (simp add: unat_of_nat)
  ultimately show "wr64 a v m (b + of_nat i) = m (b + of_nat i)"
    by (simp add: wr64_def wr_bytes_def add_diff_eq [symmetric] diff_add_eq)
qed

section \<open>Page tables in memory\<close>

text \<open>The address of entry \<open>i\<close> of the table at \<open>t\<close>.\<close>

definition ent :: "u64 \<Rightarrow> u64 \<Rightarrow> u64" where
  "ent t i = t + 8 * i"

text \<open>\<^verbatim>\<open>e & !0xFFF\<close>.\<close>

definition page_base :: "u64 \<Rightarrow> u64" where
  "page_base e = e AND NOT 0xFFF"

abbreviation page_aligned :: "u64 \<Rightarrow> bool" where
  "page_aligned \<equiv> aligned 12"

lemma aligned_mono: "aligned n a \<Longrightarrow> k \<le> n \<Longrightarrow> aligned k a"
  unfolding aligned_def by (metis min.absorb1 take_bit_of_0 take_bit_take_bit)

lemma unat_8_mult: "i < 512 \<Longrightarrow> unat (8 * i :: u64) = 8 * unat i"
  by (simp add: unat_word_ariths word_less_nat_alt)

lemma aligned_8_mult: "i < 512 \<Longrightarrow> aligned 3 (8 * i)"
  by (simp add: aligned_iff unat_8_mult)

lemma aligned_ent: "page_aligned t \<Longrightarrow> i < 512 \<Longrightarrow> aligned 3 (ent t i)"
  unfolding ent_def by (intro aligned_add aligned_8_mult aligned_mono [of 12 t 3]) simp_all

lemma unat_ent: "page_aligned t \<Longrightarrow> i < 512 \<Longrightarrow> unat (ent t i) = unat t + 8 * unat i"
  unfolding ent_def
  by (subst unat_aligned_add [of 12]) (simp_all add: unat_8_mult word_less_nat_alt)

lemma ent_inject:
  assumes "page_aligned t" and "page_aligned t'" and "i < 512" and "i' < 512"
  shows "ent t i = ent t' i' \<longleftrightarrow> t = t' \<and> i = i'"
proof
  assume "ent t i = ent t' i'"
  then have eq: "unat t + 8 * unat i = unat t' + 8 * unat i'"
    using assms by (metis unat_ent)
  have "4096 dvd unat t" "4096 dvd unat t'"
    using aligned_dvd [OF assms(1)] aligned_dvd [OF assms(2)] by simp_all
  then obtain q q' where q: "unat t = 4096 * q" "unat t' = 4096 * q'"
    by (elim dvdE) simp
  have b: "unat i < 512" "unat i' < 512" using assms(3,4) by (simp_all add: word_less_nat_alt)
  have e: "q * 512 + unat i = q' * 512 + unat i'" using eq q by simp
  have "q = (q * 512 + unat i) div 512" "q' = (q' * 512 + unat i') div 512" using b by simp_all
  then have "q = q'" using e by argo
  with eq q have "unat t = unat t'" "unat i = unat i'" by simp_all
  then show "t = t' \<and> i = i'" by (simp add: word_unat_eq_iff)
qed simp

lemma rd64_wr64_ent [mem_simps]:
  assumes "page_aligned t" and "page_aligned t'" and "i < 512" and "i' < 512"
  shows "rd64 (wr64 (ent t i) v m) (ent t' i') = (if t = t' \<and> i = i' then v else rd64 m (ent t' i'))"
  using assms rd64_wr64_same rd64_wr64_other [of "ent t i" "ent t' i'"]
  by (auto simp: ent_inject aligned_ent)

lemma ent_in_page:
  assumes "page_aligned t" and "page_aligned p" and "i < 512" and "k < 8"
  shows "unat (ent t i + of_nat k - p) < 4096 \<longleftrightarrow> t = p"
proof -
  let ?o = "8 * i + of_nat k :: u64"
  have d: "page_aligned (t - p)" using assms by (simp add: aligned_diff)
  have "unat ?o = 8 * unat i + k"
    using assms(3,4) by (simp add: unat_word_ariths unat_of_nat word_less_nat_alt)
  then have o: "unat ?o < 4096" using assms(3,4) by (simp add: word_less_nat_alt)
  then have "unat (t - p + ?o) = unat (t - p) + unat ?o"
    by (intro unat_aligned_add [OF d]) simp_all
  moreover have e: "ent t i + of_nat k - p = t - p + ?o" by (simp add: ent_def algebra_simps)
  ultimately show ?thesis unfolding e using aligned_less [OF d] o by fastforce
qed

lemma rd64_zero_page [mem_simps]:
  assumes "page_aligned t" and "page_aligned p" and "i < 512"
  shows "rd64 (zero_page p m) (ent t i) = (if t = p then 0 else rd64 m (ent t i))"
proof (cases "t = p")
  case True
  then have "rd_bytes (zero_page p m) (ent t i) 8 = replicate 8 0"
    using ent_in_page [OF assms(1,2,3)]
    by (intro nth_equalityI) (simp_all add: rd_bytes_def zero_page_def fill_bytes_def)
  moreover have "le_word (replicate 8 0) = (0::u64)" by (simp add: numeral_eq_Suc)
  ultimately show ?thesis using True by (simp add: rd64_def)
next
  case False
  then show ?thesis
    using ent_in_page [OF assms] by (auto intro!: rd64_cong simp: zero_page_def fill_bytes_def)
qed

section \<open>Entries\<close>

lemma page_base_aligned [simp]: "page_aligned (page_base e)"
proof -
  have "(0xFFF :: u64) = mask 12" by (simp add: mask_eq_exp_minus_1)
  then show ?thesis
    unfolding aligned_def page_base_def
    by (intro bit_word_eqI) (auto simp: bit_simps)
qed

lemma page_base_or:
  assumes "page_aligned p" and f: "take_bit 12 f = f"
  shows "page_base (p OR f) = p"
proof -
  have m: "(0xFFF :: u64) = mask 12" by (simp add: mask_eq_exp_minus_1)
  show ?thesis
  proof (rule bit_word_eqI)
    fix k assume "k < LENGTH(64)"
    have "bit f k \<Longrightarrow> k < 12" by (metis bit_take_bit_iff f)
    moreover have "bit p k \<Longrightarrow> \<not> k < 12" using assms(1) by (metis aligned_def bit_0_eq bit_take_bit_iff bot_apply bot_bool_def)
    ultimately show "bit (page_base (p OR f)) k \<longleftrightarrow> bit p k"
      unfolding page_base_def m using \<open>k < LENGTH(64)\<close> by (auto simp: bit_simps)
  qed
qed

section \<open>Frames\<close>

lemma page_split: "x = page_base x + take_bit 12 x"
proof -
  have m: "(0xFFF :: u64) = mask 12" by (simp add: mask_eq_exp_minus_1)
  have "page_base x AND take_bit 12 x = 0"
    unfolding page_base_def m by (rule bit_word_eqI) (auto simp: bit_simps)
  then have "page_base x + take_bit 12 x = page_base x OR take_bit 12 x"
    by (rule disjunctive_add_eq_or)
  moreover have "page_base x OR take_bit 12 x = x"
    unfolding page_base_def m by (rule bit_word_eqI) (auto simp: bit_simps)
  ultimately show ?thesis by simp
qed

lemma in_frame:
  assumes "page_aligned p"
  shows "unat (x - p) < 4096 \<longleftrightarrow> page_base x = p"
proof -
  have d: "page_aligned (page_base x - p)" using assms by (simp add: aligned_diff)
  have o: "unat (take_bit 12 x) < 4096"
    using take_bit_nat_less_exp [of 12 "unat x"] by (simp add: unsigned_take_bit_eq)
  have "x - p = page_base x + take_bit 12 x - p" by (simp flip: page_split)
  also have "\<dots> = page_base x - p + take_bit 12 x" by simp
  finally have "unat (x - p) = unat (page_base x - p + take_bit 12 x)" by (rule arg_cong)
  also have "\<dots> = unat (page_base x - p) + unat (take_bit 12 x)"
    using unat_aligned_add [OF d, of "take_bit 12 x"] o by simp
  finally have "unat (x - p) = unat (page_base x - p) + unat (take_bit 12 x)" .
  then show ?thesis using aligned_less [OF d] o by fastforce
qed

lemma zero_page_frame: "page_aligned p \<Longrightarrow> page_base x \<noteq> p \<Longrightarrow> zero_page p m x = m x"
  by (simp add: zero_page_def fill_bytes_def in_frame)

lemma wr64_frame:
  assumes "page_aligned t" and "i < 512" and "page_base x \<noteq> t"
  shows "wr64 (ent t i) v m x = m x"
proof (rule ccontr)
  assume "wr64 (ent t i) v m x \<noteq> m x"
  then have k: "unat (x - ent t i) < 8" by (simp add: wr64_def wr_bytes_def split: if_splits)
  have "x = ent t i + of_nat (unat (x - ent t i))" by simp
  then have "unat (x - t) < 4096"
    using ent_in_page [OF assms(1,1,2) k] by simp
  then show False using assms by (simp add: in_frame)
qed

section \<open>Blocks of bytes\<close>

lemma wr_bytes_at: "i < length bs \<Longrightarrow> length bs \<le> 2 ^ 64 \<Longrightarrow> wr_bytes a bs m (a + of_nat i) = bs ! i"
  by (simp add: wr_bytes_def unat_of_nat)

text \<open>Two ranges of addresses, each a start and a length, have no address in common.\<close>

definition apart :: "nat \<times> nat \<Rightarrow> nat \<times> nat \<Rightarrow> bool" where
  "apart r s \<longleftrightarrow> fst r + snd r \<le> fst s \<or> fst s + snd s \<le> fst r"

lemma wr_bytes_apart:
  assumes "unat a + length bs \<le> 2 ^ 64" and "apart (unat a, length bs) (unat x, 1)"
  shows "wr_bytes a bs m x = m x"
proof -
  have "\<not> unat (x - a) < length bs"
  proof (cases "a \<le> x")
    case True
    then have "unat (x - a) = unat x - unat a" by (simp add: unat_sub)
    then show ?thesis using assms(2) True by (auto simp: apart_def word_le_nat_alt)
  next
    case False
    then have "unat (x - a) = 2 ^ 64 + unat x - unat a" using word_le_nat_alt [of a x] by (simp add: unat_sub_if_size word_size)
    then show ?thesis using assms(1) by simp
  qed
  then show ?thesis by (simp add: wr_bytes_def)
qed

lemma rd_bytes_wr_same: "length bs \<le> 2 ^ 64 \<Longrightarrow> n = length bs \<Longrightarrow> rd_bytes (wr_bytes a bs m) a n = bs"
  by (rule nth_equalityI) (simp_all add: rd_bytes_def wr_bytes_at)

lemma rd_bytes_wr_apart:
  assumes "unat a + length bs \<le> 2 ^ 64" and "unat b + n \<le> 2 ^ 64" and "apart (unat a, length bs) (unat b, n)"
  shows "rd_bytes (wr_bytes a bs m) b n = rd_bytes m b n"
  unfolding rd_bytes_def
proof (rule map_cong [OF refl])
  fix i assume "i \<in> set [0 ..< n]"
  then have "unat (b + of_nat i) = unat b + i" using assms(2) by (simp add: unat_word_ariths unat_of_nat)
  then show "wr_bytes a bs m (b + of_nat i) = m (b + of_nat i)"
    using assms(1,3) \<open>i \<in> set [0 ..< n]\<close> by (intro wr_bytes_apart) (auto simp: apart_def)
qed

end
