(* ===== verification/Gdt.thy ===== *)
theory Gdt
  imports Prelude
begin

text \<open>
  Segment descriptors, the task state segment and interrupt gates
  (ross-kernel/src/gdt.rs, idt.rs) and the selectors that \<^verbatim>\<open>syscall\<close> and
  \<^verbatim>\<open>sysretq\<close> use (syscall.rs). Descriptors are the 64 bit words the code computes; what
  the processor reads from them is given by decoding functions.
\<close>

section \<open>Segment descriptors\<close>

definition create_gdt_entry :: "u32 \<Rightarrow> u32 \<Rightarrow> u8 \<Rightarrow> u8 \<Rightarrow> u64" where
  "create_gdt_entry base limit access flags =
     (let e0 = ucast (limit AND 0xFFFF);
          e1 = e0 OR push_bit 16 (ucast (base AND 0xFFFF));
          e2 = e1 OR push_bit 32 (ucast (drop_bit 16 base AND 0xFF));
          e3 = e2 OR push_bit 40 (ucast access);
          e4 = e3 OR push_bit 48 (ucast (drop_bit 16 limit AND 0x0F));
          e5 = e4 OR push_bit 52 (ucast (flags AND 0x0F))
      in e5 OR push_bit 56 (ucast (drop_bit 24 base AND 0xFF)))"

record Tss =
  rsp0 :: u64
  rsp1 :: u64
  rsp2 :: u64
  ist1 :: u64
  ist2 :: u64
  ist3 :: u64
  ist4 :: u64
  ist5 :: u64
  ist6 :: u64
  ist7 :: u64
  iopb_offset :: u16

text \<open>The packed size of the structure: 4 + 8 * 3 + 8 + 8 * 7 + 8 + 2 + 2 bytes.\<close>

definition tss_size :: nat where "tss_size = 104"

definition tss_new :: Tss where
  "tss_new = \<lparr>rsp0 = 0, rsp1 = 0, rsp2 = 0, ist1 = 0, ist2 = 0, ist3 = 0, ist4 = 0, ist5 = 0,
     ist6 = 0, ist7 = 0, iopb_offset = of_nat tss_size\<rparr>"

definition set_tss_stack :: "u64 \<Rightarrow> Tss \<Rightarrow> Tss" where
  "set_tss_stack stack t = t\<lparr>rsp0 := stack\<rparr>"

definition KERNEL_CODE_SELECTOR :: u16 where "KERNEL_CODE_SELECTOR = 8"
definition KERNEL_DATA_SELECTOR :: u16 where "KERNEL_DATA_SELECTOR = 16"
definition USER_DATA_SELECTOR :: u16 where "USER_DATA_SELECTOR = 24"
definition USER_CODE_SELECTOR :: u16 where "USER_CODE_SELECTOR = 32"
definition TSS_SELECTOR :: u16 where "TSS_SELECTOR = 40"

type_synonym Gdt = "u64 list"

definition gdt_new :: Gdt where
  "gdt_new =
     [0, create_gdt_entry 0 0 0x9A 0x2, create_gdt_entry 0 0 0x92 0x0,
      create_gdt_entry 0 0 0xF2 0x0, create_gdt_entry 0 0 0xFA 0x2, 0, 0, 0]"

text \<open>The first word of the TSS descriptor, with its access byte.\<close>

definition tss_low :: "u64 \<Rightarrow> u64 \<Rightarrow> u64 \<Rightarrow> u64" where
  "tss_low access tss_limit tss_addr =
     (tss_limit AND 0xFFFF) OR push_bit 16 (tss_addr AND 0xFFFFFF) OR push_bit 40 access
     OR push_bit 48 (drop_bit 16 tss_limit AND 0xF) OR push_bit 56 (drop_bit 24 tss_addr AND 0xFF)"

text \<open>
  The table and TSS updates of \<^verbatim>\<open>load\<close>; \<open>tss_addr\<close> and \<open>df_stack\<close> are the addresses the
  linker gives to the two statics. The result is what \<^verbatim>\<open>lgdt\<close> and \<^verbatim>\<open>ltr\<close> then use.
\<close>

definition gdt_load :: "u64 \<Rightarrow> u64 \<Rightarrow> Gdt \<times> Tss \<Rightarrow> Gdt \<times> Tss" where
  "gdt_load tss_addr df_stack = (\<lambda>(g, t).
     let tss_limit = of_nat (tss_size - 1) :: u64;
         t' = t\<lparr>ist1 := df_stack + 0x4000\<rparr>;
         t5 = tss_low 0x89 tss_limit tss_addr
     in (g[5 := t5, 6 := drop_bit 32 tss_addr], t'))"

section \<open>What the processor reads\<close>

record seg =
  seg_base :: u32
  seg_limit :: u32
  seg_access :: u8
  seg_flags :: u8

definition decode_seg :: "u64 \<Rightarrow> seg" where
  "decode_seg d =
     \<lparr>seg_base = ucast (take_bit 24 (drop_bit 16 d)) OR push_bit 24 (ucast (drop_bit 56 d)),
      seg_limit = ucast (take_bit 16 d) OR push_bit 16 (ucast (take_bit 4 (drop_bit 48 d))),
      seg_access = ucast (drop_bit 40 d),
      seg_flags = ucast (take_bit 4 (drop_bit 52 d))\<rparr>"

definition decode_tss_base :: "u64 \<Rightarrow> u64 \<Rightarrow> u64" where
  "decode_tss_base lo hi = take_bit 24 (drop_bit 16 lo) OR push_bit 24 (drop_bit 56 lo) OR push_bit 32 (take_bit 32 hi)"

lemma masks:
  "(0xF :: 'a::len word) = mask 4" "(0xFF :: 'a word) = mask 8" "(0xFFFF :: 'a word) = mask 16"
  "(0xFFFFFF :: 'a word) = mask 24"
  by (simp_all add: mask_eq_exp_minus_1)

text \<open>The bits of a descriptor, field by field.\<close>

lemma bit_gdt_entry:
  "bit (create_gdt_entry base limit access flags) n =
     (if n < 16 then bit limit n else if n < 40 then bit base (n - 16) else if n < 48 then bit access (n - 40)
      else if n < 52 then bit limit (n - 32) else if n < 56 then bit flags (n - 52)
      else n < 64 \<and> bit base (n - 32))"
proof -
  consider "n < 16" | "16 \<le> n \<and> n < 32" | "32 \<le> n \<and> n < 40" | "40 \<le> n \<and> n < 48" | "48 \<le> n \<and> n < 52"
    | "52 \<le> n \<and> n < 56" | "56 \<le> n \<and> n < 64" | "64 \<le> n" by linarith
  moreover have "48 \<le> n \<Longrightarrow> \<not> bit access (n - 40)" using bit_imp_le_length [of access "n - 40"] by auto
  ultimately show ?thesis
    unfolding create_gdt_entry_def Let_def masks
    by cases (simp_all add: bit_simps less_diff_conv2)
qed

text \<open>
  A descriptor made by \<^verbatim>\<open>create_gdt_entry\<close> decodes to the base, the low twenty bits
  of the limit, the access byte and the four flag bits it was made from: no field runs
  into another.
\<close>

lemma create_gdt_entry_decode:
  "decode_seg (create_gdt_entry base limit access flags) =
     \<lparr>seg_base = base, seg_limit = take_bit 20 limit, seg_access = access, seg_flags = take_bit 4 flags\<rparr>"
proof -
  let ?d = "create_gdt_entry base limit access flags"
  have "ucast (take_bit 24 (drop_bit 16 ?d)) OR push_bit 24 (ucast (drop_bit 56 ?d)) = base"
    by (rule bit_word_eqI) (simp add: bit_simps bit_gdt_entry less_diff_conv2)
  moreover have "ucast (take_bit 16 ?d) OR push_bit 16 (ucast (take_bit 4 (drop_bit 48 ?d))) = take_bit 20 limit"
    by (rule bit_word_eqI) (auto simp: bit_simps bit_gdt_entry)
  moreover have "ucast (drop_bit 40 ?d) = access"
    by (rule bit_word_eqI) (simp add: bit_simps bit_gdt_entry)
  moreover have "ucast (take_bit 4 (drop_bit 52 ?d)) = take_bit 4 flags"
    by (rule bit_word_eqI) (simp add: bit_simps bit_gdt_entry)
  ultimately show ?thesis by (simp add: decode_seg_def)
qed

section \<open>Selectors\<close>

text \<open>The index and the requested privilege level of a selector, and its descriptor.\<close>

definition sel_entry :: "Gdt \<Rightarrow> u64 \<Rightarrow> seg" where
  "sel_entry g sel = decode_seg (g ! unat (drop_bit 3 sel))"

definition sel_rpl :: "u64 \<Rightarrow> u64" where
  "sel_rpl sel = take_bit 2 sel"

text \<open>Access bytes: present, a code or data segment, privilege level, executable.\<close>

definition seg_dpl :: "seg \<Rightarrow> u8" where "seg_dpl s = take_bit 2 (drop_bit 5 (seg_access s))"
definition seg_present :: "seg \<Rightarrow> bool" where "seg_present s \<longleftrightarrow> bit (seg_access s) 7"
definition seg_code :: "seg \<Rightarrow> bool" where "seg_code s \<longleftrightarrow> bit (seg_access s) 4 \<and> bit (seg_access s) 3"
definition seg_data :: "seg \<Rightarrow> bool" where "seg_data s \<longleftrightarrow> bit (seg_access s) 4 \<and> \<not> bit (seg_access s) 3 \<and> bit (seg_access s) 1"
definition seg_long :: "seg \<Rightarrow> bool" where "seg_long s \<longleftrightarrow> bit (seg_flags s) 1"

text \<open>
  The model-specific registers written by syscall.rs \<^verbatim>\<open>init\<close>, from the old EFER and the
  address of the stub.
\<close>

record msrs =
  EFER :: u64
  STAR :: u64
  LSTAR :: u64
  SFMASK :: u64

definition syscall_init :: "u64 \<Rightarrow> msrs \<Rightarrow> msrs" where
  "syscall_init stub m =
     m\<lparr>EFER := EFER m OR 1, LSTAR := stub, STAR := push_bit 32 0x08 OR push_bit 48 0x10, SFMASK := 0x200\<rparr>"

text \<open>The selectors loaded by \<^verbatim>\<open>syscall\<close> and by a 64 bit \<^verbatim>\<open>sysretq\<close>.\<close>

definition syscall_cs :: "msrs \<Rightarrow> u64" where "syscall_cs m = take_bit 16 (drop_bit 32 (STAR m)) AND 0xFFFC"
definition syscall_ss :: "msrs \<Rightarrow> u64" where "syscall_ss m = take_bit 16 (drop_bit 32 (STAR m)) + 8"
definition sysret_cs :: "msrs \<Rightarrow> u64" where "sysret_cs m = (take_bit 16 (drop_bit 48 (STAR m)) + 16) OR 3"
definition sysret_ss :: "msrs \<Rightarrow> u64" where "sysret_ss m = (take_bit 16 (drop_bit 48 (STAR m)) + 8) OR 3"

lemma segs:
  "decode_seg (create_gdt_entry 0 0 0x9A 0x2) = \<lparr>seg_base = 0, seg_limit = 0, seg_access = 0x9A, seg_flags = 2\<rparr>"
  "decode_seg (create_gdt_entry 0 0 0x92 0x0) = \<lparr>seg_base = 0, seg_limit = 0, seg_access = 0x92, seg_flags = 0\<rparr>"
  "decode_seg (create_gdt_entry 0 0 0xF2 0x0) = \<lparr>seg_base = 0, seg_limit = 0, seg_access = 0xF2, seg_flags = 0\<rparr>"
  "decode_seg (create_gdt_entry 0 0 0xFA 0x2) = \<lparr>seg_base = 0, seg_limit = 0, seg_access = 0xFA, seg_flags = 2\<rparr>"
  by (simp_all add: decode_seg_def create_gdt_entry_def)

lemma kinds:
  "seg_code (decode_seg (create_gdt_entry 0 0 0x9A 0x2))" "seg_long (decode_seg (create_gdt_entry 0 0 0x9A 0x2))"
  "seg_dpl (decode_seg (create_gdt_entry 0 0 0x9A 0x2)) = 0" "seg_present (decode_seg (create_gdt_entry 0 0 0x9A 0x2))"
  "seg_data (decode_seg (create_gdt_entry 0 0 0x92 0x0))" "seg_dpl (decode_seg (create_gdt_entry 0 0 0x92 0x0)) = 0"
  "seg_present (decode_seg (create_gdt_entry 0 0 0x92 0x0))"
  "seg_code (decode_seg (create_gdt_entry 0 0 0xFA 0x2))" "seg_long (decode_seg (create_gdt_entry 0 0 0xFA 0x2))"
  "seg_dpl (decode_seg (create_gdt_entry 0 0 0xFA 0x2)) = 3" "seg_present (decode_seg (create_gdt_entry 0 0 0xFA 0x2))"
  "seg_data (decode_seg (create_gdt_entry 0 0 0xF2 0x0))" "seg_dpl (decode_seg (create_gdt_entry 0 0 0xF2 0x0)) = 3"
  "seg_present (decode_seg (create_gdt_entry 0 0 0xF2 0x0))"
  unfolding segs seg_code_def seg_data_def seg_long_def seg_dpl_def seg_present_def
  by (simp_all add: bit_simps)

lemma bit_tss_low:
  assumes "\<And>k. bit x k \<Longrightarrow> k < 8"
  shows "bit (tss_low x l a) n =
    (if n < 16 then bit l n else if n < 40 then bit a (n - 16) else if n < 48 then bit x (n - 40)
     else if n < 52 then bit l (n - 32) else 56 \<le> n \<and> n < 64 \<and> bit a (n - 32))"
proof -
  consider "n < 16" | "16 \<le> n \<and> n < 40" | "40 \<le> n \<and> n < 48" | "48 \<le> n \<and> n < 52" | "52 \<le> n \<and> n < 56"
    | "56 \<le> n \<and> n < 64" | "64 \<le> n" by linarith
  moreover have "48 \<le> n \<Longrightarrow> \<not> bit x (n - 40)" using assms [of "n - 40"] by auto
  ultimately show ?thesis
    unfolding tss_low_def masks by cases (simp_all add: bit_simps less_diff_conv2)
qed

lemma tss_descriptor:
  fixes x l a :: u64
  assumes x: "\<And>k. bit x k \<Longrightarrow> k < 8"
  shows "decode_tss_base (tss_low x l a) (drop_bit 32 a) = a"
    and "seg_limit (decode_seg (tss_low x l a)) = ucast (take_bit 20 l)"
    and "seg_access (decode_seg (tss_low x l a)) = ucast x"
proof -
  note b = bit_tss_low [OF x]
  show "decode_tss_base (tss_low x l a) (drop_bit 32 a) = a"
    unfolding decode_tss_base_def by (rule bit_word_eqI) (auto simp: bit_simps b)
  show "seg_limit (decode_seg (tss_low x l a)) = ucast (take_bit 20 l)"
    unfolding decode_seg_def seg.select_convs by (rule bit_word_eqI) (auto simp: bit_simps b)
  show "seg_access (decode_seg (tss_low x l a)) = ucast x"
    unfolding decode_seg_def seg.select_convs by (rule bit_word_eqI) (simp add: bit_simps b)
qed

text \<open>
  After \<^verbatim>\<open>load\<close> the table describes what the rest of the kernel assumes: the
  selectors 0x08 and 0x10 name present ring-0 code (64 bit) and writable data, 0x23 and
  0x1B, the ones of user tasks, name present ring-3 code (64 bit) and writable data at
  privilege 3; the two words of the TSS descriptor hold exactly the address of the TSS
  with limit 0x67 as an available 64 bit TSS; and with STAR as \<^verbatim>\<open>init\<close> writes it,
  \<^verbatim>\<open>syscall\<close> enters with the kernel selectors and \<^verbatim>\<open>sysretq\<close> returns with the user ones.
\<close>

lemma gdt_selectors:
  "let (g, t) = gdt_load tss_addr df (gdt_new, tss_new); m = syscall_init stub m0 in
     length g = 8 \<and>
     seg_code (sel_entry g 0x08) \<and> seg_long (sel_entry g 0x08) \<and> seg_dpl (sel_entry g 0x08) = 0 \<and> seg_present (sel_entry g 0x08) \<and>
     seg_data (sel_entry g 0x10) \<and> seg_dpl (sel_entry g 0x10) = 0 \<and> seg_present (sel_entry g 0x10) \<and>
     seg_code (sel_entry g 0x23) \<and> seg_long (sel_entry g 0x23) \<and> seg_dpl (sel_entry g 0x23) = 3 \<and> seg_present (sel_entry g 0x23) \<and>
     seg_data (sel_entry g 0x1B) \<and> seg_dpl (sel_entry g 0x1B) = 3 \<and> seg_present (sel_entry g 0x1B) \<and>
     decode_tss_base (g ! 5) (g ! 6) = tss_addr \<and> seg_limit (decode_seg (g ! 5)) = 0x67 \<and>
     seg_access (decode_seg (g ! 5)) = 0x89 \<and> unat (drop_bit 3 TSS_SELECTOR) = 5 \<and> ist1 t = df + 0x4000 \<and>
     syscall_cs m = 0x08 \<and> syscall_ss m = 0x10 \<and> sysret_cs m = 0x23 \<and> sysret_ss m = 0x1B"
proof -
  define g where "g = gdt_new[5 := tss_low 0x89 0x67 tss_addr, 6 := drop_bit 32 tss_addr]"
  have load: "gdt_load tss_addr df (gdt_new, tss_new) = (g, tss_new\<lparr>ist1 := df + 0x4000\<rparr>)"
    by (simp add: gdt_load_def g_def tss_size_def)
  have ent: "sel_entry g 0x08 = decode_seg (create_gdt_entry 0 0 0x9A 0x2)" "sel_entry g 0x10 = decode_seg (create_gdt_entry 0 0 0x92 0x0)"
    "sel_entry g 0x1B = decode_seg (create_gdt_entry 0 0 0xF2 0x0)" "sel_entry g 0x23 = decode_seg (create_gdt_entry 0 0 0xFA 0x2)"
    by (simp_all add: sel_entry_def g_def gdt_new_def)
  have d5: "g ! 5 = tss_low 0x89 0x67 tss_addr" "g ! 6 = drop_bit 32 tss_addr" by (simp_all add: g_def gdt_new_def)
  have x: "bit (0x89 :: u64) k \<Longrightarrow> k < 8" for k using bit_bound [of "0x89 :: u64" 8 k] by simp
  have "decode_tss_base (tss_low 0x89 0x67 tss_addr) (drop_bit 32 tss_addr) = tss_addr"
    "seg_limit (decode_seg (tss_low 0x89 0x67 tss_addr)) = 0x67" "seg_access (decode_seg (tss_low 0x89 0x67 tss_addr)) = 0x89"
    using tss_descriptor [of "0x89" "0x67" tss_addr, OF x] by simp_all
  note tss = this
  have cfg: "syscall_cs m = 0x08 \<and> syscall_ss m = 0x10 \<and> sysret_cs m = 0x23 \<and> sysret_ss m = 0x1B"
    if "m = syscall_init stub m0" for m
    using that by (simp add: syscall_init_def syscall_cs_def syscall_ss_def sysret_cs_def sysret_ss_def)
  show ?thesis
    unfolding load Let_def prod.case ent d5 tss
    using cfg [OF refl] kinds by (simp only: g_def length_list_update Tss.simps) (simp add: gdt_new_def TSS_SELECTOR_def)
qed

section \<open>Interrupt gates\<close>

record IdtEntry =
  offset_low :: u16
  selector :: u16
  ist :: u8
  attributes :: u8
  offset_mid :: u16
  offset_high :: u32

definition idt_empty :: IdtEntry where
  "idt_empty = \<lparr>offset_low = 0, selector = 0, ist = 0, attributes = 0, offset_mid = 0, offset_high = 0\<rparr>"

definition set_handler :: "u64 \<Rightarrow> IdtEntry \<Rightarrow> IdtEntry" where
  "set_handler addr e =
     e\<lparr>offset_low := ucast addr, offset_mid := ucast (drop_bit 16 addr), offset_high := ucast (drop_bit 32 addr),
       selector := 0x08, attributes := 0x8E\<rparr>"

type_synonym Idt = "IdtEntry list"

definition idt_new :: Idt where
  "idt_new = replicate 256 idt_empty"

text \<open>The addresses of the handlers, a parameter fixed by the linker.\<close>

record handlers =
  divide_error_handler :: u64
  breakpoint_handler :: u64
  invalid_opcode_handler :: u64
  double_fault_handler :: u64
  general_protection_fault_handler :: u64
  page_fault_handler :: u64
  irq_stub_handler :: u64
  timer_handler_stub :: u64
  keyboard_handler :: u64
  lapic_spurious_handler :: u64

definition set_at :: "nat \<Rightarrow> u64 \<Rightarrow> Idt \<Rightarrow> Idt" where
  "set_at i addr idt = idt[i := set_handler addr (idt ! i)]"

definition init_idt :: "handlers \<Rightarrow> Idt \<Rightarrow> Idt" where
  "init_idt h idt =
     (let idt = set_at 0 (divide_error_handler h) idt;
          idt = set_at 3 (breakpoint_handler h) idt;
          idt = set_at 6 (invalid_opcode_handler h) idt;
          idt = set_at 8 (double_fault_handler h) idt;
          idt = idt[8 := (idt ! 8)\<lparr>ist := 1\<rparr>];
          idt = set_at 13 (general_protection_fault_handler h) idt;
          idt = set_at 14 (page_fault_handler h) idt;
          idt = fold (\<lambda>i. set_at i (irq_stub_handler h)) [32 ..< 48] idt;
          idt = set_at 32 (timer_handler_stub h) idt;
          idt = set_at 33 (keyboard_handler h) idt
      in set_at 0xFF (lapic_spurious_handler h) idt)"

text \<open>What the processor does with a gate: present, and where it goes.\<close>

definition gate_target :: "IdtEntry \<Rightarrow> u64 option" where
  "gate_target e =
     (if bit (attributes e) 7
      then Some (ucast (offset_low e) OR push_bit 16 (ucast (offset_mid e)) OR push_bit 32 (ucast (offset_high e)))
      else None)"

lemma gate_target_set: "gate_target (set_handler addr e) = Some addr"
proof -
  have "ucast (ucast addr :: u16) OR push_bit 16 (ucast (ucast (drop_bit 16 addr) :: u16))
      OR push_bit 32 (ucast (ucast (drop_bit 32 addr) :: u32)) = addr"
  proof (rule bit_word_eqI)
    fix n :: nat
    consider "n < 16" | "16 \<le> n \<and> n < 32" | "32 \<le> n" by linarith
    then show "bit (ucast (ucast addr :: u16) OR push_bit 16 (ucast (ucast (drop_bit 16 addr) :: u16))
      OR push_bit 32 (ucast (ucast (drop_bit 32 addr) :: u32)) :: u64) n = bit addr n"
      by cases (auto simp: bit_simps less_diff_conv2 dest: bit_imp_le_length)
  qed
  then show ?thesis by (simp add: gate_target_def set_handler_def bit_simps)
qed

lemma gate_target_ist [simp]: "gate_target (e\<lparr>ist := k\<rparr>) = gate_target e"
  by (simp add: gate_target_def)

lemma gate_target_empty: "gate_target idt_empty = None"
  by (simp add: gate_target_def idt_empty_def)

text \<open>Gate \<open>v\<close> of a table, as a partial function of the vector.\<close>

definition gates :: "Idt \<Rightarrow> nat \<Rightarrow> u64 option" where
  "gates idt v = (if v < length idt then gate_target (idt ! v) else None)"

lemma gates_set_at: "i < length idt \<Longrightarrow> gates (set_at i addr idt) = (gates idt)(i \<mapsto> addr)"
  by (rule ext) (simp add: gates_def set_at_def nth_list_update gate_target_set)

lemma length_set_at [simp]: "length (set_at i addr idt) = length idt"
  by (simp add: set_at_def)

lemma gates_ist: "i < length idt \<Longrightarrow> gates (idt[i := (idt ! i)\<lparr>ist := k\<rparr>]) = gates idt"
  by (rule ext) (simp add: gates_def nth_list_update)

lemma gates_range:
  assumes "\<forall>i \<in> set ks. i < length idt"
  shows "gates (fold (\<lambda>i. set_at i a) ks idt) = (\<lambda>v. if v \<in> set ks then Some a else gates idt v) \<and>
    length (fold (\<lambda>i. set_at i a) ks idt) = length idt"
  using assms by (induction ks arbitrary: idt) (auto simp: gates_set_at fun_eq_iff)

text \<open>
  After \<^verbatim>\<open>init_idt\<close> on an empty table, the vectors of the handled exceptions, the
  sixteen legacy interrupt lines and the spurious vector lead to their handlers (the
  three 16 and 32 bit pieces of each address recombine to it), with the timer on 32 and
  the keyboard on 33, and every other vector is absent.
\<close>

lemma init_idt_gates:
  "gates (init_idt h idt_new) v =
     (if v = 0 then Some (divide_error_handler h) else if v = 3 then Some (breakpoint_handler h)
      else if v = 6 then Some (invalid_opcode_handler h) else if v = 8 then Some (double_fault_handler h)
      else if v = 13 then Some (general_protection_fault_handler h) else if v = 14 then Some (page_fault_handler h)
      else if v = 32 then Some (timer_handler_stub h) else if v = 33 then Some (keyboard_handler h)
      else if 34 \<le> v \<and> v < 48 then Some (irq_stub_handler h)
      else if v = 255 then Some (lapic_spurious_handler h) else None)"
proof -
  have len: "length idt_new = 256" by (simp add: idt_new_def)
  have empty: "gates idt_new = (\<lambda>_. None)" by (rule ext) (simp add: gates_def idt_new_def gate_target_empty)
  let ?i1 = "set_at 8 (double_fault_handler h) (set_at 6 (invalid_opcode_handler h)
    (set_at 3 (breakpoint_handler h) (set_at 0 (divide_error_handler h) idt_new)))"
  let ?i2 = "set_at 14 (page_fault_handler h) (set_at 13 (general_protection_fault_handler h) (?i1[8 := (?i1 ! 8)\<lparr>ist := 1\<rparr>]))"
  let ?i3 = "fold (\<lambda>i. set_at i (irq_stub_handler h)) [32 ..< 48] ?i2"
  have len2: "length ?i2 = 256" by (simp add: len)
  have r: "gates ?i3 = (\<lambda>v. if v \<in> set [32 ..< 48] then Some (irq_stub_handler h) else gates ?i2 v)" "length ?i3 = 256"
    using gates_range [of "[32 ..< 48]" ?i2 "irq_stub_handler h"] len2 by (auto simp del: upt.simps)
  have g2: "gates ?i2 = (\<lambda>_. None)(0 \<mapsto> divide_error_handler h, 3 \<mapsto> breakpoint_handler h, 6 \<mapsto> invalid_opcode_handler h,
      8 \<mapsto> double_fault_handler h, 13 \<mapsto> general_protection_fault_handler h, 14 \<mapsto> page_fault_handler h)"
    by (simp add: gates_set_at gates_ist len empty)
  define i3 where "i3 = ?i3"
  have "init_idt h idt_new = set_at 0xFF (lapic_spurious_handler h) (set_at 33 (keyboard_handler h)
      (set_at 32 (timer_handler_stub h) i3))"
    unfolding init_idt_def Let_def i3_def ..
  moreover have "length i3 = 256" using r(2) unfolding i3_def .
  ultimately show ?thesis using r(1) unfolding i3_def [symmetric] g2 set_upt by (auto simp: gates_set_at)
qed

end
