(* ===== verification/Fifo.thy ===== *)
theory Fifo
  imports Prelude
begin

text \<open>
  The contract shared by the kernel's byte queues (the keyboard ring buffer of
  ross-kernel/src/kbuf.rs and the pipes of ross-kernel/src/ipc.rs): a bounded first-in
  first-out queue that drops what does not fit. The clients' lemma is proved once, for any
  sequence of insertions and removals.
\<close>

datatype 'a fifo_op = Push 'a | Pop

locale bounded_fifo =
  fixes push :: "'a \<Rightarrow> 'q \<Rightarrow> 'q"
    and pop :: "'q \<Rightarrow> 'a option \<times> 'q"
    and contents :: "'q \<Rightarrow> 'a list"
    and invar :: "'q \<Rightarrow> bool"
    and cap :: nat
  assumes invar_push: "invar q \<Longrightarrow> invar (push x q)"
    and invar_pop: "invar q \<Longrightarrow> invar (snd (pop q))"
    and contents_bound: "invar q \<Longrightarrow> length (contents q) \<le> cap"
    and contents_push: "invar q \<Longrightarrow> contents (push x q) =
      (if length (contents q) < cap then contents q @ [x] else contents q)"
    and pop_empty: "invar q \<Longrightarrow> contents q = [] \<Longrightarrow> pop q = (None, q)"
    and pop_first: "invar q \<Longrightarrow> contents q = x # xs \<Longrightarrow> fst (pop q) = Some x \<and> contents (snd (pop q)) = xs"
begin

text \<open>Running a sequence of operations collects the values accepted and delivered.\<close>

fun run :: "'a fifo_op list \<Rightarrow> 'q \<Rightarrow> 'a list \<times> 'a list \<times> 'q" where
  "run [] q = ([], [], q)"
| "run (Push x # ops) q =
     (let (acc, del, q') = run ops (push x q)
      in (if length (contents q) < cap then x # acc else acc, del, q'))"
| "run (Pop # ops) q =
     (let (r, q1) = pop q; (acc, del, q') = run ops q1
      in (acc, case r of None \<Rightarrow> del | Some x \<Rightarrow> x # del, q'))"

lemma run_fifo:
  "invar q \<Longrightarrow> run ops q = (acc, del, q') \<Longrightarrow> invar q' \<and> contents q @ acc = del @ contents q'"
proof (induction ops q arbitrary: acc del q' rule: run.induct)
  case (2 x ops q)
  obtain acc1 del1 q1 where r: "run ops (push x q) = (acc1, del1, q1)" by (cases "run ops (push x q)")
  have "invar q1 \<and> contents (push x q) @ acc1 = del1 @ contents q1"
    by (rule "2.IH" [OF invar_push [OF "2.prems"(1)] r])
  with "2.prems" r show ?case by (auto simp: contents_push split: if_splits)
next
  case (3 ops q)
  obtain r q1 where p: "pop q = (r, q1)" by (cases "pop q")
  obtain acc1 del1 q2 where t: "run ops q1 = (acc1, del1, q2)" by (cases "run ops q1")
  have inv1: "invar q1" using invar_pop [OF "3.prems"(1)] p by simp
  have IH: "invar q2 \<and> contents q1 @ acc1 = del1 @ contents q2"
    using "3.IH" [OF p [symmetric] refl inv1 t] by simp
  show ?case
  proof (cases "contents q")
    case Nil
    with pop_empty [OF "3.prems"(1)] p IH t "3.prems"(2) show ?thesis by auto
  next
    case (Cons x xs)
    with pop_first [OF "3.prems"(1)] p IH t "3.prems"(2) show ?thesis by auto
  qed
qed simp

lemma pop_after_push:
  "invar q \<Longrightarrow> contents q = [] \<Longrightarrow> 0 < cap \<Longrightarrow> fst (pop (push x q)) = Some x"
  using pop_first [OF invar_push, of q x x "[]"] contents_push [of q x] by simp

end

end
