(* ===== verification/Ipc.thy ===== *)
theory Ipc
  imports Fifo
begin

text \<open>
  Anonymous pipes (ross-kernel/src/ipc.rs): a table of at most 64 slots, each empty or a
  byte queue of at most 4096 bytes. The static \<^verbatim>\<open>PIPES\<close> behind its lock is the list
  of slots. A pipe is a \<open>bounded_fifo\<close>.
\<close>

section \<open>State and operations\<close>

definition MAX_PIPE_BYTES :: usize where "MAX_PIPE_BYTES = 4096"
definition MAX_PIPES :: usize where "MAX_PIPES = 64"

record Pipe =
  buffer :: "u8 list"
  closed :: bool

type_synonym PipeTable = "Pipe option list"

definition pipes_new :: PipeTable where
  "pipes_new = []"

definition empty_pipe :: Pipe where
  "empty_pipe = \<lparr>buffer = [], closed = False\<rparr>"

text \<open>The loop over the slots of \<^verbatim>\<open>create\<close>: the first free one.\<close>

fun first_none :: "nat \<Rightarrow> 'a option list \<Rightarrow> nat option" where
  "first_none i [] = None"
| "first_none i (None # slots) = Some i"
| "first_none i (Some x # slots) = first_none (Suc i) slots"

definition ipc_create :: "PipeTable \<Rightarrow> usize option \<times> PipeTable" where
  "ipc_create tbl =
     (case first_none 0 tbl of
        Some i \<Rightarrow> (Some i, tbl[i := Some empty_pipe])
      | None \<Rightarrow> if length tbl \<ge> MAX_PIPES then (None, tbl)
                else (Some (length tbl), tbl @ [Some empty_pipe]))"

text \<open>\<^verbatim>\<open>tbl.pipes.get_mut(id).and_then(|s| s.as_mut())\<close>.\<close>

definition get_pipe :: "PipeTable \<Rightarrow> usize \<Rightarrow> Pipe option" where
  "get_pipe tbl i = (if i < length tbl then tbl ! i else None)"

definition ipc_write :: "usize \<Rightarrow> u8 list \<Rightarrow> PipeTable \<Rightarrow> usize res \<times> PipeTable" where
  "ipc_write i data tbl =
     (case get_pipe tbl i of
        None \<Rightarrow> (Inl (Err ''''), tbl)
      | Some pipe \<Rightarrow>
          if closed pipe then (Inl (Err ''''), tbl)
          else let free = MAX_PIPE_BYTES - length (buffer pipe);
                   take_n = min free (length data)
               in (Inr take_n, tbl[i := Some (pipe\<lparr>buffer := buffer pipe @ take take_n data\<rparr>)]))"

text \<open>The bytes moved into the caller's buffer of length \<open>n\<close> are returned as a list.\<close>

definition ipc_read :: "usize \<Rightarrow> usize \<Rightarrow> PipeTable \<Rightarrow> u8 list res \<times> PipeTable" where
  "ipc_read i n tbl =
     (case get_pipe tbl i of
        None \<Rightarrow> (Inl (Err ''''), tbl)
      | Some pipe \<Rightarrow>
          let m = min n (length (buffer pipe))
          in (Inr (take m (buffer pipe)), tbl[i := Some (pipe\<lparr>buffer := drop m (buffer pipe)\<rparr>)]))"

definition ipc_close :: "usize \<Rightarrow> PipeTable \<Rightarrow> PipeTable" where
  "ipc_close i tbl = (if i < length tbl then tbl[i := None] else tbl)"

section \<open>Well-formed tables\<close>

definition pipes_inv :: "PipeTable \<Rightarrow> bool" where
  "pipes_inv tbl \<longleftrightarrow> length tbl \<le> MAX_PIPES \<and>
     (\<forall>p. Some p \<in> set tbl \<longrightarrow> length (buffer p) \<le> MAX_PIPE_BYTES \<and> \<not> closed p)"

lemma first_none_Some:
  "first_none k xs = Some i \<Longrightarrow> k \<le> i \<and> i - k < length xs \<and> xs ! (i - k) = None \<and> (\<forall>j < i - k. xs ! j \<noteq> None)"
proof (induction k xs rule: first_none.induct)
  case (3 k x slots)
  then have "Suc k \<le> i \<and> i - Suc k < length slots \<and> slots ! (i - Suc k) = None \<and> (\<forall>j < i - Suc k. slots ! j \<noteq> None)"
    by simp
  moreover from this have "i - k = Suc (i - Suc k)" by linarith
  ultimately show ?case by (auto simp: less_Suc_eq_0_disj)
qed auto

lemma first_none_None: "first_none k xs = None \<longleftrightarrow> None \<notin> set xs"
  by (induction k xs rule: first_none.induct) auto

lemma get_pipe_Some: "get_pipe tbl i = Some p \<longleftrightarrow> i < length tbl \<and> tbl ! i = Some p"
  by (auto simp: get_pipe_def)

lemma get_pipe_update: "i < length tbl \<Longrightarrow> get_pipe (tbl[i := x]) j = (if j = i then x else get_pipe tbl j)"
  by (auto simp: get_pipe_def)

lemma pipes_inv_new: "pipes_inv pipes_new"
  by (simp add: pipes_inv_def pipes_new_def)

lemma pipes_inv_update:
  assumes "pipes_inv tbl" and "\<And>p. x = Some p \<Longrightarrow> length (buffer p) \<le> MAX_PIPE_BYTES \<and> \<not> closed p"
  shows "pipes_inv (tbl[i := x])"
  using assms set_update_subset_insert [of tbl i x] by (fastforce simp: pipes_inv_def)

lemma pipes_inv_get: "pipes_inv tbl \<Longrightarrow> get_pipe tbl i = Some p \<Longrightarrow> length (buffer p) \<le> MAX_PIPE_BYTES \<and> \<not> closed p"
  by (metis get_pipe_Some nth_mem pipes_inv_def)

lemma ipc_create_inv: "pipes_inv tbl \<Longrightarrow> pipes_inv (snd (ipc_create tbl))"
  unfolding ipc_create_def
  by (auto split: option.splits intro!: pipes_inv_update simp: empty_pipe_def)
     (auto simp: pipes_inv_def)

lemma ipc_write_inv: "pipes_inv tbl \<Longrightarrow> pipes_inv (snd (ipc_write i d tbl))"
  unfolding ipc_write_def Let_def
  by (auto split: option.splits intro!: pipes_inv_update dest: pipes_inv_get)

lemma ipc_read_inv: "pipes_inv tbl \<Longrightarrow> pipes_inv (snd (ipc_read i n tbl))"
  unfolding ipc_read_def Let_def
  by (auto split: option.splits intro!: pipes_inv_update dest: pipes_inv_get)

lemma ipc_close_inv: "pipes_inv tbl \<Longrightarrow> pipes_inv (ipc_close i tbl)"
  unfolding ipc_close_def by (auto intro!: pipes_inv_update)

section \<open>A pipe is a bounded queue\<close>

definition pipe_contents :: "usize \<Rightarrow> PipeTable \<Rightarrow> u8 list" where
  "pipe_contents i tbl = (case get_pipe tbl i of None \<Rightarrow> [] | Some p \<Rightarrow> buffer p)"

definition pipe_ok :: "usize \<Rightarrow> PipeTable \<Rightarrow> bool" where
  "pipe_ok i tbl \<longleftrightarrow> pipes_inv tbl \<and> get_pipe tbl i \<noteq> None"

definition pipe_push :: "usize \<Rightarrow> u8 \<Rightarrow> PipeTable \<Rightarrow> PipeTable" where
  "pipe_push i b tbl = snd (ipc_write i [b] tbl)"

definition pipe_pop :: "usize \<Rightarrow> PipeTable \<Rightarrow> u8 option \<times> PipeTable" where
  "pipe_pop i tbl = (case ipc_read i 1 tbl of
      (Inr (b # _), tbl') \<Rightarrow> (Some b, tbl') | (_, tbl') \<Rightarrow> (None, tbl'))"

lemma ipc_write_ok:
  assumes "pipe_ok i tbl"
  shows "\<exists>tbl'. ipc_write i data tbl =
      (Inr (min (MAX_PIPE_BYTES - length (pipe_contents i tbl)) (length data)), tbl') \<and>
    pipe_contents i tbl' = pipe_contents i tbl @
      take (MAX_PIPE_BYTES - length (pipe_contents i tbl)) data \<and>
    pipe_ok i tbl' \<and> (\<forall>j. j \<noteq> i \<longrightarrow> get_pipe tbl' j = get_pipe tbl j)"
proof -
  from assms obtain p where p: "get_pipe tbl i = Some p" and inv: "pipes_inv tbl"
    by (auto simp: pipe_ok_def)
  have "\<not> closed p" using pipes_inv_get [OF inv p] by simp
  moreover have "i < length tbl" using p by (simp add: get_pipe_Some)
  ultimately show ?thesis
    using p ipc_write_inv [OF inv, of i data]
    by (auto simp: ipc_write_def pipe_contents_def pipe_ok_def get_pipe_update Let_def min_def)
qed

lemma ipc_read_ok:
  assumes "pipe_ok i tbl"
  shows "\<exists>tbl'. ipc_read i n tbl = (Inr (take n (pipe_contents i tbl)), tbl') \<and>
    pipe_contents i tbl' = drop n (pipe_contents i tbl) \<and>
    pipe_ok i tbl' \<and> (\<forall>j. j \<noteq> i \<longrightarrow> get_pipe tbl' j = get_pipe tbl j)"
proof -
  from assms obtain p where p: "get_pipe tbl i = Some p" and inv: "pipes_inv tbl"
    by (auto simp: pipe_ok_def)
  moreover have "i < length tbl" using p by (simp add: get_pipe_Some)
  ultimately show ?thesis
    using ipc_read_inv [OF inv, of i n]
    by (auto simp: ipc_read_def pipe_contents_def pipe_ok_def get_pipe_update Let_def min_def)
qed

interpretation pq: bounded_fifo "pipe_push i" "pipe_pop i" "pipe_contents i" "pipe_ok i" MAX_PIPE_BYTES for i
proof unfold_locales
  fix q x xs assume ok: "pipe_ok i q"
  obtain w where w: "ipc_write i [x] q = (Inr (min (MAX_PIPE_BYTES - length (pipe_contents i q)) 1), w)"
    "pipe_contents i w = pipe_contents i q @ take (MAX_PIPE_BYTES - length (pipe_contents i q)) [x]"
    "pipe_ok i w" using ipc_write_ok [OF ok, of "[x]"] by auto
  obtain r where r: "ipc_read i 1 q = (Inr (take 1 (pipe_contents i q)), r)"
    "pipe_contents i r = drop 1 (pipe_contents i q)" "pipe_ok i r"
    using ipc_read_ok [OF ok, of 1] by auto
  show "pipe_ok i (pipe_push i x q)" using w by (simp add: pipe_push_def)
  show "pipe_ok i (snd (pipe_pop i q))" using r by (auto simp: pipe_pop_def split: list.splits)
  show bound: "length (pipe_contents i q) \<le> MAX_PIPE_BYTES"
    using ok pipes_inv_get by (auto simp: pipe_ok_def pipe_contents_def)
  show "pipe_contents i (pipe_push i x q) =
      (if length (pipe_contents i q) < MAX_PIPE_BYTES then pipe_contents i q @ [x] else pipe_contents i q)"
    using w bound by (auto simp: pipe_push_def take_Cons' split: if_splits)
  show "pipe_pop i q = (None, q)" if "pipe_contents i q = []"
  proof -
    obtain p where p: "get_pipe q i = Some p" using ok by (auto simp: pipe_ok_def)
    then have "buffer p = []" using that by (simp add: pipe_contents_def)
    moreover have "q[i := Some p] = q" using p by (simp add: get_pipe_Some list_update_same_conv)
    moreover have same: "p\<lparr>buffer := []\<rparr> = p" using \<open>buffer p = []\<close> by (cases p) simp
    ultimately have "q[i := Some (p\<lparr>buffer := []\<rparr>)] = q" unfolding same by simp
    then show ?thesis using p \<open>buffer p = []\<close> by (simp add: pipe_pop_def ipc_read_def Let_def)
  qed
  show "fst (pipe_pop i q) = Some x \<and> pipe_contents i (snd (pipe_pop i q)) = xs"
    if "pipe_contents i q = x # xs"
    using r that by (simp add: pipe_pop_def)
qed

text \<open>
  \<^bold>\<open>C24.\<close> Pipes are bounded byte streams: a write of any length to a live pipe accepts exactly
  the prefix that fits in 4096 bytes, a following read of any length returns bytes of the
  stream in order and leaves the rest, so that what is read followed by what remains is
  what was there followed by what was accepted; no other pipe changes.
\<close>

theorem pipe_stream:
  assumes "pipe_ok i tbl"
  shows "\<exists>n tbl1 out tbl2. ipc_write i data tbl = (Inr n, tbl1) \<and> ipc_read i m tbl1 = (Inr out, tbl2) \<and>
    n = min (MAX_PIPE_BYTES - length (pipe_contents i tbl)) (length data) \<and>
    out @ pipe_contents i tbl2 = pipe_contents i tbl @ take n data \<and>
    length out = min m (length (pipe_contents i tbl) + n) \<and> pipe_ok i tbl2 \<and>
    (\<forall>j. j \<noteq> i \<longrightarrow> get_pipe tbl2 j = get_pipe tbl j)"
proof -
  let ?free = "MAX_PIPE_BYTES - length (pipe_contents i tbl)"
  obtain tbl1 where w: "ipc_write i data tbl = (Inr (min ?free (length data)), tbl1)"
    "pipe_contents i tbl1 = pipe_contents i tbl @ take ?free data" "pipe_ok i tbl1"
    "\<forall>j. j \<noteq> i \<longrightarrow> get_pipe tbl1 j = get_pipe tbl j" using ipc_write_ok [OF assms] by blast
  obtain tbl2 where r: "ipc_read i m tbl1 = (Inr (take m (pipe_contents i tbl1)), tbl2)"
    "pipe_contents i tbl2 = drop m (pipe_contents i tbl1)" "pipe_ok i tbl2"
    "\<forall>j. j \<noteq> i \<longrightarrow> get_pipe tbl2 j = get_pipe tbl1 j" using ipc_read_ok [OF w(3)] by blast
  have cut: "take (min ?free (length data)) data = take ?free data" by (simp add: min_def)
  have "take m (pipe_contents i tbl1) @ pipe_contents i tbl2 = pipe_contents i tbl1"
    by (simp add: r(2))
  moreover have "length (take m (pipe_contents i tbl1)) =
      min m (length (pipe_contents i tbl) + min ?free (length data))"
    by (simp add: w(2) min.commute)
  moreover have "\<forall>j. j \<noteq> i \<longrightarrow> get_pipe tbl2 j = get_pipe tbl j" using w(4) r(4) by simp
  ultimately show ?thesis
    using w(1,2) r(1,3) cut by (intro exI conjI) (assumption | simp)+
qed

lemma create_first: "ipc_create pipes_new = (Some 0, [Some empty_pipe])"
  by (simp add: ipc_create_def pipes_new_def MAX_PIPES_def)

lemma first_pipe_ok: "pipe_ok 0 [Some empty_pipe]"
  by (simp add: pipe_ok_def pipes_inv_def get_pipe_def empty_pipe_def MAX_PIPES_def)

theorem pipe_stream_witness:
  "\<exists>n tbl1 out tbl2. ipc_write 0 [104, 105] [Some empty_pipe] = (Inr n, tbl1) \<and>
     ipc_read 0 1 tbl1 = (Inr out, tbl2) \<and> out @ pipe_contents 0 tbl2 = take n [104, 105]"
proof -
  have "pipe_contents 0 [Some empty_pipe] = []"
    by (simp add: pipe_contents_def get_pipe_def empty_pipe_def)
  with pipe_stream [OF first_pipe_ok, of "[104, 105]" 1] show ?thesis by (metis append_Nil)
qed

text \<open>
  \<^verbatim>\<open>create\<close> never disturbs an existing pipe: the identifier it returns named no
  live pipe, now names an empty one, and every other identifier resolves as before; it
  fails, changing nothing, exactly when 64 pipes are live.
\<close>

lemma ipc_create_fresh:
  assumes "pipes_inv tbl"
  shows "case ipc_create tbl of
      (Some i, tbl') \<Rightarrow> i < MAX_PIPES \<and> get_pipe tbl i = None \<and> get_pipe tbl' i = Some empty_pipe \<and>
        (\<forall>j. j \<noteq> i \<longrightarrow> get_pipe tbl' j = get_pipe tbl j) \<and> pipes_inv tbl'
    | (None, tbl') \<Rightarrow> tbl' = tbl \<and> (\<forall>i < MAX_PIPES. get_pipe tbl i \<noteq> None)"
proof (cases "first_none 0 tbl")
  case None
  then have "get_pipe tbl i \<noteq> None" if "i < length tbl" for i
    using that by (auto simp: first_none_None get_pipe_def) (metis nth_mem option.exhaust)
  then show ?thesis
    using None assms ipc_create_inv [OF assms]
    by (auto simp: ipc_create_def get_pipe_def nth_append pipes_inv_def split: if_splits)
next
  case (Some i)
  then have "i < length tbl" "tbl ! i = None" using first_none_Some by fastforce+
  then show ?thesis
    using Some assms ipc_create_inv [OF assms]
    by (auto simp: ipc_create_def get_pipe_update) (auto simp: get_pipe_def pipes_inv_def)
qed

text \<open>
  The comment on \<^verbatim>\<open>close\<close> promises to release the slot once drained; the code
  releases it at once and what was still queued is gone.
\<close>

lemma ipc_close_discards:
  "get_pipe (ipc_close i tbl) i = None"
  "j \<noteq> i \<Longrightarrow> get_pipe (ipc_close i tbl) j = get_pipe tbl j"
  by (auto simp: ipc_close_def get_pipe_def)

end
