(* ===== verification/Fd.thy ===== *)
theory Fd
  imports Ipc
begin

text \<open>
  Per-task file descriptor tables (ross-kernel/src/fd.rs): 64 slots, of which 0, 1 and 2
  start as the standard streams and are never handed out again. The node behind an open
  file (\<^verbatim>\<open>Arc<dyn VfsNode>\<close>) is the type parameter \<open>'n\<close>.
\<close>

section \<open>State and operations\<close>

definition FD_MAX :: usize where "FD_MAX = 64"

datatype 'n FdEntry = Stdin | Stdout | Stderr | PipeFd usize | VfsFile 'n usize

type_synonym 'n FdTable = "'n FdEntry option list"

definition fd_new :: "'n FdTable" where
  "fd_new = replicate FD_MAX None"

definition with_stdio :: "'n FdTable" where
  "with_stdio = fd_new[0 := Some Stdin, 1 := Some Stdout, 2 := Some Stderr]"

text \<open>The loop \<^verbatim>\<open>for i in 3..FD_MAX\<close>.\<close>

definition fd_alloc :: "'n FdEntry \<Rightarrow> 'n FdTable \<Rightarrow> usize option \<times> 'n FdTable" where
  "fd_alloc entry t =
     (case find (\<lambda>i. t ! i = None) [3 ..< FD_MAX] of
        Some i \<Rightarrow> (Some i, t[i := Some entry])
      | None \<Rightarrow> (None, t))"

definition fd_get :: "'n FdTable \<Rightarrow> usize \<Rightarrow> 'n FdEntry option" where
  "fd_get t fd = (if fd < length t then t ! fd else None)"

text \<open>\<^verbatim>\<open>get_mut\<close> followed by a store through the reference.\<close>

definition fd_set :: "usize \<Rightarrow> 'n FdEntry \<Rightarrow> 'n FdTable \<Rightarrow> 'n FdTable" where
  "fd_set fd e t = (if fd_get t fd = None then t else t[fd := Some e])"

definition fd_close :: "usize \<Rightarrow> 'n FdTable \<Rightarrow> bool \<times> 'n FdTable" where
  "fd_close fd t =
     (if fd < FD_MAX \<and> t ! fd \<noteq> None then (True, t[fd := None]) else (False, t))"

section \<open>The handle-table interface\<close>

text \<open>What the system calls rely on: lookups after an insertion or a removal.\<close>

locale handle_table =
  fixes insert_h :: "'e \<Rightarrow> 't \<Rightarrow> nat option \<times> 't"
    and lookup_h :: "'t \<Rightarrow> nat \<Rightarrow> 'e option"
    and remove_h :: "nat \<Rightarrow> 't \<Rightarrow> bool \<times> 't"
    and invar :: "'t \<Rightarrow> bool"
    and usable :: "nat set"
  assumes finite_usable: "finite usable"
    and insert_ok: "invar t \<Longrightarrow> insert_h e t = (Some h, t') \<Longrightarrow>
      h \<in> usable \<and> lookup_h t h = None \<and> lookup_h t' = (lookup_h t)(h \<mapsto> e) \<and> invar t'"
    and insert_full: "invar t \<Longrightarrow> insert_h e t = (None, t') \<Longrightarrow> t' = t \<and> usable \<subseteq> dom (lookup_h t)"
    and remove_ok: "invar t \<Longrightarrow> remove_h h t = (b, t') \<Longrightarrow>
      b = (lookup_h t h \<noteq> None) \<and> lookup_h t' = (lookup_h t)(h := None) \<and> invar t'"
begin

lemma insert_succeeds:
  "invar t \<Longrightarrow> h \<in> usable \<Longrightarrow> lookup_h t h = None \<Longrightarrow> \<exists>h' t'. insert_h e t = (Some h', t')"
  using insert_full [of t e] by (metis domIff not_None_eq subsetD surj_pair)

lemma insert_remove:
  assumes "invar t" and "insert_h e t = (Some h, t1)" and "remove_h h t1 = (b, t2)"
  shows "b \<and> lookup_h t2 = lookup_h t"
  using insert_ok [OF assms(1,2)] remove_ok [of t1 h b t2] assms(3) by auto

lemma inserts_distinct:
  assumes "invar t" and "insert_h e t = (Some h, t1)" and "insert_h e' t1 = (Some h', t2)"
  shows "h \<noteq> h' \<and> lookup_h t2 h = Some e \<and> lookup_h t2 h' = Some e'"
  using insert_ok [OF assms(1,2)] insert_ok [of t1 e' h' t2] assms(3) by auto

end

definition fd_inv :: "'n FdTable \<Rightarrow> bool" where
  "fd_inv t \<longleftrightarrow> length t = FD_MAX"

lemma fd_inv_stdio [simp]: "fd_inv with_stdio"
  by (simp add: fd_inv_def with_stdio_def fd_new_def)

lemma fd_alloc_Some:
  assumes "fd_inv t" and "fd_alloc e t = (Some i, t')"
  shows "3 \<le> i \<and> i < FD_MAX \<and> fd_get t i = None \<and> t' = t[i := Some e] \<and> (\<forall>j. 3 \<le> j \<and> j < i \<longrightarrow> fd_get t j \<noteq> None)"
proof -
  from assms(2) have f: "find (\<lambda>i. t ! i = None) [3 ..< FD_MAX] = Some i" and t': "t' = t[i := Some e]"
    by (auto simp: fd_alloc_def split: option.splits)
  from f obtain k where k: "k < FD_MAX - 3" "i = 3 + k" "t ! i = None" "\<forall>j < k. t ! (3 + j) \<noteq> None"
    by (auto simp: find_Some_iff)
  have "t ! j \<noteq> None" if "3 \<le> j" "j < i" for j
    using k(2,4) that by (metis add_less_cancel_left le_add_diff_inverse)
  with k t' assms(1) show ?thesis by (auto simp: fd_get_def fd_inv_def)
qed

lemma fd_alloc_None:
  "fd_inv t \<Longrightarrow> fd_alloc e t = (None, t') \<Longrightarrow> t' = t \<and> {3 ..< FD_MAX} \<subseteq> dom (fd_get t)"
  by (auto simp: fd_alloc_def find_None_iff fd_get_def fd_inv_def split: option.splits)

lemma fd_get_update: "i < length t \<Longrightarrow> fd_get (t[i := x]) = (fd_get t)(i := x)"
  by (auto simp: fd_get_def)

interpretation fdt: handle_table fd_alloc fd_get fd_close fd_inv "{3 ..< FD_MAX}"
proof unfold_locales
  show "finite {3 ..< FD_MAX}" by simp
next
  fix t :: "'a FdTable" and e h t' assume "fd_inv t" "fd_alloc e t = (Some h, t')"
  with fd_alloc_Some [OF this]
  show "h \<in> {3 ..< FD_MAX} \<and> fd_get t h = None \<and> fd_get t' = (fd_get t)(h \<mapsto> e) \<and> fd_inv t'"
    by (auto simp: fd_get_update fd_inv_def)
next
  fix t :: "'a FdTable" and e t' assume "fd_inv t" "fd_alloc e t = (None, t')"
  then show "t' = t \<and> {3 ..< FD_MAX} \<subseteq> dom (fd_get t)" by (rule fd_alloc_None)
next
  fix t :: "'a FdTable" and h b t' assume "fd_inv t" "fd_close h t = (b, t')"
  then show "b = (fd_get t h \<noteq> None) \<and> fd_get t' = (fd_get t)(h := None) \<and> fd_inv t'"
    by (auto simp: fd_close_def fd_get_update fd_inv_def fd_get_def split: if_splits)
qed

section \<open>Properties\<close>

text \<open>
  Descriptor allocation returns the lowest free descriptor from 3 up, makes it refer
  to the given entry and changes no other descriptor; it fails, changing nothing, exactly
  when descriptors 3 to 63 are all in use. Closing the descriptor restores every lookup,
  and closing it a second time reports failure.
\<close>

lemma fd_alloc_lowest:
  assumes "fd_inv t"
  shows "case fd_alloc e t of
      (Some fd, t1) \<Rightarrow> fd_get t fd = None \<and> 3 \<le> fd \<and> fd < FD_MAX \<and>
        (\<forall>j. 3 \<le> j \<and> j < fd \<longrightarrow> fd_get t j \<noteq> None) \<and> fd_get t1 = (fd_get t)(fd \<mapsto> e) \<and> fd_inv t1 \<and>
        (let (ok, t2) = fd_close fd t1 in ok \<and> fd_get t2 = fd_get t \<and> \<not> fst (fd_close fd t2))
    | (None, t1) \<Rightarrow> t1 = t \<and> (\<forall>j. 3 \<le> j \<and> j < FD_MAX \<longrightarrow> fd_get t j \<noteq> None)"
proof (cases "fd_alloc e t")
  case (Pair r t1)
  show ?thesis
  proof (cases r)
    case None
    with fd_alloc_None [OF assms, of e t1] Pair show ?thesis by (auto simp: dom_def)
  next
    case (Some fd)
    note al = Pair [unfolded Some]
    obtain ok t2 where c: "fd_close fd t1 = (ok, t2)" by (cases "fd_close fd t1")
    note ins = fdt.insert_ok [OF assms al]
    have "fd_inv t2" using fdt.remove_ok [of t1 fd ok t2] ins c by simp
    then have "\<not> fst (fd_close fd t2)"
      using fdt.remove_ok [of t2 fd] fdt.insert_remove [OF assms al c] ins
      by (cases "fd_close fd t2") auto
    with fdt.insert_remove [OF assms al c] ins c al fd_alloc_Some [OF assms al] show ?thesis by auto
  qed
qed

end
