(* ===== verification/Task.thy ===== *)
theory Task
  imports Memory Gdt Fd
begin

text \<open>
  Tasks and the scheduler (ross-kernel/src/task.rs) and the timer interrupt that switches
  between them (idt.rs). A task's kernel stack lies in kernel memory; the register file is
  saved on it by the interrupt stub, whose pushes and pops are modelled one by one.
\<close>

section \<open>Tasks\<close>

datatype TaskState = Ready | Running | Blocked | Dead

record 'n Task =
  task_id :: usize
  kernel_stack_top :: u64
  task_rsp :: u64
  task_cr3 :: u64
  task_state :: TaskState
  is_user :: bool
  fd_table :: "'n FdTable"
  heap_end :: u64

definition STACK_SIZE :: nat where "STACK_SIZE = 0x2000"

definition push64 :: "u64 \<Rightarrow> u64 \<times> mem \<Rightarrow> u64 \<times> mem" where
  "push64 v = (\<lambda>(rsp, m). (rsp - 8, wr64 (rsp - 8) v m))"

definition push_all :: "u64 list \<Rightarrow> u64 \<times> mem \<Rightarrow> u64 \<times> mem" where
  "push_all vs = fold push64 vs"

text \<open>
  \<^verbatim>\<open>Task::new\<close>. The address \<open>stk\<close> of the zeroed stack buffer comes from the heap allocator
  and \<open>next_id\<close> is the value of \<^verbatim>\<open>NEXT_ID\<close> that \<^verbatim>\<open>fetch_add\<close> returns.
\<close>

definition task_new :: "u64 \<Rightarrow> usize \<Rightarrow> u64 \<Rightarrow> u64 \<Rightarrow> u64 \<Rightarrow> bool \<Rightarrow> mem \<Rightarrow> 'n Task \<times> mem" where
  "task_new stk next_id entry_point stack_top cr3 user m =
     (let m0 = fill_bytes stk STACK_SIZE 0 m;
          internal_stack_top = stk + of_nat STACK_SIZE;
          cs = (if user then 0x23 else 0x08);
          ss = (if user then 0x1B else 0x10);
          sp = (if stack_top = 0 then internal_stack_top else stack_top);
          (rsp, m') = push_all ([ss, sp, 0x202, cs, entry_point] @ replicate 15 0) (internal_stack_top, m0)
      in (\<lparr>task_id = next_id, kernel_stack_top = internal_stack_top, task_rsp = rsp, task_cr3 = cr3,
           task_state = Ready, is_user = user, fd_table = with_stdio, heap_end = 0\<rparr>, m'))"

definition main_task :: "usize \<Rightarrow> u64 \<Rightarrow> 'n Task" where
  "main_task next_id cr3 =
     \<lparr>task_id = next_id, kernel_stack_top = 0, task_rsp = 0, task_cr3 = cr3, task_state = Running,
      is_user = False, fd_table = with_stdio, heap_end = 0\<rparr>"

section \<open>The scheduler\<close>

record 'n Scheduler =
  tasks :: "'n Task list"
  current_task :: "'n Task option"

definition scheduler_new :: "'n Scheduler" where
  "scheduler_new = \<lparr>tasks = [], current_task = None\<rparr>"

definition set_main :: "'n Task \<Rightarrow> 'n Scheduler \<Rightarrow> 'n Scheduler" where
  "set_main t s = s\<lparr>current_task := Some t\<rparr>"

definition add_task :: "'n Task \<Rightarrow> 'n Scheduler \<Rightarrow> 'n Scheduler" where
  "add_task t s = s\<lparr>tasks := tasks s @ [t]\<rparr>"

record TaskSwitchResult =
  res_rsp :: u64
  res_cr3 :: u64

text \<open>The first half of \<^verbatim>\<open>pick_next\<close>: the running task goes to the back of the queue, or is dropped.\<close>

definition requeue :: "u64 \<Rightarrow> 'n Scheduler \<Rightarrow> 'n Scheduler" where
  "requeue current_rsp s =
     (case current_task s of
        None \<Rightarrow> s
      | Some current \<Rightarrow>
          if task_state current = Dead then s\<lparr>current_task := None\<rparr>
          else s\<lparr>current_task := None,
                 tasks := tasks s @ [current\<lparr>task_rsp := current_rsp, task_state := Ready\<rparr>]\<rparr>)"

text \<open>\<open>cr3_reg\<close> is the value \<^verbatim>\<open>mov {}, cr3\<close> reads when the queue is empty.\<close>

definition pick_next :: "u64 \<Rightarrow> u64 \<Rightarrow> 'n Scheduler \<times> Tss \<Rightarrow> TaskSwitchResult \<times> 'n Scheduler \<times> Tss" where
  "pick_next current_rsp cr3_reg = (\<lambda>(s, tss).
     let s1 = requeue current_rsp s in
     case tasks s1 of
       nxt # rest \<Rightarrow>
         let nxt' = nxt\<lparr>task_state := Running\<rparr>;
             tss' = (if is_user nxt then set_tss_stack (kernel_stack_top nxt) tss else tss)
         in (\<lparr>res_rsp = task_rsp nxt, res_cr3 = task_cr3 nxt\<rparr>,
             s1\<lparr>tasks := rest, current_task := Some nxt'\<rparr>, tss')
     | [] \<Rightarrow> (\<lparr>res_rsp = current_rsp, res_cr3 = cr3_reg\<rparr>, s1, tss))"

section \<open>The timer interrupt\<close>

text \<open>The registers saved across a switch.\<close>

record ctx =
  rax :: u64
  rcx :: u64
  rdx :: u64
  rbx :: u64
  rbp :: u64
  rsi :: u64
  rdi :: u64
  r8 :: u64
  r9 :: u64
  r10 :: u64
  r11 :: u64
  r12 :: u64
  r13 :: u64
  r14 :: u64
  r15 :: u64
  rip :: u64
  cs_sel :: u64
  rflags :: u64
  rsp :: u64
  ss_sel :: u64

text \<open>What is pushed, in order: by the processor on interrupt entry, then by the stub.\<close>

definition cpu_pushes :: "ctx \<Rightarrow> u64 list" where
  "cpu_pushes c = [ss_sel c, rsp c, rflags c, cs_sel c, rip c]"

definition stub_pushes :: "ctx \<Rightarrow> u64 list" where
  "stub_pushes c = [rax c, rcx c, rdx c, rbx c, rbp c, rsi c, rdi c, r8 c, r9 c, r10 c, r11 c, r12 c, r13 c, r14 c, r15 c]"

text \<open>The pops of the stub followed by \<^verbatim>\<open>iretq\<close>, reading upwards from the new stack pointer.\<close>

definition stub_restore :: "mem \<Rightarrow> u64 \<Rightarrow> ctx" where
  "stub_restore m sp =
     \<lparr>rax = rd64 m (sp + 112), rcx = rd64 m (sp + 104), rdx = rd64 m (sp + 96), rbx = rd64 m (sp + 88),
      rbp = rd64 m (sp + 80), rsi = rd64 m (sp + 72), rdi = rd64 m (sp + 64), r8 = rd64 m (sp + 56),
      r9 = rd64 m (sp + 48), r10 = rd64 m (sp + 40), r11 = rd64 m (sp + 32), r12 = rd64 m (sp + 24),
      r13 = rd64 m (sp + 16), r14 = rd64 m (sp + 8), r15 = rd64 m sp,
      rip = rd64 m (sp + 120), cs_sel = rd64 m (sp + 128), rflags = rd64 m (sp + 136),
      rsp = rd64 m (sp + 144), ss_sel = rd64 m (sp + 152)\<rparr>"

record 'n machine =
  kmem :: mem
  cpu :: ctx
  cr3 :: u64
  sched :: "'n Scheduler"
  tss :: Tss
  pit_ticks :: u64

text \<open>Where the processor starts to push: the ring-0 stack of the TSS, or the aligned current stack.\<close>

definition int_stack :: "'n machine \<Rightarrow> u64" where
  "int_stack s = (if cs_sel (cpu s) AND 3 = 3 then rsp0 (tss s) else rsp (cpu s) AND NOT 0xF)"

definition task_timer_handler :: "u64 \<Rightarrow> 'n machine \<Rightarrow> TaskSwitchResult \<times> 'n machine" where
  "task_timer_handler sp s =
     (let (res, sched', tss') = pick_next sp (cr3 s) (sched s, tss s)
      in (res, s\<lparr>pit_ticks := pit_ticks s + 1, sched := sched', tss := tss'\<rparr>))"

definition timer_interrupt :: "'n machine \<Rightarrow> 'n machine" where
  "timer_interrupt s =
     (let (sp, m1) = push_all (cpu_pushes (cpu s) @ stub_pushes (cpu s)) (int_stack s, kmem s);
          (res, s1) = task_timer_handler sp (s\<lparr>kmem := m1\<rparr>)
      in s1\<lparr>cpu := stub_restore m1 (res_rsp res), cr3 := res_cr3 res\<rparr>)"

section \<open>Frames on the stack\<close>

lemma push_all_Nil [simp]: "push_all [] st = st"
  by (simp add: push_all_def)

lemma push_all_snoc: "push_all (vs @ [v]) st = push64 v (push_all vs st)"
  by (simp add: push_all_def)

lemma push_all_rsp: "fst (push_all vs (sp, m)) = sp - 8 * of_nat (length vs)"
  by (induction vs rule: rev_induct) (auto simp: push_all_snoc push64_def algebra_simps split: prod.splits)

lemma aligned_minus_8: "aligned 3 sp \<Longrightarrow> aligned 3 (sp - 8 * k)"
  using aligned_diff [of 3 sp "8 * k"] aligned_mult [of 3 k] by simp

lemma eight_mult_inject: "i < 1000 \<Longrightarrow> j < 1000 \<Longrightarrow> (8 * of_nat i :: u64) = 8 * of_nat j \<longleftrightarrow> i = j"
proof
  assume "i < 1000" "j < 1000" and "(8 * of_nat i :: u64) = 8 * of_nat j"
  then have "unat (8 * of_nat i :: u64) = unat (8 * of_nat j :: u64)" by simp
  with \<open>i < 1000\<close> \<open>j < 1000\<close> show "i = j" by (simp add: unat_word_ariths unat_of_nat)
qed simp

text \<open>Pushes are read back at their addresses, and leave the other words alone.\<close>

lemma push_all_rd:
  assumes "aligned 3 sp" and "length vs < 1000"
  shows "i < length vs \<Longrightarrow> rd64 (snd (push_all vs (sp, m))) (sp - 8 * of_nat (Suc i)) = vs ! i"
    and "aligned 3 a \<Longrightarrow> (\<And>i. i < length vs \<Longrightarrow> a \<noteq> sp - 8 * of_nat (Suc i)) \<Longrightarrow>
      rd64 (snd (push_all vs (sp, m))) a = rd64 m a"
proof -
  have eq: "snd (push_all (vs @ [v]) (sp, m)) = wr64 (sp - 8 * of_nat (Suc (length vs))) v (snd (push_all vs (sp, m)))" for vs v
    using push_all_rsp [of vs sp m]
    by (cases "push_all vs (sp, m)") (simp add: push_all_snoc push64_def diff_diff_add distrib_left add.commute)
  have al: "aligned 3 (sp - 8 * of_nat k)" for k by (rule aligned_minus_8 [OF assms(1)])
  show "i < length vs \<Longrightarrow> rd64 (snd (push_all vs (sp, m))) (sp - 8 * of_nat (Suc i)) = vs ! i"
    using assms(2)
  proof (induction vs arbitrary: i rule: rev_induct)
    case (snoc v vs)
    show ?case
    proof (cases "i = length vs")
      case True
      then show ?thesis unfolding eq by (simp add: rd64_wr64_same)
    next
      case False
      then have i: "i < length vs" using snoc.prems by simp
      have "sp - 8 * of_nat (Suc (length vs)) \<noteq> sp - 8 * of_nat (Suc i)"
        using eight_mult_inject [of "Suc (length vs)" "Suc i"] i snoc.prems by (simp del: of_nat_Suc)
      then show ?thesis
        unfolding eq using snoc.IH [OF i] snoc.prems i by (simp add: rd64_wr64_other al nth_append del: of_nat_Suc)
    qed
  qed simp
  show "aligned 3 a \<Longrightarrow> (\<And>i. i < length vs \<Longrightarrow> a \<noteq> sp - 8 * of_nat (Suc i)) \<Longrightarrow>
      rd64 (snd (push_all vs (sp, m))) a = rd64 m a"
  proof (induction vs rule: rev_induct)
    case (snoc v vs)
    have "a \<noteq> sp - 8 * of_nat (Suc (length vs))" using snoc.prems(2) [of "length vs"] by simp
    then show ?case
      unfolding eq using snoc.IH [OF snoc.prems(1)] snoc.prems
      by (subst rd64_wr64_other) (auto simp: al simp del: of_nat_Suc)
  qed simp
qed

text \<open>The twenty words of a saved context.\<close>

definition frame_words :: "u64 \<Rightarrow> u64 set" where
  "frame_words sp = (\<lambda>k. sp + 8 * of_nat k) ` {..<20}"

lemma frame_wordI: "k < 20 \<Longrightarrow> sp + 8 * of_nat k \<in> frame_words sp"
  by (simp add: frame_words_def)

lemma frame_word_num:
  "sp \<in> frame_words sp" "sp + 8 \<in> frame_words sp" "sp + 16 \<in> frame_words sp" "sp + 24 \<in> frame_words sp"
  "sp + 32 \<in> frame_words sp" "sp + 40 \<in> frame_words sp" "sp + 48 \<in> frame_words sp" "sp + 56 \<in> frame_words sp"
  "sp + 64 \<in> frame_words sp" "sp + 72 \<in> frame_words sp" "sp + 80 \<in> frame_words sp" "sp + 88 \<in> frame_words sp"
  "sp + 96 \<in> frame_words sp" "sp + 104 \<in> frame_words sp" "sp + 112 \<in> frame_words sp" "sp + 120 \<in> frame_words sp"
  "sp + 128 \<in> frame_words sp" "sp + 136 \<in> frame_words sp" "sp + 144 \<in> frame_words sp" "sp + 152 \<in> frame_words sp"
  using frame_wordI [of 0 sp] frame_wordI [of 1 sp] frame_wordI [of 2 sp] frame_wordI [of 3 sp] frame_wordI [of 4 sp]
    frame_wordI [of 5 sp] frame_wordI [of 6 sp] frame_wordI [of 7 sp] frame_wordI [of 8 sp] frame_wordI [of 9 sp]
    frame_wordI [of 10 sp] frame_wordI [of 11 sp] frame_wordI [of 12 sp] frame_wordI [of 13 sp] frame_wordI [of 14 sp]
    frame_wordI [of 15 sp] frame_wordI [of 16 sp] frame_wordI [of 17 sp] frame_wordI [of 18 sp] frame_wordI [of 19 sp]
  by simp_all

lemma stub_restore_cong:
  assumes "\<And>a. a \<in> frame_words sp \<Longrightarrow> rd64 m' a = rd64 m a"
  shows "stub_restore m' sp = stub_restore m sp"
  unfolding stub_restore_def by (simp add: assms frame_word_num)

lemma restore_after_save:
  assumes "aligned 3 sp"
  shows "stub_restore (snd (push_all (cpu_pushes c @ stub_pushes c) (sp, m))) (sp - 160) = c"
proof -
  let ?vs = "cpu_pushes c @ stub_pushes c" and ?m = "snd (push_all (cpu_pushes c @ stub_pushes c) (sp, m))"
  have len: "length ?vs = 20" by (simp add: cpu_pushes_def stub_pushes_def)
  have rd: "rd64 ?m (sp - 8 * of_nat (Suc i)) = ?vs ! i" if "i < 20" for i
    using push_all_rd(1) [OF assms, of ?vs i m] that len by simp
  note w = rd [of 0] rd [of 1] rd [of 2] rd [of 3] rd [of 4] rd [of 5] rd [of 6] rd [of 7] rd [of 8] rd [of 9]
    rd [of 10] rd [of 11] rd [of 12] rd [of 13] rd [of 14] rd [of 15] rd [of 16] rd [of 17] rd [of 18] rd [of 19]
  show ?thesis
    unfolding stub_restore_def using w by (simp add: cpu_pushes_def stub_pushes_def)
qed

text \<open>Pushing at most 1000 words from the top of a stack of 0x2000 bytes stays inside it.\<close>

lemma push_all_bytes:
  assumes "length vs \<le> 1000" and "unat (x - stk) \<ge> 0x2000"
  shows "snd (push_all vs (stk + 0x2000, m)) x = m x"
  using assms(1)
proof (induction vs rule: rev_induct)
  case (snoc v vs)
  define o' where "o' = (0x2000 - 8 * of_nat (Suc (length vs)) :: u64)"
  have k: "8 * Suc (length vs) \<le> 0x2000" using snoc.prems by simp
  have o: "unat o' = 0x2000 - 8 * Suc (length vs)"
  proof -
    have u: "unat (8 * of_nat (Suc (length vs)) :: u64) = 8 * Suc (length vs)"
      using k by (simp add: unat_word_ariths unat_of_nat del: of_nat_Suc)
    then have "8 * of_nat (Suc (length vs)) \<le> (0x2000 :: u64)" using k by (simp add: word_le_nat_alt del: of_nat_Suc)
    then show ?thesis unfolding o'_def using u by (simp add: unat_sub del: of_nat_Suc)
  qed
  have "\<not> unat (x - (stk + o')) < 8"
  proof
    assume lt: "unat (x - (stk + o')) < 8"
    have "x - stk = o' + (x - (stk + o'))" by simp
    then have "unat (x - stk) = unat (o' + (x - (stk + o')))" by metis
    also have "\<dots> = unat o' + unat (x - (stk + o'))"
      using lt o k by (subst unat_add_lem [symmetric]) (simp_all add: unat_add_lem)
    finally show False using lt o k assms(2) by simp
  qed
  moreover have "fst (push_all vs (stk + 0x2000, m)) - 8 = stk + o'"
    unfolding push_all_rsp o'_def by (simp add: algebra_simps)
  ultimately show ?case
    using snoc by (cases "push_all vs (stk + 0x2000, m)") (simp add: push_all_snoc push64_def wr64_def wr_bytes_def)
qed simp

lemma task_new_frame:
  assumes "aligned 3 stk"
  shows "case task_new stk i entry st cr3v user m of (t, m') \<Rightarrow>
    stub_restore m' (task_rsp t) =
      \<lparr>rax = 0, rcx = 0, rdx = 0, rbx = 0, rbp = 0, rsi = 0, rdi = 0, r8 = 0, r9 = 0, r10 = 0, r11 = 0,
       r12 = 0, r13 = 0, r14 = 0, r15 = 0, rip = entry, cs_sel = (if user then 0x23 else 0x08), rflags = 0x202,
       rsp = (if st = 0 then stk + 0x2000 else st), ss_sel = (if user then 0x1B else 0x10)\<rparr> \<and>
    task_rsp t = stk + 0x2000 - 160 \<and> kernel_stack_top t = stk + 0x2000 \<and> task_cr3 t = cr3v \<and>
    task_state t = Ready \<and> is_user t = user \<and> task_id t = i \<and>
    (\<forall>x. unat (x - stk) \<ge> STACK_SIZE \<longrightarrow> m' x = m x)"
proof -
  define c where "c = \<lparr>rax = 0, rcx = 0, rdx = 0, rbx = 0, rbp = 0, rsi = 0, rdi = 0, r8 = 0, r9 = 0, r10 = 0, r11 = 0,
       r12 = 0, r13 = 0, r14 = 0, r15 = 0, rip = entry, cs_sel = (if user then 0x23 else 0x08), rflags = 0x202,
       rsp = (if st = 0 then stk + 0x2000 else st), ss_sel = (if user then 0x1B else 0x10)\<rparr>"
  have vs: "[if user then 0x1B else 0x10, if st = 0 then stk + of_nat STACK_SIZE else st, 0x202, if user then 0x23 else 0x08, entry]
      @ replicate 15 0 = cpu_pushes c @ stub_pushes c"
    by (simp add: c_def cpu_pushes_def stub_pushes_def numeral_eq_Suc STACK_SIZE_def)
  define p where "p = push_all (cpu_pushes c @ stub_pushes c) (stk + of_nat STACK_SIZE, fill_bytes stk STACK_SIZE 0 m)"
  have new: "task_new stk i entry st cr3v user m =
      (\<lparr>task_id = i, kernel_stack_top = stk + of_nat STACK_SIZE, task_rsp = fst p, task_cr3 = cr3v,
        task_state = Ready, is_user = user, fd_table = with_stdio, heap_end = 0\<rparr>, snd p)"
    unfolding task_new_def Let_def vs p_def by (simp split: prod.split)
  have al: "aligned 3 (stk + of_nat STACK_SIZE)"
    using assms by (intro aligned_add) (simp_all add: STACK_SIZE_def aligned_def)
  have sp: "fst p = stk + 0x2000 - 160"
    unfolding p_def push_all_rsp by (simp add: cpu_pushes_def stub_pushes_def STACK_SIZE_def)
  moreover have "stub_restore (snd p) (stk + 0x2000 - 160) = c"
    using restore_after_save [OF al, of c] unfolding p_def by (simp add: STACK_SIZE_def)
  moreover have "snd p x = m x" if "unat (x - stk) \<ge> STACK_SIZE" for x
    using push_all_bytes [of "cpu_pushes c @ stub_pushes c" x stk "fill_bytes stk STACK_SIZE 0 m"] that
    unfolding p_def by (simp add: cpu_pushes_def stub_pushes_def STACK_SIZE_def fill_bytes_def)
  ultimately show ?thesis unfolding new by (simp add: c_def STACK_SIZE_def)
qed

text \<open>
  A new task starts as its creator asked: restoring from the frame that
  \<^verbatim>\<open>Task::new\<close> built on the fresh stack, as the timer stub does, enters at the entry point
  with the requested stack (the task's own stack for 0), interrupts enabled, cleared
  general registers and the ring-3 or ring-0 selectors; the frame lies inside the stack
  buffer, and memory outside the buffer is untouched.
\<close>

lemma task_new_starts:
  assumes "aligned 3 stk"
  shows "case task_new stk i entry st cr3v user m of (t, m') \<Rightarrow>
    stub_restore m' (task_rsp t) =
      \<lparr>rax = 0, rcx = 0, rdx = 0, rbx = 0, rbp = 0, rsi = 0, rdi = 0, r8 = 0, r9 = 0, r10 = 0, r11 = 0,
       r12 = 0, r13 = 0, r14 = 0, r15 = 0, rip = entry, cs_sel = (if user then 0x23 else 0x08), rflags = 0x202,
       rsp = (if st = 0 then stk + 0x2000 else st), ss_sel = (if user then 0x1B else 0x10)\<rparr> \<and>
    task_rsp t = stk + 0x2000 - 160 \<and> kernel_stack_top t = stk + 0x2000 \<and> task_cr3 t = cr3v \<and>
    task_state t = Ready \<and> is_user t = user \<and> task_id t = i \<and>
    (\<forall>x. unat (x - stk) \<ge> STACK_SIZE \<longrightarrow> m' x = m x)"
  by (rule task_new_frame [OF assms])

section \<open>Round robin\<close>

text \<open>Everything the scheduler holds, the running task first.\<close>

definition all_tasks :: "'n Scheduler \<Rightarrow> 'n Task list" where
  "all_tasks s = (case current_task s of None \<Rightarrow> [] | Some c \<Rightarrow> [c]) @ tasks s"

definition ids :: "'n Scheduler \<Rightarrow> usize list" where
  "ids s = map task_id (all_tasks s)"

definition sched_inv :: "'n Scheduler \<Rightarrow> bool" where
  "sched_inv s \<longleftrightarrow> distinct (ids s) \<and> (\<forall>t \<in> set (tasks s). task_state t = Ready) \<and>
     (\<forall>c. current_task s = Some c \<longrightarrow> task_state c = Running \<or> task_state c = Dead)"

lemma pick_next_live:
  assumes "current_task s = Some c" and "task_state c \<noteq> Dead" and "tasks s = t # ts"
  shows "pick_next sp r (s, T) =
    (\<lparr>res_rsp = task_rsp t, res_cr3 = task_cr3 t\<rparr>,
     \<lparr>tasks = ts @ [c\<lparr>task_rsp := sp, task_state := Ready\<rparr>], current_task = Some (t\<lparr>task_state := Running\<rparr>)\<rparr>,
     if is_user t then set_tss_stack (kernel_stack_top t) T else T)"
  using assms by (simp add: pick_next_def requeue_def)

lemma pick_next_alone:
  assumes "current_task s = Some c" and "task_state c \<noteq> Dead" and "tasks s = []"
  shows "pick_next sp r (s, T) =
    (\<lparr>res_rsp = sp, res_cr3 = task_cr3 c\<rparr>,
     \<lparr>tasks = [], current_task = Some (c\<lparr>task_rsp := sp, task_state := Running\<rparr>)\<rparr>,
     if is_user c then set_tss_stack (kernel_stack_top c) T else T)"
  using assms by (simp add: pick_next_def requeue_def)

lemma pick_next_dead:
  assumes "current_task s = Some c" and "task_state c = Dead" and "tasks s = t # ts"
  shows "pick_next sp r (s, T) =
    (\<lparr>res_rsp = task_rsp t, res_cr3 = task_cr3 t\<rparr>, \<lparr>tasks = ts, current_task = Some (t\<lparr>task_state := Running\<rparr>)\<rparr>,
     if is_user t then set_tss_stack (kernel_stack_top t) T else T)"
  using assms by (simp add: pick_next_def requeue_def)

lemma pick_next_ids:
  assumes "current_task s = Some c" and "task_state c \<noteq> Dead"
  shows "ids (fst (snd (pick_next sp r (s, T)))) = rotate1 (ids s)"
  using assms pick_next_live [OF assms] pick_next_alone [OF assms]
  by (cases "tasks s") (simp_all add: ids_def all_tasks_def)

lemma pick_next_inv:
  assumes inv: "sched_inv s" and c: "current_task s = Some c" and q: "tasks s \<noteq> []"
  shows "sched_inv (fst (snd (pick_next sp r (s, T))))"
proof -
  obtain t ts where ts: "tasks s = t # ts" using q by (cases "tasks s") auto
  show ?thesis
  proof (cases "task_state c = Dead")
    case True
    then show ?thesis using inv c ts pick_next_dead [OF c True ts]
      by (simp add: sched_inv_def ids_def all_tasks_def)
  next
    case False
    have "distinct (ids (fst (snd (pick_next sp r (s, T)))))"
      using pick_next_ids [OF c False] inv by (simp add: sched_inv_def)
    then show ?thesis using inv c ts pick_next_live [OF c False ts] by (auto simp: sched_inv_def)
  qed
qed

text \<open>A sequence of ticks, each with the stack pointer and cr3 it finds.\<close>

fun run_ticks :: "(u64 \<times> u64) list \<Rightarrow> 'n Scheduler \<times> Tss \<Rightarrow> 'n Scheduler \<times> Tss" where
  "run_ticks [] st = st"
| "run_ticks ((sp, r) # xs) st = run_ticks xs (snd (pick_next sp r st))"

text \<open>The part of a scheduler that stays when nothing dies.\<close>

definition live :: "'n Scheduler \<Rightarrow> bool" where
  "live s \<longleftrightarrow> (\<exists>c. current_task s = Some c) \<and> (\<forall>t \<in> set (all_tasks s). task_state t \<noteq> Dead)"

lemma pick_next_live_kept:
  assumes "live s"
  shows "live (fst (snd (pick_next sp r (s, T))))"
proof -
  obtain c where c: "current_task s = Some c" "task_state c \<noteq> Dead" using assms by (auto simp: live_def all_tasks_def)
  then show ?thesis
    using assms pick_next_live [OF c] pick_next_alone [OF c]
    by (cases "tasks s") (auto simp: live_def all_tasks_def)
qed

lemma run_ticks_ids:
  "live s \<Longrightarrow> ids (fst (run_ticks xs (s, T))) = rotate (length xs) (ids s) \<and> live (fst (run_ticks xs (s, T)))"
proof (induction xs arbitrary: s T)
  case (Cons x xs)
  obtain sp r where x: "x = (sp, r)" by (cases x)
  obtain res s' T' where pn: "pick_next sp r (s, T) = (res, s', T')" by (metis surj_pair)
  obtain c where c: "current_task s = Some c" "task_state c \<noteq> Dead"
    using Cons.prems by (auto simp: live_def all_tasks_def)
  have "live s'" "ids s' = rotate1 (ids s)"
    using pick_next_live_kept [OF Cons.prems, of sp r T] pick_next_ids [OF c, of sp r T] pn by simp_all
  then show ?case using Cons.IH [of s' T'] x pn by (simp add: rotate1_rotate_swap)
qed simp

text \<open>
  \<^bold>\<open>C14.\<close> The scheduler is a fair round robin. As long as no task dies, after \<open>k\<close> ticks the
  running task is the one that was \<open>k\<close> places behind, cyclically, in the order running
  task first, then the queue; so with \<open>n\<close> tasks each runs exactly every \<open>n\<close>-th tick. No
  task is lost or duplicated.
\<close>

theorem round_robin:
  assumes "live s"
  shows "ids (fst (run_ticks xs (s, T))) = rotate (length xs) (ids s) \<and>
    map_option task_id (current_task (fst (run_ticks xs (s, T)))) = Some (ids s ! (length xs mod length (ids s)))"
proof -
  let ?s' = "fst (run_ticks xs (s, T))"
  have r: "ids ?s' = rotate (length xs) (ids s)" "live ?s'" using run_ticks_ids [OF assms] by simp_all
  have ne: "ids s \<noteq> []" using assms by (auto simp: live_def ids_def all_tasks_def)
  obtain c where c: "current_task ?s' = Some c" using r(2) by (auto simp: live_def)
  then have "hd (ids ?s') = task_id c" by (simp add: ids_def all_tasks_def)
  then show ?thesis using r(1) c ne by (simp add: hd_rotate_conv_nth)
qed

text \<open>
  A task marked dead by \<^verbatim>\<open>sys_exit\<close> runs until the next tick and never again: that
  tick drops it, resumes the head of the queue, and keeps the invariant, and no later tick
  brings it back.
\<close>

lemma dead_task_dropped:
  assumes "sched_inv s" and "current_task s = Some c" and "task_state c = Dead" and "tasks s = t # ts"
  shows "case pick_next sp r (s, T) of (res, s', T') \<Rightarrow>
    res_rsp res = task_rsp t \<and> res_cr3 res = task_cr3 t \<and> sched_inv s' \<and>
    ids s' = map task_id (tasks s) \<and> task_id c \<notin> set (ids s') \<and>
    (live s' \<longrightarrow> (\<forall>xs. task_id c \<notin> set (ids (fst (run_ticks xs (s', T'))))))"
proof -
  obtain res s' T' where pn: "pick_next sp r (s, T) = (res, s', T')" by (metis surj_pair)
  have "sched_inv s'" using pick_next_inv [OF assms(1,2), of sp r T] assms(4) pn by simp
  moreover have ids: "ids s' = map task_id (tasks s)"
    using pick_next_dead [OF assms(2-4), of sp r T] pn assms(4) by (auto simp: ids_def all_tasks_def)
  moreover have nin: "task_id c \<notin> set (ids s')"
    using assms(1,2) ids by (auto simp: sched_inv_def ids_def all_tasks_def)
  moreover have "task_id c \<notin> set (ids (fst (run_ticks xs (s', T'))))" if "live s'" for xs
    using run_ticks_ids [OF that, of xs T'] nin by simp
  moreover have "res = \<lparr>res_rsp = task_rsp t, res_cr3 = task_cr3 t\<rparr>"
    using pick_next_dead [OF assms(2-4), of sp r T] pn by simp
  ultimately show ?thesis using pn by simp
qed

definition demo_task :: "usize \<Rightarrow> TaskState \<Rightarrow> u64 \<Rightarrow> unit Task" where
  "demo_task i st sp = \<lparr>task_id = i, kernel_stack_top = 0, task_rsp = sp, task_cr3 = 0x1000, task_state = st,
     is_user = False, fd_table = with_stdio, heap_end = 0\<rparr>"

theorem round_robin_witness:
  "map_option task_id (current_task (fst (run_ticks [(0x100, 0), (0x200, 0)]
     (\<lparr>tasks = [demo_task 1 Ready 0x9000, demo_task 2 Ready 0xA000], current_task = Some (demo_task 0 Running 0)\<rparr>, tss_new)))) = Some 2"
proof -
  let ?s = "\<lparr>tasks = [demo_task 1 Ready 0x9000, demo_task 2 Ready 0xA000], current_task = Some (demo_task 0 Running 0)\<rparr>"
  have "live ?s" by (simp add: live_def all_tasks_def demo_task_def)
  from round_robin [OF this, of "[(0x100, 0), (0x200, 0)]" tss_new]
  show ?thesis by (simp add: ids_def all_tasks_def demo_task_def)
qed

section \<open>Context switches\<close>

text \<open>The context a queued task will resume with.\<close>

definition saved :: "'n machine \<Rightarrow> 'n Task \<Rightarrow> ctx" where
  "saved s t = stub_restore (kmem s) (task_rsp t)"

definition contexts :: "'n machine \<Rightarrow> ctx list" where
  "contexts s = cpu s # map (saved s) (tasks (sched s))"

text \<open>
  The stack discipline the switch relies on: the frame about to be pushed lies on none of
  the frames saved for the queued tasks.
\<close>

definition frames_apart :: "'n machine \<Rightarrow> bool" where
  "frames_apart s \<longleftrightarrow> aligned 3 (int_stack s) \<and>
     (\<forall>t \<in> set (tasks (sched s)). aligned 3 (task_rsp t) \<and>
        frame_words (task_rsp t) \<inter> frame_words (int_stack s - 160) = {})"

lemma frame_words_below:
  assumes "i < 20"
  shows "sp - 8 * of_nat (Suc i) \<in> frame_words (sp - 160)"
proof -
  have "sp - 8 * of_nat (Suc i) = sp - 160 + 8 * of_nat (19 - i)"
    using assms by (simp add: of_nat_diff algebra_simps)
  moreover have "sp - 160 + 8 * of_nat (19 - i) \<in> frame_words (sp - 160)" by (rule frame_wordI) simp
  ultimately show ?thesis by metis
qed

lemma aligned_frame_word: "aligned 3 sp \<Longrightarrow> a \<in> frame_words sp \<Longrightarrow> aligned 3 a"
  using aligned_add aligned_mult [of 3] by (auto simp: frame_words_def)

lemma saved_kept:
  assumes al: "aligned 3 sp" and t: "aligned 3 r" "frame_words r \<inter> frame_words (sp - 160) = {}"
  shows "stub_restore (snd (push_all (cpu_pushes c @ stub_pushes c) (sp, m))) r = stub_restore m r"
proof (rule stub_restore_cong)
  let ?vs = "cpu_pushes c @ stub_pushes c"
  fix a assume a: "a \<in> frame_words r"
  have len: "length ?vs = 20" by (simp add: cpu_pushes_def stub_pushes_def)
  have "a \<noteq> sp - 8 * of_nat (Suc i)" if "i < length ?vs" for i
    using frame_words_below [of i sp] that len a t(2) by auto
  then show "rd64 (snd (push_all ?vs (sp, m))) a = rd64 m a"
    using push_all_rd(2) [OF al, of ?vs a m] aligned_frame_word [OF t(1) a] len by simp
qed

lemma timer_interrupt_live:
  assumes "current_task (sched s) = Some c" and "task_state c \<noteq> Dead" and "tasks (sched s) = t # ts"
  defines "m1 \<equiv> snd (push_all (cpu_pushes (cpu s) @ stub_pushes (cpu s)) (int_stack s, kmem s))"
  shows "timer_interrupt s = s\<lparr>kmem := m1, pit_ticks := pit_ticks s + 1,
      cpu := stub_restore m1 (task_rsp t), cr3 := task_cr3 t,
      sched := \<lparr>tasks = ts @ [c\<lparr>task_rsp := int_stack s - 160, task_state := Ready\<rparr>],
                current_task = Some (t\<lparr>task_state := Running\<rparr>)\<rparr>,
      tss := (if is_user t then set_tss_stack (kernel_stack_top t) (tss s) else tss s)\<rparr>"
proof -
  let ?p = "push_all (cpu_pushes (cpu s) @ stub_pushes (cpu s)) (int_stack s, kmem s)"
  have "fst ?p = int_stack s - 160" unfolding push_all_rsp by (simp add: cpu_pushes_def stub_pushes_def)
  then have p: "?p = (int_stack s - 160, m1)" by (simp add: m1_def prod_eq_iff)
  show ?thesis
    unfolding timer_interrupt_def p Let_def prod.case task_timer_handler_def
    using pick_next_live [of "sched s", OF assms(1-3)] by simp
qed

text \<open>
  \<^bold>\<open>C8.\<close> The timer interrupt switches contexts without loss. With the frames apart, the
  list of contexts (the processor's, then the saved one of each queued task) is rotated
  by one place: the processor resumes with exactly the registers the next task was saved
  with, the interrupted task is saved with exactly the registers it had, and the saved
  contexts of the others stay intact. cr3 becomes the next task's, and for a user task
  the ring-0 stack becomes its kernel stack.
\<close>

theorem timer_interrupt_rotates:
  assumes "current_task (sched s) = Some c" and "task_state c \<noteq> Dead" and "tasks (sched s) = t # ts"
    and "frames_apart s"
  shows "contexts (timer_interrupt s) = rotate1 (contexts s) \<and>
    ids (sched (timer_interrupt s)) = rotate1 (ids (sched s)) \<and> cr3 (timer_interrupt s) = task_cr3 t \<and>
    (is_user t \<longrightarrow> rsp0 (tss (timer_interrupt s)) = kernel_stack_top t)"
proof -
  let ?m1 = "snd (push_all (cpu_pushes (cpu s) @ stub_pushes (cpu s)) (int_stack s, kmem s))"
  have al: "aligned 3 (int_stack s)" using assms(4) by (simp add: frames_apart_def)
  have keep: "stub_restore ?m1 (task_rsp u) = stub_restore (kmem s) (task_rsp u)" if "u \<in> set (t # ts)" for u
    using assms(3,4) that by (intro saved_kept [OF al]) (auto simp: frames_apart_def)
  note step = timer_interrupt_live [OF assms(1-3)]
  have "contexts (timer_interrupt s) = rotate1 (contexts s)"
    unfolding step contexts_def saved_def using keep restore_after_save [OF al, of "cpu s" "kmem s"] assms(3) by simp
  then show ?thesis
    unfolding step using assms(1-3) by (simp add: ids_def all_tasks_def set_tss_stack_def)
qed

definition demo_machine :: "unit machine" where
  "demo_machine =
     \<lparr>kmem = (\<lambda>_. 0), cpu = \<lparr>rax = 1, rcx = 2, rdx = 3, rbx = 4, rbp = 5, rsi = 6, rdi = 7, r8 = 8, r9 = 9, r10 = 10,
        r11 = 11, r12 = 12, r13 = 13, r14 = 14, r15 = 15, rip = 0x1234, cs_sel = 0x08, rflags = 0x202, rsp = 0x20000, ss_sel = 0x10\<rparr>,
      cr3 = 0x1000, sched = \<lparr>tasks = [demo_task 1 Ready 0x9000], current_task = Some (demo_task 0 Running 0)\<rparr>,
      tss = tss_new, pit_ticks = 0\<rparr>"

theorem timer_interrupt_rotates_witness:
  "contexts (timer_interrupt demo_machine) = rotate1 (contexts demo_machine)"
proof -
  have sp: "int_stack demo_machine = 0x20000" by (simp add: int_stack_def demo_machine_def)
  have "frame_words 0x9000 \<inter> frame_words (0x20000 - 160) = {}"
  proof (rule ccontr)
    assume "frame_words 0x9000 \<inter> frame_words (0x20000 - 160) \<noteq> {}"
    then obtain i j :: nat where "i < 20" "j < 20" and "(0x9000 + 8 * of_nat i :: u64) = 0x20000 - 160 + 8 * of_nat j"
      by (auto simp: frame_words_def)
    then have "unat (0x9000 + 8 * of_nat i :: u64) = unat (0x1FF60 + 8 * of_nat j :: u64)" by simp
    with \<open>i < 20\<close> \<open>j < 20\<close> show False by (simp add: unat_word_ariths unat_of_nat)
  qed
  then have "frames_apart demo_machine"
    unfolding frames_apart_def sp by (simp add: demo_machine_def demo_task_def aligned_def)
  then show ?thesis
    using timer_interrupt_rotates [of demo_machine "demo_task 0 Running 0" "demo_task 1 Ready 0x9000" "[]"]
    by (simp add: demo_machine_def demo_task_def)
qed

end
