(* ===== verification/Kbuf.thy ===== *)
theory Kbuf
  imports Fifo
begin

text \<open>
  The keyboard ring buffer and the scancode table (ross-kernel/src/kbuf.rs). The statics
  \<^verbatim>\<open>BUFFER\<close>, \<^verbatim>\<open>HEAD\<close> and \<^verbatim>\<open>TAIL\<close> are a record. \<open>push\<close> runs in
  the IRQ1 handler and so to completion; \<open>pop\<close> can be interrupted between its loads and
  its store, which the second half of the theory models step by step.
\<close>

section \<open>State and operations\<close>

definition BUF_SIZE :: usize where "BUF_SIZE = 256"

record kbuf =
  BUFFER :: "u8 list"
  HEAD :: usize
  TAIL :: usize

definition kbuf_init :: kbuf where
  "kbuf_init = \<lparr>BUFFER = replicate BUF_SIZE 0, HEAD = 0, TAIL = 0\<rparr>"

definition kbuf_push :: "u8 \<Rightarrow> kbuf \<Rightarrow> kbuf" where
  "kbuf_push byte k =
     (let head = HEAD k; nxt = (head + 1) mod BUF_SIZE in
      if nxt \<noteq> TAIL k then k\<lparr>BUFFER := (BUFFER k)[head := byte], HEAD := nxt\<rparr> else k)"

definition kbuf_pop :: "kbuf \<Rightarrow> u8 option \<times> kbuf" where
  "kbuf_pop k =
     (let tail = TAIL k in
      if tail = HEAD k then (None, k)
      else (Some (BUFFER k ! tail), k\<lparr>TAIL := (tail + 1) mod BUF_SIZE\<rparr>))"

text \<open>The table \<^verbatim>\<open>MAP\<close>: codes 0 to 57.\<close>

definition scancode_map :: "u8 list" where
  "scancode_map =
     [0, 0x1B, 49, 50, 51, 52, 53, 54,
      55, 56, 57, 48, 45, 61, 8, 9,
      113, 119, 101, 114, 116, 121, 117, 105,
      111, 112, 91, 93, 10, 0, 97, 115,
      100, 102, 103, 104, 106, 107, 108, 59,
      39, 96, 0, 92, 122, 120, 99, 118,
      98, 110, 109, 44, 46, 47, 0, 42,
      0, 32]"

definition scancode_to_ascii :: "u8 \<Rightarrow> u8 option" where
  "scancode_to_ascii sc =
     (if sc AND 0x80 \<noteq> 0 then None
      else let idx = unat sc in
        if idx < length scancode_map \<and> scancode_map ! idx \<noteq> 0 then Some (scancode_map ! idx) else None)"

section \<open>The ring buffer is a bounded queue\<close>

definition kbuf_inv :: "kbuf \<Rightarrow> bool" where
  "kbuf_inv k \<longleftrightarrow> length (BUFFER k) = BUF_SIZE \<and> HEAD k < BUF_SIZE \<and> TAIL k < BUF_SIZE"

definition kbuf_len :: "kbuf \<Rightarrow> nat" where
  "kbuf_len k = (HEAD k + BUF_SIZE - TAIL k) mod BUF_SIZE"

definition kbuf_list :: "kbuf \<Rightarrow> u8 list" where
  "kbuf_list k = map (\<lambda>i. BUFFER k ! ((TAIL k + i) mod BUF_SIZE)) [0 ..< kbuf_len k]"

lemma length_kbuf_list [simp]: "length (kbuf_list k) = kbuf_len k"
  by (simp add: kbuf_list_def)

lemma kbuf_len_cases:
  assumes "kbuf_inv k"
  shows "kbuf_len k = (if TAIL k \<le> HEAD k then HEAD k - TAIL k else HEAD k + BUF_SIZE - TAIL k)"
  using assms by (auto simp: kbuf_len_def kbuf_inv_def BUF_SIZE_def mod_if)

lemma kbuf_len_bound: "kbuf_inv k \<Longrightarrow> kbuf_len k < BUF_SIZE"
  by (auto simp: kbuf_len_cases kbuf_inv_def)

lemma kbuf_empty_iff: "kbuf_inv k \<Longrightarrow> kbuf_len k = 0 \<longleftrightarrow> TAIL k = HEAD k"
  by (auto simp: kbuf_len_cases kbuf_inv_def)

lemma kbuf_full_iff: "kbuf_inv k \<Longrightarrow> kbuf_len k = 255 \<longleftrightarrow> (HEAD k + 1) mod BUF_SIZE = TAIL k"
  by (auto simp: kbuf_len_cases kbuf_inv_def BUF_SIZE_def mod_if split: if_splits)

lemma kbuf_push_inv: "kbuf_inv k \<Longrightarrow> kbuf_inv (kbuf_push b k)"
  by (auto simp: kbuf_inv_def kbuf_push_def Let_def BUF_SIZE_def)

lemma kbuf_pop_inv: "kbuf_inv k \<Longrightarrow> kbuf_inv (snd (kbuf_pop k))"
  by (auto simp: kbuf_inv_def kbuf_pop_def Let_def BUF_SIZE_def)

lemma ring_succ_len:
  fixes h t h' :: nat
  assumes "h < 256" and "t < 256" and "h' = (if h = 255 then 0 else h + 1)" and "h' \<noteq> t"
  shows "(if t \<le> h' then h' - t else h' + 256 - t) = Suc (if t \<le> h then h - t else h + 256 - t)"
  using assms by (cases "h = 255") auto

lemma ring_slot:
  fixes h t i :: nat
  assumes "h < 256" and "t < 256" and "i \<le> (if t \<le> h then h - t else h + 256 - t)"
  shows "(t + i) mod 256 = h \<longleftrightarrow> i = (if t \<le> h then h - t else h + 256 - t)"
proof (cases "t + i < 256")
  case True
  with assms show ?thesis by (auto split: if_splits)
next
  case False
  then have "(t + i) mod 256 = t + i - 256"
    using assms by (subst mod_if) (auto simp: mod_less split: if_splits)
  with False assms show ?thesis by (auto split: if_splits)
qed
lemma kbuf_push_accept:
  assumes inv: "kbuf_inv k" and room: "(HEAD k + 1) mod BUF_SIZE \<noteq> TAIL k"
  shows "kbuf_list (kbuf_push b k) = kbuf_list k @ [b]"
proof -
  let ?k = "kbuf_push b k"
  have k': "?k = k\<lparr>BUFFER := (BUFFER k)[HEAD k := b], HEAD := (HEAD k + 1) mod BUF_SIZE\<rparr>"
    using room by (simp add: kbuf_push_def Let_def)
  have len: "kbuf_len ?k = Suc (kbuf_len k)"
  proof -
    have h: "HEAD ?k = (if HEAD k = 255 then 0 else HEAD k + 1)" "TAIL ?k = TAIL k"
      using inv by (auto simp: k' kbuf_inv_def BUF_SIZE_def)
    have b: "HEAD k < 256" "TAIL k < 256" "HEAD ?k \<noteq> TAIL k"
      using inv room by (auto simp: k' kbuf_inv_def BUF_SIZE_def)
    show ?thesis
      unfolding kbuf_len_cases [OF inv] kbuf_len_cases [OF kbuf_push_inv [OF inv]] BUF_SIZE_def h(2)
      by (rule ring_succ_len [OF b(1,2) h(1) b(3)])
  qed
  have slot: "(TAIL k + i) mod BUF_SIZE = HEAD k \<longleftrightarrow> i = kbuf_len k" if "i \<le> kbuf_len k" for i
  proof -
    have b: "HEAD k < 256" "TAIL k < 256" using inv by (simp_all add: kbuf_inv_def BUF_SIZE_def)
    show ?thesis
      using ring_slot [OF b, of i] that unfolding kbuf_len_cases [OF inv] BUF_SIZE_def by blast
  qed
  show ?thesis
  proof (rule nth_equalityI)
    show "length (kbuf_list ?k) = length (kbuf_list k @ [b])" by (simp add: len)
  next
    fix i assume "i < length (kbuf_list ?k)"
    then have "i < kbuf_len k \<or> i = kbuf_len k" by (auto simp: len)
    then show "kbuf_list ?k ! i = (kbuf_list k @ [b]) ! i"
      using inv slot [of i] len
      by (auto simp: kbuf_list_def nth_append k' kbuf_inv_def nth_list_update simp del: upt_Suc)
  qed
qed

lemma kbuf_push_drop: "(HEAD k + 1) mod BUF_SIZE = TAIL k \<Longrightarrow> kbuf_push b k = k"
  by (simp add: kbuf_push_def Let_def)

lemma kbuf_pop_nonempty:
  assumes inv: "kbuf_inv k" and ne: "TAIL k \<noteq> HEAD k"
  shows "kbuf_list k = BUFFER k ! TAIL k # kbuf_list (k\<lparr>TAIL := (TAIL k + 1) mod BUF_SIZE\<rparr>)"
proof -
  let ?k = "k\<lparr>TAIL := (TAIL k + 1) mod BUF_SIZE\<rparr>"
  have inv': "kbuf_inv ?k" using inv by (simp add: kbuf_inv_def BUF_SIZE_def)
  have len: "kbuf_len k = Suc (kbuf_len ?k)"
    using inv inv' ne by (simp add: kbuf_len_cases) (auto simp: kbuf_inv_def BUF_SIZE_def mod_if split: if_splits)
  have "BUFFER k ! ((TAIL ?k + i) mod BUF_SIZE) = BUFFER k ! ((TAIL k + Suc i) mod BUF_SIZE)" for i
    by (simp add: mod_simps)
  moreover have "[0 ..< Suc (kbuf_len ?k)] = 0 # map Suc [0 ..< kbuf_len ?k]"
    by (simp add: upt_conv_Cons map_Suc_upt del: upt_Suc)
  ultimately show ?thesis
    using inv by (simp add: kbuf_list_def len kbuf_inv_def o_def del: upt_Suc)
qed

interpretation kb: bounded_fifo kbuf_push kbuf_pop kbuf_list kbuf_inv 255
proof unfold_locales
  fix q x xs assume inv: "kbuf_inv q"
  show "kbuf_inv (kbuf_push x q)" by (rule kbuf_push_inv [OF inv])
  show "kbuf_inv (snd (kbuf_pop q))" by (rule kbuf_pop_inv [OF inv])
  show "length (kbuf_list q) \<le> 255" using kbuf_len_bound [OF inv] by (simp add: BUF_SIZE_def)
  show "kbuf_list (kbuf_push x q) =
      (if length (kbuf_list q) < 255 then kbuf_list q @ [x] else kbuf_list q)"
    using kbuf_len_bound [OF inv] kbuf_full_iff [OF inv] kbuf_push_accept [OF inv] kbuf_push_drop
    by (cases "(HEAD q + 1) mod BUF_SIZE = TAIL q") (auto simp: BUF_SIZE_def)
  show "kbuf_pop q = (None, q)" if "kbuf_list q = []"
    using that inv by (auto simp: kbuf_pop_def Let_def simp flip: length_0_conv dest: kbuf_empty_iff)
  show "fst (kbuf_pop q) = Some x \<and> kbuf_list (snd (kbuf_pop q)) = xs" if "kbuf_list q = x # xs"
  proof -
    have "TAIL q \<noteq> HEAD q" using that kbuf_empty_iff [OF inv] length_kbuf_list [of q] by auto
    then show ?thesis using that kbuf_pop_nonempty [OF inv] by (auto simp: kbuf_pop_def Let_def)
  qed
qed

text \<open>
  For any sequence of scancode pushes and pops from any well-formed ring buffer, the
  bytes delivered followed by the bytes still queued are the bytes queued before followed
  by the bytes accepted: first in, first out, nothing lost, nothing duplicated. A push is
  accepted exactly while fewer than 255 bytes are queued and is dropped otherwise.
\<close>

lemma kbuf_fifo:
  assumes "kbuf_inv k" and "kb.run ops k = (acc, del, k')"
  shows "kbuf_list k @ acc = del @ kbuf_list k' \<and> kbuf_inv k' \<and> length (kbuf_list k') \<le> 255 \<and>
    kbuf_list (kbuf_push b k') =
      (if length (kbuf_list k') < 255 then kbuf_list k' @ [b] else kbuf_list k')"
  using kb.run_fifo [OF assms] kb.contents_push kb.contents_bound by metis

lemma kbuf_init_inv: "kbuf_inv kbuf_init"
  by (simp add: kbuf_inv_def kbuf_init_def BUF_SIZE_def)

lemma kbuf_init_list: "kbuf_list kbuf_init = []"
  by (simp add: kbuf_list_def kbuf_len_def kbuf_init_def)

section \<open>Interrupted pops\<close>

text \<open>
  The steps of \<^verbatim>\<open>pop\<close>: load \<^verbatim>\<open>TAIL\<close>, load \<^verbatim>\<open>HEAD\<close> and compare, read
  the slot, store \<^verbatim>\<open>TAIL\<close>. The program counter of a consumer is a \<open>popper\<close>; a key
  press (IRQ1) may come between any two steps. \<open>accepted\<close> and \<open>delivered\<close> record what the
  producer stored and what the consumer returned.
\<close>

datatype popper = PIdle | PTail usize | PNonEmpty usize | PByte usize u8

record kstate =
  ring :: kbuf
  consumer :: popper
  accepted :: "u8 list"
  delivered :: "u8 list"

definition push_accepts :: "kbuf \<Rightarrow> bool" where
  "push_accepts k \<longleftrightarrow> (HEAD k + 1) mod BUF_SIZE \<noteq> TAIL k"

inductive kstep :: "kstate \<Rightarrow> kstate \<Rightarrow> bool" where
  irq1: "kstep s (s\<lparr>ring := kbuf_push b (ring s),
     accepted := (if push_accepts (ring s) then accepted s @ [b] else accepted s)\<rparr>)"
| load_tail: "consumer s = PIdle \<Longrightarrow> kstep s (s\<lparr>consumer := PTail (TAIL (ring s))\<rparr>)"
| empty: "consumer s = PTail t \<Longrightarrow> t = HEAD (ring s) \<Longrightarrow> kstep s (s\<lparr>consumer := PIdle\<rparr>)"
| nonempty: "consumer s = PTail t \<Longrightarrow> t \<noteq> HEAD (ring s) \<Longrightarrow> kstep s (s\<lparr>consumer := PNonEmpty t\<rparr>)"
| read_slot: "consumer s = PNonEmpty t \<Longrightarrow> kstep s (s\<lparr>consumer := PByte t (BUFFER (ring s) ! t)\<rparr>)"
| store_tail: "consumer s = PByte t b \<Longrightarrow>
     kstep s (s\<lparr>ring := (ring s)\<lparr>TAIL := (t + 1) mod BUF_SIZE\<rparr>, consumer := PIdle, delivered := delivered s @ [b]\<rparr>)"

inductive kreach :: "kstate \<Rightarrow> bool" where
  start: "kreach \<lparr>ring = kbuf_init, consumer = PIdle, accepted = [], delivered = []\<rparr>"
| step: "kreach s \<Longrightarrow> kstep s s' \<Longrightarrow> kreach s'"

definition popper_ok :: "kstate \<Rightarrow> bool" where
  "popper_ok s \<longleftrightarrow> (case consumer s of
       PIdle \<Rightarrow> True
     | PTail t \<Rightarrow> t = TAIL (ring s)
     | PNonEmpty t \<Rightarrow> t = TAIL (ring s) \<and> t \<noteq> HEAD (ring s)
     | PByte t b \<Rightarrow> t = TAIL (ring s) \<and> t \<noteq> HEAD (ring s) \<and> b = BUFFER (ring s) ! t)"

definition kinv :: "kstate \<Rightarrow> bool" where
  "kinv s \<longleftrightarrow> kbuf_inv (ring s) \<and> popper_ok s \<and> accepted s = delivered s @ kbuf_list (ring s)"

lemma push_keeps_nonempty:
  assumes "kbuf_inv k"
  shows "TAIL (kbuf_push b k) = TAIL k"
    and "TAIL k \<noteq> HEAD k \<Longrightarrow> HEAD (kbuf_push b k) \<noteq> TAIL k"
    and "TAIL k \<noteq> HEAD k \<Longrightarrow> BUFFER (kbuf_push b k) ! TAIL k = BUFFER k ! TAIL k"
  by (simp_all add: kbuf_push_def Let_def)

lemma push_list:
  "kbuf_inv k \<Longrightarrow> kbuf_list (kbuf_push b k) = (if push_accepts k then kbuf_list k @ [b] else kbuf_list k)"
  by (simp add: push_accepts_def kbuf_push_accept kbuf_push_drop)

lemma kstep_inv: "kstep s s' \<Longrightarrow> kinv s \<Longrightarrow> kinv s'"
proof (induction rule: kstep.induct)
  case (irq1 s b)
  then have inv: "kbuf_inv (ring s)" by (simp add: kinv_def)
  note keep = push_keeps_nonempty [OF inv, of b]
  have "popper_ok (s\<lparr>ring := kbuf_push b (ring s), accepted := a\<rparr>)" for a
    using irq1 keep by (auto simp: kinv_def popper_ok_def split: popper.splits)
  with irq1 show ?case by (simp add: kinv_def kbuf_push_inv push_list)
next
  case (store_tail s t b)
  then have inv: "kbuf_inv (ring s)" and t: "t = TAIL (ring s)" "t \<noteq> HEAD (ring s)" "b = BUFFER (ring s) ! t"
    by (simp_all add: kinv_def popper_ok_def)
  have "kbuf_list (ring s) = b # kbuf_list ((ring s)\<lparr>TAIL := (t + 1) mod BUF_SIZE\<rparr>)"
    using kbuf_pop_nonempty [OF inv] t by simp
  with store_tail inv show ?case
    by (simp add: kinv_def popper_ok_def) (simp add: kbuf_inv_def BUF_SIZE_def)
qed (auto simp: kinv_def popper_ok_def)

lemma kreach_inv: "kreach s \<Longrightarrow> kinv s"
proof (induction rule: kreach.induct)
  case start
  show ?case by (simp add: kinv_def kbuf_init_inv popper_ok_def kbuf_init_list)
next
  case (step s s')
  then show ?case by (blast intro: kstep_inv)
qed

text \<open>
  \<^bold>\<open>C13.\<close> With one consumer, however key-press interrupts are interleaved with the loads and
  stores of \<^verbatim>\<open>pop\<close>, the bytes the consumer has returned followed by the bytes in the
  ring are exactly the bytes the producer stored, in order: the lock-free protocol neither
  loses, duplicates nor reorders a scancode.
\<close>

theorem kbuf_interleaved:
  assumes "kreach s"
  shows "accepted s = delivered s @ kbuf_list (ring s) \<and> length (kbuf_list (ring s)) \<le> 255"
  using kreach_inv [OF assms] kb.contents_bound by (simp add: kinv_def)

theorem kbuf_interleaved_witness:
  "\<exists>s. kreach s \<and> consumer s = PTail 0 \<and> accepted s = [0x1C] \<and>
     [0x1C] = delivered s @ kbuf_list (ring s)"
proof -
  let ?s0 = "\<lparr>ring = kbuf_init, consumer = PIdle, accepted = [], delivered = []\<rparr>"
  let ?s1 = "?s0\<lparr>consumer := PTail (TAIL (ring ?s0))\<rparr>"
  have "kstep ?s0 ?s1" by (rule kstep.load_tail) simp
  then have r1: "kreach ?s1" using kreach.start kreach.step by blast
  have acc: "push_accepts kbuf_init" by (simp add: push_accepts_def kbuf_init_def BUF_SIZE_def)
  let ?s2 = "?s1\<lparr>ring := kbuf_push 0x1C (ring ?s1),
     accepted := (if push_accepts (ring ?s1) then accepted ?s1 @ [0x1C] else accepted ?s1)\<rparr>"
  have "kreach ?s2" by (rule kreach.step [OF r1 kstep.irq1])
  moreover from kbuf_interleaved [OF this]
  have "accepted ?s2 = delivered ?s2 @ kbuf_list (ring ?s2)" by blast
  ultimately show ?thesis using acc by (intro exI [of _ ?s2]) (simp add: kbuf_init_def)
qed

section \<open>Two consumers\<close>

text \<open>
  The header comment of kbuf.rs names the kernel main loop as the only consumer, but
  \<^verbatim>\<open>sys_read\<close> on descriptor 0 pops as well (ross-kernel/src/syscall.rs). The main
  loop runs with interrupts enabled and is preempted by the timer. If that happens
  between its read of the slot and its store of \<^verbatim>\<open>TAIL\<close>, a system call of another
  task can empty the ring; the late store then moves \<^verbatim>\<open>TAIL\<close> back and the bytes are
  delivered again.
\<close>

definition late_store :: "usize \<Rightarrow> kbuf \<Rightarrow> kbuf" where
  "late_store t k = k\<lparr>TAIL := (t + 1) mod BUF_SIZE\<rparr>"

lemma two_consumers_duplicate:
  assumes "kbuf_inv k" and "kbuf_list k = [a, b]"
  shows "let (r1, k1) = kbuf_pop k; (r2, k2) = kbuf_pop k1; k3 = late_store (TAIL k) k2 in
     r1 = Some a \<and> r2 = Some b \<and> kbuf_list k2 = [] \<and> BUFFER k ! TAIL k = a \<and> kbuf_list k3 = [b]"
proof -
  obtain r1 k1 where p1: "kbuf_pop k = (r1, k1)" by (cases "kbuf_pop k")
  obtain r2 k2 where p2: "kbuf_pop k1 = (r2, k2)" by (cases "kbuf_pop k1")
  have i1: "kbuf_inv k1" using kbuf_pop_inv [OF assms(1)] p1 by simp
  have l1: "r1 = Some a" "kbuf_list k1 = [b]" using kb.pop_first [OF assms] p1 by simp_all
  have l2: "r2 = Some b" "kbuf_list k2 = []" using kb.pop_first [OF i1 l1(2)] p2 by simp_all
  have ne: "TAIL k \<noteq> HEAD k" using assms kbuf_empty_iff [OF assms(1)] length_kbuf_list [of k] by auto
  have k1: "k1 = k\<lparr>TAIL := (TAIL k + 1) mod BUF_SIZE\<rparr>" using p1 ne by (simp add: kbuf_pop_def Let_def)
  have "late_store (TAIL k) k2 = k1"
    using p2 l2(1) by (auto simp: late_store_def k1 kbuf_pop_def Let_def split: if_splits)
  with l1 l2 p1 p2 kbuf_pop_nonempty [OF assms(1) ne] assms(2) show ?thesis by (simp add: Let_def)
qed

section \<open>Scancodes\<close>

lemma scancode_release: "bit sc 7 \<Longrightarrow> scancode_to_ascii sc = None"
  using and_one_shl_zero [of sc 7] by (simp add: scancode_to_ascii_def one_shl_def)

lemma scancode_map_ascii: "list_all (\<lambda>c. c < 0x80) scancode_map"
  by (simp add: scancode_map_def)

lemma scancode_ascii: "scancode_to_ascii sc = Some c \<Longrightarrow> c \<noteq> 0 \<and> c < 0x80 \<and> unat sc < 58"
proof -
  assume "scancode_to_ascii sc = Some c"
  then have c: "unat sc < length scancode_map" "scancode_map ! unat sc = c" "c \<noteq> 0"
    by (auto simp: scancode_to_ascii_def Let_def split: if_splits)
  moreover have "length scancode_map = 58" by (simp add: scancode_map_def)
  ultimately show ?thesis using scancode_map_ascii by (auto simp: list_all_length)
qed

end
