(* ===== verification/Pmm.thy ===== *)
theory Pmm
  imports Prelude
begin

text \<open>
  The physical memory manager (ross-kernel/src/pmm.rs) and the memory regions it is
  initialised from (ross-common/src/lib.rs): a bitmap of 32 KiB, one bit per 4 KiB page of
  the first gigabyte, a set bit meaning allocated.

  The static \<^verbatim>\<open>PMM\<close> behind its lock is the record \<open>PmmState\<close>, passed
  explicitly. The interface \<open>frame_allocator\<close> states what the rest of the kernel relies
  on; it is interpreted on the bitmap operations at the end.
\<close>

section \<open>Boot memory map\<close>

datatype MemoryKind = Usable | Used | Reserved

record MemoryRegion =
  mr_base :: u64
  mr_size :: u64
  mr_kind :: MemoryKind

section \<open>State and operations\<close>

definition PAGE_SIZE :: usize where "PAGE_SIZE = 4096"
definition BITMAP_BYTES :: usize where "BITMAP_BYTES = 32 * 1024"
definition MAX_PAGES :: usize where "MAX_PAGES = BITMAP_BYTES * 8"

record PmmState =
  bitmap :: "u8 list"
  free_count :: usize
  total_count :: usize

definition pmm_new :: PmmState where
  "pmm_new = \<lparr>bitmap = replicate BITMAP_BYTES 0xFF, free_count = 0, total_count = 0\<rparr>"

text \<open>The body of the inner loop of \<^verbatim>\<open>init\<close>.\<close>

definition init_page :: "nat \<Rightarrow> PmmState \<Rightarrow> PmmState" where
  "init_page i s =
     (let byte = i div 8; bt = i mod 8 in
      if bitmap s ! byte AND one_shl bt \<noteq> 0 then
        s\<lparr>bitmap := (bitmap s)[byte := bitmap s ! byte AND NOT (one_shl bt)],
          free_count := free_count s + 1,
          total_count := total_count s + 1\<rparr>
      else s)"

definition init_region :: "MemoryRegion \<Rightarrow> PmmState \<Rightarrow> PmmState" where
  "init_region region s =
     (if mr_kind region = Usable then
        (let start = unat (mr_base region) div PAGE_SIZE;
             pages = unat (mr_size region) div PAGE_SIZE
         in fold init_page [start ..< min (start + pages) MAX_PAGES] s)
      else s)"

text \<open>A null map is \<open>None\<close>; otherwise the slice of \<^verbatim>\<open>count\<close> regions.\<close>

definition pmm_init :: "MemoryRegion list option \<Rightarrow> PmmState \<Rightarrow> PmmState" where
  "pmm_init mmap s =
     (case mmap of None \<Rightarrow> s
      | Some regions \<Rightarrow> if length regions = 0 then s else fold init_region regions s)"

text \<open>The scan of \<^verbatim>\<open>alloc_page\<close>: the first byte that is not \<^verbatim>\<open>0xFF\<close>, then
  its first clear bit.\<close>

fun alloc_scan :: "nat \<Rightarrow> u8 list \<Rightarrow> (nat \<times> nat) option" where
  "alloc_scan byte_idx [] = None"
| "alloc_scan byte_idx (byte # rest) =
     (if byte = 0xFF then alloc_scan (Suc byte_idx) rest
      else case find (\<lambda>bt. byte AND one_shl bt = 0) [0 ..< 8] of
             Some bt \<Rightarrow> Some (byte_idx, bt)
           | None \<Rightarrow> alloc_scan (Suc byte_idx) rest)"

definition alloc_page :: "PmmState \<Rightarrow> usize option \<times> PmmState" where
  "alloc_page s =
     (case alloc_scan 0 (bitmap s) of
        None \<Rightarrow> (None, s)
      | Some (byte_idx, bt) \<Rightarrow>
          (Some ((byte_idx * 8 + bt) * PAGE_SIZE),
           s\<lparr>bitmap := (bitmap s)[byte_idx := bitmap s ! byte_idx OR one_shl bt],
             free_count := free_count s - 1\<rparr>))"

definition free_page :: "usize \<Rightarrow> PmmState \<Rightarrow> PmmState" where
  "free_page addr s =
     (let page = addr div PAGE_SIZE in
      if page \<ge> MAX_PAGES then s
      else let byte = page div 8; bt = page mod 8 in
        if bitmap s ! byte AND one_shl bt \<noteq> 0 then
          s\<lparr>bitmap := (bitmap s)[byte := bitmap s ! byte AND NOT (one_shl bt)],
            free_count := free_count s + 1\<rparr>
        else s)"

definition free_pages :: "PmmState \<Rightarrow> usize" where
  "free_pages s = free_count s"

definition free_mib :: "PmmState \<Rightarrow> usize" where
  "free_mib s = free_pages s * PAGE_SIZE div (1024 * 1024)"

definition total_mib :: "PmmState \<Rightarrow> usize" where
  "total_mib s = total_count s * PAGE_SIZE div (1024 * 1024)"

section \<open>The set of free pages\<close>

definition page_free :: "PmmState \<Rightarrow> nat \<Rightarrow> bool" where
  "page_free s p \<longleftrightarrow> p < MAX_PAGES \<and> \<not> bit (bitmap s ! (p div 8)) (p mod 8)"

definition free_set :: "PmmState \<Rightarrow> nat set" where
  "free_set s = {p. page_free s p}"

definition pmm_inv :: "PmmState \<Rightarrow> bool" where
  "pmm_inv s \<longleftrightarrow> length (bitmap s) = BITMAP_BYTES \<and> free_count s = card (free_set s)"

lemma free_set_bound: "p \<in> free_set s \<Longrightarrow> p < MAX_PAGES"
  by (simp add: free_set_def page_free_def)

lemma finite_free_set [simp]: "finite (free_set s)"
  by (rule finite_subset [of _ "{..<MAX_PAGES}"]) (auto dest: free_set_bound)

lemma byte_in_range: "length (bitmap s) = BITMAP_BYTES \<Longrightarrow> p < MAX_PAGES \<Longrightarrow> p div 8 < length (bitmap s)"
  by (simp add: MAX_PAGES_def less_mult_imp_div_less mult.commute)

lemma split_page: "(p::nat) = q \<longleftrightarrow> p div 8 = q div 8 \<and> p mod 8 = q mod 8"
  by (metis div_mult_mod_eq)

text \<open>Setting and clearing the bit of one page.\<close>

lemma free_set_clear:
  assumes "length (bitmap s) = BITMAP_BYTES" and "p < MAX_PAGES"
  shows "free_set (s\<lparr>bitmap := (bitmap s)[p div 8 := bitmap s ! (p div 8) AND NOT (one_shl (p mod 8))],
           free_count := n\<rparr>) = insert p (free_set s)"
  using assms byte_in_range [OF assms]
  by (auto simp: free_set_def page_free_def nth_list_update bit_simps split_page [of _ p])

lemma free_set_mark:
  assumes "length (bitmap s) = BITMAP_BYTES" and "p < MAX_PAGES"
  shows "free_set (s\<lparr>bitmap := (bitmap s)[p div 8 := bitmap s ! (p div 8) OR one_shl (p mod 8)],
           free_count := n\<rparr>) = free_set s - {p}"
  using assms byte_in_range [OF assms]
  by (auto simp: free_set_def page_free_def nth_list_update bit_simps split_page [of _ p])

lemma free_set_total [simp]: "free_set (s\<lparr>total_count := n\<rparr>) = free_set s"
  by (simp add: free_set_def page_free_def)

lemma bit_0xFF: "bit (0xFF :: u8) i \<longleftrightarrow> i < 8"
proof -
  have "(0xFF :: u8) = mask 8" by (simp add: mask_eq_exp_minus_1)
  then show ?thesis by (simp only: bit_mask_iff) simp
qed

lemma free_set_new: "free_set pmm_new = {}"
proof -
  have "p div 8 < BITMAP_BYTES" if "p < MAX_PAGES" for p
    using byte_in_range [of pmm_new p] that by (simp add: pmm_new_def)
  then have "bitmap pmm_new ! (p div 8) = 0xFF" if "p < MAX_PAGES" for p
    using that by (simp add: pmm_new_def)
  then show ?thesis by (auto simp only: free_set_def page_free_def bit_0xFF)
qed

lemma pmm_inv_new: "pmm_inv pmm_new"
  by (simp add: pmm_inv_def free_set_new) (simp add: pmm_new_def)

section \<open>Initialisation\<close>

lemma not_free_bit:
  "p < MAX_PAGES \<Longrightarrow> bitmap s ! (p div 8) AND one_shl (p mod 8) \<noteq> 0 \<longleftrightarrow> p \<notin> free_set s"
  by (simp add: and_one_shl_zero free_set_def page_free_def)

lemma init_page_eq:
  assumes "p < MAX_PAGES"
  shows "init_page p s =
    (if p \<in> free_set s then s
     else s\<lparr>bitmap := (bitmap s)[p div 8 := bitmap s ! (p div 8) AND NOT (one_shl (p mod 8))],
            free_count := free_count s + 1, total_count := total_count s + 1\<rparr>)"
  unfolding init_page_def Let_def not_free_bit [OF assms] by simp

lemma free_page_eq:
  "free_page addr s =
    (let p = addr div PAGE_SIZE in
     if p \<ge> MAX_PAGES \<or> p \<in> free_set s then s
     else s\<lparr>bitmap := (bitmap s)[p div 8 := bitmap s ! (p div 8) AND NOT (one_shl (p mod 8))],
            free_count := free_count s + 1\<rparr>)"
  unfolding free_page_def Let_def by (auto simp: not_free_bit)

lemma init_page_length: "p < MAX_PAGES \<Longrightarrow> length (bitmap (init_page p s)) = length (bitmap s)"
  by (simp add: init_page_eq)

lemma init_page_free_set:
  "length (bitmap s) = BITMAP_BYTES \<Longrightarrow> p < MAX_PAGES \<Longrightarrow>
   free_set (init_page p s) = insert p (free_set s)"
  by (auto simp: init_page_eq free_set_clear simp del: PmmState.update_convs)

text \<open>The pages a region contributes.\<close>

definition region_pages :: "MemoryRegion \<Rightarrow> nat set" where
  "region_pages r =
     (if mr_kind r = Usable
      then {p. p < MAX_PAGES \<and> unat (mr_base r) div PAGE_SIZE \<le> p \<and>
               p < unat (mr_base r) div PAGE_SIZE + unat (mr_size r) div PAGE_SIZE}
      else {})"

lemma region_pages_bound: "region_pages r \<subseteq> {..<MAX_PAGES}"
  by (auto simp: region_pages_def)

lemma finite_region_pages [simp]: "finite (region_pages r)"
  by (rule finite_subset [OF region_pages_bound]) simp

lemma init_page_inv:
  assumes "pmm_inv s" and "p < MAX_PAGES"
  shows "pmm_inv (init_page p s)"
    and "total_count (init_page p s) + card (free_set s) = total_count s + card (free_set (init_page p s))"
proof -
  have len: "length (bitmap s) = BITMAP_BYTES" using assms(1) by (simp add: pmm_inv_def)
  have "free_count (init_page p s) = card (insert p (free_set s))"
    using assms by (simp add: init_page_eq pmm_inv_def card_insert_if)
  then show "pmm_inv (init_page p s)"
    using len assms(2) by (simp add: pmm_inv_def init_page_free_set init_page_length)
  show "total_count (init_page p s) + card (free_set s) = total_count s + card (free_set (init_page p s))"
    unfolding init_page_free_set [OF len assms(2)]
    using assms(2) by (simp add: init_page_eq card_insert_if)
qed

lemma fold_init_page:
  assumes "pmm_inv s" and "\<forall>p \<in> set ps. p < MAX_PAGES"
  shows "pmm_inv (fold init_page ps s) \<and> free_set (fold init_page ps s) = set ps \<union> free_set s \<and>
    total_count (fold init_page ps s) + card (free_set s) =
      total_count s + card (free_set (fold init_page ps s))"
  using assms
proof (induction ps arbitrary: s)
  case Nil
  then show ?case by simp
next
  case (Cons p ps)
  have p: "p < MAX_PAGES" using Cons.prems by simp
  have len: "length (bitmap s) = BITMAP_BYTES" using Cons.prems by (simp add: pmm_inv_def)
  note step = init_page_inv [OF Cons.prems(1) p] init_page_free_set [OF len p]
  from Cons.IH [OF step(1)] Cons.prems(2) step(2,3) show ?case by auto
qed

lemma init_region_spec:
  assumes "pmm_inv s"
  shows "pmm_inv (init_region r s) \<and> free_set (init_region r s) = region_pages r \<union> free_set s \<and>
    total_count (init_region r s) + card (free_set s) = total_count s + card (free_set (init_region r s))"
proof (cases "mr_kind r = Usable")
  case True
  let ?ps = "[unat (mr_base r) div PAGE_SIZE ..<
    min (unat (mr_base r) div PAGE_SIZE + unat (mr_size r) div PAGE_SIZE) MAX_PAGES]"
  have ps: "set ?ps = region_pages r" using True by (auto simp: region_pages_def)
  have "init_region r s = fold init_page ?ps s"
    using True by (simp only: init_region_def Let_def) simp
  moreover have "\<forall>p \<in> set ?ps. p < MAX_PAGES" by simp
  ultimately show ?thesis using fold_init_page [OF assms, of ?ps] ps by (simp only:)
next
  case False
  then show ?thesis using assms by (simp add: init_region_def region_pages_def)
qed

lemma fold_init_region:
  assumes "pmm_inv s"
  shows "pmm_inv (fold init_region rs s) \<and>
    free_set (fold init_region rs s) = (\<Union>r \<in> set rs. region_pages r) \<union> free_set s \<and>
    total_count (fold init_region rs s) + card (free_set s) =
      total_count s + card (free_set (fold init_region rs s))"
  using assms
proof (induction rs arbitrary: s)
  case Nil
  then show ?case by simp
next
  case (Cons r rs)
  note step = init_region_spec [OF Cons.prems, of r]
  from step have "pmm_inv (init_region r s)" by blast
  from Cons.IH [OF this] step show ?case by auto
qed

lemma pmm_init_eq_fold: "pmm_init (Some rs) s = fold init_region rs s"
  by (cases rs) (simp_all add: pmm_init_def)

lemma pmm_init_inv: "pmm_inv s \<Longrightarrow> pmm_inv (pmm_init m s)"
  using fold_init_region by (cases m) (simp_all add: pmm_init_eq_fold pmm_init_def)

lemma total_count_new: "total_count pmm_new = 0"
  by (simp add: pmm_new_def)

lemma pmm_init_new:
  "free_set (pmm_init (Some rs) pmm_new) = (\<Union>r \<in> set rs. region_pages r)"
  "total_count (pmm_init (Some rs) pmm_new) = card (\<Union>r \<in> set rs. region_pages r)"
  using fold_init_region [OF pmm_inv_new, of rs]
  unfolding pmm_init_eq_fold free_set_new total_count_new by simp_all

section \<open>Allocation\<close>

lemma find_clear_bit:
  assumes "(byte :: u8) \<noteq> 0xFF"
  obtains bt where "find (\<lambda>bt. byte AND one_shl bt = 0) [0 ..< 8] = Some bt"
    and "bt < 8" and "\<not> bit byte bt" and "\<forall>j < bt. bit byte j"
proof -
  have "\<exists>i < 8. \<not> bit byte i"
  proof (rule ccontr)
    assume "\<not> ?thesis"
    then have "byte = mask 8" by (intro bit_word_eqI) (auto simp: bit_simps)
    with assms show False by (simp add: mask_eq_exp_minus_1)
  qed
  then have "find (\<lambda>bt. byte AND one_shl bt = 0) [0 ..< 8] \<noteq> None"
    by (auto simp: find_None_iff and_one_shl_zero)
  then obtain bt where bt: "find (\<lambda>bt. byte AND one_shl bt = 0) [0 ..< 8] = Some bt" by blast
  then obtain i where "i < 8" "bt = i" "\<not> bit byte i" "\<forall>j < i. bit byte j"
    by (auto simp: find_Some_iff and_one_shl_zero)
  with bt that show thesis by blast
qed

lemma alloc_scan_None:
  "alloc_scan k bs = None \<longleftrightarrow> (\<forall>b \<in> set bs. b = 0xFF)"
proof (induction k bs rule: alloc_scan.induct)
  case (2 k byte rest)
  show ?case
  proof (cases "byte = 0xFF")
    case True
    with 2 show ?thesis by simp
  next
    case False
    then show ?thesis by (rule find_clear_bit) (use False in simp)
  qed
qed simp

lemma alloc_scan_Some:
  assumes "alloc_scan k bs = Some (i, bt)"
  shows "k \<le> i \<and> i - k < length bs \<and> bt < 8 \<and> \<not> bit (bs ! (i - k)) bt \<and>
    (\<forall>j < bt. bit (bs ! (i - k)) j) \<and> (\<forall>j < i - k. bs ! j = 0xFF)"
  using assms
proof (induction k bs rule: alloc_scan.induct)
  case (2 k byte rest)
  show ?case
  proof (cases "byte = 0xFF")
    case True
    with 2 have "Suc k \<le> i \<and> i - Suc k < length rest \<and> bt < 8 \<and> \<not> bit (rest ! (i - Suc k)) bt \<and>
      (\<forall>j < bt. bit (rest ! (i - Suc k)) j) \<and> (\<forall>j < i - Suc k. rest ! j = 0xFF)" by simp
    moreover from this have "i - k = Suc (i - Suc k)" by linarith
    ultimately show ?thesis using True by (auto simp: less_Suc_eq_0_disj)
  next
    case False
    then show ?thesis by (rule find_clear_bit) (use False 2(3) in auto)
  qed
qed simp

lemma alloc_page_None:
  assumes "length (bitmap s) = BITMAP_BYTES"
  shows "alloc_page s = (None, s') \<longleftrightarrow> free_set s = {} \<and> s' = s"
proof -
  have "alloc_scan 0 (bitmap s) = None \<longleftrightarrow> free_set s = {}"
  proof
    assume "alloc_scan 0 (bitmap s) = None"
    then have full: "\<forall>b \<in> set (bitmap s). b = 0xFF" by (simp add: alloc_scan_None)
    have "bitmap s ! (p div 8) = 0xFF" if "p < MAX_PAGES" for p
      using full byte_in_range [OF assms that] by (meson nth_mem)
    then show "free_set s = {}" by (auto simp only: free_set_def page_free_def bit_0xFF)
  next
    assume empty: "free_set s = {}"
    have "bitmap s ! i = 0xFF" if i: "i < length (bitmap s)" for i
    proof (rule ccontr)
      assume "bitmap s ! i \<noteq> 0xFF"
      then obtain bt where bt: "bt < 8" "\<not> bit (bitmap s ! i) bt" by (rule find_clear_bit)
      have "i * 8 + bt \<in> free_set s"
        using bt i assms by (simp add: free_set_def page_free_def MAX_PAGES_def)
      with empty show False by simp
    qed
    then show "alloc_scan 0 (bitmap s) = None" by (auto simp: alloc_scan_None in_set_conv_nth)
  qed
  then show ?thesis by (auto simp: alloc_page_def split: option.splits)
qed

text \<open>The first clear bit is the lowest free page.\<close>

lemma alloc_scan_least:
  assumes "length (bitmap s) = BITMAP_BYTES" and "alloc_scan 0 (bitmap s) = Some (i, bt)"
  shows "i * 8 + bt \<in> free_set s" and "\<And>q. q \<in> free_set s \<Longrightarrow> i * 8 + bt \<le> q"
proof -
  note scan = alloc_scan_Some [OF assms(2), simplified]
  show "i * 8 + bt \<in> free_set s"
    using scan assms(1) by (simp add: free_set_def page_free_def MAX_PAGES_def)
  fix q assume q: "q \<in> free_set s"
  then have nb: "\<not> bit (bitmap s ! (q div 8)) (q mod 8)" by (simp add: free_set_def page_free_def)
  show "i * 8 + bt \<le> q"
  proof (rule ccontr)
    assume "\<not> i * 8 + bt \<le> q"
    then have "q div 8 * 8 + q mod 8 < i * 8 + bt" by simp
    moreover have "bt < 8" using scan by simp
    ultimately consider "q div 8 < i" | "q div 8 = i" "q mod 8 < bt" by linarith
    then show False
    proof cases
      case 1
      then have "bitmap s ! (q div 8) = 0xFF" using scan by blast
      with nb show False by (simp only: bit_0xFF)
    next
      case 2
      with nb scan show False by blast
    qed
  qed
qed

lemma alloc_page_Some:
  assumes "pmm_inv s" and "alloc_page s = (Some a, s')"
  shows "a = Min (free_set s) * PAGE_SIZE" and "Min (free_set s) \<in> free_set s"
    and "free_set s' = free_set s - {Min (free_set s)}" and "pmm_inv s'"
    and "total_count s' = total_count s"
proof -
  from assms(1) have len: "length (bitmap s) = BITMAP_BYTES"
    and cnt: "free_count s = card (free_set s)" by (auto simp: pmm_inv_def)
  from assms(2) obtain i bt where scan: "alloc_scan 0 (bitmap s) = Some (i, bt)"
    and a: "a = (i * 8 + bt) * PAGE_SIZE"
    and s': "s' = s\<lparr>bitmap := (bitmap s)[i := bitmap s ! i OR one_shl bt], free_count := free_count s - 1\<rparr>"
    by (auto simp: alloc_page_def split: option.splits)
  let ?p = "i * 8 + bt"
  note least = alloc_scan_least [OF len scan]
  have min: "Min (free_set s) = ?p" using least by (intro Min_eqI) auto
  have bt: "bt < 8" using alloc_scan_Some [OF scan] by simp
  then have "?p div 8 = i" "?p mod 8 = bt" by auto
  with free_set_mark [OF len free_set_bound [OF least(1)]]
  have fs: "free_set s' = free_set s - {?p}" by (simp add: s')
  show "a = Min (free_set s) * PAGE_SIZE" by (simp add: a min)
  show "Min (free_set s) \<in> free_set s" using least(1) by (simp add: min)
  show "free_set s' = free_set s - {Min (free_set s)}" by (simp add: fs min)
  show "pmm_inv s'" using least(1) len cnt by (simp add: pmm_inv_def fs) (simp add: s')
  show "total_count s' = total_count s" by (simp add: s')
qed

section \<open>Freeing\<close>

lemma free_page_spec:
  assumes "pmm_inv s" and "p < MAX_PAGES" and "p \<notin> free_set s"
  shows "free_set (free_page (p * PAGE_SIZE) s) = insert p (free_set s)"
    and "pmm_inv (free_page (p * PAGE_SIZE) s)"
    and "total_count (free_page (p * PAGE_SIZE) s) = total_count s"
proof -
  have len: "length (bitmap s) = BITMAP_BYTES" using assms(1) by (simp add: pmm_inv_def)
  have eq: "free_page (p * PAGE_SIZE) s =
    s\<lparr>bitmap := (bitmap s)[p div 8 := bitmap s ! (p div 8) AND NOT (one_shl (p mod 8))],
      free_count := free_count s + 1\<rparr>"
    using assms by (simp add: free_page_eq Let_def PAGE_SIZE_def)
  show fs: "free_set (free_page (p * PAGE_SIZE) s) = insert p (free_set s)"
    unfolding eq by (rule free_set_clear [OF len assms(2)])
  show "pmm_inv (free_page (p * PAGE_SIZE) s)"
    using assms len by (simp add: pmm_inv_def fs) (simp add: eq)
  show "total_count (free_page (p * PAGE_SIZE) s) = total_count s" by (simp add: eq)
qed

lemma free_page_inv: "pmm_inv s \<Longrightarrow> pmm_inv (free_page a s)"
proof (cases "a div PAGE_SIZE \<ge> MAX_PAGES \<or> a div PAGE_SIZE \<in> free_set s")
  case False
  assume inv: "pmm_inv s"
  have "free_page a s = free_page (a div PAGE_SIZE * PAGE_SIZE) s"
    by (simp add: free_page_def PAGE_SIZE_def)
  then show ?thesis using free_page_spec(2) [OF inv, of "a div PAGE_SIZE"] False by simp
qed (simp add: free_page_eq Let_def)

section \<open>The allocator interface\<close>

text \<open>
  What the users of the allocator (paging, mmap, the ELF loader, the AHCI driver) rely on:
  a frame that is handed out was free and is free no longer, exhaustion is reported only
  when nothing is free, and freeing gives the frame back.
\<close>

locale frame_allocator =
  fixes alloc :: "'s \<Rightarrow> nat option \<times> 's"
    and free :: "nat \<Rightarrow> 's \<Rightarrow> 's"
    and avail :: "'s \<Rightarrow> nat set"
    and frames :: "nat set"
    and invar :: "'s \<Rightarrow> bool"
  assumes avail_frames: "invar s \<Longrightarrow> avail s \<subseteq> frames"
    and finite_frames: "finite frames"
    and alloc_ok: "invar s \<Longrightarrow> alloc s = (Some a, s') \<Longrightarrow> a \<in> avail s \<and> avail s' = avail s - {a} \<and> invar s'"
    and alloc_fail: "invar s \<Longrightarrow> alloc s = (None, s') \<Longrightarrow> avail s = {} \<and> s' = s"
    and free_ok: "invar s \<Longrightarrow> a \<in> frames \<Longrightarrow> a \<notin> avail s \<Longrightarrow> avail (free a s) = insert a (avail s) \<and> invar (free a s)"
begin

lemma alloc_invar: "invar s \<Longrightarrow> invar (snd (alloc s))"
  using alloc_ok [of s] alloc_fail [of s] by (metis not_None_eq prod.collapse)

lemma alloc_succeeds: "invar s \<Longrightarrow> avail s \<noteq> {} \<Longrightarrow> \<exists>a s'. alloc s = (Some a, s')"
  using alloc_fail by (metis not_None_eq surj_pair)

lemma alloc_fresh:
  assumes "invar s" and "alloc s = (Some a, s')" and "avail s \<inter> used = {}"
  shows "a \<notin> used" and "avail s' \<inter> insert a used = {}" and "avail s' \<union> insert a used = avail s \<union> used"
  using alloc_ok [OF assms(1,2)] assms(3) by auto

lemma free_returns:
  assumes "invar s" and "a \<in> used" and "used \<subseteq> frames" and "avail s \<inter> used = {}"
  shows "avail (free a s) \<inter> (used - {a}) = {}" and "avail (free a s) \<union> (used - {a}) = avail s \<union> used"
proof -
  have "a \<in> frames" and "a \<notin> avail s" using assms(2-4) by auto
  with free_ok [OF assms(1)] have "avail (free a s) = insert a (avail s)" by blast
  then show "avail (free a s) \<inter> (used - {a}) = {}" and "avail (free a s) \<union> (used - {a}) = avail s \<union> used"
    using assms(2,4) by auto
qed

end

definition frame_addrs :: "nat set \<Rightarrow> nat set" where
  "frame_addrs ps = (\<lambda>p. p * PAGE_SIZE) ` ps"

lemma frame_addrs_inj: "inj_on (\<lambda>p. p * PAGE_SIZE) A"
  by (simp add: inj_on_def PAGE_SIZE_def)

lemma alloc_page_addr:
  assumes "pmm_inv s" and "alloc_page s = (Some a, s')"
  shows "a \<in> frame_addrs (free_set s) \<and> frame_addrs (free_set s') = frame_addrs (free_set s) - {a} \<and> pmm_inv s'"
proof -
  note spec = alloc_page_Some [OF assms]
  have "frame_addrs (free_set s - {Min (free_set s)}) = frame_addrs (free_set s) - {Min (free_set s) * PAGE_SIZE}"
    unfolding frame_addrs_def by (auto simp: PAGE_SIZE_def)
  with spec show ?thesis by (auto simp: frame_addrs_def)
qed

interpretation pm: frame_allocator alloc_page free_page "\<lambda>s. frame_addrs (free_set s)"
  "frame_addrs {..<MAX_PAGES}" pmm_inv
proof unfold_locales
  fix s show "frame_addrs (free_set s) \<subseteq> frame_addrs {..<MAX_PAGES}"
    by (auto simp: frame_addrs_def dest: free_set_bound)
next
  show "finite (frame_addrs {..<MAX_PAGES})" by (simp add: frame_addrs_def)
next
  fix s a s' assume "pmm_inv s" "alloc_page s = (Some a, s')"
  then show "a \<in> frame_addrs (free_set s) \<and> frame_addrs (free_set s') = frame_addrs (free_set s) - {a} \<and> pmm_inv s'"
    by (rule alloc_page_addr)
next
  fix s s' assume "pmm_inv s" "alloc_page s = (None, s')"
  then show "frame_addrs (free_set s) = {} \<and> s' = s"
    by (simp add: pmm_inv_def alloc_page_None frame_addrs_def)
next
  fix s a assume inv: "pmm_inv s" and a: "a \<in> frame_addrs {..<MAX_PAGES}" "a \<notin> frame_addrs (free_set s)"
  then obtain p where p: "a = p * PAGE_SIZE" "p < MAX_PAGES" "p \<notin> free_set s"
    by (auto simp: frame_addrs_def)
  show "frame_addrs (free_set (free_page a s)) = insert a (frame_addrs (free_set s)) \<and> pmm_inv (free_page a s)"
    using free_page_spec [OF inv p(2,3)] by (simp add: p(1)) (simp add: frame_addrs_def)
qed

section \<open>Runs of the kernel against the allocator\<close>

text \<open>
  The kernel initialises the allocator once and then allocates and frees; \<open>used\<close> are the
  addresses it holds. \<^verbatim>\<open>free_page\<close> is documented to take a previously allocated
  page.
\<close>

inductive pmm_run :: "MemoryRegion list \<Rightarrow> PmmState \<Rightarrow> usize set \<Rightarrow> bool" for rs where
  boot: "pmm_run rs (pmm_init (Some rs) pmm_new) {}"
| alloc: "pmm_run rs s used \<Longrightarrow> alloc_page s = (Some a, s') \<Longrightarrow> pmm_run rs s' (insert a used)"
| oom: "pmm_run rs s used \<Longrightarrow> alloc_page s = (None, s') \<Longrightarrow> pmm_run rs s' used"
| release: "pmm_run rs s used \<Longrightarrow> a \<in> used \<Longrightarrow> pmm_run rs (free_page a s) (used - {a})"

lemma free_page_total: "total_count (free_page a s) = total_count s"
  by (simp add: free_page_eq Let_def)

lemma pmm_run_partition:
  assumes "pmm_run rs s used"
  shows "pmm_inv s \<and> total_count s = total_count (pmm_init (Some rs) pmm_new) \<and>
    frame_addrs (free_set s) \<inter> used = {} \<and>
    frame_addrs (free_set s) \<union> used = frame_addrs (\<Union>r \<in> set rs. region_pages r)"
  using assms
proof (induction rule: pmm_run.induct)
  case boot
  show ?case using pmm_init_inv [OF pmm_inv_new] by (simp add: pmm_init_new)
next
  case (alloc s used a s')
  then show ?case
    using pm.alloc_fresh [of s a s' used] pm.alloc_ok [of s a s'] alloc_page_Some(5) [of s a s'] by simp
next
  case (oom s used s')
  then show ?case using pm.alloc_fail [of s s'] by simp
next
  case (release s used a)
  then have inv: "pmm_inv s" and disj: "frame_addrs (free_set s) \<inter> used = {}"
    and un: "frame_addrs (free_set s) \<union> used = frame_addrs (\<Union>r \<in> set rs. region_pages r)" by auto
  have sub: "used \<subseteq> frame_addrs {..<MAX_PAGES}"
    using un region_pages_bound by (fastforce simp: frame_addrs_def)
  show ?case
    using pm.free_returns [OF inv release.hyps(2) sub disj] un free_page_inv [OF inv] release.IH
    by (simp add: free_page_total)
qed

lemma card_frame_addrs: "card (frame_addrs A) = card A"
  unfolding frame_addrs_def by (rule card_image [OF frame_addrs_inj])

text \<open>
  \<^bold>\<open>C7.\<close> In every run of the kernel against the physical memory manager (boot from a
  memory map, then any sequence of allocations and of releases of pages it holds), the
  pages it holds are never offered again, the free pages and the held pages together are
  exactly the pages of the usable regions below 1 GiB, and the counters are exact:
  \<open>free_count\<close> is the number of free pages and \<open>total_count\<close> the number of free and held
  ones.
\<close>

theorem pmm_run_safe:
  assumes "pmm_run rs s used"
  shows "frame_addrs (free_set s) \<inter> used = {} \<and>
    frame_addrs (free_set s) \<union> used = frame_addrs (\<Union>r \<in> set rs. region_pages r) \<and>
    free_pages s = card (free_set s) \<and> total_count s = free_pages s + card used"
proof -
  note part = pmm_run_partition [OF assms]
  have un: "frame_addrs (free_set s) \<union> used = frame_addrs (\<Union>r \<in> set rs. region_pages r)"
    using part by blast
  have "finite (frame_addrs (\<Union>r \<in> set rs. region_pages r))" by (simp add: frame_addrs_def)
  with un have "finite used" by (metis finite_Un)
  moreover have "finite (frame_addrs (free_set s))" by (simp add: frame_addrs_def)
  ultimately have "card (frame_addrs (free_set s) \<union> used) = card (frame_addrs (free_set s)) + card used"
    using part by (intro card_Un_disjoint) auto
  with part show ?thesis
    by (simp add: free_pages_def pmm_inv_def pmm_init_new card_frame_addrs)
qed

definition demo_region :: MemoryRegion where
  "demo_region = \<lparr>mr_base = 0, mr_size = 0x4000, mr_kind = Usable\<rparr>"

lemma demo_region_pages: "region_pages demo_region = {0, 1, 2, 3}"
  by (auto simp: region_pages_def demo_region_def PAGE_SIZE_def MAX_PAGES_def BITMAP_BYTES_def)

lemma demo_boot: "pmm_inv (pmm_init (Some [demo_region]) pmm_new)"
  "free_set (pmm_init (Some [demo_region]) pmm_new) = {0, 1, 2, 3}"
  by (simp_all add: pmm_init_inv pmm_inv_new pmm_init_new demo_region_pages)

theorem pmm_run_safe_witness:
  "\<exists>s a. pmm_run [demo_region] s {a} \<and> frame_addrs (free_set s) \<inter> {a} = {} \<and>
     total_count s = free_pages s + 1"
proof -
  obtain a s where "alloc_page (pmm_init (Some [demo_region]) pmm_new) = (Some a, s)"
    using pm.alloc_succeeds [OF demo_boot(1)] by (auto simp: demo_boot(2) frame_addrs_def)
  then have "pmm_run [demo_region] s {a}" using pmm_run.boot pmm_run.alloc by blast
  with pmm_run_safe [OF this] show ?thesis by auto
qed

text \<open>
  \<^verbatim>\<open>alloc_page\<close> returns the address of the lowest free page and takes exactly
  that page, whatever the bitmap; it answers \<^verbatim>\<open>None\<close>, changing nothing, exactly when no
  page is free. Every address it returns is page aligned and below 1 GiB.
\<close>

lemma alloc_page_lowest:
  assumes "pmm_inv s"
  shows "case alloc_page s of
      (None, s') \<Rightarrow> free_set s = {} \<and> s' = s
    | (Some a, s') \<Rightarrow> free_set s \<noteq> {} \<and> a = Min (free_set s) * PAGE_SIZE \<and>
        free_set s' = free_set s - {Min (free_set s)} \<and> pmm_inv s' \<and>
        a mod PAGE_SIZE = 0 \<and> a < 2 ^ 30"
proof (cases "alloc_page s")
  case (Pair r s')
  show ?thesis
  proof (cases r)
    case None
    with Pair assms alloc_page_None [of s s'] show ?thesis by (simp add: pmm_inv_def)
  next
    case (Some a)
    note spec = alloc_page_Some [OF assms Pair [unfolded Some]]
    have "Min (free_set s) < MAX_PAGES" by (rule free_set_bound [OF spec(2)])
    then have "a < 2 ^ 30" using spec(1) by (simp add: MAX_PAGES_def BITMAP_BYTES_def PAGE_SIZE_def)
    with spec Pair Some show ?thesis by auto
  qed
qed

lemma alloc_then_free_bits:
  "\<not> bit (w :: u8) bt \<Longrightarrow> (w OR one_shl bt) AND NOT (one_shl bt) = w"
  by (rule bit_word_eqI) (auto simp: bit_simps)

text \<open>
  Freeing the page that was just allocated restores the allocator exactly, bitmap
  and counters; and freeing a page that is already free changes nothing (a double free is
  harmless).
\<close>

lemma alloc_free_roundtrip:
  assumes "pmm_inv s"
  shows "(\<forall>a s'. alloc_page s = (Some a, s') \<longrightarrow> free_page a s' = s \<and> free_page a (free_page a s') = s)"
proof (intro allI impI)
  fix a s' assume al: "alloc_page s = (Some a, s')"
  then obtain i bt where scan: "alloc_scan 0 (bitmap s) = Some (i, bt)"
    and a: "a = (i * 8 + bt) * PAGE_SIZE"
    and s': "s' = s\<lparr>bitmap := (bitmap s)[i := bitmap s ! i OR one_shl bt], free_count := free_count s - 1\<rparr>"
    by (auto simp: alloc_page_def split: option.splits)
  note sc = alloc_scan_Some [OF scan, simplified]
  note spec = alloc_page_Some [OF assms al]
  have page: "a div PAGE_SIZE = i * 8 + bt" by (simp add: a PAGE_SIZE_def)
  have pos: "free_count s > 0" using spec(2) assms by (auto simp: pmm_inv_def card_gt_0_iff)
  have min: "Min (free_set s) = i * 8 + bt" using spec(1) unfolding a PAGE_SIZE_def by simp
  have notfree: "i * 8 + bt \<notin> free_set s'" "i * 8 + bt < MAX_PAGES" "i * 8 + bt \<in> free_set s"
    using spec(2,3) free_set_bound [OF spec(2)] min by simp_all
  have d: "(i * 8 + bt) div 8 = i" "(i * 8 + bt) mod 8 = bt" using sc by auto
  have "free_page a s' = s'\<lparr>bitmap := (bitmap s')[i := bitmap s' ! i AND NOT (one_shl bt)],
      free_count := free_count s' + 1\<rparr>"
    using notfree(1,2) unfolding free_page_eq Let_def page d by simp
  then have once: "free_page a s' = s" using sc pos by (simp add: s' alloc_then_free_bits)
  moreover have "free_page a s = s" using notfree(3) by (simp add: free_page_eq page Let_def)
  ultimately show "free_page a s' = s \<and> free_page a (free_page a s') = s" by simp
qed

end
