(* ===== verification/Paging.thy ===== *)
theory Paging
  imports Memory Pmm
begin

text \<open>
  Page tables (ross-kernel/src/paging.rs) and anonymous memory (mmap.rs): the boot tables,
  the address space of a user process, mapping and looking up 4 KiB pages. Tables live in
  physical memory; the kernel reaches them through its alias at \<^verbatim>\<open>KERNEL_VMA_BASE\<close>.
  What the processor makes of the tables is the function \<open>walk\<close>.
\<close>

section \<open>State and table accesses\<close>

record mm =
  frames :: PmmState
  ram :: mem

definition PRESENT :: u64 where "PRESENT = 1"
definition WRITABLE :: u64 where "WRITABLE = 2"
definition USER :: u64 where "USER = 4"
definition HUGE_PAGE :: u64 where "HUGE_PAGE = 0x80"
definition KERNEL_VMA_BASE :: u64 where "KERNEL_VMA_BASE = 0xFFFFFFFF80000000"

lemmas flag_defs = PRESENT_def WRITABLE_def USER_def HUGE_PAGE_def

definition phys_to_virt :: "usize \<Rightarrow> u64 res" where
  "phys_to_virt phys = add64 (of_nat phys) KERNEL_VMA_BASE"

text \<open>
  \<^verbatim>\<open>&mut *(phys_to_virt(phys) as *mut PageTable)\<close>: the table is named by the physical
  address the kernel alias translates the pointer to.
\<close>

definition table_at :: "usize \<Rightarrow> (mm, u64) op" where
  "table_at phys = liftS (bindR (phys_to_virt phys) (\<lambda>v. Inr (v - KERNEL_VMA_BASE)))"

definition entry :: "u64 \<Rightarrow> u64 \<Rightarrow> (mm, u64) op" where
  "entry t i = (\<lambda>st. (Inr (rd64 (ram st) (ent t i)), st))"

definition set_entry :: "u64 \<Rightarrow> u64 \<Rightarrow> u64 \<Rightarrow> (mm, unit) op" where
  "set_entry t i v = (\<lambda>st. (Inr (), st\<lparr>ram := wr64 (ent t i) v (ram st)\<rparr>))"

definition clear_table :: "u64 \<Rightarrow> (mm, unit) op" where
  "clear_table t = (\<lambda>st. (Inr (), st\<lparr>ram := zero_page t (ram st)\<rparr>))"

text \<open>\<^verbatim>\<open>crate::pmm::alloc_page().expect(msg)\<close>.\<close>

definition alloc_expect :: "string \<Rightarrow> (mm, usize) op" where
  "alloc_expect msg = (\<lambda>st. case alloc_page (frames st) of
       (None, s) \<Rightarrow> (Inl (Panic msg), st\<lparr>frames := s\<rparr>)
     | (Some a, s) \<Rightarrow> (Inr a, st\<lparr>frames := s\<rparr>))"

definition vidx :: "nat \<Rightarrow> u64 \<Rightarrow> u64" where
  "vidx k vaddr = drop_bit k vaddr AND 0x1FF"

section \<open>Looking up and mapping pages\<close>

definition lookup_page :: "u64 \<Rightarrow> u64 \<Rightarrow> (mm, usize option) op" where
  "lookup_page pml4_phys vaddr =
     bindS (table_at (unat pml4_phys)) (\<lambda>pml4.
     bindS (entry pml4 (vidx 39 vaddr)) (\<lambda>e4.
     if e4 = 0 then retS None else
     bindS (table_at (unat (page_base e4))) (\<lambda>pdpt.
     bindS (entry pdpt (vidx 30 vaddr)) (\<lambda>e3.
     if e3 = 0 then retS None else
     bindS (table_at (unat (page_base e3))) (\<lambda>pd.
     bindS (entry pd (vidx 21 vaddr)) (\<lambda>pd_entry.
     if pd_entry = 0 \<or> pd_entry AND HUGE_PAGE \<noteq> 0 then retS None else
     bindS (table_at (unat (page_base pd_entry))) (\<lambda>pt.
     bindS (entry pt (vidx 12 vaddr)) (\<lambda>pt_entry.
     if pt_entry = 0 then retS None else retS (Some (unat (page_base pt_entry)))))))))))"

text \<open>\<^verbatim>\<open>map_user_page\<close> runs this block once per level.\<close>

definition get_or_create :: "u64 \<Rightarrow> u64 \<Rightarrow> string \<Rightarrow> (mm, u64) op" where
  "get_or_create tbl idx msg =
     bindS (entry tbl idx) (\<lambda>e.
     bindS (if e = 0 then
              bindS (alloc_expect msg) (\<lambda>phys.
              bindS (table_at phys) (\<lambda>ptr.
              bindS (clear_table ptr) (\<lambda>_.
              set_entry tbl idx (of_nat phys OR PRESENT OR WRITABLE OR USER))))
            else retS ()) (\<lambda>_.
     bindS (entry tbl idx) (\<lambda>e'.
     table_at (unat (page_base e')))))"

definition map_user_page :: "u64 \<Rightarrow> u64 \<Rightarrow> u64 \<Rightarrow> u64 \<Rightarrow> (mm, unit) op" where
  "map_user_page pml4_phys vaddr paddr flags =
     bindS (table_at (unat pml4_phys)) (\<lambda>pml4.
     bindS (get_or_create pml4 (vidx 39 vaddr) ''OOM: PDPT'') (\<lambda>pdpt.
     bindS (get_or_create pdpt (vidx 30 vaddr) ''OOM: PD'') (\<lambda>pd.
     bindS (get_or_create pd (vidx 21 vaddr) ''OOM: PT'') (\<lambda>pt.
     set_entry pt (vidx 12 vaddr) (paddr OR flags OR PRESENT OR USER)))))"

section \<open>Tables by path\<close>

text \<open>
  The table reached from the root \<open>cr3\<close> along a path of indices, the last index first.
  An entry of a page directory with the huge bit is a 2 MiB leaf and leads to no table.
\<close>

fun table :: "mem \<Rightarrow> u64 \<Rightarrow> u64 list \<Rightarrow> u64 option" where
  "table m cr3 [] = Some cr3"
| "table m cr3 (i # p) =
     (case table m cr3 p of None \<Rightarrow> None
      | Some t \<Rightarrow>
         let e = rd64 m (ent t i) in
         if e = 0 \<or> length p = 2 \<and> e AND HUGE_PAGE \<noteq> 0 then None else Some (page_base e))"

definition is_path :: "u64 list \<Rightarrow> bool" where
  "is_path p \<longleftrightarrow> length p \<le> 3 \<and> (\<forall>i \<in> set p. i < 512)"

text \<open>
  The entries the kernel writes: the entry \<open>e\<close> of a table at depth \<open>d\<close> (0 for the PML4)
  is present, is not a huge leaf above the page directories, and leads to a table only
  with the writable and user bits set, so that the leaf alone decides the rights.
\<close>

definition entry_ok :: "nat \<Rightarrow> u64 \<Rightarrow> bool" where
  "entry_ok d e \<longleftrightarrow> e = 0 \<or>
     bit e 0 \<and> (d < 2 \<longrightarrow> \<not> bit e 7) \<and> (d < 2 \<or> d = 2 \<and> \<not> bit e 7 \<longrightarrow> bit e 1 \<and> bit e 2)"

definition pt_inv :: "u64 \<Rightarrow> mm \<Rightarrow> bool" where
  "pt_inv cr3 st \<longleftrightarrow> pmm_inv (frames st) \<and>
     (\<forall>p t i. is_path p \<longrightarrow> table (ram st) cr3 p = Some t \<longrightarrow> i < 512 \<longrightarrow>
        entry_ok (length p) (rd64 (ram st) (ent t i))) \<and>
     (\<forall>p t. is_path p \<longrightarrow> table (ram st) cr3 p = Some t \<longrightarrow>
        page_aligned t \<and> t < 0x80000000 \<and> unat t div PAGE_SIZE \<notin> free_set (frames st)) \<and>
     (\<forall>p q t. is_path p \<longrightarrow> is_path q \<longrightarrow> table (ram st) cr3 p = Some t \<longrightarrow>
        table (ram st) cr3 q = Some t \<longrightarrow> p = q)"

text \<open>The entry \<open>j\<close> of the table at a path, 0 when there is no such table.\<close>

definition slot :: "mem \<Rightarrow> u64 \<Rightarrow> u64 list \<Rightarrow> u64 \<Rightarrow> u64" where
  "slot m cr3 q j = (case table m cr3 q of None \<Rightarrow> 0 | Some u \<Rightarrow> rd64 m (ent u j))"

text \<open>The page a process sees at a virtual address, in terms of tables.\<close>

definition mapped :: "mem \<Rightarrow> u64 \<Rightarrow> u64 \<Rightarrow> u64 option" where
  "mapped m cr3 v =
     (case table m cr3 [vidx 21 v, vidx 30 v, vidx 39 v] of None \<Rightarrow> None
      | Some t \<Rightarrow> let e = rd64 m (ent t (vidx 12 v)) in if e = 0 then None else Some (page_base e))"

lemma vidx_bound [simp]: "vidx k v < 512"
proof -
  have "vidx k v \<le> 0x1FF" unfolding vidx_def by (rule word_and_le1)
  then show ?thesis by (simp add: word_le_nat_alt word_less_nat_alt)
qed

lemma is_path_simps [simp]:
  "is_path []"
  "is_path (i # p) \<longleftrightarrow> length p < 3 \<and> i < 512 \<and> is_path p"
  by (auto simp: is_path_def)

lemma pt_invD:
  assumes "pt_inv cr3 st"
  shows "pmm_inv (frames st)"
    and "is_path p \<Longrightarrow> table (ram st) cr3 p = Some t \<Longrightarrow> page_aligned t"
    and "is_path p \<Longrightarrow> table (ram st) cr3 p = Some t \<Longrightarrow> t < 0x80000000"
    and "is_path p \<Longrightarrow> table (ram st) cr3 p = Some t \<Longrightarrow> unat t div PAGE_SIZE \<notin> free_set (frames st)"
    and "is_path p \<Longrightarrow> is_path q \<Longrightarrow> table (ram st) cr3 p = Some t \<Longrightarrow> table (ram st) cr3 q = Some t \<Longrightarrow> p = q"
    and "is_path p \<Longrightarrow> table (ram st) cr3 p = Some t \<Longrightarrow> i < 512 \<Longrightarrow>
      entry_ok (length p) (rd64 (ram st) (ent t i))"
  using assms unfolding pt_inv_def by blast+

lemma table_at_ok [run_simps]: "t < 0x80000000 \<Longrightarrow> table_at (unat t) st = (Inr t, st)"
  by (simp add: table_at_def phys_to_virt_def add64_def KERNEL_VMA_BASE_def word_less_nat_alt)

lemma entry_run [simp, run_simps]: "entry t i st = (Inr (rd64 (ram st) (ent t i)), st)"
  by (simp add: entry_def)

lemma set_entry_run [simp, run_simps]: "set_entry t i v st = (Inr (), st\<lparr>ram := wr64 (ent t i) v (ram st)\<rparr>)"
  by (simp add: set_entry_def)

lemma clear_table_run [simp, run_simps]: "clear_table t st = (Inr (), st\<lparr>ram := zero_page t (ram st)\<rparr>)"
  by (simp add: clear_table_def)

lemma bindS_run:
  "bindS (entry t i) f st = f (rd64 (ram st) (ent t i)) st"
  "bindS (set_entry t i v) g st = g () (st\<lparr>ram := wr64 (ent t i) v (ram st)\<rparr>)"
  "bindS (clear_table t) g st = g () (st\<lparr>ram := zero_page t (ram st)\<rparr>)"
  "bindS (retS x) h st = h x st"
  by (simp_all add: bindS_def)

lemma bindS_table_at: "t < 0x80000000 \<Longrightarrow> bindS (table_at (unat t)) f st = f t st"
  by (simp add: bindS_def table_at_ok)

lemma lookup_page_mapped:
  assumes inv: "pt_inv cr3 st"
  shows "lookup_page cr3 v st = (Inr (map_option unat (mapped (ram st) cr3 v)), st)"
proof -
  let ?m = "ram st" and ?i4 = "vidx 39 v" and ?i3 = "vidx 30 v" and ?i2 = "vidx 21 v"
  have low: "is_path p \<Longrightarrow> table ?m cr3 p = Some t \<Longrightarrow> t < 0x80000000" for p t
    using pt_invD(3) [OF inv] by blast
  have l0: "cr3 < 0x80000000" using low [of "[]"] by simp
  show ?thesis
  proof (cases "table ?m cr3 [?i4]")
    case None
    then show ?thesis
      by (simp add: lookup_page_def bindS_table_at l0 bindS_run mapped_def Let_def split: if_splits)
  next
    case t1: (Some t1)
    note l1 = low [OF _ t1, simplified]
    show ?thesis
    proof (cases "table ?m cr3 [?i3, ?i4]")
      case None
      then show ?thesis using t1 l1
        by (simp add: lookup_page_def bindS_table_at l0 bindS_run mapped_def Let_def split: if_splits)
    next
      case t2: (Some t2)
      note l2 = low [OF _ t2, simplified]
      show ?thesis
      proof (cases "table ?m cr3 [?i2, ?i3, ?i4]")
        case None
        then show ?thesis using t1 l1 t2 l2
          by (auto simp add: lookup_page_def bindS_table_at l0 bindS_run mapped_def Let_def split: if_splits)
      next
        case t3: (Some t3)
        note l3 = low [OF _ t3, simplified]
        then show ?thesis using t1 l1 t2 l2 t3
          by (auto simp add: lookup_page_def bindS_table_at l0 bindS_run mapped_def Let_def split: if_splits)
      qed
    qed
  qed
qed

section \<open>Creating a table\<close>

lemma page_base_of_frame: "page_aligned p \<Longrightarrow> page_base (p OR PRESENT OR WRITABLE OR USER) = p"
  using page_base_or [of p "PRESENT OR WRITABLE OR USER"] by (simp add: flag_defs or.assoc)

lemma huge_iff_bit: "e AND HUGE_PAGE = 0 \<longleftrightarrow> \<not> bit e 7"
proof -
  have "HUGE_PAGE = one_shl 7" by (simp add: HUGE_PAGE_def one_shl_def)
  then show ?thesis by (metis and_one_shl_zero)
qed

lemma frame_entry_flags:
  "p OR PRESENT OR WRITABLE OR USER \<noteq> 0"
  "page_aligned p \<Longrightarrow> (p OR PRESENT OR WRITABLE OR USER) AND HUGE_PAGE = 0"
proof -
  have "bit (p OR PRESENT OR WRITABLE OR USER) 0"
    unfolding flag_defs by (simp add: bit_simps)
  then show "p OR PRESENT OR WRITABLE OR USER \<noteq> 0" by force
next
  assume "page_aligned p"
  then have "\<not> bit p 7" by (rule aligned_bit) simp
  then show "(p OR PRESENT OR WRITABLE OR USER) AND HUGE_PAGE = 0"
    unfolding huge_iff_bit by (simp add: PRESENT_def WRITABLE_def USER_def bit_simps)
qed

lemma frame_entry_ok: "page_aligned p \<Longrightarrow> entry_ok d (p OR PRESENT OR WRITABLE OR USER)"
  using frame_entry_flags(2) [of p]
  by (auto simp: entry_ok_def huge_iff_bit) (simp_all add: flag_defs bit_simps)

lemma alloc_frame:
  assumes "pmm_inv s" and "alloc_page s = (Some a, s')"
  shows "page_aligned (of_nat a)" and "(of_nat a :: u64) < 0x80000000" and "unat (of_nat a :: u64) = a"
    and "a div PAGE_SIZE \<in> free_set s" and "free_set s' = free_set s - {a div PAGE_SIZE}" and "pmm_inv s'"
proof -
  note spec = alloc_page_Some [OF assms]
  let ?p = "Min (free_set s)"
  have p: "?p < 262144" using free_set_bound [OF spec(2)] by (simp add: MAX_PAGES_def BITMAP_BYTES_def)
  have a: "a = ?p * 4096" using spec(1) by (simp add: PAGE_SIZE_def)
  then have "a < 2 ^ 30" using p by simp
  then show u: "unat (of_nat a :: u64) = a" by (simp add: unat_of_nat)
  show "page_aligned (of_nat a)" using a u by (simp add: aligned_iff)
  show "(of_nat a :: u64) < 0x80000000" using u \<open>a < 2 ^ 30\<close> by (simp add: word_less_nat_alt)
  have d: "a div PAGE_SIZE = ?p" using a by (simp add: PAGE_SIZE_def)
  show "a div PAGE_SIZE \<in> free_set s" "free_set s' = free_set s - {a div PAGE_SIZE}" "pmm_inv s'"
    using spec d by simp_all
qed

text \<open>The tables after an empty slot received a fresh, cleared table.\<close>

lemma table_link:
  assumes ins: "\<And>q u j. is_path q \<Longrightarrow> table m cr3 q = Some u \<Longrightarrow> j < 512 \<Longrightarrow>
      rd64 m' (ent u j) = (if q = p \<and> j = i then e else rd64 m (ent u j))"
    and fresh: "\<And>j. j < 512 \<Longrightarrow> rd64 m' (ent (page_base e) j) = 0"
    and t: "table m cr3 p = Some t" and empty: "rd64 m (ent t i) = 0"
    and e: "e \<noteq> 0" "e AND HUGE_PAGE = 0" and i: "i < 512"
    and q: "is_path q"
  shows "table m' cr3 q = (if q = i # p then Some (page_base e) else table m cr3 q)"
  using q
proof (induction q)
  case (Cons j r)
  have below: "table m cr3 (i # p) = None" using t empty by simp
  show ?case
  proof (cases "r = i # p")
    case True
    with Cons show ?thesis using below fresh [of j] by simp
  next
    case False
    then have r: "table m' cr3 r = table m cr3 r" using Cons by simp
    show ?thesis
    proof (cases "table m cr3 r")
      case None
      then show ?thesis using r t by auto
    next
      case (Some u)
      then show ?thesis using r ins [of r u j] Cons.prems t e by (auto simp: Let_def)
    qed
  qed
qed simp

definition touched_only :: "u64 set \<Rightarrow> mem \<Rightarrow> mem \<Rightarrow> bool" where
  "touched_only T m m' \<longleftrightarrow> (\<forall>x. page_base x \<notin> T \<longrightarrow> m' x = m x)"

lemma touched_only_trans:
  "touched_only S m m' \<Longrightarrow> touched_only T m' m'' \<Longrightarrow> touched_only (S \<union> T) m m''"
  by (simp add: touched_only_def)

text \<open>What \<open>get_or_create\<close> does to the entry \<open>i\<close> of the table at path \<open>p\<close>.\<close>

definition extended :: "u64 \<Rightarrow> u64 list \<Rightarrow> u64 \<Rightarrow> u64 \<Rightarrow> mm \<Rightarrow> mm \<Rightarrow> bool" where
  "extended cr3 p i t' st st' \<longleftrightarrow>
     pt_inv cr3 st' \<and>
     (\<forall>q. is_path q \<longrightarrow> table (ram st') cr3 q = (if q = i # p then Some t' else table (ram st) cr3 q)) \<and>
     (\<forall>q u j. is_path q \<longrightarrow> table (ram st) cr3 q = Some u \<longrightarrow> j < 512 \<longrightarrow> (q, j) \<noteq> (p, i) \<longrightarrow>
        rd64 (ram st') (ent u j) = rd64 (ram st) (ent u j)) \<and>
     (case table (ram st) cr3 (i # p) of
        None \<Rightarrow> unat t' div PAGE_SIZE \<in> free_set (frames st) \<and> (\<forall>j < 512. rd64 (ram st') (ent t' j) = 0)
      | Some u \<Rightarrow> u = t') \<and>
     (\<exists>F \<subseteq> {unat t' div PAGE_SIZE}. free_set (frames st') = free_set (frames st) - F) \<and>
     touched_only {the (table (ram st) cr3 p), t'} (ram st) (ram st')"

lemma get_or_create_keep:
  assumes inv: "pt_inv cr3 st" and p: "is_path (i # p)" and t: "table (ram st) cr3 p = Some t"
    and t': "table (ram st) cr3 (i # p) = Some t'"
  shows "get_or_create t i msg st = (Inr t', st) \<and> extended cr3 p i t' st st"
proof -
  have e: "rd64 (ram st) (ent t i) \<noteq> 0" and t'_eq: "t' = page_base (rd64 (ram st) (ent t i))"
    using t t' by (auto simp: Let_def split: if_splits)
  have "t' < 0x80000000" using pt_invD(3) [OF inv p t'] .
  then have "get_or_create t i msg st = (Inr t', st)"
    using e unfolding get_or_create_def t'_eq by (simp add: bindS_run table_at_ok)
  moreover have "extended cr3 p i t' st st"
    unfolding extended_def using inv t' t by (auto simp: touched_only_def intro: exI [of _ "{}"])
  ultimately show ?thesis ..
qed

lemma get_or_create_new:
  assumes inv: "pt_inv cr3 st" and p: "is_path (i # p)" and t: "table (ram st) cr3 p = Some t"
    and empty: "rd64 (ram st) (ent t i) = 0" and al: "alloc_page (frames st) = (Some a, s')"
  shows "\<exists>st'. get_or_create t i msg st = (Inr (of_nat a), st') \<and> extended cr3 p i (of_nat a) st st'"
proof -
  let ?n = "of_nat a :: u64" and ?m = "ram st"
  let ?e = "?n OR PRESENT OR WRITABLE OR USER"
  let ?m' = "wr64 (ent t i) ?e (zero_page ?n ?m)"
  let ?st' = "st\<lparr>frames := s', ram := ?m'\<rparr>"
  note pm = pt_invD(1) [OF inv]
  note fr = alloc_frame [OF pm al]
  have ip: "is_path p" "i < 512" using p by simp_all
  have al_t: "page_aligned t" using pt_invD(2) [OF inv ip(1) t] .
  have n_new: "u \<noteq> ?n" if "is_path q" "table ?m cr3 q = Some u" for q u
    using pt_invD(4) [OF inv that] fr(3,4) by auto
  have al_u: "page_aligned u" if "is_path q" "table ?m cr3 q = Some u" for q u
    using pt_invD(2) [OF inv that] .
  have rd: "rd64 ?m' (ent u j) = (if u = t \<and> j = i then ?e else if u = ?n then 0 else rd64 ?m (ent u j))"
    if "page_aligned u" "j < 512" for u j
    using that al_t ip fr(1) by (auto simp: rd64_wr64_ent rd64_zero_page)
  have run: "get_or_create t i msg st = (Inr ?n, ?st')"
    using empty rd [OF al_t ip(2)] fr(1-3) table_at_ok [OF fr(2)]
    unfolding get_or_create_def
    by (simp add: bindS_run alloc_expect_def bindS_def al page_base_of_frame)
  have ins: "rd64 ?m' (ent u j) = (if q = p \<and> j = i then ?e else rd64 ?m (ent u j))"
    if "is_path q" "table ?m cr3 q = Some u" "j < 512" for q u j
    using rd [OF al_u [OF that(1,2)] that(3)] n_new [OF that(1,2)] pt_invD(5) [OF inv that(1) ip(1) that(2)] t that(2)
    by auto
  have zero: "rd64 ?m' (ent ?n j) = 0" if "j < 512" for j
    using rd [OF fr(1) that] n_new [OF ip(1) t] by simp
  have tab: "table ?m' cr3 q = (if q = i # p then Some ?n else table ?m cr3 q)" if "is_path q" for q
    using table_link [OF ins _ t empty frame_entry_flags(1) frame_entry_flags(2) [OF fr(1)] ip(2) that]
      zero page_base_of_frame [OF fr(1)] by simp
  have "pt_inv cr3 ?st'"
    unfolding pt_inv_def
  proof (intro conjI allI impI)
    fix q u assume q: "is_path q" and u: "table (ram ?st') cr3 q = Some u"
    have "u = ?n \<or> table ?m cr3 q = Some u" using u tab [OF q] by (auto split: if_splits)
    then show "page_aligned u" and "u < 0x80000000" and "unat u div PAGE_SIZE \<notin> free_set (frames ?st')"
      using q fr pt_invD(2-4) [OF inv q] by auto
  next
    fix q u and j :: u64 assume q: "is_path q" and u: "table (ram ?st') cr3 q = Some u" and j: "j < 512"
    show "entry_ok (length q) (rd64 (ram ?st') (ent u j))"
    proof (cases "q = i # p")
      case True
      then have "rd64 (ram ?st') (ent u j) = 0" using u tab [OF q] zero [OF j] by simp
      then show ?thesis by (simp add: entry_ok_def)
    next
      case False
      then have "table ?m cr3 q = Some u" using u tab [OF q] by simp
      then show ?thesis
        using ins [OF q _ j] pt_invD(6) [OF inv q _ j] frame_entry_ok [OF fr(1)] by simp
    qed
  next
    fix q r u assume "is_path q" "is_path r" "table (ram ?st') cr3 q = Some u" "table (ram ?st') cr3 r = Some u"
    then show "q = r" using tab n_new pt_invD(5) [OF inv, of q r u] by (auto split: if_splits)
  qed (simp add: fr(6))
  moreover have "touched_only {t, ?n} ?m ?m'"
    unfolding touched_only_def using wr64_frame [OF al_t ip(2)] zero_page_frame [OF fr(1)] by simp
  ultimately have "extended cr3 p i ?n st ?st'"
    unfolding extended_def using tab ins zero t fr(3-5) empty by auto
  with run show ?thesis by blast
qed

text \<open>A write to an entry of a last-level table leads to the same tables.\<close>

lemma table_leaf:
  assumes ins: "\<And>q u j. is_path q \<Longrightarrow> table m cr3 q = Some u \<Longrightarrow> j < 512 \<Longrightarrow> length q < 3 \<Longrightarrow>
      rd64 m' (ent u j) = rd64 m (ent u j)"
    and q: "is_path q"
  shows "table m' cr3 q = table m cr3 q"
  using q
proof (induction q)
  case (Cons j r)
  then show ?case using ins [of r _ j] by (auto split: option.splits)
qed simp

lemma get_or_create_spec:
  assumes inv: "pt_inv cr3 st" and p: "is_path (i # p)" and t: "table (ram st) cr3 p = Some t"
    and nh: "length p = 2 \<Longrightarrow> rd64 (ram st) (ent t i) AND HUGE_PAGE = 0"
    and free: "free_set (frames st) \<noteq> {}"
  obtains t' st' where "get_or_create t i msg st = (Inr t', st')" and "extended cr3 p i t' st st'"
proof (cases "rd64 (ram st) (ent t i) = 0")
  case True
  obtain a s' where "alloc_page (frames st) = (Some a, s')"
    using pm.alloc_succeeds [OF pt_invD(1) [OF inv]] free by (auto simp: frame_addrs_def)
  then show ?thesis using get_or_create_new [OF inv p t True] that by blast
next
  case False
  then have "table (ram st) cr3 (i # p) = Some (page_base (rd64 (ram st) (ent t i)))"
    using t nh by (auto simp: Let_def)
  then show ?thesis using get_or_create_keep [OF inv p t] that by blast
qed

text \<open>Whether \<open>v\<close> lies in a 2 MiB page.\<close>

definition in_huge :: "mem \<Rightarrow> u64 \<Rightarrow> u64 \<Rightarrow> bool" where
  "in_huge m cr3 v \<longleftrightarrow>
     (case table m cr3 [vidx 30 v, vidx 39 v] of None \<Rightarrow> False
      | Some t \<Rightarrow> rd64 m (ent t (vidx 21 v)) AND HUGE_PAGE \<noteq> 0)"

definition tables_of :: "mem \<Rightarrow> u64 \<Rightarrow> u64 set" where
  "tables_of m cr3 = {t. \<exists>q. is_path q \<and> table m cr3 q = Some t}"

lemma extendedD:
  assumes "extended cr3 p i t' st st'" and "is_path (i # p)"
  shows "pt_inv cr3 st'"
    and "table (ram st') cr3 (i # p) = Some t'"
    and "is_path q \<Longrightarrow> q \<noteq> i # p \<Longrightarrow> table (ram st') cr3 q = table (ram st) cr3 q"
    and "is_path q \<Longrightarrow> table (ram st) cr3 q = Some u \<Longrightarrow> table (ram st') cr3 q = Some u"
    and "free_set (frames st') \<subseteq> free_set (frames st)"
    and "card (free_set (frames st)) \<le> card (free_set (frames st')) + 1"
proof -
  show "pt_inv cr3 st'" "table (ram st') cr3 (i # p) = Some t'"
    "is_path q \<Longrightarrow> q \<noteq> i # p \<Longrightarrow> table (ram st') cr3 q = table (ram st) cr3 q"
    using assms by (simp_all add: extended_def del: table.simps)
  show "table (ram st') cr3 q = Some u" if "is_path q" "table (ram st) cr3 q = Some u"
  proof (cases "q = i # p")
    case True
    then show ?thesis
      using assms that unfolding extended_def by (auto split: option.splits simp del: table.simps)
  next
    case False
    then show ?thesis using assms that by (simp add: extended_def del: table.simps)
  qed
  obtain F where "F \<subseteq> {unat t' div PAGE_SIZE}" and fr: "free_set (frames st') = free_set (frames st) - F"
    using assms by (auto simp: extended_def)
  then have "finite F" and "card F \<le> 1"
    using finite_subset [of F] card_mono [of "{unat t' div PAGE_SIZE}" F] by simp_all
  then show "card (free_set (frames st)) \<le> card (free_set (frames st')) + 1"
    using diff_card_le_card_Diff [of F "free_set (frames st)"] unfolding fr by linarith
  show "free_set (frames st') \<subseteq> free_set (frames st)" using fr by blast
qed

lemma extended_entry:
  assumes "extended cr3 p i t' st st'" and "is_path (i # p)" and "is_path q" and "j < 512" and "(q, j) \<noteq> (p, i)"
  shows "slot (ram st') cr3 q j = slot (ram st) cr3 q j"
proof (cases "table (ram st) cr3 q")
  case None
  then show ?thesis using assms by (auto simp: slot_def extended_def simp del: table.simps)
next
  case (Some u)
  then have "rd64 (ram st') (ent u j) = rd64 (ram st) (ent u j)"
    using assms unfolding extended_def by blast
  then show ?thesis using Some extendedD(4) [OF assms(1,2,3) Some] by (simp add: slot_def)
qed

lemma mapped_alt:
  "mapped m cr3 v =
     (let e = slot m cr3 [vidx 21 v, vidx 30 v, vidx 39 v] (vidx 12 v)
      in if e = 0 then None else Some (page_base e))"
  by (simp add: mapped_def slot_def Let_def split: option.split)

lemma in_huge_alt:
  "in_huge m cr3 v \<longleftrightarrow>
     slot m cr3 [vidx 30 v, vidx 39 v] (vidx 21 v) AND HUGE_PAGE \<noteq> 0"
  by (simp add: in_huge_def slot_def split: option.split)

lemma extended_mapped:
  assumes "extended cr3 p i t' st st'" and "is_path (i # p)"
  shows "mapped (ram st') cr3 v = mapped (ram st) cr3 v"
proof -
  let ?P = "[vidx 21 v, vidx 30 v, vidx 39 v]"
  have "is_path ?P" "(?P, vidx 12 v) \<noteq> (p, i)" using assms(2) by auto
  note e = extended_entry [OF assms this(1) vidx_bound this(2)]
  show ?thesis unfolding mapped_alt e ..
qed

lemma extended_in_huge:
  assumes "extended cr3 p i t' st st'" and "is_path (i # p)"
    and old: "length p = 2 \<Longrightarrow> \<not> bit (slot (ram st) cr3 p i) 7"
  shows "in_huge (ram st') cr3 v = in_huge (ram st) cr3 v"
proof -
  let ?P = "[vidx 30 v, vidx 39 v]"
  show ?thesis
  proof (cases "(?P, vidx 21 v) = (p, i)")
    case False
    then have e: "slot (ram st') cr3 ?P (vidx 21 v) = slot (ram st) cr3 ?P (vidx 21 v)"
      by (intro extended_entry [OF assms(1,2)]) auto
    show ?thesis unfolding in_huge_alt e ..
  next
    case True
    then have P: "p = ?P" "i = vidx 21 v" by simp_all
    have "table (ram st') cr3 (i # ?P) = Some t'" using extendedD(2) [OF assms(1,2)] P by metis
    then have "\<not> bit (slot (ram st') cr3 ?P (vidx 21 v)) 7" using P(2)
      by (auto simp: slot_def Let_def huge_iff_bit split: option.splits if_splits)
    with old show ?thesis unfolding in_huge_alt P huge_iff_bit by simp
  qed
qed

lemma extended_tables:
  assumes "extended cr3 p i t' st st'" and "is_path (i # p)"
  shows "tables_of (ram st') cr3 \<subseteq> tables_of (ram st) cr3 \<union> {t. unat t div PAGE_SIZE \<in> free_set (frames st)}"
proof
  fix t assume "t \<in> tables_of (ram st') cr3"
  then obtain q where q: "is_path q" "table (ram st') cr3 q = Some t" by (auto simp: tables_of_def)
  show "t \<in> tables_of (ram st) cr3 \<union> {t. unat t div PAGE_SIZE \<in> free_set (frames st)}"
  proof (cases "q = i # p")
    case False
    then show ?thesis using q extendedD(3) [OF assms] unfolding tables_of_def by auto
  next
    case True
    then have t: "t = t'" using q extendedD(2) [OF assms] by (metis option.inject)
    show ?thesis
    proof (cases "table (ram st) cr3 (i # p)")
      case (Some u)
      then have "u = t'" using assms(1) unfolding extended_def by (simp del: table.simps)
      then show ?thesis using Some t assms(2) unfolding tables_of_def by blast
    next
      case None
      then show ?thesis using assms(1) t unfolding extended_def by (simp del: table.simps)
    qed
  qed
qed

lemma extended_touched:
  assumes "extended cr3 p i t' st st'" and "is_path (i # p)" and "table (ram st) cr3 p = Some t"
  shows "touched_only (tables_of (ram st') cr3) (ram st) (ram st')"
    and "tables_of (ram st) cr3 \<subseteq> tables_of (ram st') cr3"
proof -
  have "t \<in> tables_of (ram st') cr3" "t' \<in> tables_of (ram st') cr3"
    using extendedD(2,4) [OF assms(1,2)] assms(2,3) unfolding tables_of_def by fastforce+
  then show "touched_only (tables_of (ram st') cr3) (ram st) (ram st')"
    using assms(1,3) unfolding extended_def touched_only_def by force
  show "tables_of (ram st) cr3 \<subseteq> tables_of (ram st') cr3"
    using extendedD(4) [OF assms(1,2)] unfolding tables_of_def by blast
qed

text \<open>The number of the 4 KiB page a (48 bit) virtual address lies in.\<close>

definition vpn :: "u64 \<Rightarrow> u64" where
  "vpn v = take_bit 36 (drop_bit 12 v)"

lemma bit_vidx: "bit (vidx k v) j \<longleftrightarrow> j < 9 \<and> bit v (k + j)"
proof -
  have m: "(0x1FF :: u64) = mask 9" by (simp add: mask_eq_exp_minus_1)
  show ?thesis unfolding vidx_def m by (auto simp: bit_simps dest: bit_imp_le_length)
qed

lemma vpn_eq_iff:
  "vpn v = vpn w \<longleftrightarrow> vidx 39 v = vidx 39 w \<and> vidx 30 v = vidx 30 w \<and> vidx 21 v = vidx 21 w \<and> vidx 12 v = vidx 12 w"
proof -
  have v: "bit (vpn x) n \<longleftrightarrow> n < 36 \<and> bit x (12 + n)" for x n
    by (auto simp: vpn_def bit_simps)
  have idx: "bit (vpn x) (k + j) = bit (vidx (12 + k) x) j" if "k + j < 36" "j < 9" for x k j
    using that by (simp add: v bit_vidx add.assoc)
  show ?thesis
  proof (intro iffI conjI)
    assume eq: "vpn v = vpn w"
    have "vidx (12 + k) v = vidx (12 + k) w" if "k + 9 \<le> 36" for k
    proof (rule bit_word_eqI)
      fix j show "bit (vidx (12 + k) v) j = bit (vidx (12 + k) w) j"
      proof (cases "j < 9")
        case True
        then have "k + j < 36" using that by linarith
        from idx [OF this True] show ?thesis using eq by metis
      next
        case False
        then show ?thesis by (simp only: bit_vidx) simp
      qed
    qed
    from this [of 27] this [of 18] this [of 9] this [of 0]
    show "vidx 39 v = vidx 39 w" "vidx 30 v = vidx 30 w" "vidx 21 v = vidx 21 w" "vidx 12 v = vidx 12 w"
      by simp_all
  next
    assume eq: "vidx 39 v = vidx 39 w \<and> vidx 30 v = vidx 30 w \<and> vidx 21 v = vidx 21 w \<and> vidx 12 v = vidx 12 w"
    show "vpn v = vpn w"
    proof (rule bit_word_eqI)
      fix n :: nat
      consider "n < 9" | "9 \<le> n \<and> n < 18" | "18 \<le> n \<and> n < 27" | "27 \<le> n \<and> n < 36" | "36 \<le> n" by linarith
      then show "bit (vpn v) n = bit (vpn w) n"
        using eq idx [of 0 n] idx [of 9 "n - 9"] idx [of 18 "n - 18"] idx [of 27 "n - 27"]
        by cases (auto simp: v)
    qed
  qed
qed

lemma leaf_entry:
  assumes "page_aligned pa" and "unat flags < 4096"
  shows "page_base (pa OR flags OR PRESENT OR USER) = pa" and "pa OR flags OR PRESENT OR USER \<noteq> 0"
    and "bit (pa OR flags OR PRESENT OR USER) 0"
proof -
  have "take_bit 12 flags = flags" using assms(2) by (intro take_bit_small) simp
  then have "take_bit 12 (flags OR PRESENT OR USER) = flags OR PRESENT OR USER"
    by (simp add: take_bit_or flag_defs)
  from page_base_or [OF assms(1) this] show "page_base (pa OR flags OR PRESENT OR USER) = pa"
    by (simp add: or.assoc)
  show "bit (pa OR flags OR PRESENT OR USER) 0" by (simp add: flag_defs bit_simps)
  then show "pa OR flags OR PRESENT OR USER \<noteq> 0" by force
qed

lemma set_leaf:
  assumes inv: "pt_inv cr3 st" and P: "is_path P" "length P = 3" and t: "table (ram st) cr3 P = Some t"
    and i: "i < 512" and e: "bit e 0" and st': "st' = st\<lparr>ram := wr64 (ent t i) e (ram st)\<rparr>"
  shows "pt_inv cr3 st'"
    and "is_path q \<Longrightarrow> table (ram st') cr3 q = table (ram st) cr3 q"
    and "is_path q \<Longrightarrow> table (ram st) cr3 q = Some u \<Longrightarrow> j < 512 \<Longrightarrow>
      rd64 (ram st') (ent u j) = (if q = P \<and> j = i then e else rd64 (ram st) (ent u j))"
    and "touched_only (tables_of (ram st') cr3) (ram st) (ram st')"
proof -
  have al: "page_aligned t" using pt_invD(2) [OF inv P(1) t] .
  show ins: "rd64 (ram st') (ent u j) = (if q = P \<and> j = i then e else rd64 (ram st) (ent u j))"
    if "is_path q" "table (ram st) cr3 q = Some u" "j < 512" for q u j
  proof -
    have "t = u \<longleftrightarrow> q = P"
    proof
      assume "t = u"
      with t have "table (ram st) cr3 P = Some u" by simp
      then show "q = P" by (rule pt_invD(5) [OF inv that(1) P(1) that(2)])
    next
      assume "q = P"
      with t that(2) show "t = u" by simp
    qed
    then show ?thesis using rd64_wr64_ent [OF al pt_invD(2) [OF inv that(1,2)] i that(3), of e "ram st"] i
      by (simp add: st' conj_commute eq_commute)
  qed
  show tab: "table (ram st') cr3 q = table (ram st) cr3 q" if "is_path q" for q
  proof (rule table_leaf [OF _ that])
    fix r u and j :: u64 assume "is_path r" "table (ram st) cr3 r = Some u" "j < 512" "length r < 3"
    then show "rd64 (ram st') (ent u j) = rd64 (ram st) (ent u j)"
      using ins [of r u j] P(2) by auto
  qed
  have "entry_ok (length q) (rd64 (ram st') (ent u j))"
    if "is_path q" "table (ram st) cr3 q = Some u" "j < 512" for q u j
    using ins [OF that] pt_invD(6) [OF inv that] e P(2) by (simp add: entry_ok_def)
  then show "pt_inv cr3 st'" using inv tab unfolding pt_inv_def by (simp add: st')
  have "t \<in> tables_of (ram st') cr3" using tab [OF P(1)] t P(1) unfolding tables_of_def by auto
  then show "touched_only (tables_of (ram st') cr3) (ram st) (ram st')"
    unfolding touched_only_def st' by (auto intro!: wr64_frame [OF al i])
qed

section \<open>The processor's view\<close>

text \<open>
  The four-level walk of the processor: the physical address and whether the access may
  write and may come from ring 3. Bit 7 of an entry above the last level ends the walk at
  a large page; addresses in entries are bits 12 to 51.
\<close>

definition hw_base :: "nat \<Rightarrow> u64 \<Rightarrow> u64" where
  "hw_base k e = push_bit k (drop_bit k (take_bit 52 e))"

definition walk :: "mem \<Rightarrow> u64 \<Rightarrow> u64 \<Rightarrow> (u64 \<times> bool \<times> bool) option" where
  "walk m cr3 v =
     (let e4 = rd64 m (ent cr3 (vidx 39 v)) in
      if \<not> bit e4 0 then None else
      let e3 = rd64 m (ent (hw_base 12 e4) (vidx 30 v)) in
      if \<not> bit e3 0 then None else
      if bit e3 7 then Some (hw_base 30 e3 OR take_bit 30 v, bit e4 1 \<and> bit e3 1, bit e4 2 \<and> bit e3 2) else
      let e2 = rd64 m (ent (hw_base 12 e3) (vidx 21 v)) in
      if \<not> bit e2 0 then None else
      if bit e2 7 then Some (hw_base 21 e2 OR take_bit 21 v,
        bit e4 1 \<and> bit e3 1 \<and> bit e2 1, bit e4 2 \<and> bit e3 2 \<and> bit e2 2) else
      let e1 = rd64 m (ent (hw_base 12 e2) (vidx 12 v)) in
      if \<not> bit e1 0 then None else
      Some (hw_base 12 e1 OR take_bit 12 v,
        bit e4 1 \<and> bit e3 1 \<and> bit e2 1 \<and> bit e1 1, bit e4 2 \<and> bit e3 2 \<and> bit e2 2 \<and> bit e1 2))"

lemma bit_page_base: "bit (page_base e) k \<longleftrightarrow> 12 \<le> k \<and> bit e k"
proof -
  have m: "(0xFFF :: u64) = mask 12" by (simp add: mask_eq_exp_minus_1)
  show ?thesis unfolding page_base_def m by (auto simp: bit_simps dest: bit_imp_le_length)
qed

lemma hw_base_eq:
  assumes "unat (page_base e) < 2 ^ 52"
  shows "hw_base 12 e = page_base e"
proof -
  have "k < 52 \<and> k - 12 < 40" if "12 \<le> k" "bit e k" for k
    using bit_bound [OF assms, of k] that by (simp add: bit_page_base)
  then show ?thesis
    unfolding hw_base_def by (intro bit_word_eqI) (auto simp: bit_simps bit_page_base)
qed

text \<open>On well-formed tables the page directory entry and the last entry decide.\<close>

definition large_leaf :: "u64 \<Rightarrow> u64 \<Rightarrow> u64 \<times> bool \<times> bool" where
  "large_leaf e v = (hw_base 21 e OR take_bit 21 v, bit e 1, bit e 2)"

definition small_leaf :: "u64 \<Rightarrow> u64 \<Rightarrow> u64 \<times> bool \<times> bool" where
  "small_leaf e v = (hw_base 12 e OR take_bit 12 v, bit e 1, bit e 2)"

lemma walk_slots:
  assumes inv: "pt_inv cr3 st"
  shows "walk (ram st) cr3 v =
    (let e2 = slot (ram st) cr3 [vidx 30 v, vidx 39 v] (vidx 21 v);
         e1 = slot (ram st) cr3 [vidx 21 v, vidx 30 v, vidx 39 v] (vidx 12 v)
     in if bit e2 7 then Some (large_leaf e2 v) else if e1 = 0 then None else Some (small_leaf e1 v))"
proof -
  let ?m = "ram st" and ?i4 = "vidx 39 v" and ?i3 = "vidx 30 v" and ?i2 = "vidx 21 v" and ?i1 = "vidx 12 v"
  have P: "is_path []" "is_path [?i4]" "is_path [?i3, ?i4]" "is_path [?i2, ?i3, ?i4]" by simp_all
  have hw: "hw_base 12 e = page_base e" if "is_path q" "table ?m cr3 q = Some (page_base e)" for q e
    using pt_invD(3) [OF inv that] by (intro hw_base_eq) (simp add: word_less_nat_alt)
  define e4 where "e4 = rd64 ?m (ent cr3 ?i4)"
  have ok4: "entry_ok 0 e4" using pt_invD(6) [OF inv P(1), of cr3 ?i4] by (simp add: e4_def)
  show ?thesis
  proof (cases "e4 = 0")
    case True
    then show ?thesis by (simp add: walk_def slot_def flip: e4_def)
  next
    case n4: False
    then have t1: "table ?m cr3 [?i4] = Some (page_base e4)" by (simp add: e4_def Let_def)
    define e3 where "e3 = rd64 ?m (ent (page_base e4) ?i3)"
    have ok3: "entry_ok 1 e3" using pt_invD(6) [OF inv P(2) t1, of ?i3] by (simp add: e3_def)
    have b4: "bit e4 0" "bit e4 1" "bit e4 2" using ok4 n4 by (simp_all add: entry_ok_def)
    note w4 = walk_def [of ?m cr3 v, folded e4_def, unfolded Let_def hw [OF P(2) t1], folded e3_def]
    show ?thesis
    proof (cases "e3 = 0")
      case True
      then show ?thesis using t1 by (simp add: w4 slot_def flip: e3_def)
    next
      case n3: False
      then have t2: "table ?m cr3 [?i3, ?i4] = Some (page_base e3)" using t1 by (simp add: e3_def Let_def)
      define e2 where "e2 = rd64 ?m (ent (page_base e3) ?i2)"
      have ok2: "entry_ok 2 e2" using pt_invD(6) [OF inv P(3) t2, of ?i2] by (simp add: e2_def numeral_2_eq_2)
      have b3: "bit e3 0" "\<not> bit e3 7" "bit e3 1" "bit e3 2" using ok3 n3 by (simp_all add: entry_ok_def)
      note w3 = w4 [unfolded hw [OF P(3) t2], folded e2_def]
      have s2: "slot ?m cr3 [?i3, ?i4] ?i2 = e2" using t2 by (simp add: slot_def e2_def del: table.simps)
      show ?thesis
      proof (cases "e2 = 0 \<or> bit e2 7")
        case True
        have "slot ?m cr3 [?i2, ?i3, ?i4] ?i1 = 0" using t2 True
          by (auto simp: slot_def huge_iff_bit Let_def e2_def split: option.splits)
        with True ok2 b4 b3 s2 show ?thesis by (auto simp: w3 large_leaf_def entry_ok_def Let_def)
      next
        case False
        then have t3: "table ?m cr3 [?i2, ?i3, ?i4] = Some (page_base e2)"
          using t2 by (simp add: e2_def Let_def huge_iff_bit)
        define e1 where "e1 = rd64 ?m (ent (page_base e2) ?i1)"
        have ok1: "entry_ok 3 e1" using pt_invD(6) [OF inv P(4) t3, of ?i1] by (simp add: e1_def numeral_3_eq_3)
        note w2 = w3 [unfolded hw [OF P(4) t3], folded e1_def]
        have s1: "slot ?m cr3 [?i2, ?i3, ?i4] ?i1 = e1" using t3 by (simp add: slot_def e1_def del: table.simps)
        show ?thesis using False ok2 ok1 b4 b3 s2 s1
          by (auto simp: w2 small_leaf_def entry_ok_def Let_def)
      qed
    qed
  qed
qed

lemma extended_walk:
  assumes inv: "pt_inv cr3 st" and "extended cr3 p i t' st st'" and "is_path (i # p)"
    and old: "length p = 2 \<Longrightarrow> \<not> bit (slot (ram st) cr3 p i) 7"
  shows "walk (ram st') cr3 v = walk (ram st) cr3 v"
proof -
  let ?P = "[vidx 30 v, vidx 39 v]" and ?Q = "[vidx 21 v, vidx 30 v, vidx 39 v]"
  have Q: "slot (ram st') cr3 ?Q (vidx 12 v) = slot (ram st) cr3 ?Q (vidx 12 v)"
    using assms(3) by (intro extended_entry [OF assms(2,3)]) auto
  note w' = walk_slots [OF extendedD(1) [OF assms(2,3)], of v] and w = walk_slots [OF inv, of v]
  show ?thesis
  proof (cases "(?P, vidx 21 v) = (p, i)")
    case False
    then have P: "slot (ram st') cr3 ?P (vidx 21 v) = slot (ram st) cr3 ?P (vidx 21 v)"
      by (intro extended_entry [OF assms(2,3)]) auto
    show ?thesis unfolding w w' P Q ..
  next
    case True
    then have P: "p = ?P" "i = vidx 21 v" by simp_all
    have "table (ram st') cr3 (i # ?P) = Some t'" using extendedD(2) [OF assms(2,3)] P by metis
    then have "\<not> bit (slot (ram st') cr3 ?P (vidx 21 v)) 7" using P(2)
      by (auto simp: slot_def Let_def huge_iff_bit split: option.splits if_splits)
    with old show ?thesis unfolding w w' Q P by (simp add: Let_def)
  qed
qed

lemma map_user_page_run:
  assumes inv: "pt_inv cr3 st" and nh: "\<not> in_huge (ram st) cr3 v" and free: "3 \<le> card (free_set (frames st))"
  obtains t st3 where
    "map_user_page cr3 v pa flags st =
       (Inr (), st3\<lparr>ram := wr64 (ent t (vidx 12 v)) (pa OR flags OR PRESENT OR USER) (ram st3)\<rparr>)"
    "pt_inv cr3 st3" "table (ram st3) cr3 [vidx 21 v, vidx 30 v, vidx 39 v] = Some t"
    "\<And>w. mapped (ram st3) cr3 w = mapped (ram st) cr3 w"
    "\<And>w. walk (ram st3) cr3 w = walk (ram st) cr3 w"
    "touched_only (tables_of (ram st3) cr3) (ram st) (ram st3)"
    "free_set (frames st3) \<subseteq> free_set (frames st)" "card (free_set (frames st)) \<le> card (free_set (frames st3)) + 3"
    "\<And>w. in_huge (ram st3) cr3 w = in_huge (ram st) cr3 w"
    "tables_of (ram st) cr3 \<subseteq> tables_of (ram st3) cr3"
    "tables_of (ram st3) cr3 \<subseteq> tables_of (ram st) cr3 \<union> {t. unat t div PAGE_SIZE \<in> free_set (frames st)}"
proof -
  let ?i4 = "vidx 39 v" and ?i3 = "vidx 30 v" and ?i2 = "vidx 21 v"
  have c3: "cr3 < 0x80000000" using pt_invD(3) [OF inv, of "[]"] by simp
  have P: "is_path [?i4]" "is_path [?i3, ?i4]" "is_path [?i2, ?i3, ?i4]" by simp_all
  have "free_set (frames st) \<noteq> {}" using free by auto
  then obtain t1 st1 where r1: "get_or_create cr3 ?i4 ''OOM: PDPT'' st = (Inr t1, st1)"
    and e1: "extended cr3 [] ?i4 t1 st st1"
    using get_or_create_spec [OF inv P(1), of cr3] by (auto simp del: table.simps(2))
  note D1 = extendedD [OF e1 P(1)]
  have f1: "2 \<le> card (free_set (frames st1))" using D1(6) free by linarith
  then have "free_set (frames st1) \<noteq> {}" by auto
  then obtain t2 st2 where r2: "get_or_create t1 ?i3 ''OOM: PD'' st1 = (Inr t2, st2)"
    and e2: "extended cr3 [?i4] ?i3 t2 st1 st2"
    using get_or_create_spec [OF D1(1) P(2) D1(2)] by auto
  note D2 = extendedD [OF e2 P(2)]
  have "1 \<le> card (free_set (frames st2))" using D2(6) f1 by linarith
  then have f2: "free_set (frames st2) \<noteq> {}" by auto
  have "\<not> in_huge (ram st2) cr3 v"
    using nh extended_in_huge [OF e1 P(1)] extended_in_huge [OF e2 P(2)] by simp
  then have nh2: "rd64 (ram st2) (ent t2 ?i2) AND HUGE_PAGE = 0"
    using D2(2) by (simp add: in_huge_def del: table.simps)
  then have old: "\<not> bit (slot (ram st2) cr3 [?i3, ?i4] ?i2) 7"
    using D2(2) by (simp add: slot_def huge_iff_bit del: table.simps)
  from nh2 obtain t3 st3 where r3: "get_or_create t2 ?i2 ''OOM: PT'' st2 = (Inr t3, st3)"
    and e3: "extended cr3 [?i3, ?i4] ?i2 t3 st2 st3"
    using get_or_create_spec [OF D2(1) P(3) D2(2) _ f2] by blast
  note D3 = extendedD [OF e3 P(3)]
  show thesis
  proof
    show "map_user_page cr3 v pa flags st =
       (Inr (), st3\<lparr>ram := wr64 (ent t3 (vidx 12 v)) (pa OR flags OR PRESENT OR USER) (ram st3)\<rparr>)"
      unfolding map_user_page_def bindS_table_at [OF c3]
      by (simp add: bindS_def r1 r2 r3)
    show "mapped (ram st3) cr3 w = mapped (ram st) cr3 w" for w
      using extended_mapped [OF e1 P(1)] extended_mapped [OF e2 P(2)] extended_mapped [OF e3 P(3)] by simp
    show "walk (ram st3) cr3 w = walk (ram st) cr3 w" for w
      using extended_walk [OF inv e1 P(1)] extended_walk [OF D1(1) e2 P(2)]
        extended_walk [OF D2(1) e3 P(3) old] by simp
    note T1 = extended_touched [OF e1 P(1), of cr3] and T2 = extended_touched [OF e2 P(2) D1(2)]
      and T3 = extended_touched [OF e3 P(3) D2(2)]
    have "touched_only (tables_of (ram st1) cr3 \<union> tables_of (ram st2) cr3 \<union> tables_of (ram st3) cr3) (ram st) (ram st3)"
      using T1 T2 T3 by (blast intro: touched_only_trans table.simps(1))
    then show "touched_only (tables_of (ram st3) cr3) (ram st) (ram st3)"
      using T2(2) T3(2) unfolding touched_only_def by blast
    show "free_set (frames st3) \<subseteq> free_set (frames st)" using D1(5) D2(5) D3(5) by blast
    show "card (free_set (frames st)) \<le> card (free_set (frames st3)) + 3" using D1(6) D2(6) D3(6) by linarith
    show "in_huge (ram st3) cr3 w = in_huge (ram st) cr3 w" for w
      using extended_in_huge [OF e1 P(1)] extended_in_huge [OF e2 P(2)] extended_in_huge [OF e3 P(3) old] by simp
    show "tables_of (ram st) cr3 \<subseteq> tables_of (ram st3) cr3" using T1(2) T2(2) T3(2) by auto
    show "tables_of (ram st3) cr3 \<subseteq> tables_of (ram st) cr3 \<union> {t. unat t div PAGE_SIZE \<in> free_set (frames st)}"
      using extended_tables [OF e1 P(1)] extended_tables [OF e2 P(2)] extended_tables [OF e3 P(3)] D1(5) D2(5) by blast
  qed (use D3 in auto)
qed

lemma small_leaf_user:
  assumes "page_aligned pa" and "unat pa < 2 ^ 52" and "unat flags < 4096"
  shows "small_leaf (pa OR flags OR PRESENT OR USER) w = (pa OR take_bit 12 w, bit flags 1, True)"
proof -
  note leaf = leaf_entry [OF assms(1,3)]
  have "\<not> bit pa 1" using aligned_bit [OF assms(1), of 1] by simp
  then have "bit (pa OR flags OR PRESENT OR USER) 1 = bit flags 1" "bit (pa OR flags OR PRESENT OR USER) 2"
    by (simp_all add: flag_defs bit_simps)
  moreover have "hw_base 12 (pa OR flags OR PRESENT OR USER) = pa" using hw_base_eq leaf(1) assms(2) by simp
  ultimately show ?thesis by (simp add: small_leaf_def)
qed

lemma set_leaf_walk:
  assumes inv: "pt_inv cr3 st" and t: "table (ram st) cr3 [vidx 21 v, vidx 30 v, vidx 39 v] = Some t"
    and st': "st' = st\<lparr>ram := wr64 (ent t (vidx 12 v)) (pa OR flags OR PRESENT OR USER) (ram st)\<rparr>"
    and pa: "page_aligned pa" "unat pa < 2 ^ 52" "unat flags < 4096"
  shows "walk (ram st') cr3 w =
    (if vpn w = vpn v then Some (pa OR take_bit 12 w, bit flags 1, True) else walk (ram st) cr3 w)"
proof -
  let ?P = "\<lambda>v. [vidx 30 v, vidx 39 v]" and ?Q = "\<lambda>v. [vidx 21 v, vidx 30 v, vidx 39 v]"
  let ?e = "pa OR flags OR PRESENT OR USER"
  note leaf = leaf_entry [OF pa(1,3)]
  have PQ: "is_path (?P w)" "is_path (?Q w)" "length (?Q w) = 3" for w by simp_all
  note L = set_leaf [OF inv PQ(2,3) t vidx_bound leaf(3) st']
  have sP: "slot (ram st') cr3 (?P w) (vidx 21 w) = slot (ram st) cr3 (?P w) (vidx 21 w)"
    using L(2) [OF PQ(1), of w] L(3) [OF PQ(1) _ vidx_bound, of w _ 21 w]
    unfolding slot_def by (simp split: option.split del: table.simps)
  have sQ: "slot (ram st') cr3 (?Q w) (vidx 12 w) = (if vpn w = vpn v then ?e else slot (ram st) cr3 (?Q w) (vidx 12 w))"
    using L(2) [OF PQ(2), of w] L(3) [OF PQ(2) _ vidx_bound, of w _ 12 w] t
    unfolding slot_def vpn_eq_iff by (auto split: option.split simp del: table.simps)
  have "\<not> bit (slot (ram st) cr3 (?P w) (vidx 21 w)) 7" if "vpn w = vpn v"
    using t that unfolding vpn_eq_iff
    by (auto simp: slot_def Let_def huge_iff_bit split: option.splits if_splits)
  then show ?thesis
    unfolding walk_slots [OF inv] walk_slots [OF L(1)] sP sQ Let_def
    using leaf(2) small_leaf_user [OF pa] by simp
qed

lemma set_leaf_in_huge:
  assumes inv: "pt_inv cr3 st" and t: "table (ram st) cr3 [vidx 21 v, vidx 30 v, vidx 39 v] = Some t"
    and st': "st' = st\<lparr>ram := wr64 (ent t (vidx 12 v)) e (ram st)\<rparr>" and e: "bit e 0"
  shows "in_huge (ram st') cr3 w = in_huge (ram st) cr3 w"
proof -
  let ?P = "[vidx 30 w, vidx 39 w]"
  have P: "is_path ?P" "is_path [vidx 21 v, vidx 30 v, vidx 39 v]" by simp_all
  note L = set_leaf [OF inv P(2) _ t vidx_bound e st']
  show ?thesis
    using L(2) [OF _ P(1)] L(3) [OF _ P(1) _ vidx_bound, of _ 21 w]
    unfolding in_huge_def by (simp split: option.split del: table.simps)
qed

lemma map_user_page_effect:
  assumes "pt_inv cr3 st" and "\<not> in_huge (ram st) cr3 v" and "3 \<le> card (free_set (frames st))"
    and "page_aligned pa" and "unat pa < 2 ^ 52" and "unat flags < 4096"
  obtains st' where "map_user_page cr3 v pa flags st = (Inr (), st')" and "pt_inv cr3 st'"
    and "\<And>w. mapped (ram st') cr3 w = (if vpn w = vpn v then Some pa else mapped (ram st) cr3 w)"
    and "\<And>w. walk (ram st') cr3 w =
       (if vpn w = vpn v then Some (pa OR take_bit 12 w, bit flags 1, True) else walk (ram st) cr3 w)"
    and "touched_only (tables_of (ram st') cr3) (ram st) (ram st')"
    and "free_set (frames st') \<subseteq> free_set (frames st)"
    and "card (free_set (frames st)) \<le> card (free_set (frames st')) + 3"
    and "\<And>w. in_huge (ram st') cr3 w = in_huge (ram st) cr3 w"
    and "tables_of (ram st) cr3 \<subseteq> tables_of (ram st') cr3"
    and "tables_of (ram st') cr3 \<subseteq> tables_of (ram st) cr3 \<union> {t. unat t div PAGE_SIZE \<in> free_set (frames st)}"
proof -
  let ?P = "\<lambda>v. [vidx 21 v, vidx 30 v, vidx 39 v]"
  let ?e = "pa OR flags OR PRESENT OR USER"
  obtain t st3 where run: "map_user_page cr3 v pa flags st =
       (Inr (), st3\<lparr>ram := wr64 (ent t (vidx 12 v)) ?e (ram st3)\<rparr>)"
    and inv3: "pt_inv cr3 st3" and t: "table (ram st3) cr3 (?P v) = Some t"
    and same: "\<And>w. mapped (ram st3) cr3 w = mapped (ram st) cr3 w"
    and same_walk: "\<And>w. walk (ram st3) cr3 w = walk (ram st) cr3 w"
    and touch: "touched_only (tables_of (ram st3) cr3) (ram st) (ram st3)"
    and fr: "free_set (frames st3) \<subseteq> free_set (frames st)"
      "card (free_set (frames st)) \<le> card (free_set (frames st3)) + 3"
    and hug: "\<And>w. in_huge (ram st3) cr3 w = in_huge (ram st) cr3 w"
    and grow: "tables_of (ram st) cr3 \<subseteq> tables_of (ram st3) cr3"
    and tabs: "tables_of (ram st3) cr3 \<subseteq> tables_of (ram st) cr3 \<union> {t. unat t div PAGE_SIZE \<in> free_set (frames st)}"
    by (rule map_user_page_run [OF assms(1-3), of pa flags]) blast
  define st' where "st' = st3\<lparr>ram := wr64 (ent t (vidx 12 v)) ?e (ram st3)\<rparr>"
  have PP: "is_path (?P w)" "length (?P w) = 3" for w by simp_all
  note leaf = leaf_entry [OF assms(4,6)]
  note L = set_leaf [OF inv3 PP t vidx_bound leaf(3) st'_def]
  have m': "mapped (ram st') cr3 w = (if vpn w = vpn v then Some pa else mapped (ram st) cr3 w)" for w
  proof (cases "table (ram st3) cr3 (?P w)")
    case None
    then have "vpn w \<noteq> vpn v" using t unfolding vpn_eq_iff by (auto simp del: table.simps)
    with None L(2) [OF PP(1)] same [of w] show ?thesis by (simp add: mapped_def del: table.simps)
  next
    case (Some u)
    have "mapped (ram st') cr3 w = (if vpn w = vpn v then Some pa else mapped (ram st3) cr3 w)"
      using Some L(2) [OF PP(1), of w] L(3) [OF PP(1) Some vidx_bound, of 12 w] leaf
      unfolding mapped_def vpn_eq_iff Let_def by (auto simp del: table.simps)
    then show ?thesis using same by simp
  qed
  have w': "walk (ram st') cr3 w =
      (if vpn w = vpn v then Some (pa OR take_bit 12 w, bit flags 1, True) else walk (ram st) cr3 w)" for w
    using set_leaf_walk [OF inv3 t st'_def assms(4-6)] same_walk by simp
  have h': "in_huge (ram st') cr3 w = in_huge (ram st) cr3 w" for w
    using set_leaf_in_huge [OF inv3 t st'_def leaf(3)] hug by simp
  have T: "tables_of (ram st') cr3 = tables_of (ram st3) cr3" using L(2) unfolding tables_of_def by auto
  then have "touched_only (tables_of (ram st') cr3) (ram st) (ram st')"
    using touched_only_trans [OF touch L(4)] by simp
  then show thesis
    by (rule that [OF run [folded st'_def] L(1) m' w' _ _ _ h']) (use fr tabs grow T in \<open>simp_all add: st'_def\<close>)
qed

text \<open>
  \<^bold>\<open>C6.\<close> Mapping a 4 KiB page into an address space with well-formed tables, at an address
  that is not covered by a 2 MiB page and with three frames left for missing tables,
  succeeds; afterwards \<^verbatim>\<open>lookup_page\<close> finds exactly the given frame at every address
  of that page and what it found before at every other address, the tables are still
  well-formed (aligned, inside the kernel alias, never free, never shared), no frame was
  given back, and no byte of memory outside the frames of the tables changed. The
  processor's walk agrees: it reaches the frame with the user right, and the write right
  exactly when the flags ask for it, and translates every other address as before.
\<close>

theorem map_user_page_correct:
  assumes "pt_inv cr3 st" and "\<not> in_huge (ram st) cr3 v" and "3 \<le> card (free_set (frames st))"
    and "page_aligned pa" and "unat pa < 2 ^ 52" and "unat flags < 4096"
  shows "\<exists>st'. map_user_page cr3 v pa flags st = (Inr (), st') \<and> pt_inv cr3 st' \<and>
    (\<forall>w. fst (lookup_page cr3 w st') =
       (if vpn w = vpn v then Inr (Some (unat pa)) else fst (lookup_page cr3 w st))) \<and>
    (\<forall>w. walk (ram st') cr3 w =
       (if vpn w = vpn v then Some (pa OR take_bit 12 w, bit flags 1, True) else walk (ram st) cr3 w)) \<and>
    touched_only (tables_of (ram st') cr3) (ram st) (ram st') \<and>
    free_set (frames st') \<subseteq> free_set (frames st)"
proof -
  obtain st' where run: "map_user_page cr3 v pa flags st = (Inr (), st')" and inv: "pt_inv cr3 st'"
    and eff: "\<And>w. mapped (ram st') cr3 w = (if vpn w = vpn v then Some pa else mapped (ram st) cr3 w)"
      "\<And>w. walk (ram st') cr3 w =
         (if vpn w = vpn v then Some (pa OR take_bit 12 w, bit flags 1, True) else walk (ram st) cr3 w)"
      "touched_only (tables_of (ram st') cr3) (ram st) (ram st')"
      "free_set (frames st') \<subseteq> free_set (frames st)"
    by (rule map_user_page_effect [OF assms]) blast
  then show ?thesis
    using lookup_page_mapped [OF assms(1)] lookup_page_mapped [OF inv] by (intro exI [of _ st']) simp
qed

definition demo_mm :: mm where
  "demo_mm = \<lparr>frames = pmm_init (Some [demo_region]) pmm_new, ram = (\<lambda>_. 0)\<rparr>"

lemma rd64_zero: "rd64 (\<lambda>_. 0) a = 0"
proof -
  have "rd_bytes (\<lambda>_. 0) a 8 = replicate 8 0" by (simp add: rd_bytes_def map_replicate_const)
  then show ?thesis by (simp add: rd64_def numeral_eq_Suc)
qed

lemma demo_mm_table: "table (ram demo_mm) cr3 p = Some t \<longleftrightarrow> p = [] \<and> t = cr3"
  by (cases p) (auto simp: demo_mm_def rd64_zero split: option.splits)

lemma demo_mm_inv: "pt_inv 0x4000 demo_mm" "\<not> in_huge (ram demo_mm) 0x4000 v"
proof -
  show "pt_inv 0x4000 demo_mm"
    unfolding pt_inv_def demo_mm_table
    using demo_boot by (auto simp: demo_mm_def rd64_zero entry_ok_def aligned_iff PAGE_SIZE_def)
  show "\<not> in_huge (ram demo_mm) 0x4000 v"
    by (simp add: in_huge_def demo_mm_def rd64_zero)
qed

theorem map_user_page_correct_witness:
  "\<exists>st'. map_user_page 0x4000 0x400000 0x7000 2 demo_mm = (Inr (), st') \<and>
     fst (lookup_page 0x4000 0x400123 st') = Inr (Some 0x7000) \<and>
     walk (ram st') 0x4000 0x400123 = Some (0x7123, True, True)"
proof -
  have v: "vpn 0x400123 = vpn 0x400000" by (simp add: vpn_def)
  have "3 \<le> card (free_set (frames demo_mm))" by (simp add: demo_mm_def demo_boot)
  moreover have "page_aligned 0x7000" "unat (0x7000 :: u64) < 2 ^ 52" "unat (2 :: u64) < 4096"
    by (simp_all add: aligned_def)
  ultimately obtain st' where "map_user_page 0x4000 0x400000 0x7000 2 demo_mm = (Inr (), st')"
    "\<And>w. fst (lookup_page 0x4000 w st') =
       (if vpn w = vpn 0x400000 then Inr (Some (unat (0x7000 :: u64))) else fst (lookup_page 0x4000 w demo_mm))"
    "\<And>w. walk (ram st') 0x4000 w =
       (if vpn w = vpn 0x400000 then Some (0x7000 OR take_bit 12 w, bit (2::u64) 1, True) else walk (ram demo_mm) 0x4000 w)"
    using map_user_page_correct [OF demo_mm_inv(1) demo_mm_inv(2) [of "0x400000"]] by blast
  then show ?thesis using v by (simp add: bit_simps)
qed

end
