(* ===== verification/AddressSpace.thy ===== *)
theory AddressSpace
  imports Paging
begin

text \<open>
  The boot page tables and the address space of a user process
  (ross-kernel/src/paging.rs), and anonymous memory (mmap.rs).
\<close>

section \<open>Boot tables\<close>

text \<open>The physical addresses the linker gives to the static tables.\<close>

record kernel_tables =
  kt_PML4 :: u64
  kt_PDPT_LOW :: u64
  kt_PDPT_HIGH :: u64
  kt_PD :: u64

definition pd_table :: "kernel_tables \<Rightarrow> nat \<Rightarrow> u64" where
  "pd_table kt i = kt_PD kt + of_nat i * 4096"

text \<open>The bodies of the two loops of \<^verbatim>\<open>init\<close>.\<close>

definition link_pd :: "kernel_tables \<Rightarrow> nat \<Rightarrow> (mm, unit) op" where
  "link_pd kt i =
     (let pd_phys = pd_table kt i; e = pd_phys OR PRESENT OR WRITABLE OR USER in
      bindS (set_entry (kt_PDPT_LOW kt) (of_nat i) e) (\<lambda>_.
      bindS (if i = 0 then set_entry (kt_PDPT_HIGH kt) 510 e else retS ()) (\<lambda>_.
      bindS (if i = 1 then set_entry (kt_PDPT_HIGH kt) 511 e else retS ()) (\<lambda>_.
      bindS (if i = 2 then set_entry (kt_PDPT_HIGH kt) 508 e else retS ()) (\<lambda>_.
      if i = 3 then set_entry (kt_PDPT_HIGH kt) 509 e else retS ())))))"

definition fill_pd :: "kernel_tables \<Rightarrow> nat \<Rightarrow> (mm, unit) op" where
  "fill_pd kt pd_idx =
     (let base_phys = of_nat pd_idx * 0x40000000 in
      forS [0 ..< 512] (\<lambda>ent_idx.
        let phys = base_phys + of_nat ent_idx * 0x200000 in
        set_entry (pd_table kt pd_idx) (of_nat ent_idx)
          (phys OR PRESENT OR WRITABLE OR HUGE_PAGE OR USER)))"

definition paging_init :: "kernel_tables \<Rightarrow> (mm, u64) op" where
  "paging_init kt =
     bindS (set_entry (kt_PML4 kt) 0 (kt_PDPT_LOW kt OR PRESENT OR WRITABLE OR USER)) (\<lambda>_.
     bindS (set_entry (kt_PML4 kt) 511 (kt_PDPT_HIGH kt OR PRESENT OR WRITABLE OR USER)) (\<lambda>_.
     bindS (forS [0 ..< 4] (link_pd kt)) (\<lambda>_.
     bindS (forS [0 ..< 4] (fill_pd kt)) (\<lambda>_.
     retS (kt_PML4 kt)))))"

section \<open>User address spaces\<close>

definition create_user_address_space_old :: "kernel_tables \<Rightarrow> (mm, u64) op" where
  "create_user_address_space_old kt =
     bindS (alloc_expect ''OOM: PML4'') (\<lambda>pml4_phys.
     bindS (table_at pml4_phys) (\<lambda>pml4.
     bindS (clear_table pml4) (\<lambda>_.
     bindS (entry (kt_PML4 kt) 511) (\<lambda>high.
     bindS (set_entry pml4 511 high) (\<lambda>_.
     bindS (alloc_expect ''OOM: PDPT'') (\<lambda>pdpt_phys.
     bindS (table_at pdpt_phys) (\<lambda>pdpt.
     bindS (clear_table pdpt) (\<lambda>_.
     bindS (alloc_expect ''OOM: PD'') (\<lambda>pd_phys.
     bindS (table_at pd_phys) (\<lambda>pd.
     bindS (clear_table pd) (\<lambda>_.
     bindS (set_entry pd 0 (0 OR PRESENT OR WRITABLE OR HUGE_PAGE)) (\<lambda>_.
     bindS (set_entry pdpt 0 (of_nat pd_phys OR PRESENT OR WRITABLE)) (\<lambda>_.
     bindS (set_entry pml4 0 (of_nat pdpt_phys OR PRESENT OR WRITABLE)) (\<lambda>_.
     retS (of_nat pml4_phys)))))))))))))))"

text \<open>The body of the loop of \<^verbatim>\<open>create_user_address_space\<close>: one page directory.\<close>

definition user_pd :: "u64 \<Rightarrow> nat \<Rightarrow> (mm, unit) op" where
  "user_pd pdpt pdpt_idx =
     bindS (alloc_expect ''OOM: PD'') (\<lambda>pd_phys.
     bindS (table_at pd_phys) (\<lambda>pd.
     bindS (clear_table pd) (\<lambda>_.
     bindS (forS [0 ..< 512] (\<lambda>pd_idx.
       if pdpt_idx = 0 \<and> pd_idx = 2 then retS () else
       let phys_addr = (of_nat pdpt_idx * 512 + of_nat pd_idx) * 0x200000 in
       set_entry pd (of_nat pd_idx) (phys_addr OR 0x80 OR 2 OR 1))) (\<lambda>_.
     set_entry pdpt (of_nat pdpt_idx) (of_nat pd_phys OR 4 OR 2 OR 1)))))"

definition create_user_address_space :: "kernel_tables \<Rightarrow> (mm, u64) op" where
  "create_user_address_space kt =
     bindS (alloc_expect ''OOM: PML4'') (\<lambda>pml4_phys.
     bindS (table_at pml4_phys) (\<lambda>pml4.
     bindS (clear_table pml4) (\<lambda>_.
     bindS (entry (kt_PML4 kt) 511) (\<lambda>high.
     bindS (set_entry pml4 511 high) (\<lambda>_.
     bindS (alloc_expect ''OOM: PDPT'') (\<lambda>pdpt_phys.
     bindS (table_at pdpt_phys) (\<lambda>pdpt.
     bindS (clear_table pdpt) (\<lambda>_.
     bindS (forS [0 ..< 4] (user_pd pdpt)) (\<lambda>_.
     bindS (set_entry pml4 0 (of_nat pdpt_phys OR 4 OR 2 OR 1)) (\<lambda>_.
     retS (of_nat pml4_phys)))))))))))"

section \<open>Anonymous memory\<close>

definition alloc_anon_page :: "u64 \<Rightarrow> u64 \<Rightarrow> nat \<Rightarrow> (mm, unit) op" where
  "alloc_anon_page cr3 base i =
     bindS (liftS (add64 base (of_nat i * 4096))) (\<lambda>vaddr.
     bindS (\<lambda>st. case alloc_page (frames st) of
         (None, s) \<Rightarrow> (Inl (Err ''mmap: OOM''), st\<lparr>frames := s\<rparr>)
       | (Some a, s) \<Rightarrow> (Inr a, st\<lparr>frames := s\<rparr>)) (\<lambda>phys.
     bindS (table_at phys) (\<lambda>kptr.
     bindS (clear_table kptr) (\<lambda>_.
     map_user_page cr3 vaddr (of_nat phys) 7))))"

definition alloc_anon :: "u64 \<Rightarrow> u64 \<Rightarrow> usize \<Rightarrow> (mm, unit) op" where
  "alloc_anon cr3 base pages = forS [0 ..< pages] (alloc_anon_page cr3 base)"

section \<open>Filling a table\<close>

lemma forS_entries:
  assumes "page_aligned T" and "\<forall>i \<in> set ks. i < 512"
  obtains m' where
    "forS ks (\<lambda>i. if c i then retS () else set_entry T (of_nat i) (f i)) st = (Inr (), st\<lparr>ram := m'\<rparr>)"
    "\<And>t j. page_aligned t \<Longrightarrow> j < 512 \<Longrightarrow> rd64 m' (ent t j) =
       (if t = T \<and> unat j \<in> set ks \<and> \<not> c (unat j) then f (unat j) else rd64 (ram st) (ent t j))"
    "touched_only {T} (ram st) m'"
proof -
  have "\<exists>m'. forS ks (\<lambda>i. if c i then retS () else set_entry T (of_nat i) (f i)) st = (Inr (), st\<lparr>ram := m'\<rparr>) \<and>
    (\<forall>t j. page_aligned t \<longrightarrow> j < 512 \<longrightarrow> rd64 m' (ent t j) =
       (if t = T \<and> unat j \<in> set ks \<and> \<not> c (unat j) then f (unat j) else rd64 (ram st) (ent t j))) \<and>
    touched_only {T} (ram st) m'"
    using assms(2)
  proof (induction ks arbitrary: st)
    case Nil
    show ?case by (rule exI [of _ "ram st"]) (simp add: touched_only_def)
  next
    case (Cons i ks)
    define st1 where "st1 = (if c i then st else st\<lparr>ram := wr64 (ent T (of_nat i)) (f i) (ram st)\<rparr>)"
    have i: "i < 512" "(of_nat i :: u64) < 512" "unat (of_nat i :: u64) = i" using Cons.prems
      by (simp_all add: word_less_nat_alt unat_of_nat)
    obtain m' where m': "forS ks (\<lambda>i. if c i then retS () else set_entry T (of_nat i) (f i)) st1 = (Inr (), st1\<lparr>ram := m'\<rparr>)"
      "\<And>t j. page_aligned t \<Longrightarrow> j < 512 \<Longrightarrow> rd64 m' (ent t j) =
         (if t = T \<and> unat j \<in> set ks \<and> \<not> c (unat j) then f (unat j) else rd64 (ram st1) (ent t j))"
      "touched_only {T} (ram st1) m'"
    proof -
      have "\<forall>i \<in> set ks. i < 512" using Cons.prems by simp
      from Cons.IH [OF this, of st1] show thesis using that by blast
    qed
    have rd1: "rd64 (ram st1) (ent t j) = (if t = T \<and> unat j = i \<and> \<not> c i then f i else rd64 (ram st) (ent t j))"
      if "page_aligned t" "j < 512" for t j
      using that assms(1) i rd64_wr64_ent [OF assms(1) that(1) i(2) that(2), of "f i" "ram st"]
      by (auto simp: st1_def)
    have "forS (i # ks) (\<lambda>i. if c i then retS () else set_entry T (of_nat i) (f i)) st = (Inr (), st\<lparr>ram := m'\<rparr>)"
      using m'(1) by (simp add: st1_def bindS_def split: if_splits)
    moreover have "touched_only {T} (ram st) m'"
      using m'(3) wr64_frame [OF assms(1) i(2)] by (auto simp: touched_only_def st1_def split: if_splits)
    ultimately show ?case
      using m'(2) rd1 by (intro exI [of _ m']) auto
  qed
  then show thesis using that by blast
qed

section \<open>Large pages\<close>

text \<open>The 2 MiB leaf that maps directory slot \<open>e\<close> of gigabyte \<open>i\<close> to itself.\<close>

definition large_entry :: "u64 \<Rightarrow> u64 \<Rightarrow> u64 \<Rightarrow> u64" where
  "large_entry i e f = push_bit 30 i OR push_bit 21 e OR f"

lemma large_base:
  assumes "(e :: u64) < 512"
  shows "(i * 512 + e) * 0x200000 = push_bit 30 i OR push_bit 21 e"
proof -
  have e: "take_bit 9 e = e" using assms by (intro take_bit_small) (simp add: word_less_nat_alt)
  have "push_bit 9 i AND e = 0"
    by (subst e [symmetric], rule bit_word_eqI) (auto simp: bit_simps)
  then have "push_bit 9 i + e = push_bit 9 i OR e" by (rule disjunctive_add_eq_or)
  moreover have "(i * 512 + e) * 0x200000 = push_bit 21 (push_bit 9 i + e)" by (simp add: push_bit_eq_mult)
  ultimately show ?thesis by (simp only: push_bit_or push_bit_push_bit) simp
qed

lemma large_base2: "(e :: u64) < 512 \<Longrightarrow> i * 0x40000000 + e * 0x200000 = push_bit 30 i OR push_bit 21 e"
  by (simp flip: large_base add: algebra_simps)

lemma large_entry_flags:
  assumes "k < 21"
  shows "bit (large_entry i e f) k = bit f k"
  using assms by (auto simp: large_entry_def bit_simps)

lemma large_entry_translate:
  assumes f: "take_bit 21 f = f"
  shows "hw_base 21 (large_entry (vidx 30 v) (vidx 21 v) f) OR take_bit 21 v = take_bit 39 v"
proof (rule bit_word_eqI)
  fix n assume "n < LENGTH(64)"
  have "bit f n \<Longrightarrow> n < 21" using f by (metis bit_take_bit_iff)
  then show "bit (hw_base 21 (large_entry (vidx 30 v) (vidx 21 v) f) OR take_bit 21 v) n = bit (take_bit 39 v) n"
    using \<open>n < LENGTH(64)\<close>
    by (cases "n < 21"; cases "n < 30"; cases "n < 39")
      (auto simp: hw_base_def large_entry_def bit_simps bit_vidx)
qed

section \<open>The address space of a process\<close>

lemma alloc_expect_ok:
  assumes "pmm_inv (frames st)" and "free_set (frames st) \<noteq> {}"
  obtains a s where "\<And>msg. alloc_expect msg st = (Inr a, st\<lparr>frames := s\<rparr>)"
    and "alloc_page (frames st) = (Some a, s)"
proof -
  obtain a s where "alloc_page (frames st) = (Some a, s)"
    using pm.alloc_succeeds [OF assms(1)] assms(2) by (auto simp: frame_addrs_def)
  then show thesis using that by (simp add: alloc_expect_def)
qed

definition fresh_frame :: "mm \<Rightarrow> u64 \<Rightarrow> mm \<Rightarrow> bool" where
  "fresh_frame st n st' \<longleftrightarrow> page_aligned n \<and> n < 0x80000000 \<and> unat n div PAGE_SIZE \<in> free_set (frames st) \<and>
     free_set (frames st') = free_set (frames st) - {unat n div PAGE_SIZE} \<and> pmm_inv (frames st')"

text \<open>Allocating a frame, reaching it through the alias and clearing it.\<close>

lemma new_table:
  assumes "pmm_inv (frames st)" and "free_set (frames st) \<noteq> {}"
  obtains n st' where
    "\<And>msg f. bindS (alloc_expect msg) (\<lambda>phys. bindS (table_at phys) (\<lambda>t. bindS (clear_table t) (\<lambda>_. f phys t))) st =
       f (unat n) n st'"
    and "fresh_frame st n st'" and "ram st' = zero_page n (ram st)"
proof -
  obtain a s where al: "\<And>msg. alloc_expect msg st = (Inr a, st\<lparr>frames := s\<rparr>)" "alloc_page (frames st) = (Some a, s)"
    using alloc_expect_ok [OF assms] by blast
  note fr = alloc_frame [OF assms(1) al(2)]
  let ?n = "of_nat a :: u64" and ?st' = "st\<lparr>frames := s, ram := zero_page (of_nat a) (ram st)\<rparr>"
  have "bindS (alloc_expect msg) (\<lambda>phys. bindS (table_at phys) (\<lambda>t. bindS (clear_table t) (\<lambda>_. f phys t))) st =
       f (unat ?n) ?n ?st'" for msg f
    using table_at_ok [OF fr(2)] by (simp add: bindS_def al(1) fr(3))
  moreover have "fresh_frame st ?n ?st'" using fr by (simp add: fresh_frame_def)
  ultimately show thesis by (rule that) simp
qed

lemma user_pd_step:
  assumes "pmm_inv (frames st)" and "free_set (frames st) \<noteq> {}" and "k < 4"
    and pdpt: "page_aligned pdpt" "unat pdpt div PAGE_SIZE \<notin> free_set (frames st)"
  obtains d st' where "user_pd pdpt k st = (Inr (), st')" and "fresh_frame st d st'"
    and "\<And>t j. page_aligned t \<Longrightarrow> j < 512 \<Longrightarrow> rd64 (ram st') (ent t j) =
       (if t = pdpt \<and> j = of_nat k then d OR 4 OR 2 OR 1
        else if t = d then (if k = 0 \<and> j = 2 then 0 else large_entry (of_nat k) j 0x83)
        else rd64 (ram st) (ent t j))"
    and "touched_only {pdpt, d} (ram st) (ram st')"
proof -
  obtain d st1 where al: "\<And>msg (f :: usize \<Rightarrow> u64 \<Rightarrow> (mm, unit) op). bindS (alloc_expect msg) (\<lambda>phys. bindS (table_at phys) (\<lambda>t. bindS (clear_table t) (\<lambda>_. f phys t))) st =
       f (unat d) d st1"
    and fr: "fresh_frame st d st1" and r1: "ram st1 = zero_page d (ram st)"
    by (rule new_table [OF assms(1,2)]) blast
  have d: "page_aligned d" "pdpt \<noteq> d" using fr pdpt by (auto simp: fresh_frame_def)
  let ?f = "\<lambda>i. (of_nat k * 512 + of_nat i) * 0x200000 OR 0x80 OR 2 OR 1 :: u64"
  obtain m' where m': "forS [0 ..< 512] (\<lambda>i. if k = 0 \<and> i = 2 then retS () else set_entry d (of_nat i) (?f i)) st1 =
      (Inr (), st1\<lparr>ram := m'\<rparr>)"
    "\<And>t j. page_aligned t \<Longrightarrow> j < 512 \<Longrightarrow> rd64 m' (ent t j) =
       (if t = d \<and> unat j \<in> set [0 ..< 512] \<and> \<not> (k = 0 \<and> unat j = 2) then ?f (unat j) else rd64 (ram st1) (ent t j))"
    "touched_only {d} (ram st1) m'"
    by (rule forS_entries [OF d(1), of "[0 ..< 512]" "\<lambda>i. k = 0 \<and> i = 2" ?f st1]) auto
  have k: "(of_nat k :: u64) < 512" using assms(3) by (simp add: word_less_nat_alt unat_of_nat)
  let ?st' = "st1\<lparr>ram := wr64 (ent pdpt (of_nat k)) (d OR 4 OR 2 OR 1) m'\<rparr>"
  have "user_pd pdpt k st = (Inr (), ?st')"
    unfolding user_pd_def al Let_def by (subst bindS_def) (simp only: m'(1) sum.case prod.case, simp)
  moreover have "fresh_frame st d ?st'" using fr by (simp add: fresh_frame_def)
  moreover have "rd64 (ram ?st') (ent t j) = (if t = pdpt \<and> j = of_nat k then d OR 4 OR 2 OR 1
        else if t = d then (if k = 0 \<and> j = 2 then 0 else large_entry (of_nat k) j 0x83)
        else rd64 (ram st) (ent t j))" if t: "page_aligned t" and j: "j < 512" for t j
  proof -
    have "?f (unat j) = large_entry (of_nat k) j 0x83"
      using large_base [OF j] by (simp add: large_entry_def or.assoc)
    moreover have "unat j \<in> set [0 ..< 512]" using j by (simp add: word_less_nat_alt)
    moreover have "unat j = 2 \<longleftrightarrow> j = 2" by (simp add: word_unat_eq_iff)
    ultimately show ?thesis
      using m'(2) [OF t j] rd64_wr64_ent [OF pdpt(1) t k j, of "d OR 4 OR 2 OR 1" m']
        rd64_zero_page [OF t d(1) j, of "ram st"] r1 by auto
  qed
  moreover have "touched_only {pdpt, d} (ram st) (ram ?st')"
    using m'(3) wr64_frame [OF pdpt(1) k] zero_page_frame [OF d(1)] by (simp add: touched_only_def r1)
  ultimately show thesis by (rule that)
qed

text \<open>After \<open>n\<close> rounds the directories \<open>D 0\<close>, \<dots>, \<open>D (n - 1)\<close> are linked and filled.\<close>

definition user_pds_done :: "u64 \<Rightarrow> nat \<Rightarrow> (nat \<Rightarrow> u64) \<Rightarrow> mm \<Rightarrow> mm \<Rightarrow> bool" where
  "user_pds_done pdpt n D st st' \<longleftrightarrow>
     pmm_inv (frames st') \<and> inj_on D {..<n} \<and>
     (\<forall>k < n. page_aligned (D k) \<and> D k < 0x80000000 \<and> D k \<noteq> pdpt \<and> unat (D k) div PAGE_SIZE \<in> free_set (frames st)) \<and>
     free_set (frames st') = free_set (frames st) - (\<lambda>k. unat (D k) div PAGE_SIZE) ` {..<n} \<and>
     (\<forall>j < 512. rd64 (ram st') (ent pdpt j) =
        (if unat j < n then D (unat j) OR 4 OR 2 OR 1 else rd64 (ram st) (ent pdpt j))) \<and>
     (\<forall>k < n. \<forall>j < 512. rd64 (ram st') (ent (D k) j) = (if k = 0 \<and> j = 2 then 0 else large_entry (of_nat k) j 0x83)) \<and>
     (\<forall>t j. page_aligned t \<longrightarrow> j < 512 \<longrightarrow> t \<notin> insert pdpt (D ` {..<n}) \<longrightarrow>
        rd64 (ram st') (ent t j) = rd64 (ram st) (ent t j)) \<and>
     touched_only (insert pdpt (D ` {..<n})) (ram st) (ram st')"

lemma same_frame: "page_aligned a \<Longrightarrow> page_aligned b \<Longrightarrow> unat a div PAGE_SIZE = unat b div PAGE_SIZE \<Longrightarrow> a = b"
  using aligned_dvd [of 12 a] aligned_dvd [of 12 b]
  by (simp add: PAGE_SIZE_def word_unat_eq_iff) (metis dvd_div_mult_self)

lemma user_pds:
  assumes "pmm_inv (frames st)" and "n \<le> card (free_set (frames st))" and "n \<le> 4"
    and pdpt: "page_aligned pdpt" "unat pdpt div PAGE_SIZE \<notin> free_set (frames st)"
  shows "\<exists>D st'. forS [0 ..< n] (user_pd pdpt) st = (Inr (), st') \<and> user_pds_done pdpt n D st st'"
  using assms(2,3)
proof (induction n)
  case 0
  show ?case
    by (rule exI [of _ "\<lambda>_. 0"], rule exI [of _ st]) (use assms in \<open>simp add: user_pds_done_def touched_only_def\<close>)
next
  case (Suc n)
  then obtain D st1 where run1: "forS [0 ..< n] (user_pd pdpt) st = (Inr (), st1)" and d1: "user_pds_done pdpt n D st st1"
    by auto
  let ?F = "(\<lambda>k. unat (D k) div PAGE_SIZE) ` {..<n}"
  have free1: "free_set (frames st1) = free_set (frames st) - ?F" and pm1: "pmm_inv (frames st1)"
    using d1 by (simp_all add: user_pds_done_def)
  have "card ?F \<le> n" using card_image_le [of "{..<n}"] by simp
  then have "free_set (frames st1) \<noteq> {}"
    using Suc.prems diff_card_le_card_Diff [of ?F "free_set (frames st)"] unfolding free1 by force
  moreover have "unat pdpt div PAGE_SIZE \<notin> free_set (frames st1)" using pdpt(2) free1 by simp
  ultimately obtain d st2 where run2: "user_pd pdpt n st1 = (Inr (), st2)" and fr: "fresh_frame st1 d st2"
    and rd: "\<And>t j. page_aligned t \<Longrightarrow> j < 512 \<Longrightarrow> rd64 (ram st2) (ent t j) =
       (if t = pdpt \<and> j = of_nat n then d OR 4 OR 2 OR 1
        else if t = d then (if n = 0 \<and> j = 2 then 0 else large_entry (of_nat n) j 0x83)
        else rd64 (ram st1) (ent t j))"
    and touch: "touched_only {pdpt, d} (ram st1) (ram st2)"
    using user_pd_step [OF pm1 _ _ pdpt(1), of n] Suc.prems by force
  let ?D = "D(n := d)"
  have dnew: "D k \<noteq> d" if "k < n" for k using fr free1 that by (auto simp: fresh_frame_def)
  have img: "?D ` {..<Suc n} = insert d (D ` {..<n})" by (auto simp: lessThan_Suc)
  have dp: "d \<noteq> pdpt" using fr free1 pdpt(2) by (auto simp: fresh_frame_def)
  have "forS [0 ..< Suc n] (user_pd pdpt) st = (Inr (), st2)"
    using run1 run2 by (simp add: forS_append bindS_def)
  moreover have "user_pds_done pdpt (Suc n) ?D st st2"
    unfolding user_pds_done_def
  proof (intro conjI)
    show "pmm_inv (frames st2)" using fr by (simp add: fresh_frame_def)
    show "inj_on ?D {..<Suc n}"
      using d1 by (auto simp: user_pds_done_def inj_on_def less_Suc_eq) (use dnew in blast)+
    show "\<forall>k < Suc n. page_aligned (?D k) \<and> ?D k < 0x80000000 \<and> ?D k \<noteq> pdpt \<and> unat (?D k) div PAGE_SIZE \<in> free_set (frames st)"
      using d1 fr dp free1 by (simp add: user_pds_done_def fresh_frame_def less_Suc_eq)
    show "free_set (frames st2) = free_set (frames st) - (\<lambda>k. unat (?D k) div PAGE_SIZE) ` {..<Suc n}"
      using fr free1 by (auto simp: fresh_frame_def lessThan_Suc)
    show "\<forall>j < 512. rd64 (ram st2) (ent pdpt j) =
        (if unat j < Suc n then ?D (unat j) OR 4 OR 2 OR 1 else rd64 (ram st) (ent pdpt j))"
    proof (intro allI impI)
      fix j :: u64 assume j: "j < 512"
      have "j = of_nat n \<longleftrightarrow> unat j = n" using Suc.prems by (auto simp: unat_of_nat)
      then show "rd64 (ram st2) (ent pdpt j) =
        (if unat j < Suc n then ?D (unat j) OR 4 OR 2 OR 1 else rd64 (ram st) (ent pdpt j))"
        using rd [OF pdpt(1) j] d1 dp j by (simp add: user_pds_done_def less_Suc_eq)
    qed
    show "\<forall>k < Suc n. \<forall>j < 512. rd64 (ram st2) (ent (?D k) j) =
        (if k = 0 \<and> j = 2 then 0 else large_entry (of_nat k) j 0x83)"
      using rd d1 fr dp dnew by (simp add: user_pds_done_def fresh_frame_def less_Suc_eq)
    show "\<forall>t j. page_aligned t \<longrightarrow> j < 512 \<longrightarrow> t \<notin> insert pdpt (?D ` {..<Suc n}) \<longrightarrow>
        rd64 (ram st2) (ent t j) = rd64 (ram st) (ent t j)"
      unfolding img using rd d1 by (simp add: user_pds_done_def)
    show "touched_only (insert pdpt (?D ` {..<Suc n})) (ram st) (ram st2)"
      unfolding img using touch d1 by (simp add: user_pds_done_def touched_only_def)
  qed
  ultimately show ?case by blast
qed

definition user_space :: "kernel_tables \<Rightarrow> u64 \<Rightarrow> u64 \<Rightarrow> (nat \<Rightarrow> u64) \<Rightarrow> mm \<Rightarrow> mm \<Rightarrow> bool" where
  "user_space kt f0 f1 D st st' \<longleftrightarrow>
     pmm_inv (frames st') \<and> distinct [f0, f1, D 0, D 1, D 2, D 3] \<and>
     free_set (frames st') \<subseteq> free_set (frames st) \<and>
     card (free_set (frames st)) \<le> card (free_set (frames st')) + 6 \<and>
     (\<forall>t \<in> {f0, f1, D 0, D 1, D 2, D 3}. page_aligned t \<and> t < 0x80000000 \<and>
        unat t div PAGE_SIZE \<in> free_set (frames st) \<and> unat t div PAGE_SIZE \<notin> free_set (frames st')) \<and>
     (\<forall>j < 512. rd64 (ram st') (ent f0 j) =
        (if j = 0 then f1 OR 4 OR 2 OR 1 else if j = 511 then rd64 (ram st) (ent (kt_PML4 kt) 511) else 0)) \<and>
     (\<forall>j < 512. rd64 (ram st') (ent f1 j) = (if unat j < 4 then D (unat j) OR 4 OR 2 OR 1 else 0)) \<and>
     (\<forall>k < 4. \<forall>j < 512. rd64 (ram st') (ent (D k) j) = (if k = 0 \<and> j = 2 then 0 else large_entry (of_nat k) j 0x83)) \<and>
     (\<forall>t j. page_aligned t \<longrightarrow> j < 512 \<longrightarrow> unat t div PAGE_SIZE \<notin> free_set (frames st) \<longrightarrow>
        rd64 (ram st') (ent t j) = rd64 (ram st) (ent t j)) \<and>
     (\<forall>x. unat (page_base x) div PAGE_SIZE \<notin> free_set (frames st) \<longrightarrow> ram st' x = ram st x)"

lemma lessThan_4: "{..<4::nat} = {0, 1, 2, 3}"
  by auto

lemma create_run:
  assumes pm: "pmm_inv (frames st)" and free: "6 \<le> card (free_set (frames st))"
    and root: "page_aligned (kt_PML4 kt)" "unat (kt_PML4 kt) div PAGE_SIZE \<notin> free_set (frames st)"
  shows "\<exists>f0 f1 D st'. create_user_address_space kt st = (Inr f0, st') \<and> user_space kt f0 f1 D st st'"
proof -
  let ?K = "kt_PML4 kt"
  have "free_set (frames st) \<noteq> {}" using free by auto
  then obtain f0 st1 where al0: "\<And>msg (f :: usize \<Rightarrow> u64 \<Rightarrow> (mm, u64) op). bindS (alloc_expect msg)
       (\<lambda>phys. bindS (table_at phys) (\<lambda>t. bindS (clear_table t) (\<lambda>_. f phys t))) st = f (unat f0) f0 st1"
    and fr0: "fresh_frame st f0 st1" and r1: "ram st1 = zero_page f0 (ram st)"
    using new_table [OF pm] by blast
  note F0 = fr0 [unfolded fresh_frame_def]
  define st2 where "st2 = st1\<lparr>ram := wr64 (ent f0 511) (rd64 (ram st1) (ent ?K 511)) (ram st1)\<rparr>"
  have c1: "5 \<le> card (free_set (frames st1))" using F0 free by simp
  then have "free_set (frames st1) \<noteq> {}" by auto
  then have "pmm_inv (frames st2)" "free_set (frames st2) \<noteq> {}" using F0 by (simp_all add: st2_def)
  then obtain f1 st3 where al1: "\<And>msg (f :: usize \<Rightarrow> u64 \<Rightarrow> (mm, u64) op). bindS (alloc_expect msg)
       (\<lambda>phys. bindS (table_at phys) (\<lambda>t. bindS (clear_table t) (\<lambda>_. f phys t))) st2 = f (unat f1) f1 st3"
    and fr1: "fresh_frame st2 f1 st3" and r3: "ram st3 = zero_page f1 (ram st2)"
    using new_table [of st2] by blast
  have F1: "page_aligned f1 \<and> f1 < 0x80000000 \<and> unat f1 div PAGE_SIZE \<in> free_set (frames st1) \<and>
     free_set (frames st3) = free_set (frames st1) - {unat f1 div PAGE_SIZE} \<and> pmm_inv (frames st3)"
    using fr1 by (simp add: fresh_frame_def st2_def)
  have "4 \<le> card (free_set (frames st3))" using F1 c1 by simp
  then obtain D st4 where run: "forS [0 ..< 4] (user_pd f1) st3 = (Inr (), st4)" and d: "user_pds_done f1 4 D st3 st4"
    using user_pds [of st3 4 f1] F1 by blast
  note DD = d [unfolded user_pds_done_def]
  define st5 where "st5 = st4\<lparr>ram := wr64 (ent f0 0) (f1 OR 4 OR 2 OR 1) (ram st4)\<rparr>"
  have "create_user_address_space kt st = (Inr f0, st5)"
    unfolding create_user_address_space_def al0 bindS_run st2_def [symmetric] al1
    by (subst bindS_def) (simp only: run sum.case prod.case bindS_run, simp add: st5_def)
  moreover have "user_space kt f0 f1 D st st5"
  proof -
    have ne: "f0 \<noteq> f1" "f0 \<notin> D ` {..<4}" "f1 \<notin> D ` {..<4}" "?K \<notin> insert f0 (insert f1 (D ` {..<4}))"
      using F0 F1 DD root(2) by auto
    have rd4: "rd64 (ram st4) (ent t j) = rd64 (ram st3) (ent t j)"
      if "page_aligned t" "j < 512" "t \<notin> insert f1 (D ` {..<4})" for t j using DD that by blast
    have rd3: "rd64 (ram st3) (ent t j) = (if t = f1 then 0 else if t = f0 then
        (if j = 511 then rd64 (ram st) (ent ?K 511) else 0) else rd64 (ram st) (ent t j))"
      if "page_aligned t" "j < 512" for t j
      using that F0 F1 root(1) ne by (simp add: r3 st2_def r1 rd64_wr64_ent rd64_zero_page)
    have rd5: "rd64 (ram st5) (ent t j) = (if t = f0 \<and> j = 0 then f1 OR 4 OR 2 OR 1 else rd64 (ram st4) (ent t j))"
      if "page_aligned t" "j < 512" for t j
      using that F0 by (auto simp: st5_def rd64_wr64_ent)
    show ?thesis
      unfolding user_space_def
    proof (intro conjI)
      show "pmm_inv (frames st5)" using DD by (simp add: st5_def)
      have "distinct (map D [0 ..< 4])" using DD by (simp add: distinct_map atLeast0LessThan del: upt_Suc)
      then show "distinct [f0, f1, D 0, D 1, D 2, D 3]"
        using ne by (simp add: lessThan_4 upt_rec numeral_3_eq_3 numeral_2_eq_2)
      show "free_set (frames st5) \<subseteq> free_set (frames st)" using F0 F1 DD by (auto simp: st5_def)
      have "card ((\<lambda>k. unat (D k) div PAGE_SIZE) ` {..<4}) \<le> 4" using card_image_le [of "{..<4::nat}"] by simp
      then have "card (free_set (frames st3)) \<le> card (free_set (frames st5)) + 4"
        using DD diff_card_le_card_Diff [of "(\<lambda>k. unat (D k) div PAGE_SIZE) ` {..<4}" "free_set (frames st3)"]
        by (simp add: st5_def)
      moreover have "card (free_set (frames st1)) \<le> card (free_set (frames st3)) + 1"
        "card (free_set (frames st)) \<le> card (free_set (frames st1)) + 1" using F0 F1 by simp_all
      ultimately show "card (free_set (frames st)) \<le> card (free_set (frames st5)) + 6" by linarith
      have "\<forall>k < 4. page_aligned (D k) \<and> D k < 0x80000000 \<and> unat (D k) div PAGE_SIZE \<in> free_set (frames st) \<and>
          unat (D k) div PAGE_SIZE \<notin> free_set (frames st5)"
        using F0 F1 DD by (auto simp: st5_def)
      then show "\<forall>t \<in> {f0, f1, D 0, D 1, D 2, D 3}. page_aligned t \<and> t < 0x80000000 \<and>
          unat t div PAGE_SIZE \<in> free_set (frames st) \<and> unat t div PAGE_SIZE \<notin> free_set (frames st5)"
        using F0 F1 DD by (auto simp: st5_def)
      show "\<forall>j < 512. rd64 (ram st5) (ent f0 j) =
          (if j = 0 then f1 OR 4 OR 2 OR 1 else if j = 511 then rd64 (ram st) (ent ?K 511) else 0)"
        using rd5 rd4 rd3 F0 ne by simp
      show "\<forall>j < 512. rd64 (ram st5) (ent f1 j) = (if unat j < 4 then D (unat j) OR 4 OR 2 OR 1 else 0)"
        using rd5 rd3 F1 ne DD by simp
      show "\<forall>k < 4. \<forall>j < 512. rd64 (ram st5) (ent (D k) j) = (if k = 0 \<and> j = 2 then 0 else large_entry (of_nat k) j 0x83)"
        using rd5 DD ne(2) by auto
      show "\<forall>t j. page_aligned t \<longrightarrow> j < 512 \<longrightarrow> unat t div PAGE_SIZE \<notin> free_set (frames st) \<longrightarrow>
          rd64 (ram st5) (ent t j) = rd64 (ram st) (ent t j)"
      proof (intro allI impI)
        fix t and j :: u64 assume tj: "page_aligned t" "j < 512" "unat t div PAGE_SIZE \<notin> free_set (frames st)"
        then have "t \<notin> insert f0 (insert f1 (D ` {..<4}))" using F0 F1 DD by auto
        then show "rd64 (ram st5) (ent t j) = rd64 (ram st) (ent t j)" using tj rd5 rd4 rd3 by simp
      qed
      show "\<forall>x. unat (page_base x) div PAGE_SIZE \<notin> free_set (frames st) \<longrightarrow> ram st5 x = ram st x"
      proof (intro allI impI)
        fix x assume x: "unat (page_base x) div PAGE_SIZE \<notin> free_set (frames st)"
        then have nt: "page_base x \<noteq> f0" "page_base x \<noteq> f1" "page_base x \<notin> D ` {..<4}" using F0 F1 DD by auto
        have "ram st5 x = ram st4 x" using F0 nt wr64_frame [of f0 0 x] by (simp add: st5_def)
        also have "\<dots> = ram st3 x" using DD nt unfolding touched_only_def by blast
        also have "\<dots> = ram st x"
          using F0 F1 nt wr64_frame [of f0 511 x] zero_page_frame by (simp add: r3 st2_def r1)
        finally show "ram st5 x = ram st x" .
      qed
    qed
  qed
  ultimately show ?thesis by blast
qed

section \<open>The kernel half\<close>

text \<open>Where the linker may put the static tables (\<^verbatim>\<open>repr(align(4096))\<close>, in the kernel image).\<close>

definition kt_list :: "kernel_tables \<Rightarrow> u64 list" where
  "kt_list kt = [kt_PML4 kt, kt_PDPT_LOW kt, kt_PDPT_HIGH kt, pd_table kt 0, pd_table kt 1, pd_table kt 2, pd_table kt 3]"

definition kt_ok :: "kernel_tables \<Rightarrow> bool" where
  "kt_ok kt \<longleftrightarrow> distinct (kt_list kt) \<and> (\<forall>t \<in> set (kt_list kt). page_aligned t \<and> t < 0x80000000)"

text \<open>The directory behind slot \<open>b\<close> of \<^verbatim>\<open>PDPT_HIGH\<close>.\<close>

definition high_pd :: "u64 \<Rightarrow> nat option" where
  "high_pd b = (if b = 510 then Some 0 else if b = 511 then Some 1 else if b = 508 then Some 2
     else if b = 509 then Some 3 else None)"

definition kernel_half :: "kernel_tables \<Rightarrow> mem \<Rightarrow> bool" where
  "kernel_half kt m \<longleftrightarrow>
     rd64 m (ent (kt_PML4 kt) 511) = kt_PDPT_HIGH kt OR PRESENT OR WRITABLE OR USER \<and>
     (\<forall>b < 512. rd64 m (ent (kt_PDPT_HIGH kt) b) =
        (case high_pd b of None \<Rightarrow> 0 | Some k \<Rightarrow> pd_table kt k OR PRESENT OR WRITABLE OR USER)) \<and>
     (\<forall>k < 4. \<forall>j < 512. rd64 m (ent (pd_table kt k) j) = large_entry (of_nat k) j 0x87)"

lemma kt_okD:
  assumes "kt_ok kt"
  shows "k < 4 \<Longrightarrow> page_aligned (pd_table kt k) \<and> pd_table kt k < 0x80000000"
    and "page_aligned (kt_PDPT_HIGH kt)" "kt_PDPT_HIGH kt < 0x80000000"
    and "page_aligned (kt_PDPT_LOW kt)" "kt_PDPT_LOW kt < 0x80000000"
    and "page_aligned (kt_PML4 kt)" "kt_PML4 kt < 0x80000000"
proof -
  show "page_aligned (pd_table kt k) \<and> pd_table kt k < 0x80000000" if "k < 4"
  proof -
    have "k = 0 \<or> k = 1 \<or> k = 2 \<or> k = 3" using that by auto
    then show ?thesis using assms by (auto simp: kt_ok_def kt_list_def)
  qed
qed (use assms in \<open>auto simp: kt_ok_def kt_list_def\<close>)

lemma high_pd_bound: "high_pd b = Some k \<Longrightarrow> k < 4"
  by (auto simp: high_pd_def split: if_splits)

lemma flags7: "p OR 4 OR 2 OR 1 = p OR PRESENT OR WRITABLE OR USER"
  by (simp add: flag_defs or.assoc)

lemma large_entry_nonzero: "large_entry i e 0x83 \<noteq> 0" "large_entry i e 0x87 \<noteq> 0"
  using large_entry_flags [of 0 i e "0x83"] large_entry_flags [of 0 i e "0x87"] by auto

lemma large_entry_huge: "bit (large_entry i e 0x83) 7" "bit (large_entry i e 0x87) 7"
  by (simp_all add: large_entry_flags)

lemma entry_ok_0 [simp]: "entry_ok d 0"
  by (simp add: entry_ok_def)

lemma large_entry_ok: "entry_ok 2 (large_entry i e 0x83)" "entry_ok 2 (large_entry i e 0x87)"
  by (simp_all add: entry_ok_def large_entry_flags)

text \<open>The tables of a fresh address space.\<close>

definition space_tables :: "kernel_tables \<Rightarrow> u64 \<Rightarrow> u64 \<Rightarrow> (nat \<Rightarrow> u64) \<Rightarrow> (u64 list \<times> u64) list" where
  "space_tables kt f0 f1 D =
     [([], f0), ([0], f1), ([0, 0], D 0), ([1, 0], D 1), ([2, 0], D 2), ([3, 0], D 3),
      ([511], kt_PDPT_HIGH kt), ([510, 511], pd_table kt 0), ([511, 511], pd_table kt 1),
      ([508, 511], pd_table kt 2), ([509, 511], pd_table kt 3)]"

lemma unat_less_4: "unat (b :: u64) < 4 \<longleftrightarrow> b = 0 \<or> b = 1 \<or> b = 2 \<or> b = 3"
proof -
  have "unat b < 4 \<longleftrightarrow> unat b = 0 \<or> unat b = 1 \<or> unat b = 2 \<or> unat b = 3" by auto
  then show ?thesis by (simp add: word_unat_eq_iff)
qed

text \<open>What the code leaves in memory for a fresh space: the private tables and the kernel half.\<close>

definition space_mem :: "kernel_tables \<Rightarrow> u64 \<Rightarrow> u64 \<Rightarrow> (nat \<Rightarrow> u64) \<Rightarrow> mem \<Rightarrow> bool" where
  "space_mem kt f0 f1 D m \<longleftrightarrow>
     (\<forall>t \<in> snd ` set (space_tables kt f0 f1 D). page_aligned t) \<and>
     (\<forall>j < 512. rd64 m (ent f0 j) = (if j = 0 then f1 OR PRESENT OR WRITABLE OR USER
        else if j = 511 then kt_PDPT_HIGH kt OR PRESENT OR WRITABLE OR USER else 0)) \<and>
     (\<forall>j < 512. rd64 m (ent f1 j) = (if unat j < 4 then D (unat j) OR PRESENT OR WRITABLE OR USER else 0)) \<and>
     (\<forall>k < 4. \<forall>j < 512. rd64 m (ent (D k) j) = (if k = 0 \<and> j = 2 then 0 else large_entry (of_nat k) j 0x83)) \<and>
     (\<forall>b < 512. rd64 m (ent (kt_PDPT_HIGH kt) b) =
        (case high_pd b of None \<Rightarrow> 0 | Some k \<Rightarrow> pd_table kt k OR PRESENT OR WRITABLE OR USER)) \<and>
     (\<forall>k < 4. \<forall>j < 512. rd64 m (ent (pd_table kt k) j) = large_entry (of_nat k) j 0x87)"

lemma space_mem_aligned:
  assumes "space_mem kt f0 f1 D m"
  shows "page_aligned f0" "page_aligned f1" "k < 4 \<Longrightarrow> page_aligned (D k)" "page_aligned (kt_PDPT_HIGH kt)"
    "k < 4 \<Longrightarrow> page_aligned (pd_table kt k)"
proof -
  have "k < 4 \<Longrightarrow> k = 0 \<or> k = 1 \<or> k = 2 \<or> k = 3" for k :: nat by auto
  then show "page_aligned f0" "page_aligned f1" "k < 4 \<Longrightarrow> page_aligned (D k)" "page_aligned (kt_PDPT_HIGH kt)"
    "k < 4 \<Longrightarrow> page_aligned (pd_table kt k)"
    using assms by (auto simp: space_mem_def space_tables_def)
qed

lemma space_table1:
  assumes "space_mem kt f0 f1 D m" and "a < 512"
  shows "table m f0 [a] = (if a = 0 then Some f1 else if a = 511 then Some (kt_PDPT_HIGH kt) else None)"
  using assms space_mem_aligned [OF assms(1)] frame_entry_flags(1)
  by (auto simp: space_mem_def page_base_of_frame)

lemma space_table2:
  assumes s: "space_mem kt f0 f1 D m" and "a < 512" and b: "b < 512"
  shows "table m f0 [b, a] =
    (if a = 0 \<and> unat b < 4 then Some (D (unat b))
     else if a = 511 then map_option (pd_table kt) (high_pd b) else None)"
proof -
  consider "a = 0" | "a = 511" | "a \<noteq> 0 \<and> a \<noteq> 511" by blast
  then show ?thesis
  proof cases
    case 1
    have "rd64 m (ent f1 b) = (if unat b < 4 then D (unat b) OR PRESENT OR WRITABLE OR USER else 0)"
      using s b unfolding space_mem_def by blast
    with 1 show ?thesis
      using space_table1 [OF assms(1,2)] frame_entry_flags(1) page_base_of_frame [OF space_mem_aligned(3) [OF s]]
      by (subst table.simps(2)) (simp add: Let_def del: table.simps)
  next
    case 2
    have e: "rd64 m (ent (kt_PDPT_HIGH kt) b) =
        (case high_pd b of None \<Rightarrow> 0 | Some k \<Rightarrow> pd_table kt k OR PRESENT OR WRITABLE OR USER)"
      using s b unfolding space_mem_def by blast
    show ?thesis
      using 2 space_table1 [OF assms(1,2)] frame_entry_flags(1) page_base_of_frame [OF space_mem_aligned(5) [OF s]]
        high_pd_bound [of b]
      by (subst table.simps(2)) (simp add: e Let_def split: option.split del: table.simps)
  next
    case 3
    then show ?thesis using space_table1 [OF assms(1,2)] by (subst table.simps(2)) (simp del: table.simps)
  qed
qed

lemma space_entry2:
  assumes s: "space_mem kt f0 f1 D m" and "a < 512" and "b < 512" and c: "c < 512"
  shows "slot m f0 [b, a] c =
    (if a = 0 \<and> unat b < 4 then (if b = 0 \<and> c = 2 then 0 else large_entry b c 0x83)
     else if a = 511 then (case high_pd b of None \<Rightarrow> 0 | Some k \<Rightarrow> large_entry (of_nat k) c 0x87) else 0)"
proof -
  have "unat b < 4 \<Longrightarrow> rd64 m (ent (D (unat b)) c) = (if unat b = 0 \<and> c = 2 then 0 else large_entry (of_nat (unat b)) c 0x83)"
    using s c unfolding space_mem_def by blast
  moreover have "k < 4 \<Longrightarrow> rd64 m (ent (pd_table kt k) c) = large_entry (of_nat k) c 0x87" for k
    using s c unfolding space_mem_def by blast
  ultimately show ?thesis
    unfolding slot_def space_table2 [OF assms(1-3)]
    by (auto simp: unat_eq_zero split: option.split dest: high_pd_bound)
qed

lemma space_table3:
  assumes "space_mem kt f0 f1 D m" and "a < 512" and "b < 512" and "c < 512"
  shows "table m f0 [c, b, a] = None"
proof -
  have "table m f0 [c, b, a] = (let e = slot m f0 [b, a] c in if e = 0 \<or> bit e 7 then None else Some (page_base e))"
    by (simp add: slot_def Let_def huge_iff_bit split: option.split)
  then show ?thesis
    unfolding space_entry2 [OF assms] Let_def using large_entry_huge by (simp split: option.split)
qed

lemma space_tables_iff:
  assumes s: "space_mem kt f0 f1 D m" and p: "is_path p"
  shows "table m f0 p = Some t \<longleftrightarrow> (p, t) \<in> set (space_tables kt f0 f1 D)"
proof -
  consider "p = []" | a where "p = [a]" "a < 512" | a b where "p = [b, a]" "a < 512" "b < 512"
    | a b c where "p = [c, b, a]" "a < 512" "b < 512" "c < 512"
    using p by (cases p rule: remdups_adj.cases; cases "tl (tl p)"; cases "tl (tl (tl p))") (auto simp: is_path_def)
  then show ?thesis
  proof cases
    case 1
    then show ?thesis by (auto simp: space_tables_def)
  next
    case 2
    then show ?thesis using space_table1 [OF s 2(2)] by (auto simp: space_tables_def simp del: table.simps)
  next
    case 3
    then show ?thesis using space_table2 [OF s 3(2,3)]
      by (auto simp: space_tables_def unat_less_4 high_pd_def simp del: table.simps)
  next
    case 4
    then show ?thesis using space_table3 [OF s 4(2-4)] by (simp add: space_tables_def del: table.simps)
  qed
qed

lemma space_pt_inv:
  assumes s: "space_mem kt f0 f1 D (ram st)" and pm: "pmm_inv (frames st)"
    and low: "\<forall>t \<in> snd ` set (space_tables kt f0 f1 D). t < 0x80000000 \<and> unat t div PAGE_SIZE \<notin> free_set (frames st)"
    and dist: "distinct (map snd (space_tables kt f0 f1 D))"
  shows "pt_inv f0 st"
  unfolding pt_inv_def
proof (intro conjI allI impI)
  show "pmm_inv (frames st)" by (rule pm)
next
  fix p t assume "is_path p" "table (ram st) f0 p = Some t"
  then have "t \<in> snd ` set (space_tables kt f0 f1 D)" using space_tables_iff [OF s] by force
  then show "page_aligned t" "t < 0x80000000" "unat t div PAGE_SIZE \<notin> free_set (frames st)"
    using s low unfolding space_mem_def by blast+
next
  fix p q t assume "is_path p" "is_path q" "table (ram st) f0 p = Some t" "table (ram st) f0 q = Some t"
  then have "(p, t) \<in> set (space_tables kt f0 f1 D)" "(q, t) \<in> set (space_tables kt f0 f1 D)"
    using space_tables_iff [OF s] by blast+
  then show "p = q" using dist by (metis distinct_map inj_onD prod.inject snd_conv)
next
  fix p t and i :: u64 assume p: "is_path p" and t: "table (ram st) f0 p = Some t" and i: "i < 512"
  note one = frame_entry_ok [of _ "length p"]
  consider "p = []" | a where "p = [a]" "a < 512" | a b where "p = [b, a]" "a < 512" "b < 512"
    using p t space_tables_iff [OF s p, of t] by (auto simp: space_tables_def)
  then show "entry_ok (length p) (rd64 (ram st) (ent t i))"
  proof cases
    case 1
    then show ?thesis using s t i space_mem_aligned [OF s] one by (auto simp: space_mem_def entry_ok_def)
  next
    case 2
    then have "a = 0 \<and> t = f1 \<or> a = 511 \<and> t = kt_PDPT_HIGH kt"
      using t space_table1 [OF s 2(2)] by (auto split: if_splits simp del: table.simps)
    then have "rd64 (ram st) (ent t i) = (if unat i < 4 then D (unat i) OR PRESENT OR WRITABLE OR USER else 0) \<or>
        rd64 (ram st) (ent t i) = (case high_pd i of None \<Rightarrow> 0 | Some k \<Rightarrow> pd_table kt k OR PRESENT OR WRITABLE OR USER)"
      using s i unfolding space_mem_def by blast
    then show ?thesis using space_mem_aligned(3,5) [OF s] one high_pd_bound
      by (auto split: option.splits)
  next
    case 3
    then have "rd64 (ram st) (ent t i) = slot (ram st) f0 [b, a] i" using t by (simp add: slot_def del: table.simps)
    then show ?thesis using 3(1) large_entry_ok unfolding space_entry2 [OF s 3(2,3) i]
      by (simp add: numeral_2_eq_2 split: option.split)
  qed
qed

lemma space_walk:
  assumes inv: "pt_inv f0 st" and s: "space_mem kt f0 f1 D (ram st)"
  shows "walk (ram st) f0 v =
    (if vidx 39 v = 0 \<and> unat (vidx 30 v) < 4 then
       (if vidx 30 v = 0 \<and> vidx 21 v = 2 then None else Some (take_bit 39 v, True, False))
     else if vidx 39 v = 511 then
       map_option (\<lambda>k. large_leaf (large_entry (of_nat k) (vidx 21 v) 0x87) v) (high_pd (vidx 30 v))
     else None)"
proof -
  have leaf: "large_leaf (large_entry (vidx 30 v) (vidx 21 v) 0x83) v = (take_bit 39 v, True, False)"
    unfolding large_leaf_def by (subst large_entry_translate) (simp_all add: large_entry_flags)
  have none: "slot (ram st) f0 [vidx 21 v, vidx 30 v, vidx 39 v] (vidx 12 v) = 0"
    unfolding slot_def space_table3 [OF s vidx_bound vidx_bound vidx_bound] by simp
  show ?thesis
    unfolding walk_slots [OF inv] none space_entry2 [OF s vidx_bound vidx_bound vidx_bound] Let_def
    using large_entry_huge leaf
    by (cases "vidx 39 v = 0 \<and> unat (vidx 30 v) < 4"; cases "vidx 39 v = 511"; cases "high_pd (vidx 30 v)") auto
qed

lemma create_space_mem:
  assumes u: "user_space kt f0 f1 D st st'" and kt: "kt_ok kt" and kh: "kernel_half kt (ram st)"
    and nf: "\<forall>t \<in> set (kt_list kt). unat t div PAGE_SIZE \<notin> free_set (frames st)"
  shows "space_mem kt f0 f1 D (ram st')" and "kernel_half kt (ram st')"
proof -
  have k4: "k < 4 \<Longrightarrow> k = 0 \<or> k = 1 \<or> k = 2 \<or> k = 3" for k :: nat by auto
  have al: "\<forall>t \<in> snd ` set (space_tables kt f0 f1 D). page_aligned t"
    using u kt_okD [OF kt] by (simp add: user_space_def space_tables_def)
  have nfk: "k < 4 \<Longrightarrow> unat (pd_table kt k) div PAGE_SIZE \<notin> free_set (frames st)" for k
    using nf by (auto simp: kt_list_def dest!: k4)
  have same: "rd64 (ram st') (ent t j) = rd64 (ram st) (ent t j)"
    if "page_aligned t" "unat t div PAGE_SIZE \<notin> free_set (frames st)" "j < 512" for t j
    using u that unfolding user_space_def by blast
  note kd = kt_okD [OF kt]
  have hi: "rd64 (ram st') (ent (kt_PDPT_HIGH kt) b) = rd64 (ram st) (ent (kt_PDPT_HIGH kt) b)" if "b < 512" for b
    using same [OF kd(2) _ that] nf by (simp add: kt_list_def)
  have pd: "rd64 (ram st') (ent (pd_table kt k) b) = rd64 (ram st) (ent (pd_table kt k) b)" if "k < 4" "b < 512" for k b
    using same [OF _ nfk [OF that(1)] that(2)] kd(1) [OF that(1)] by simp
  have "rd64 (ram st') (ent (kt_PML4 kt) 511) = rd64 (ram st) (ent (kt_PML4 kt) 511)"
    using same [OF kd(6)] nf by (simp add: kt_list_def)
  then show "kernel_half kt (ram st')" using kh hi pd by (simp add: kernel_half_def)
  show "space_mem kt f0 f1 D (ram st')"
    using u al kh hi pd unfolding space_mem_def kernel_half_def user_space_def flags7 by simp
qed

lemma create_space_inv:
  assumes u: "user_space kt f0 f1 D st st'" and kt: "kt_ok kt" and kh: "kernel_half kt (ram st)"
    and nf: "\<forall>t \<in> set (kt_list kt). unat t div PAGE_SIZE \<notin> free_set (frames st)"
  shows "pt_inv f0 st'"
proof (rule space_pt_inv [OF create_space_mem(1) [OF assms]])
  let ?U = "{f0, f1, D 0, D 1, D 2, D 3}"
  show "pmm_inv (frames st')" using u by (simp add: user_space_def)
  have sub: "free_set (frames st') \<subseteq> free_set (frames st)" using u by (simp add: user_space_def)
  have U: "t < 0x80000000 \<and> unat t div PAGE_SIZE \<notin> free_set (frames st') \<and> unat t div PAGE_SIZE \<in> free_set (frames st)"
    if "t \<in> ?U" for t using u that unfolding user_space_def by blast
  have K: "t < 0x80000000 \<and> unat t div PAGE_SIZE \<notin> free_set (frames st') \<and> unat t div PAGE_SIZE \<notin> free_set (frames st)"
    if "t \<in> set (kt_list kt)" for t using kt nf sub that unfolding kt_ok_def by blast
  have sets: "snd ` set (space_tables kt f0 f1 D) \<subseteq> ?U \<union> set (kt_list kt)"
    by (auto simp: space_tables_def kt_list_def)
  then show "\<forall>t \<in> snd ` set (space_tables kt f0 f1 D). t < 0x80000000 \<and> unat t div PAGE_SIZE \<notin> free_set (frames st')"
    using U K by blast
  have app: "map snd (space_tables kt f0 f1 D) = [f0, f1, D 0, D 1, D 2, D 3] @ drop 2 (kt_list kt)"
    by (simp add: space_tables_def kt_list_def)
  have "set [f0, f1, D 0, D 1, D 2, D 3] \<inter> set (drop 2 (kt_list kt)) = {}"
    using U K set_drop_subset [of 2 "kt_list kt"] by fastforce
  moreover have "distinct [f0, f1, D 0, D 1, D 2, D 3]" using u unfolding user_space_def by blast
  moreover have "distinct (drop 2 (kt_list kt))" using kt unfolding kt_ok_def by (blast intro: distinct_drop)
  ultimately show "distinct (map snd (space_tables kt f0 f1 D))" unfolding app distinct_append by blast
qed

section \<open>Virtual addresses of the identity map and of the alias\<close>

lemma low_address:
  assumes "v < 0x100000000"
  shows "vidx 39 v = 0" "unat (vidx 30 v) < 4" "take_bit 39 v = v"
    "vidx 30 v = 0 \<and> vidx 21 v = 2 \<longleftrightarrow> 0x400000 \<le> v \<and> v < 0x600000"
proof -
  have b: "bit v n \<Longrightarrow> n < 32" for n using assms by (intro bit_bound [of v 32 n]) (simp_all add: word_less_nat_alt)
  show "vidx 39 v = 0" by (rule bit_word_eqI) (auto simp: bit_vidx dest: b)
  show "take_bit 39 v = v" by (rule bit_word_eqI) (auto simp: bit_simps dest: b)
  have "take_bit 2 (vidx 30 v) = vidx 30 v" by (rule bit_word_eqI) (auto simp: bit_simps bit_vidx dest: b)
  then have "unat (take_bit 2 (vidx 30 v)) = unat (vidx 30 v)" by simp
  then show "unat (vidx 30 v) < 4"
    using take_bit_nat_less_exp [of 2 "unat (vidx 30 v)"] by (simp add: unsigned_take_bit_eq)
  have "(2::u64) = one_shl 1" by (simp add: one_shl_def)
  then have b2: "bit (2::u64) n \<longleftrightarrow> n = 1" for n by (simp only: bit_one_shl) simp
  have "vidx 30 v = 0 \<and> vidx 21 v = 2 \<longleftrightarrow> drop_bit 21 v = 2"
  proof
    assume a: "vidx 30 v = 0 \<and> vidx 21 v = 2"
    show "drop_bit 21 v = 2"
    proof (rule bit_word_eqI)
      fix n
      have "bit (vidx 30 v) (n - 9) = bit (0::u64) (n - 9)" "bit (vidx 21 v) n = bit (2::u64) n" using a by simp_all
      then show "bit (drop_bit 21 v) n = bit (2::u64) n"
        by (cases "n < 9") (auto simp: bit_vidx b2 bit_drop_bit_eq dest: b)
    qed
  next
    assume a: "drop_bit 21 v = 2"
    have "bit v (21 + n) = bit (2::u64) n" for n using a by (metis bit_drop_bit_eq comp_apply)
    then have bits: "bit v (21 + n) \<longleftrightarrow> n = 1" for n unfolding b2 .
    have "vidx 30 v = 0"
    proof (rule bit_word_eqI)
      fix n show "bit (vidx 30 v) n = bit (0::u64) n" using bits [of "9 + n"] by (simp add: bit_vidx)
    qed
    moreover have "vidx 21 v = 2"
    proof (rule bit_word_eqI)
      fix n show "bit (vidx 21 v) n = bit (2::u64) n" unfolding b2 bit_vidx bits by auto
    qed
    ultimately show "vidx 30 v = 0 \<and> vidx 21 v = 2" ..
  qed
  also have "\<dots> \<longleftrightarrow> unat v div 2 ^ 21 = 2"
    by (simp add: word_unat_eq_iff drop_bit_eq_div unat_div)
  also have "\<dots> \<longleftrightarrow> 2 \<le> unat v div 2 ^ 21 \<and> unat v div 2 ^ 21 < 3" by auto
  also have "\<dots> \<longleftrightarrow> 0x400000 \<le> v \<and> v < 0x600000"
    by (simp add: word_le_nat_alt word_less_nat_alt less_eq_div_iff_mult_less_eq div_less_iff_less_mult)
  finally show "vidx 30 v = 0 \<and> vidx 21 v = 2 \<longleftrightarrow> 0x400000 \<le> v \<and> v < 0x600000" .
qed

lemma alias_address:
  assumes p: "p < 0x80000000"
  shows "phys_to_virt (unat p) = Inr (p + KERNEL_VMA_BASE)"
    and "vidx 39 (p + KERNEL_VMA_BASE) = 511"
    and "\<exists>k < 4. high_pd (vidx 30 (p + KERNEL_VMA_BASE)) = Some k \<and>
      large_leaf (large_entry (of_nat k) (vidx 21 (p + KERNEL_VMA_BASE)) 0x87) (p + KERNEL_VMA_BASE) = (p, True, True)"
proof -
  let ?v = "p + KERNEL_VMA_BASE"
  show "phys_to_virt (unat p) = Inr ?v"
    using p by (simp add: phys_to_virt_def add64_def KERNEL_VMA_BASE_def word_less_nat_alt)
  have pb: "bit p n \<Longrightarrow> n < 31" for n using p by (intro bit_bound [of p 31 n]) (simp_all add: word_less_nat_alt)
  have K: "KERNEL_VMA_BASE = NOT (mask 31)" by (simp add: KERNEL_VMA_BASE_def mask_eq_exp_minus_1)
  have "p AND NOT (mask 31) = 0" by (rule bit_word_eqI) (auto simp: bit_simps dest: pb)
  then have "?v = p OR NOT (mask 31)" unfolding K by (rule disjunctive_add_eq_or)
  then have vb: "bit ?v n \<longleftrightarrow> n < 64 \<and> (31 \<le> n \<or> bit p n)" for n
    by (auto simp: bit_simps dest: bit_imp_le_length)
  have m9: "(511::u64) = mask 9" "(510::u64) = mask 9 AND NOT 1" by (simp_all add: mask_eq_exp_minus_1)
  show "vidx 39 ?v = 511" unfolding m9 by (rule bit_word_eqI) (auto simp: bit_vidx vb bit_simps)
  have i30: "vidx 30 ?v = (if bit p 30 then 511 else 510)"
  proof (rule bit_word_eqI)
    fix n show "bit (vidx 30 ?v) n = bit (if bit p 30 then 511 else 510 :: u64) n"
      unfolding m9 by (cases n) (auto simp: bit_vidx vb bit_simps)
  qed
  have p30: "vidx 30 p = (if bit p 30 then 1 else 0)"
  proof (rule bit_word_eqI)
    fix n show "bit (vidx 30 p) n = bit (if bit p 30 then 1 else 0 :: u64) n"
      by (cases n) (auto simp: bit_vidx bit_simps dest: pb)
  qed
  have p21: "vidx 21 ?v = vidx 21 p" by (rule bit_word_eqI) (auto simp: bit_vidx vb)
  have lo: "take_bit 21 ?v = take_bit 21 p" by (rule bit_word_eqI) (auto simp: vb bit_simps)
  have "hw_base 21 (large_entry (vidx 30 p) (vidx 21 p) 0x87) OR take_bit 21 p = take_bit 39 p"
    by (rule large_entry_translate) simp
  also have "\<dots> = p" by (rule bit_word_eqI) (auto simp: bit_simps dest: pb)
  finally have "large_leaf (large_entry (vidx 30 p) (vidx 21 ?v) 0x87) ?v = (p, True, True)"
    unfolding large_leaf_def p21 lo by (simp add: large_entry_flags)
  then show "\<exists>k < 4. high_pd (vidx 30 ?v) = Some k \<and> large_leaf (large_entry (of_nat k) (vidx 21 ?v) 0x87) ?v = (p, True, True)"
    unfolding p30 i30 high_pd_def by (cases "bit p 30") (simp_all add: exI [of _ 0] exI [of _ 1])
qed

lemma create_user_address_space_ok:
  assumes "pmm_inv (frames st)" and "6 \<le> card (free_set (frames st))" and "kt_ok kt"
    and "kernel_half kt (ram st)" and "\<forall>t \<in> set (kt_list kt). unat t div PAGE_SIZE \<notin> free_set (frames st)"
  shows "\<exists>cr3 st'. create_user_address_space kt st = (Inr cr3, st') \<and> pt_inv cr3 st' \<and>
    (\<forall>v. fst (lookup_page cr3 v st') = Inr None) \<and>
    (\<forall>v < 0x100000000. walk (ram st') cr3 v =
       (if 0x400000 \<le> v \<and> v < 0x600000 then None else Some (v, True, False))) \<and>
    (\<forall>p < 0x80000000. \<exists>va. phys_to_virt (unat p) = Inr va \<and> walk (ram st') cr3 va = Some (p, True, True)) \<and>
    (\<forall>x. unat (page_base x) div PAGE_SIZE \<notin> free_set (frames st) \<longrightarrow> ram st' x = ram st x) \<and>
    kernel_half kt (ram st') \<and> free_set (frames st') \<subseteq> free_set (frames st) \<and>
    card (free_set (frames st)) \<le> card (free_set (frames st')) + 6"
proof -
  obtain f0 f1 D st' where run: "create_user_address_space kt st = (Inr f0, st')" and u: "user_space kt f0 f1 D st st'"
    using create_run [OF assms(1,2) kt_okD(6) [OF assms(3)]] assms(5) by (auto simp: kt_list_def)
  note S = create_space_mem [OF u assms(3-5)] and I = create_space_inv [OF u assms(3-5)]
  note W = space_walk [OF I S(1)]
  have "fst (lookup_page f0 v st') = Inr None" for v
    unfolding lookup_page_mapped [OF I] mapped_def space_table3 [OF S(1) vidx_bound vidx_bound vidx_bound] by simp
  moreover have "walk (ram st') f0 v = (if 0x400000 \<le> v \<and> v < 0x600000 then None else Some (v, True, False))"
    if "v < 0x100000000" for v
    unfolding W using low_address [OF that] by simp
  moreover have "\<exists>va. phys_to_virt (unat p) = Inr va \<and> walk (ram st') f0 va = Some (p, True, True)"
    if "p < 0x80000000" for p
    unfolding W using alias_address [OF that] by auto
  moreover have "\<forall>x. unat (page_base x) div PAGE_SIZE \<notin> free_set (frames st) \<longrightarrow> ram st' x = ram st x"
    "free_set (frames st') \<subseteq> free_set (frames st)" "card (free_set (frames st)) \<le> card (free_set (frames st')) + 6"
    using u unfolding user_space_def by blast+
  ultimately show ?thesis using run I S(2) by blast
qed

text \<open>
  \<^bold>\<open>C25.\<close> With six free frames and the kernel's tables in place, outside the free frames,
  \<^verbatim>\<open>create_user_address_space\<close> succeeds. In the new space the tables are well-formed, no
  4 KiB page is mapped, the first 4 GiB are identity-mapped writable for the kernel and
  closed to ring 3, except for the empty window from 0x400000 to 0x5FFFFF, and every
  physical address below 2 GiB is reachable through \<^verbatim>\<open>phys_to_virt\<close>. No byte outside
  frames that were free is changed. (The alias itself is open to ring 3: the entries of
  the kernel half carry the user bit at every level.)
\<close>

theorem create_user_address_space_correct:
  assumes "pmm_inv (frames st)" and "6 \<le> card (free_set (frames st))" and "kt_ok kt"
    and "kernel_half kt (ram st)" and "\<forall>t \<in> set (kt_list kt). unat t div PAGE_SIZE \<notin> free_set (frames st)"
  shows "\<exists>cr3 st'. create_user_address_space kt st = (Inr cr3, st') \<and> pt_inv cr3 st' \<and>
    (\<forall>v. fst (lookup_page cr3 v st') = Inr None) \<and>
    (\<forall>v < 0x100000000. walk (ram st') cr3 v =
       (if 0x400000 \<le> v \<and> v < 0x600000 then None else Some (v, True, False))) \<and>
    (\<forall>p < 0x80000000. \<exists>va. phys_to_virt (unat p) = Inr va \<and> walk (ram st') cr3 va = Some (p, True, True)) \<and>
    (\<forall>x. unat (page_base x) div PAGE_SIZE \<notin> free_set (frames st) \<longrightarrow> ram st' x = ram st x) \<and>
    kernel_half kt (ram st') \<and> free_set (frames st') \<subseteq> free_set (frames st)"
  using create_user_address_space_ok [OF assms] by blast

section \<open>The boot tables\<close>

lemma upt_4: "[0 ..< 4] = [0, 1, 2, 3 :: nat]"
  by (simp add: upt_rec numeral_eq_Suc)

lemma init_links:
  assumes kt: "kt_ok kt"
  obtains m' where "forS [0 ..< 4] (link_pd kt) (st\<lparr>ram := m\<rparr>) = (Inr (), st\<lparr>ram := m'\<rparr>)"
    and "\<And>t j. page_aligned t \<Longrightarrow> j < 512 \<Longrightarrow> rd64 m' (ent t j) =
       (if t = kt_PDPT_LOW kt \<and> unat j < 4 then pd_table kt (unat j) OR PRESENT OR WRITABLE OR USER
        else if t = kt_PDPT_HIGH kt then
          (case high_pd j of None \<Rightarrow> rd64 m (ent t j) | Some k \<Rightarrow> pd_table kt k OR PRESENT OR WRITABLE OR USER)
        else rd64 m (ent t j))"
proof
  let ?e = "\<lambda>k. pd_table kt k OR PRESENT OR WRITABLE OR USER"
  let ?L = "kt_PDPT_LOW kt" and ?H = "kt_PDPT_HIGH kt"
  have ne: "?L \<noteq> ?H" using kt by (auto simp: kt_ok_def kt_list_def)
  let ?m = "wr64 (ent ?H 509) (?e 3) (wr64 (ent ?L 3) (?e 3) (wr64 (ent ?H 508) (?e 2) (wr64 (ent ?L 2) (?e 2)
     (wr64 (ent ?H 511) (?e 1) (wr64 (ent ?L 1) (?e 1) (wr64 (ent ?H 510) (?e 0) (wr64 (ent ?L 0) (?e 0) m)))))))"
  show "forS [0 ..< 4] (link_pd kt) (st\<lparr>ram := m\<rparr>) = (Inr (), st\<lparr>ram := ?m\<rparr>)"
    by (simp add: upt_4 link_pd_def bindS_run bindS_assoc Let_def)
  show "rd64 ?m (ent t j) = (if t = ?L \<and> unat j < 4 then ?e (unat j)
        else if t = ?H then (case high_pd j of None \<Rightarrow> rd64 m (ent t j) | Some k \<Rightarrow> ?e k)
        else rd64 m (ent t j))" if "page_aligned t" "j < 512" for t j
    using that kt_okD(2,4) [OF kt] ne by (auto simp: rd64_wr64_ent unat_less_4 high_pd_def)
qed

lemma init_fill:
  assumes kt: "kt_ok kt" and k: "k < 4"
  obtains m' where "fill_pd kt k (st\<lparr>ram := m\<rparr>) = (Inr (), st\<lparr>ram := m'\<rparr>)"
    and "\<And>t j. page_aligned t \<Longrightarrow> j < 512 \<Longrightarrow> rd64 m' (ent t j) =
       (if t = pd_table kt k then large_entry (of_nat k) j 0x87 else rd64 m (ent t j))"
proof -
  let ?f = "\<lambda>i. of_nat k * 0x40000000 + of_nat i * 0x200000 OR PRESENT OR WRITABLE OR HUGE_PAGE OR USER :: u64"
  obtain m' where run: "forS [0 ..< 512] (\<lambda>i. if False then retS () else set_entry (pd_table kt k) (of_nat i) (?f i)) (st\<lparr>ram := m\<rparr>) =
      (Inr (), st\<lparr>ram := m'\<rparr>)"
    and rd: "\<And>t j. page_aligned t \<Longrightarrow> j < 512 \<Longrightarrow> rd64 m' (ent t j) =
       (if t = pd_table kt k \<and> unat j \<in> set [0 ..< 512] \<and> \<not> False then ?f (unat j) else rd64 m (ent t j))"
    by (rule forS_entries [of "pd_table kt k" "[0 ..< 512]" "\<lambda>_. False" ?f "st\<lparr>ram := m\<rparr>"]) (use kt_okD(1) [OF kt k] in auto)
  have f: "?f (unat j) = large_entry (of_nat k) j 0x87" "unat j \<in> set [0 ..< 512]" if "j < 512" for j
    using that large_base2 [OF that] by (simp_all add: large_entry_def or.assoc flag_defs word_less_nat_alt)
  show thesis
    by (rule that [of m']) (use run rd f in \<open>simp_all add: fill_pd_def Let_def del: upt.simps\<close>)
qed

lemma pd_table_inj: "kt_ok kt \<Longrightarrow> k < 4 \<Longrightarrow> n < 4 \<Longrightarrow> pd_table kt k = pd_table kt n \<Longrightarrow> k = n"
proof -
  assume "k < 4" "n < 4" "pd_table kt k = pd_table kt n"
  then have "(of_nat k * 4096 :: u64) = of_nat n * 4096" by (simp add: pd_table_def)
  then have "unat (of_nat k * 4096 :: u64) = unat (of_nat n * 4096 :: u64)" by simp
  with \<open>k < 4\<close> \<open>n < 4\<close> show "k = n" by (simp add: unat_word_ariths unat_of_nat)
qed

lemma init_fills:
  assumes "kt_ok kt" and "n \<le> 4"
  shows "\<exists>m'. forS [0 ..< n] (fill_pd kt) st = (Inr (), st\<lparr>ram := m'\<rparr>) \<and>
    (\<forall>k < n. \<forall>j < 512. rd64 m' (ent (pd_table kt k) j) = large_entry (of_nat k) j 0x87) \<and>
    (\<forall>t j. page_aligned t \<longrightarrow> j < 512 \<longrightarrow> t \<notin> pd_table kt ` {..<n} \<longrightarrow> rd64 m' (ent t j) = rd64 (ram st) (ent t j))"
  using assms(2)
proof (induction n)
  case 0
  show ?case by (rule exI [of _ "ram st"]) simp
next
  case (Suc n)
  then obtain m1 where run1: "forS [0 ..< n] (fill_pd kt) st = (Inr (), st\<lparr>ram := m1\<rparr>)"
    and rd1: "\<forall>k < n. \<forall>j < 512. rd64 m1 (ent (pd_table kt k) j) = large_entry (of_nat k) j 0x87"
      "\<forall>t j. page_aligned t \<longrightarrow> j < 512 \<longrightarrow> t \<notin> pd_table kt ` {..<n} \<longrightarrow> rd64 m1 (ent t j) = rd64 (ram st) (ent t j)"
    by auto
  have n: "n < 4" using Suc.prems by simp
  obtain m2 where run2: "fill_pd kt n (st\<lparr>ram := m1\<rparr>) = (Inr (), st\<lparr>ram := m2\<rparr>)"
    and rd2: "\<And>t j. page_aligned t \<Longrightarrow> j < 512 \<Longrightarrow> rd64 m2 (ent t j) =
       (if t = pd_table kt n then large_entry (of_nat n) j 0x87 else rd64 m1 (ent t j))"
    by (rule init_fill [OF assms(1) n, of m1 st]) blast
  have "forS [0 ..< Suc n] (fill_pd kt) st = (Inr (), st\<lparr>ram := m2\<rparr>)"
    using run1 run2 by (simp add: forS_append bindS_def)
  moreover have "\<forall>k < Suc n. \<forall>j < 512. rd64 m2 (ent (pd_table kt k) j) = large_entry (of_nat k) j 0x87"
  proof (intro allI impI)
    fix k and j :: u64 assume "k < Suc n" and j: "j < 512"
    then have "page_aligned (pd_table kt k)" "k = n \<or> k < n" using kt_okD(1) [OF assms(1), of k] n by auto
    then show "rd64 m2 (ent (pd_table kt k) j) = large_entry (of_nat k) j 0x87"
      using rd2 [OF _ j, of "pd_table kt k"] rd1(1) j pd_table_inj [OF assms(1), of k n] n by auto
  qed
  moreover have "\<forall>t j. page_aligned t \<longrightarrow> j < 512 \<longrightarrow> t \<notin> pd_table kt ` {..<Suc n} \<longrightarrow>
      rd64 m2 (ent t j) = rd64 (ram st) (ent t j)"
    using rd2 rd1(2) by (simp add: lessThan_Suc)
  ultimately show ?case by blast
qed

text \<open>The state of the tables after \<^verbatim>\<open>init\<close>.\<close>

lemma paging_init_mem:
  assumes kt: "kt_ok kt" and bss: "\<forall>j < 512. rd64 (ram st) (ent (kt_PDPT_HIGH kt) j) = 0"
  obtains m' where "paging_init kt st = (Inr (kt_PML4 kt), st\<lparr>ram := m'\<rparr>)" and "kernel_half kt m'"
    and "rd64 m' (ent (kt_PML4 kt) 0) = kt_PDPT_LOW kt OR PRESENT OR WRITABLE OR USER"
    and "\<And>j. unat j < 4 \<Longrightarrow> rd64 m' (ent (kt_PDPT_LOW kt) j) = pd_table kt (unat j) OR PRESENT OR WRITABLE OR USER"
proof -
  let ?P = "kt_PML4 kt" and ?L = "kt_PDPT_LOW kt" and ?H = "kt_PDPT_HIGH kt"
  note kd = kt_okD [OF kt]
  define m1 where "m1 = wr64 (ent ?P 511) (?H OR PRESENT OR WRITABLE OR USER) (wr64 (ent ?P 0) (?L OR PRESENT OR WRITABLE OR USER) (ram st))"
  obtain m2 where run2: "forS [0 ..< 4] (link_pd kt) (st\<lparr>ram := m1\<rparr>) = (Inr (), st\<lparr>ram := m2\<rparr>)"
    and rd2: "\<And>t j. page_aligned t \<Longrightarrow> j < 512 \<Longrightarrow> rd64 m2 (ent t j) =
       (if t = ?L \<and> unat j < 4 then pd_table kt (unat j) OR PRESENT OR WRITABLE OR USER
        else if t = ?H then
          (case high_pd j of None \<Rightarrow> rd64 m1 (ent t j) | Some k \<Rightarrow> pd_table kt k OR PRESENT OR WRITABLE OR USER)
        else rd64 m1 (ent t j))"
    by (rule init_links [OF kt, of m1 st]) blast
  obtain m3 where run3: "forS [0 ..< 4] (fill_pd kt) (st\<lparr>ram := m2\<rparr>) = (Inr (), st\<lparr>ram := m3\<rparr>)"
    and rd3: "\<forall>k < 4. \<forall>j < 512. rd64 m3 (ent (pd_table kt k) j) = large_entry (of_nat k) j 0x87"
      "\<And>t j. page_aligned t \<Longrightarrow> j < 512 \<Longrightarrow> t \<notin> pd_table kt ` {..<4} \<Longrightarrow> rd64 m3 (ent t j) = rd64 m2 (ent t j)"
    using init_fills [OF kt, of 4 "st\<lparr>ram := m2\<rparr>"] by auto
  have ne: "?P \<noteq> ?L" "?P \<noteq> ?H" "?L \<noteq> ?H" "?P \<notin> pd_table kt ` {..<4}" "?L \<notin> pd_table kt ` {..<4}" "?H \<notin> pd_table kt ` {..<4}"
    using kt by (auto simp: kt_ok_def kt_list_def lessThan_4)
  have P: "rd64 m3 (ent ?P j) = rd64 m1 (ent ?P j)" if "j < 512" for j
    using rd3(2) [OF kd(6) that ne(4)] rd2 [OF kd(6) that] ne by simp
  show thesis
  proof (rule that)
    show "paging_init kt st = (Inr ?P, st\<lparr>ram := m3\<rparr>)"
      unfolding paging_init_def bindS_run
      by (simp add: bindS_def run2 [unfolded m1_def] run3 del: upt.simps upt_Suc)
    have "rd64 m3 (ent ?H b) = (case high_pd b of None \<Rightarrow> 0 | Some k \<Rightarrow> pd_table kt k OR PRESENT OR WRITABLE OR USER)"
      if "b < 512" for b
      using rd3(2) [OF kd(2) that ne(6)] rd2 [OF kd(2) that] ne bss that kd(2,6)
      by (simp add: m1_def rd64_wr64_ent split: option.split)
    then show "kernel_half kt m3" using rd3(1) P [of 511] kd(6) by (simp add: kernel_half_def m1_def rd64_wr64_ent)
    show "rd64 m3 (ent ?P 0) = ?L OR PRESENT OR WRITABLE OR USER" using P [of 0] kd(6) by (simp add: m1_def rd64_wr64_ent)
    show "rd64 m3 (ent ?L j) = pd_table kt (unat j) OR PRESENT OR WRITABLE OR USER" if "unat j < 4" for j
    proof -
      have "j < 512" using that by (simp add: word_less_nat_alt)
      from rd3(2) [OF kd(4) this ne(5)] rd2 [OF kd(4) this] that show ?thesis by simp
    qed
  qed
qed

lemma walk_large:
  assumes "rd64 m (ent cr3 (vidx 39 v)) = t1 OR PRESENT OR WRITABLE OR USER" and t1: "page_aligned t1" "t1 < 0x80000000"
    and "rd64 m (ent t1 (vidx 30 v)) = t2 OR PRESENT OR WRITABLE OR USER" and t2: "page_aligned t2" "t2 < 0x80000000"
    and "rd64 m (ent t2 (vidx 21 v)) = large_entry i e 0x87"
  shows "walk m cr3 v = Some (large_leaf (large_entry i e 0x87) v)"
proof -
  have hw: "hw_base 12 (t OR PRESENT OR WRITABLE OR USER) = t" if "page_aligned t" "t < 0x80000000" for t
    using that by (subst hw_base_eq) (simp_all add: page_base_of_frame word_less_nat_alt)
  have bits: "bit (t OR PRESENT OR WRITABLE OR USER) 0" "bit (t OR PRESENT OR WRITABLE OR USER) 1"
    "bit (t OR PRESENT OR WRITABLE OR USER) 2" for t
    by (simp_all add: flag_defs bit_simps)
  have "\<not> bit (t2 OR PRESENT OR WRITABLE OR USER) 7" using frame_entry_flags(2) [OF t2(1)] by (simp add: huge_iff_bit)
  then show ?thesis
    unfolding walk_def Let_def assms(1) hw [OF t1] assms(4) hw [OF t2] assms(7)
    by (simp add: bits bits(2) [unfolded One_nat_def] large_entry_flags large_leaf_def)
qed

text \<open>The tables as \<^verbatim>\<open>init\<close> leaves them, and the translations they give.\<close>

definition boot_map :: "kernel_tables \<Rightarrow> mem \<Rightarrow> bool" where
  "boot_map kt m \<longleftrightarrow> kernel_half kt m \<and> rd64 m (ent (kt_PML4 kt) 0) = kt_PDPT_LOW kt OR PRESENT OR WRITABLE OR USER \<and>
     (\<forall>j. unat j < 4 \<longrightarrow> rd64 m (ent (kt_PDPT_LOW kt) j) = pd_table kt (unat j) OR PRESENT OR WRITABLE OR USER)"

lemma boot_map_low:
  assumes kt: "kt_ok kt" and m: "boot_map kt m" and v: "v < 0x100000000"
  shows "walk m (kt_PML4 kt) v = Some (v, True, True)"
proof -
  note kd = kt_okD [OF kt]
  note la = low_address [OF v]
  have pv: "page_aligned (pd_table kt (unat (vidx 30 v)))" "pd_table kt (unat (vidx 30 v)) < 0x80000000"
    using kd(1) [OF la(2)] by auto
  have low: "rd64 m (ent (kt_PDPT_LOW kt) (vidx 30 v)) = pd_table kt (unat (vidx 30 v)) OR PRESENT OR WRITABLE OR USER"
    using m la(2) by (simp add: boot_map_def)
  have pd: "rd64 m (ent (pd_table kt (unat (vidx 30 v))) (vidx 21 v)) = large_entry (of_nat (unat (vidx 30 v))) (vidx 21 v) 0x87"
    using m la(2) vidx_bound unfolding boot_map_def kernel_half_def by blast
  have "walk m (kt_PML4 kt) v = Some (large_leaf (large_entry (of_nat (unat (vidx 30 v))) (vidx 21 v) 0x87) v)"
    by (rule walk_large [OF _ kd(4,5) low pv pd]) (use m in \<open>simp add: la(1) boot_map_def\<close>)
  also have "large_leaf (large_entry (of_nat (unat (vidx 30 v))) (vidx 21 v) 0x87) v = (v, True, True)"
    unfolding large_leaf_def using large_entry_translate [of "0x87" v] la(3) by (simp add: large_entry_flags)
  finally show ?thesis .
qed

lemma boot_map_alias:
  assumes kt: "kt_ok kt" and m: "boot_map kt m" and p: "p < 0x80000000"
  shows "walk m (kt_PML4 kt) (p + KERNEL_VMA_BASE) = Some (p, True, True)"
proof -
  let ?v = "p + KERNEL_VMA_BASE"
  note kd = kt_okD [OF kt]
  note al = alias_address [OF p]
  have kh: "kernel_half kt m" using m by (simp add: boot_map_def)
  obtain k where k: "k < 4" "high_pd (vidx 30 ?v) = Some k"
    and leaf: "large_leaf (large_entry (of_nat k) (vidx 21 ?v) 0x87) ?v = (p, True, True)"
    using al(3) by blast
  have e4: "rd64 m (ent (kt_PML4 kt) (vidx 39 ?v)) = kt_PDPT_HIGH kt OR PRESENT OR WRITABLE OR USER"
    using kh al(2) by (simp add: kernel_half_def)
  have e3: "rd64 m (ent (kt_PDPT_HIGH kt) (vidx 30 ?v)) = pd_table kt k OR PRESENT OR WRITABLE OR USER"
    using kh k(2) by (simp add: kernel_half_def)
  have e2: "rd64 m (ent (pd_table kt k) (vidx 21 ?v)) = large_entry (of_nat k) (vidx 21 ?v) 0x87"
    using kh k(1) vidx_bound unfolding kernel_half_def by blast
  have pk: "page_aligned (pd_table kt k)" "pd_table kt k < 0x80000000" using kd(1) [OF k(1)] by auto
  show ?thesis using walk_large [OF e4 kd(2,3) e3 pk e2] leaf by simp
qed

text \<open>
  \<^bold>\<open>C26.\<close> After \<^verbatim>\<open>init\<close>, from zero-initialised static tables, the root the kernel loads
  into cr3 maps the first 4 GiB to themselves and maps \<^verbatim>\<open>phys_to_virt(p)\<close> to \<open>p\<close> for every
  physical address below 2 GiB, writable, and the kernel half is in the state
  \<^verbatim>\<open>create_user_address_space\<close> relies on. Every one of these pages is also open to ring 3.
\<close>

theorem paging_init_correct:
  assumes "kt_ok kt" and "\<forall>j < 512. rd64 (ram st) (ent (kt_PDPT_HIGH kt) j) = 0"
  shows "\<exists>st'. paging_init kt st = (Inr (kt_PML4 kt), st') \<and> kernel_half kt (ram st') \<and> frames st' = frames st \<and>
    (\<forall>v < 0x100000000. walk (ram st') (kt_PML4 kt) v = Some (v, True, True)) \<and>
    (\<forall>p < 0x80000000. \<exists>va. phys_to_virt (unat p) = Inr va \<and> walk (ram st') (kt_PML4 kt) va = Some (p, True, True))"
proof -
  obtain m' where run: "paging_init kt st = (Inr (kt_PML4 kt), st\<lparr>ram := m'\<rparr>)" and m: "boot_map kt m'"
    by (rule paging_init_mem [OF assms]) (simp add: boot_map_def)
  have "kernel_half kt m'" using m by (simp add: boot_map_def)
  then show ?thesis
    using run boot_map_low [OF assms(1) m] boot_map_alias [OF assms(1) m] alias_address(1) by (intro exI [of _ "st\<lparr>ram := m'\<rparr>"]) auto
qed

definition demo_kt :: kernel_tables where
  "demo_kt = \<lparr>kt_PML4 = 0x200000, kt_PDPT_LOW = 0x201000, kt_PDPT_HIGH = 0x202000, kt_PD = 0x203000\<rparr>"

lemma demo_kt_ok: "kt_ok demo_kt"
  by (simp add: kt_ok_def kt_list_def demo_kt_def pd_table_def aligned_def)

theorem paging_init_correct_witness:
  "\<exists>st'. paging_init demo_kt demo_mm = (Inr 0x200000, st') \<and> kernel_half demo_kt (ram st') \<and>
     walk (ram st') 0x200000 0xB8000 = Some (0xB8000, True, True)"
proof -
  have "\<forall>j < 512. rd64 (ram demo_mm) (ent (kt_PDPT_HIGH demo_kt) j) = 0" by (simp add: demo_mm_def rd64_zero)
  from paging_init_correct [OF demo_kt_ok this] show ?thesis by (auto simp: demo_kt_def)
qed

section \<open>Memory outside the tables\<close>

lemma page_base_ent:
  assumes "page_aligned u" and "j < 512" and "k < 8"
  shows "page_base (ent u j + of_nat k) = u"
  using ent_in_page [OF assms(1,1,2,3)] in_frame [OF assms(1)] by simp

lemma rd64_touched:
  assumes "touched_only T m m'" and "u \<notin> T" and "page_aligned u" and "j < 512"
  shows "rd64 m' (ent u j) = rd64 m (ent u j)"
  using assms page_base_ent [OF assms(3,4)] by (intro rd64_cong) (simp add: touched_only_def)

lemma pd_table_in: "k < 4 \<Longrightarrow> pd_table kt k \<in> set (kt_list kt)"
  by (auto simp: kt_list_def less_Suc_eq numeral_eq_Suc)

lemma boot_map_touched:
  assumes kt: "kt_ok kt" and "boot_map kt m" and t: "touched_only T m m'" and T: "T \<inter> set (kt_list kt) = {}"
  shows "boot_map kt m'"
proof -
  have r: "rd64 m' (ent u j) = rd64 m (ent u j)" if "u \<in> set (kt_list kt)" "j < 512" for u j
    using kt T that by (intro rd64_touched [OF t]) (auto simp: kt_ok_def)
  have "kt_PML4 kt \<in> set (kt_list kt)" "kt_PDPT_LOW kt \<in> set (kt_list kt)" "kt_PDPT_HIGH kt \<in> set (kt_list kt)" by (simp_all add: kt_list_def)
  moreover have "unat j < 4 \<Longrightarrow> j < 512" for j :: u64 by (simp add: word_less_nat_alt)
  ultimately show ?thesis using assms(2) pd_table_in [of _ kt] unfolding boot_map_def kernel_half_def by (simp add: r)
qed

text \<open>Writing to frames that hold no table of the space leaves the space as it is.\<close>

lemma pt_untouched:
  assumes inv: "pt_inv cr3 st" and touch: "touched_only T (ram st) (ram st')" and T: "T \<inter> tables_of (ram st) cr3 = {}"
    and pm: "pmm_inv (frames st')" "free_set (frames st') \<subseteq> free_set (frames st)"
  shows "pt_inv cr3 st'" and "is_path q \<Longrightarrow> table (ram st') cr3 q = table (ram st) cr3 q"
    and "is_path q \<Longrightarrow> j < 512 \<Longrightarrow> slot (ram st') cr3 q j = slot (ram st) cr3 q j"
proof -
  have rd: "rd64 (ram st') (ent u j) = rd64 (ram st) (ent u j)"
    if "is_path q" "table (ram st) cr3 q = Some u" "j < 512" for q u j
    using rd64_touched [OF touch _ pt_invD(2) [OF inv that(1,2)] that(3)] T that(1,2) unfolding tables_of_def by blast
  show tab: "table (ram st') cr3 q = table (ram st) cr3 q" if "is_path q" for q
    using rd by (rule table_leaf [OF _ that])
  show "slot (ram st') cr3 q j = slot (ram st) cr3 q j" if "is_path q" "j < 512" for q j
    using tab [OF that(1)] rd [OF that(1) _ that(2)] unfolding slot_def by (simp split: option.split)
  show "pt_inv cr3 st'"
    unfolding pt_inv_def
  proof (intro conjI allI impI)
    fix p t assume p: "is_path p" and t: "table (ram st') cr3 p = Some t"
    then have t0: "table (ram st) cr3 p = Some t" using tab by simp
    show "page_aligned t" "t < 0x80000000" "unat t div PAGE_SIZE \<notin> free_set (frames st')"
      using pt_invD(2-4) [OF inv p t0] pm(2) by auto
    show "entry_ok (length p) (rd64 (ram st') (ent t i))" if "i < 512" for i
      using rd [OF p t0 that] pt_invD(6) [OF inv p t0 that] by simp
    show "p = q" if "is_path q" "table (ram st') cr3 q = Some t" for q
      using pt_invD(5) [OF inv p that(1) t0] that tab by simp
  qed (rule pm(1))
qed

lemma pt_untouched_views:
  fixes st st' :: mm
  assumes "pt_inv cr3 st" and "touched_only T (ram st) (ram st')" and "T \<inter> tables_of (ram st) cr3 = {}"
    and "pmm_inv (frames st')" "free_set (frames st') \<subseteq> free_set (frames st)"
  shows "walk (ram st') cr3 v = walk (ram st) cr3 v" and "in_huge (ram st') cr3 v = in_huge (ram st) cr3 v"
    and "mapped (ram st') cr3 v = mapped (ram st) cr3 v" and "tables_of (ram st') cr3 = tables_of (ram st) cr3"
proof -
  have P: "is_path [vidx 30 v, vidx 39 v]" "is_path [vidx 21 v, vidx 30 v, vidx 39 v]" by simp_all
  note s = pt_untouched(3) [OF assms P(1) vidx_bound] pt_untouched(3) [OF assms P(2) vidx_bound]
  show "walk (ram st') cr3 v = walk (ram st) cr3 v"
    unfolding walk_slots [OF assms(1)] walk_slots [OF pt_untouched(1) [OF assms]] s ..
  show "in_huge (ram st') cr3 v = in_huge (ram st) cr3 v" unfolding in_huge_alt s ..
  show "mapped (ram st') cr3 v = mapped (ram st) cr3 v" unfolding mapped_alt s ..
  show "tables_of (ram st') cr3 = tables_of (ram st) cr3"
    using pt_untouched(2) [OF assms] unfolding tables_of_def by auto
qed

section \<open>Anonymous pages\<close>

text \<open>One page of anonymous memory: a fresh frame \<open>n\<close>, cleared, mapped at \<open>v\<close>.\<close>

definition anon_page :: "u64 \<Rightarrow> u64 \<Rightarrow> u64 \<Rightarrow> mm \<Rightarrow> mm \<Rightarrow> bool" where
  "anon_page cr3 v n st st' \<longleftrightarrow> pt_inv cr3 st' \<and> page_aligned n \<and>
     unat n div PAGE_SIZE \<in> free_set (frames st) \<and> unat n div PAGE_SIZE \<notin> free_set (frames st') \<and>
     n \<notin> tables_of (ram st') cr3 \<and>
     free_set (frames st') \<subseteq> free_set (frames st) \<and> card (free_set (frames st)) \<le> card (free_set (frames st')) + 4 \<and>
     (\<forall>w. walk (ram st') cr3 w = (if vpn w = vpn v then Some (n OR take_bit 12 w, True, True) else walk (ram st) cr3 w)) \<and>
     (\<forall>w. in_huge (ram st') cr3 w = in_huge (ram st) cr3 w) \<and>
     (\<forall>x. page_base x = n \<longrightarrow> ram st' x = 0) \<and>
     tables_of (ram st) cr3 \<subseteq> tables_of (ram st') cr3 \<and>
     tables_of (ram st') cr3 \<subseteq> tables_of (ram st) cr3 \<union> {t. unat t div PAGE_SIZE \<in> free_set (frames st)} \<and>
     touched_only (insert n (tables_of (ram st') cr3)) (ram st) (ram st')"

lemma zeroed_frame:
  assumes "page_aligned n" and "page_base x = n"
  shows "zero_page n m x = 0"
  using assms in_frame [OF assms(1), of x] by (simp add: zero_page_def fill_bytes_def)

lemma tables_not_free: "pt_inv cr3 st \<Longrightarrow> t \<in> tables_of (ram st) cr3 \<Longrightarrow> unat t div PAGE_SIZE \<notin> free_set (frames st)"
  unfolding tables_of_def using pt_invD(4) by blast

lemma alloc_anon_page_ok:
  assumes inv: "pt_inv cr3 st" and nh: "\<not> in_huge (ram st) cr3 (base + of_nat i * 4096)"
    and free: "4 \<le> card (free_set (frames st))" and bnd: "unat base + i * 4096 < 2 ^ 64"
  shows "\<exists>n st'. alloc_anon_page cr3 base i st = (Inr (), st') \<and> anon_page cr3 (base + of_nat i * 4096) n st st'"
proof -
  let ?v = "base + of_nat i * 4096 :: u64"
  note pm = pt_invD(1) [OF inv]
  have "free_set (frames st) \<noteq> {}" using free by auto
  then obtain a s where al: "alloc_page (frames st) = (Some a, s)" using alloc_expect_ok [OF pm] by blast
  note fr = alloc_frame [OF pm al]
  let ?n = "of_nat a :: u64"
  define st1 where "st1 = st\<lparr>frames := s, ram := zero_page ?n (ram st)\<rparr>"
  have t1: "touched_only {?n} (ram st) (ram st1)"
    using zero_page_frame [OF fr(1)] by (simp add: touched_only_def st1_def)
  have nT: "{?n} \<inter> tables_of (ram st) cr3 = {}" using tables_not_free [OF inv, of ?n] fr(3,4) by auto
  have pm1: "pmm_inv (frames st1)" "free_set (frames st1) \<subseteq> free_set (frames st)" using fr by (auto simp: st1_def)
  note U = pt_untouched [OF inv t1 nT pm1] and V = pt_untouched_views [OF inv t1 nT pm1]
  have c1: "card (free_set (frames st)) \<le> card (free_set (frames st1)) + 1" "3 \<le> card (free_set (frames st1))"
    using fr free by (simp_all add: st1_def)
  have nf1: "unat ?n div PAGE_SIZE \<notin> free_set (frames st1)" using fr by (simp add: st1_def)
  have nh1: "\<not> in_huge (ram st1) cr3 ?v" using nh V(2) by simp
  have small: "unat ?n < 2 ^ 52" "unat (7::u64) < 4096" using fr(2) by (simp_all add: word_less_nat_alt)
  obtain st' where run: "map_user_page cr3 ?v ?n 7 st1 = (Inr (), st')" and inv': "pt_inv cr3 st'"
    and w: "\<And>w. walk (ram st') cr3 w = (if vpn w = vpn ?v then Some (?n OR take_bit 12 w, bit (7::u64) 1, True) else walk (ram st1) cr3 w)"
    and touch: "touched_only (tables_of (ram st') cr3) (ram st1) (ram st')"
    and fs: "free_set (frames st') \<subseteq> free_set (frames st1)" "card (free_set (frames st1)) \<le> card (free_set (frames st')) + 3"
    and hg: "\<And>w. in_huge (ram st') cr3 w = in_huge (ram st1) cr3 w"
    and grow: "tables_of (ram st1) cr3 \<subseteq> tables_of (ram st') cr3"
    and tabs: "tables_of (ram st') cr3 \<subseteq> tables_of (ram st1) cr3 \<union> {t. unat t div PAGE_SIZE \<in> free_set (frames st1)}"
    by (rule map_user_page_effect [OF U(1) nh1 c1(2) fr(1) small]) blast
  have n': "?n \<notin> tables_of (ram st') cr3" using tabs nf1 nT V(4) by auto
  have "unat (of_nat i * 4096 :: u64) = i * 4096" using bnd by (simp add: unat_word_ariths unat_of_nat)
  then have "alloc_anon_page cr3 base i st = (Inr (), st')"
    using run bnd table_at_ok [OF fr(2)]
    by (simp add: alloc_anon_page_def bindS_def add64_def al fr(3) st1_def)
  moreover have "anon_page cr3 ?v ?n st st'"
    unfolding anon_page_def
  proof (intro conjI)
    show "card (free_set (frames st)) \<le> card (free_set (frames st')) + 4" using c1 fs by linarith
    show "\<forall>x. page_base x = ?n \<longrightarrow> ram st' x = 0"
      using touch n' zeroed_frame [OF fr(1)] by (simp add: touched_only_def st1_def)
    show "\<forall>w. walk (ram st') cr3 w = (if vpn w = vpn ?v then Some (?n OR take_bit 12 w, True, True) else walk (ram st) cr3 w)"
      using w V(1) by (simp add: bit_simps)
    show "touched_only (insert ?n (tables_of (ram st') cr3)) (ram st) (ram st')"
      using touch t1 by (simp add: touched_only_def)
    show "tables_of (ram st') cr3 \<subseteq> tables_of (ram st) cr3 \<union> {t. unat t div PAGE_SIZE \<in> free_set (frames st)}"
      using tabs V(4) pm1(2) by auto
  qed (use inv' fr fs pm1 nf1 n' hg grow V(2,4) in auto)
  ultimately show ?thesis by blast
qed

definition anon_pages :: "u64 \<Rightarrow> u64 \<Rightarrow> nat \<Rightarrow> (nat \<Rightarrow> u64) \<Rightarrow> mm \<Rightarrow> mm \<Rightarrow> bool" where
  "anon_pages cr3 base n F st st' \<longleftrightarrow> pt_inv cr3 st' \<and> inj_on F {..<n} \<and>
     (\<forall>i < n. unat (F i) div PAGE_SIZE \<in> free_set (frames st) - free_set (frames st')) \<and>
     (\<forall>i < n. F i \<notin> tables_of (ram st') cr3 \<and> (\<forall>x. page_base x = F i \<longrightarrow> ram st' x = 0)) \<and>
     (\<forall>i < n. \<forall>w. vpn w = vpn (base + of_nat i * 4096) \<longrightarrow> walk (ram st') cr3 w = Some (F i OR take_bit 12 w, True, True)) \<and>
     (\<forall>w. (\<forall>i < n. vpn w \<noteq> vpn (base + of_nat i * 4096)) \<longrightarrow> walk (ram st') cr3 w = walk (ram st) cr3 w) \<and>
     (\<forall>w. in_huge (ram st') cr3 w = in_huge (ram st) cr3 w) \<and>
     free_set (frames st') \<subseteq> free_set (frames st) \<and> card (free_set (frames st)) \<le> card (free_set (frames st')) + 4 * n \<and>
     tables_of (ram st) cr3 \<subseteq> tables_of (ram st') cr3 \<and>
     touched_only (F ` {..<n} \<union> tables_of (ram st') cr3) (ram st) (ram st')"

lemma vpn_step:
  assumes "unat base + n * 4096 < 2 ^ 48" and "i < n"
  shows "vpn (base + of_nat i * 4096) \<noteq> vpn (base + of_nat n * 4096)"
proof -
  have u: "unat (base + of_nat k * 4096) = unat base + k * 4096" if "k \<le> n" for k
    using that assms(1) by (simp add: unat_word_ariths unat_of_nat)
  have v: "unat (vpn w) = unat w div 4096" if "unat w < 2 ^ 48" for w
  proof -
    have "unat w div 4096 < 2 ^ 36" using that by (simp add: div_less_iff_less_mult)
    then show ?thesis
      by (simp add: vpn_def unsigned_take_bit_eq drop_bit_eq_div unat_div take_bit_nat_eq_self)
  qed
  have "unat (vpn (base + of_nat k * 4096)) = unat base div 4096 + k" if k: "k \<le> n" for k
  proof -
    have "unat (base + of_nat k * 4096) < 2 ^ 48" using u [OF k] k assms(1) by simp
    from v [OF this] u [OF k] show ?thesis by simp
  qed
  from this [of i] this [of n] assms(2) show ?thesis by auto
qed

lemma alloc_anon_ok:
  assumes inv: "pt_inv cr3 st" and nh: "\<forall>i < n. \<not> in_huge (ram st) cr3 (base + of_nat i * 4096)"
    and free: "4 * n \<le> card (free_set (frames st))" and bnd: "unat base + n * 4096 \<le> 2 ^ 48"
  shows "\<exists>F st'. alloc_anon cr3 base n st = (Inr (), st') \<and> anon_pages cr3 base n F st st'"
  unfolding alloc_anon_def using nh free bnd
proof (induction n)
  case 0
  show ?case by (rule exI [of _ "\<lambda>_. 0"], rule exI [of _ st]) (simp add: anon_pages_def inv touched_only_def)
next
  case (Suc n)
  then obtain F st1 where run1: "forS [0 ..< n] (alloc_anon_page cr3 base) st = (Inr (), st1)"
    and A: "anon_pages cr3 base n F st st1" by auto
  note D = A [unfolded anon_pages_def]
  let ?v = "base + of_nat n * 4096 :: u64"
  have "\<not> in_huge (ram st1) cr3 ?v" using D Suc.prems(1) by simp
  moreover have "card (free_set (frames st)) \<le> card (free_set (frames st1)) + 4 * n" using D by blast
  then have "4 \<le> card (free_set (frames st1))" using Suc.prems(2) by simp
  ultimately obtain f st2 where run2: "alloc_anon_page cr3 base n st1 = (Inr (), st2)" and B: "anon_page cr3 ?v f st1 st2"
    using alloc_anon_page_ok [of cr3 st1 base n] D Suc.prems(3) by auto
  note E = B [unfolded anon_page_def]
  let ?F = "F(n := f)"
  have img: "?F ` {..<Suc n} = insert f (F ` {..<n})" by (auto simp: lessThan_Suc)
  have fnew: "F i \<noteq> f" if "i < n" for i using D E that by auto
  have Tsub: "tables_of (ram st1) cr3 \<subseteq> tables_of (ram st2) cr3" using E by blast
  have Fnt: "F i \<notin> tables_of (ram st2) cr3" if "i < n" for i using D E that by blast
  have keep: "ram st2 x = ram st1 x" if "page_base x \<noteq> f" "page_base x \<notin> tables_of (ram st2) cr3" for x
    using E that by (simp add: touched_only_def)
  have run: "forS [0 ..< Suc n] (alloc_anon_page cr3 base) st = (Inr (), st2)"
    using run1 run2 by (simp add: forS_append bindS_def)
  have "anon_pages cr3 base (Suc n) ?F st st2"
    unfolding anon_pages_def
  proof (intro conjI)
    show "inj_on ?F {..<Suc n}" using D by (auto simp: inj_on_def less_Suc_eq) (use fnew in blast)+
    show "\<forall>i < Suc n. unat (?F i) div PAGE_SIZE \<in> free_set (frames st) - free_set (frames st2)"
      using D E by (auto simp: less_Suc_eq)
    show "\<forall>i < Suc n. ?F i \<notin> tables_of (ram st2) cr3 \<and> (\<forall>x. page_base x = ?F i \<longrightarrow> ram st2 x = 0)"
      using D E Fnt keep fnew by (auto simp: less_Suc_eq)
    show "\<forall>i < Suc n. \<forall>w. vpn w = vpn (base + of_nat i * 4096) \<longrightarrow> walk (ram st2) cr3 w = Some (?F i OR take_bit 12 w, True, True)"
      using D E vpn_step [of base n] Suc.prems(3) by (auto simp: less_Suc_eq)
    show "\<forall>w. (\<forall>i < Suc n. vpn w \<noteq> vpn (base + of_nat i * 4096)) \<longrightarrow> walk (ram st2) cr3 w = walk (ram st) cr3 w"
      using D E by (simp add: less_Suc_eq)
    show "card (free_set (frames st)) \<le> card (free_set (frames st2)) + 4 * Suc n"
      proof -
      have "card (free_set (frames st)) \<le> card (free_set (frames st1)) + 4 * n"
        "card (free_set (frames st1)) \<le> card (free_set (frames st2)) + 4" using D E by blast+
      then show ?thesis by simp
    qed
    show "touched_only (?F ` {..<Suc n} \<union> tables_of (ram st2) cr3) (ram st) (ram st2)"
      unfolding img using D keep Tsub by (auto simp: touched_only_def)
  qed (use D E Tsub in auto)
  with run show ?case by blast
qed

text \<open>
  \<^verbatim>\<open>alloc_anon\<close> backs a range of pages that no large page covers, given four free
  frames per page: it succeeds, and every page of the range is then mapped writable for
  ring 3 to a frame of its own that was free, holds no page table, and contains only
  zeros; the rest of the address space is translated as before and its contents outside
  the new frames and the page tables are unchanged.
\<close>

lemma alloc_anon_correct:
  assumes "pt_inv cr3 st" and "\<forall>i < pages. \<not> in_huge (ram st) cr3 (base + of_nat i * 4096)"
    and "4 * pages \<le> card (free_set (frames st))" and "unat base + pages * 4096 \<le> 2 ^ 48"
  shows "\<exists>F st'. alloc_anon cr3 base pages st = (Inr (), st') \<and> pt_inv cr3 st' \<and> inj_on F {..<pages} \<and>
    (\<forall>i < pages. unat (F i) div PAGE_SIZE \<in> free_set (frames st) - free_set (frames st') \<and>
       F i \<notin> tables_of (ram st') cr3 \<and> (\<forall>x. page_base x = F i \<longrightarrow> ram st' x = 0) \<and>
       (\<forall>w. vpn w = vpn (base + of_nat i * 4096) \<longrightarrow> walk (ram st') cr3 w = Some (F i OR take_bit 12 w, True, True))) \<and>
    (\<forall>w. (\<forall>i < pages. vpn w \<noteq> vpn (base + of_nat i * 4096)) \<longrightarrow> walk (ram st') cr3 w = walk (ram st) cr3 w) \<and>
    touched_only (F ` {..<pages} \<union> tables_of (ram st') cr3) (ram st) (ram st')"
  using alloc_anon_ok [OF assms] unfolding anon_pages_def by blast

section \<open>A large page in the way\<close>

text \<open>The free frames of a machine with eight usable pages, and its booted state.\<close>

definition demo8 :: PmmState where
  "demo8 = pmm_init (Some [\<lparr>mr_base = 0, mr_size = 0x8000, mr_kind = Usable\<rparr>]) pmm_new"

lemma demo8_boot: "pmm_inv demo8" "free_set demo8 = {0, 1, 2, 3, 4, 5, 6, 7}"
proof -
  show "pmm_inv demo8" by (simp add: demo8_def pmm_init_inv pmm_inv_new)
  have "free_set demo8 = {..<8}"
    by (auto simp: demo8_def pmm_init_new region_pages_def PAGE_SIZE_def MAX_PAGES_def BITMAP_BYTES_def)
  also have "{..<8::nat} = {0, 1, 2, 3, 4, 5, 6, 7}" by auto
  finally show "free_set demo8 = {0, 1, 2, 3, 4, 5, 6, 7}" .
qed

lemma demo8_kernel:
  obtains s :: mm where "pmm_inv (frames s)" and "6 \<le> card (free_set (frames s))" and "kernel_half demo_kt (ram s)"
    and "\<forall>t \<in> set (kt_list demo_kt). unat t div PAGE_SIZE \<notin> free_set (frames s)" and "frames s = demo8"
proof -
  let ?st = "\<lparr>frames = demo8, ram = (\<lambda>_. 0)\<rparr>"
  obtain m where kh: "kernel_half demo_kt m"
    by (rule paging_init_mem [OF demo_kt_ok, of ?st]) (simp_all add: rd64_zero)
  show thesis
    by (rule that [of "\<lparr>frames = demo8, ram = m\<rparr>"])
      (use kh in \<open>simp_all add: demo8_boot kt_list_def demo_kt_def pd_table_def PAGE_SIZE_def\<close>)
qed

theorem create_user_address_space_correct_witness:
  "\<exists>st cr3 st'. create_user_address_space demo_kt st = (Inr cr3, st') \<and> pt_inv cr3 st' \<and>
     walk (ram st') cr3 0x401000 = None \<and> walk (ram st') cr3 0xB8000 = Some (0xB8000, True, False)"
proof -
  obtain s :: mm where "pmm_inv (frames s)" "6 \<le> card (free_set (frames s))" "kernel_half demo_kt (ram s)"
    "\<forall>t \<in> set (kt_list demo_kt). unat t div PAGE_SIZE \<notin> free_set (frames s)"
    by (rule demo8_kernel) blast
  then obtain cr3 st' where "create_user_address_space demo_kt s = (Inr cr3, st')" "pt_inv cr3 st'"
    and w: "\<And>v. v < 0x100000000 \<Longrightarrow> walk (ram st') cr3 v =
       (if 0x400000 \<le> v \<and> v < 0x600000 then None else Some (v, True, False))"
    using create_user_address_space_correct [OF _ _ demo_kt_ok] by metis
  with w [of "0x401000"] w [of "0xB8000"] show ?thesis by (intro exI) auto
qed

lemma in_huge_not_mapped:
  assumes "table m cr3 [vidx 30 v, vidx 39 v] = Some pd" and "rd64 m (ent pd (vidx 21 v)) AND HUGE_PAGE \<noteq> 0"
  shows "mapped m cr3 v = None"
  using assms unfolding mapped_def by (subst table.simps(2)) (simp del: table.simps)

text \<open>
  \<^verbatim>\<open>map_user_page\<close> does not look at the huge bit. At an address covered by a 2 MiB
  page it reports success but maps nothing: it takes the first 4 KiB of that large page
  for a page table and overwrites the entry-sized word at the index of the address, in
  whatever memory the large page maps (here: memory other than the tables of the space).
  \<^verbatim>\<open>lookup_page\<close> still answers \<^verbatim>\<open>None\<close> and the address is translated as before.
\<close>

lemma map_user_page_in_huge:
  assumes inv: "pt_inv cr3 st" and pd: "table (ram st) cr3 [vidx 30 v, vidx 39 v] = Some pd"
    and huge: "rd64 (ram st) (ent pd (vidx 21 v)) AND HUGE_PAGE \<noteq> 0"
    and low: "page_base (rd64 (ram st) (ent pd (vidx 21 v))) < 0x80000000"
    and out: "page_base (rd64 (ram st) (ent pd (vidx 21 v))) \<notin> tables_of (ram st) cr3"
  shows "\<exists>st'. map_user_page cr3 v pa flags st = (Inr (), st') \<and>
    ram st' = wr64 (ent (page_base (rd64 (ram st) (ent pd (vidx 21 v)))) (vidx 12 v)) (pa OR flags OR PRESENT OR USER) (ram st) \<and>
    fst (lookup_page cr3 v st') = Inr None \<and> walk (ram st') cr3 v = walk (ram st) cr3 v"
proof -
  let ?i4 = "vidx 39 v" and ?i3 = "vidx 30 v" and ?i2 = "vidx 21 v" and ?m = "ram st"
  let ?e = "rd64 ?m (ent pd ?i2)"
  let ?st' = "st\<lparr>ram := wr64 (ent (page_base ?e) (vidx 12 v)) (pa OR flags OR PRESENT OR USER) ?m\<rparr>"
  have P: "is_path [?i4]" "is_path [?i3, ?i4]" by simp_all
  obtain t1 where t1: "table ?m cr3 [?i4] = Some t1" using pd by (cases "table ?m cr3 [?i4]") auto
  have c3: "cr3 < 0x80000000" using pt_invD(3) [OF inv, of "[]"] by simp
  have r1: "get_or_create cr3 ?i4 msg st = (Inr t1, st)" for msg
    using get_or_create_keep [OF inv P(1) _ t1] by simp
  have r2: "get_or_create t1 ?i3 msg st = (Inr pd, st)" for msg
    using get_or_create_keep [OF inv P(2) t1 pd] by simp
  have "?e \<noteq> 0" using huge by auto
  then have r3: "get_or_create pd ?i2 msg st = (Inr (page_base ?e), st)" for msg
    using table_at_ok [OF low] by (simp add: get_or_create_def bindS_run)
  have "map_user_page cr3 v pa flags st = (Inr (), ?st')"
    unfolding map_user_page_def bindS_table_at [OF c3] by (simp add: bindS_def r1 r2 r3)
  moreover have touch: "touched_only {page_base ?e} ?m (ram ?st')"
    unfolding touched_only_def by (simp add: wr64_frame)
  moreover have T: "{page_base ?e} \<inter> tables_of ?m cr3 = {}" using out by simp
  ultimately show ?thesis
    using pt_untouched(1) [OF inv touch T] pt_untouched_views(1,3) [OF inv touch T, of v] pt_invD(1) [OF inv]
      in_huge_not_mapped [OF pd huge] by (simp add: lookup_page_mapped)
qed

text \<open>In the fresh space of the eight-page machine, 0x600000 is such an address.\<close>

end
