(* ===== verification/UserMem.thy ===== *)
theory UserMem
  imports AddressSpace
begin

text \<open>
  The memory of a process as the process sees it: the bytes behind the 4 KiB pages of its address
  space, how the kernel's operations on frames and page tables change them, and the
  invariant that keeps the pages of a process apart from each other, from the page tables
  and from the free frames.
\<close>

section \<open>Virtual memory\<close>

definition img :: "u64 \<Rightarrow> mm \<Rightarrow> u64 \<Rightarrow> u8 option" where
  "img cr3 st v = map_option (\<lambda>p. ram st (p OR take_bit 12 v)) (mapped (ram st) cr3 v)"

text \<open>The frame \<open>p\<close> backs the page of \<open>v\<close>, and nothing else in the kernel uses it.\<close>

definition backs :: "u64 \<Rightarrow> mm \<Rightarrow> u64 \<Rightarrow> u64 \<Rightarrow> bool" where
  "backs cr3 st v p \<longleftrightarrow> page_aligned p \<and> p < 0x80000000 \<and> unat p div PAGE_SIZE \<notin> free_set (frames st) \<and>
     p \<notin> tables_of (ram st) cr3 \<and> (\<exists>w. walk (ram st) cr3 v = Some (p OR take_bit 12 v, w, True))"

definition user_inv :: "u64 \<Rightarrow> mm \<Rightarrow> bool" where
  "user_inv cr3 st \<longleftrightarrow> pt_inv cr3 st \<and>
     (\<forall>v p. mapped (ram st) cr3 v = Some p \<longrightarrow> backs cr3 st v p) \<and>
     (\<forall>v w p. mapped (ram st) cr3 v = Some p \<longrightarrow> mapped (ram st) cr3 w = Some p \<longrightarrow> vpn v = vpn w)"

lemma user_invD:
  assumes "user_inv cr3 st"
  shows "pt_inv cr3 st" and "mapped (ram st) cr3 v = Some p \<Longrightarrow> backs cr3 st v p"
    and "mapped (ram st) cr3 v = Some p \<Longrightarrow> mapped (ram st) cr3 w = Some p \<Longrightarrow> vpn v = vpn w"
  using assms unfolding user_inv_def by blast+

lemma mapped_vpn: "vpn v = vpn w \<Longrightarrow> mapped m cr3 v = mapped m cr3 w"
  by (simp add: vpn_eq_iff mapped_alt)

lemma page_base_offset: "page_aligned p \<Longrightarrow> page_base (p OR take_bit 12 v) = p"
  by (rule page_base_or) simp_all

text \<open>What the processor reads is the byte of the image.\<close>

lemma img_walk:
  assumes "user_inv cr3 st" and "img cr3 st v = Some b"
  obtains p w where "walk (ram st) cr3 v = Some (p, w, True)" and "ram st p = b"
proof -
  obtain q where q: "mapped (ram st) cr3 v = Some q" "b = ram st (q OR take_bit 12 v)"
    using assms(2) by (auto simp: img_def)
  from user_invD(2) [OF assms(1) q(1)] q(2) that show ?thesis by (auto simp: backs_def)
qed

section \<open>Operations\<close>

text \<open>Changes outside of the tables and of the pages: nothing happens to the process.\<close>

lemma user_untouched:
  assumes inv: "user_inv cr3 st" and touch: "touched_only T (ram st) (ram st')" and T: "T \<inter> tables_of (ram st) cr3 = {}"
    and P: "\<And>v p. mapped (ram st) cr3 v = Some p \<Longrightarrow> p \<notin> T"
    and pm: "pmm_inv (frames st')" "free_set (frames st') \<subseteq> free_set (frames st)"
  shows "user_inv cr3 st'" and "mapped (ram st') cr3 = mapped (ram st) cr3" and "img cr3 st' = img cr3 st"
    and "walk (ram st') cr3 = walk (ram st) cr3" and "in_huge (ram st') cr3 = in_huge (ram st) cr3"
    and "tables_of (ram st') cr3 = tables_of (ram st) cr3"
proof -
  note i = user_invD(1) [OF inv]
  note V = pt_untouched_views [OF i touch T pm]
  show m: "mapped (ram st') cr3 = mapped (ram st) cr3" and "walk (ram st') cr3 = walk (ram st) cr3"
    "in_huge (ram st') cr3 = in_huge (ram st) cr3" "tables_of (ram st') cr3 = tables_of (ram st) cr3"
    using V by auto
  have "backs cr3 st' v p" if "mapped (ram st) cr3 v = Some p" for v p
    using user_invD(2) [OF inv that] V pm by (auto simp: backs_def)
  then show "user_inv cr3 st'"
    using pt_untouched(1) [OF i touch T pm] user_invD(3) [OF inv] unfolding user_inv_def m by blast
  show "img cr3 st' = img cr3 st"
  proof
    fix v
    show "img cr3 st' v = img cr3 st v"
    proof (cases "mapped (ram st) cr3 v")
      case (Some p)
      then have "page_base (p OR take_bit 12 v) \<notin> T"
        using P [OF Some] user_invD(2) [OF inv Some] by (simp add: backs_def page_base_offset)
      with Some touch show ?thesis by (simp add: img_def m touched_only_def)
    qed (simp add: img_def m)
  qed
qed

text \<open>Writing bytes into the page of a process.\<close>

lemma offset_in_page: "unat (take_bit 12 (v :: u64)) < 4096"
  using take_bit_nat_less_exp [of 12 "unat v"] by (simp add: unsigned_take_bit_eq)

lemma page_or_plus: "page_aligned p \<Longrightarrow> p OR take_bit 12 v = p + take_bit 12 v"
  using page_split [of "p OR take_bit 12 v"] page_base_offset [of p v] by (simp add: take_bit_or aligned_def)

lemma wr_bytes_page:
  assumes "page_aligned p" and "off + length bs \<le> 4096"
  shows "page_base x \<noteq> p \<Longrightarrow> wr_bytes (p + of_nat off) bs m x = m x"
    and "wr_bytes (p + of_nat off) bs m (p OR take_bit 12 v) =
      (let k = unat (take_bit 12 v) in if off \<le> k \<and> k < off + length bs then bs ! (k - off) else m (p OR take_bit 12 v))"
proof -
  have o: "unat (of_nat off :: u64) = off" using assms(2) by (simp add: unat_of_nat)
  show "wr_bytes (p + of_nat off) bs m x = m x" if "page_base x \<noteq> p"
  proof (cases "unat (x - (p + of_nat off)) < length bs")
    case True
    then have "unat (x - p) = unat (x - (p + of_nat off)) + off"
      using assms(2) o unat_add_lem [of "x - (p + of_nat off)" "of_nat off"] by auto
    then have "unat (x - p) < 4096" using True assms(2) by linarith
    with that in_frame [OF assms(1)] show ?thesis by simp
  qed (simp add: wr_bytes_def)
  let ?k = "take_bit 12 v"
  have x: "(p OR ?k) - (p + of_nat off) = ?k - of_nat off" by (simp add: page_or_plus [OF assms(1)])
  show "wr_bytes (p + of_nat off) bs m (p OR ?k) =
      (let k = unat ?k in if off \<le> k \<and> k < off + length bs then bs ! (k - off) else m (p OR ?k))"
    proof (cases "off \<le> unat ?k")
      case True
      then have "unat (?k - of_nat off) = unat ?k - off" using o by (simp add: unat_sub word_le_nat_alt)
      then show ?thesis using True by (auto simp: wr_bytes_def x Let_def)
    next
      case lt: False
      have "unat (?k - of_nat off) = 2 ^ 64 + unat ?k - off"
        using lt o assms(2) offset_in_page [of v] by (simp add: unat_sub_if_size word_size word_le_nat_alt)
      then have "\<not> unat (?k - of_nat off) < length bs" using assms(2) by simp
      then show ?thesis using lt by (simp add: wr_bytes_def x)
    qed
qed

lemma user_write:
  assumes inv: "user_inv cr3 st" and m: "mapped (ram st) cr3 v = Some p" and len: "off + length bs \<le> 4096"
    and st': "st' = st\<lparr>ram := wr_bytes (p + of_nat off) bs (ram st)\<rparr>"
  shows "user_inv cr3 st'" and "mapped (ram st') cr3 = mapped (ram st) cr3"
    and "walk (ram st') cr3 = walk (ram st) cr3" and "in_huge (ram st') cr3 = in_huge (ram st) cr3"
    and "tables_of (ram st') cr3 = tables_of (ram st) cr3"
    and "img cr3 st' w = (let k = unat (take_bit 12 w) in
      if vpn w = vpn v \<and> off \<le> k \<and> k < off + length bs then Some (bs ! (k - off)) else img cr3 st w)"
proof -
  note b = user_invD(2) [OF inv m, unfolded backs_def] and i = user_invD(1) [OF inv]
  have touch: "touched_only {p} (ram st) (ram st')" using wr_bytes_page(1) [of p off bs] b len by (simp add: touched_only_def st')
  have pm: "pmm_inv (frames st')" "free_set (frames st') \<subseteq> free_set (frames st)" using pt_invD(1) [OF i] by (simp_all add: st')
  have T: "{p} \<inter> tables_of (ram st) cr3 = {}" using b by simp
  note V = pt_untouched_views [OF i touch T pm]
  show mm: "mapped (ram st') cr3 = mapped (ram st) cr3" and "walk (ram st') cr3 = walk (ram st) cr3"
    "in_huge (ram st') cr3 = in_huge (ram st) cr3" "tables_of (ram st') cr3 = tables_of (ram st) cr3"
    using V by auto
  have "backs cr3 st' w q" if "mapped (ram st) cr3 w = Some q" for w q
    using user_invD(2) [OF inv that] V pm by (auto simp: backs_def)
  then show "user_inv cr3 st'"
    using pt_untouched(1) [OF i touch T pm] user_invD(3) [OF inv] unfolding user_inv_def mm by blast
  show "img cr3 st' w = (let k = unat (take_bit 12 w) in
      if vpn w = vpn v \<and> off \<le> k \<and> k < off + length bs then Some (bs ! (k - off)) else img cr3 st w)"
  proof (cases "vpn w = vpn v")
    case True
    then have "mapped (ram st) cr3 w = Some p" using m mapped_vpn [OF True] by simp
    then show ?thesis using wr_bytes_page(2) [of p off bs "ram st" w] b len True
      by (simp add: img_def V(3) Let_def) (simp add: st')
  next
    case False
    have "mapped (ram st) cr3 w \<noteq> Some p" using False user_invD(3) [OF inv m] by metis
    then have "page_base (q OR take_bit 12 w) \<noteq> p" if "mapped (ram st) cr3 w = Some q" for q
      using user_invD(2) [OF inv that] that by (auto simp: backs_def page_base_offset)
    then show ?thesis using False touch by (cases "mapped (ram st) cr3 w") (auto simp: img_def V(3) touched_only_def)
  qed
qed

text \<open>A frame taken from the allocator and mapped; \<open>st\<close> is the state after the allocation.\<close>

lemma user_map:
  assumes inv: "user_inv cr3 st" and nh: "\<not> in_huge (ram st) cr3 v" and free: "3 \<le> card (free_set (frames st))"
    and p: "page_aligned p" "p < 0x80000000" "unat p div PAGE_SIZE \<notin> free_set (frames st)" "p \<notin> tables_of (ram st) cr3"
    and new: "\<And>w. mapped (ram st) cr3 w \<noteq> Some p" and fl: "unat flags < 4096"
  obtains st' where "map_user_page cr3 v p flags st = (Inr (), st')" and "user_inv cr3 st'"
    and "\<And>w. mapped (ram st') cr3 w = (if vpn w = vpn v then Some p else mapped (ram st) cr3 w)"
    and "\<And>w. img cr3 st' w = (if vpn w = vpn v then Some (ram st (p OR take_bit 12 w)) else img cr3 st w)"
    and "\<And>w. walk (ram st') cr3 w = (if vpn w = vpn v then Some (p OR take_bit 12 w, bit flags 1, True) else walk (ram st) cr3 w)"
    and "in_huge (ram st') cr3 = in_huge (ram st) cr3" and "free_set (frames st') \<subseteq> free_set (frames st)"
    and "card (free_set (frames st)) \<le> card (free_set (frames st')) + 3"
    and "tables_of (ram st') cr3 \<subseteq> tables_of (ram st) cr3 \<union> {t. unat t div PAGE_SIZE \<in> free_set (frames st)}"
    and "touched_only (tables_of (ram st') cr3) (ram st) (ram st')"
proof -
  have "unat p < 2 ^ 52" using p(2) by (simp add: word_less_nat_alt)
  then obtain st' where run: "map_user_page cr3 v p flags st = (Inr (), st')" and i: "pt_inv cr3 st'"
    and m: "\<And>w. mapped (ram st') cr3 w = (if vpn w = vpn v then Some p else mapped (ram st) cr3 w)"
    and wk: "\<And>w. walk (ram st') cr3 w =
       (if vpn w = vpn v then Some (p OR take_bit 12 w, bit flags 1, True) else walk (ram st) cr3 w)"
    and touch: "touched_only (tables_of (ram st') cr3) (ram st) (ram st')"
    and fs: "free_set (frames st') \<subseteq> free_set (frames st)" "card (free_set (frames st)) \<le> card (free_set (frames st')) + 3"
    and hg: "\<And>w. in_huge (ram st') cr3 w = in_huge (ram st) cr3 w"
    and tabs: "tables_of (ram st') cr3 \<subseteq> tables_of (ram st) cr3 \<union> {t. unat t div PAGE_SIZE \<in> free_set (frames st)}"
    by (rule map_user_page_effect [OF user_invD(1) [OF inv] nh free p(1) _ fl]) blast
  have b: "backs cr3 st' w q" if "mapped (ram st') cr3 w = Some q" for w q
  proof (cases "vpn w = vpn v")
    case True
    then show ?thesis using that m wk p fs tabs by (auto simp: backs_def)
  next
    case False
    with that m have "mapped (ram st) cr3 w = Some q" by simp
    from user_invD(2) [OF inv this] show ?thesis using False wk fs tabs by (auto simp: backs_def)
  qed
  moreover have "vpn w = vpn w'" if "mapped (ram st') cr3 w = Some q" "mapped (ram st') cr3 w' = Some q" for w w' q
    using that m new user_invD(3) [OF inv, of w q w'] by (auto split: if_splits)
  ultimately have inv': "user_inv cr3 st'" using i unfolding user_inv_def by blast
  have img': "img cr3 st' w = (if vpn w = vpn v then Some (ram st (p OR take_bit 12 w)) else img cr3 st w)" for w
  proof (cases "mapped (ram st') cr3 w")
    case None
    then show ?thesis using m [of w] by (auto simp: img_def split: if_splits)
  next
    case (Some q)
    then have "ram st' (q OR take_bit 12 w) = ram st (q OR take_bit 12 w)"
      using touch b [OF Some] by (simp add: backs_def touched_only_def page_base_offset)
    moreover have "vpn w \<noteq> vpn v \<Longrightarrow> mapped (ram st) cr3 w = Some q" "vpn w = vpn v \<Longrightarrow> q = p"
      using m [of w] Some by simp_all
    ultimately show ?thesis using Some by (cases "vpn w = vpn v") (simp_all add: img_def)
  qed
  show ?thesis using that [OF run inv' m img' wk _ fs tabs touch] hg by blast
qed

section \<open>Steps\<close>

text \<open>
  A kernel operation as the process sees it: the bytes change by \<open>u\<close>, at most \<open>k\<close> frames are
  consumed, and the address space stays well-formed. Addresses are those of the lower half.
\<close>

definition user_step :: "u64 \<Rightarrow> (nat \<Rightarrow> u8 option \<Rightarrow> u8 option) \<Rightarrow> nat \<Rightarrow> mm \<Rightarrow> mm \<Rightarrow> bool" where
  "user_step cr3 u k st st' \<longleftrightarrow> user_inv cr3 st' \<and> in_huge (ram st') cr3 = in_huge (ram st) cr3 \<and>
     (\<forall>w. unat w < 2 ^ 48 \<longrightarrow> img cr3 st' w = u (unat w) (img cr3 st w)) \<and>
     free_set (frames st') \<subseteq> free_set (frames st) \<and> card (free_set (frames st)) \<le> card (free_set (frames st')) + k"

lemma user_step_trans:
  "user_step cr3 u k st st1 \<Longrightarrow> user_step cr3 u' k' st1 st2 \<Longrightarrow> user_step cr3 (\<lambda>w. u' w \<circ> u w) (k + k') st st2"
  unfolding user_step_def by fastforce

lemma user_step_mono:
  "user_step cr3 u k st st' \<Longrightarrow> k \<le> k' \<Longrightarrow> (\<And>w b. w < 2 ^ 48 \<Longrightarrow> u w b = u' w b) \<Longrightarrow> user_step cr3 u' k' st st'"
  unfolding user_step_def by fastforce

lemma vpn_low:
  assumes "unat v < 2 ^ 48" and "unat w < 2 ^ 48"
  shows "vpn v = vpn w \<longleftrightarrow> unat v div 4096 = unat w div 4096"
proof -
  have u: "unat (vpn x) = unat x div 4096" if "unat x < 2 ^ 48" for x
  proof -
    have "unat (drop_bit 12 x) = unat x div 4096" by (simp add: drop_bit_eq_div unat_div)
    moreover have "unat x div 4096 < 2 ^ 36" using that by (simp add: div_less_iff_less_mult)
    ultimately show ?thesis by (simp add: vpn_def unsigned_take_bit_eq take_bit_nat_eq_self)
  qed
  show ?thesis using u [OF assms(1)] u [OF assms(2)] by (metis word_unat_eq_iff)
qed

lemma offset_low: "unat (take_bit 12 (w :: u64)) = unat w mod 4096"
  by (simp add: take_bit_eq_mod unat_mod)

text \<open>A frame fresh from the allocator.\<close>

lemma user_alloc:
  assumes inv: "user_inv cr3 st" and al: "alloc_page (frames st) = (Some a, s)" and st1: "st1 = st\<lparr>frames := s\<rparr>"
  shows "user_inv cr3 st1" and "page_aligned (of_nat a)" and "(of_nat a :: u64) < 0x80000000" and "unat (of_nat a :: u64) = a"
    and "a div PAGE_SIZE \<notin> free_set (frames st1)" and "of_nat a \<notin> tables_of (ram st1) cr3"
    and "mapped (ram st1) cr3 w \<noteq> Some (of_nat a)" and "img cr3 st1 = img cr3 st"
    and "free_set (frames st1) \<subseteq> free_set (frames st)" and "card (free_set (frames st)) = card (free_set (frames st1)) + 1"
proof -
  note i = user_invD(1) [OF inv]
  note fr = alloc_frame [OF pt_invD(1) [OF i] al]
  show "page_aligned (of_nat a)" "(of_nat a :: u64) < 0x80000000" "unat (of_nat a :: u64) = a" by (fact fr)+
  have pm: "pmm_inv (frames st1)" "free_set (frames st1) \<subseteq> free_set (frames st)" using fr by (auto simp: st1)
  have t: "touched_only {} (ram st) (ram st1)" by (simp add: touched_only_def st1)
  note U = user_untouched [OF inv t _ _ pm]
  show "user_inv cr3 st1" "img cr3 st1 = img cr3 st" using U(1,3) by simp_all
  show "a div PAGE_SIZE \<notin> free_set (frames st1)" using fr by (simp add: st1)
  show "of_nat a \<notin> tables_of (ram st1) cr3" using tables_not_free [OF i, of "of_nat a"] fr(3,4) by (auto simp: st1)
  show "mapped (ram st1) cr3 w \<noteq> Some (of_nat a)"
    using user_invD(2) [OF inv, of w "of_nat a"] fr(3,4) by (auto simp: st1 backs_def)
  show "free_set (frames st1) \<subseteq> free_set (frames st)" by (fact pm(2))
  show "card (free_set (frames st)) = card (free_set (frames st1)) + 1"
    using card_Suc_Diff1 [OF finite_free_set fr(4)] fr(5) by (simp add: st1)
qed

lemma alloc_page_some:
  assumes "user_inv cr3 st" and "free_set (frames st) \<noteq> {}"
  obtains a s where "alloc_page (frames st) = (Some a, s)"
  using alloc_expect_ok [OF pt_invD(1) [OF user_invD(1) [OF assms(1)]] assms(2)] by metis

text \<open>A frame that is mapped as it is, with whatever it holds (the pages of the stack).\<close>

lemma user_map_step:
  assumes inv: "user_inv cr3 st" and nh: "\<not> in_huge (ram st) cr3 v" and free: "4 \<le> card (free_set (frames st))"
    and fl: "unat flags < 4096" and v: "unat v < 2 ^ 48" and al: "alloc_page (frames st) = (Some a, s)"
  obtains st' where "map_user_page cr3 v (of_nat a) flags (st\<lparr>frames := s\<rparr>) = (Inr (), st')"
    and "user_step cr3 (\<lambda>w b. if w div 4096 = unat v div 4096 then Some (ram st (of_nat a OR take_bit 12 (of_nat w))) else b) 4 st st'"
    and "mapped (ram st') cr3 v = Some (of_nat a)" and "of_nat a < (0x80000000 :: u64)" and "unat (of_nat a :: u64) = a"
    and "\<And>w. vpn w = vpn v \<Longrightarrow> walk (ram st') cr3 w = Some (of_nat a OR take_bit 12 w, bit flags 1, True)"
    and "\<And>w. vpn w \<noteq> vpn v \<Longrightarrow> walk (ram st') cr3 w = walk (ram st) cr3 w"
proof -
  define st1 where "st1 = st\<lparr>frames := s\<rparr>"
  have r: "ram st1 = ram st" by (simp add: st1_def)
  note A = user_alloc [OF inv al st1_def]
  have c: "3 \<le> card (free_set (frames st1))" using A(10) free by simp
  have "\<not> in_huge (ram st1) cr3 v" "unat (of_nat a :: u64) div PAGE_SIZE \<notin> free_set (frames st1)" using nh A(4,5) by (simp_all add: r)
  then obtain st' where run: "map_user_page cr3 v (of_nat a) flags st1 = (Inr (), st')" and u: "user_inv cr3 st'"
    and m: "\<And>w. mapped (ram st') cr3 w = (if vpn w = vpn v then Some (of_nat a) else mapped (ram st1) cr3 w)"
    and im: "\<And>w. img cr3 st' w = (if vpn w = vpn v then Some (ram st1 (of_nat a OR take_bit 12 w)) else img cr3 st1 w)"
    and wk: "\<And>w. walk (ram st') cr3 w = (if vpn w = vpn v then Some (of_nat a OR take_bit 12 w, bit flags 1, True) else walk (ram st1) cr3 w)"
    and hg: "in_huge (ram st') cr3 = in_huge (ram st1) cr3" and fs: "free_set (frames st') \<subseteq> free_set (frames st1)"
    and cd: "card (free_set (frames st1)) \<le> card (free_set (frames st')) + 3"
    by (rule user_map [OF A(1) _ c A(2,3) _ A(6) A(7) fl]) blast
  have "card (free_set (frames st)) \<le> card (free_set (frames st')) + 4" using cd A(10) by linarith
  then have "user_step cr3 (\<lambda>w b. if w div 4096 = unat v div 4096 then Some (ram st (of_nat a OR take_bit 12 (of_nat w))) else b) 4 st st'"
    unfolding user_step_def using u hg fs A(8,9) im v by (simp add: vpn_low r)
  then show ?thesis using that [of st'] run A(3,4) m wk by (simp add: r st1_def)
qed

lemma user_write_step:
  assumes "user_inv cr3 st" and "mapped (ram st) cr3 v = Some p" and "off + length bs \<le> 4096" and "unat v < 2 ^ 48"
  shows "user_step cr3 (\<lambda>w b. if w div 4096 = unat v div 4096 \<and> off \<le> w mod 4096 \<and> w mod 4096 < off + length bs
      then Some (bs ! (w mod 4096 - off)) else b) 0 st (st\<lparr>ram := wr_bytes (p + of_nat off) bs (ram st)\<rparr>)"
  using user_write [OF assms(1-3) refl] assms(4) by (simp add: user_step_def vpn_low Let_def offset_low)

lemma zero_page_bytes: "zero_page p m = wr_bytes p (replicate 4096 0) m"
  by (auto simp: zero_page_def fill_bytes_def wr_bytes_def)

lemma user_clear_step:
  assumes "user_inv cr3 st" and "mapped (ram st) cr3 v = Some p" and "unat v < 2 ^ 48"
  shows "user_step cr3 (\<lambda>w b. if w div 4096 = unat v div 4096 then Some 0 else b) 0 st (st\<lparr>ram := zero_page p (ram st)\<rparr>)"
  using user_write_step [OF assms(1,2), of 0 "replicate 4096 0", OF _ assms(3)]
  by (auto simp: zero_page_bytes elim!: user_step_mono)



lemma page_base_unat: "unat (page_base x) = unat x div 4096 * 4096"
proof -
  have "page_base x = x - take_bit 12 x" using page_split [of x] by (metis add_diff_cancel_right')
  moreover have "take_bit 12 x \<le> x" by (simp add: word_le_nat_alt offset_low)
  ultimately show ?thesis by (simp add: unat_sub offset_low minus_mod_eq_div_mult)
qed

end
