(* ===== verification/Elf.thy ===== *)
theory Elf
  imports UserMem
begin

text \<open>
  Executables: the ELF structures of ross-kernel/src/elf.rs and the part of \<^verbatim>\<open>spawn_process\<close>
  (ross-kernel/src/task.rs) that builds the address space of a program from its file.
\<close>

section \<open>The file format\<close>

record ElfHeader =
  eh_magic :: "u8 list"
  eh_class :: u8
  eh_data :: u8
  eh_version :: u8
  eh_os_abi :: u8
  eh_abi_version :: u8
  eh_pad :: "u8 list"
  e_type :: u16
  e_machine :: u16
  e_version :: u32
  e_entry :: u64
  e_phoff :: u64
  e_shoff :: u64
  e_flags :: u32
  e_ehsize :: u16
  e_phentsize :: u16
  e_phnum :: u16
  e_shentsize :: u16
  e_shnum :: u16
  e_shstrndx :: u16

record ProgramHeader =
  p_type :: u32
  p_flags :: u32
  p_offset :: u64
  p_vaddr :: u64
  p_paddr :: u64
  p_filesz :: u64
  p_memsz :: u64
  p_align :: u64

definition PT_LOAD :: u32 where "PT_LOAD = 1"

text \<open>
  The structures are read through raw pointers into the buffer of the file, without a check of its length: a read past its end is
  undefined behaviour, an outcome of its own here, after which nothing is known.
\<close>

definition undefined_behaviour :: exn where
  "undefined_behaviour = Panic ''undefined behaviour: read past the end of a buffer''"

definition raw_bytes :: "nat \<Rightarrow> nat \<Rightarrow> u8 list \<Rightarrow> u8 list res" where
  "raw_bytes off n data = (if off + n \<le> length data then Inr (subslice off n data) else Inl undefined_behaviour)"

definition word_at :: "nat \<Rightarrow> nat \<Rightarrow> u8 list \<Rightarrow> 'a::len word" where
  "word_at off n b = le_word (subslice off n b)"

definition elf_header :: "u8 list \<Rightarrow> ElfHeader res" where
  "elf_header data = bindR (raw_bytes 0 64 data) (\<lambda>b. Inr
     \<lparr>eh_magic = subslice 0 4 b, eh_class = b ! 4, eh_data = b ! 5, eh_version = b ! 6, eh_os_abi = b ! 7,
      eh_abi_version = b ! 8, eh_pad = subslice 9 7 b, e_type = word_at 16 2 b, e_machine = word_at 18 2 b,
      e_version = word_at 20 4 b, e_entry = word_at 24 8 b, e_phoff = word_at 32 8 b, e_shoff = word_at 40 8 b,
      e_flags = word_at 48 4 b, e_ehsize = word_at 52 2 b, e_phentsize = word_at 54 2 b, e_phnum = word_at 56 2 b,
      e_shentsize = word_at 58 2 b, e_shnum = word_at 60 2 b, e_shstrndx = word_at 62 2 b\<rparr>)"

definition is_valid :: "ElfHeader \<Rightarrow> bool" where
  "is_valid h \<longleftrightarrow> eh_magic h = [0x7F, 0x45, 0x4C, 0x46] \<and> eh_class h = 2"

text \<open>Element \<open>i\<close> of the slice \<^verbatim>\<open>program_headers\<close> returns; the size of an element is 56 whatever \<^verbatim>\<open>e_phentsize\<close> says.\<close>

definition program_header :: "u8 list \<Rightarrow> ElfHeader \<Rightarrow> nat \<Rightarrow> ProgramHeader res" where
  "program_header data h i = bindR (raw_bytes (unat (e_phoff h) + i * 56) 56 data) (\<lambda>b. Inr
     \<lparr>p_type = word_at 0 4 b, p_flags = word_at 4 4 b, p_offset = word_at 8 8 b, p_vaddr = word_at 16 8 b,
      p_paddr = word_at 24 8 b, p_filesz = word_at 32 8 b, p_memsz = word_at 40 8 b, p_align = word_at 48 8 b\<rparr>)"

section \<open>Loading segments\<close>

text \<open>\<^verbatim>\<open>pmm::alloc_page().ok_or(())?\<close>.\<close>

definition alloc_or_err :: "(mm, usize) op" where
  "alloc_or_err = (\<lambda>st. case alloc_page (frames st) of
       (None, s) \<Rightarrow> (Inl (Err ''''), st\<lparr>frames := s\<rparr>)
     | (Some a, s) \<Rightarrow> (Inr a, st\<lparr>frames := s\<rparr>))"

definition write_ram :: "u64 \<Rightarrow> u8 list \<Rightarrow> (mm, unit) op" where
  "write_ram a bs = (\<lambda>st. (Inr (), st\<lparr>ram := wr_bytes a bs (ram st)\<rparr>))"

text \<open>\<^verbatim>\<open>while cur < hi { body(cur); cur += 4096; }\<close>.\<close>

function pagesS :: "u64 \<Rightarrow> u64 \<Rightarrow> (u64 \<Rightarrow> ('s, unit) op) \<Rightarrow> ('s, unit) op" where
  "pagesS cur hi body =
     (if cur < hi then
        bindS (body cur) (\<lambda>_.
          if unat cur + 4096 < 2 ^ 64 then pagesS (cur + 4096) hi body
          else throwS (Panic ''attempt to add with overflow''))
      else retS ())"
  by pat_completeness auto
termination
  by (relation "measure (\<lambda>(cur, hi, _). unat hi - unat cur)")
    (auto simp: word_less_nat_alt unat_word_ariths)

declare pagesS.simps [simp del]

definition segment_flags :: "ProgramHeader \<Rightarrow> u64" where
  "segment_flags ph = 0x1 OR 0x4 OR (if p_flags ph AND 0x2 \<noteq> 0 then 0x2 else 0)"

text \<open>The frame behind a page: the one an earlier segment mapped, or a new one, cleared.\<close>

definition page_for :: "ProgramHeader \<Rightarrow> u64 \<Rightarrow> u64 \<Rightarrow> (mm, u64) op" where
  "page_for ph cr3 current_page =
     bindS (lookup_page cr3 current_page) (\<lambda>found.
     case found of
       Some phys \<Rightarrow> table_at phys
     | None \<Rightarrow>
         bindS alloc_or_err (\<lambda>phys.
         bindS (table_at phys) (\<lambda>page_ptr.
         bindS (map_user_page cr3 current_page (of_nat phys) (segment_flags ph)) (\<lambda>_.
         bindS (clear_table page_ptr) (\<lambda>_.
         retS page_ptr)))))"

definition copy_part :: "u8 list \<Rightarrow> ProgramHeader \<Rightarrow> u64 \<Rightarrow> u64 \<Rightarrow> (mm, unit) op" where
  "copy_part data ph current_page page_ptr =
     (let start_vaddr = p_vaddr ph; file_size = unat (p_filesz ph);
          page_offset = (if current_page < start_vaddr then unat (start_vaddr - current_page) else 0);
          vaddr_in_page = (if current_page < start_vaddr then start_vaddr else current_page);
          file_offset_for_page = unat (vaddr_in_page - start_vaddr) in
      if file_offset_for_page < file_size then
        let bytes_to_copy = min (file_size - file_offset_for_page) (4096 - page_offset) in
        bindS (liftS (usize_add (unat (p_offset ph)) file_offset_for_page)) (\<lambda>src.
        bindS (liftS (raw_bytes src bytes_to_copy data)) (\<lambda>bytes.
        write_ram (page_ptr + of_nat page_offset) bytes))
      else retS ())"

definition load_page :: "u8 list \<Rightarrow> ProgramHeader \<Rightarrow> u64 \<Rightarrow> u64 \<Rightarrow> (mm, unit) op" where
  "load_page data ph cr3 current_page = bindS (page_for ph cr3 current_page) (copy_part data ph current_page)"

definition load_segment :: "u8 list \<Rightarrow> u64 \<Rightarrow> ProgramHeader \<Rightarrow> u64 \<Rightarrow> (mm, u64) op" where
  "load_segment data cr3 ph heap_end =
     (if p_type ph = PT_LOAD then
        bindS (liftS (add64 (p_vaddr ph) (p_memsz ph))) (\<lambda>e.
        bindS (liftS (add64 e 4095)) (\<lambda>e'.
        let page_start = page_base (p_vaddr ph); page_end = page_base e' in
        bindS (pagesS page_start page_end (load_page data ph cr3)) (\<lambda>_.
        retS (if heap_end < page_end then page_end else heap_end))))
      else retS heap_end)"

primrec load_segments :: "u8 list \<Rightarrow> ElfHeader \<Rightarrow> u64 \<Rightarrow> nat list \<Rightarrow> u64 \<Rightarrow> (mm, u64) op" where
  "load_segments data h cr3 [] heap_end = retS heap_end"
| "load_segments data h cr3 (i # rest) heap_end =
     bindS (liftS (program_header data h i)) (\<lambda>ph.
     bindS (load_segment data cr3 ph heap_end) (\<lambda>heap_end'.
     load_segments data h cr3 rest heap_end'))"

definition STACK_VADDR :: u64 where "STACK_VADDR = 0x500000"
definition STACK_PAGES :: nat where "STACK_PAGES = 8"

definition map_stack :: "u64 \<Rightarrow> (mm, u64) op" where
  "map_stack cr3 =
     bindS (forS [0 ..< STACK_PAGES] (\<lambda>i.
       bindS alloc_or_err (\<lambda>phys.
       map_user_page cr3 (STACK_VADDR + of_nat i * 4096) (of_nat phys) (0x2 OR 0x4)))) (\<lambda>_.
     retS ((STACK_VADDR + of_nat STACK_PAGES * 4096) AND NOT 0xF))"

text \<open>From the file to the address space: its root, the entry point, the stack and the break.\<close>

record image =
  img_cr3 :: u64
  img_entry :: u64
  img_stack_top :: u64
  img_heap_end :: u64

definition load_image :: "kernel_tables \<Rightarrow> u8 list \<Rightarrow> (mm, image) op" where
  "load_image kt data =
     bindS (liftS (elf_header data)) (\<lambda>h.
     if \<not> is_valid h then throwS (Err '''')
     else bindS (create_user_address_space kt) (\<lambda>cr3.
       bindS (load_segments data h cr3 [0 ..< unat (e_phnum h)] 0) (\<lambda>heap_end.
       bindS (map_stack cr3) (\<lambda>stack_top.
       retS \<lparr>img_cr3 = cr3, img_entry = e_entry h, img_stack_top = stack_top, img_heap_end = heap_end\<rparr>))))"

section \<open>One page\<close>

abbreviation or0 :: "u8 option \<Rightarrow> u8" where
  "or0 b \<equiv> (case b of None \<Rightarrow> 0 | Some x \<Rightarrow> x)"

text \<open>The byte of the file that belongs at an address, and what a segment makes of the bytes of some pages.\<close>

definition in_file :: "ProgramHeader \<Rightarrow> nat \<Rightarrow> bool" where
  "in_file ph w \<longleftrightarrow> unat (p_vaddr ph) \<le> w \<and> w < unat (p_vaddr ph) + unat (p_filesz ph)"

definition file_byte :: "u8 list \<Rightarrow> ProgramHeader \<Rightarrow> nat \<Rightarrow> u8" where
  "file_byte data ph w = data ! (unat (p_offset ph) + (w - unat (p_vaddr ph)))"

definition seg_upd :: "u8 list \<Rightarrow> ProgramHeader \<Rightarrow> nat set \<Rightarrow> nat \<Rightarrow> u8 option \<Rightarrow> u8 option" where
  "seg_upd data ph pages w b =
     (if w div 4096 \<in> pages then Some (if in_file ph w then file_byte data ph w else or0 b) else b)"

lemma segment_flags_small: "unat (segment_flags ph) < 4096"
  by (simp add: segment_flags_def)

lemma img_mapped: "img cr3 st v = None \<longleftrightarrow> mapped (ram st) cr3 v = None"
  by (simp add: img_def)

lemma page_for_ok:
  assumes inv: "user_inv cr3 st" and nh: "\<not> in_huge (ram st) cr3 v" and free: "4 \<le> card (free_set (frames st))" and v: "unat v < 2 ^ 48"
  shows "okS (page_for ph cr3 v) st (\<lambda>p st'. mapped (ram st') cr3 v = Some p \<and>
    user_step cr3 (\<lambda>w b. if w div 4096 = unat v div 4096 then Some (or0 b) else b) 4 st st')"
proof (cases "mapped (ram st) cr3 v")
  case (Some p)
  have m: "mapped (ram st) cr3 w = Some p" if "unat w < 2 ^ 48" "unat w div 4096 = unat v div 4096" for w
    using Some mapped_vpn [of w v] vpn_low [OF that(1) v] that(2) by metis
  have "user_step cr3 (\<lambda>w b. if w div 4096 = unat v div 4096 then Some (or0 b) else b) 4 st st"
    using inv m by (auto simp: user_step_def img_def)
  moreover have "p < 0x80000000" using user_invD(2) [OF inv Some] by (simp add: backs_def)
  ultimately show ?thesis
    using Some by (intro okS_I [of _ _ p st]) (simp_all add: page_for_def bindS_def lookup_page_mapped [OF user_invD(1) [OF inv]] table_at_ok)
next
  case None
  have "free_set (frames st) \<noteq> {}" using free by auto
  from alloc_page_some [OF inv this] obtain a s where al: "alloc_page (frames st) = (Some a, s)" .
  obtain st1 where run: "map_user_page cr3 v (of_nat a) (segment_flags ph) (st\<lparr>frames := s\<rparr>) = (Inr (), st1)"
    and s1: "user_step cr3 (\<lambda>w b. if w div 4096 = unat v div 4096 then Some (ram st (of_nat a OR take_bit 12 (of_nat w))) else b) 4 st st1"
    and m1: "mapped (ram st1) cr3 v = Some (of_nat a)" and a: "of_nat a < (0x80000000 :: u64)" "unat (of_nat a :: u64) = a"
    by (rule user_map_step [OF inv nh free segment_flags_small v al]) blast
  have inv1: "user_inv cr3 st1" using s1 by (simp add: user_step_def)
  let ?st' = "st1\<lparr>ram := zero_page (of_nat a) (ram st1)\<rparr>"
  have s2: "user_step cr3 (\<lambda>w b. if w div 4096 = unat v div 4096 then Some 0 else b) 0 st1 ?st'"
    by (rule user_clear_step [OF inv1 m1 v])
  have none: "img cr3 st w = None" if "unat w < 2 ^ 48" "unat w div 4096 = unat v div 4096" for w
    using None mapped_vpn [of w v] vpn_low [OF that(1) v] that(2) by (metis img_mapped)
  have "user_step cr3 (\<lambda>w b. if w div 4096 = unat v div 4096 then Some (or0 b) else b) 4 st ?st'"
    using user_step_trans [OF s1 s2] none by (auto simp: user_step_def)
  moreover have "mapped (ram ?st') cr3 v = Some (of_nat a)"
    using user_write(2) [OF inv1 m1, of 0 "replicate 4096 0" ?st'] m1 by (simp add: zero_page_bytes)
  moreover have "page_for ph cr3 v st = (Inr (of_nat a), ?st')"
    using None run table_at_ok [OF a(1)] al
    by (simp add: page_for_def bindS_def lookup_page_mapped [OF user_invD(1) [OF inv]] alloc_or_err_def a(2) clear_table_def)
  ultimately show ?thesis by (intro okS_I conjI)
qed

text \<open>Where the part of a page starts and how long it is, as numbers.\<close>

lemma part_range:
  fixes V F c k :: nat
  assumes "V < c + 4096" and "k < 4096"
  defines "off \<equiv> if c < V then V - c else 0"
  defines "fo \<equiv> (if c < V then V else c) - V"
  shows "fo < F \<Longrightarrow> off + min (F - fo) (4096 - off) \<le> 4096"
    and "fo < F \<Longrightarrow> off \<le> k \<and> k < off + min (F - fo) (4096 - off) \<longleftrightarrow> V \<le> c + k \<and> c + k < V + F"
    and "fo < F \<Longrightarrow> off \<le> k \<Longrightarrow> fo + (k - off) = c + k - V"
    and "\<not> fo < F \<Longrightarrow> \<not> (V \<le> c + k \<and> c + k < V + F)"
  using assms(1,2) by (auto simp: off_def fo_def min_def split: if_splits)

lemma copy_part_ok:
  assumes inv: "user_inv cr3 st" and m: "mapped (ram st) cr3 v = Some p" and v: "unat v < 2 ^ 48" "unat v mod 4096 = 0"
    and V: "unat (p_vaddr ph) < unat v + 4096"
    and fits: "unat (p_offset ph) + unat (p_filesz ph) \<le> length data" "length data < usize_bound"
  shows "okS (copy_part data ph v p) st (\<lambda>_ st'. user_step cr3 (\<lambda>w b.
    if w div 4096 = unat v div 4096 \<and> in_file ph w then Some (file_byte data ph w) else b) 0 st st')"
proof -
  let ?V = "unat (p_vaddr ph)" and ?F = "unat (p_filesz ph)" and ?c = "unat v"
  define off where "off = (if ?c < ?V then ?V - ?c else 0)"
  define fo where "fo = (if ?c < ?V then ?V else ?c) - ?V"
  define n where "n = min (?F - fo) (4096 - off)"
  note R = part_range [OF V, where F = ?F, folded off_def fo_def, folded n_def]
  have ge: "fo + ?V = (if ?c < ?V then ?V else ?c)" by (auto simp: fo_def)
  have off': "(if v < p_vaddr ph then unat (p_vaddr ph - v) else 0) = off"
    by (simp add: off_def word_less_nat_alt unat_sub word_le_nat_alt)
  have fo': "unat ((if v < p_vaddr ph then p_vaddr ph else v) - p_vaddr ph) = fo"
    by (simp add: fo_def word_less_nat_alt unat_sub word_le_nat_alt)
  have w: "w = ?c + w mod 4096" if "w div 4096 = ?c div 4096" for w
    using that v(2) div_mult_mod_eq [of w 4096] div_mult_mod_eq [of ?c 4096] by simp
  show ?thesis
  proof (cases "fo < ?F")
    case True
    have n: "off + n \<le> 4096" using R(1) [of 0] True by simp
    have src: "unat (p_offset ph) + fo + n \<le> length data" using fits(1) True by (simp add: n_def)
    then have add: "usize_add (unat (p_offset ph)) fo = Inr (unat (p_offset ph) + fo)" using fits(2) by simp
    define bs where "bs = subslice (unat (p_offset ph) + fo) n data"
    have lb: "length bs = n" using src by (simp add: bs_def)
    have nth: "bs ! j = data ! (unat (p_offset ph) + (fo + j))" if "j < n" for j
      using that src by (simp add: bs_def add.assoc)
    have raw: "raw_bytes (unat (p_offset ph) + fo) n data = Inr bs" using src by (simp add: raw_bytes_def bs_def)
    have run: "copy_part data ph v p st = (Inr (), st\<lparr>ram := wr_bytes (p + of_nat off) bs (ram st)\<rparr>)"
      using True by (simp add: copy_part_def off' fo' Let_def bindS_def add raw write_ram_def n_def [symmetric])
    have eq: "(if w div 4096 = ?c div 4096 \<and> off \<le> w mod 4096 \<and> w mod 4096 < off + length bs
        then Some (bs ! (w mod 4096 - off)) else b) =
      (if w div 4096 = ?c div 4096 \<and> in_file ph w then Some (file_byte data ph w) else b)" for w b
    proof (cases "w div 4096 = ?c div 4096")
      case same: True
      have k: "w mod 4096 < 4096" by simp
      have iff: "off \<le> w mod 4096 \<and> w mod 4096 < off + n \<longleftrightarrow> in_file ph w"
        using R(2) [OF k True] w [OF same] by (simp add: in_file_def)
      have "bs ! (w mod 4096 - off) = file_byte data ph w" if "off \<le> w mod 4096" "w mod 4096 < off + n"
        using nth [of "w mod 4096 - off"] R(3) [OF k True that(1)] that w [OF same] by (simp add: file_byte_def)
      then show ?thesis using same iff lb by auto
    qed simp
    have le: "off + length bs \<le> 4096" using n lb by simp
    from user_write_step [OF inv m le v(1)] have "user_step cr3 (\<lambda>w b.
        if w div 4096 = ?c div 4096 \<and> in_file ph w then Some (file_byte data ph w) else b) 0 st
        (st\<lparr>ram := wr_bytes (p + of_nat off) bs (ram st)\<rparr>)" unfolding eq .
    with run show ?thesis by (intro okS_I)
  next
    case False
    have "\<not> in_file ph w" if "w div 4096 = ?c div 4096" for w
      using R(4) [of "w mod 4096"] False w [OF that] by (simp add: in_file_def)
    then have "user_step cr3 (\<lambda>w b. if w div 4096 = ?c div 4096 \<and> in_file ph w then Some (file_byte data ph w) else b) 0 st st"
      using inv by (auto simp: user_step_def)
    moreover have "copy_part data ph v p st = (Inr (), st)"
      using False by (simp add: copy_part_def off' fo' Let_def)
    ultimately show ?thesis by (intro okS_I)
  qed
qed

lemma load_page_ok:
  assumes "user_inv cr3 st" and "\<not> in_huge (ram st) cr3 v" and "4 \<le> card (free_set (frames st))"
    and "unat v < 2 ^ 48" "unat v mod 4096 = 0" and "unat (p_vaddr ph) < unat v + 4096"
    and "unat (p_offset ph) + unat (p_filesz ph) \<le> length data" "length data < usize_bound"
  shows "okS (load_page data ph cr3 v) st (\<lambda>_ st'. user_step cr3 (seg_upd data ph {unat v div 4096}) 4 st st')"
proof -
  have "okS (copy_part data ph v p) st1 (\<lambda>_ st'. user_step cr3 (seg_upd data ph {unat v div 4096}) 4 st st')"
    if p: "mapped (ram st1) cr3 v = Some p"
      and s1: "user_step cr3 (\<lambda>w b. if w div 4096 = unat v div 4096 then Some (or0 b) else b) 4 st st1" for p st1
  proof -
    have "user_inv cr3 st1" using s1 by (simp add: user_step_def)
    from copy_part_ok [OF this p assms(4-8)] show ?thesis
    proof (rule okS_mono)
      fix st' assume "user_step cr3 (\<lambda>w b. if w div 4096 = unat v div 4096 \<and> in_file ph w then Some (file_byte data ph w) else b) 0 st1 st'"
      from user_step_trans [OF s1 this] show "user_step cr3 (seg_upd data ph {unat v div 4096}) 4 st st'"
        by (rule user_step_mono) (auto simp: seg_upd_def)
    qed
  qed
  then show ?thesis unfolding load_page_def okS_bind by (intro okS_mono [OF page_for_ok [OF assms(1-4)]]) blast
qed

section \<open>A segment\<close>

lemma pagesS_rule:
  assumes "unat hi = unat lo + n * 4096" and "I 0 s"
    and step: "\<And>i s. i < n \<Longrightarrow> I i s \<Longrightarrow> okS (body (lo + of_nat i * 4096)) s (\<lambda>_ s'. I (Suc i) s')"
  shows "okS (pagesS lo hi body) s (\<lambda>_ s'. I n s')"
proof -
  have bnd: "unat lo + n * 4096 < 2 ^ 64" using assms(1) unat_lt_64 [of hi] by simp
  have u: "unat (lo + of_nat k * 4096) = unat lo + k * 4096" if "k \<le> n" for k
    using that bnd by (simp add: unat_word_ariths unat_of_nat)
  have "okS (pagesS (lo + of_nat k * 4096) hi body) s (\<lambda>_ s'. I n s')" if "I k s" "k \<le> n" for k s
    using that
  proof (induction "n - k" arbitrary: k s)
    case 0
    then show ?case by (subst pagesS.simps) (simp add: word_less_nat_alt u assms(1) ok_simps)
  next
    case (Suc m)
    then have k: "k < n" "m = n - Suc k" by auto
    have nx: "lo + of_nat k * 4096 + 4096 = lo + of_nat (Suc k) * 4096" by (simp add: distrib_right)
    have "unat lo + k * 4096 + 4096 \<le> unat lo + n * 4096" using k(1) by simp
    then have "unat (lo + of_nat k * 4096) + 4096 < 2 ^ 64" using u [of k] k(1) bnd by simp
    then show ?case
      using k(1) Suc.hyps(1) [OF k(2)] step [OF k(1) Suc.prems(1)]
      by (subst pagesS.simps) (auto simp: word_less_nat_alt u assms(1) okS_bind nx simp del: of_nat_Suc elim!: okS_mono)
  qed
  from this [of 0 s] assms(2) show ?thesis by simp
qed

lemma seg_upd_Suc:
  "seg_upd data ph {n} w (seg_upd data ph N w b) = seg_upd data ph (insert n N) w b"
  by (auto simp: seg_upd_def)

definition seg_pages :: "ProgramHeader \<Rightarrow> nat set" where
  "seg_pages ph = {unat (p_vaddr ph) div 4096 ..< (unat (p_vaddr ph) + unat (p_memsz ph) + 4095) div 4096}"

definition seg_end :: "ProgramHeader \<Rightarrow> nat" where
  "seg_end ph = (unat (p_vaddr ph) + unat (p_memsz ph) + 4095) div 4096 * 4096"

definition seg_ok :: "u8 list \<Rightarrow> ProgramHeader \<Rightarrow> bool" where
  "seg_ok data ph \<longleftrightarrow> p_type ph = PT_LOAD \<and> unat (p_offset ph) + unat (p_filesz ph) \<le> length data \<and>
     p_filesz ph \<le> p_memsz ph \<and> 0x400000 \<le> unat (p_vaddr ph) \<and> unat (p_vaddr ph) + unat (p_memsz ph) \<le> 0x500000"

lemma load_segment_ok:
  assumes inv: "user_inv cr3 st" and nh: "\<And>v. 0x400000 \<le> unat v \<Longrightarrow> unat v < 0x600000 \<Longrightarrow> \<not> in_huge (ram st) cr3 v"
    and free: "4 * card (seg_pages ph) \<le> card (free_set (frames st))" and ok: "seg_ok data ph" and len: "length data < usize_bound"
  shows "okS (load_segment data cr3 ph he) st (\<lambda>he' st'.
    user_step cr3 (seg_upd data ph (seg_pages ph)) (4 * card (seg_pages ph)) st st' \<and>
    unat he' = max (unat he) (seg_end ph))"
proof -
  let ?V = "unat (p_vaddr ph)" and ?M = "unat (p_memsz ph)"
  let ?lo = "page_base (p_vaddr ph)" and ?e = "p_vaddr ph + p_memsz ph + 4095"
  let ?p0 = "?V div 4096" and ?p1 = "(?V + ?M + 4095) div 4096"
  define n where "n = ?p1 - ?p0"
  note so = ok [unfolded seg_ok_def]
  have e: "unat (p_vaddr ph + p_memsz ph) = ?V + ?M" "unat ?e = ?V + ?M + 4095"
    using so by (simp_all add: unat_word_ariths)
  have pp: "?p0 \<le> ?p1" by (rule div_le_mono) simp
  have lo: "unat ?lo = ?p0 * 4096" and hi: "unat (page_base ?e) = ?p1 * 4096" by (simp_all add: page_base_unat e)
  have cnt: "unat (page_base ?e) = unat ?lo + n * 4096" unfolding lo hi n_def using pp by (simp add: diff_mult_distrib)
  have card: "card (seg_pages ph) = n" by (simp add: seg_pages_def n_def)
  have pb: "?p1 \<le> 0x500" "0x400 \<le> ?p0" using so by (simp_all add: div_le_mono less_eq_div_iff_mult_less_eq) linarith
  let ?I = "\<lambda>i st'. user_step cr3 (seg_upd data ph {?p0 ..< ?p0 + i}) (4 * i) st st'"
  have step: "okS (load_page data ph cr3 (?lo + of_nat i * 4096)) s (\<lambda>_ s'. ?I (Suc i) s')" if i: "i < n" and I: "?I i s" for i s
  proof -
    let ?v = "?lo + of_nat i * 4096"
    have b: "?p0 + i < 0x500" using i pb by (simp add: n_def)
    then have v: "unat ?v = (?p0 + i) * 4096" by (simp add: unat_word_ariths unat_of_nat lo distrib_right)
    have "unat ?v < 0x600000" "0x400000 \<le> unat ?v" unfolding v using b pb(2) by (simp_all add: distrib_right)
    note vb = this
    have i': "user_inv cr3 s" "\<not> in_huge (ram s) cr3 ?v" using I nh [OF vb(2,1)] by (simp_all add: user_step_def)
    have "4 * n \<le> card (free_set (frames s)) + 4 * i" using I free card by (auto simp: user_step_def)
    then have fr: "4 \<le> card (free_set (frames s))" using i by linarith
    have v0: "unat ?v < 2 ^ 48" "unat ?v mod 4096 = 0" "unat ?v div 4096 = ?p0 + i" using vb(1) by (simp_all add: v)
    have V: "?V < unat ?v + 4096" unfolding v using div_mult_mod_eq [of ?V 4096] by (simp add: distrib_right)
    have "unat (p_offset ph) + unat (p_filesz ph) \<le> length data" using so by simp
    from load_page_ok [OF i' fr v0(1,2) V this len] show ?thesis
    proof (rule okS_mono)
      fix s' assume "user_step cr3 (seg_upd data ph {unat ?v div 4096}) 4 s s'"
      from user_step_trans [OF I this] show "?I (Suc i) s'"
        by (rule user_step_mono) (simp_all add: v0(3) seg_upd_Suc atLeastLessThanSuc insert_absorb)
    qed
  qed
  have "?I 0 st" using inv by (simp add: user_step_def seg_upd_def)
  from pagesS_rule [where I = ?I, OF cnt this step]
  have "okS (pagesS ?lo (page_base ?e) (load_page data ph cr3)) st (\<lambda>_ st'. ?I n st')" by blast
  moreover have "seg_pages ph = {?p0 ..< ?p0 + n}" using pp by (simp add: seg_pages_def n_def)
  moreover have "add64 (p_vaddr ph) (p_memsz ph) = Inr (p_vaddr ph + p_memsz ph)" "add64 (p_vaddr ph + p_memsz ph) 4095 = Inr ?e"
    using so e by (simp_all add: add64_def)
  ultimately show ?thesis
    using so card hi by (simp add: load_segment_def okS_bind okS_lift okS_ret Let_def word_less_nat_alt max_def seg_end_def)
qed

section \<open>All segments\<close>

text \<open>
  The reference for the loader: the byte at an address is the file byte of the last segment that has
  one there, or what was there before, or zero; the pages of all segments are present.
\<close>

definition covered :: "ProgramHeader list \<Rightarrow> nat \<Rightarrow> bool" where
  "covered phs w \<longleftrightarrow> (\<exists>ph \<in> set phs. w div 4096 \<in> seg_pages ph)"

definition image_byte :: "u8 list \<Rightarrow> ProgramHeader list \<Rightarrow> nat \<Rightarrow> u8 \<Rightarrow> u8" where
  "image_byte data phs w = fold (\<lambda>ph x. if in_file ph w then file_byte data ph w else x) phs"

definition image_upd :: "u8 list \<Rightarrow> ProgramHeader list \<Rightarrow> nat \<Rightarrow> u8 option \<Rightarrow> u8 option" where
  "image_upd data phs w b = (if covered phs w then Some (image_byte data phs w (or0 b)) else b)"

text \<open>Four frames for a page are always enough: its own and three tables.\<close>

primrec frames_for :: "ProgramHeader list \<Rightarrow> nat" where
  "frames_for [] = 0"
| "frames_for (ph # phs) = 4 * card (seg_pages ph) + frames_for phs"

lemma in_file_page:
  assumes "seg_ok data ph" and "in_file ph w"
  shows "w div 4096 \<in> seg_pages ph"
proof -
  have "unat (p_filesz ph) \<le> unat (p_memsz ph)" using assms(1) by (simp add: seg_ok_def word_le_nat_alt)
  then have "Suc w \<le> unat (p_vaddr ph) + unat (p_memsz ph)" "unat (p_vaddr ph) \<le> w" using assms(2) by (auto simp: in_file_def)
  then have "(w + 4096) div 4096 \<le> (unat (p_vaddr ph) + unat (p_memsz ph) + 4095) div 4096" "unat (p_vaddr ph) div 4096 \<le> w div 4096"
    by (intro div_le_mono; simp)+
  then show ?thesis by (simp add: seg_pages_def)
qed

lemma image_byte_uncovered:
  assumes "\<forall>ph \<in> set phs. seg_ok data ph" and "\<not> covered phs w"
  shows "image_byte data phs w x = x"
proof -
  have "\<not> in_file ph w" if "ph \<in> set phs" for ph using in_file_page [of data] that assms unfolding covered_def by blast
  then show ?thesis by (induction phs arbitrary: x) (simp_all add: image_byte_def)
qed

lemma image_upd_Cons:
  assumes "\<forall>p \<in> set (ph # phs). seg_ok data p"
  shows "image_upd data phs w (seg_upd data ph (seg_pages ph) w b) = image_upd data (ph # phs) w b"
proof (cases "covered phs w")
  case True
  then show ?thesis
    using in_file_page [of data ph w] assms by (auto simp: image_upd_def seg_upd_def covered_def image_byte_def)
next
  case False
  then show ?thesis
    using image_byte_uncovered [of phs data w] assms
    by (auto simp: image_upd_def seg_upd_def covered_def image_byte_def)
qed

lemma load_segments_ok:
  assumes "list_all2 (\<lambda>i ph. program_header data h i = Inr ph) is phs"
    and "user_inv cr3 st" and "\<And>v. 0x400000 \<le> unat v \<Longrightarrow> unat v < 0x600000 \<Longrightarrow> \<not> in_huge (ram st) cr3 v"
    and "\<forall>ph \<in> set phs. p_type ph = PT_LOAD \<longrightarrow> seg_ok data ph" and "length data < usize_bound"
    and "loads = filter (\<lambda>ph. p_type ph = PT_LOAD) phs"
    and "frames_for loads \<le> card (free_set (frames st))"
  shows "okS (load_segments data h cr3 is he) st (\<lambda>he' st'.
    user_step cr3 (image_upd data loads) (frames_for loads) st st' \<and>
    unat he' = fold max (map seg_end loads) (unat he))"
  using assms
proof (induction arbitrary: st he loads)
  case Nil
  then show ?case by (simp add: ok_simps user_step_def image_upd_def covered_def)
next
  case (Cons i "is" ph phs)
  show ?case
  proof (cases "p_type ph = PT_LOAD")
    case False
    have "okS (load_segment data cr3 ph he) st (\<lambda>he' st'. he' = he \<and> st' = st)"
      using False by (simp add: load_segment_def ok_simps)
    moreover have "loads = filter (\<lambda>ph. p_type ph = PT_LOAD) phs" using Cons.prems False by simp
    ultimately show ?thesis
      using Cons.hyps(1) Cons.IH [OF Cons.prems(1,2) _ Cons.prems(4) _ Cons.prems(6), of he] Cons.prems(3)
      by (simp add: okS_bind okS_lift) (auto elim!: okS_mono)
  next
    case True
    define rest where "rest = filter (\<lambda>ph. p_type ph = PT_LOAD) phs"
    have l: "loads = ph # rest" using Cons.prems(5) True by (simp add: rest_def)
    have ok: "seg_ok data ph" "\<forall>p \<in> set (ph # rest). seg_ok data p" using Cons.prems(3) True by (auto simp: rest_def)
    have c: "4 * card (seg_pages ph) \<le> card (free_set (frames st))" using Cons.prems(6) l by simp
    have "okS (load_segments data h cr3 is he1) st1 (\<lambda>he' st'.
        user_step cr3 (image_upd data loads) (frames_for loads) st st' \<and>
        unat he' = fold max (map seg_end loads) (unat he))"
      if s1: "user_step cr3 (seg_upd data ph (seg_pages ph)) (4 * card (seg_pages ph)) st st1"
        and h1: "unat he1 = max (unat he) (seg_end ph)" for he1 st1
    proof -
      have i1: "user_inv cr3 st1" and g1: "in_huge (ram st1) cr3 = in_huge (ram st) cr3"
        and c1: "card (free_set (frames st)) \<le> card (free_set (frames st1)) + 4 * card (seg_pages ph)"
        using s1 by (simp_all add: user_step_def)
      have "frames_for rest \<le> card (free_set (frames st1))" using c1 Cons.prems(6) l by simp
      from Cons.IH [OF i1 _ _ Cons.prems(4) rest_def this, of he1]
      have "okS (load_segments data h cr3 is he1) st1 (\<lambda>he' st'.
        user_step cr3 (image_upd data rest) (frames_for rest) st1 st' \<and>
        unat he' = fold max (map seg_end rest) (unat he1))" using Cons.prems(2,3) by (simp add: g1)
      then show ?thesis
      proof (rule okS_mono)
        fix he' st' assume a: "user_step cr3 (image_upd data rest) (frames_for rest) st1 st' \<and>
          unat he' = fold max (map seg_end rest) (unat he1)"
        then have "user_step cr3 (image_upd data loads) (frames_for loads) st st'"
          using user_step_trans [OF s1 conjunct1 [OF a]] unfolding l
          by (elim user_step_mono) (simp_all add: image_upd_Cons [OF ok(2)])
        then show "user_step cr3 (image_upd data loads) (frames_for loads) st st' \<and>
          unat he' = fold max (map seg_end loads) (unat he)" using a h1 l by (simp add: max.commute)
      qed
    qed
    then show ?thesis
      using Cons.hyps(1) load_segment_ok [OF Cons.prems(1) Cons.prems(2) c ok(1) Cons.prems(4), of he]
      by (simp add: okS_bind okS_lift) (auto elim!: okS_mono)
  qed
qed

section \<open>The stack\<close>

text \<open>The pages of the stack are mapped writable; their contents are what the frames held before.\<close>

lemma map_stack_ok:
  assumes inv: "user_inv cr3 st" and nh: "\<And>v. 0x400000 \<le> unat v \<Longrightarrow> unat v < 0x600000 \<Longrightarrow> \<not> in_huge (ram st) cr3 v"
    and free: "32 \<le> card (free_set (frames st))"
  shows "okS (map_stack cr3) st (\<lambda>top st'. top = 0x508000 \<and> user_inv cr3 st' \<and>
    (\<forall>w. unat w < 2 ^ 48 \<longrightarrow> unat w div 4096 \<notin> {0x500 ..< 0x508} \<longrightarrow> img cr3 st' w = img cr3 st w) \<and>
    (\<forall>w. 0x500000 \<le> unat w \<longrightarrow> unat w < 0x508000 \<longrightarrow> (\<exists>p. walk (ram st') cr3 w = Some (p, True, True))))"
proof -
  let ?I = "\<lambda>i st'. user_inv cr3 st' \<and> in_huge (ram st') cr3 = in_huge (ram st) cr3 \<and>
    card (free_set (frames st)) \<le> card (free_set (frames st')) + 4 * i \<and>
    (\<forall>w. unat w < 2 ^ 48 \<longrightarrow> unat w div 4096 \<notin> {0x500 ..< 0x500 + i} \<longrightarrow> img cr3 st' w = img cr3 st w) \<and>
    (\<forall>w. unat w < 2 ^ 48 \<longrightarrow> unat w div 4096 \<in> {0x500 ..< 0x500 + i} \<longrightarrow> (\<exists>p. walk (ram st') cr3 w = Some (p, True, True)))"
  have step: "okS (bindS alloc_or_err (\<lambda>phys. map_user_page cr3 (STACK_VADDR + of_nat i * 4096) (of_nat phys) (0x2 OR 0x4))) s
      (\<lambda>_ s'. ?I (Suc i) s')" if i: "i < 8" and I: "?I i s" for i s
  proof -
    let ?v = "STACK_VADDR + of_nat i * 4096"
    have v: "unat ?v = (0x500 + i) * 4096" using i by (simp add: STACK_VADDR_def unat_word_ariths unat_of_nat)
    then have vb: "unat ?v < 2 ^ 48" "unat ?v div 4096 = 0x500 + i" "\<not> in_huge (ram s) cr3 ?v"
      using i nh [of ?v] I by simp_all
    have c: "4 \<le> card (free_set (frames s))" using I i free by linarith
    have iv: "user_inv cr3 s" using I by blast
    obtain a s1 where al: "alloc_page (frames s) = (Some a, s1)" using alloc_page_some [OF iv] c by fastforce
    have fl: "unat (0x2 OR 0x4 :: u64) < 4096" by simp
    obtain s' where run: "map_user_page cr3 ?v (of_nat a) (0x2 OR 0x4) (s\<lparr>frames := s1\<rparr>) = (Inr (), s')"
      and st: "user_step cr3 (\<lambda>w b. if w div 4096 = unat ?v div 4096 then Some (ram s (of_nat a OR take_bit 12 (of_nat w))) else b) 4 s s'"
      and wk: "\<And>w. vpn w = vpn ?v \<Longrightarrow> walk (ram s') cr3 w = Some (of_nat a OR take_bit 12 w, bit (0x2 OR 0x4 :: u64) 1, True)"
        "\<And>w. vpn w \<noteq> vpn ?v \<Longrightarrow> walk (ram s') cr3 w = walk (ram s) cr3 w"
      by (rule user_map_step [OF iv vb(3) c fl vb(1) al]) blast
    have "?I (Suc i) s'"
    proof (intro conjI allI impI)
      show "user_inv cr3 s'" "in_huge (ram s') cr3 = in_huge (ram st) cr3" using st I by (simp_all add: user_step_def)
      show "card (free_set (frames st)) \<le> card (free_set (frames s')) + 4 * Suc i" using st I by (simp add: user_step_def)
      fix w :: u64 assume w: "unat w < 2 ^ 48"
      show "img cr3 s' w = img cr3 st w" if "unat w div 4096 \<notin> {0x500 ..< 0x500 + Suc i}"
      proof -
        have "unat w div 4096 \<noteq> unat ?v div 4096" "unat w div 4096 \<notin> {0x500 ..< 0x500 + i}" using that vb(2) by auto
        then have "img cr3 s' w = img cr3 s w" "img cr3 s w = img cr3 st w" using st I w by (simp_all add: user_step_def)
        then show ?thesis by simp
      qed
      show "\<exists>p. walk (ram s') cr3 w = Some (p, True, True)" if "unat w div 4096 \<in> {0x500 ..< 0x500 + Suc i}"
      proof (cases "unat w div 4096 = 0x500 + i")
        case True
        then show ?thesis using wk(1) [of w] vpn_low [OF w vb(1)] vb(2) by simp
      next
        case False
        then have "unat w div 4096 \<in> {0x500 ..< 0x500 + i}" "vpn w \<noteq> vpn ?v" using that vpn_low [OF w vb(1)] vb(2) by auto
        then show ?thesis using wk(2) I w by auto
      qed
    qed
    moreover have "bindS alloc_or_err (\<lambda>phys. map_user_page cr3 ?v (of_nat phys) (0x2 OR 0x4)) s = (Inr (), s')"
      using run al by (simp add: bindS_def alloc_or_err_def)
    ultimately show ?thesis by (intro okS_I)
  qed
  have "?I 0 st" using inv by simp
  from forS_rule [where I = ?I, OF this step]
  have "okS (forS [0 ..< STACK_PAGES] (\<lambda>i. bindS alloc_or_err (\<lambda>phys. map_user_page cr3 (STACK_VADDR + of_nat i * 4096) (of_nat phys) (0x2 OR 0x4)))) st
      (\<lambda>_ st'. ?I 8 st')" unfolding STACK_PAGES_def by blast
  moreover have "unat w < 2 ^ 48 \<and> unat w div 4096 \<in> {0x500 ..< 0x500 + 8}" if "0x500000 \<le> unat w" "unat w < 0x508000" for w :: u64
    using that by (simp add: div_less_iff_less_mult less_eq_div_iff_mult_less_eq)
  ultimately show ?thesis
    unfolding map_stack_def okS_bind okS_ret
    by (auto simp: STACK_VADDR_def STACK_PAGES_def elim!: okS_mono)
qed

section \<open>The address space of a program\<close>

lemma new_space_user:
  assumes "pmm_inv (frames st)" and "6 \<le> card (free_set (frames st))" and "kt_ok kt"
    and "kernel_half kt (ram st)" and "\<forall>t \<in> set (kt_list kt). unat t div PAGE_SIZE \<notin> free_set (frames st)"
  shows "okS (create_user_address_space kt) st (\<lambda>cr3 st'. user_inv cr3 st' \<and> (\<forall>v. img cr3 st' v = None) \<and>
    (\<forall>v. 0x400000 \<le> unat v \<longrightarrow> unat v < 0x600000 \<longrightarrow> \<not> in_huge (ram st') cr3 v) \<and>
    card (free_set (frames st)) \<le> card (free_set (frames st')) + 6)"
proof -
  obtain cr3 st' where run: "create_user_address_space kt st = (Inr cr3, st')" and i: "pt_inv cr3 st'"
    and l: "\<And>v. fst (lookup_page cr3 v st') = Inr None"
    and w: "\<And>v. v < 0x100000000 \<Longrightarrow> walk (ram st') cr3 v = (if 0x400000 \<le> v \<and> v < 0x600000 then None else Some (v, True, False))"
    and c: "card (free_set (frames st)) \<le> card (free_set (frames st')) + 6"
    using create_user_address_space_ok [OF assms] by blast
  have m: "mapped (ram st') cr3 v = None" for v using l [of v] by (simp add: lookup_page_mapped [OF i])
  have "\<not> in_huge (ram st') cr3 v" if "0x400000 \<le> unat v" "unat v < 0x600000" for v
  proof -
    have "walk (ram st') cr3 v = None" using w [of v] that by (simp add: word_less_nat_alt word_le_nat_alt)
    then show ?thesis
      unfolding walk_slots [OF i] in_huge_alt using huge_iff_bit by (auto simp: Let_def split: if_splits)
  qed
  moreover have "user_inv cr3 st'" using i m by (simp add: user_inv_def)
  ultimately show ?thesis using run m c by (intro okS_I conjI allI impI) (simp_all add: img_def)
qed

lemma load_image_ok:
  assumes "pmm_inv (frames st)" and "kt_ok kt" and "kernel_half kt (ram st)"
    and "\<forall>t \<in> set (kt_list kt). unat t div PAGE_SIZE \<notin> free_set (frames st)"
    and "elf_header data = Inr h" and "is_valid h"
    and "list_all2 (\<lambda>i ph. program_header data h i = Inr ph) [0 ..< unat (e_phnum h)] phs"
    and "\<forall>ph \<in> set phs. p_type ph = PT_LOAD \<longrightarrow> seg_ok data ph" and "length data < usize_bound"
    and "loads = filter (\<lambda>ph. p_type ph = PT_LOAD) phs" and "frames_for loads + 38 \<le> card (free_set (frames st))"
  shows "\<exists>im st'. load_image kt data st = (Inr im, st') \<and> user_inv (img_cr3 im) st' \<and>
    img_entry im = e_entry h \<and> img_stack_top im = 0x508000 \<and> unat (img_heap_end im) = fold max (map seg_end loads) 0 \<and>
    (\<forall>w. unat w < 0x500000 \<longrightarrow>
      (if covered loads (unat w)
       then \<exists>p wr. walk (ram st') (img_cr3 im) w = Some (p, wr, True) \<and> ram st' p = image_byte data loads (unat w) 0
       else fst (lookup_page (img_cr3 im) w st') = Inr None)) \<and>
    (\<forall>w. 0x500000 \<le> unat w \<and> unat w < 0x508000 \<longrightarrow> (\<exists>p. walk (ram st') (img_cr3 im) w = Some (p, True, True)))"
proof -
  have "6 \<le> card (free_set (frames st))" using assms(11) by simp
  from new_space_user [OF assms(1) this assms(2-4)] obtain cr3 st1 where
    1: "create_user_address_space kt st = (Inr cr3, st1)" "user_inv cr3 st1" "\<And>v. img cr3 st1 v = None"
      "\<And>v. 0x400000 \<le> unat v \<Longrightarrow> unat v < 0x600000 \<Longrightarrow> \<not> in_huge (ram st1) cr3 v"
      "card (free_set (frames st)) \<le> card (free_set (frames st1)) + 6"
    by (rule okS_E) auto
  have "frames_for loads \<le> card (free_set (frames st1))" using 1(5) assms(11) by linarith
  from load_segments_ok [OF assms(7) 1(2) _ assms(8-10) this, of 0] 1(4) obtain he st2 where
    2: "load_segments data h cr3 [0 ..< unat (e_phnum h)] 0 st1 = (Inr he, st2)"
      "user_step cr3 (image_upd data loads) (frames_for loads) st1 st2" "unat he = fold max (map seg_end loads) 0"
    by (auto elim!: okS_E)
  have u2: "user_inv cr3 st2" "\<And>v. 0x400000 \<le> unat v \<Longrightarrow> unat v < 0x600000 \<Longrightarrow> \<not> in_huge (ram st2) cr3 v"
    and "card (free_set (frames st1)) \<le> card (free_set (frames st2)) + frames_for loads"
    and im2: "\<And>w. unat w < 2 ^ 48 \<Longrightarrow> img cr3 st2 w = image_upd data loads (unat w) None"
    using 2(2) 1(3,4) by (simp_all add: user_step_def)
  then have "32 \<le> card (free_set (frames st2))" using 1(5) assms(11) by linarith
  from map_stack_ok [OF u2 this] obtain st3 where
    3: "map_stack cr3 st2 = (Inr 0x508000, st3)" "user_inv cr3 st3"
      "\<And>w. unat w < 2 ^ 48 \<Longrightarrow> unat w div 4096 \<notin> {0x500 ..< 0x508} \<Longrightarrow> img cr3 st3 w = img cr3 st2 w"
      "\<And>w. 0x500000 \<le> unat w \<Longrightarrow> unat w < 0x508000 \<Longrightarrow> \<exists>p. walk (ram st3) cr3 w = Some (p, True, True)"
    by (auto elim!: okS_E)
  let ?im = "\<lparr>img_cr3 = cr3, img_entry = e_entry h, img_stack_top = 0x508000, img_heap_end = he\<rparr>"
  have run: "load_image kt data st = (Inr ?im, st3)"
    using assms(5,6) 1(1) 2(1) 3(1) by (simp add: load_image_def bindS_def)
  have low: "if covered loads (unat w)
      then \<exists>p wr. walk (ram st3) cr3 w = Some (p, wr, True) \<and> ram st3 p = image_byte data loads (unat w) 0
      else fst (lookup_page cr3 w st3) = Inr None" if "unat w < 0x500000" for w
  proof -
    have "unat w < 2 ^ 48" "unat w div 4096 \<notin> {0x500 ..< 0x508}" using that by (simp_all add: less_eq_div_iff_mult_less_eq)
    then have i: "img cr3 st3 w = (if covered loads (unat w) then Some (image_byte data loads (unat w) 0) else None)"
      using 3(3) im2 by (simp add: image_upd_def)
    show ?thesis
    proof (cases "covered loads (unat w)")
      case True
      with i have "img cr3 st3 w = Some (image_byte data loads (unat w) 0)" by simp
      from img_walk [OF 3(2) this] True show ?thesis by metis
    next
      case False
      with i have "mapped (ram st3) cr3 w = None" by (simp add: img_mapped)
      with False show ?thesis by (simp add: lookup_page_mapped [OF user_invD(1) [OF 3(2)]])
    qed
  qed
  show ?thesis
  proof (intro exI [of _ ?im] exI [of _ st3] conjI allI impI)
    fix w :: u64 assume "unat w < 0x500000"
    from low [OF this] show "if covered loads (unat w)
      then \<exists>p wr. walk (ram st3) (img_cr3 ?im) w = Some (p, wr, True) \<and> ram st3 p = image_byte data loads (unat w) 0
      else fst (lookup_page (img_cr3 ?im) w st3) = Inr None" by (simp only: image.select_convs)
  qed (use run 3(2,4) 2(3) in simp_all)
qed


text \<open>A program of one instruction, \<^verbatim>\<open>jmp $\<close>, and a machine with 64 usable pages.\<close>

definition demo_elf :: "u8 list" where
  "demo_elf = [0x7F, 0x45, 0x4C, 0x46, 2, 1, 1, 0, 0, 0, 0, 0, 0, 0, 0, 0, 2, 0, 0x3E, 0, 1, 0, 0, 0,
     0, 0, 0x40, 0, 0, 0, 0, 0, 64, 0, 0, 0, 0, 0, 0, 0, 0, 0, 0, 0, 0, 0, 0, 0, 0, 0, 0, 0, 64, 0, 56, 0, 1, 0, 0, 0, 0, 0, 0, 0,
     1, 0, 0, 0, 5, 0, 0, 0, 120, 0, 0, 0, 0, 0, 0, 0, 0, 0, 0x40, 0, 0, 0, 0, 0, 0, 0, 0x40, 0, 0, 0, 0, 0,
     2, 0, 0, 0, 0, 0, 0, 0, 2, 0, 0, 0, 0, 0, 0, 0, 0, 0x10, 0, 0, 0, 0, 0, 0, 0xEB, 0xFE]"

definition demo_phdr :: ProgramHeader where
  "demo_phdr = \<lparr>p_type = 1, p_flags = 5, p_offset = 120, p_vaddr = 0x400000, p_paddr = 0x400000, p_filesz = 2, p_memsz = 2, p_align = 0x1000\<rparr>"

lemma demo_elf_header: "\<exists>h. elf_header demo_elf = Inr h \<and> is_valid h \<and> e_phnum h = 1 \<and> e_phoff h = 64 \<and> e_entry h = 0x400000"
  by (simp add: elf_header_def raw_bytes_def demo_elf_def subslice_def word_at_def is_valid_def)

lemma demo_program_header: "e_phoff h = 64 \<Longrightarrow> program_header demo_elf h 0 = Inr demo_phdr"
  by (simp add: program_header_def raw_bytes_def demo_elf_def subslice_def word_at_def demo_phdr_def)

definition demo64 :: PmmState where
  "demo64 = pmm_init (Some [\<lparr>mr_base = 0, mr_size = 0x40000, mr_kind = Usable\<rparr>]) pmm_new"

lemma demo64_boot: "pmm_inv demo64" "free_set demo64 = {..<64}"
  by (auto simp: demo64_def pmm_init_inv pmm_inv_new pmm_init_new region_pages_def PAGE_SIZE_def MAX_PAGES_def BITMAP_BYTES_def)

lemma demo64_kernel:
  obtains s :: mm where "pmm_inv (frames s)" and "kernel_half demo_kt (ram s)"
    and "\<forall>t \<in> set (kt_list demo_kt). unat t div PAGE_SIZE \<notin> free_set (frames s)" and "card (free_set (frames s)) = 64"
proof -
  let ?st = "\<lparr>frames = demo64, ram = (\<lambda>_. 0)\<rparr>"
  obtain m where kh: "kernel_half demo_kt m"
    by (rule paging_init_mem [OF demo_kt_ok, of ?st]) (simp_all add: rd64_zero)
  show thesis
    by (rule that [of "\<lparr>frames = demo64, ram = m\<rparr>"])
      (use kh in \<open>simp_all add: demo64_boot kt_list_def demo_kt_def pd_table_def PAGE_SIZE_def\<close>)
qed

lemma demo_seg: "seg_ok demo_elf demo_phdr" "seg_pages demo_phdr = {0x400}" "in_file demo_phdr 0x400001"
  "file_byte demo_elf demo_phdr 0x400001 = 0xFE" "p_type demo_phdr = PT_LOAD"
  by (auto simp: seg_ok_def demo_phdr_def PT_LOAD_def demo_elf_def seg_pages_def in_file_def file_byte_def)


end
