(* ===== verification/Writer.thy ===== *)
theory Writer
  imports Prelude
begin

text \<open>
  Text on the framebuffer (ross-kernel/src/writer.rs) with the font of ross-common/src/font.rs. The framebuffer is
  a function from pixel indices to colours, also beyond its end, so that the bounds of the writes are a theorem.
\<close>

section \<open>The font\<close>

definition FONT_BASIC :: "u8 list list" where
  "FONT_BASIC =
    [[0x00, 0x00, 0x00, 0x00, 0x00, 0x00, 0x00, 0x00], [0x00, 0x00, 0x00, 0x00, 0x00, 0x00, 0x00, 0x00],
     [0x00, 0x00, 0x00, 0x00, 0x00, 0x00, 0x00, 0x00], [0x00, 0x00, 0x00, 0x00, 0x00, 0x00, 0x00, 0x00],
     [0x00, 0x00, 0x00, 0x00, 0x00, 0x00, 0x00, 0x00], [0x00, 0x00, 0x00, 0x00, 0x00, 0x00, 0x00, 0x00],
     [0x00, 0x00, 0x00, 0x00, 0x00, 0x00, 0x00, 0x00], [0x00, 0x00, 0x00, 0x00, 0x00, 0x00, 0x00, 0x00],
     [0x00, 0x00, 0x00, 0x00, 0x00, 0x00, 0x00, 0x00], [0x00, 0x00, 0x00, 0x00, 0x00, 0x00, 0x00, 0x00],
     [0x00, 0x00, 0x00, 0x00, 0x00, 0x00, 0x00, 0x00], [0x00, 0x00, 0x00, 0x00, 0x00, 0x00, 0x00, 0x00],
     [0x00, 0x00, 0x00, 0x00, 0x00, 0x00, 0x00, 0x00], [0x00, 0x00, 0x00, 0x00, 0x00, 0x00, 0x00, 0x00],
     [0x00, 0x00, 0x00, 0x00, 0x00, 0x00, 0x00, 0x00], [0x00, 0x00, 0x00, 0x00, 0x00, 0x00, 0x00, 0x00],
     [0x00, 0x00, 0x00, 0x00, 0x00, 0x00, 0x00, 0x00], [0x00, 0x00, 0x00, 0x00, 0x00, 0x00, 0x00, 0x00],
     [0x00, 0x00, 0x00, 0x00, 0x00, 0x00, 0x00, 0x00], [0x00, 0x00, 0x00, 0x00, 0x00, 0x00, 0x00, 0x00],
     [0x00, 0x00, 0x00, 0x00, 0x00, 0x00, 0x00, 0x00], [0x00, 0x00, 0x00, 0x00, 0x00, 0x00, 0x00, 0x00],
     [0x00, 0x00, 0x00, 0x00, 0x00, 0x00, 0x00, 0x00], [0x00, 0x00, 0x00, 0x00, 0x00, 0x00, 0x00, 0x00],
     [0x00, 0x00, 0x00, 0x00, 0x00, 0x00, 0x00, 0x00], [0x00, 0x00, 0x00, 0x00, 0x00, 0x00, 0x00, 0x00],
     [0x00, 0x00, 0x00, 0x00, 0x00, 0x00, 0x00, 0x00], [0x00, 0x00, 0x00, 0x00, 0x00, 0x00, 0x00, 0x00],
     [0x00, 0x00, 0x00, 0x00, 0x00, 0x00, 0x00, 0x00], [0x00, 0x00, 0x00, 0x00, 0x00, 0x00, 0x00, 0x00],
     [0x00, 0x00, 0x00, 0x00, 0x00, 0x00, 0x00, 0x00], [0x00, 0x00, 0x00, 0x00, 0x00, 0x00, 0x00, 0x00],
     [0x00, 0x00, 0x00, 0x00, 0x00, 0x00, 0x00, 0x00], [0x18, 0x3C, 0x3C, 0x18, 0x18, 0x00, 0x18, 0x00],
     [0x6C, 0x6C, 0x6C, 0x00, 0x00, 0x00, 0x00, 0x00], [0x6C, 0x6C, 0xFE, 0x6C, 0xFE, 0x6C, 0x6C, 0x00],
     [0x18, 0x3E, 0x60, 0x3C, 0x06, 0x7C, 0x18, 0x00], [0x00, 0x6C, 0x6C, 0x10, 0x20, 0x66, 0x66, 0x00],
     [0x38, 0x6C, 0x6C, 0x38, 0x6E, 0x6C, 0x3E, 0x00], [0x18, 0x18, 0x30, 0x00, 0x00, 0x00, 0x00, 0x00],
     [0x0C, 0x18, 0x30, 0x30, 0x30, 0x18, 0x0C, 0x00], [0x30, 0x18, 0x0C, 0x0C, 0x0C, 0x18, 0x30, 0x00],
     [0x00, 0x66, 0x3C, 0xFF, 0x3C, 0x66, 0x00, 0x00], [0x00, 0x18, 0x18, 0x7E, 0x18, 0x18, 0x00, 0x00],
     [0x00, 0x00, 0x00, 0x00, 0x00, 0x18, 0x18, 0x30], [0x00, 0x00, 0x00, 0x7E, 0x00, 0x00, 0x00, 0x00],
     [0x00, 0x00, 0x00, 0x00, 0x00, 0x18, 0x18, 0x00], [0x02, 0x06, 0x0C, 0x18, 0x30, 0x60, 0x40, 0x00],
     [0x3C, 0x66, 0x6E, 0x7E, 0x76, 0x66, 0x3C, 0x00], [0x18, 0x38, 0x18, 0x18, 0x18, 0x18, 0x7E, 0x00],
     [0x3C, 0x66, 0x06, 0x0C, 0x18, 0x30, 0x7E, 0x00], [0x3C, 0x66, 0x06, 0x1C, 0x06, 0x66, 0x3C, 0x00],
     [0x06, 0x0E, 0x1E, 0x36, 0x7E, 0x06, 0x06, 0x00], [0x7E, 0x60, 0x7C, 0x06, 0x06, 0x66, 0x3C, 0x00],
     [0x3C, 0x66, 0x60, 0x7C, 0x66, 0x66, 0x3C, 0x00], [0x7E, 0x06, 0x0C, 0x18, 0x30, 0x30, 0x30, 0x00],
     [0x3C, 0x66, 0x66, 0x3C, 0x66, 0x66, 0x3C, 0x00], [0x3C, 0x66, 0x66, 0x3E, 0x06, 0x66, 0x3C, 0x00],
     [0x00, 0x18, 0x18, 0x00, 0x18, 0x18, 0x00, 0x00], [0x00, 0x18, 0x18, 0x00, 0x18, 0x18, 0x30, 0x00],
     [0x0C, 0x18, 0x30, 0x60, 0x30, 0x18, 0x0C, 0x00], [0x00, 0x00, 0x7E, 0x00, 0x7E, 0x00, 0x00, 0x00],
     [0x30, 0x18, 0x0C, 0x06, 0x0C, 0x18, 0x30, 0x00], [0x3C, 0x66, 0x06, 0x0C, 0x18, 0x00, 0x18, 0x00],
     [0x3C, 0x66, 0x6E, 0x6E, 0x60, 0x62, 0x3C, 0x00], [0x18, 0x3C, 0x66, 0x66, 0x7E, 0x66, 0x66, 0x00],
     [0x7C, 0x66, 0x66, 0x7C, 0x66, 0x66, 0x7C, 0x00], [0x3C, 0x66, 0x60, 0x60, 0x60, 0x66, 0x3C, 0x00],
     [0x78, 0x6C, 0x66, 0x66, 0x66, 0x6C, 0x78, 0x00], [0x7E, 0x60, 0x60, 0x78, 0x60, 0x60, 0x7E, 0x00],
     [0x7E, 0x60, 0x60, 0x78, 0x60, 0x60, 0x60, 0x00], [0x3C, 0x66, 0x60, 0x6E, 0x66, 0x66, 0x3C, 0x00],
     [0x66, 0x66, 0x66, 0x7E, 0x66, 0x66, 0x66, 0x00], [0x3C, 0x18, 0x18, 0x18, 0x18, 0x18, 0x3C, 0x00],
     [0x06, 0x06, 0x06, 0x06, 0x06, 0x66, 0x3C, 0x00], [0x66, 0x6C, 0x78, 0x70, 0x78, 0x6C, 0x66, 0x00],
     [0x60, 0x60, 0x60, 0x60, 0x60, 0x60, 0x7E, 0x00], [0x63, 0x77, 0x7F, 0x6B, 0x63, 0x63, 0x63, 0x00],
     [0x66, 0x76, 0x7E, 0x7E, 0x6E, 0x66, 0x66, 0x00], [0x3C, 0x66, 0x66, 0x66, 0x66, 0x66, 0x3C, 0x00],
     [0x7C, 0x66, 0x66, 0x7C, 0x60, 0x60, 0x60, 0x00], [0x3C, 0x66, 0x66, 0x66, 0x66, 0x3C, 0x0E, 0x00],
     [0x7C, 0x66, 0x66, 0x7C, 0x78, 0x6C, 0x66, 0x00], [0x3C, 0x66, 0x60, 0x3C, 0x06, 0x66, 0x3C, 0x00],
     [0x7E, 0x18, 0x18, 0x18, 0x18, 0x18, 0x18, 0x00], [0x66, 0x66, 0x66, 0x66, 0x66, 0x66, 0x3C, 0x00],
     [0x66, 0x66, 0x66, 0x66, 0x66, 0x3C, 0x18, 0x00], [0x63, 0x63, 0x63, 0x6B, 0x7F, 0x77, 0x63, 0x00],
     [0x66, 0x66, 0x3C, 0x18, 0x3C, 0x66, 0x66, 0x00], [0x66, 0x66, 0x66, 0x3C, 0x18, 0x18, 0x18, 0x00],
     [0x7E, 0x06, 0x0C, 0x18, 0x30, 0x60, 0x7E, 0x00], [0x3C, 0x30, 0x30, 0x30, 0x30, 0x30, 0x3C, 0x00],
     [0x40, 0x60, 0x30, 0x18, 0x0C, 0x06, 0x02, 0x00], [0x3C, 0x0C, 0x0C, 0x0C, 0x0C, 0x0C, 0x3C, 0x00],
     [0x10, 0x38, 0x6C, 0x00, 0x00, 0x00, 0x00, 0x00], [0x00, 0x00, 0x00, 0x00, 0x00, 0x00, 0x00, 0xFF],
     [0x30, 0x30, 0x18, 0x00, 0x00, 0x00, 0x00, 0x00], [0x00, 0x00, 0x3C, 0x06, 0x3E, 0x66, 0x3E, 0x00],
     [0x60, 0x60, 0x7C, 0x66, 0x66, 0x66, 0x7C, 0x00], [0x00, 0x00, 0x3C, 0x60, 0x60, 0x66, 0x3C, 0x00],
     [0x06, 0x06, 0x3E, 0x66, 0x66, 0x66, 0x3E, 0x00], [0x00, 0x00, 0x3C, 0x66, 0x7E, 0x60, 0x3C, 0x00],
     [0x1C, 0x30, 0x78, 0x30, 0x30, 0x30, 0x30, 0x00], [0x00, 0x00, 0x3E, 0x66, 0x66, 0x3E, 0x06, 0x3C],
     [0x60, 0x60, 0x7C, 0x66, 0x66, 0x66, 0x66, 0x00], [0x18, 0x00, 0x38, 0x18, 0x18, 0x18, 0x3C, 0x00],
     [0x06, 0x00, 0x06, 0x06, 0x06, 0x66, 0x3C, 0x00], [0x60, 0x60, 0x66, 0x6C, 0x78, 0x6C, 0x66, 0x00],
     [0x30, 0x30, 0x30, 0x30, 0x30, 0x30, 0x1C, 0x00], [0x00, 0x00, 0x66, 0x7F, 0x7F, 0x6B, 0x63, 0x00],
     [0x00, 0x00, 0x7C, 0x66, 0x66, 0x66, 0x66, 0x00], [0x00, 0x00, 0x3C, 0x66, 0x66, 0x66, 0x3C, 0x00],
     [0x00, 0x00, 0x7C, 0x66, 0x66, 0x7C, 0x60, 0x60], [0x00, 0x00, 0x3E, 0x66, 0x66, 0x3E, 0x06, 0x06],
     [0x00, 0x00, 0x7C, 0x66, 0x60, 0x60, 0x60, 0x00], [0x00, 0x00, 0x3E, 0x60, 0x3C, 0x06, 0x7C, 0x00],
     [0x30, 0x30, 0x78, 0x30, 0x30, 0x30, 0x1C, 0x00], [0x00, 0x00, 0x66, 0x66, 0x66, 0x66, 0x3E, 0x00],
     [0x00, 0x00, 0x66, 0x66, 0x66, 0x3C, 0x18, 0x00], [0x00, 0x00, 0x63, 0x6B, 0x7F, 0x7F, 0x36, 0x00],
     [0x00, 0x00, 0x66, 0x3C, 0x18, 0x3C, 0x66, 0x00], [0x00, 0x00, 0x66, 0x66, 0x66, 0x3E, 0x06, 0x3C],
     [0x00, 0x00, 0x7E, 0x0C, 0x18, 0x30, 0x7E, 0x00], [0x0C, 0x18, 0x18, 0x70, 0x18, 0x18, 0x0C, 0x00],
     [0x18, 0x18, 0x18, 0x00, 0x18, 0x18, 0x18, 0x00], [0x30, 0x18, 0x18, 0x0E, 0x18, 0x18, 0x30, 0x00],
     [0x31, 0x6B, 0x46, 0x00, 0x00, 0x00, 0x00, 0x00], [0x00, 0x00, 0x00, 0x00, 0x00, 0x00, 0x00, 0x00]]"

section \<open>State and operations\<close>

definition BG :: u32 where "BG = 0x00180702"
definition FG :: u32 where "FG = 0x00FFFFFF"
definition DIM :: u32 where "DIM = 0x00999999"
definition ACCENT :: u32 where "ACCENT = 0x0000FF99"
definition RED :: u32 where "RED = 0x004444FF"
definition YELLOW :: u32 where "YELLOW = 0x0000CCFF"
definition LEFT_MARGIN :: usize where "LEFT_MARGIN = 20"

text \<open>\<^verbatim>\<open>shell::TERM_Y\<close>.\<close>

definition TERM_Y :: usize where "TERM_Y = 60"

record Writer =
  wr_framebuffer :: "nat \<Rightarrow> u32"
  wr_w :: usize
  wr_h :: usize
  wr_x :: usize
  wr_y :: usize
  wr_input_x :: usize

text \<open>The screen that \<^verbatim>\<open>BootInfo\<close> describes: contents, width and height.\<close>

definition writer_new :: "(nat \<Rightarrow> u32) \<Rightarrow> usize \<Rightarrow> usize \<Rightarrow> Writer" where
  "writer_new fb screen_width screen_height =
     \<lparr>wr_framebuffer = fb, wr_w = screen_width, wr_h = screen_height, wr_x = LEFT_MARGIN, wr_y = 50, wr_input_x = LEFT_MARGIN\<rparr>"

definition set_pos :: "usize \<Rightarrow> usize \<Rightarrow> (Writer, unit) op" where
  "set_pos x y = modS (\<lambda>wr. wr\<lparr>wr_x := x, wr_y := y\<rparr>)"

text \<open>\<^verbatim>\<open>*self.framebuffer.add(row * self.w + col) = color\<close>.\<close>

definition set_pixel :: "usize \<Rightarrow> usize \<Rightarrow> u32 \<Rightarrow> (Writer, unit) op" where
  "set_pixel row col color = (\<lambda>wr.
     let i = row * wr_w wr + col in
     if i < usize_bound then (Inr (), wr\<lparr>wr_framebuffer := (wr_framebuffer wr)(i := color)\<rparr>)
     else (Inl (Panic ''attempt to multiply with overflow''), wr))"

definition fill_rect :: "usize \<Rightarrow> usize \<Rightarrow> usize \<Rightarrow> usize \<Rightarrow> u32 \<Rightarrow> (Writer, unit) op" where
  "fill_rect x y w h color =
     bindS (getS (\<lambda>wr. (wr_w wr, wr_h wr))) (\<lambda>(sw, sh).
     bindS (liftS (usize_add y h)) (\<lambda>yh.
     forS [y ..< min yh sh] (\<lambda>row.
       bindS (liftS (usize_add x w)) (\<lambda>xw.
       forS [x ..< min xw sw] (\<lambda>col. set_pixel row col color)))))"

definition newline :: "usize \<Rightarrow> (Writer, unit) op" where
  "newline scale =
     bindS (modS (\<lambda>wr. wr\<lparr>wr_x := LEFT_MARGIN, wr_y := wr_y wr + (8 * scale + 4)\<rparr>)) (\<lambda>_.
     bindS (getS (\<lambda>wr. wr_h wr \<le> wr_y wr + 8 * scale)) (\<lambda>full.
     if full then
       bindS (modS (\<lambda>wr. wr\<lparr>wr_y := TERM_Y + 20\<rparr>)) (\<lambda>_.
       bindS (getS id) (\<lambda>wr.
       if wr_y wr \<le> wr_h wr then fill_rect 0 (wr_y wr) (wr_w wr) (wr_h wr - wr_y wr) BG
       else throwS (Panic ''attempt to subtract with overflow'')))
     else retS ()))"

text \<open>The pixels of a set bit of the glyph.\<close>

definition put_dot :: "u32 \<Rightarrow> usize \<Rightarrow> usize \<Rightarrow> usize \<Rightarrow> (Writer, unit) op" where
  "put_dot color scale gx gy =
     forS [0 ..< scale] (\<lambda>sy. forS [0 ..< scale] (\<lambda>sx.
       bindS (getS id) (\<lambda>wr.
       let px = wr_x wr + gx * scale + sx; py = wr_y wr + gy * scale + sy in
       if px < wr_w wr \<and> py < wr_h wr then set_pixel py px color else retS ())))"

definition put_glyph :: "u8 \<Rightarrow> u32 \<Rightarrow> usize \<Rightarrow> (Writer, unit) op" where
  "put_glyph ch color scale =
     (let glyph = FONT_BASIC ! unat ch in
      forS [0 ..< 8] (\<lambda>gy.
        let row = glyph ! gy in
        forS [0 ..< 8] (\<lambda>gx.
          if drop_bit (7 - gx) row AND 1 = 1 then put_dot color scale gx gy else retS ())))"

definition put_char :: "u8 \<Rightarrow> u32 \<Rightarrow> usize \<Rightarrow> (Writer, unit) op" where
  "put_char ch color scale =
     (if ch = 0x0A then newline scale
      else if 128 \<le> unat ch then retS ()
      else let advance = 8 * scale + scale in
        bindS (getS (\<lambda>wr. wr_w wr < wr_x wr + advance)) (\<lambda>wrap.
        bindS (if wrap then newline scale else retS ()) (\<lambda>_.
        bindS (put_glyph ch color scale) (\<lambda>_.
        modS (\<lambda>wr. wr\<lparr>wr_x := wr_x wr + advance\<rparr>)))))"

definition put_str :: "u8 list \<Rightarrow> u32 \<Rightarrow> usize \<Rightarrow> (Writer, unit) op" where
  "put_str s color scale = forS s (\<lambda>b. put_char b color scale)"

definition backspace :: "usize \<Rightarrow> (Writer, unit) op" where
  "backspace scale =
     (let char_w = 8 * scale + scale in
      bindS (getS id) (\<lambda>wr.
      if wr_input_x wr + char_w \<le> wr_x wr then
        bindS (modS (\<lambda>wr. wr\<lparr>wr_x := wr_x wr - char_w\<rparr>)) (\<lambda>_.
        fill_rect (wr_x wr - char_w) (wr_y wr) char_w (8 * scale) BG)
      else retS ()))"

definition mark_input_start :: "(Writer, unit) op" where
  "mark_input_start = modS (\<lambda>wr. wr\<lparr>wr_input_x := wr_x wr\<rparr>)"

text \<open>\<^verbatim>\<open>fmt::Write\<close> for the writer.\<close>

definition write_str :: "u8 list \<Rightarrow> (Writer, unit) op" where
  "write_str s = put_str s FG 1"

section \<open>Bounds\<close>

text \<open>Nothing but the pixels of the screen changed.\<close>

definition inside :: "Writer \<Rightarrow> Writer \<Rightarrow> bool" where
  "inside wr0 wr \<longleftrightarrow> wr_w wr = wr_w wr0 \<and> wr_h wr = wr_h wr0 \<and>
     (\<forall>i \<ge> wr_w wr0 * wr_h wr0. wr_framebuffer wr i = wr_framebuffer wr0 i)"

lemma pixel_inside: "row < h \<Longrightarrow> col < w \<Longrightarrow> row * w + col < w * (h :: nat)"
proof -
  assume "row < h" "col < w"
  then have "row * w + col < (row + 1) * w" by simp
  also have "\<dots> \<le> h * w" using \<open>row < h\<close> by (intro mult_le_mono1) simp
  finally show ?thesis by (simp add: mult.commute)
qed

lemma set_pixel_inside: "row < wr_h wr0 \<Longrightarrow> col < wr_w wr0 \<Longrightarrow> keepsS (inside wr0) (set_pixel row col color)"
  using pixel_inside [of row "wr_h wr0" col "wr_w wr0"] by (auto simp: keepsS_def set_pixel_def inside_def Let_def)

lemma modS_inside: "(\<And>wr. wr_w (f wr) = wr_w wr \<and> wr_h (f wr) = wr_h wr \<and> wr_framebuffer (f wr) = wr_framebuffer wr) \<Longrightarrow> keepsS (inside wr0) (modS f)"
  by (simp add: keepsS_def inside_def)

lemma fill_rect_inside: "keepsS (inside wr0) (fill_rect x y w h color)"
proof -
  have dims: "wr_w s = wr_w wr0 \<and> wr_h s = wr_h wr0" if "inside wr0 s" for s using that by (simp add: inside_def)
  have "keepsS (inside wr0) (bindS (liftS (usize_add y h)) (\<lambda>yh. forS [y ..< min yh (wr_h wr0)] (\<lambda>row.
       bindS (liftS (usize_add x w)) (\<lambda>xw. forS [x ..< min xw (wr_w wr0)] (\<lambda>col. set_pixel row col color)))))"
    by (intro keepsS_bind keepsS_lift keepsS_forS set_pixel_inside) simp_all
  then show ?thesis unfolding fill_rect_def by (intro keepsS_getS) (simp add: keepsS_def dims)
qed

lemma newline_inside: "keepsS (inside wr0) (newline scale)"
  unfolding newline_def
  by (intro keepsS_bind keepsS_if modS_inside keepsS_get fill_rect_inside keepsS_throw keepsS_ret) simp_all

lemma put_dot_inside: "keepsS (inside wr0) (put_dot color scale gx gy)"
  unfolding put_dot_def Let_def
proof (intro keepsS_forS keepsS_getS)
  fix sx sy s assume "inside wr0 s"
  then show "inside wr0 (snd ((if wr_x (id s) + gx * scale + sx < wr_w (id s) \<and> wr_y (id s) + gy * scale + sy < wr_h (id s)
      then set_pixel (wr_y (id s) + gy * scale + sy) (wr_x (id s) + gx * scale + sx) color else retS ()) s))"
    using set_pixel_inside [of "wr_y s + gy * scale + sy" wr0 "wr_x s + gx * scale + sx" color]
    by (simp add: keepsS_def inside_def)
qed

lemma put_char_inside: "keepsS (inside wr0) (put_char ch color scale)"
  unfolding put_char_def put_glyph_def Let_def
  by (intro keepsS_if keepsS_bind keepsS_ret keepsS_get newline_inside keepsS_forS put_dot_inside modS_inside) simp_all

lemma put_str_inside: "keepsS (inside wr0) (put_str s color scale)"
  unfolding put_str_def by (intro keepsS_forS put_char_inside)

lemma backspace_inside: "keepsS (inside wr0) (backspace scale)"
  unfolding backspace_def Let_def by (intro keepsS_bind keepsS_if keepsS_get modS_inside fill_rect_inside keepsS_ret) simp_all

section \<open>Drawing text\<close>

text \<open>A screen that has room for a line of text below the header, with the cursor on a line that fits.\<close>

definition text_ok :: "Writer \<Rightarrow> bool" where
  "text_ok wr \<longleftrightarrow> wr_x wr \<le> wr_w wr \<and> wr_y wr + 8 < wr_h wr \<and> TERM_Y + 28 < wr_h wr \<and> LEFT_MARGIN + 9 \<le> wr_w wr \<and>
     wr_w wr * wr_h wr < usize_bound \<and> wr_w wr < usize_bound \<and> wr_h wr < usize_bound"

lemma forS_total:
  assumes "P s" and "\<And>x s. x \<in> set xs \<Longrightarrow> P s \<Longrightarrow> okS (f x) s (\<lambda>_ s'. P s')"
  shows "okS (forS xs f) s (\<lambda>_ s'. P s')"
  using assms
proof (induction xs arbitrary: s)
  case (Cons x xs)
  have "okS (f x) s (\<lambda>_ s'. okS (forS xs f) s' (\<lambda>_ s''. P s''))"
    by (rule okS_mono [OF Cons.prems(2) [of x s]]) (use Cons in auto)
  then show ?case by (simp add: okS_bind)
qed (simp add: okS_ret)

text \<open>Painting pixels of the screen changes the framebuffer only.\<close>

definition painted :: "Writer \<Rightarrow> Writer \<Rightarrow> bool" where
  "painted wr0 wr \<longleftrightarrow> (\<exists>fb. wr = wr0\<lparr>wr_framebuffer := fb\<rparr>)"

lemma painted_refl: "painted wr wr"
  unfolding painted_def by (rule exI [of _ "wr_framebuffer wr"]) simp

lemma set_pixel_painted:
  assumes "wr_w wr0 * wr_h wr0 < usize_bound" and "row < wr_h wr0" and "col < wr_w wr0" and "painted wr0 wr"
  shows "okS (set_pixel row col color) wr (\<lambda>_ wr'. painted wr0 wr')"
  using assms(4) pixel_inside [OF assms(2,3)] assms(1) by (auto simp: okS_def set_pixel_def painted_def Let_def)

lemma fill_rect_painted:
  assumes "wr_w wr0 * wr_h wr0 < usize_bound" and "y + h < usize_bound" and "x + w < usize_bound" and "painted wr0 wr"
  shows "okS (fill_rect x y w h color) wr (\<lambda>_ wr'. painted wr0 wr')"
proof -
  have d: "wr_w wr = wr_w wr0" "wr_h wr = wr_h wr0" using assms(4) by (auto simp: painted_def)
  have "okS (forS [y ..< min (y + h) (wr_h wr0)] (\<lambda>row. bindS (liftS (usize_add x w)) (\<lambda>xw. forS [x ..< min xw (wr_w wr0)] (\<lambda>col. set_pixel row col color)))) wr
      (\<lambda>_ wr'. painted wr0 wr')"
    using assms by (intro forS_total) (auto simp: okS_bind usize_add_def okS_lift intro!: forS_total set_pixel_painted)
  then show ?thesis using assms(2) d by (simp add: fill_rect_def ok_simps usize_add_def [of y h])
qed

lemma newline_ok:
  assumes "text_ok wr"
  shows "okS (newline 1) wr (\<lambda>_ wr'. text_ok wr' \<and> wr_x wr' = LEFT_MARGIN \<and> wr_w wr' = wr_w wr \<and> wr_h wr' = wr_h wr)"
proof -
  let ?wr = "wr\<lparr>wr_x := LEFT_MARGIN, wr_y := TERM_Y + 20\<rparr>"
  have f: "okS (fill_rect 0 (TERM_Y + 20) (wr_w wr) (wr_h wr - (TERM_Y + 20)) BG) ?wr (\<lambda>_ wr'. painted ?wr wr')"
    using assms by (intro fill_rect_painted painted_refl) (auto simp: text_ok_def)
  show ?thesis
  proof (cases "wr_h wr \<le> wr_y wr + 20")
    case True
    then have "newline 1 wr = fill_rect 0 (TERM_Y + 20) (wr_w wr) (wr_h wr - (TERM_Y + 20)) BG ?wr"
      using assms by (simp add: newline_def bindS_def text_ok_def)
    then show ?thesis using f assms by (auto simp: okS_def painted_def text_ok_def)
  next
    case False
    then show ?thesis using assms by (simp add: newline_def bindS_def okS_def text_ok_def)
  qed
qed

text \<open>The glyph of a character at the cursor.\<close>

definition lit :: "u8 \<Rightarrow> nat \<Rightarrow> nat \<Rightarrow> bool" where
  "lit ch dx dy \<longleftrightarrow> bit (FONT_BASIC ! unat ch ! dy) (7 - dx)"

definition ink :: "u8 \<Rightarrow> u32 \<Rightarrow> Writer \<Rightarrow> (nat \<Rightarrow> nat \<Rightarrow> bool) \<Rightarrow> nat \<Rightarrow> u32" where
  "ink ch color wr0 cells i =
     (if \<exists>dx dy. cells dx dy \<and> lit ch dx dy \<and> i = (wr_y wr0 + dy) * wr_w wr0 + (wr_x wr0 + dx) then color else wr_framebuffer wr0 i)"

definition drawn :: "u8 \<Rightarrow> u32 \<Rightarrow> Writer \<Rightarrow> (nat \<Rightarrow> nat \<Rightarrow> bool) \<Rightarrow> Writer \<Rightarrow> bool" where
  "drawn ch color wr0 cells wr \<longleftrightarrow> wr = wr0\<lparr>wr_framebuffer := ink ch color wr0 cells\<rparr>"

lemma ink_add:
  "lit ch dx dy \<Longrightarrow> (ink ch color wr0 cells)((wr_y wr0 + dy) * wr_w wr0 + (wr_x wr0 + dx) := color) = ink ch color wr0 (\<lambda>x y. cells x y \<or> x = dx \<and> y = dy)"
  "\<not> lit ch dx dy \<Longrightarrow> ink ch color wr0 (\<lambda>x y. cells x y \<or> x = dx \<and> y = dy) = ink ch color wr0 cells"
  by (rule ext, auto simp: ink_def)+

lemma bit_test: "(drop_bit k (row :: u8) AND 1 = 1) = bit row k"
  by (simp add: and_one_eq bit_iff_odd_drop_bit odd_iff_mod_2_eq_one)

lemma put_cell:
  assumes "text_ok wr0" and "wr_x wr0 + 9 \<le> wr_w wr0" and "dx < 8" and "dy < 8" and "drawn ch color wr0 cells wr"
  shows "okS (if drop_bit (7 - dx) (FONT_BASIC ! unat ch ! dy) AND 1 = 1 then put_dot color 1 dx dy else retS ()) wr
    (\<lambda>_ wr'. drawn ch color wr0 (\<lambda>x y. cells x y \<or> x = dx \<and> y = dy) wr')"
proof (cases "lit ch dx dy")
  case True
  have sel: "wr_w wr = wr_w wr0" "wr_h wr = wr_h wr0" "wr_x wr = wr_x wr0" "wr_y wr = wr_y wr0" using assms(5) by (simp_all add: drawn_def)
  let ?row = "wr_y wr0 + dy" and ?col = "wr_x wr0 + dx"
  have b: "?row < wr_h wr0" "?col < wr_w wr0" using assms by (simp_all add: text_ok_def)
  then have i: "?row * wr_w wr0 + ?col < usize_bound" using pixel_inside [OF b] assms(1) by (simp add: text_ok_def)
  have "put_dot color 1 dx dy wr = (Inr (), wr\<lparr>wr_framebuffer := (wr_framebuffer wr)(?row * wr_w wr0 + ?col := color)\<rparr>)"
    using b i sel by (simp add: put_dot_def bindS_def set_pixel_def)
  moreover have "drawn ch color wr0 (\<lambda>x y. cells x y \<or> x = dx \<and> y = dy) (wr\<lparr>wr_framebuffer := (wr_framebuffer wr)(?row * wr_w wr0 + ?col := color)\<rparr>)"
    using assms(5) ink_add(1) [OF True, of color wr0 cells] unfolding drawn_def by simp
  ultimately show ?thesis using True by (simp add: bit_test lit_def okS_def)
next
  case False
  then have "drawn ch color wr0 (\<lambda>x y. cells x y \<or> x = dx \<and> y = dy) wr"
    using assms(5) ink_add(2) [OF False, of color wr0 cells] unfolding drawn_def by simp
  then show ?thesis using False by (simp add: bit_test lit_def okS_ret)
qed

lemma put_glyph_ok:
  assumes "text_ok wr" and "wr_x wr + 9 \<le> wr_w wr"
  shows "okS (put_glyph ch color 1) wr (\<lambda>_ wr'. drawn ch color wr (\<lambda>x y. x < 8 \<and> y < 8) wr')"
proof -
  let ?cell = "\<lambda>dy dx. if drop_bit (7 - dx) (FONT_BASIC ! unat ch ! dy) AND 1 = 1 then put_dot color 1 dx dy else retS ()"
  have row: "okS (forS [0 ..< 8] (?cell dy)) s (\<lambda>_ s'. drawn ch color wr (\<lambda>x y. x < 8 \<and> y < Suc dy) s')"
    if "dy < 8" and "drawn ch color wr (\<lambda>x y. x < 8 \<and> y < dy) s" for dy s
  proof -
    have "okS (forS [0 ..< 8] (?cell dy)) s (\<lambda>_ s'. drawn ch color wr (\<lambda>x y. x < 8 \<and> y < dy \<or> x < 8 \<and> y = dy) s')"
    proof (rule forS_rule [where I = "\<lambda>k s. drawn ch color wr (\<lambda>x y. x < 8 \<and> y < dy \<or> x < k \<and> y = dy) s"])
      fix dx s assume "dx < (8 :: nat)" and d: "drawn ch color wr (\<lambda>x y. x < 8 \<and> y < dy \<or> x < dx \<and> y = dy) s"
      show "okS (?cell dy dx) s (\<lambda>_ s'. drawn ch color wr (\<lambda>x y. x < 8 \<and> y < dy \<or> x < Suc dx \<and> y = dy) s')"
        using put_cell [OF assms \<open>dx < 8\<close> \<open>dy < 8\<close> d] by (rule okS_mono) (auto simp: less_Suc_eq disj_ac conj_disj_distribR)
    qed (use that in simp)
    then show ?thesis by (rule okS_mono) (auto simp: less_Suc_eq conj_disj_distribL)
  qed
  have "okS (forS [0 ..< 8] (\<lambda>dy. forS [0 ..< 8] (?cell dy))) wr (\<lambda>_ s'. drawn ch color wr (\<lambda>x y. x < 8 \<and> y < 8) s')"
    by (rule forS_rule [where I = "\<lambda>k s. drawn ch color wr (\<lambda>x y. x < 8 \<and> y < k) s"]) (use row in \<open>auto simp: drawn_def ink_def fun_eq_iff\<close>)
  then show ?thesis unfolding put_glyph_def Let_def .
qed

lemma glyph_cell:
  assumes px: "px < w" and fits: "x + 9 \<le> (w :: nat)"
  shows "(\<exists>dx dy. (dx < 8 \<and> dy < 8) \<and> lit ch dx dy \<and> py * w + px = (y + dy) * w + (x + dx)) \<longleftrightarrow>
    x \<le> px \<and> px < x + 8 \<and> y \<le> py \<and> py < y + 8 \<and> lit ch (px - x) (py - y)" (is "?L \<longleftrightarrow> ?R")
proof
  assume ?L
  then obtain dx dy where a: "dx < 8" "dy < 8" "lit ch dx dy" and e: "py * w + px = (y + dy) * w + (x + dx)" by blast
  have "x + dx < w" using a(1) fits by simp
  then have "py = y + dy \<and> px = x + dx"
    using arg_cong [OF e, of "\<lambda>i. i div w"] arg_cong [OF e, of "\<lambda>i. i mod w"] px by simp
  then show ?R using a by simp
next
  assume r: ?R
  show ?L
  proof (intro exI conjI)
    show "px - x < 8" "py - y < 8" "lit ch (px - x) (py - y)" using r by auto
    show "py * w + px = (y + (py - y)) * w + (x + (px - x))" using r by simp
  qed
qed

text \<open>
  A character that fits on the line is drawn as its glyph: the pixel \<open>(px, py)\<close> of the screen gets the colour exactly
  when it lies in the 8 by 8 cell at the cursor and its bit of the font is set, every other pixel keeps its colour,
  and the cursor moves nine pixels to the right.
\<close>

lemma put_char_draws:
  assumes "text_ok wr" and "wr_x wr + 9 \<le> wr_w wr" and "ch \<noteq> 0x0A" and "unat ch < 128"
  shows "\<exists>wr'. put_char ch color 1 wr = (Inr (), wr') \<and> wr_x wr' = wr_x wr + 9 \<and> wr_y wr' = wr_y wr \<and> text_ok wr' \<and>
    (\<forall>px py. px < wr_w wr \<longrightarrow> wr_framebuffer wr' (py * wr_w wr + px) =
       (if wr_x wr \<le> px \<and> px < wr_x wr + 8 \<and> wr_y wr \<le> py \<and> py < wr_y wr + 8 \<and>
           bit (FONT_BASIC ! unat ch ! (py - wr_y wr)) (7 - (px - wr_x wr))
        then color else wr_framebuffer wr (py * wr_w wr + px)))"
proof -
  obtain wr1 where g: "put_glyph ch color 1 wr = (Inr (), wr1)" and d: "drawn ch color wr (\<lambda>x y. x < 8 \<and> y < 8) wr1"
    using put_glyph_ok [OF assms(1,2), of ch color] by (auto elim: okS_E)
  let ?wr' = "wr1\<lparr>wr_x := wr_x wr1 + 9\<rparr>"
  have run: "put_char ch color 1 wr = (Inr (), ?wr')" using assms g by (simp add: put_char_def bindS_def)
  have fb: "wr_framebuffer ?wr' = ink ch color wr (\<lambda>x y. x < 8 \<and> y < 8)" using d by (simp add: drawn_def)
  have "wr_framebuffer ?wr' (py * wr_w wr + px) =
       (if wr_x wr \<le> px \<and> px < wr_x wr + 8 \<and> wr_y wr \<le> py \<and> py < wr_y wr + 8 \<and> lit ch (px - wr_x wr) (py - wr_y wr)
        then color else wr_framebuffer wr (py * wr_w wr + px))" if "px < wr_w wr" for px py
    unfolding fb ink_def glyph_cell [OF that assms(2)] ..
  then show ?thesis using run d assms(1,2) by (intro exI [of _ ?wr']) (auto simp: drawn_def text_ok_def lit_def)
qed

lemma put_char_text_ok:
  assumes "text_ok wr"
  shows "okS (put_char ch color 1) wr (\<lambda>_ wr'. text_ok wr')"
proof -
  have glyph: "okS (bindS (put_glyph ch color 1) (\<lambda>_. modS (\<lambda>wr. wr\<lparr>wr_x := wr_x wr + (8 * 1 + 1)\<rparr>))) s (\<lambda>_ s'. text_ok s')"
    if "text_ok s" "wr_x s + 9 \<le> wr_w s" for s
    unfolding okS_bind okS_mod using put_glyph_ok [OF that, of ch color] by (rule okS_mono) (use that in \<open>auto simp: drawn_def text_ok_def\<close>)
  have "okS (newline 1) wr (\<lambda>_ s. okS (bindS (put_glyph ch color 1) (\<lambda>_. modS (\<lambda>wr. wr\<lparr>wr_x := wr_x wr + (8 * 1 + 1)\<rparr>))) s (\<lambda>_ s'. text_ok s'))"
    using newline_ok [OF assms] by (rule okS_mono) (rule glyph, auto simp: text_ok_def)
  moreover have "okS (newline 1) wr (\<lambda>_ wr'. text_ok wr')" using newline_ok [OF assms] by (rule okS_mono) simp
  ultimately show ?thesis
    using assms glyph [OF assms] unfolding put_char_def Let_def okS_bind [of "getS _"] okS_get
    by (cases "wr_w wr < wr_x wr + (8 * 1 + 1)") (auto simp: okS_bind okS_ret okS_get)
qed

lemma put_str_text_ok: "text_ok wr \<Longrightarrow> okS (put_str s color 1) wr (\<lambda>_ wr'. text_ok wr')"
  unfolding put_str_def by (rule forS_total [where P = text_ok]) (simp, rule put_char_text_ok)

lemma backspace_text_ok:
  assumes "text_ok wr"
  shows "okS (backspace 1) wr (\<lambda>_ wr'. text_ok wr')"
proof -
  let ?wr = "wr\<lparr>wr_x := wr_x wr - 9\<rparr>"
  have "okS (fill_rect (wr_x wr - 9) (wr_y wr) 9 8 BG) ?wr (\<lambda>_ wr'. painted ?wr wr')" if "9 \<le> wr_x wr"
    using assms that by (intro fill_rect_painted painted_refl) (auto simp: text_ok_def)
  then have "okS (fill_rect (wr_x wr - 9) (wr_y wr) 9 8 BG) ?wr (\<lambda>_ wr'. text_ok wr')" if "9 \<le> wr_x wr"
    using assms that by (auto elim!: okS_mono simp: painted_def text_ok_def)
  then show ?thesis using assms by (simp add: backspace_def Let_def ok_simps)
qed

text \<open>
  \<^bold>\<open>C34.\<close> Printing never leaves the screen. On a screen of at least 29 by 89 pixels, any bytes can be printed from any
  position that fits: the call returns, the cursor stays on a line that fits, and no memory outside of the \<open>w * h\<close> pixels of the
  framebuffer is written.
\<close>

theorem put_str_in_bounds:
  assumes "text_ok wr"
  shows "\<exists>wr'. put_str s color 1 wr = (Inr (), wr') \<and> text_ok wr' \<and> inside wr wr'"
proof -
  have "okS (put_str s color 1) wr (\<lambda>_ wr'. text_ok wr')" by (rule put_str_text_ok [OF assms])
  moreover have "inside wr (snd (put_str s color 1 wr))"
    using put_str_inside [of wr s color 1] by (simp add: keepsS_def inside_def)
  ultimately show ?thesis by (auto simp: okS_def)
qed

definition demo_writer :: Writer where
  "demo_writer = (writer_new (\<lambda>_. 0) 640 480)"

lemma demo_writer_ok: "text_ok demo_writer"
  by (simp add: text_ok_def demo_writer_def writer_new_def TERM_Y_def LEFT_MARGIN_def usize_bound_def)

theorem put_str_in_bounds_witness:
  "\<exists>wr'. put_str [0x68, 0x69, 0x0A] FG 1 demo_writer = (Inr (), wr') \<and> wr_framebuffer wr' (640 * 480) = 0"
  using put_str_in_bounds [OF demo_writer_ok, of "[0x68, 0x69, 0x0A]" FG]
  by (auto simp: inside_def demo_writer_def writer_new_def)

end
