(* ===== verification/Kernel.thy ===== *)
theory Kernel
  imports Store Task Kbuf Elf Writer
begin

text \<open>
  The state of the running kernel, put together from the states of its parts; the access to the memory of the
  current process through its page tables; and the creation of processes
  (\<^verbatim>\<open>spawn_process\<close> of ross-kernel/src/task.rs).
\<close>

section \<open>The kernel state\<close>

text \<open>
  The statics of the kernel, the registers the code depends on, and the bytes sent to the serial port. \<open>k_mem\<close> is the kernel heap, which lies in the kernel image and not in
  the frames of the allocator.
\<close>

record 's kernel =
  k_mm :: mm
  k_mem :: mem
  k_next_id :: usize
  k_sched :: "VfsNode Scheduler"
  k_pipes :: PipeTable
  k_keys :: kbuf
  k_vfs :: VfsRoot
  k_disk :: 's
  k_ticks :: u64
  k_cr3 :: u64
  k_wp :: bool     \<comment> \<open>CR0.WP: whether ring 0 respects read-only pages\<close>
  k_serial :: "u8 list"
  k_writer :: "Writer option"

definition on_mm :: "(mm, 'a) op \<Rightarrow> ('s kernel, 'a) op" where
  "on_mm m = (\<lambda>k. let (r, x) = m (k_mm k) in (r, k\<lparr>k_mm := x\<rparr>))"

definition on_dev :: "('s, 'a) op \<Rightarrow> ('s kernel, 'a) op" where
  "on_dev m = (\<lambda>k. let (r, x) = m (k_disk k) in (r, k\<lparr>k_disk := x\<rparr>))"

text \<open>\<^verbatim>\<open>get_writer()\<close> and a call on the writer.\<close>

definition on_writer :: "(Writer, 'a) op \<Rightarrow> ('s kernel, 'a) op" where
  "on_writer m = (\<lambda>k. case k_writer k of
       None \<Rightarrow> (Inl (Panic ''Writer not initialized''), k)
     | Some wr \<Rightarrow> let (r, wr') = m wr in (r, k\<lparr>k_writer := Some wr'\<rparr>))"

definition set_current :: "VfsNode Task \<Rightarrow> 's kernel \<Rightarrow> 's kernel" where
  "set_current t k = k\<lparr>k_sched := (k_sched k)\<lparr>current_task := Some t\<rparr>\<rparr>"

section \<open>The memory of the current process\<close>

text \<open>
  The kernel follows the pointers a process passes as they are. A fault in the kernel ends in the
  handler that prints and halts.
\<close>

definition canonical :: "u64 \<Rightarrow> bool" where
  "canonical v \<longleftrightarrow> drop_bit 47 v = 0 \<or> drop_bit 47 v = mask 17"

definition ld8 :: "u64 \<Rightarrow> ('s kernel, u8) op" where
  "ld8 v = (\<lambda>k.
     if \<not> canonical v then (Inl (Panic ''general protection fault''), k)
     else case walk (ram (k_mm k)) (k_cr3 k) v of
       None \<Rightarrow> (Inl (Panic ''page fault''), k)
     | Some (p, _, _) \<Rightarrow> (Inr (ram (k_mm k) p), k))"

definition st8 :: "u64 \<Rightarrow> u8 \<Rightarrow> ('s kernel, unit) op" where
  "st8 v b = (\<lambda>k.
     if \<not> canonical v then (Inl (Panic ''general protection fault''), k)
     else case walk (ram (k_mm k)) (k_cr3 k) v of
       None \<Rightarrow> (Inl (Panic ''page fault''), k)
     | Some (p, w, _) \<Rightarrow>
         if k_wp k \<and> \<not> w then (Inl (Panic ''page fault''), k)
         else (Inr (), k\<lparr>k_mm := (k_mm k)\<lparr>ram := (ram (k_mm k))(p := b)\<rparr>\<rparr>))"

primrec ld_bytes :: "nat \<Rightarrow> u64 \<Rightarrow> ('s kernel, u8 list) op" where
  "ld_bytes 0 v = retS []"
| "ld_bytes (Suc n) v = bindS (ld8 v) (\<lambda>b. bindS (ld_bytes n (v + 1)) (\<lambda>bs. retS (b # bs)))"

primrec st_bytes :: "u64 \<Rightarrow> u8 list \<Rightarrow> ('s kernel, unit) op" where
  "st_bytes v [] = retS ()"
| "st_bytes v (b # bs) = bindS (st8 v b) (\<lambda>_. st_bytes (v + 1) bs)"

section \<open>Creating a process\<close>

text \<open>
  The address \<open>stk\<close> of the kernel stack of the new task comes from the heap allocator. The messages on the
  serial port are left out.
\<close>

definition start_task :: "u64 \<Rightarrow> image \<Rightarrow> ('s kernel, unit) op" where
  "start_task stk im = (\<lambda>k.
     let (task, m) = task_new stk (k_next_id k) (img_entry im) (img_stack_top im) (img_cr3 im) True (k_mem k) in
     (Inr (), k\<lparr>k_mem := m, k_next_id := k_next_id k + 1,
        k_sched := add_task (task\<lparr>heap_end := img_heap_end im\<rparr>) (k_sched k)\<rparr>))"

definition spawn_process :: "'s device \<Rightarrow> kernel_tables \<Rightarrow> u64 \<Rightarrow> str \<Rightarrow> ('s kernel, unit) op" where
  "spawn_process dev kt stk path =
     bindS (getS k_vfs) (\<lambda>vfs.
     bindS (on_dev (vfs_open dev vfs path)) (\<lambda>file.
     let size = stat_size (vn_attribute file) in
     bindS (on_dev (vn_read dev file 0 (replicate size 0))) (\<lambda>(_, data).
     bindS (on_mm (load_image kt data)) (\<lambda>im.
     start_task stk im))))"

section \<open>Reading and writing the memory of a process\<close>

lemma canonical_low: "unat v < 2 ^ 47 \<Longrightarrow> canonical v"
proof -
  assume "unat v < 2 ^ 47"
  then have "unat (drop_bit 47 v) = 0" by (simp add: drop_bit_eq_div unat_div)
  then show ?thesis by (simp add: canonical_def unat_eq_0)
qed

text \<open>The bytes \<open>bs\<close> stand at address \<open>a\<close> of the process.\<close>

definition holds :: "'s kernel \<Rightarrow> nat \<Rightarrow> u8 list \<Rightarrow> bool" where
  "holds k a bs \<longleftrightarrow> a + length bs \<le> 2 ^ 47 \<and>
     (\<forall>j < length bs. img (k_cr3 k) (k_mm k) (of_nat (a + j)) = Some (bs ! j))"

lemma ld8_img:
  assumes "user_inv (k_cr3 k) (k_mm k)" and "unat v < 2 ^ 47" and "img (k_cr3 k) (k_mm k) v = Some b"
  shows "ld8 v k = (Inr b, k)"
  by (rule img_walk [OF assms(1,3)]) (simp add: ld8_def canonical_low [OF assms(2)])

lemma holds_Cons:
  "holds k a (b # bs) \<longleftrightarrow> a < 2 ^ 47 \<and> img (k_cr3 k) (k_mm k) (of_nat a) = Some b \<and> holds k (Suc a) bs"
  unfolding holds_def by (auto simp: less_Suc_eq_0_disj ac_simps)

lemma unat_of_low: "a < 2 ^ 64 \<Longrightarrow> unat (of_nat a :: u64) = a"
  by (simp add: unat_of_nat)

lemma ld_bytes_holds:
  assumes "user_inv (k_cr3 k) (k_mm k)" and "holds k a bs"
  shows "ld_bytes (length bs) (of_nat a) k = (Inr bs, k)"
  using assms(2)
proof (induction bs arbitrary: a)
  case (Cons b bs)
  then have "ld8 (of_nat a) k = (Inr b, k)" "ld_bytes (length bs) (of_nat (Suc a)) k = (Inr bs, k)"
    by (auto simp: holds_Cons unat_of_low simp del: of_nat_Suc intro!: ld8_img [OF assms(1)])
  then show ?case by (simp add: bindS_def add.commute)
qed simp

text \<open>Writable addresses, and the effect of a store.\<close>

definition writable :: "'s kernel \<Rightarrow> nat \<Rightarrow> nat \<Rightarrow> bool" where
  "writable k a n \<longleftrightarrow> a + n \<le> 2 ^ 47 \<and> (\<forall>j < n. img (k_cr3 k) (k_mm k) (of_nat (a + j)) \<noteq> None \<and>
     (\<exists>p u. walk (ram (k_mm k)) (k_cr3 k) (of_nat (a + j)) = Some (p, True, u)))"

lemma writable_Suc:
  "writable k a (Suc n) \<longleftrightarrow> a < 2 ^ 47 \<and> img (k_cr3 k) (k_mm k) (of_nat a) \<noteq> None \<and>
     (\<exists>p u. walk (ram (k_mm k)) (k_cr3 k) (of_nat a) = Some (p, True, u)) \<and> writable k (Suc a) n"
  unfolding writable_def by (auto simp: less_Suc_eq_0_disj ac_simps)

definition stored :: "nat \<Rightarrow> u8 list \<Rightarrow> nat \<Rightarrow> u8 option \<Rightarrow> u8 option" where
  "stored a bs w b = (if a \<le> w \<and> w < a + length bs then Some (bs ! (w - a)) else b)"

lemma wr_byte: "wr_bytes a [b] m = m(a := b)"
proof
  fix x
  show "wr_bytes a [b] m x = (m(a := b)) x" by (auto simp: wr_bytes_def unat_eq_0 less_one)
qed

lemma st8_ok:
  assumes inv: "user_inv (k_cr3 k) (k_mm k)" and a: "a < 2 ^ 47"
    and i: "img (k_cr3 k) (k_mm k) (of_nat a) \<noteq> None" and w: "walk (ram (k_mm k)) (k_cr3 k) (of_nat a) = Some (p, True, u)"
  obtains st' where "st8 (of_nat a) b k = (Inr (), k\<lparr>k_mm := st'\<rparr>)"
    and "user_step (k_cr3 k) (stored a [b]) 0 (k_mm k) st'" and "walk (ram st') (k_cr3 k) = walk (ram (k_mm k)) (k_cr3 k)"
proof -
  let ?v = "of_nat a :: u64" and ?st = "k_mm k"
  let ?off = "unat (take_bit 12 ?v)"
  have v: "unat ?v = a" using a by (simp add: unat_of_low)
  obtain q where q: "mapped (ram ?st) (k_cr3 k) ?v = Some q" using i by (auto simp: img_def)
  note B = user_invD(2) [OF inv q, unfolded backs_def]
  have p: "p = q + of_nat ?off" using B w page_or_plus [of q ?v] by auto
  have o: "?off + length [b] \<le> 4096" using offset_in_page [of ?v] by simp
  let ?st' = "?st\<lparr>ram := wr_bytes (q + of_nat ?off) [b] (ram ?st)\<rparr>"
  have "user_step (k_cr3 k) (stored a [b]) 0 ?st ?st'"
  proof (rule user_step_mono [OF user_write_step [OF inv q o]])
    fix x c
    show "(if x div 4096 = unat ?v div 4096 \<and> ?off \<le> x mod 4096 \<and> x mod 4096 < ?off + length [b] then Some ([b] ! (x mod 4096 - ?off)) else c) =
      stored a [b] x c"
    proof -
      have "x div 4096 = a div 4096 \<and> x mod 4096 = a mod 4096 \<longleftrightarrow> x = a" by (metis div_mult_mod_eq)
      then show ?thesis by (auto simp: stored_def offset_low v)
    qed
  qed (use a v in simp_all)
  moreover have "st8 ?v b k = (Inr (), k\<lparr>k_mm := ?st'\<rparr>)"
    using w canonical_low [of ?v] a v by (simp add: st8_def wr_byte p)
  moreover have "walk (ram ?st') (k_cr3 k) = walk (ram ?st) (k_cr3 k)" using user_write(3) [OF inv q o refl] .
  ultimately show ?thesis using that by blast
qed

lemma st_bytes_ok:
  assumes "user_inv (k_cr3 k) (k_mm k)" and "writable k a (length bs)"
  obtains st' where "st_bytes (of_nat a) bs k = (Inr (), k\<lparr>k_mm := st'\<rparr>)"
    and "user_step (k_cr3 k) (stored a bs) 0 (k_mm k) st'" and "walk (ram st') (k_cr3 k) = walk (ram (k_mm k)) (k_cr3 k)"
  using assms
proof (induction bs arbitrary: a k thesis)
  case Nil
  have "user_step (k_cr3 k) (stored a []) 0 (k_mm k) (k_mm k)" using Nil.prems(2) by (auto simp: user_step_def stored_def)
  then show ?case using Nil.prems(1) [of "k_mm k"] by simp
next
  case (Cons b bs)
  have h: "a < 2 ^ 47" "img (k_cr3 k) (k_mm k) (of_nat a) \<noteq> None"
    "\<exists>p u. walk (ram (k_mm k)) (k_cr3 k) (of_nat a) = Some (p, True, u)"
    and wr: "writable k (Suc a) (length bs)"
    using Cons.prems(3) by (auto simp: writable_Suc)
  then obtain st1 where 1: "st8 (of_nat a) b k = (Inr (), k\<lparr>k_mm := st1\<rparr>)" "user_step (k_cr3 k) (stored a [b]) 0 (k_mm k) st1"
    "walk (ram st1) (k_cr3 k) = walk (ram (k_mm k)) (k_cr3 k)"
    using st8_ok [OF Cons.prems(2) h(1,2)] by metis
  let ?k1 = "k\<lparr>k_mm := st1\<rparr>"
  have m: "img (k_cr3 k) st1 (of_nat (Suc a + j)) \<noteq> None" if "j < length bs" for j
  proof -
    have b: "Suc a + j < 2 ^ 47" "img (k_cr3 k) (k_mm k) (of_nat (Suc a + j)) \<noteq> None"
      using wr that by (simp_all add: writable_def del: of_nat_add of_nat_Suc)
    then have "unat (of_nat (Suc a + j) :: u64) = Suc a + j" by (intro unat_of_low) simp
    then show ?thesis using 1(2) b by (simp add: user_step_def stored_def del: of_nat_add of_nat_Suc)
  qed
  have "writable ?k1 (Suc a) (length bs)"
    using wr 1(3) m unfolding writable_def by (simp del: of_nat_add of_nat_Suc)
  moreover have "user_inv (k_cr3 ?k1) (k_mm ?k1)" using 1(2) by (simp add: user_step_def)
  ultimately obtain st2 where 2: "st_bytes (of_nat (Suc a)) bs ?k1 = (Inr (), ?k1\<lparr>k_mm := st2\<rparr>)"
    "user_step (k_cr3 k) (stored (Suc a) bs) 0 st1 st2" "walk (ram st2) (k_cr3 k) = walk (ram st1) (k_cr3 k)"
    using Cons.IH [of "Suc a" ?k1] by auto
  have "user_step (k_cr3 k) (stored a (b # bs)) 0 (k_mm k) st2"
    using user_step_trans [OF 1(2) 2(2)] by (rule user_step_mono) (auto simp: stored_def nth_Cons')
  moreover have "st_bytes (of_nat a) (b # bs) k = (Inr (), k\<lparr>k_mm := st2\<rparr>)"
    using 1(1) 2(1) by (simp add: bindS_def add.commute)
  ultimately show ?case using Cons.prems(1) 1(3) 2(3) by simp
qed

end
