(* ===== verification/Spawn.thy ===== *)
theory Spawn
  imports Kernel
begin

text \<open>
  Starting a program: what \<open>spawn_process\<close> leaves in the scheduler, in the kernel heap and in the memory of
  the new process, and when it refuses.
\<close>

text \<open>A well-formed executable with its program headers, and a machine that has the frames for it.\<close>

definition program :: "u8 list \<Rightarrow> ElfHeader \<Rightarrow> ProgramHeader list \<Rightarrow> bool" where
  "program data h phs \<longleftrightarrow> elf_header data = Inr h \<and> is_valid h \<and>
     list_all2 (\<lambda>i ph. program_header data h i = Inr ph) [0 ..< unat (e_phnum h)] phs \<and>
     (\<forall>ph \<in> set phs. p_type ph = PT_LOAD \<longrightarrow> seg_ok data ph) \<and> length data < usize_bound"

definition loadable :: "ProgramHeader list \<Rightarrow> ProgramHeader list" where
  "loadable phs = filter (\<lambda>ph. p_type ph = PT_LOAD) phs"

definition has_room :: "kernel_tables \<Rightarrow> ProgramHeader list \<Rightarrow> mm \<Rightarrow> bool" where
  "has_room kt phs st \<longleftrightarrow> pmm_inv (frames st) \<and> kt_ok kt \<and> kernel_half kt (ram st) \<and>
     (\<forall>t \<in> set (kt_list kt). unat t div PAGE_SIZE \<notin> free_set (frames st)) \<and>
     frames_for (loadable phs) + 38 \<le> card (free_set (frames st))"

definition on_ramdisk :: "'s kernel \<Rightarrow> str \<Rightarrow> TarFile \<Rightarrow> bool" where
  "on_ramdisk k path f \<longleftrightarrow> (\<exists>t w. root_node (k_vfs k) = Some (TarFsNode t) \<and>
     \<not> starts_with mnt_disk (trim_start_matches 0x2F path) \<and> components path = [w] \<and>
     find (\<lambda>f. tar_name f = w) (tar_files t) = Some f)"

lemma on_dev_kept: "m (k_disk k) = (r, k_disk k) \<Longrightarrow> on_dev m k = (r, k)"
  by (simp add: on_dev_def)

lemma open_on_ramdisk:
  assumes "on_ramdisk k path f"
  shows "vfs_open dev (k_vfs k) path s = (Inr (TarFileNode f), s)"
  using assms open_ramdisk [of "k_vfs k" _ path dev s] by (auto simp: on_ramdisk_def look_up_def)

lemma read_whole_tarfile: "vn_read dev (TarFileNode f) 0 (replicate (length (tar_data f)) 0) s = (Inr (length (tar_data f), tar_data f), s)"
  by (simp add: tarfile_read_def put_at_def subslice_def)

lemma spawn_ramdisk:
  assumes "on_ramdisk k path f"
  shows "spawn_process dev kt stk path k = bindS (on_mm (load_image kt (tar_data f))) (start_task stk) k"
  using open_on_ramdisk [OF assms, of dev "k_disk k"] read_whole_tarfile [of dev f "k_disk k"]
  by (simp add: spawn_process_def bindS_def Let_def on_dev_kept tarfile_attribute_def)

text \<open>
  \<^bold>\<open>C4.\<close> Starting a program from the ram disk: \<open>spawn_process\<close> queues exactly one new task, behind the others; switching to it
  enters ring 3 at the entry point of the file with the stack at \<open>0x508000\<close>, interrupts enabled and cleared
  registers; in its address space the processor finds the bytes of the file at the addresses of the loadable
  segments, zeros in the rest of their pages, and eight writable stack pages; its break is the end of
  the highest segment.
\<close>

theorem spawn_process_correct:
  assumes "on_ramdisk k path f" and "program (tar_data f) h phs" and "has_room kt phs (k_mm k)" and "aligned 3 stk"
  shows "\<exists>k' t. spawn_process dev kt stk path k = (Inr (), k') \<and>
    tasks (k_sched k') = tasks (k_sched k) @ [t] \<and> current_task (k_sched k') = current_task (k_sched k) \<and>
    task_id t = k_next_id k \<and> k_next_id k' = k_next_id k + 1 \<and> task_state t = Ready \<and> is_user t \<and>
    stub_restore (k_mem k') (task_rsp t) =
      \<lparr>rax = 0, rcx = 0, rdx = 0, rbx = 0, rbp = 0, rsi = 0, rdi = 0, r8 = 0, r9 = 0, r10 = 0, r11 = 0,
       r12 = 0, r13 = 0, r14 = 0, r15 = 0, rip = e_entry h, cs_sel = 0x23, rflags = 0x202, rsp = 0x508000, ss_sel = 0x1B\<rparr> \<and>
    user_inv (task_cr3 t) (k_mm k') \<and> unat (heap_end t) = fold max (map seg_end (loadable phs)) 0 \<and>
    (\<forall>w. unat w < 0x500000 \<and> covered (loadable phs) (unat w) \<longrightarrow>
       (\<exists>p wr. walk (ram (k_mm k')) (task_cr3 t) w = Some (p, wr, True) \<and>
          ram (k_mm k') p = image_byte (tar_data f) (loadable phs) (unat w) 0)) \<and>
    (\<forall>w. 0x500000 \<le> unat w \<and> unat w < 0x508000 \<longrightarrow> (\<exists>p. walk (ram (k_mm k')) (task_cr3 t) w = Some (p, True, True)))"
proof -
  have p: "elf_header (tar_data f) = Inr h" "is_valid h"
    "list_all2 (\<lambda>i ph. program_header (tar_data f) h i = Inr ph) [0 ..< unat (e_phnum h)] phs"
    "\<forall>ph \<in> set phs. p_type ph = PT_LOAD \<longrightarrow> seg_ok (tar_data f) ph" "length (tar_data f) < usize_bound"
    using assms(2) by (auto simp: program_def)
  have r: "pmm_inv (frames (k_mm k))" "kt_ok kt" "kernel_half kt (ram (k_mm k))"
    "\<forall>t \<in> set (kt_list kt). unat t div PAGE_SIZE \<notin> free_set (frames (k_mm k))"
    "frames_for (loadable phs) + 38 \<le> card (free_set (frames (k_mm k)))" using assms(3) by (auto simp: has_room_def)
  obtain im st' where im: "load_image kt (tar_data f) (k_mm k) = (Inr im, st')" "user_inv (img_cr3 im) st'"
      "img_entry im = e_entry h" "img_stack_top im = 0x508000" "unat (img_heap_end im) = fold max (map seg_end (loadable phs)) 0"
    and all: "\<forall>w. unat w < 0x500000 \<longrightarrow> (if covered (loadable phs) (unat w)
       then \<exists>p wr. walk (ram st') (img_cr3 im) w = Some (p, wr, True) \<and> ram st' p = image_byte (tar_data f) (loadable phs) (unat w) 0
       else fst (lookup_page (img_cr3 im) w st') = Inr None)"
    and stk: "\<forall>w. 0x500000 \<le> unat w \<and> unat w < 0x508000 \<longrightarrow> (\<exists>p. walk (ram st') (img_cr3 im) w = Some (p, True, True))"
    using load_image_ok [OF r(1-4) p loadable_def r(5)] by blast
  have low: "\<exists>p wr. walk (ram st') (img_cr3 im) w = Some (p, wr, True) \<and>
       ram st' p = image_byte (tar_data f) (loadable phs) (unat w) 0" if "unat w < 0x500000 \<and> covered (loadable phs) (unat w)" for w
    using all [rule_format, of w] that by (simp only: if_True)
  obtain t :: "VfsNode Task" and m where new: "task_new stk (k_next_id k) (e_entry h) 0x508000 (img_cr3 im) True (k_mem k) = (t, m)"
    by (metis surj_pair)
  from task_new_frame [OF assms(4), where i = "k_next_id k" and entry = "e_entry h" and st = "0x508000" and cr3v = "img_cr3 im"
      and user = True and m = "k_mem k" and ?'a = VfsNode] new
  have T: "stub_restore m (task_rsp t) =
      \<lparr>rax = 0, rcx = 0, rdx = 0, rbx = 0, rbp = 0, rsi = 0, rdi = 0, r8 = 0, r9 = 0, r10 = 0, r11 = 0,
       r12 = 0, r13 = 0, r14 = 0, r15 = 0, rip = e_entry h, cs_sel = 0x23, rflags = 0x202, rsp = 0x508000, ss_sel = 0x1B\<rparr>"
    "task_cr3 t = img_cr3 im" "task_state t = Ready" "is_user t" "task_id t = k_next_id k"
    by auto
  let ?t = "t\<lparr>heap_end := img_heap_end im\<rparr>"
  let ?k = "k\<lparr>k_mm := st', k_mem := m, k_next_id := k_next_id k + 1, k_sched := add_task ?t (k_sched k)\<rparr>"
  have "spawn_process dev kt stk path k = (Inr (), ?k)"
    unfolding spawn_ramdisk [OF assms(1)] using im(1,3,4) new by (simp add: bindS_def on_mm_def start_task_def)
  then show ?thesis
  proof (intro exI [of _ ?k] exI [of _ ?t] conjI allI impI)
    fix w :: u64
    show "\<exists>p wr. walk (ram (k_mm ?k)) (task_cr3 ?t) w = Some (p, wr, True) \<and>
        ram (k_mm ?k) p = image_byte (tar_data f) (loadable phs) (unat w) 0"
      if "unat w < 0x500000 \<and> covered (loadable phs) (unat w)" using low [OF that] T(2) by simp
    show "\<exists>p. walk (ram (k_mm ?k)) (task_cr3 ?t) w = Some (p, True, True)"
      if "0x500000 \<le> unat w \<and> unat w < 0x508000" using stk that T(2) by simp
  qed (use T im(2,5) in \<open>simp_all add: add_task_def\<close>)
qed

text \<open>A file that is no executable is refused and nothing changes.\<close>

lemma spawn_refuses:
  assumes "on_ramdisk k path f" and "elf_header (tar_data f) = Inr h" and "\<not> is_valid h"
  shows "spawn_process dev kt stk path k = (Inl (Err ''''), k)"
  unfolding spawn_ramdisk [OF assms(1)] using assms(2,3) by (simp add: bindS_def on_mm_def load_image_def)

text \<open>A kernel with the one-instruction program on its ram disk.\<close>

definition demo_kernel :: "mm \<Rightarrow> (nat \<Rightarrow> sector) ahci kernel" where
  "demo_kernel st = \<lparr>k_mm = st, k_mem = (\<lambda>_. 0), k_next_id = 1,
     k_sched = \<lparr>tasks = [], current_task = Some (main_task 0 0x200000)\<rparr>, k_pipes = pipes_new, k_keys = kbuf_init,
     k_vfs = vfs_init (TarFsNode \<lparr>tar_files = [\<lparr>tar_name = [0x61], tar_data = demo_elf\<rparr>]\<rparr>) VFS, k_disk = demo_ahci,
     k_ticks = 0, k_cr3 = 0x200000, k_wp = True, k_serial = [], k_writer = Some demo_writer\<rparr>"

lemma demo_on_ramdisk: "on_ramdisk (demo_kernel st) [0x2F, 0x61] \<lparr>tar_name = [0x61], tar_data = demo_elf\<rparr>"
  by (simp add: on_ramdisk_def demo_kernel_def vfs_init_def VFS_def trim_start_matches_def starts_with_def mnt_disk_def components_def)

lemma demo_program: "\<exists>h. program demo_elf h [demo_phdr] \<and> e_entry h = 0x400000"
proof -
  obtain h where h: "elf_header demo_elf = Inr h" "is_valid h" "e_phnum h = 1" "e_phoff h = 64" "e_entry h = 0x400000"
    using demo_elf_header by blast
  moreover have "length demo_elf < usize_bound" by (simp add: demo_elf_def usize_bound_def)
  ultimately show ?thesis using demo_program_header demo_seg by (auto simp: program_def)
qed

theorem spawn_process_correct_witness:
  "\<exists>st k' t. spawn_process (ahci_device ram_hba) demo_kt 0x10000 [0x2F, 0x61] (demo_kernel st) = (Inr (), k') \<and>
     tasks (k_sched k') = [t] \<and> rip (stub_restore (k_mem k') (task_rsp t)) = 0x400000"
proof -
  obtain s :: mm where s: "pmm_inv (frames s)" "kernel_half demo_kt (ram s)"
    "\<forall>t \<in> set (kt_list demo_kt). unat t div PAGE_SIZE \<notin> free_set (frames s)" "card (free_set (frames s)) = 64"
    by (rule demo64_kernel)
  obtain h where h: "program demo_elf h [demo_phdr]" "e_entry h = 0x400000" using demo_program by blast
  have "has_room demo_kt [demo_phdr] (k_mm (demo_kernel s))"
    using s demo_kt_ok by (simp add: has_room_def demo_kernel_def loadable_def demo_seg)
  moreover have "program (tar_data \<lparr>tar_name = [0x61], tar_data = demo_elf\<rparr>) h [demo_phdr]" using h by simp
  moreover have "aligned 3 0x10000" by (simp add: aligned_def)
  ultimately obtain k' t where "spawn_process (ahci_device ram_hba) demo_kt 0x10000 [0x2F, 0x61] (demo_kernel s) = (Inr (), k')"
    "tasks (k_sched k') = tasks (k_sched (demo_kernel s)) @ [t]" "rip (stub_restore (k_mem k') (task_rsp t)) = e_entry h"
    using spawn_process_correct [OF demo_on_ramdisk, where dev = "ahci_device ram_hba"] by fastforce
  then show ?thesis using h(2) by (intro exI [of _ s] exI [of _ k'] exI [of _ t]) (simp add: demo_kernel_def)
qed

end
