(* ===== verification/Syscall.thy ===== *)
theory Syscall
  imports Kernel
begin

text \<open>
  The system calls (ross-kernel/src/syscall.rs): one definition per arm of \<^verbatim>\<open>syscall_dispatch\<close>, over
  the kernel state. Every call returns a \<^verbatim>\<open>u64\<close>; \<^verbatim>\<open>u64::MAX\<close> is the only error code.
\<close>

section \<open>The calls\<close>

definition u64_MAX :: u64 where
  "u64_MAX = 0xFFFFFFFFFFFFFFFF"

text \<open>\<^verbatim>\<open>for &b in slice { out(b) }\<close> over a slice in the memory of the process.\<close>

primrec print_user :: "(u8 \<Rightarrow> ('s kernel, unit) op) \<Rightarrow> nat \<Rightarrow> u64 \<Rightarrow> ('s kernel, unit) op" where
  "print_user out 0 v = retS ()"
| "print_user out (Suc n) v = bindS (ld8 v) (\<lambda>b. bindS (out b) (\<lambda>_. print_user out n (v + 1)))"

definition serial_print_byte :: "u8 \<Rightarrow> ('s kernel, unit) op" where
  "serial_print_byte b = modS (\<lambda>k. k\<lparr>k_serial := k_serial k @ [b]\<rparr>)"

definition serial_print :: "str \<Rightarrow> ('s kernel, unit) op" where
  "serial_print s = modS (\<lambda>k. k\<lparr>k_serial := k_serial k @ s\<rparr>)"

definition LOG_PREFIX :: str where
  "LOG_PREFIX = [0x5B, 0x53, 0x59, 0x53, 0x43, 0x41, 0x4C, 0x4C, 0x20, 0x4C, 0x4F, 0x47, 0x5D, 0x20]"

definition sys_log :: "u64 \<Rightarrow> u64 \<Rightarrow> ('s kernel, u64) op" where
  "sys_log ptr len =
     bindS (serial_print LOG_PREFIX) (\<lambda>_.
     bindS (print_user serial_print_byte (unat len) ptr) (\<lambda>_.
     bindS (serial_print [0x0A]) (\<lambda>_.
     retS 0)))"

definition sys_uptime :: "('s kernel, u64) op" where
  "sys_uptime = getS k_ticks"

text \<open>
  \<^verbatim>\<open>alloc\<close> in the table of the current task, if there is one, and the descriptor or the error code.
\<close>

definition install_fd :: "VfsNode FdEntry \<Rightarrow> ('s kernel, u64) op" where
  "install_fd e = (\<lambda>k. case current_task (k_sched k) of
       Some task \<Rightarrow>
         (case fd_alloc e (fd_table task) of
            (Some fd, tbl) \<Rightarrow> (Inr (of_nat fd), set_current (task\<lparr>fd_table := tbl\<rparr>) k)
          | (None, tbl) \<Rightarrow> (Inr u64_MAX, set_current (task\<lparr>fd_table := tbl\<rparr>) k))
     | None \<Rightarrow> (Inr u64_MAX, k))"

definition sys_pipe :: "('s kernel, u64) op" where
  "sys_pipe = (\<lambda>k. case ipc_create (k_pipes k) of
       (Some pipe_id, tbl) \<Rightarrow> install_fd (PipeFd pipe_id) (k\<lparr>k_pipes := tbl\<rparr>)
     | (None, tbl) \<Rightarrow> (Inr u64_MAX, k\<lparr>k_pipes := tbl\<rparr>))"

text \<open>The entry of a descriptor of the current task.\<close>

definition current_fd :: "nat \<Rightarrow> 's kernel \<Rightarrow> VfsNode FdEntry option" where
  "current_fd fd k = (case current_task (k_sched k) of Some t \<Rightarrow> fd_get (fd_table t) fd | None \<Rightarrow> None)"

definition put_printable :: "u8 \<Rightarrow> ('s kernel, unit) op" where
  "put_printable b = (if b = 0x0A then on_writer (put_char 0x0A FG 1)
     else if 0x21 \<le> b \<and> b \<le> 0x7E \<or> b = 0x20 then on_writer (put_char b FG 1) else retS ())"

text \<open>
  \<^verbatim>\<open>ipc::write\<close> reads no more bytes of the slice than the pipe has room for.
\<close>

definition pipe_room :: "nat \<Rightarrow> PipeTable \<Rightarrow> nat" where
  "pipe_room i tbl = (case get_pipe tbl i of None \<Rightarrow> 0 | Some p \<Rightarrow> if closed p then 0 else MAX_PIPE_BYTES - length (buffer p))"

definition write_pipe :: "nat \<Rightarrow> u64 \<Rightarrow> nat \<Rightarrow> ('s kernel, u64) op" where
  "write_pipe i ptr len =
     bindS (getS (\<lambda>k. min len (pipe_room i (k_pipes k)))) (\<lambda>n.
     bindS (ld_bytes n ptr) (\<lambda>data.
     (\<lambda>k. case ipc_write i data (k_pipes k) of
        (Inr n, tbl) \<Rightarrow> (Inr (of_nat n), k\<lparr>k_pipes := tbl\<rparr>)
      | (Inl e, tbl) \<Rightarrow> (Inr u64_MAX, k\<lparr>k_pipes := tbl\<rparr>))))"

definition sys_write :: "u64 \<Rightarrow> u64 \<Rightarrow> u64 \<Rightarrow> ('s kernel, u64) op" where
  "sys_write fd ptr len =
     (if len = 0 then retS 0
      else if fd = 1 then bindS (on_writer (retS ())) (\<lambda>_. bindS (print_user put_printable (unat len) ptr) (\<lambda>_. retS len))
      else if fd = 2 then bindS (print_user serial_print_byte (unat len) ptr) (\<lambda>_. retS len)
      else bindS (getS (current_fd (unat fd))) (\<lambda>e.
        case e of Some (PipeFd i) \<Rightarrow> write_pipe i ptr (unat len) | _ \<Rightarrow> retS u64_MAX))"

text \<open>Standard input: scancodes from the ring until the slice is full or the ring is empty.\<close>

primrec read_keys :: "nat \<Rightarrow> u64 \<Rightarrow> u64 \<Rightarrow> ('s kernel, u64) op" where
  "read_keys 0 v n = retS n"
| "read_keys (Suc len) v n = (\<lambda>k. case kbuf_pop (k_keys k) of
       (None, kb) \<Rightarrow> (Inr n, k\<lparr>k_keys := kb\<rparr>)
     | (Some b, kb) \<Rightarrow> bindS (st8 v b) (\<lambda>_. read_keys len (v + 1) (n + 1)) (k\<lparr>k_keys := kb\<rparr>))"

definition read_pipe :: "nat \<Rightarrow> u64 \<Rightarrow> nat \<Rightarrow> ('s kernel, u64) op" where
  "read_pipe i ptr len = (\<lambda>k. case ipc_read i len (k_pipes k) of
       (Inr bs, tbl) \<Rightarrow> bindS (st_bytes ptr bs) (\<lambda>_. retS (of_nat (length bs))) (k\<lparr>k_pipes := tbl\<rparr>)
     | (Inl e, tbl) \<Rightarrow> (Inr u64_MAX, k\<lparr>k_pipes := tbl\<rparr>))"

text \<open>
  \<^verbatim>\<open>*off += n\<close> on the entry of the descriptor, if it still is a file. In \<open>read_file\<close> the bytes reach
  the memory of the process once the file is read: a read that fails half way leaves the buffer of the process
  as it was, where the code may have filled a part of it.
\<close>

definition advance_fd :: "nat \<Rightarrow> nat \<Rightarrow> ('s kernel, unit) op" where
  "advance_fd fd n = (\<lambda>k. case current_task (k_sched k) of
       Some task \<Rightarrow>
         (case fd_get (fd_table task) fd of
            Some (VfsFile node off) \<Rightarrow>
              (case usize_add off n of
                 Inl e \<Rightarrow> (Inl e, k)
               | Inr off' \<Rightarrow> (Inr (), set_current (task\<lparr>fd_table := fd_set fd (VfsFile node off') (fd_table task)\<rparr>) k))
          | _ \<Rightarrow> (Inr (), k))
     | None \<Rightarrow> (Inr (), k))"

definition read_file :: "'s device \<Rightarrow> nat \<Rightarrow> VfsNode \<Rightarrow> nat \<Rightarrow> u64 \<Rightarrow> nat \<Rightarrow> ('s kernel, u64) op" where
  "read_file dev fd node off ptr len =
     matchS (on_dev (vn_read dev node off (replicate len 0)))
       (\<lambda>(n, buf). bindS (st_bytes ptr (take n buf)) (\<lambda>_. bindS (advance_fd fd n) (\<lambda>_. retS (of_nat n))))
       (\<lambda>_. retS u64_MAX)"

definition sys_read :: "'s device \<Rightarrow> u64 \<Rightarrow> u64 \<Rightarrow> u64 \<Rightarrow> ('s kernel, u64) op" where
  "sys_read dev fd ptr len =
     (if len = 0 then retS 0
      else if fd = 0 then read_keys (unat len) ptr 0
      else bindS (getS (current_fd (unat fd))) (\<lambda>e.
        case e of
          Some (PipeFd i) \<Rightarrow> read_pipe i ptr (unat len)
        | Some (VfsFile node off) \<Rightarrow> read_file dev (unat fd) node off ptr (unat len)
        | _ \<Rightarrow> retS u64_MAX))"

text \<open>The digits that \<^verbatim>\<open>{}\<close> prints for an unsigned number.\<close>

fun decimal :: "nat \<Rightarrow> str" where
  "decimal n = (if n < 10 then [0x30 + of_nat n] else decimal (n div 10) @ [0x30 + of_nat (n mod 10)])"

declare decimal.simps [simp del]

definition EXIT_PREFIX :: str where
  "EXIT_PREFIX = [0x5B, 0x53, 0x59, 0x53, 0x43, 0x41, 0x4C, 0x4C, 0x5D, 0x20, 0x73, 0x79, 0x73, 0x5F, 0x65, 0x78, 0x69, 0x74, 0x28]"

definition sys_exit :: "u64 \<Rightarrow> ('s kernel, u64) op" where
  "sys_exit code =
     bindS (serial_print (EXIT_PREFIX @ decimal (unat code) @ [0x29, 0x0A])) (\<lambda>_.
     (\<lambda>k. case current_task (k_sched k) of
        Some task \<Rightarrow> (Inr 0, set_current (task\<lparr>task_state := Dead\<rparr>) k)
      | None \<Rightarrow> (Inr 0, k)))"

text \<open>The loop of \<^verbatim>\<open>sys_brk\<close>; it returns the address it reached.\<close>

function brk_loop :: "u64 \<Rightarrow> u64 \<Rightarrow> u64 \<Rightarrow> (mm, u64) op" where
  "brk_loop c3 addr new_brk st =
     (if addr < new_brk then
        (case alloc_page (frames st) of
           (None, s) \<Rightarrow> (Inr addr, st\<lparr>frames := s\<rparr>)
         | (Some phys, s) \<Rightarrow>
             bindS (table_at phys) (\<lambda>kptr.
             bindS (clear_table kptr) (\<lambda>_.
             bindS (map_user_page c3 addr (of_nat phys) 7) (\<lambda>_.
             if unat addr + 4096 < 2 ^ 64 then brk_loop c3 (addr + 4096) new_brk
             else throwS (Panic ''attempt to add with overflow'')))) (st\<lparr>frames := s\<rparr>))
      else (Inr addr, st))"
  by pat_completeness auto
termination
  by (relation "measure (\<lambda>(_, addr, new_brk, _). unat new_brk - unat addr)")
    (auto simp: word_less_nat_alt unat_word_ariths)

declare brk_loop.simps [simp del]

definition sys_brk :: "u64 \<Rightarrow> ('s kernel, u64) op" where
  "sys_brk new_brk = (\<lambda>k. case current_task (k_sched k) of
       Some task \<Rightarrow>
         if new_brk = 0 then (Inr (heap_end task), k)
         else if heap_end task < new_brk then
           bindS (on_mm (brk_loop (task_cr3 task) (heap_end task) new_brk)) (\<lambda>addr.
           bindS (modS (set_current (task\<lparr>heap_end := addr\<rparr>))) (\<lambda>_.
           retS addr)) k
         else (Inr (heap_end task), k)
     | None \<Rightarrow> (Inr 0, k))"

definition set_heap_end :: "u64 \<Rightarrow> 's kernel \<Rightarrow> 's kernel" where
  "set_heap_end a k = (case current_task (k_sched k) of
       Some task \<Rightarrow> set_current (task\<lparr>heap_end := a\<rparr>) k
     | None \<Rightarrow> k)"

definition mul_pages :: "nat \<Rightarrow> u64 res" where
  "mul_pages n = (if n * 4096 < 2 ^ 64 then Inr (of_nat (n * 4096)) else Inl (Panic ''attempt to multiply with overflow''))"

definition sys_mmap :: "u64 \<Rightarrow> ('s kernel, u64) op" where
  "sys_mmap len =
     (if len = 0 then retS u64_MAX
      else bindS (liftS (usize_add (unat len) 4095)) (\<lambda>sum.
        let pages = sum div 4096 in
        (\<lambda>k. case current_task (k_sched k) of
           Some task \<Rightarrow>
             let base = heap_end task in
             matchS (on_mm (alloc_anon (task_cr3 task) base pages))
               (\<lambda>_. bindS (liftS (bindR (mul_pages pages) (add64 base))) (\<lambda>e.
                    bindS (modS (set_heap_end e)) (\<lambda>_. retS base)))
               (\<lambda>_. retS u64_MAX) k
         | None \<Rightarrow> (Inr u64_MAX, k))))"

text \<open>
  The path of \<^verbatim>\<open>sys_open\<close>: bytes up to a zero, each pushed as a character, until the string
  has 512 bytes.
\<close>

function read_path :: "u64 \<Rightarrow> str \<Rightarrow> ('s kernel, str) op" where
  "read_path p s = bindS (ld8 p) (\<lambda>b.
     if b = 0 \<or> 512 \<le> length s then retS s else read_path (p + 1) (s @ utf8_latin1 b))"
  by pat_completeness auto
termination
  by (relation "measure (\<lambda>(p, s). 512 - length s)") (auto simp: utf8_latin1_def)

declare read_path.simps [simp del]

definition sys_open :: "'s device \<Rightarrow> u64 \<Rightarrow> ('s kernel, u64) op" where
  "sys_open dev path_ptr =
     bindS (read_path path_ptr []) (\<lambda>path.
     bindS (getS k_vfs) (\<lambda>vfs.
     matchS (on_dev (vfs_open dev vfs path))
       (\<lambda>node. install_fd (VfsFile node 0))
       (\<lambda>_. retS u64_MAX)))"

definition sys_close :: "u64 \<Rightarrow> ('s kernel, u64) op" where
  "sys_close fd = (\<lambda>k. case current_task (k_sched k) of
       Some task \<Rightarrow>
         (case fd_close (unat fd) (fd_table task) of
            (b, tbl) \<Rightarrow> (Inr (if b then 0 else u64_MAX), set_current (task\<lparr>fd_table := tbl\<rparr>) k))
     | None \<Rightarrow> (Inr u64_MAX, k))"

definition syscall_dispatch :: "'s device \<Rightarrow> u64 \<Rightarrow> u64 \<Rightarrow> u64 \<Rightarrow> u64 \<Rightarrow> ('s kernel, u64) op" where
  "syscall_dispatch dev nr arg1 arg2 arg3 =
     (if nr = 1 then sys_log arg1 arg2
      else if nr = 2 then sys_uptime
      else if nr = 3 then sys_pipe
      else if nr = 4 then sys_write arg1 arg2 arg3
      else if nr = 5 then sys_read dev arg1 arg2 arg3
      else if nr = 6 then sys_exit arg1
      else if nr = 7 then sys_brk arg1
      else if nr = 8 then sys_mmap arg1
      else if nr = 9 then sys_open dev arg1
      else if nr = 10 then sys_close arg1
      else retS u64_MAX)"

end
