(* ===== verification/UserCalls.thy ===== *)
theory UserCalls
  imports Spawn Syscall
begin

text \<open>
  The system calls as a process sees them: through the bytes of its own memory.
\<close>

section \<open>The break\<close>

text \<open>A new page of zeros.\<close>

lemma user_anon_step:
  assumes inv: "user_inv c st" and nh: "\<not> in_huge (ram st) c v" and free: "4 \<le> card (free_set (frames st))"
    and v: "unat v < 2 ^ 48" and al: "alloc_page (frames st) = (Some a, s)"
  obtains st' where "bindS (table_at a) (\<lambda>kptr. bindS (clear_table kptr) (\<lambda>_. map_user_page c v (of_nat a) 7)) (st\<lparr>frames := s\<rparr>) = (Inr (), st')"
    and "user_step c (\<lambda>w b. if w div 4096 = unat v div 4096 then Some 0 else b) 4 st st'"
    and "\<And>w. vpn w = vpn v \<Longrightarrow> \<exists>p. walk (ram st') c w = Some (p, True, True)"
    and "\<And>w. vpn w \<noteq> vpn v \<Longrightarrow> walk (ram st') c w = walk (ram st) c w"
proof -
  define st1 where "st1 = st\<lparr>frames := s\<rparr>"
  note A = user_alloc [OF inv al st1_def]
  let ?a = "of_nat a :: u64"
  define st2 where "st2 = st1\<lparr>ram := zero_page ?a (ram st1)\<rparr>"
  have touch: "touched_only {?a} (ram st1) (ram st2)"
    using wr_bytes_page(1) [OF A(2), of 0 "replicate 4096 0"] by (simp add: touched_only_def st2_def zero_page_bytes)
  have pm: "pmm_inv (frames st2)" "free_set (frames st2) \<subseteq> free_set (frames st1)"
    using pt_invD(1) [OF user_invD(1) [OF A(1)]] by (simp_all add: st2_def)
  have P: "p \<notin> {?a}" if "mapped (ram st1) c x = Some p" for x p using A(7) that by auto
  have T: "{?a} \<inter> tables_of (ram st1) c = {}" using A(6) by simp
  note U = user_untouched [OF A(1) touch T P pm]
  have r: "ram st1 = ram st" by (simp add: st1_def)
  have zero: "ram st2 (?a OR take_bit 12 w) = 0" for w
    using wr_bytes_page(2) [OF A(2), of 0 "replicate 4096 0" "ram st1" w] offset_in_page [of w]
    by (simp add: st2_def zero_page_bytes Let_def)
  have c: "3 \<le> card (free_set (frames st2))" "\<not> in_huge (ram st2) c v" "unat ?a div PAGE_SIZE \<notin> free_set (frames st2)"
    "?a \<notin> tables_of (ram st2) c" "\<And>w. mapped (ram st2) c w \<noteq> Some ?a"
    using A(4-7,10) free U nh by (auto simp: r st2_def)
  define f :: u64 where "f = 7"
  have fl: "unat f < 4096" by (simp add: f_def)
  obtain st' where run: "map_user_page c v ?a 7 st2 = (Inr (), st')" and u: "user_inv c st'"
    and m: "\<And>w. mapped (ram st') c w = (if vpn w = vpn v then Some ?a else mapped (ram st2) c w)"
    and im: "\<And>w. img c st' w = (if vpn w = vpn v then Some (ram st2 (?a OR take_bit 12 w)) else img c st2 w)"
    and wk: "\<And>w. walk (ram st') c w = (if vpn w = vpn v then Some (?a OR take_bit 12 w, bit (7 :: u64) 1, True) else walk (ram st2) c w)"
    and hg: "in_huge (ram st') c = in_huge (ram st2) c" and fs: "free_set (frames st') \<subseteq> free_set (frames st2)"
    and cd: "card (free_set (frames st2)) \<le> card (free_set (frames st')) + 3"
    unfolding f_def [symmetric]
    by (rule user_map [OF U(1) c(2,1) A(2,3) c(3,4) c(5) fl]) blast+
  have b: "bit (7 :: u64) 1" by simp
  have "card (free_set (frames st)) \<le> card (free_set (frames st')) + 4" using cd A(10) by (simp add: st2_def)
  then have "user_step c (\<lambda>w b. if w div 4096 = unat v div 4096 then Some 0 else b) 4 st st'"
    unfolding user_step_def using u hg fs A(8,9) U im v zero by (auto simp: vpn_low r st2_def)
  moreover have "bindS (table_at a) (\<lambda>kptr. bindS (clear_table kptr) (\<lambda>_. map_user_page c v ?a 7)) (st\<lparr>frames := s\<rparr>) = (Inr (), st')"
    using run table_at_ok [OF A(3)] by (simp add: bindS_def A(4) clear_table_def st1_def st2_def)
  ultimately show ?thesis using that [of st'] wk U(4) b by (simp add: r)
qed

text \<open>The pages from \<open>lo\<close> up to \<open>hi\<close> become zeros that the process can read and write.\<close>

definition zeroed :: "nat \<Rightarrow> nat \<Rightarrow> nat \<Rightarrow> u8 option \<Rightarrow> u8 option" where
  "zeroed lo hi w b = (if lo \<le> w \<and> w < hi then Some 0 else b)"

lemma page_cut:
  fixes w A :: nat
  assumes "A mod 4096 = 0"
  shows "w div 4096 = A div 4096 \<longleftrightarrow> A \<le> w \<and> w < A + 4096"
proof -
  obtain k where k: "A = 4096 * k" using assms by (auto simp: mod_eq_0_iff_dvd dvd_def)
  have "w < 4096 * (w div 4096) + 4096" by (simp add: dividend_less_times_div)
  moreover have "w div 4096 = k" if "4096 * k \<le> w" "w < 4096 * k + 4096" using that by (intro div_nat_eqI) simp_all
  ultimately show ?thesis using k by auto
qed

lemma brk_loop_ok:
  assumes "user_inv c st" and "unat a mod 4096 = 0" and "unat a + 4096 * n < 2 ^ 47" and "4 * n \<le> card (free_set (frames st))"
    and "\<forall>v. unat a \<le> unat v \<and> unat v < unat a + 4096 * n \<longrightarrow> \<not> in_huge (ram st) c v"
    and "unat b \<le> unat a + 4096 * n" and "n \<noteq> 0 \<longrightarrow> unat a + 4096 * (n - 1) < unat b"
  shows "okS (brk_loop c a b) st (\<lambda>x st'. x = a + 4096 * of_nat n \<and> user_step c (zeroed (unat a) (unat a + 4096 * n)) (4 * n) st st' \<and>
    (\<forall>w. unat w < 2 ^ 48 \<longrightarrow> (if unat a \<le> unat w \<and> unat w < unat a + 4096 * n then \<exists>p. walk (ram st') c w = Some (p, True, True)
       else walk (ram st') c w = walk (ram st) c w)))"
  using assms
proof (induction n arbitrary: a st)
  case 0
  have "brk_loop c a b st = (Inr a, st)" using 0 by (simp add: brk_loop.simps word_less_nat_alt)
  then show ?case using 0(1) by (intro okS_I) (auto simp: user_step_def zeroed_def)
next
  case (Suc n)
  have lt: "a < b" using Suc.prems(7) by (simp add: word_less_nat_alt)
  have a: "unat a < 2 ^ 48" "unat a + 4096 < 2 ^ 64" using Suc.prems(3) by simp_all
  have nxt: "unat (a + 4096) = unat a + 4096" using a by (simp add: unat_word_ariths)
  have "\<not> in_huge (ram st) c a" "4 \<le> card (free_set (frames st))" using Suc.prems(4,5) by simp_all
  moreover obtain p s where al: "alloc_page (frames st) = (Some p, s)"
    using alloc_page_some [OF Suc.prems(1)] Suc.prems(4) by fastforce
  ultimately obtain st1 where run: "bindS (table_at p) (\<lambda>kptr. bindS (clear_table kptr) (\<lambda>_. map_user_page c a (of_nat p) 7)) (st\<lparr>frames := s\<rparr>) = (Inr (), st1)"
    and step: "user_step c (\<lambda>w b. if w div 4096 = unat a div 4096 then Some 0 else b) 4 st st1"
    and wk: "\<And>w. vpn w = vpn a \<Longrightarrow> \<exists>p. walk (ram st1) c w = Some (p, True, True)" "\<And>w. vpn w \<noteq> vpn a \<Longrightarrow> walk (ram st1) c w = walk (ram st) c w"
    using user_anon_step [OF Suc.prems(1) _ _ a(1)] by blast
  have loop: "brk_loop c a b st = brk_loop c (a + 4096) b st1"
  proof -
    have "brk_loop c a b st = bindS (bindS (table_at p) (\<lambda>kptr. bindS (clear_table kptr) (\<lambda>_. map_user_page c a (of_nat p) 7)))
        (\<lambda>_. brk_loop c (a + 4096) b) (st\<lparr>frames := s\<rparr>)"
      using lt al a(2) by (simp add: brk_loop.simps [of c a b st] bindS_assoc)
    then show ?thesis using run by (simp add: bindS_def)
  qed
  have k: "n \<noteq> 0 \<longrightarrow> unat a + 4096 + 4096 * (n - 1) < unat b" using Suc.prems(7) by (cases n) simp_all
  have "okS (brk_loop c (a + 4096) b) st1 (\<lambda>x st'. x = a + 4096 + 4096 * of_nat n \<and>
      user_step c (zeroed (unat a + 4096) (unat a + 4096 + 4096 * n)) (4 * n) st1 st' \<and>
      (\<forall>w. unat w < 2 ^ 48 \<longrightarrow> (if unat a + 4096 \<le> unat w \<and> unat w < unat a + 4096 + 4096 * n then \<exists>p. walk (ram st') c w = Some (p, True, True)
         else walk (ram st') c w = walk (ram st1) c w)))"
    unfolding nxt [symmetric]
    by (rule Suc.IH) (use Suc.prems(1-6) step k in \<open>simp_all add: nxt user_step_def\<close>)
  then show ?case unfolding okS_def loop
  proof (elim exE conjE, intro exI conjI)
    fix x st' assume x: "x = a + 4096 + 4096 * of_nat n"
      and s2: "user_step c (zeroed (unat a + 4096) (unat a + 4096 + 4096 * n)) (4 * n) st1 st'"
      and w2: "\<forall>w. unat w < 2 ^ 48 \<longrightarrow> (if unat a + 4096 \<le> unat w \<and> unat w < unat a + 4096 + 4096 * n then \<exists>p. walk (ram st') c w = Some (p, True, True)
         else walk (ram st') c w = walk (ram st1) c w)"
    show "x = a + 4096 * of_nat (Suc n)" using x by (simp add: algebra_simps)
    show "user_step c (zeroed (unat a) (unat a + 4096 * Suc n)) (4 * Suc n) st st'"
      using user_step_trans [OF step s2] by (rule user_step_mono) (auto simp: zeroed_def page_cut [OF Suc.prems(2)])
    show "\<forall>w. unat w < 2 ^ 48 \<longrightarrow> (if unat a \<le> unat w \<and> unat w < unat a + 4096 * Suc n then \<exists>p. walk (ram st') c w = Some (p, True, True)
       else walk (ram st') c w = walk (ram st) c w)"
    proof (intro allI impI)
      fix w :: u64 assume w: "unat w < 2 ^ 48"
      have v: "vpn w = vpn a \<longleftrightarrow> unat a \<le> unat w \<and> unat w < unat a + 4096"
        by (simp add: vpn_low [OF w a(1)] page_cut [OF Suc.prems(2)])
      show "if unat a \<le> unat w \<and> unat w < unat a + 4096 * Suc n then \<exists>p. walk (ram st') c w = Some (p, True, True)
       else walk (ram st') c w = walk (ram st) c w"
        using w2 [rule_format, OF w] wk [of w] v by (auto split: if_splits)
    qed
  qed assumption
qed

lemma pages_up:
  fixes lo hi n :: nat
  assumes "lo < hi" and "n = (hi - lo + 4095) div 4096"
  shows "hi \<le> lo + 4096 * n" and "n \<noteq> 0 \<longrightarrow> lo + 4096 * (n - 1) < hi" and "lo + 4096 * n < hi + 4096"
proof -
  have a: "hi - lo + 4095 < 4096 * n + 4096" "4096 * n \<le> hi - lo + 4095"
    unfolding assms(2) by (simp_all add: dividend_less_times_div)
  then show "hi \<le> lo + 4096 * n" and "lo + 4096 * n < hi + 4096" using assms(1) by linarith+
  have "4096 * (n - 1) = 4096 * n - 4096" by (simp add: diff_mult_distrib2)
  then show "n \<noteq> 0 \<longrightarrow> lo + 4096 * (n - 1) < hi" using a assms(1) by auto
qed


section \<open>Files\<close>

lemma writable_mono: "writable k a n \<Longrightarrow> m \<le> n \<Longrightarrow> writable k a m"
  by (simp add: writable_def)

lemma stored_some: "b \<noteq> None \<Longrightarrow> stored a bs w b \<noteq> None"
  by (simp add: stored_def)

text \<open>A store through the page tables takes no right away and no page.\<close>

lemma writable_step:
  assumes "writable k a n" and "user_step (k_cr3 k) (stored b bs) 0 (k_mm k) st'" and "walk (ram st') (k_cr3 k) = walk (ram (k_mm k)) (k_cr3 k)"
    and "k_cr3 k' = k_cr3 k" and "k_mm k' = st'"
  shows "writable k' a n"
proof -
  have "img (k_cr3 k) st' (of_nat (a + j)) \<noteq> None" if "j < n" for j
  proof -
    have j: "a + j < 2 ^ 47" "img (k_cr3 k) (k_mm k) (of_nat (a + j)) \<noteq> None" using assms(1) that by (simp_all add: writable_def del: of_nat_add)
    then have "unat (of_nat (a + j) :: u64) < 2 ^ 48" using unat_of_low [of "a + j"] by (simp del: of_nat_add)
    with j assms(2) show ?thesis by (simp add: user_step_def stored_some del: of_nat_add)
  qed
  then show ?thesis using assms unfolding writable_def by (simp del: of_nat_add)
qed

lemma read_path_ok:
  assumes "user_inv (k_cr3 k) (k_mm k)" and "holds k a (path @ [0])" and "\<forall>b \<in> set path. b \<noteq> 0 \<and> b < 128" and "length s + length path \<le> 512"
  shows "read_path (of_nat a) s k = (Inr (s @ path), k)"
  using assms(2-)
proof (induction path arbitrary: a s)
  case Nil
  then have "ld8 (of_nat a) k = (Inr 0, k)"
    by (intro ld8_img [OF assms(1)]) (simp_all add: holds_Cons unat_of_low)
  then show ?case by (simp add: read_path.simps bindS_def)
next
  case (Cons b path)
  then have "ld8 (of_nat a) k = (Inr b, k)"
    by (intro ld8_img [OF assms(1)]) (simp_all add: holds_Cons unat_of_low)
  moreover have "read_path (of_nat (Suc a)) (s @ [b]) k = (Inr ((s @ [b]) @ path), k)"
    by (rule Cons.IH) (use Cons.prems in \<open>auto simp: holds_Cons\<close>)
  ultimately show ?case using Cons.prems(2,3)
    by (simp add: read_path.simps [of "of_nat a"] bindS_def utf8_latin1_def add.commute)
qed

lemma take_put_at: "take (length xs) (put_at 0 xs buf) = xs"
  by (simp add: put_at_def)

lemma sys_read_ramdisk:
  assumes "user_inv (k_cr3 k) (k_mm k)" and "current_task (k_sched k) = Some t" and "fd_get (fd_table t) fd = Some (VfsFile (TarFileNode f) off)"
    and fd: "0 < fd" "fd < 64" and n: "0 < n" and w: "writable k a n" and len: "length (tar_data f) < usize_bound" "off < usize_bound"
    and m: "m = min n (length (tar_data f) - off)"
  obtains st' where "syscall_dispatch dev 5 (of_nat fd) (of_nat a) (of_nat n) k =
      (Inr (of_nat m), set_current (t\<lparr>fd_table := fd_set fd (VfsFile (TarFileNode f) (off + m)) (fd_table t)\<rparr>) (k\<lparr>k_mm := st'\<rparr>))"
    and "user_step (k_cr3 k) (stored a (take n (drop off (tar_data f)))) 0 (k_mm k) st'" and "walk (ram st') (k_cr3 k) = walk (ram (k_mm k)) (k_cr3 k)"
proof -
  let ?bs = "take n (drop off (tar_data f))"
  have lb: "length ?bs = m" by (simp add: m)
  have "writable k a (length ?bs)" unfolding lb by (rule writable_mono [OF w]) (simp add: m)
  then obtain st' where st: "st_bytes (of_nat a) ?bs k = (Inr (), k\<lparr>k_mm := st'\<rparr>)"
    "user_step (k_cr3 k) (stored a ?bs) 0 (k_mm k) st'" "walk (ram st') (k_cr3 k) = walk (ram (k_mm k)) (k_cr3 k)"
    using st_bytes_ok [OF assms(1)] by metis
  have nn: "unat (of_nat n :: u64) = n" using w by (intro unat_of_low) (simp add: writable_def)
  have f: "unat (of_nat fd :: u64) = fd" using fd by (simp add: unat_of_low)
  have "(of_nat n :: u64) \<noteq> 0" "(of_nat fd :: u64) \<noteq> 0" using n nn fd f by (metis less_irrefl unat_0)+
  moreover have "vn_read dev (TarFileNode f) off (replicate n 0) (k_disk k) = (Inr (m, put_at 0 ?bs (replicate n 0)), k_disk k)"
    by (auto simp: tarfile_read_def Let_def m subslice_def put_at_def min_def)
  then have "on_dev (vn_read dev (TarFileNode f) off (replicate n 0)) k = (Inr (m, put_at 0 ?bs (replicate n 0)), k)" by (simp add: on_dev_kept)
  moreover have "take m (put_at 0 ?bs (replicate n 0)) = ?bs" using take_put_at [of ?bs] unfolding lb .
  moreover have "usize_add off m = Inr (off + m)" using len by (auto simp: usize_add_def m)
  ultimately have "sys_read dev (of_nat fd) (of_nat a) (of_nat n) k =
      (Inr (of_nat m), set_current (t\<lparr>fd_table := fd_set fd (VfsFile (TarFileNode f) (off + m)) (fd_table t)\<rparr>) (k\<lparr>k_mm := st'\<rparr>))"
    using assms(2,3) st(1) by (simp add: sys_read_def bindS_def current_fd_def f nn read_file_def matchS_def advance_fd_def)
  then show ?thesis using that [of st'] st(2,3) by (simp add: syscall_dispatch_def)
qed

lemma sys_open_ramdisk:
  assumes "user_inv (k_cr3 k) (k_mm k)" and "current_task (k_sched k) = Some t" and "fd_inv (fd_table t)"
    and "\<exists>fd. 3 \<le> fd \<and> fd < FD_MAX \<and> fd_get (fd_table t) fd = None"
    and "holds k p (path @ [0])" and "\<forall>b \<in> set path. b \<noteq> 0 \<and> b < 128" and "length path \<le> 512" and "on_ramdisk k path f"
  obtains fd tbl where "syscall_dispatch dev 9 (of_nat p) x y k = (Inr (of_nat fd), set_current (t\<lparr>fd_table := tbl\<rparr>) k)"
    and "3 \<le> fd" and "fd < FD_MAX" and "fd_get (fd_table t) fd = None" and "fd_get tbl fd = Some (VfsFile (TarFileNode f) 0)" and "fd_inv tbl"
proof -
  obtain fd tbl where al: "fd_alloc (VfsFile (TarFileNode f) 0) (fd_table t) = (Some fd, tbl)"
    using fdt.insert_succeeds [OF assms(3)] assms(4) by (metis atLeastLessThan_iff)
  note S = fd_alloc_Some [OF assms(3) al]
  have "fd_get tbl fd = Some (VfsFile (TarFileNode f) 0)" "fd_inv tbl" using S assms(3) by (auto simp: fd_inv_def fd_get_update)
  moreover have rp: "read_path (of_nat p) [] k = (Inr path, k)" using read_path_ok [OF assms(1,5,6), of "[]"] assms(7) by simp
  have "on_dev (vfs_open dev (k_vfs k) path) k = (Inr (TarFileNode f), k)"
    using open_on_ramdisk [OF assms(8), of dev "k_disk k"] by (simp add: on_dev_kept)
  then have "syscall_dispatch dev 9 (of_nat p) x y k = (Inr (of_nat fd), set_current (t\<lparr>fd_table := tbl\<rparr>) k)"
    using rp assms(2) al by (simp add: syscall_dispatch_def sys_open_def bindS_def matchS_def install_fd_def)
  ultimately show ?thesis using that S by blast
qed

lemma fd_set_get: "fd_get tbl fd \<noteq> None \<Longrightarrow> fd_get (fd_set fd e tbl) fd = Some e"
  by (auto simp: fd_set_def fd_get_def split: if_splits)

text \<open>
  \<^bold>\<open>C9.\<close> Opening and reading a file. A process whose memory holds the path of a file of the ram disk, closed by a zero
  byte, and that has a descriptor left, gets a descriptor from \<^verbatim>\<open>sys_open\<close> that was free; a first \<^verbatim>\<open>sys_read\<close> of
  \<open>n\<close> bytes and a second one of \<open>m\<close> bytes put the first \<open>n\<close> and the next \<open>m\<close> bytes of the file, as far as it has them, into
  the buffers of the process and return how many there were; no other byte of the process changes.
\<close>

theorem open_read_file:
  assumes "user_inv (k_cr3 k) (k_mm k)" and "current_task (k_sched k) = Some t" and "fd_inv (fd_table t)"
    and "\<exists>fd. 3 \<le> fd \<and> fd < FD_MAX \<and> fd_get (fd_table t) fd = None"
    and "holds k p (path @ [0])" and "\<forall>b \<in> set path. b \<noteq> 0 \<and> b < 128" and "length path \<le> 512"
    and "on_ramdisk k path f" and "length (tar_data f) < usize_bound"
    and "0 < n" and "writable k a n" and "0 < m" and "writable k c m"
  shows "\<exists>fd k1 k2 k3. syscall_dispatch dev 9 (of_nat p) x y k = (Inr (of_nat fd), k1) \<and>
    3 \<le> fd \<and> fd < FD_MAX \<and> fd_get (fd_table t) fd = None \<and>
    syscall_dispatch dev 5 (of_nat fd) (of_nat a) (of_nat n) k1 = (Inr (of_nat (length (take n (tar_data f)))), k2) \<and>
    syscall_dispatch dev 5 (of_nat fd) (of_nat c) (of_nat m) k2 = (Inr (of_nat (length (take m (drop n (tar_data f))))), k3) \<and>
    (\<forall>w. unat w < 2 ^ 47 \<longrightarrow> img (k_cr3 k) (k_mm k2) w = stored a (take n (tar_data f)) (unat w) (img (k_cr3 k) (k_mm k) w) \<and>
       img (k_cr3 k) (k_mm k3) w = stored c (take m (drop n (tar_data f))) (unat w) (img (k_cr3 k) (k_mm k2) w))"
proof -
  obtain fd tbl where o: "syscall_dispatch dev 9 (of_nat p) x y k = (Inr (of_nat fd), set_current (t\<lparr>fd_table := tbl\<rparr>) k)" (is "_ = (_, ?k1)")
    and S: "3 \<le> fd" "fd < FD_MAX" "fd_get (fd_table t) fd = None" and g: "fd_get tbl fd = Some (VfsFile (TarFileNode f) 0)"
    by (rule sys_open_ramdisk [OF assms(1-8), where dev = dev and x = x and y = y]) blast
  have fd: "0 < fd" "fd < 64" using S by (auto simp: FD_MAX_def)
  let ?n = "min n (length (tar_data f) - 0)"
  have u: "user_inv (k_cr3 ?k1) (k_mm ?k1)" "current_task (k_sched ?k1) = Some (t\<lparr>fd_table := tbl\<rparr>)" "writable ?k1 a n"
    using assms(1,11) by (simp_all add: set_current_def writable_def)
  obtain st2 where r2: "syscall_dispatch dev 5 (of_nat fd) (of_nat a) (of_nat n) ?k1 = (Inr (of_nat ?n),
      set_current (t\<lparr>fd_table := fd_set fd (VfsFile (TarFileNode f) (0 + ?n)) tbl\<rparr>) (?k1\<lparr>k_mm := st2\<rparr>))" (is "_ = (_, ?k2)")
    and s2: "user_step (k_cr3 ?k1) (stored a (take n (drop 0 (tar_data f)))) 0 (k_mm ?k1) st2"
    and w2: "walk (ram st2) (k_cr3 ?k1) = walk (ram (k_mm ?k1)) (k_cr3 ?k1)"
    by (rule sys_read_ramdisk [OF u(1,2) _ fd assms(10) u(3) assms(9) _ refl, of 0 dev]) (use g in \<open>auto simp: usize_bound_def\<close>)
  let ?tbl = "fd_set fd (VfsFile (TarFileNode f) ?n) tbl"
  have sel: "k_cr3 ?k2 = k_cr3 k" "k_mm ?k2 = st2" "current_task (k_sched ?k2) = Some (t\<lparr>fd_table := ?tbl\<rparr>)"
    and sel1: "k_cr3 ?k1 = k_cr3 k" "k_mm ?k1 = k_mm k" by (simp_all add: set_current_def)
  have "writable ?k2 c m"
    by (rule writable_step [OF assms(13)]) (use s2 w2 sel sel1 in simp_all)
  moreover have "user_inv (k_cr3 ?k2) (k_mm ?k2)" using s2 sel sel1 by (simp add: user_step_def)
  moreover have "fd_get ?tbl fd = Some (VfsFile (TarFileNode f) ?n)" using g by (simp add: fd_set_get)
  moreover have "?n < usize_bound" using assms(9) by simp
  ultimately obtain st3 where r3: "syscall_dispatch dev 5 (of_nat fd) (of_nat c) (of_nat m) ?k2 = (Inr (of_nat (min m (length (tar_data f) - ?n))),
      set_current (t\<lparr>fd_table := fd_set fd (VfsFile (TarFileNode f) (?n + min m (length (tar_data f) - ?n))) ?tbl\<rparr>) (?k2\<lparr>k_mm := st3\<rparr>))" (is "_ = (_, ?k3)")
    and s3: "user_step (k_cr3 k) (stored c (take m (drop ?n (tar_data f)))) 0 st2 st3"
    using sys_read_ramdisk [OF _ sel(3) _ fd assms(12) _ assms(9) _ refl, of ?n c dev] sel by force
  have d: "drop ?n (tar_data f) = drop n (tar_data f)" by (simp add: min_def)
  have im: "img (k_cr3 k) (k_mm ?k2) w = stored a (take n (tar_data f)) (unat w) (img (k_cr3 k) (k_mm k) w) \<and>
      img (k_cr3 k) (k_mm ?k3) w = stored c (take m (drop n (tar_data f))) (unat w) (img (k_cr3 k) (k_mm ?k2) w)" if "unat w < 2 ^ 47" for w
    using that s2 s3 sel(2) d by (simp add: user_step_def set_current_def)
  have l: "?n = length (take n (tar_data f))" "min m (length (tar_data f) - ?n) = length (take m (drop n (tar_data f)))"
    using arg_cong [OF d, of length] by (simp_all add: min.commute)
  have R2: "syscall_dispatch dev 5 (of_nat fd) (of_nat a) (of_nat n) ?k1 = (Inr (of_nat (length (take n (tar_data f)))), ?k2)"
    by (simp only: r2 l(1))
  have R3: "syscall_dispatch dev 5 (of_nat fd) (of_nat c) (of_nat m) ?k2 = (Inr (of_nat (length (take m (drop n (tar_data f))))), ?k3)"
    by (simp only: r3 l(2))
  show ?thesis
  proof (intro exI conjI)
    show "syscall_dispatch dev 9 (of_nat p) x y k = (Inr (of_nat fd), ?k1)" by (rule o)
    show "3 \<le> fd" "fd < FD_MAX" "fd_get (fd_table t) fd = None" using S by simp_all
    show "syscall_dispatch dev 5 (of_nat fd) (of_nat a) (of_nat n) ?k1 = (Inr (of_nat (length (take n (tar_data f)))), ?k2)" by (rule R2)
    show "syscall_dispatch dev 5 (of_nat fd) (of_nat c) (of_nat m) ?k2 = (Inr (of_nat (length (take m (drop n (tar_data f))))), ?k3)" by (rule R3)
  qed (use im in blast)
qed

section \<open>Pipes\<close>

lemma holds_take: "holds k a bs \<Longrightarrow> holds k a (take n bs)"
  by (auto simp: holds_def)

lemma of_nat_nonzero: "0 < n \<Longrightarrow> n < 2 ^ 64 \<Longrightarrow> (of_nat n :: u64) \<noteq> 0"
  by (metis less_irrefl unat_0 unat_of_low)

lemma sys_write_pipe:
  assumes "user_inv (k_cr3 k) (k_mm k)" and "current_fd fd k = Some (PipeFd i)" and "3 \<le> fd" "fd < 64" and "pipe_ok i (k_pipes k)"
    and h: "holds k p data" and "data \<noteq> []"
  obtains tbl where "syscall_dispatch dev 4 (of_nat fd) (of_nat p) (of_nat (length data)) k =
      (Inr (of_nat (min (MAX_PIPE_BYTES - length (pipe_contents i (k_pipes k))) (length data))), k\<lparr>k_pipes := tbl\<rparr>)"
    and "pipe_contents i tbl = pipe_contents i (k_pipes k) @ take (MAX_PIPE_BYTES - length (pipe_contents i (k_pipes k))) data"
    and "pipe_ok i tbl" and "\<forall>j. j \<noteq> i \<longrightarrow> get_pipe tbl j = get_pipe (k_pipes k) j"
proof -
  let ?free = "MAX_PIPE_BYTES - length (pipe_contents i (k_pipes k))"
  obtain q where q: "get_pipe (k_pipes k) i = Some q" "\<not> closed q"
    using assms(5) pipes_inv_get by (auto simp: pipe_ok_def)
  have room: "pipe_room i (k_pipes k) = ?free" using q by (simp add: pipe_room_def pipe_contents_def)
  have len: "length data < 2 ^ 64" using h by (simp add: holds_def)
  have L: "unat (of_nat (length data) :: u64) = length data" "(of_nat (length data) :: u64) \<noteq> 0"
    using unat_of_low [OF len] of_nat_nonzero [OF _ len] assms(7) by auto
  have F: "unat (of_nat fd :: u64) = fd" using assms(4) by (simp add: unat_of_low)
  then have "(of_nat fd :: u64) \<noteq> 1" "(of_nat fd :: u64) \<noteq> 2" using assms(3) by auto
  moreover have "ld_bytes (min (length data) ?free) (of_nat p) k = (Inr (take ?free data), k)"
    using ld_bytes_holds [OF assms(1) holds_take [OF h, of ?free]] by (simp add: min.commute)
  moreover obtain tbl where t: "ipc_write i (take ?free data) (k_pipes k) = (Inr (min ?free (length (take ?free data))), tbl)"
    "pipe_contents i tbl = pipe_contents i (k_pipes k) @ take ?free (take ?free data)" "pipe_ok i tbl"
    "\<forall>j. j \<noteq> i \<longrightarrow> get_pipe tbl j = get_pipe (k_pipes k) j"
    using ipc_write_ok [OF assms(5)] by blast
  ultimately have "syscall_dispatch dev 4 (of_nat fd) (of_nat p) (of_nat (length data)) k =
      (Inr (of_nat (min ?free (length data))), k\<lparr>k_pipes := tbl\<rparr>)"
    using assms(2) L F by (simp add: syscall_dispatch_def sys_write_def bindS_def write_pipe_def room min.commute)
  then show ?thesis using that [of tbl] t(2-4) by simp
qed

lemma sys_read_pipe:
  assumes "user_inv (k_cr3 k) (k_mm k)" and "current_fd fd k = Some (PipeFd i)" and "3 \<le> fd" "fd < 64" and "pipe_ok i (k_pipes k)"
    and w: "writable k a n" and n: "0 < n"
  obtains tbl st where "syscall_dispatch dev 5 (of_nat fd) (of_nat a) (of_nat n) k =
      (Inr (of_nat (length (take n (pipe_contents i (k_pipes k))))), k\<lparr>k_pipes := tbl, k_mm := st\<rparr>)"
    and "pipe_contents i tbl = drop n (pipe_contents i (k_pipes k))" and "pipe_ok i tbl" and "\<forall>j. j \<noteq> i \<longrightarrow> get_pipe tbl j = get_pipe (k_pipes k) j"
    and "user_step (k_cr3 k) (stored a (take n (pipe_contents i (k_pipes k)))) 0 (k_mm k) st"
proof -
  let ?bs = "take n (pipe_contents i (k_pipes k))"
  obtain tbl where t: "ipc_read i n (k_pipes k) = (Inr ?bs, tbl)" "pipe_contents i tbl = drop n (pipe_contents i (k_pipes k))" "pipe_ok i tbl"
    "\<forall>j. j \<noteq> i \<longrightarrow> get_pipe tbl j = get_pipe (k_pipes k) j"
    using ipc_read_ok [OF assms(5)] by blast
  let ?k = "k\<lparr>k_pipes := tbl\<rparr>"
  have "writable ?k a (length ?bs)" using w by (auto simp: writable_def)
  then obtain st where st: "st_bytes (of_nat a) ?bs ?k = (Inr (), ?k\<lparr>k_mm := st\<rparr>)" "user_step (k_cr3 k) (stored a ?bs) 0 (k_mm k) st"
    using st_bytes_ok [of ?k] assms(1) by (metis kernel.select_convs(1,10) kernel.surjective kernel.update_convs(5))
  have len: "n < 2 ^ 64" using w by (simp add: writable_def)
  have L: "unat (of_nat n :: u64) = n" "(of_nat n :: u64) \<noteq> 0"
    using unat_of_low [OF len] of_nat_nonzero [OF n len] by auto
  have F: "unat (of_nat fd :: u64) = fd" using assms(4) by (simp add: unat_of_low)
  then have "(of_nat fd :: u64) \<noteq> 0" using assms(3) by auto
  then have "syscall_dispatch dev 5 (of_nat fd) (of_nat a) (of_nat n) k = (Inr (of_nat (length ?bs)), ?k\<lparr>k_mm := st\<rparr>)"
    using assms(2) L F t(1) st(1) by (simp add: syscall_dispatch_def sys_read_def bindS_def read_pipe_def)
  then show ?thesis using that [of st tbl] t(2-4) st(2) by simp
qed

text \<open>
  \<^bold>\<open>C33.\<close> A pipe carries bytes from one place of the memory of a process to another: \<^verbatim>\<open>sys_write\<close> of a string to an empty pipe
  accepts its first 4096 bytes and returns how many they are; \<^verbatim>\<open>sys_read\<close> of at least so many then returns the
  same number and leaves exactly these bytes in the buffer, and the pipe empty again; no other byte of the process
  and no other pipe changes.
\<close>

theorem pipe_copies_memory:
  assumes "user_inv (k_cr3 k) (k_mm k)" and "current_fd fd k = Some (PipeFd i)" and "3 \<le> fd" and "fd < 64"
    and "pipe_ok i (k_pipes k)" and "pipe_contents i (k_pipes k) = []" and "holds k p data" and "data \<noteq> []"
    and "writable k a n" and "min 4096 (length data) \<le> n"
  shows "\<exists>k1 k2. syscall_dispatch dev 4 (of_nat fd) (of_nat p) (of_nat (length data)) k = (Inr (of_nat (min 4096 (length data))), k1) \<and>
    syscall_dispatch dev 5 (of_nat fd) (of_nat a) (of_nat n) k1 = (Inr (of_nat (min 4096 (length data))), k2) \<and>
    (\<forall>w. unat w < 2 ^ 47 \<longrightarrow> img (k_cr3 k) (k_mm k2) w = stored a (take 4096 data) (unat w) (img (k_cr3 k) (k_mm k) w)) \<and>
    pipe_ok i (k_pipes k2) \<and> pipe_contents i (k_pipes k2) = [] \<and> (\<forall>j. j \<noteq> i \<longrightarrow> get_pipe (k_pipes k2) j = get_pipe (k_pipes k) j)"
proof -
  have M: "MAX_PIPE_BYTES = 4096" by (simp add: MAX_PIPE_BYTES_def)
  obtain tbl where w: "syscall_dispatch dev 4 (of_nat fd) (of_nat p) (of_nat (length data)) k =
      (Inr (of_nat (min 4096 (length data))), k\<lparr>k_pipes := tbl\<rparr>)"
    and t: "pipe_contents i tbl = take 4096 data" "pipe_ok i tbl" "\<forall>j. j \<noteq> i \<longrightarrow> get_pipe tbl j = get_pipe (k_pipes k) j"
    by (rule sys_write_pipe [OF assms(1-5,7,8), where dev = dev]) (use assms(6) M in auto)
  let ?k1 = "k\<lparr>k_pipes := tbl\<rparr>"
  have all: "take n (take 4096 data) = take 4096 data" using assms(10) by (auto simp: min_def split: if_splits)
  have n: "0 < n" using assms(8,10) by (cases data) auto
  have K: "user_inv (k_cr3 ?k1) (k_mm ?k1)" "current_fd fd ?k1 = Some (PipeFd i)" "pipe_ok i (k_pipes ?k1)" "writable ?k1 a n"
    using assms(1,2,9) t(2) by (simp_all add: current_fd_def writable_def)
  obtain tbl' st where r: "syscall_dispatch dev 5 (of_nat fd) (of_nat a) (of_nat n) ?k1 =
      (Inr (of_nat (length (take n (pipe_contents i (k_pipes ?k1))))), ?k1\<lparr>k_pipes := tbl', k_mm := st\<rparr>)"
    and r2: "pipe_contents i tbl' = drop n (pipe_contents i (k_pipes ?k1))" "pipe_ok i tbl'" "\<forall>j. j \<noteq> i \<longrightarrow> get_pipe tbl' j = get_pipe (k_pipes ?k1) j"
    and s: "user_step (k_cr3 ?k1) (stored a (take n (pipe_contents i (k_pipes ?k1)))) 0 (k_mm ?k1) st"
    by (rule sys_read_pipe [OF K(1,2) assms(3,4) K(3,4) n, where dev = dev]) blast
  have "drop n (take 4096 data) = []" using assms(10) by simp
  moreover have "length (take n (pipe_contents i (k_pipes ?k1))) = min 4096 (length data)" using t(1) all by (simp add: min.commute)
  ultimately show ?thesis
    using w r r2 t s all
    by (intro exI [of _ "?k1\<lparr>k_pipes := tbl', k_mm := st\<rparr>"] exI [of "\<lambda>x. \<exists>y. _ x y" ?k1]) (simp add: user_step_def)
qed

section \<open>A small process\<close>

text \<open>A process with an open pipe and one page at \<open>0x400000\<close> that starts with the path \<^verbatim>\<open>/a\<close>.\<close>

definition demo_owner :: "u64 \<Rightarrow> VfsNode Task" where
  "demo_owner c = (main_task 0 c)\<lparr>fd_table := with_stdio[3 := Some (PipeFd 0)], heap_end := 0x400000\<rparr>"

definition demo_process :: "u64 \<Rightarrow> mm \<Rightarrow> (nat \<Rightarrow> sector) ahci kernel" where
  "demo_process c st = (demo_kernel st)\<lparr>k_cr3 := c, k_pipes := [Some empty_pipe],
     k_sched := \<lparr>tasks = [], current_task = Some (demo_owner c)\<rparr>\<rparr>"

lemma demo_process_sel [simp]: "k_cr3 (demo_process c st) = c" "k_mm (demo_process c st) = st" "k_pipes (demo_process c st) = [Some empty_pipe]"
  "(demo_process c st)\<lparr>k_mm := st'\<rparr> = demo_process c st'"
  "current_task (k_sched (demo_process c st)) = Some (demo_owner c)" "task_cr3 (demo_owner c) = c" "heap_end (demo_owner c) = 0x400000"
  "k_vfs (demo_process c st) = k_vfs (demo_kernel st)"
  by (simp_all add: demo_process_def demo_kernel_def demo_owner_def main_task_def)

lemma demo_space:
  obtains c st where "user_inv c st" and "\<And>v. 0x400000 \<le> unat v \<Longrightarrow> unat v < 0x600000 \<Longrightarrow> \<not> in_huge (ram st) c v"
    and "58 \<le> card (free_set (frames st))"
proof -
  obtain s :: mm where s: "pmm_inv (frames s)" "kernel_half demo_kt (ram s)"
    "\<forall>t \<in> set (kt_list demo_kt). unat t div PAGE_SIZE \<notin> free_set (frames s)" "card (free_set (frames s)) = 64"
    by (rule demo64_kernel)
  from new_space_user [OF s(1) _ demo_kt_ok s(2,3)] s(4) show ?thesis using that by (auto elim!: okS_E)
qed


lemma demo_text:
  fixes bs :: "u8 list"
  assumes "length bs \<le> 0x800" and "n \<le> 0x800"
  obtains c st where "user_inv c st" and "holds (demo_process c st) 0x400000 bs" and "writable (demo_process c st) 0x400800 n"
proof -
  obtain c s where s: "user_inv c s" "\<And>v. 0x400000 \<le> unat v \<Longrightarrow> unat v < 0x600000 \<Longrightarrow> \<not> in_huge (ram s) c v" "58 \<le> card (free_set (frames s))"
    by (rule demo_space) blast
  obtain s1 where s1: "user_step c (zeroed 0x400000 0x401000) 4 s s1"
    and w1: "\<forall>w. unat w < 2 ^ 48 \<longrightarrow> (if 0x400000 \<le> unat w \<and> unat w < 0x401000 then \<exists>p. walk (ram s1) c w = Some (p, True, True)
       else walk (ram s1) c w = walk (ram s) c w)"
    using brk_loop_ok [of c s "0x400000" 1 "0x401000"] s by (auto elim!: okS_E)
  have wr: "writable (demo_process c s1) a n" if "0x400000 \<le> a" "a + n \<le> 0x401000" for a n
  proof -
    have "img c s1 (of_nat (a + j)) = Some 0 \<and> (\<exists>p. walk (ram s1) c (of_nat (a + j)) = Some (p, True, True))" if "j < n" for j
    proof -
      have u: "unat (of_nat (a + j) :: u64) = a + j" using that \<open>a + n \<le> 0x401000\<close> by (intro unat_of_low) simp
      have "img c s1 (of_nat (a + j)) = zeroed 0x400000 0x401000 (a + j) (img c s (of_nat (a + j)))"
        using s1 u that \<open>a + n \<le> 0x401000\<close> by (simp add: user_step_def del: of_nat_add)
      then show ?thesis using w1 [rule_format, of "of_nat (a + j)"] u that \<open>0x400000 \<le> a\<close> \<open>a + n \<le> 0x401000\<close>
        by (simp add: zeroed_def del: of_nat_add)
    qed
    then show ?thesis using that unfolding writable_def demo_process_sel by (intro conjI allI impI) (simp, metis option.distinct(1), blast)
  qed
  have u1: "user_inv (k_cr3 (demo_process c s1)) (k_mm (demo_process c s1))" using s1 by (simp add: user_step_def)
  obtain st where st: "user_step c (stored 0x400000 bs) 0 s1 st" "walk (ram st) c = walk (ram s1) c"
    using st_bytes_ok [OF u1 wr [of "0x400000" "length bs"]] assms(1) by auto
  have "writable (demo_process c st) 0x400800 n"
    by (rule writable_step [OF wr [of "0x400800" n]]) (use st assms(2) in simp_all)
  moreover have "holds (demo_process c st) 0x400000 bs"
  proof -
    have "img c st (of_nat (0x400000 + j)) = Some (bs ! j)" if "j < length bs" for j
    proof -
      have "unat (of_nat (0x400000 + j) :: u64) = 0x400000 + j" using that assms(1) by (intro unat_of_low) simp
      then show ?thesis using st(1) that assms(1) by (simp add: user_step_def stored_def del: of_nat_add)
    qed
    then show ?thesis using assms(1) by (simp add: holds_def del: of_nat_add)
  qed
  moreover have "user_inv c st" using st by (simp add: user_step_def)
  ultimately show ?thesis using that by blast
qed

lemma demo_page:
  obtains c st where "user_inv c st" and "holds (demo_process c st) 0x400000 [0x2F, 0x61, 0]" and "writable (demo_process c st) 0x400800 16"
  by (rule demo_text [of "[0x2F, 0x61, 0]" 16]) simp_all

lemma demo_fd: "current_fd 3 (demo_process c st) = Some (PipeFd 0)" "fd_inv (fd_table (demo_owner c))"
  "fd_get (fd_table (demo_owner c)) 4 = None"
  by (simp_all add: current_fd_def demo_owner_def fd_get_def fd_inv_def with_stdio_def fd_new_def FD_MAX_def)

theorem pipe_copies_memory_witness:
  "\<exists>c st k1 k2. syscall_dispatch (ahci_device ram_hba) 4 3 0x400000 3 (demo_process c st) = (Inr 3, k1) \<and>
     syscall_dispatch (ahci_device ram_hba) 5 3 0x400800 16 k1 = (Inr 3, k2) \<and> img c (k_mm k2) 0x400801 = Some 0x61"
proof -
  obtain c st where d: "user_inv c st" "holds (demo_process c st) 0x400000 [0x2F, 0x61, 0]" "writable (demo_process c st) 0x400800 16"
    by (rule demo_page)
  have e: "pipe_contents 0 [Some empty_pipe] = []" by (simp add: pipe_contents_def get_pipe_def empty_pipe_def)
  obtain k1 k2 where r: "syscall_dispatch (ahci_device ram_hba) 4 (of_nat 3) (of_nat 0x400000) (of_nat (length ([0x2F, 0x61, 0] :: u8 list))) (demo_process c st) = (Inr (of_nat (min 4096 3)), k1)"
    "syscall_dispatch (ahci_device ram_hba) 5 (of_nat 3) (of_nat 0x400800) (of_nat 16) k1 = (Inr (of_nat (min 4096 3)), k2)"
    "\<forall>w. unat w < 2 ^ 47 \<longrightarrow> img c (k_mm k2) w = stored 0x400800 (take 4096 [0x2F, 0x61, 0]) (unat w) (img c st w)"
    using pipe_copies_memory [where k = "demo_process c st" and fd = 3 and i = 0 and p = "0x400000" and data = "[0x2F, 0x61, 0]" and
      a = "0x400800" and n = 16 and dev = "ahci_device ram_hba"] d e first_pipe_ok demo_fd(1)
    by auto
  have "img c (k_mm k2) 0x400801 = Some 0x61" using r(3) [rule_format, of "0x400801"] by (simp add: stored_def)
  then show ?thesis using r(1,2) by (intro exI [of _ c] exI [of _ st]) auto
qed

theorem open_read_file_witness:
  "\<exists>c st fd k1 k2. syscall_dispatch (ahci_device ram_hba) 9 0x400000 0 0 (demo_process c st) = (Inr (of_nat fd), k1) \<and>
     syscall_dispatch (ahci_device ram_hba) 5 (of_nat fd) 0x400800 16 k1 = (Inr 16, k2) \<and> img c (k_mm k2) 0x400800 = Some 0x7F"
proof -
  obtain c st where d: "user_inv c st" "holds (demo_process c st) 0x400000 [0x2F, 0x61, 0]" "writable (demo_process c st) 0x400800 16"
    by (rule demo_page)
  let ?f = "\<lparr>tar_name = [0x61], tar_data = demo_elf\<rparr>"
  have o: "on_ramdisk (demo_process c st) [0x2F, 0x61] ?f" using demo_on_ramdisk [of st] by (simp add: on_ramdisk_def)
  have L: "length demo_elf < usize_bound" "length (take 16 demo_elf) = 16" "take 16 demo_elf ! 0 = 0x7F"
    by (simp_all add: demo_elf_def usize_bound_def)
  have "\<exists>fd. 3 \<le> fd \<and> fd < FD_MAX \<and> fd_get (fd_table (demo_owner c)) fd = None" using demo_fd(3) by (intro exI [of _ 4]) (simp add: FD_MAX_def)
  from open_read_file [OF _ demo_process_sel(5) demo_fd(2) this, where st2 = st and p = "0x400000" and path = "[0x2F, 0x61]" and f = ?f and
    n = 16 and a = "0x400800" and m = 16 and c = "0x400800" and dev = "ahci_device ram_hba" and x = 0 and y = 0] d o L
  obtain fd k1 k2 where r: "syscall_dispatch (ahci_device ram_hba) 9 (of_nat 0x400000) 0 0 (demo_process c st) = (Inr (of_nat fd), k1)"
    "syscall_dispatch (ahci_device ram_hba) 5 (of_nat fd) (of_nat 0x400800) (of_nat 16) k1 = (Inr (of_nat (length (take 16 demo_elf))), k2)"
    "\<forall>w. unat w < 2 ^ 47 \<longrightarrow> img c (k_mm k2) w = stored 0x400800 (take 16 demo_elf) (unat w) (img c st w)"
    by auto
  have "img c (k_mm k2) 0x400800 = Some 0x7F" using r(3) [rule_format, of "0x400800"] L(2,3) by (auto simp: stored_def)
  then show ?thesis using r(1,2) L(2) by (intro exI [of _ c] exI [of _ st]) auto
qed

end
