(* ===== verification/Pci.thy ===== *)
theory Pci
  imports Prelude
begin

text \<open>
  PCI enumeration (ross-kernel/src/pci.rs). What a read of the data port returns after an address was written to the
  address port is the parameter \<open>cfg\<close>: the configuration space is only read.
\<close>

section \<open>Configuration reads\<close>

record PciDevice =
  pci_bus :: u8
  pci_device :: u8
  pci_function :: u8
  vendor_id :: u16
  device_id :: u16
  pci_class :: u8
  pci_subclass :: u8
  prog_if :: u8
  header_type :: u8

type_synonym config_space = "u32 \<Rightarrow> u32"

definition address :: "u8 \<Rightarrow> u8 \<Rightarrow> u8 \<Rightarrow> u8 \<Rightarrow> u32" where
  "address bus device function offset =
     0x80000000 OR push_bit 16 (ucast bus) OR push_bit 11 (ucast device) OR push_bit 8 (ucast function) OR (ucast offset AND 0xFC)"

definition read_config_dword :: "config_space \<Rightarrow> u8 \<Rightarrow> u8 \<Rightarrow> u8 \<Rightarrow> u8 \<Rightarrow> u32" where
  "read_config_dword cfg bus device function offset = cfg (address bus device function offset)"

definition read_config_word :: "config_space \<Rightarrow> u8 \<Rightarrow> u8 \<Rightarrow> u8 \<Rightarrow> u8 \<Rightarrow> u16" where
  "read_config_word cfg bus device function offset =
     (let dw = read_config_dword cfg bus device function (offset AND 0xFC); shift = (offset AND 2) * 8
      in ucast (drop_bit (unat shift) dw AND 0xFFFF))"

definition read_config_byte :: "config_space \<Rightarrow> u8 \<Rightarrow> u8 \<Rightarrow> u8 \<Rightarrow> u8 \<Rightarrow> u8" where
  "read_config_byte cfg bus device function offset =
     (let dw = read_config_dword cfg bus device function (offset AND 0xFC); shift = (offset AND 3) * 8
      in ucast (drop_bit (unat shift) dw AND 0xFF))"

definition read_bar :: "config_space \<Rightarrow> PciDevice \<Rightarrow> u8 \<Rightarrow> u32 res" where
  "read_bar cfg d index =
     (if index < 6 then Inr (read_config_dword cfg (pci_bus d) (pci_device d) (pci_function d) (0x10 + index * 4))
      else Inl (Panic ''assertion failed: index < 6''))"

section \<open>Enumeration\<close>

definition probe :: "config_space \<Rightarrow> u8 \<Rightarrow> u8 \<Rightarrow> u8 \<Rightarrow> PciDevice option" where
  "probe cfg bus device function =
     (let vendor = read_config_word cfg bus device function 0x00 in
      if vendor = 0xFFFF then None
      else Some \<lparr>pci_bus = bus, pci_device = device, pci_function = function, vendor_id = vendor,
        device_id = read_config_word cfg bus device function 0x02,
        pci_class = read_config_byte cfg bus device function 0x0B,
        pci_subclass = read_config_byte cfg bus device function 0x0A,
        prog_if = read_config_byte cfg bus device function 0x09,
        header_type = read_config_byte cfg bus device function 0x0E\<rparr>)"

text \<open>One slot: function 0, and the others when it says so.\<close>

definition scan_slot :: "config_space \<Rightarrow> u8 \<Rightarrow> u8 \<Rightarrow> PciDevice list" where
  "scan_slot cfg bus dev =
     (case probe cfg bus dev 0 of
        None \<Rightarrow> []
      | Some d0 \<Rightarrow> d0 # (if header_type d0 AND 0x80 \<noteq> 0
          then List.map_filter (\<lambda>func. probe cfg bus dev (of_nat func)) [1 ..< 8] else []))"

definition enumerate :: "config_space \<Rightarrow> PciDevice list" where
  "enumerate cfg = concat (map (\<lambda>bus. concat (map (\<lambda>dev. scan_slot cfg (of_nat bus) (of_nat dev)) [0 ..< 32])) [0 ..< 256])"

definition find_by_class :: "PciDevice list \<Rightarrow> u8 \<Rightarrow> u8 \<Rightarrow> PciDevice option" where
  "find_by_class devices c sc = find (\<lambda>d. pci_class d = c \<and> pci_subclass d = sc) devices"

definition class_name :: "u8 \<Rightarrow> u8 \<Rightarrow> u8 list" where
  "class_name c sc = ascii
     (if c = 0x00 then ''Unclassified''
      else if c = 0x01 \<and> sc = 0x00 then ''SCSI Controller''
      else if c = 0x01 \<and> sc = 0x01 then ''IDE Controller''
      else if c = 0x01 \<and> sc = 0x06 then ''SATA Controller (AHCI)''
      else if c = 0x01 \<and> sc = 0x08 then ''NVMe Controller''
      else if c = 0x02 \<and> sc = 0x00 then ''Ethernet Controller''
      else if c = 0x03 \<and> sc = 0x00 then ''VGA Controller''
      else if c = 0x04 then ''Multimedia Controller''
      else if c = 0x06 \<and> sc = 0x00 then ''Host Bridge''
      else if c = 0x06 \<and> sc = 0x01 then ''ISA Bridge''
      else if c = 0x06 \<and> sc = 0x04 then ''PCI-to-PCI Bridge''
      else if c = 0x0C \<and> sc = 0x03 then ''USB Controller''
      else ''Unknown'')"

section \<open>What the hardware holds\<close>

text \<open>
  A machine by the bytes of its configuration headers, and the answer the PCI specification prescribes for an
  address: bus, device, function and register from their bit fields, four bytes in little-endian order.
\<close>

type_synonym headers = "u8 \<Rightarrow> u8 \<Rightarrow> u8 \<Rightarrow> nat \<Rightarrow> u8"

definition conf :: "headers \<Rightarrow> config_space" where
  "conf hs a = (let h = hs (ucast (drop_bit 16 a)) (ucast (drop_bit 11 a AND 0x1F)) (ucast (drop_bit 8 a AND 0x7)); r = unat (a AND 0xFC)
     in le_word [h r, h (r + 1), h (r + 2), h (r + 3)])"

lemma bit_FC: "bit (0xFC :: 'a::len word) n \<longleftrightarrow> 2 \<le> n \<and> n < 8 \<and> n < LENGTH('a)"
proof -
  have "(0xFC :: 'a word) = push_bit 2 (mask 6)" by (simp add: mask_eq_exp_minus_1)
  then show ?thesis by (simp only: bit_push_bit_iff bit_mask_iff possible_bit_word) auto
qed

lemma bit_top: "bit (0x80000000 :: u32) n \<longleftrightarrow> n = 31"
proof -
  have "(0x80000000 :: u32) = push_bit 31 1" by simp
  then show ?thesis by (simp only: bit_push_bit_iff possible_bit_word) (auto simp: bit_1_iff)
qed

lemma bit_high: "unat (w :: u8) < 2 ^ k \<Longrightarrow> k \<le> n \<Longrightarrow> \<not> bit w n"
  by (metis bit_take_bit_iff not_le take_bit_small)

lemma bit_high_u8: "8 \<le> n \<Longrightarrow> \<not> bit (w :: u8) n"
  using bit_imp_le_length [of w n] by auto

lemma address_fields:
  assumes "device < 32" and "function < 8"
  shows "ucast (drop_bit 16 (address bus device function offset)) = bus"
    and "ucast (drop_bit 11 (address bus device function offset) AND 0x1F) = device"
    and "ucast (drop_bit 8 (address bus device function offset) AND 0x7) = function"
    and "address bus device function offset AND 0xFC = ucast (offset AND 0xFC)"
proof -
  have d: "n < 5" if "bit device n" for n using assms(1) that bit_high [of device 5 n] by (fastforce simp: word_less_nat_alt not_less)
  have f: "n < 3" if "bit function n" for n using assms(2) that bit_high [of "function" 3 n] by (fastforce simp: word_less_nat_alt not_less)
  have m: "(0x1F :: u32) = mask 5" "(0x7 :: u32) = mask 3" by (simp_all add: mask_eq_exp_minus_1)
  define t :: u32 where "t = 0x80000000"
  have t: "bit t n \<longleftrightarrow> n = 31" for n unfolding t_def by (rule bit_top)
  define q :: u32 where "q = 0xFC"
  define c :: u8 where "c = 0xFC"
  have q: "bit q n \<longleftrightarrow> 2 \<le> n \<and> n < 8" and c: "bit c n \<longleftrightarrow> 2 \<le> n \<and> n < 8" for n
    using bit_FC [where ?'a = 32, of n] bit_FC [where ?'a = 8, of n] by (auto simp: q_def c_def)
  note a = address_def [folded t_def q_def]
  show "ucast (drop_bit 16 (address bus device function offset)) = bus"
    by (rule bit_word_eqI) (auto simp: a bit_simps q t dest: d f)
  show "ucast (drop_bit 11 (address bus device function offset) AND 0x1F) = device"
    unfolding m by (rule bit_word_eqI) (auto simp: a bit_simps q t dest: d f)
  show "ucast (drop_bit 8 (address bus device function offset) AND 0x7) = function"
    unfolding m by (rule bit_word_eqI) (auto simp: a bit_simps q t dest: f)
  show "address bus device function offset AND 0xFC = ucast (offset AND 0xFC)"
    unfolding q_def [symmetric] c_def [symmetric] by (rule bit_word_eqI) (auto simp: a bit_simps q c t)
qed

lemma offset_parts:
  "unat ((o' :: u8) AND 0xFC) = 4 * (unat o' div 4)" "(o' AND 0xFC) AND 0xFC = o' AND 0xFC"
  "unat ((o' AND 3) * 8) = 8 * (unat o' mod 4)"
proof -
  define c :: u8 where "c = 0xFC"
  have c: "bit c n \<longleftrightarrow> 2 \<le> n \<and> n < 8" for n using bit_FC [where ?'a = 8, of n] by (auto simp: c_def)
  have s: "2 \<le> n \<Longrightarrow> Suc (Suc (n - 2)) = n" for n :: nat by simp
  have "o' AND c = push_bit 2 (drop_bit 2 o')" by (rule bit_word_eqI) (auto simp: bit_simps c s)
  then have "o' AND 0xFC = push_bit 2 (drop_bit 2 o')" by (simp add: c_def)
  moreover have u: "unat (drop_bit 2 o') = unat o' div 4" by (simp add: drop_bit_eq_div unat_div)
  moreover have lt: "unat o' < 256" using unsigned_less [of o'] by simp
  ultimately show "unat (o' AND 0xFC) = 4 * (unat o' div 4)" by (simp add: push_bit_eq_mult unat_word_ariths)
  show "(o' AND 0xFC) AND 0xFC = o' AND 0xFC" by (simp add: and.assoc)
  have m: "mask 2 = (3 :: u8)" by (simp add: mask_eq_exp_minus_1)
  have "unat (o' AND mask 2) = unat o' mod 4" unfolding take_bit_eq_mask [symmetric] by (simp add: take_bit_eq_mod unat_mod)
  then show "unat ((o' AND 3) * 8) = 8 * (unat o' mod 4)" unfolding m by (simp add: unat_word_ariths)
qed

lemma le_word4:
  fixes a b c d :: u8
  defines "w \<equiv> le_word [a, b, c, d] :: u32"
  shows "ucast (drop_bit 0 w AND 0xFF) = a" "ucast (drop_bit 8 w AND 0xFF) = b" "ucast (drop_bit 16 w AND 0xFF) = c" "ucast (drop_bit 24 w AND 0xFF) = d"
    "ucast (drop_bit 0 w AND 0xFFFF) = (le_word [a, b] :: u16)" "ucast (drop_bit 16 w AND 0xFFFF) = (le_word [c, d] :: u16)"
proof -
  have m: "(0xFF :: u32) = mask 8" "(0xFFFF :: u32) = mask 16" by (simp_all add: mask_eq_exp_minus_1)
  show "ucast (drop_bit 0 w AND 0xFF) = a" "ucast (drop_bit 8 w AND 0xFF) = b" "ucast (drop_bit 16 w AND 0xFF) = c" "ucast (drop_bit 24 w AND 0xFF) = d"
    "ucast (drop_bit 0 w AND 0xFFFF) = (le_word [a, b] :: u16)" "ucast (drop_bit 16 w AND 0xFFFF) = (le_word [c, d] :: u16)"
    unfolding m w_def by (rule bit_word_eqI, auto simp: bit_simps dest: bit_imp_le_length)+
qed

lemma le_byte: "m < 4 \<Longrightarrow> ucast (drop_bit (8 * m) (le_word [a, b, c, d] :: u32) AND 0xFF) = [a, b, c, d] ! m"
proof -
  assume "m < 4"
  then consider "m = 0" | "m = 1" | "m = 2" | "m = 3" by fastforce
  then show ?thesis using le_word4 [of a b c d] by cases simp_all
qed

lemma conf_read:
  assumes "device < 32" and "function < 8"
  shows "read_config_byte (conf hs) bus device function r = hs bus device function (unat r)"
    and "r = 0 \<or> r = 2 \<Longrightarrow> read_config_word (conf hs) bus device function r = le_word [hs bus device function (unat r), hs bus device function (unat r + 1)]"
proof -
  let ?h = "hs bus device function" and ?b = "4 * (unat r div 4)"
  note F = address_fields [OF assms, of bus "r AND 0xFC"]
  have "unat r < 256" using unsigned_less [of r, where ?'a = nat] by simp
  then have "?b < 2 ^ 32" by simp
  then have u: "unat (ucast (r AND 0xFC) :: u32) = ?b" by (simp only: unsigned_ucast_eq offset_parts(1)) (simp add: take_bit_nat_eq_self)
  have d: "read_config_dword (conf hs) bus device function (r AND 0xFC) = le_word [?h ?b, ?h (?b + 1), ?h (?b + 2), ?h (?b + 3)]"
    by (simp add: read_config_dword_def conf_def F offset_parts(2) u Let_def)
  have k: "unat r = ?b + unat r mod 4" by simp
  have cs: "unat r mod 4 = 0 \<or> unat r mod 4 = 1 \<or> unat r mod 4 = 2 \<or> unat r mod 4 = 3" by presburger
  have m: "unat r mod 4 < 4" by simp
  have n: "[?h ?b, ?h (?b + 1), ?h (?b + 2), ?h (?b + 3)] ! (unat r mod 4) = ?h (?b + unat r mod 4)"
    using cs by (elim disjE) simp_all
  show "read_config_byte (conf hs) bus device function r = ?h (unat r)"
    unfolding read_config_byte_def Let_def d offset_parts(3) le_byte [OF m] n by simp
  show "read_config_word (conf hs) bus device function r = le_word [?h (unat r), ?h (unat r + 1)]" if "r = 0 \<or> r = 2"
  proof -
    have two: "Suc (Suc 0) = 2" by simp
    show ?thesis using that unfolding read_config_word_def Let_def d
      using le_word4(5,6) [of "?h 0" "?h 1" "?h 2" "?h 3"] by (elim disjE) (simp_all add: two)
  qed
qed

section \<open>The registry\<close>

text \<open>A function is there when its vendor is, and it is reported when the slot has it behind a function 0 that admits more than one.\<close>

definition present :: "headers \<Rightarrow> u8 \<Rightarrow> u8 \<Rightarrow> u8 \<Rightarrow> bool" where
  "present hs b d f \<longleftrightarrow> (hs b d f 0, hs b d f 1) \<noteq> (0xFF, 0xFF)"

definition reported :: "headers \<Rightarrow> u8 \<Rightarrow> u8 \<Rightarrow> u8 \<Rightarrow> bool" where
  "reported hs b d f \<longleftrightarrow> present hs b d f \<and> (f = 0 \<or> present hs b d 0 \<and> bit (hs b d 0 14) 7)"

definition device_of :: "headers \<Rightarrow> u8 \<Rightarrow> u8 \<Rightarrow> u8 \<Rightarrow> PciDevice" where
  "device_of hs b d f = \<lparr>pci_bus = b, pci_device = d, pci_function = f, vendor_id = le_word [hs b d f 0, hs b d f 1],
     device_id = le_word [hs b d f 2, hs b d f 3], pci_class = hs b d f 11, pci_subclass = hs b d f 10, prog_if = hs b d f 9,
     header_type = hs b d f 14\<rparr>"

definition all_functions :: "(u8 \<times> u8 \<times> u8) list" where
  "all_functions = concat (map (\<lambda>b. concat (map (\<lambda>d. map (\<lambda>f. (of_nat b, of_nat d, of_nat f)) [0 ..< 8]) [0 ..< 32])) [0 ..< 256])"

lemma le_word_FFFF: "(le_word [a, b] :: u16) = 0xFFFF \<longleftrightarrow> a = 0xFF \<and> b = (0xFF :: u8)"
proof
  define c :: u8 where "c = 0xFF"
  assume "(le_word [a, b] :: u16) = 0xFFFF"
  then have "(le_word [a, b] :: u16) = le_word [c, c]" by (simp add: c_def)
  then have B: "bit (le_word [a, b] :: u16) n = bit (le_word [c, c] :: u16) n" for n by metis
  have "bit a n = bit c n" if "n < 8" for n using B [of n] that by (simp add: bit_simps)
  moreover have "bit b n = bit c n" if "n < 8" for n using B [of "n + 8"] that by (simp add: bit_simps bit_high_u8)
  ultimately show "a = 0xFF \<and> b = 0xFF" unfolding c_def [symmetric] by (auto intro!: bit_word_eqI)
qed simp

lemma probe_conf:
  assumes "d < 32" and "f < 8"
  shows "probe (conf hs) b d f = (if present hs b d f then Some (device_of hs b d f) else None)"
proof -
  note B = conf_read(1) [OF assms, where hs = hs and bus = b] and W = conf_read(2) [OF assms, where hs = hs and bus = b]
  have w: "read_config_word (conf hs) b d f 0 = le_word [hs b d f 0, hs b d f 1]" "read_config_word (conf hs) b d f 2 = le_word [hs b d f 2, hs b d f 3]"
    using W [of 0] W [of 2] by simp_all
  have v: "present hs b d f \<longleftrightarrow> (le_word [hs b d f 0, hs b d f 1] :: u16) \<noteq> 0xFFFF" unfolding le_word_FFFF present_def by simp
  show ?thesis unfolding probe_def Let_def w B v device_of_def by (simp del: le_word.simps)
qed

lemma multi_function_bit: "x AND 0x80 \<noteq> 0 \<longleftrightarrow> bit (x :: u8) 7"
  using bit_iff_and_push_bit_not_eq_0 [of x 7] by simp

lemma scan_slot_conf:
  assumes "d < 32"
  shows "scan_slot (conf hs) b d = map (\<lambda>f. device_of hs b d (of_nat f)) (filter (\<lambda>f. reported hs b d (of_nat f)) [0 ..< 8])"
proof -
  have r: "[0 ..< 8] = 0 # [1 ..< (8 :: nat)]" by (simp add: upt_rec)
  have mf: "List.map_filter (\<lambda>f. probe (conf hs) b d (of_nat f)) fs = map (\<lambda>f. device_of hs b d (of_nat f)) (filter (\<lambda>f. present hs b d (of_nat f)) fs)"
    if "\<forall>f \<in> set fs. f < 8" for fs
    using that by (induction fs) (auto simp: List.map_filter_simps probe_conf [OF assms] word_less_nat_alt unat_of_nat)
  have nz: "(of_nat f :: u8) \<noteq> 0" if "f \<in> set [1 ..< 8]" for f using that of_nat_inverse [of f "0 :: u8"] by fastforce
  have p0: "probe (conf hs) b d 0 = (if present hs b d 0 then Some (device_of hs b d 0) else None)" by (rule probe_conf [OF assms]) simp
  show ?thesis
  proof (cases "present hs b d 0 \<and> bit (hs b d 0 14) 7")
    case True
    then have "filter (\<lambda>f. reported hs b d (of_nat f)) [1 ..< 8] = filter (\<lambda>f. present hs b d (of_nat f)) [1 ..< 8]"
      by (intro filter_cong) (auto simp: reported_def)
    then show ?thesis using True p0 mf [of "[1 ..< 8]"] by (simp add: scan_slot_def r multi_function_bit device_of_def reported_def del: upt_rec_numeral)
  next
    case False
    then have "filter (\<lambda>f. reported hs b d (of_nat f)) [1 ..< 8] = []" using nz by (auto simp: reported_def filter_empty_conv)
    then show ?thesis using False p0 by (auto simp: scan_slot_def r multi_function_bit device_of_def reported_def simp del: upt_rec_numeral)
  qed
qed


lemma all_functions_split:
  "map g (filter p all_functions) = concat (map (\<lambda>b. concat (map (\<lambda>d.
     map (\<lambda>f. g (of_nat b, of_nat d, of_nat f)) (filter (\<lambda>f. p (of_nat b, of_nat d, of_nat f)) [0 ..< 8])) [0 ..< 32])) [0 ..< 256])"
  unfolding all_functions_def map_concat filter_concat map_map filter_map comp_def ..

lemma enumerate_conf: "enumerate (conf hs) = map (\<lambda>(b, d, f). device_of hs b d f) (filter (\<lambda>(b, d, f). reported hs b d f) all_functions)"
proof -
  have "scan_slot (conf hs) (of_nat b) (of_nat d) = map (\<lambda>f. device_of hs (of_nat b) (of_nat d) (of_nat f)) (filter (\<lambda>f. reported hs (of_nat b) (of_nat d) (of_nat f)) [0 ..< 8])"
    if "d < 32" for b d
    using that by (intro scan_slot_conf) (simp add: word_less_nat_alt unat_of_nat)
  then have "map (\<lambda>d. scan_slot (conf hs) (of_nat b) (of_nat d)) [0 ..< 32] =
    map (\<lambda>d. map (\<lambda>f. device_of hs (of_nat b) (of_nat d) (of_nat f)) (filter (\<lambda>f. reported hs (of_nat b) (of_nat d) (of_nat f)) [0 ..< 8])) [0 ..< 32]" for b
    by (intro map_cong refl) (auto simp del: upt_rec_numeral)
  then show ?thesis unfolding enumerate_def all_functions_split prod.case by (simp only:)
qed

lemma set_all_functions: "(b, d, f) \<in> set all_functions \<longleftrightarrow> d < 32 \<and> f < 8"
proof
  assume "d < 32 \<and> f < 8"
  then have "unat b < 256 \<and> unat d < 32 \<and> unat f < 8 \<and> b = of_nat (unat b) \<and> d = of_nat (unat d) \<and> f = of_nat (unat f)"
    using unsigned_less [of b, where ?'a = nat] by (auto simp: word_less_nat_alt)
  then have "\<exists>b' < 256. \<exists>d' < 32. \<exists>f' < 8. b = of_nat b' \<and> d = of_nat d' \<and> f = of_nat f'" by metis
  then show "(b, d, f) \<in> set all_functions" unfolding all_functions_def by (auto simp del: upt_rec_numeral) (meson atLeastLessThan_iff imageI le0)
qed (auto simp: all_functions_def word_less_nat_alt unat_of_nat simp del: upt_rec_numeral)

text \<open>
  \<^bold>\<open>C35.\<close> The registry after \<open>enumerate\<close> is exactly the functions the machine has, in bus, device and function order:
  every function 0 that answers, and the other functions of a slot when function 0 announces several, each with the
  ids and class codes of its own header. A search by class therefore fails only when no such function has that class.
\<close>

theorem enumerate_exact:
  "enumerate (conf hs) = map (\<lambda>(b, d, f). device_of hs b d f) (filter (\<lambda>(b, d, f). reported hs b d f) all_functions) \<and>
   (find_by_class (enumerate (conf hs)) c sc = None \<longleftrightarrow>
      \<not> (\<exists>b d f. d < 32 \<and> f < 8 \<and> reported hs b d f \<and> hs b d f 11 = c \<and> hs b d f 10 = sc))"
proof (intro conjI enumerate_conf)
  have "find_by_class (enumerate (conf hs)) c sc = None \<longleftrightarrow>
    \<not> (\<exists>(b, d, f) \<in> set all_functions. reported hs b d f \<and> hs b d f 11 = c \<and> hs b d f 10 = sc)"
    unfolding find_by_class_def enumerate_conf find_None_iff by (auto simp: device_of_def)
  then show "find_by_class (enumerate (conf hs)) c sc = None \<longleftrightarrow>
    \<not> (\<exists>b d f. d < 32 \<and> f < 8 \<and> reported hs b d f \<and> hs b d f 11 = c \<and> hs b d f 10 = sc)"
    using set_all_functions by fastforce
qed

end
