(* ===== verification/Shell.thy ===== *)
theory Shell
  imports Syscall Pci
begin

text \<open>
  The shell (ross-kernel/src/shell.rs): the line editor and the commands, over the kernel state. The statics of the file and the PCI
  registry join the kernel state; the controller, the kernel tables and the address of the next kernel stack are parameters.
\<close>

section \<open>State\<close>

definition MAX_LINE :: usize where "MAX_LINE = 128"
definition MAX_CWD :: usize where "MAX_CWD = 64"
definition SCALE :: usize where "SCALE = 1"

datatype State = Splash | Active

record 'd shell =
  sh_kernel :: "'d ahci kernel"
  LINE_BUF :: "u8 list"
  LINE_LEN :: usize
  CWD_BUF :: "u8 list"
  CWD_LEN :: usize
  sh_state :: State
  DEVICES :: "PciDevice list"
  sh_reset :: bool        \<comment> \<open>the reset command was sent to the PS/2 controller\<close>

definition CWD_INIT :: str where
  "CWD_INIT = ascii ''/mnt/disk''"

definition shell_new :: "'d ahci kernel \<Rightarrow> PciDevice list \<Rightarrow> 'd shell" where
  "shell_new k devs = \<lparr>sh_kernel = k, LINE_BUF = replicate MAX_LINE 0, LINE_LEN = 0,
     CWD_BUF = CWD_INIT @ replicate (MAX_CWD - length CWD_INIT) 0, CWD_LEN = 9, sh_state = Splash, DEVICES = devs, sh_reset = False\<rparr>"

definition on_k :: "('d ahci kernel, 'a) op \<Rightarrow> ('d shell, 'a) op" where
  "on_k m = (\<lambda>s. let (r, k) = m (sh_kernel s) in (r, s\<lparr>sh_kernel := k\<rparr>))"

text \<open>\<^verbatim>\<open>wr.put_str(s, color, SCALE)\<close> and \<^verbatim>\<open>wr.put_char(ch, color, SCALE)\<close>.\<close>

definition say :: "str \<Rightarrow> u32 \<Rightarrow> ('d shell, unit) op" where
  "say s color = on_k (on_writer (put_str s color SCALE))"

definition say_char :: "u8 \<Rightarrow> u32 \<Rightarrow> ('d shell, unit) op" where
  "say_char ch color = on_k (on_writer (put_char ch color SCALE))"

text \<open>\<^verbatim>\<open>write!(wr, ...)\<close>: the pieces reach \<^verbatim>\<open>write_str\<close> one after the other.\<close>

definition write_fmt :: "str \<Rightarrow> ('d shell, unit) op" where
  "write_fmt s = on_k (on_writer (write_str s))"

definition serial :: "str \<Rightarrow> ('d shell, unit) op" where
  "serial s = on_k (serial_print s)"

section \<open>Words and numbers\<close>

text \<open>\<^verbatim>\<open>split_whitespace\<close>; the first argument is the word read so far.\<close>

fun split_ws :: "str \<Rightarrow> str \<Rightarrow> str list" where
  "split_ws w [] = (if w = [] then [] else [w])"
| "split_ws w (b # s) =
     (case find (\<lambda>p. starts_with p (b # s)) white_space of
        Some p \<Rightarrow> (if w = [] then [] else [w]) @ split_ws [] (drop (length p - 1) s)
      | None \<Rightarrow> split_ws (w @ [b]) s)"

definition split_whitespace :: "str \<Rightarrow> str list" where
  "split_whitespace = split_ws []"

fun join :: "str \<Rightarrow> str list \<Rightarrow> str" where
  "join sep [] = []"
| "join sep [w] = w"
| "join sep (w # ws) = w @ sep @ join sep ws"

text \<open>\<^verbatim>\<open>{:0kx}\<close> for a value of at most \<open>k\<close> hexadecimal digits.\<close>

definition hex_digit :: "nat \<Rightarrow> u8" where
  "hex_digit d = (if d < 10 then 0x30 + of_nat d else 0x61 + of_nat (d - 10))"

primrec hex :: "nat \<Rightarrow> nat \<Rightarrow> str" where
  "hex 0 v = []"
| "hex (Suc k) v = hex k (v div 16) @ [hex_digit (v mod 16)]"

text \<open>The first loop of \<^verbatim>\<open>print_num\<close> fills its buffer with the digits, the lowest first; the second prints them backwards.\<close>

fun num_digits :: "nat \<Rightarrow> u8 list" where
  "num_digits n = (if n = 0 then [] else (0x30 + of_nat (n mod 10)) # num_digits (n div 10))"

declare num_digits.simps [simp del]

definition print_num :: "usize \<Rightarrow> ('d shell, unit) op" where
  "print_num n =
     (if n = 0 then say_char 0x30 FG
      else let buf = num_digits n in
        if length buf \<le> 20 then forS (rev buf) (\<lambda>b. say_char b FG)
        else throwS (Panic ''index out of bounds''))"

section \<open>Paths\<close>

definition cwd :: "('d shell, str) op" where
  "cwd = bindS (getS id) (\<lambda>s. liftS (slice 0 (CWD_LEN s) (CWD_BUF s)))"

definition resolve :: "str \<Rightarrow> ('d shell, str) op" where
  "resolve path =
     (if starts_with [0x2F] path then retS path
      else bindS cwd (\<lambda>c. retS (c @ (if c \<noteq> [] \<and> last c = 0x2F then [] else [0x2F]) @ path)))"

definition open_path :: "'d hba \<Rightarrow> str \<Rightarrow> ('d shell, VfsNode) op" where
  "open_path hba path = bindS (getS (\<lambda>s. k_vfs (sh_kernel s))) (\<lambda>v. on_k (on_dev (vfs_open (ahci_device hba) v path)))"

section \<open>Commands\<close>

definition NL :: str where "NL = [0x0A]"

definition cmd_pwd :: "('d shell, unit) op" where
  "cmd_pwd = bindS cwd (\<lambda>c. bindS (say (ascii ''  '') FG) (\<lambda>_. bindS (say c ACCENT) (\<lambda>_. say_char 0x0A FG)))"

definition cmd_cd :: "'d hba \<Rightarrow> str \<Rightarrow> ('d shell, unit) op" where
  "cmd_cd hba raw = bindS (resolve raw) (\<lambda>path.
     matchS (open_path hba path)
       (\<lambda>node. if node_type (vn_attribute node) = Directory then
            let len = min (length path) MAX_CWD in
            modS (\<lambda>s. s\<lparr>CWD_BUF := put_at 0 (take len path) (CWD_BUF s), CWD_LEN := len\<rparr>)
          else say (ascii ''  Error: not a directory'' @ NL) RED)
       (\<lambda>_. say (ascii ''  Error: no such path'' @ NL) RED))"

definition cmd_ls :: "'d hba \<Rightarrow> str \<Rightarrow> ('d shell, unit) op" where
  "cmd_ls hba path = (let target = (if path = [] then [0x2F] else path) in
     matchS (open_path hba target)
       (\<lambda>node. matchS (on_k (on_dev (vn_readdir (ahci_device hba) node)))
          (\<lambda>files.
             bindS (say (ascii ''  Files in '') ACCENT) (\<lambda>_.
             bindS (say target ACCENT) (\<lambda>_.
             bindS (say (ascii '':'' @ NL) ACCENT) (\<lambda>_.
             forS files (\<lambda>f.
               bindS (say (ascii ''    '') FG) (\<lambda>_.
               bindS (say f FG) (\<lambda>_.
               say_char 0x0A FG)))))))
          (\<lambda>_. say (ascii ''  Error: not a directory'' @ NL) RED))
       (\<lambda>_. say (ascii ''  Error: no such path'' @ NL) RED))"

definition cat_byte :: "u8 \<Rightarrow> ('d shell, unit) op" where
  "cat_byte b = (if b = 0x0A then say_char 0x0A FG
     else if 0x21 \<le> b \<and> b \<le> 0x7E \<or> b = 0x20 then say_char b FG else retS ())"

definition cmd_cat :: "'d hba \<Rightarrow> str \<Rightarrow> ('d shell, unit) op" where
  "cmd_cat hba path =
     matchS (open_path hba path)
       (\<lambda>node. let size = stat_size (vn_attribute node) in
          if size = 0 then say (ascii ''  (empty)'' @ NL) DIM
          else matchS (on_k (on_dev (vn_read (ahci_device hba) node 0 (replicate (min size 4096) 0))))
            (\<lambda>(n, buf). bindS (liftS (slice 0 n buf)) (\<lambda>bs. bindS (forS bs cat_byte) (\<lambda>_. say_char 0x0A FG)))
            (\<lambda>_. say (ascii ''  Error: read failed'' @ NL) RED))
       (\<lambda>_. say (ascii ''  Error: file not found'' @ NL) RED)"

text \<open>The node a write changes belongs to the command and is dropped with it.\<close>

definition write_node :: "'d hba \<Rightarrow> VfsNode \<Rightarrow> u8 list \<Rightarrow> ('d shell, nat) op" where
  "write_node hba node data = on_k (on_dev (\<lambda>d. let (r, d', _) = vn_write (ahci_device hba) 0 data (d, node) in (r, d')))"

definition create_path :: "'d hba \<Rightarrow> str \<Rightarrow> ('d shell, VfsNode) op" where
  "create_path hba path = bindS (getS (\<lambda>s. k_vfs (sh_kernel s))) (\<lambda>v. on_k (on_dev (vfs_create (ahci_device hba) v path)))"

definition write_found :: "'d hba \<Rightarrow> str \<Rightarrow> u8 list \<Rightarrow> VfsNode \<Rightarrow> ('d shell, unit) op" where
  "write_found hba path data node =
     matchS (write_node hba node data)
       (\<lambda>n. write_fmt (ascii ''  Wrote '' @ decimal n @ ascii '' bytes to '' @ path @ NL))
       (\<lambda>_. bindS (serial (ascii ''[WRITE] write() failed'' @ NL)) (\<lambda>_. say (ascii ''  Error: write failed (read-only?)'' @ NL) RED))"

definition cmd_write :: "'d hba \<Rightarrow> str \<Rightarrow> u8 list \<Rightarrow> ('d shell, unit) op" where
  "cmd_write hba path data =
     bindS (serial (ascii ''[WRITE] path='')) (\<lambda>_. bindS (serial path) (\<lambda>_. bindS (serial NL) (\<lambda>_.
     matchS (open_path hba path)
       (\<lambda>node. bindS (serial (ascii ''[WRITE] file exists, overwriting'' @ NL)) (\<lambda>_. write_found hba path data node))
       (\<lambda>_. matchS (create_path hba path)
          (\<lambda>node. bindS (serial (ascii ''[WRITE] created new file'' @ NL)) (\<lambda>_. write_found hba path data node))
          (\<lambda>_. bindS (serial (ascii ''[WRITE] create failed'' @ NL)) (\<lambda>_. say (ascii ''  Error: cannot create file'' @ NL) RED))))))"

definition lspci_line :: "PciDevice \<Rightarrow> str" where
  "lspci_line d = ascii ''    '' @ hex 2 (unat (pci_bus d)) @ ascii '':'' @ hex 2 (unat (pci_device d)) @ ascii ''.'' @ decimal (unat (pci_function d)) @
     ascii ''  '' @ hex 4 (unat (vendor_id d)) @ ascii '':'' @ hex 4 (unat (device_id d)) @ ascii ''  '' @ class_name (pci_class d) (pci_subclass d) @ NL"

definition cmd_lspci :: "('d shell, unit) op" where
  "cmd_lspci = bindS (getS DEVICES) (\<lambda>devices.
     if devices = [] then say (ascii ''  No PCI devices enumerated'' @ NL) DIM
     else bindS (say (ascii ''  PCI Devices:'' @ NL) ACCENT) (\<lambda>_. forS devices (\<lambda>d. write_fmt (lspci_line d))))"

definition cmd_disk :: "'d hba \<Rightarrow> ('d shell, unit) op" where
  "cmd_disk hba = bindS (getS (\<lambda>s. is_ready (k_disk (sh_kernel s)))) (\<lambda>ready.
     if \<not> ready then say (ascii ''  AHCI: no SATA drive attached'' @ NL) RED
     else matchS (on_k (on_dev (read_sectors hba 0 1 (replicate 512 0))))
       (\<lambda>buf. let sig = u16_le (buf ! 510) (buf ! 511) in
          bindS (write_fmt (ascii ''  Sector 0 read OK  sig=0x'' @ hex 4 (unat sig) @ ascii '' '' @
            ascii (if sig = 0xAA55 then ''(valid MBR)'' else ''(empty/not MBR)'') @ NL)) (\<lambda>_.
          bindS (say (ascii ''  First 16 bytes: '') DIM) (\<lambda>_.
          bindS (forS (take 16 buf) (\<lambda>b. write_fmt (hex 2 (unat b) @ ascii '' ''))) (\<lambda>_.
          say_char 0x0A FG))))
       (\<lambda>e. bindS (say (ascii ''  AHCI error: '') RED) (\<lambda>_. bindS (say (ascii e) RED) (\<lambda>_. say_char 0x0A FG))))"

text \<open>Sends the reset and waits for it: the call does not return.\<close>

definition cmd_reboot :: "('d shell, unit) op" where
  "cmd_reboot = bindS (modS (\<lambda>s. s\<lparr>sh_reset := True\<rparr>)) (\<lambda>_. throwS (Panic ''waiting for the reset''))"

definition help_cmds :: "(string \<times> string) list" where
  "help_cmds = [
     (''help'', ''Show this help message''),
     (''clear'', ''Clear the terminal area''),
     (''pwd'', ''Show current directory''),
     (''cd'', ''Change directory: cd <path>''),
     (''ls'', ''List directory (default: cwd)''),
     (''lspci'', ''List enumerated PCI devices''),
     (''disk'', ''Read sector 0 and show MBR signature''),
     (''cat'', ''Print a file (relative paths use cwd)''),
     (''write'', ''Write to a file: write <path> <content>''),
     (''exec'', ''Execute an ELF binary''),
     (''memory'', ''Show physical memory statistics''),
     (''uptime'', ''Show system uptime''),
     (''version'', ''Show ROSS version info''),
     (''reboot'', ''Restart the system'')]"

definition cmd_help :: "('d shell, unit) op" where
  "cmd_help =
     bindS cwd (\<lambda>c.
     bindS (say (ascii ''  cwd: '') DIM) (\<lambda>_.
     bindS (say c ACCENT) (\<lambda>_.
     bindS (say_char 0x0A FG) (\<lambda>_.
     bindS (say (ascii ''  Available commands:'' @ NL) ACCENT) (\<lambda>_.
     forS help_cmds (\<lambda>(name, desc).
       bindS (say (ascii ''    '') FG) (\<lambda>_.
       bindS (say (ascii name) FG) (\<lambda>_.
       bindS (forS [length name ..< 10] (\<lambda>_. say_char 0x20 FG)) (\<lambda>_.
       bindS (say (ascii ''- '') DIM) (\<lambda>_.
       bindS (say (ascii desc) DIM) (\<lambda>_.
       say_char 0x0A FG))))))))))) "

definition BANNER :: str where
  "BANNER = ascii (''ROSS Shell v0.4  |  Type '' @ [CHR 0x27] @ ''help'' @ [CHR 0x27] @ '' for commands'')"

definition say_at :: "usize \<Rightarrow> usize \<Rightarrow> ('d shell, unit) op" where
  "say_at x y = on_k (on_writer (set_pos x y))"

definition fill :: "usize \<Rightarrow> usize \<Rightarrow> usize \<Rightarrow> usize \<Rightarrow> u32 \<Rightarrow> ('d shell, unit) op" where
  "fill x y w h color = on_k (on_writer (fill_rect x y w h color))"

text \<open>\<^verbatim>\<open>fill_rect(0, TERM_Y, w, h - TERM_Y, BG)\<close> and the banner.\<close>

definition clear_terminal :: "('d shell, unit) op" where
  "clear_terminal =
     bindS (on_k (on_writer (getS id))) (\<lambda>wr.
     bindS (if TERM_Y \<le> wr_h wr then fill 0 TERM_Y (wr_w wr) (wr_h wr - TERM_Y) BG
            else throwS (Panic ''attempt to subtract with overflow'')) (\<lambda>_.
     bindS (say_at LEFT_MARGIN (TERM_Y + 6)) (\<lambda>_.
     bindS (say BANNER DIM) (\<lambda>_.
     say_at LEFT_MARGIN (TERM_Y + 20)))))"

definition cmd_clear :: "('d shell, unit) op" where
  "cmd_clear = clear_terminal"

definition cmd_memory :: "('d shell, unit) op" where
  "cmd_memory = bindS (getS (\<lambda>s. frames (k_mm (sh_kernel s)))) (\<lambda>st.
     let free = free_mib st; tot = total_mib st; used = tot - free in
     bindS (say (ascii ''  Physical Memory'' @ NL) ACCENT) (\<lambda>_.
     bindS (say (ascii ''    Total  : '') FG) (\<lambda>_. bindS (print_num tot) (\<lambda>_. bindS (say (ascii '' MiB'' @ NL) FG) (\<lambda>_.
     bindS (say (ascii ''    Used   : '') FG) (\<lambda>_. bindS (print_num used) (\<lambda>_. bindS (say (ascii '' MiB'' @ NL) FG) (\<lambda>_.
     bindS (say (ascii ''    Free   : '') ACCENT) (\<lambda>_. bindS (print_num free) (\<lambda>_. say (ascii '' MiB'' @ NL) ACCENT))))))))))"

definition cmd_uptime :: "('d shell, unit) op" where
  "cmd_uptime = bindS (getS (\<lambda>s. k_ticks (sh_kernel s))) (\<lambda>ticks.
     let seconds = unat ticks div 100; minutes = seconds div 60; secs = seconds mod 60 in
     bindS (say (ascii ''  Uptime: '') FG) (\<lambda>_. bindS (print_num minutes) (\<lambda>_.
     bindS (say (ascii ''m '') FG) (\<lambda>_. bindS (print_num secs) (\<lambda>_.
     bindS (say (ascii ''s  ('') DIM) (\<lambda>_. bindS (print_num (unat ticks)) (\<lambda>_.
     say (ascii '' ticks @ 100 Hz)'' @ NL) DIM)))))))"

definition cmd_version :: "('d shell, unit) op" where
  "cmd_version =
     bindS (say (ascii ''  R.O.S.S.  Rapid Operating System Shell'' @ NL) ACCENT) (\<lambda>_.
     say (ascii ''  Phase 6  |  x86_64  |  Bare Metal'' @ NL) DIM)"

section \<open>The dispatcher and the line editor\<close>

definition usage :: "string \<Rightarrow> ('d shell, unit) op" where
  "usage s = say (ascii ''  Usage: '' @ ascii s @ NL) DIM"

definition execute :: "'d hba \<Rightarrow> kernel_tables \<Rightarrow> u64 \<Rightarrow> str \<Rightarrow> ('d shell, unit) op" where
  "execute hba kt stk input =
     bindS (serial (ascii ''[SHELL] Executing: '')) (\<lambda>_. bindS (serial input) (\<lambda>_. bindS (serial NL) (\<lambda>_.
     let (cmd, args) = (case split_whitespace input of [] \<Rightarrow> ([], []) | w # ws \<Rightarrow> (w, ws)) in
     if cmd = ascii ''help'' then cmd_help
     else if cmd = ascii ''clear'' then cmd_clear
     else if cmd = ascii ''memory'' then cmd_memory
     else if cmd = ascii ''uptime'' then cmd_uptime
     else if cmd = ascii ''version'' then cmd_version
     else if cmd = ascii ''pwd'' then cmd_pwd
     else if cmd = ascii ''cd'' then cmd_cd hba (case args of [] \<Rightarrow> ascii ''/mnt/disk'' | raw # _ \<Rightarrow> raw)
     else if cmd = ascii ''ls'' then
       bindS (case args of [] \<Rightarrow> cwd | raw # _ \<Rightarrow> if raw = [] then cwd else resolve raw) (cmd_ls hba)
     else if cmd = ascii ''lspci'' then cmd_lspci
     else if cmd = ascii ''disk'' then cmd_disk hba
     else if cmd = ascii ''cat'' then
       (case args of raw # _ \<Rightarrow> bindS (resolve raw) (cmd_cat hba) | [] \<Rightarrow> usage ''cat <path>'')
     else if cmd = ascii ''write'' then
       (case args of
          p # ws \<Rightarrow> (let data = join [0x20] ws in
            if data = [] then usage ''write <path> <content>'' else bindS (resolve p) (\<lambda>path. cmd_write hba path data))
        | [] \<Rightarrow> usage ''write <path> <content>'')
     else if cmd = ascii ''reboot'' then cmd_reboot
     else if cmd = ascii ''exec'' then
       (case args of
          raw # _ \<Rightarrow> bindS (resolve raw) (\<lambda>path.
            matchS (on_k (spawn_process (ahci_device hba) kt stk path)) retS
              (\<lambda>_. say (ascii ''  Error: failed to spawn process'' @ NL) RED))
        | [] \<Rightarrow> usage ''exec <path>'')
     else if cmd = [] then retS ()
     else bindS (say (ascii (''  Error: unknown command '' @ [CHR 0x27])) RED) (\<lambda>_.
          bindS (say cmd RED) (\<lambda>_.
          say (0x27 # NL) RED)))))"

definition prompt :: "('d shell, unit) op" where
  "prompt = bindS (say (ascii ''ross'') ACCENT) (\<lambda>_. bindS (say (ascii ''> '') DIM) (\<lambda>_. on_k (on_writer mark_input_start)))"

definition activate :: "('d shell, unit) op" where
  "activate =
     bindS (fill 20 44 200 10 BG) (\<lambda>_.
     bindS (say_at 20 44) (\<lambda>_.
     bindS (say (ascii ''R.O.S.S. Ready.'') ACCENT) (\<lambda>_.
     bindS (on_k (on_writer (getS wr_w))) (\<lambda>w.
     bindS (fill 0 (TERM_Y - 2) w 2 0x00333333) (\<lambda>_.
     bindS clear_terminal (\<lambda>_.
     prompt))))))"

text \<open>The arms of the active state: Enter, Backspace and a printable character.\<close>

definition press_enter :: "'d hba \<Rightarrow> kernel_tables \<Rightarrow> u64 \<Rightarrow> ('d shell, unit) op" where
  "press_enter hba kt stk =
     bindS (say_char 0x0A FG) (\<lambda>_.
     bindS (getS id) (\<lambda>s.
     bindS (liftS (slice 0 (LINE_LEN s) (LINE_BUF s))) (\<lambda>raw.
     bindS (execute hba kt stk (trim (if utf8_valid raw then raw else []))) (\<lambda>_.
     bindS (modS (\<lambda>s. s\<lparr>LINE_LEN := 0\<rparr>)) (\<lambda>_.
     prompt)))))"

definition press_backspace :: "('d shell, unit) op" where
  "press_backspace = bindS (getS LINE_LEN) (\<lambda>len.
     if 0 < len then bindS (modS (\<lambda>s. s\<lparr>LINE_LEN := LINE_LEN s - 1\<rparr>)) (\<lambda>_. on_k (on_writer (backspace SCALE)))
     else retS ())"

definition press_char :: "u8 \<Rightarrow> ('d shell, unit) op" where
  "press_char ch = bindS (getS LINE_LEN) (\<lambda>len.
     if len < MAX_LINE then
       bindS (modS (\<lambda>s. s\<lparr>LINE_BUF := (LINE_BUF s)[len := ch], LINE_LEN := LINE_LEN s + 1\<rparr>)) (\<lambda>_. say_char ch FG)
     else retS ())"

definition handle_byte :: "'d hba \<Rightarrow> kernel_tables \<Rightarrow> u64 \<Rightarrow> u8 \<Rightarrow> ('d shell, unit) op" where
  "handle_byte hba kt stk ch =
     bindS (on_k (on_writer (retS ()))) (\<lambda>_. bindS (getS sh_state) (\<lambda>st.
     case st of
       Splash \<Rightarrow> if ch = 0x0A then bindS (modS (\<lambda>s. s\<lparr>sh_state := Active\<rparr>)) (\<lambda>_. activate) else retS ()
     | Active \<Rightarrow>
         if ch = 0x0A then press_enter hba kt stk
         else if ch = 0x08 then press_backspace
         else if 0x20 \<le> ch \<and> ch \<le> 0x7E then press_char ch
         else retS ()))"

end
