(* ===== verification/ShellRun.thy ===== *)
theory ShellRun
  imports Shell Spawn
begin

text \<open>
  What the shell keeps and does: the invariant of its buffers, the line editor as a function on lines, and files written
  and printed by its commands.
\<close>

section \<open>The buffers\<close>

definition printable :: "u8 \<Rightarrow> bool" where
  "printable b \<longleftrightarrow> 0x20 \<le> b \<and> b \<le> 0x7E"

definition ascii_str :: "str \<Rightarrow> bool" where
  "ascii_str s \<longleftrightarrow> list_all (\<lambda>b. b < 0x80) s"

definition line :: "'d shell \<Rightarrow> str" where
  "line s = take (LINE_LEN s) (LINE_BUF s)"

definition cwd_path :: "'d shell \<Rightarrow> str" where
  "cwd_path s = take (CWD_LEN s) (CWD_BUF s)"

definition shell_inv :: "'d shell \<Rightarrow> bool" where
  "shell_inv s \<longleftrightarrow> length (LINE_BUF s) = MAX_LINE \<and> LINE_LEN s \<le> MAX_LINE \<and> list_all printable (line s) \<and>
     length (CWD_BUF s) = MAX_CWD \<and> CWD_LEN s \<le> MAX_CWD \<and> cwd_path s \<noteq> [] \<and> hd (cwd_path s) = 0x2F \<and> ascii_str (cwd_path s)"

lemma printable_ascii: "list_all printable s \<Longrightarrow> ascii_str s"
proof -
  have "b < 0x80" if "printable b" for b using that unfolding printable_def by (auto simp: word_less_nat_alt word_le_nat_alt)
  then show "list_all printable s \<Longrightarrow> ascii_str s" by (auto simp: ascii_str_def list_all_iff)
qed

lemma ascii_str_sub: "ascii_str s \<Longrightarrow> set t \<subseteq> set s \<Longrightarrow> ascii_str t"
  by (auto simp: ascii_str_def list_all_iff)

lemma ascii_str_utf8: "ascii_str s \<Longrightarrow> utf8_valid s"
  by (simp add: ascii_str_def list_all_iff utf8_valid_ascii)

lemma slice_0 [simp]: "n \<le> length bs \<Longrightarrow> slice 0 n bs = Inr (take n bs)"
  by (simp add: slice_def subslice_def)

lemma strip_all_sub: "set (strip_all ws s) \<subseteq> set s"
proof (induction ws s rule: strip_all.induct)
  case (1 ws s)
  then show ?case by (subst strip_all.simps) (auto split: option.splits dest: in_set_dropD)
qed

lemma trim_sub: "set (trim s) \<subseteq> set s"
  using strip_all_sub [of "map rev white_space" "rev (strip_all white_space s)"] strip_all_sub [of white_space s] by (auto simp: trim_def)

lemma split_ws_sub: "v \<in> set (split_ws w s) \<Longrightarrow> set v \<subseteq> set w \<union> set s"
proof (induction w s arbitrary: v rule: split_ws.induct)
  case (2 w b s)
  show ?case
  proof (cases "find (\<lambda>p. starts_with p (b # s)) white_space")
    case None
    then show ?thesis using 2 by fastforce
  next
    case (Some p)
    then show ?thesis using 2 by (fastforce split: if_splits dest: in_set_dropD)
  qed
qed (auto split: if_splits)

lemma keeps_on_k: "(\<And>s k. P s \<Longrightarrow> P (s\<lparr>sh_kernel := k\<rparr>)) \<Longrightarrow> keepsS P (on_k m)"
  by (auto simp: keepsS_def on_k_def split: prod.splits)

lemma shell_inv_kernel: "shell_inv (s\<lparr>sh_kernel := k\<rparr>) = shell_inv s"
  by (simp add: shell_inv_def line_def cwd_path_def)

lemma keeps_inv_on_k: "keepsS shell_inv (on_k m)"
  by (rule keeps_on_k) (simp add: shell_inv_kernel)

lemmas shell_calls = say_def say_char_def write_fmt_def serial_def say_at_def fill_def open_path_def create_path_def write_node_def usage_def

lemmas keeps_inv = keepsS_bind keepsS_match keepsS_forS keepsS_if keepsS_ret keepsS_throw keepsS_lift keepsS_get keeps_inv_on_k

lemma cwd_run: "shell_inv s \<Longrightarrow> cwd s = (Inr (cwd_path s), s)"
  by (simp add: cwd_def bindS_def shell_inv_def cwd_path_def)

lemma resolve_run:
  assumes "shell_inv s" and "ascii_str raw"
  obtains path where "resolve raw s = (Inr path, s)" and "path \<noteq> []" and "hd path = 0x2F" and "ascii_str path"
proof (cases "starts_with [0x2F] raw")
  case True
  then have "raw \<noteq> [] \<and> hd raw = 0x2F" by (cases raw) (auto simp: starts_with_def)
  with True assms(2) that [of raw] show ?thesis by (simp add: resolve_def)
next
  case False
  let ?c = "cwd_path s" and ?p = "cwd_path s @ (if last (cwd_path s) = 0x2F then [] else [0x2F]) @ raw"
  have c: "?c \<noteq> []" "hd ?c = 0x2F" "ascii_str ?c" using assms(1) by (auto simp: shell_inv_def)
  then have "resolve raw s = (Inr ?p, s)" using False assms(1) by (simp add: resolve_def bindS_def cwd_run)
  moreover have "?p \<noteq> []" "hd ?p = 0x2F" "ascii_str ?p" using c assms(2) by (auto simp: ascii_str_def)
  ultimately show ?thesis by (rule that)
qed

lemma resolve_keeps: "keepsS shell_inv (resolve raw)"
  unfolding resolve_def cwd_def by (intro keeps_inv)

lemma cd_keeps: "ascii_str raw \<Longrightarrow> keepsS shell_inv (cmd_cd hba raw)"
proof (unfold keepsS_def, intro allI impI)
  fix s :: "'a shell" assume raw: "ascii_str raw" and inv: "shell_inv s"
  obtain path where p: "resolve raw s = (Inr path, s)" "path \<noteq> []" "hd path = 0x2F" "ascii_str path" by (rule resolve_run [OF inv raw])
  let ?len = "min (length path) MAX_CWD"
  let ?enter = "\<lambda>s :: 'a shell. s\<lparr>CWD_BUF := put_at 0 (take ?len path) (CWD_BUF s), CWD_LEN := ?len\<rparr>"
  have "shell_inv (?enter s)" if "shell_inv s" for s :: "'a shell"
  proof -
    have "length (CWD_BUF s) = MAX_CWD" using that by (simp add: shell_inv_def)
    then have "cwd_path (?enter s) = take ?len path" by (simp add: cwd_path_def put_at_def)
    moreover have "0 < ?len" using p(2) by (simp add: MAX_CWD_def)
    moreover have "hd (take ?len path) = hd path" using calculation(2) by (simp only: hd_take)
    moreover have "ascii_str (take ?len path)" using p(4) by (rule ascii_str_sub) (auto dest: in_set_takeD)
    ultimately show ?thesis using that p(2,3) by (auto simp: shell_inv_def line_def put_at_def)
  qed
  then have enter: "keepsS shell_inv (modS ?enter)" by (simp add: keepsS_def)
  have "keepsS shell_inv (matchS (open_path hba path)
       (\<lambda>node. if node_type (vn_attribute node) = Directory then modS ?enter else say (ascii ''  Error: not a directory'' @ NL) RED)
       (\<lambda>_. say (ascii ''  Error: no such path'' @ NL) RED))"
    unfolding shell_calls by (intro keeps_inv enter)
  then show "shell_inv (snd (cmd_cd hba raw s))"
    using inv unfolding cmd_cd_def Let_def by (simp add: bindS_def p(1) keepsS_def)
qed

lemma reset_keeps: "keepsS shell_inv (modS (\<lambda>s. s\<lparr>sh_reset := True\<rparr>))"
  by (simp add: keepsS_def shell_inv_def line_def cwd_path_def)

lemma print_num_keeps: "keepsS shell_inv (print_num n)"
  unfolding print_num_def shell_calls Let_def by (intro keeps_inv)

lemma ls_keeps: "keepsS shell_inv (cmd_ls hba p)"
  unfolding cmd_ls_def shell_calls Let_def by (intro keeps_inv)

lemma cat_keeps: "keepsS shell_inv (cmd_cat hba p)"
  unfolding cmd_cat_def cat_byte_def shell_calls Let_def case_prod_beta by (intro keeps_inv)

lemma write_keeps: "keepsS shell_inv (cmd_write hba p data)"
  unfolding cmd_write_def write_found_def shell_calls Let_def by (intro keeps_inv)

lemma show_keeps:
  "keepsS shell_inv cmd_help" "keepsS shell_inv cmd_clear" "keepsS shell_inv cmd_memory" "keepsS shell_inv cmd_uptime"
  "keepsS shell_inv cmd_version" "keepsS shell_inv cmd_pwd" "keepsS shell_inv cmd_lspci" "keepsS shell_inv (cmd_disk hba)"
  "keepsS shell_inv clear_terminal" "keepsS shell_inv cwd" "keepsS shell_inv prompt"
  unfolding cmd_help_def cmd_clear_def clear_terminal_def cmd_memory_def cmd_uptime_def cmd_version_def cmd_pwd_def cmd_lspci_def
    cmd_disk_def cwd_def prompt_def shell_calls Let_def case_prod_beta
  by (intro keeps_inv print_num_keeps)+

lemma keepsS_list:
  "(xs = [] \<Longrightarrow> keepsS P a) \<Longrightarrow> (\<And>y ys. xs = y # ys \<Longrightarrow> keepsS P (f y ys)) \<Longrightarrow> keepsS P (case xs of [] \<Rightarrow> a | y # ys \<Rightarrow> f y ys)"
  by (cases xs) simp_all

lemma execute_keeps:
  assumes "ascii_str input"
  shows "keepsS shell_inv (execute hba kt stk input)"
proof -
  have words: "ascii_str w" if "w \<in> set (split_whitespace input)" for w
    using ascii_str_sub [OF assms] split_ws_sub [of w "[]" input] that by (simp add: split_whitespace_def)
  have cd: "keepsS shell_inv (cmd_cd hba (case args of [] \<Rightarrow> ascii ''/mnt/disk'' | raw # _ \<Rightarrow> raw))" if "set args \<subseteq> set (split_whitespace input)" for args
    using that words by (intro cd_keeps) (auto simp: ascii_str_def ascii_def split: list.splits)
  obtain cmd args where w: "(case split_whitespace input of [] \<Rightarrow> ([], []) | w # ws \<Rightarrow> (w, ws)) = (cmd, args)"
    and args: "set args \<subseteq> set (split_whitespace input)"
    by (cases "split_whitespace input") auto
  show ?thesis
    unfolding execute_def Let_def w prod.case cmd_reboot_def shell_calls
    by (intro keeps_inv keepsS_list show_keeps cd args ls_keeps cat_keeps write_keeps resolve_keeps reset_keeps)
qed


lemma activate_keeps: "keepsS shell_inv activate"
  unfolding activate_def shell_calls by (intro keeps_inv show_keeps)

text \<open>The three changes of the line.\<close>

lemma line_append:
  "shell_inv s \<Longrightarrow> LINE_LEN s < MAX_LINE \<Longrightarrow> line (s\<lparr>LINE_BUF := (LINE_BUF s)[LINE_LEN s := ch], LINE_LEN := LINE_LEN s + 1\<rparr>) = line s @ [ch]"
  by (simp add: line_def shell_inv_def take_Suc_conv_app_nth)

lemma line_drop: "line (s\<lparr>LINE_LEN := LINE_LEN s - 1\<rparr>) = butlast (line s)" if "shell_inv s"
  using that by (simp add: line_def shell_inv_def butlast_take)

lemma line_changes:
  assumes "shell_inv s"
  shows "shell_inv (s\<lparr>LINE_LEN := 0\<rparr>)" and "shell_inv (s\<lparr>LINE_LEN := LINE_LEN s - 1\<rparr>)"
    and "printable ch \<Longrightarrow> LINE_LEN s < MAX_LINE \<Longrightarrow> shell_inv (s\<lparr>LINE_BUF := (LINE_BUF s)[LINE_LEN s := ch], LINE_LEN := LINE_LEN s + 1\<rparr>)"
proof -
  show "shell_inv (s\<lparr>LINE_LEN := 0\<rparr>)" using assms by (simp add: shell_inv_def line_def cwd_path_def)
  have "list_all printable (butlast (line s))" using assms by (auto simp: shell_inv_def list_all_iff dest: in_set_butlastD)
  then show "shell_inv (s\<lparr>LINE_LEN := LINE_LEN s - 1\<rparr>)" using assms line_drop [OF assms] by (auto simp: shell_inv_def cwd_path_def)
  show "shell_inv (s\<lparr>LINE_BUF := (LINE_BUF s)[LINE_LEN s := ch], LINE_LEN := LINE_LEN s + 1\<rparr>)" if "printable ch" "LINE_LEN s < MAX_LINE"
    using assms that line_append [OF assms that(2), of ch] by (auto simp: shell_inv_def cwd_path_def)
qed

lemma press_backspace_keeps: "keepsS shell_inv press_backspace"
proof -
  have "keepsS shell_inv (modS (\<lambda>s. s\<lparr>LINE_LEN := LINE_LEN s - 1\<rparr>))" using line_changes(2) by (auto simp: keepsS_def)
  then show ?thesis unfolding press_backspace_def by (intro keeps_inv)
qed

lemma press_char_keeps:
  assumes "printable ch"
  shows "keepsS shell_inv (press_char ch)"
  unfolding press_char_def
proof (rule keepsS_getS)
  fix s :: "'a shell" assume inv: "shell_inv s"
  have say: "keepsS shell_inv (say_char ch FG :: ('a shell, unit) op)" by (simp add: say_char_def keeps_inv_on_k)
  show "shell_inv (snd ((if LINE_LEN s < MAX_LINE then bindS (modS (\<lambda>s'. s'\<lparr>LINE_BUF := (LINE_BUF s')[LINE_LEN s := ch], LINE_LEN := LINE_LEN s' + 1\<rparr>))
      (\<lambda>_. say_char ch FG) else retS ()) s))"
    using inv line_changes(3) [OF inv assms] say by (simp add: bindS_def keepsS_def)
qed

lemma press_enter_keeps: "keepsS shell_inv (press_enter hba kt stk)"
  unfolding press_enter_def
proof (rule keepsS_bind, simp add: say_char_def keeps_inv_on_k, rule keepsS_getS)
  fix s :: "'a shell" assume inv: "shell_inv s"
  have raw: "slice 0 (LINE_LEN s) (LINE_BUF s) = Inr (line s)" using inv by (simp add: shell_inv_def line_def)
  have a: "ascii_str (line s)" using inv by (simp add: shell_inv_def printable_ascii)
  have "keepsS shell_inv (modS (\<lambda>s :: 'a shell. s\<lparr>LINE_LEN := 0\<rparr>))" using line_changes(1) by (auto simp: keepsS_def)
  then have "keepsS shell_inv (bindS (execute hba kt stk (trim (line s))) (\<lambda>_. bindS (modS (\<lambda>s. s\<lparr>LINE_LEN := 0\<rparr>)) (\<lambda>_. prompt)))"
    by (intro keepsS_bind execute_keeps ascii_str_sub [OF a trim_sub] show_keeps)
  then show "shell_inv (snd (bindS (liftS (slice 0 (LINE_LEN (id s)) (LINE_BUF (id s)))) (\<lambda>raw.
      bindS (execute hba kt stk (trim (if utf8_valid raw then raw else []))) (\<lambda>_. bindS (modS (\<lambda>s. s\<lparr>LINE_LEN := 0\<rparr>)) (\<lambda>_. prompt))) s))"
    using inv ascii_str_utf8 [OF a] by (simp add: raw keepsS_def bindS_def [of "liftS _"])
qed

lemma handle_byte_keeps: "keepsS shell_inv (handle_byte hba kt stk ch)"
proof -
  have act: "keepsS shell_inv (modS (\<lambda>s. s\<lparr>sh_state := Active\<rparr>))" by (simp add: keepsS_def shell_inv_def line_def cwd_path_def)
  have "keepsS shell_inv (case st of
       Splash \<Rightarrow> if ch = 0x0A then bindS (modS (\<lambda>s. s\<lparr>sh_state := Active\<rparr>)) (\<lambda>_. activate) else retS ()
     | Active \<Rightarrow> if ch = 0x0A then press_enter hba kt stk else if ch = 0x08 then press_backspace
         else if 0x20 \<le> ch \<and> ch \<le> 0x7E then press_char ch else retS ())" for st
    using press_char_keeps [of ch]
    by (cases st) (auto simp: printable_def intro!: keepsS_bind keepsS_if keepsS_ret act activate_keeps press_enter_keeps press_backspace_keeps)
  then show ?thesis unfolding handle_byte_def by (intro keepsS_bind keeps_inv_on_k keepsS_get)
qed

text \<open>
  The runs of the shell: the boot, keys, and whatever the rest of the kernel does between two keys. The boot processor alone runs
  the shell, so the shell's own statics change only in \<open>handle_byte\<close>.
\<close>

inductive shell_run :: "'d shell \<Rightarrow> bool" where
  boot: "shell_run (shell_new k devs)"
| key: "shell_run s \<Longrightarrow> handle_byte hba kt stk ch s = (r, s') \<Longrightarrow> shell_run s'"
| other: "shell_run s \<Longrightarrow> shell_run (s\<lparr>sh_kernel := k\<rparr>)"

lemma shell_new_inv: "shell_inv (shell_new k devs)"
  by (simp add: shell_inv_def shell_new_def line_def cwd_path_def CWD_INIT_def MAX_CWD_def MAX_LINE_def ascii_str_def ascii_def)

lemma shell_run_inv: "shell_run s \<Longrightarrow> shell_inv s"
proof (induction rule: shell_run.induct)
  case (key s hba kt stk ch r s')
  then show ?case using keepsS_D [OF handle_byte_keeps] by blast
qed (simp_all add: shell_new_inv shell_inv_kernel)

text \<open>
  \<^bold>\<open>C37.\<close> Whatever keys arrive, and whatever the commands do, the buffers of the shell keep their types: both lengths stay inside
  the arrays, so that no slice panics; the line is printable ASCII; and the working directory, which the code hands out with
  \<^verbatim>\<open>from_utf8_unchecked\<close> even when \<^verbatim>\<open>cd\<close> cut it at 64 bytes, is valid UTF-8 and an absolute path.
\<close>

theorem shell_buffers:
  assumes "shell_run s"
  shows "LINE_LEN s \<le> length (LINE_BUF s) \<and> length (LINE_BUF s) = MAX_LINE \<and> list_all printable (take (LINE_LEN s) (LINE_BUF s)) \<and>
    CWD_LEN s \<le> length (CWD_BUF s) \<and> length (CWD_BUF s) = MAX_CWD \<and> utf8_valid (take (CWD_LEN s) (CWD_BUF s)) \<and>
    starts_with [0x2F] (take (CWD_LEN s) (CWD_BUF s))"
proof -
  have "shell_inv s" by (rule shell_run_inv [OF assms])
  then show ?thesis
    using ascii_str_utf8 [of "cwd_path s"] by (cases "cwd_path s") (auto simp: shell_inv_def line_def cwd_path_def starts_with_def)
qed

section \<open>The line editor\<close>

text \<open>What a key does to the line, and a shell that can print.\<close>

definition edit :: "str \<Rightarrow> u8 \<Rightarrow> str" where
  "edit l ch = (if ch = 0x08 then butlast l else if printable ch \<and> length l < MAX_LINE then l @ [ch] else l)"

definition writer_ok :: "'d shell \<Rightarrow> bool" where
  "writer_ok s \<longleftrightarrow> (\<exists>wr. k_writer (sh_kernel s) = Some wr \<and> text_ok wr)"

definition editing :: "'d shell \<Rightarrow> bool" where
  "editing s \<longleftrightarrow> shell_inv s \<and> sh_state s = Active \<and> writer_ok s"

text \<open>Only the writer changed in the kernel.\<close>

definition screen_only :: "'d shell \<Rightarrow> 'd shell \<Rightarrow> bool" where
  "screen_only s s' \<longleftrightarrow> sh_kernel s' = (sh_kernel s)\<lparr>k_writer := k_writer (sh_kernel s')\<rparr>"

lemma screen_only_trans: "screen_only s s' \<Longrightarrow> screen_only s' s'' \<Longrightarrow> screen_only s s''"
  unfolding screen_only_def by (metis kernel.surjective kernel.update_convs(13))

lemma okS_writer:
  "k_writer (sh_kernel s) = Some wr \<Longrightarrow> okS (on_k (on_writer m)) s P \<longleftrightarrow>
     okS m wr (\<lambda>r wr'. P r (s\<lparr>sh_kernel := (sh_kernel s)\<lparr>k_writer := Some wr'\<rparr>\<rparr>))"
  by (auto simp: okS_def on_k_def on_writer_def split: prod.splits)

lemma writer_call_ok:
  assumes "writer_ok s" and "\<And>wr. text_ok wr \<Longrightarrow> okS m wr (\<lambda>_ wr'. text_ok wr')"
  shows "okS (on_k (on_writer m)) s (\<lambda>_ s'. \<exists>wr. text_ok wr \<and> s' = s\<lparr>sh_kernel := (sh_kernel s)\<lparr>k_writer := Some wr\<rparr>\<rparr>)"
proof -
  obtain wr where "k_writer (sh_kernel s) = Some wr" "text_ok wr" using assms(1) by (auto simp: writer_ok_def)
  then show ?thesis using assms(2) [of wr] by (simp only: okS_writer) (auto elim!: okS_mono)
qed

lemma key_edits:
  assumes "editing s" and "ch \<noteq> 0x0A"
  shows "okS (handle_byte hba kt stk ch) s (\<lambda>_ s'. editing s' \<and> line s' = edit (line s) ch \<and> screen_only s s')"
proof -
  have inv: "shell_inv s" "writer_ok s" and act: "sh_state s = Active" using assms(1) by (auto simp: editing_def)
  obtain wr where wr: "k_writer (sh_kernel s) = Some wr" using inv(2) by (auto simp: writer_ok_def)
  have len: "length (line s) = LINE_LEN s" using inv by (simp add: shell_inv_def line_def)
  have put: "okS (on_k (on_writer m)) t (\<lambda>_ s'. editing s' \<and> line s' = line t \<and> screen_only s s')"
    if "shell_inv t" "sh_state t = Active" "sh_kernel t = sh_kernel s" "\<And>wr. text_ok wr \<Longrightarrow> okS m wr (\<lambda>_ wr'. text_ok wr')" for t and m :: "(Writer, unit) op"
  proof -
    have "writer_ok t" using inv(2) that(3) by (simp add: writer_ok_def)
    from writer_call_ok [OF this that(4)] show ?thesis
      by (rule okS_mono) (use that in \<open>auto simp: editing_def shell_inv_kernel writer_ok_def line_def screen_only_def\<close>)
  qed
  have unchanged: "editing s \<and> line s = line s \<and> screen_only s s" using assms(1) by (simp add: screen_only_def)
  have bs: "okS press_backspace s (\<lambda>_ s'. editing s' \<and> line s' = butlast (line s) \<and> screen_only s s')"
  proof (cases "0 < LINE_LEN s")
    case True
    have "\<And>wr. text_ok wr \<Longrightarrow> okS (backspace SCALE) wr (\<lambda>_ wr'. text_ok wr')" by (simp only: SCALE_def backspace_text_ok)
    with True put [OF line_changes(2) [OF inv(1)], of "backspace SCALE"] act show ?thesis
      using line_drop [OF inv(1)] by (simp add: press_backspace_def ok_simps)
  next
    case False
    then show ?thesis using unchanged len by (simp add: press_backspace_def ok_simps)
  qed
  have char: "okS (press_char ch) s (\<lambda>_ s'. editing s' \<and> line s' = (if length (line s) < MAX_LINE then line s @ [ch] else line s) \<and> screen_only s s')"
    if "printable ch"
  proof (cases "LINE_LEN s < MAX_LINE")
    case True
    have "\<And>wr. text_ok wr \<Longrightarrow> okS (put_char ch FG SCALE) wr (\<lambda>_ wr'. text_ok wr')" by (simp only: SCALE_def put_char_text_ok)
    with True put [OF line_changes(3) [OF inv(1) that True], of "put_char ch FG SCALE"] act show ?thesis
      using line_append [OF inv(1) True, of ch] len by (simp add: press_char_def ok_simps say_char_def)
  next
    case False
    then show ?thesis using unchanged len by (simp add: press_char_def ok_simps)
  qed
  have check: "on_k (on_writer (retS ())) s = (Inr (), s)" using wr by (simp add: on_k_def on_writer_def)
  have step: "okS (handle_byte hba kt stk ch) s Q \<longleftrightarrow> okS (if ch = 0x08 then press_backspace else if printable ch then press_char ch else retS ()) s Q" for Q
    using assms(2) act check by (simp add: handle_byte_def okS_def bindS_def printable_def)
  show ?thesis unfolding step using bs char unchanged by (auto simp: edit_def ok_simps)
qed

lemma keys_edit:
  "editing s \<Longrightarrow> 0x0A \<notin> set keys \<Longrightarrow>
     okS (forS keys (handle_byte hba kt stk)) s (\<lambda>_ s'. editing s' \<and> line s' = foldl edit (line s) keys \<and> screen_only s s')"
proof (induction keys arbitrary: s)
  case (Cons ch keys)
  have "okS (forS keys (handle_byte hba kt stk)) s' (\<lambda>_ s''. editing s'' \<and> line s'' = foldl edit (line s) (ch # keys) \<and> screen_only s s'')"
    if "editing s' \<and> line s' = edit (line s) ch \<and> screen_only s s'" for s'
    using Cons.IH [of s'] Cons.prems(2) that by (auto elim!: okS_mono dest: screen_only_trans)
  then show ?case using key_edits [OF Cons.prems(1), of ch hba kt stk] Cons.prems(2) by (auto simp: okS_bind elim!: okS_mono)
qed (simp add: ok_simps screen_only_def)

lemma enter_executes:
  assumes "editing s"
  shows "handle_byte hba kt stk 0x0A s =
    bindS (say_char 0x0A FG) (\<lambda>_. bindS (execute hba kt stk (trim (line s))) (\<lambda>_. bindS (modS (\<lambda>s. s\<lparr>LINE_LEN := 0\<rparr>)) (\<lambda>_. prompt))) s"
proof -
  have inv: "shell_inv s" "sh_state s = Active" using assms by (auto simp: editing_def)
  obtain wr where wr: "k_writer (sh_kernel s) = Some wr" using assms by (auto simp: editing_def writer_ok_def)
  have u: "utf8_valid (line s)" using inv by (simp add: shell_inv_def printable_ascii ascii_str_utf8)
  obtain r k where say: "say_char 0x0A FG s = (r, s\<lparr>sh_kernel := k\<rparr>)"
    by (cases "on_writer (put_char 0x0A FG SCALE) (sh_kernel s)") (auto simp: say_char_def on_k_def)
  have raw: "slice 0 (LINE_LEN s) (LINE_BUF s) = Inr (line s)" using inv(1) by (simp add: shell_inv_def line_def)
  have "on_k (on_writer (retS ())) s = (Inr (), s)" using wr by (simp add: on_k_def on_writer_def)
  then have "handle_byte hba kt stk 0x0A s = press_enter hba kt stk s" using inv(2) by (simp add: handle_byte_def bindS_def)
  then show ?thesis using u by (cases r) (simp_all add: press_enter_def bindS_def say raw)
qed

text \<open>
  \<^bold>\<open>C20.\<close> The editor works on the line as a person expects: any keys but Enter are handled without a panic, the line is the
  one the keys spell (a printable key is appended while there is room for it, Backspace drops the last character, every other key does nothing), and
  nothing of the kernel but the screen changes; Enter then runs exactly that line, without the blanks around it, and clears it.
\<close>

theorem line_editor:
  assumes "editing s" and "0x0A \<notin> set keys"
  shows "\<exists>s'. forS keys (handle_byte hba kt stk) s = (Inr (), s') \<and> line s' = foldl edit (line s) keys \<and> screen_only s s' \<and>
    handle_byte hba kt stk 0x0A s' = bindS (say_char 0x0A FG) (\<lambda>_. bindS (execute hba kt stk (trim (foldl edit (line s) keys))) (\<lambda>_.
      bindS (modS (\<lambda>s. s\<lparr>LINE_LEN := 0\<rparr>)) (\<lambda>_. prompt))) s'"
proof -
  obtain s' where "forS keys (handle_byte hba kt stk) s = (Inr (), s')" "editing s'" "line s' = foldl edit (line s) keys" "screen_only s s'"
    using keys_edit [OF assms, of hba kt stk] by (auto elim: okS_E)
  then show ?thesis using enter_executes [of s' hba kt stk] by auto
qed

section \<open>Witnesses\<close>

definition demo_shell :: "(nat \<Rightarrow> sector) shell" where
  "demo_shell = (shell_new ((demo_kernel demo_mm)\<lparr>k_vfs := demo_vfs\<rparr>) [])\<lparr>sh_state := Active\<rparr>"

lemma demo_shell_simps:
  "shell_inv demo_shell" "writer_ok demo_shell" "cwd_path demo_shell = CWD_INIT" "line demo_shell = []" "sh_state demo_shell = Active"
  "k_vfs (sh_kernel demo_shell) = demo_vfs" "k_disk (sh_kernel demo_shell) = demo_ahci"
proof -
  have "shell_inv (shell_new k devs) \<Longrightarrow> shell_inv ((shell_new k devs)\<lparr>sh_state := Active\<rparr>)" for k :: "(nat \<Rightarrow> sector) ahci kernel" and devs
    by (simp add: shell_inv_def line_def cwd_path_def)
  then show "shell_inv demo_shell" unfolding demo_shell_def using shell_new_inv by blast
  show "writer_ok demo_shell" using demo_writer_ok by (simp add: writer_ok_def demo_shell_def shell_new_def demo_kernel_def)
  show "cwd_path demo_shell = CWD_INIT" by (simp add: cwd_path_def demo_shell_def shell_new_def CWD_INIT_def ascii_def)
qed (simp_all add: line_def demo_shell_def shell_new_def demo_kernel_def)

theorem line_editor_witness:
  "\<exists>s'. forS [0x6C, 0x6C, 0x08, 0x73] (handle_byte ram_hba demo_kt 0) demo_shell = (Inr (), s') \<and> line s' = ascii ''ls''"
proof -
  have e: "editing demo_shell" by (simp add: editing_def demo_shell_simps)
  have k: "(0x0A :: u8) \<notin> set [0x6C, 0x6C, 0x08, 0x73]" by simp
  have "foldl edit [] [0x6C, 0x6C, 0x08, 0x73] = ascii ''ls''" by code_simp
  then show ?thesis using line_editor [OF e k, of ram_hba demo_kt 0] by (simp only: demo_shell_simps(4)) blast
qed

theorem shell_buffers_witness:
  "\<exists>s :: (nat \<Rightarrow> sector) shell. shell_run s \<and> sh_state s = Active \<and> utf8_valid (take (CWD_LEN s) (CWD_BUF s)) \<and> LINE_LEN s \<le> length (LINE_BUF s)"
proof -
  let ?s = "shell_new (demo_kernel demo_mm) []"
  obtain r s where s: "handle_byte ram_hba demo_kt 0 0x0A ?s = (r, s)" by fastforce
  have "keepsS (\<lambda>s. sh_state s = Active) (activate :: ((nat \<Rightarrow> sector) shell, unit) op)"
    unfolding activate_def clear_terminal_def prompt_def shell_calls by (intro keepsS_bind keepsS_if keepsS_throw keeps_on_k) simp_all
  then have "sh_state (snd (activate (?s\<lparr>sh_state := Active\<rparr>))) = Active" by (simp add: keepsS_def)
  moreover have "handle_byte ram_hba demo_kt 0 0x0A ?s = activate (?s\<lparr>sh_state := Active\<rparr>)"
    by (simp add: handle_byte_def bindS_def on_k_def on_writer_def shell_new_def demo_kernel_def)
  ultimately have "sh_state s = Active" using s by (metis snd_conv)
  moreover have run: "shell_run s" by (rule shell_run.key [OF shell_run.boot s])
  ultimately show ?thesis using shell_buffers [OF run] by blast
qed

end
