(* ===== verification/ShellFiles.thy ===== *)
theory ShellFiles
  imports ShellRun
begin

text \<open>
  Files through the shell: what \<^verbatim>\<open>write\<close> stores on the disk, \<^verbatim>\<open>cat\<close> prints.
\<close>

section \<open>The shell over one disk\<close>

text \<open>A shell that can print, with the files, the working directory of \<open>s\<close>, and the disk \<open>d\<close>.\<close>

definition with_disk :: "'d shell \<Rightarrow> 'd ahci \<Rightarrow> 'd shell \<Rightarrow> bool" where
  "with_disk s d s' \<longleftrightarrow> k_disk (sh_kernel s') = d \<and> writer_ok s' \<and> shell_inv s' \<and> k_vfs (sh_kernel s') = k_vfs (sh_kernel s) \<and>
     cwd_path s' = cwd_path s"

lemma serial_ok: "with_disk s d s' \<Longrightarrow> okS (serial x) s' (\<lambda>_ s''. with_disk s d s'')"
  by (auto simp: with_disk_def serial_def on_k_def serial_print_def okS_def writer_ok_def shell_inv_kernel cwd_path_def)

lemma print_ok:
  assumes "with_disk s d s'" and "\<And>wr. text_ok wr \<Longrightarrow> okS m wr (\<lambda>_ wr'. text_ok wr')"
  shows "okS (on_k (on_writer m)) s' (\<lambda>_ s''. with_disk s d s'')"
proof -
  have "writer_ok s'" using assms(1) by (simp add: with_disk_def)
  from writer_call_ok [OF this assms(2)] show ?thesis by (rule okS_mono) (use assms(1) in \<open>auto simp: with_disk_def writer_ok_def shell_inv_kernel cwd_path_def\<close>)
qed

lemma open_path_run:
  assumes "with_disk s d s'" and "vfs_open (ahci_device hba) (k_vfs (sh_kernel s)) path d = (r, d')"
  obtains s'' where "open_path hba path s' = (r, s'')" and "with_disk s d' s''" and "k_writer (sh_kernel s'') = k_writer (sh_kernel s')"
proof -
  let ?s'' = "s'\<lparr>sh_kernel := (sh_kernel s')\<lparr>k_disk := d'\<rparr>\<rparr>"
  have "open_path hba path s' = (r, ?s'')" using assms by (auto simp: with_disk_def open_path_def bindS_def on_k_def on_dev_def)
  moreover have "with_disk s d' ?s''" using assms(1) by (auto simp: with_disk_def writer_ok_def shell_inv_kernel cwd_path_def)
  ultimately show ?thesis by (rule that) simp
qed

lemma create_path_run:
  assumes "with_disk s d s'" and "vfs_create (ahci_device hba) (k_vfs (sh_kernel s)) path d = (r, d')"
  obtains s'' where "create_path hba path s' = (r, s'')" and "with_disk s d' s''"
proof -
  let ?s'' = "s'\<lparr>sh_kernel := (sh_kernel s')\<lparr>k_disk := d'\<rparr>\<rparr>"
  have "create_path hba path s' = (r, ?s'')" using assms by (auto simp: with_disk_def create_path_def bindS_def on_k_def on_dev_def)
  moreover have "with_disk s d' ?s''" using assms(1) by (auto simp: with_disk_def writer_ok_def shell_inv_kernel cwd_path_def)
  ultimately show ?thesis by (rule that)
qed

lemma write_node_run:
  assumes "with_disk s d s'" and "vn_write (ahci_device hba) 0 data (d, n) = (r, (d', n'))"
  obtains s'' where "write_node hba n data s' = (r, s'')" and "with_disk s d' s''"
proof -
  let ?s'' = "s'\<lparr>sh_kernel := (sh_kernel s')\<lparr>k_disk := d'\<rparr>\<rparr>"
  have "write_node hba n data s' = (r, ?s'')" using assms by (auto simp: with_disk_def write_node_def on_k_def on_dev_def)
  moreover have "with_disk s d' ?s''" using assms(1) by (auto simp: with_disk_def writer_ok_def shell_inv_kernel cwd_path_def)
  ultimately show ?thesis by (rule that)
qed

lemma okS_match:
  "m s = (Inr x, s') \<Longrightarrow> okS (f x) s' P \<Longrightarrow> okS (matchS m f g) s P"
  "m s = (Inl (Err e), s') \<Longrightarrow> okS (g e) s' P \<Longrightarrow> okS (matchS m f g) s P"
  by (simp_all add: okS_def matchS_def)

lemma cmd_write_ok:
  assumes "with_disk s d s0"
    and "vfs_open (ahci_device hba) (k_vfs (sh_kernel s)) path d = (Inl (Err e), d0)"
    and "vfs_create (ahci_device hba) (k_vfs (sh_kernel s)) path d0 = (Inr n1, d1)"
    and "vn_write (ahci_device hba) 0 data (d1, n1) = (Inr k, (d2, n2))"
  shows "okS (cmd_write hba path data) s0 (\<lambda>_ s'. with_disk s d2 s')"
proof -
  have found: "okS (write_found hba path data n1) s' (\<lambda>_ s'. with_disk s d2 s')" if w: "with_disk s d1 s'" for s'
  proof -
    obtain s'' where "write_node hba n1 data s' = (Inr k, s'')" "with_disk s d2 s''" by (rule write_node_run [OF w assms(4)])
    moreover have "okS (write_fmt x) s'' (\<lambda>_ s'. with_disk s d2 s')" if "with_disk s d2 s''" for x
      unfolding write_fmt_def using that by (rule print_ok) (simp only: write_str_def put_str_text_ok)
    ultimately show ?thesis unfolding write_found_def by (intro okS_match(1))
  qed
  have body: "okS (matchS (open_path hba path) f (\<lambda>_. matchS (create_path hba path)
       (\<lambda>node. bindS (serial m) (\<lambda>_. write_found hba path data node)) g)) s' (\<lambda>_ s'. with_disk s d2 s')" if w: "with_disk s d s'" for s' f g m
  proof -
    obtain sa where sa: "open_path hba path s' = (Inl (Err e), sa)" "with_disk s d0 sa" by (rule open_path_run [OF w assms(2)])
    obtain sb where sb: "create_path hba path sa = (Inr n1, sb)" "with_disk s d1 sb" by (rule create_path_run [OF sa(2) assms(3)])
    have "okS (bindS (serial m) (\<lambda>_. write_found hba path data n1)) sb (\<lambda>_ s'. with_disk s d2 s')"
      unfolding okS_bind by (rule okS_mono [OF serial_ok [OF sb(2)] found])
    then show ?thesis 
      by (intro okS_match(2) [where m = "open_path hba path", OF sa(1)] okS_match(1) [where m = "create_path hba path", OF sb(1)])
  qed
  show ?thesis unfolding cmd_write_def okS_bind
    by (rule okS_mono [OF serial_ok [OF assms(1)]], rule okS_mono [OF serial_ok], assumption, rule okS_mono [OF serial_ok], assumption, rule body)
qed


section \<open>Printing a file\<close>

definition shown :: "u8 \<Rightarrow> bool" where
  "shown b \<longleftrightarrow> b = 0x0A \<or> 0x20 \<le> b \<and> b \<le> 0x7E"

definition print_file :: "u8 list \<Rightarrow> (Writer, unit) op" where
  "print_file data = bindS (put_str (filter shown data) FG SCALE) (\<lambda>_. put_char 0x0A FG SCALE)"

lemma on_writer_bind: "on_k (on_writer (bindS m f)) = bindS (on_k (on_writer m)) (\<lambda>x. on_k (on_writer (f x)))"
  by (rule ext) (auto simp: on_k_def on_writer_def bindS_def split: prod.splits sum.splits option.splits)

lemma cat_byte_shown: "cat_byte b = (if shown b then say_char b FG else retS ())"
proof -
  have "0x20 \<le> b \<longleftrightarrow> 0x21 \<le> b \<or> b = 0x20" by (auto simp: word_le_nat_alt word_unat_eq_iff)
  then show ?thesis by (auto simp: cat_byte_def shown_def)
qed

lemma cat_bytes: "bindS (forS data cat_byte) (\<lambda>_. say_char 0x0A FG) = on_k (on_writer (print_file data))"
proof (induction data)
  case Nil
  show ?case by (simp add: print_file_def put_str_def bindS_def say_char_def on_k_def on_writer_def fun_eq_iff)
next
  case (Cons b data)
  have assoc: "bindS (bindS m f) g = bindS m (\<lambda>x. bindS (f x) g)" for m :: "('s, 'x) op" and f :: "'x \<Rightarrow> ('s, 'y) op" and g :: "'y \<Rightarrow> ('s, 'z) op"
    by (rule ext) (auto simp: bindS_def split: prod.splits sum.splits)
  have ret: "bindS (retS x) f = f x" for x :: 'x and f :: "'x \<Rightarrow> ('s, 'y) op" by (simp add: bindS_def fun_eq_iff)
  show ?case
  proof (cases "shown b")
    case True
    then have "print_file (b # data) = bindS (put_char b FG SCALE) (\<lambda>_. print_file data)" by (simp add: print_file_def put_str_def assoc)
    then show ?thesis using True Cons.IH by (simp add: assoc cat_byte_shown on_writer_bind say_char_def)
  next
    case False
    then have "print_file (b # data) = print_file data" by (simp add: print_file_def)
    then show ?thesis using False Cons.IH by (simp add: assoc cat_byte_shown ret)
  qed
qed

lemma print_file_ok: "text_ok wr \<Longrightarrow> okS (print_file data) wr (\<lambda>_ wr'. text_ok wr')"
  unfolding print_file_def okS_bind SCALE_def by (rule okS_mono [OF put_str_text_ok put_char_text_ok])

lemma cmd_cat_ok:
  assumes "with_disk s d s0" and "k_writer (sh_kernel s0) = Some wr"
    and "vfs_open (ahci_device hba) (k_vfs (sh_kernel s)) path d = (Inr n, d1)"
    and "stat_size (vn_attribute n) = length data" and "data \<noteq> []" and "length data \<le> 4096"
    and "vn_read (ahci_device hba) n 0 (replicate (length data) 0) d1 = (Inr (length data, data), d2)"
  shows "\<exists>s2 wr2. cmd_cat hba path s0 = (Inr (), s2) \<and> k_writer (sh_kernel s2) = Some wr2 \<and> print_file data wr = (Inr (), wr2)"
proof -
  obtain sa where sa: "open_path hba path s0 = (Inr n, sa)" "with_disk s d1 sa" "k_writer (sh_kernel sa) = Some wr"
    using open_path_run [OF assms(1,3)] assms(2) by metis
  let ?sb = "sa\<lparr>sh_kernel := (sh_kernel sa)\<lparr>k_disk := d2\<rparr>\<rparr>"
  have rd: "on_k (on_dev (vn_read (ahci_device hba) n 0 (replicate (length data) 0))) sa = (Inr (length data, data), ?sb)"
    using sa(2) assms(7) by (simp add: with_disk_def on_k_def on_dev_def)
  have "text_ok wr" using sa(2,3) by (auto simp: with_disk_def writer_ok_def)
  then obtain wr2 where p: "print_file data wr = (Inr (), wr2)" using print_file_ok [of wr data] by (auto elim: okS_E)
  have "on_k (on_writer (print_file data)) ?sb = (Inr (), ?sb\<lparr>sh_kernel := (sh_kernel ?sb)\<lparr>k_writer := Some wr2\<rparr>\<rparr>)"
    using p sa(3) by (simp add: on_k_def on_writer_def)
  then have "cmd_cat hba path s0 = (Inr (), ?sb\<lparr>sh_kernel := (sh_kernel ?sb)\<lparr>k_writer := Some wr2\<rparr>\<rparr>)"
    using assms(4-6) by (simp add: cmd_cat_def matchS_def sa(1) rd min_def bindS_def [of "liftS _"] cat_bytes)
  with p show ?thesis by auto
qed

section \<open>The two commands\<close>

text \<open>The trace \<^verbatim>\<open>execute\<close> leaves on the serial port before it runs the command.\<close>

definition logged :: "str \<Rightarrow> 'd shell \<Rightarrow> 'd shell" where
  "logged l s = s\<lparr>sh_kernel := (sh_kernel s)\<lparr>k_serial := ((k_serial (sh_kernel s) @ ascii ''[SHELL] Executing: '') @ l) @ NL\<rparr>\<rparr>"

lemma logged_trace: "bindS (serial (ascii ''[SHELL] Executing: '')) (\<lambda>_. bindS (serial l) (\<lambda>_. bindS (serial NL) (\<lambda>_. m))) s = m (logged l s)"
  by (simp add: bindS_def serial_def serial_print_def on_k_def logged_def)

lemma execute_write:
  assumes "split_whitespace l = ascii ''write'' # name # ws" and "join [0x20] ws \<noteq> []"
  shows "execute hba kt stk l s = bindS (resolve name) (\<lambda>path. cmd_write hba path (join [0x20] ws)) (logged l s)"
  unfolding execute_def logged_trace using assms by (simp add: ascii_def Let_def)

lemma execute_cat:
  assumes "split_whitespace l = ascii ''cat'' # name # ws"
  shows "execute hba kt stk l s = bindS (resolve name) (cmd_cat hba) (logged l s)"
  unfolding execute_def logged_trace using assms by (simp add: ascii_def)

lemma resolve_disk:
  assumes "with_disk s d s'" and "cwd_path s = CWD_INIT" and "0x2F \<notin> set name"
  shows "resolve name s' = (Inr (disk_path name), s')"
proof -
  have "\<not> starts_with [0x2F] name" using assms(3) by (cases name) (auto simp: starts_with_def)
  moreover have "cwd s' = (Inr CWD_INIT, s')" using assms cwd_run [of s'] by (simp add: with_disk_def)
  ultimately show ?thesis by (simp add: resolve_def bindS_def CWD_INIT_def ascii_def disk_path_def mnt_disk_def)
qed

lemma with_disk_logged: "with_disk s d s' \<Longrightarrow> with_disk s d (logged l s')"
  by (simp add: with_disk_def logged_def writer_ok_def shell_inv_kernel cwd_path_def)

lemma logged_writer: "k_writer (sh_kernel (logged l s)) = k_writer (sh_kernel s)"
  by (simp add: logged_def)

text \<open>
  \<^bold>\<open>C17.\<close> With a FAT32 disk mounted and the working directory on it, the line \<^verbatim>\<open>write name words\<close> for a new name with room
  on the disk succeeds, and a following \<^verbatim>\<open>cat name\<close> prints the printable bytes of exactly that text and a new line at the place of the cursor. The whole way
  down, from the words of the line over the virtual file system and FAT32 to the controller, is the kernel's code.
\<close>

theorem shell_write_cat:
  assumes "ata_drive hba sect cap" and "shell_inv s" and "writer_ok s" and "cwd_path s = CWD_INIT"
    and "disk_root (k_vfs (sh_kernel s)) = Some (FatNode nd)" and "dir_on sect cap (k_disk (sh_kernel s)) nd cs"
    and "to_8_3 name = Some n83" and "0x2F \<notin> set name" and "new_name sect (k_disk (sh_kernel s)) nd cs name"
    and "find free_entry (entries_on sect (k_disk (sh_kernel s)) nd cs) = Some (c, i, e)" and "e ! 0 = 0"
    and "i + 64 \<le> cluster_size_bytes (node_fs nd) \<or> c = last cs"
    and "free_in_data (node_fs nd) (cap (media (k_disk (sh_kernel s)))) (sect (media (k_disk (sh_kernel s))))"
    and "split_whitespace l = ascii ''write'' # name # ws" and "split_whitespace l2 = ascii ''cat'' # name # rest"
    and "join [0x20] ws = data" and "data \<noteq> []" and "length data \<le> 4096"
    and "length data \<le> card (free (node_fs nd) (sect (media (k_disk (sh_kernel s))))) * cluster_size_bytes (node_fs nd)"
  shows "\<exists>s1 wr1 s2 wr2. execute hba kt stk l s = (Inr (), s1) \<and> k_writer (sh_kernel s1) = Some wr1 \<and>
    execute hba kt stk l2 s1 = (Inr (), s2) \<and> k_writer (sh_kernel s2) = Some wr2 \<and> print_file data wr1 = (Inr (), wr2)"
proof -
  let ?d = "k_disk (sh_kernel s)" and ?v = "k_vfs (sh_kernel s)" and ?p = "disk_path name" and ?dev = "ahci_device hba"
  have ne: "name \<noteq> []" using assms(7) by (auto simp: to_8_3_def split_last_dot_def)
  note disk = vfs_open_disk [OF assms(5,8) ne] vfs_create_disk [OF assms(5,8) ne]
  obtain d0 where d0: "fat_finddir ?dev nd name ?d = (Inl (Err ''''), d0)" "dir_on sect cap d0 nd cs"
    "sect (media d0) = sect (media ?d)" "cap (media d0) = cap (media ?d)"
    by (rule ata_drive.ahci_finddir_missing [OF assms(1,6) assms(9) [unfolded new_name_def, THEN conjunct2, THEN conjunct2]])
  have on: "new_name sect d0 nd cs name" "find free_entry (entries_on sect d0 nd cs) = Some (c, i, e)"
    "free_in_data (node_fs nd) (cap (media d0)) (sect (media d0))"
    "length data \<le> card (free (node_fs nd) (sect (media d0))) * cluster_size_bytes (node_fs nd)"
    using assms(9,10,13,19) d0(3,4) by (simp_all add: new_name_def entries_on_def)
  have small: "length data < 2 ^ 32" using assms(18) by simp
  obtain n1 d1 n2 d2 d3 d4 where r: "fat_create ?dev nd name d0 = (Inr n1, d1)"
    "fat_write ?dev 0 data (d1, n1) = (Inr (length data), (d2, n2))" "fat_finddir ?dev nd name d2 = (Inr n2, d3)"
    "unat (file_size n2) = length data" "fat_read ?dev n2 0 (replicate (length data + 0) 0) d3 = (Inr (length data, data @ replicate 0 0), d4)"
    by (rule ata_drive.ahci_save_load [OF assms(1) d0(2) assms(7) on(1,2) assms(11,12) on(3) assms(17) small on(4)])
  have w0: "with_disk s ?d (logged l s)" using assms(2,3) by (intro with_disk_logged) (simp add: with_disk_def)
  have "okS (cmd_write hba ?p data) (logged l s) (\<lambda>_ s'. with_disk s d2 s')"
    by (rule cmd_write_ok [OF w0, where ?d0.0 = d0 and ?d1.0 = d1 and ?n1.0 = "FatNode n1" and ?n2.0 = "FatNode n2"])
      (use d0(1) r(1,2) in \<open>simp_all add: disk bindS_def vn_write_def\<close>)
  then obtain s1 where s1: "cmd_write hba ?p data (logged l s) = (Inr (), s1)" "with_disk s d2 s1" by (auto elim: okS_E)
  have e1: "execute hba kt stk l s = (Inr (), s1)"
    using execute_write [OF assms(14), of hba kt stk s] assms(16,17) resolve_disk [OF w0 assms(4,8)] s1(1) by (simp add: bindS_def)
  have w1: "with_disk s d2 (logged l2 s1)" by (rule with_disk_logged [OF s1(2)])
  obtain wr1 where wr1: "k_writer (sh_kernel s1) = Some wr1" using s1(2) by (auto simp: with_disk_def writer_ok_def)
  have "\<exists>s2 wr2. cmd_cat hba ?p (logged l2 s1) = (Inr (), s2) \<and> k_writer (sh_kernel s2) = Some wr2 \<and> print_file data wr1 = (Inr (), wr2)"
    by (rule cmd_cat_ok [OF w1, where n = "FatNode n2" and ?d1.0 = d3 and ?d2.0 = d4])
      (use r(3-5) assms(17,18) wr1 in \<open>simp_all add: disk bindS_def logged_writer fat_attribute_def\<close>)
  then obtain s2 wr2 where s2: "cmd_cat hba ?p (logged l2 s1) = (Inr (), s2)" "k_writer (sh_kernel s2) = Some wr2" "print_file data wr1 = (Inr (), wr2)"
    by blast
  then have "execute hba kt stk l2 s1 = (Inr (), s2)"
    using execute_cat [OF assms(15), of hba kt stk s1] resolve_disk [OF w1 assms(4,8)] by (simp add: bindS_def)
  with e1 wr1 s2 show ?thesis by blast
qed

theorem shell_write_cat_witness:
  "\<exists>s1 wr1 s2 wr2. execute ram_hba demo_kt 0 (ascii ''write a hi  there'') demo_shell = (Inr (), s1) \<and> k_writer (sh_kernel s1) = Some wr1 \<and>
    execute ram_hba demo_kt 0 (ascii ''cat a'') s1 = (Inr (), s2) \<and> k_writer (sh_kernel s2) = Some wr2 \<and>
    print_file (ascii ''hi there'') wr1 = (Inr (), wr2)"
proof -
  have nn: "new_name ram_sect demo_ahci demo_root [3] [97]" by (simp add: new_name_def name_a demo_live)
  have c: "0 < card (free demo_fs demo_media)" using demo_free_5 by (auto simp: card_gt_0_iff)
  have w: "split_whitespace (ascii ''write a hi  there'') = ascii ''write'' # [97] # [ascii ''hi'', ascii ''there'']"
    "split_whitespace (ascii ''cat a'') = ascii ''cat'' # [97] # []" by code_simp+
  have j: "join [0x20] [ascii ''hi'', ascii ''there''] = ascii ''hi there''" by code_simp
  have l: "length (ascii ''hi there'') = 8" by (simp add: ascii_def)
  then have ne: "ascii ''hi there'' \<noteq> []" by auto
  show ?thesis
    by (rule shell_write_cat [OF ram.ata_drive_axioms demo_shell_simps(1-3), where nd = demo_root and cs = "[3]" and name = "[97]",
          OF _ _ name_a(1) _ _ demo_live(2) [folded demo_shell_simps(7)] _ _ _ w j ne])
      (use c nn demo_dir_on l in \<open>simp_all add: demo_shell_simps demo_root_simps demo_facts Suc_le_eq\<close>)
qed

end
