(* ===== verification/System.thy ===== *)
theory System
  imports Spawn Syscall "HOL-Library.Multiset"
begin

text \<open>
  The kernel as a whole: the events that change its state, the invariant they keep, and what a process sees of
  the system calls.
\<close>

section \<open>The invariant\<close>

text \<open>The pipes that the descriptors of some tasks name, one element per descriptor.\<close>

definition pipe_of :: "'n FdEntry option \<Rightarrow> nat list" where
  "pipe_of e = (case e of Some (PipeFd p) \<Rightarrow> [p] | _ \<Rightarrow> [])"

definition fd_pipes :: "'n FdTable \<Rightarrow> nat list" where
  "fd_pipes tbl = concat (map pipe_of tbl)"

definition pipe_ends :: "'n Task list \<Rightarrow> nat list" where
  "pipe_ends ts = concat (map (\<lambda>t. fd_pipes (fd_table t)) ts)"

text \<open>
  A pipe belongs to one descriptor of one task: every descriptor of a pipe names a live one, and no two
  descriptors in the system name the same. The tables of all tasks have their 64 slots, and the identifiers of
  the tasks are distinct.
\<close>

definition tasks_inv :: "PipeTable \<Rightarrow> nat \<Rightarrow> 'n Task list \<Rightarrow> bool" where
  "tasks_inv pipes n ts \<longleftrightarrow> (\<forall>t \<in> set ts. fd_inv (fd_table t) \<and> task_id t < n) \<and> distinct (map task_id ts) \<and>
     distinct (pipe_ends ts) \<and> (\<forall>p \<in> set (pipe_ends ts). get_pipe pipes p \<noteq> None)"

definition kernel_inv :: "'s kernel \<Rightarrow> bool" where
  "kernel_inv k \<longleftrightarrow> pmm_inv (frames (k_mm k)) \<and> pipes_inv (k_pipes k) \<and> kbuf_inv (k_keys k) \<and>
     tasks_inv (k_pipes k) (k_next_id k) (all_tasks (k_sched k))"

subsection \<open>Descriptor tables\<close>

lemma mset_concat_update:
  "i < length xs \<Longrightarrow> mset (concat (map f (xs[i := x]))) + mset (f (xs ! i)) = mset (concat (map f xs)) + mset (f x)"
proof (induction xs arbitrary: i)
  case (Cons y ys)
  then show ?case by (cases i) (auto simp: ac_simps)
qed simp

lemma fd_pipes_update:
  "i < length tbl \<Longrightarrow> mset (fd_pipes (tbl[i := e])) + mset (pipe_of (tbl ! i)) = mset (fd_pipes tbl) + mset (pipe_of e)"
  unfolding fd_pipes_def by (rule mset_concat_update)

lemma pipe_of_None [simp]: "pipe_of None = []" and pipe_of_VfsFile [simp]: "pipe_of (Some (VfsFile x y)) = []"
  and pipe_of_PipeFd [simp]: "pipe_of (Some (PipeFd p)) = [p]"
  by (simp_all add: pipe_of_def)

lemma fd_alloc_ends:
  assumes "fd_inv tbl" and "fd_alloc e tbl = (r, tbl')"
  shows "fd_inv tbl' \<and> (if r = None then tbl' = tbl else mset (fd_pipes tbl') = mset (fd_pipes tbl) + mset (pipe_of (Some e)))"
proof (cases r)
  case (Some i)
  with fd_alloc_Some [OF assms(1), of e i tbl'] fd_pipes_update [of i tbl "Some e"] assms
  show ?thesis by (auto simp: fd_inv_def fd_get_def)
qed (use fd_alloc_None assms in auto)

lemma fd_set_ends:
  assumes "fd_inv tbl" and "fd_get tbl i = Some (VfsFile node off)"
  shows "fd_inv (fd_set i (VfsFile node' off') tbl) \<and> mset (fd_pipes (fd_set i (VfsFile node' off') tbl)) = mset (fd_pipes tbl)"
  using assms fd_pipes_update [of i tbl "Some (VfsFile node' off')"]
  by (auto simp: fd_inv_def fd_get_def fd_set_def split: if_splits)

lemma fd_close_ends:
  assumes "fd_inv tbl" and "fd_close i tbl = (r, tbl')"
  shows "fd_inv tbl' \<and> mset (fd_pipes tbl') \<subseteq># mset (fd_pipes tbl)"
proof -
  have "mset (fd_pipes (tbl[i := None])) \<subseteq># mset (fd_pipes tbl)" if "i < length tbl"
    using fd_pipes_update [OF that, of None] by (metis add_cancel_right_right mset.simps(1) mset_subset_eq_add_left pipe_of_None)
  then show ?thesis using assms by (auto simp: fd_close_def fd_inv_def split: if_splits)
qed

subsection \<open>Changing the tasks\<close>

lemma distinct_mset_mono: "mset xs \<subseteq># mset ys \<Longrightarrow> distinct ys \<Longrightarrow> distinct xs"
proof -
  assume s: "mset xs \<subseteq># mset ys" and d: "distinct ys"
  have "count (mset xs) a \<le> 1" for a
    using mset_subset_eq_count [OF s, of a] d by (cases "a \<in> set ys") (simp_all add: distinct_count_atmost_1 count_mset_0_iff [THEN iffD2])
  then have "count (mset xs) a = (if a \<in> set xs then 1 else 0)" for a
    using count_mset_0_iff [of xs a] by (metis le_neq_implies_less less_one)
  then show ?thesis by (simp add: distinct_count_atmost_1)
qed

lemma tasks_inv_mono:
  assumes "tasks_inv pipes n ts" and "\<forall>t \<in> set ts'. fd_inv (fd_table t)"
    and "mset (map task_id ts') \<subseteq># mset (map task_id ts)" and "mset (pipe_ends ts') \<subseteq># mset (pipe_ends ts)"
    and "\<forall>p. get_pipe pipes p \<noteq> None \<longrightarrow> get_pipe pipes' p \<noteq> None"
  shows "tasks_inv pipes' n ts'"
proof -
  have "set (pipe_ends ts') \<subseteq> set (pipe_ends ts)" "task_id ` set ts' \<subseteq> task_id ` set ts"
    using set_mset_mono [OF assms(4)] set_mset_mono [OF assms(3)] by simp_all
  moreover from this have "task_id t < n" if "t \<in> set ts'" for t
    using assms(1) that by (fastforce simp: tasks_inv_def)
  moreover have "distinct (map task_id ts')" "distinct (pipe_ends ts')"
    using assms(1) distinct_mset_mono [OF assms(3)] distinct_mset_mono [OF assms(4)] by (simp_all add: tasks_inv_def)
  ultimately show ?thesis using assms(1,2,5) by (simp add: tasks_inv_def subset_iff)
qed

lemma pipe_ends_Cons [simp]: "pipe_ends (t # ts) = fd_pipes (fd_table t) @ pipe_ends ts"
  and pipe_ends_append [simp]: "pipe_ends (ts @ us) = pipe_ends ts @ pipe_ends us"
  and pipe_ends_Nil [simp]: "pipe_ends [] = []"
  by (simp_all add: pipe_ends_def)

lemma all_tasks_current [simp]: "current_task s = Some t \<Longrightarrow> all_tasks s = t # tasks s"
  "all_tasks (s\<lparr>current_task := Some t\<rparr>) = t # tasks s"
  by (simp_all add: all_tasks_def)

text \<open>A system call replaces the current task by one with the same identifier.\<close>

lemma set_current_inv:
  assumes "kernel_inv k" and "current_task (k_sched k) = Some t" and "task_id t' = task_id t"
    and "fd_inv (fd_table t')" and "mset (fd_pipes (fd_table t')) \<subseteq># mset (fd_pipes (fd_table t))"
  shows "kernel_inv (set_current t' k)"
proof -
  have "tasks_inv (k_pipes k) (k_next_id k) (t' # tasks (k_sched k))"
    by (rule tasks_inv_mono [of "k_pipes k" _ "t # tasks (k_sched k)"])
       (use assms in \<open>auto simp: kernel_inv_def tasks_inv_def\<close>)
  then show ?thesis using assms(1) by (simp add: kernel_inv_def set_current_def)
qed

section \<open>Every operation keeps it\<close>

text \<open>The operations on memory allocate and free nothing but frames of the allocator.\<close>

named_theorems keeps \<open>operations that keep the invariant\<close>

definition frames_inv :: "mm \<Rightarrow> bool" where
  "frames_inv st \<longleftrightarrow> pmm_inv (frames st)"

lemma alloc_page_inv: "pmm_inv s \<Longrightarrow> alloc_page s = (r, s') \<Longrightarrow> pmm_inv s'"
  using alloc_page_Some(4) [of s _ s'] alloc_page_None [of s s'] by (cases r) (auto simp: pmm_inv_def)

lemma keepsS_pagesS [intro]: "(\<And>x. keepsS P (body x)) \<Longrightarrow> keepsS P (pagesS a hi body)"
  by (induction a hi body rule: pagesS.induct) (subst pagesS.simps, auto)

lemma keepsS_entry [keeps]: "keepsS frames_inv (entry t i)" "keepsS frames_inv (set_entry t i v)"
  "keepsS frames_inv (clear_table t)" "keepsS frames_inv (table_at p)" "keepsS frames_inv (write_ram a bs)"
  by (auto simp: keepsS_def frames_inv_def entry_def set_entry_def clear_table_def table_at_def write_ram_def)

lemma keepsS_alloc [keeps]: "keepsS frames_inv (alloc_expect msg)" "keepsS frames_inv alloc_or_err"
  by (auto simp: keepsS_def frames_inv_def alloc_expect_def alloc_or_err_def split: option.splits prod.splits dest: alloc_page_inv)

lemma keepsS_map_user_page [keeps]: "keepsS frames_inv (map_user_page c v p f)"
  unfolding map_user_page_def get_or_create_def by (intro keepsS_bind keepsS_if keepsS_ret keeps)

lemma keepsS_lookup_page [keeps]: "keepsS frames_inv (lookup_page c v)"
  unfolding lookup_page_def by (intro keepsS_bind keepsS_if keepsS_ret keeps)

lemma keepsS_alloc_anon [keeps]: "keepsS frames_inv (alloc_anon c base n)"
proof -
  have "keepsS frames_inv (\<lambda>st. case alloc_page (frames st) of
      (None, s) \<Rightarrow> (Inl (Err ''mmap: OOM''), st\<lparr>frames := s\<rparr>) | (Some a, s) \<Rightarrow> (Inr a, st\<lparr>frames := s\<rparr>))"
    by (auto simp: keepsS_def frames_inv_def split: option.splits prod.splits dest: alloc_page_inv)
  then show ?thesis unfolding alloc_anon_def alloc_anon_page_def by (intro keepsS_forS keepsS_bind keepsS_lift keeps)
qed

lemma keepsS_load_image [keeps]: "keepsS frames_inv (load_image kt data)"
proof -
  have cs: "keepsS frames_inv (create_user_address_space kt)"
    unfolding create_user_address_space_def user_pd_def Let_def by (intro keepsS_bind keepsS_forS keepsS_if keepsS_ret keeps)
  have pg: "keepsS frames_inv (load_page data ph c v)" for ph c v
    unfolding load_page_def page_for_def copy_part_def Let_def
    by (intro keepsS_bind keepsS_if keepsS_ret keepsS_lift keeps) (auto split: option.split intro!: keepsS_bind keepsS_ret keeps)
  have "keepsS frames_inv (load_segments data h c is e)" for h c "is" e
    by (induction "is" arbitrary: e)
       (auto simp: load_segment_def Let_def intro!: keepsS_bind keepsS_pagesS keepsS_if keepsS_ret keepsS_lift pg)
  then show ?thesis
    unfolding load_image_def map_stack_def
    by (intro keepsS_bind keepsS_forS keepsS_if keepsS_ret keepsS_lift keepsS_throw cs keeps)
qed

lemma keepsS_brk_loop [keeps]: "keepsS frames_inv (brk_loop c a b)"
proof (induction "unat b - unat a" arbitrary: a rule: less_induct)
  case less
  let ?grow = "\<lambda>phys. bindS (table_at phys) (\<lambda>kptr. bindS (clear_table kptr) (\<lambda>_. bindS (map_user_page c a (of_nat phys) 7) (\<lambda>_.
     if unat a + 4096 < 2 ^ 64 then brk_loop c (a + 4096) b else throwS (Panic ''attempt to add with overflow''))))"
  show ?case
  proof (cases "a < b")
    case True
    have "keepsS frames_inv (brk_loop c (a + 4096) b)" if "unat a + 4096 < 2 ^ 64"
      using True that by (intro less) (auto simp: word_less_nat_alt unat_word_ariths)
    then have "keepsS frames_inv (?grow phys)" for phys by (intro keepsS_bind keepsS_if keepsS_throw keeps)
    then show ?thesis using True
      by (auto simp: keepsS_def brk_loop.simps [of c a b] frames_inv_def split: option.splits prod.splits dest: alloc_page_inv)
  qed (simp add: keepsS_def brk_loop.simps)
qed

subsection \<open>System calls\<close>

text \<open>
  What a system call leaves alone: every task but the current one, of the current one all but its state, its
  descriptors and its break, and the pipes of the other tasks.
\<close>

definition spared :: "VfsNode Task \<Rightarrow> VfsNode Task" where
  "spared t = t\<lparr>task_state := Running, fd_table := [], heap_end := 0\<rparr>"

definition isolated :: "'s kernel \<Rightarrow> 's kernel \<Rightarrow> bool" where
  "isolated k k' \<longleftrightarrow> tasks (k_sched k') = tasks (k_sched k) \<and>
     map_option spared (current_task (k_sched k')) = map_option spared (current_task (k_sched k)) \<and>
     (\<forall>p \<in> set (pipe_ends (tasks (k_sched k))). get_pipe (k_pipes k') p = get_pipe (k_pipes k) p) \<and>
     k_mem k' = k_mem k \<and> k_next_id k' = k_next_id k \<and> k_vfs k' = k_vfs k \<and> k_ticks k' = k_ticks k \<and>
     k_cr3 k' = k_cr3 k \<and> k_wp k' = k_wp k"

definition kept :: "'s kernel \<Rightarrow> 's kernel \<Rightarrow> bool" where
  "kept k0 k \<longleftrightarrow> kernel_inv k \<and> isolated k0 k"

lemma kept_outside:
  "kept k0 k \<Longrightarrow> kept k0 (k\<lparr>k_serial := x\<rparr>)" "kept k0 k \<Longrightarrow> kept k0 (k\<lparr>k_writer := wr\<rparr>)" "kept k0 k \<Longrightarrow> kept k0 (k\<lparr>k_disk := d\<rparr>)"
  "kept k0 k \<Longrightarrow> frames_inv st \<Longrightarrow> kept k0 (k\<lparr>k_mm := st\<rparr>)" "kept k0 k \<Longrightarrow> kbuf_inv b \<Longrightarrow> kept k0 (k\<lparr>k_keys := b\<rparr>)"
  unfolding kept_def kernel_inv_def isolated_def frames_inv_def by auto

lemma keptD: "kept k0 k \<Longrightarrow> frames_inv (k_mm k)" "kept k0 k \<Longrightarrow> kbuf_inv (k_keys k)"
  by (simp_all add: kept_def kernel_inv_def frames_inv_def)

lemma keepsS_on_mm [intro]: "keepsS frames_inv m \<Longrightarrow> keepsS (kept k0) (on_mm m)"
  by (auto simp: keepsS_def on_mm_def keptD kept_outside split_def Let_def)

lemma keepsS_on_dev [intro]: "keepsS (kept k0) (on_dev m)"
  by (simp add: keepsS_def on_dev_def kept_outside split_def Let_def)

lemma keepsS_access [keeps]: "keepsS (kept k0) (ld8 v)" "keepsS (kept k0) (st8 v b)"
  "keepsS (kept k0) (serial_print_byte b)" "keepsS (kept k0) (serial_print s)" "keepsS (kept k0) (on_writer m)"
  using keptD(1) [of k0]
  by (auto simp: keepsS_def ld8_def st8_def serial_print_byte_def serial_print_def on_writer_def frames_inv_def
    split: option.splits prod.splits intro!: kept_outside)

lemma keepsS_ld_bytes [keeps]: "keepsS (kept k0) (ld_bytes n v)"
  by (induction n arbitrary: v) (auto intro!: keepsS_bind keeps)

lemma keepsS_st_bytes [keeps]: "keepsS (kept k0) (st_bytes v bs)"
  by (induction bs arbitrary: v) (auto intro!: keepsS_bind keeps)

lemma keepsS_print_user: "(\<And>b. keepsS (kept k0) (out b)) \<Longrightarrow> keepsS (kept k0) (print_user out n v)"
  by (induction n arbitrary: v) (auto intro!: keepsS_bind keeps)

lemma keepsS_read_path [keeps]: "keepsS (kept k0) (read_path p s)"
  by (induction p s rule: read_path.induct) (subst read_path.simps, auto intro!: keepsS_bind keeps)

lemma keepsS_read_keys [keeps]: "keepsS (kept k0) (read_keys n v c)"
proof (induction n arbitrary: v c)
  case (Suc n)
  have s: "keepsS (kept k0) (bindS (st8 v b) (\<lambda>_. read_keys n (v + 1) (c + 1)))" for b by (intro keepsS_bind keeps Suc)
  have "kept k0 (k\<lparr>k_keys := snd (kbuf_pop (k_keys k))\<rparr>)" if "kept k0 k" for k
    using kept_outside(5) [OF that] kbuf_pop_inv keptD(2) [OF that] by blast
  then show ?case using s by (auto simp: keepsS_def split: prod.splits option.splits) (metis snd_conv)+
qed auto

text \<open>Replacing the current task, and the table of pipes.\<close>

lemma kept_current:
  assumes "kept k0 k" and "current_task (k_sched k) = Some t" and "spared t' = spared t"
    and "fd_inv (fd_table t')" and "mset (fd_pipes (fd_table t')) \<subseteq># mset (fd_pipes (fd_table t))"
  shows "kept k0 (set_current t' k)"
proof -
  have "task_id t' = task_id t" using arg_cong [OF assms(3), of task_id] by (simp add: spared_def)
  then have "kernel_inv (set_current t' k)" using set_current_inv [of k t t'] assms by (simp add: kept_def)
  then show ?thesis using assms(1-3) by (simp add: kept_def isolated_def set_current_def)
qed

lemma kept_table: "kept k0 k \<Longrightarrow> current_task (k_sched k) = Some t \<Longrightarrow> fd_inv (fd_table t)"
  by (simp add: kept_def kernel_inv_def tasks_inv_def)

lemma kept_pipes:
  assumes "kept k0 k" and "pipes_inv tbl" and "\<forall>p. get_pipe (k_pipes k) p \<noteq> None \<longrightarrow> get_pipe tbl p \<noteq> None"
    and "\<forall>p \<in> set (pipe_ends (tasks (k_sched k0))). get_pipe tbl p = get_pipe (k_pipes k) p"
  shows "kept k0 (k\<lparr>k_pipes := tbl\<rparr>)"
proof -
  have "tasks_inv tbl (k_next_id k) (all_tasks (k_sched k))"
    by (rule tasks_inv_mono [of "k_pipes k"]) (use assms in \<open>auto simp: kept_def kernel_inv_def tasks_inv_def\<close>)
  then show ?thesis using assms by (auto simp: kept_def kernel_inv_def isolated_def)
qed

lemma spared_update [simp]: "spared (t\<lparr>fd_table := f\<rparr>) = spared t" "spared (t\<lparr>heap_end := h\<rparr>) = spared t" "spared (t\<lparr>task_state := x\<rparr>) = spared t"
  by (simp_all add: spared_def)

lemma current_fd_private:
  assumes "kept k0 k" and "current_fd fd k = Some (PipeFd i)"
  shows "i \<notin> set (pipe_ends (tasks (k_sched k0)))"
proof -
  obtain t where t: "current_task (k_sched k) = Some t" "fd_get (fd_table t) fd = Some (PipeFd i)"
    using assms(2) by (auto simp: current_fd_def split: option.splits)
  then have "Some (PipeFd i) \<in> set (fd_table t)" by (auto simp: fd_get_def split: if_splits) (metis nth_mem)
  then have "i \<in> set (fd_pipes (fd_table t))" by (force simp: fd_pipes_def)
  then show ?thesis using assms(1) t(1) by (auto simp: kept_def kernel_inv_def tasks_inv_def isolated_def)
qed

text \<open>A change to a pipe of the current task.\<close>

lemma kept_own_pipe:
  assumes "kept k0 k" and "i \<notin> set (pipe_ends (tasks (k_sched k0)))" and "pipes_inv tbl"
    and "\<forall>p. get_pipe (k_pipes k) p \<noteq> None \<longrightarrow> get_pipe tbl p \<noteq> None" and "\<forall>j. j \<noteq> i \<longrightarrow> get_pipe tbl j = get_pipe (k_pipes k) j"
  shows "kept k0 (k\<lparr>k_pipes := tbl\<rparr>)"
proof (rule kept_pipes [OF assms(1,3,4)], rule ballI)
  fix p assume "p \<in> set (pipe_ends (tasks (k_sched k0)))"
  then have "p \<noteq> i" using assms(2) by blast
  then show "get_pipe tbl p = get_pipe (k_pipes k) p" using assms(5) by blast
qed

lemma kept_write:
  assumes "kept k0 k" and "i \<notin> set (pipe_ends (tasks (k_sched k0)))" and "ipc_write i d (k_pipes k) = (r, tbl)"
  shows "kept k0 (k\<lparr>k_pipes := tbl\<rparr>)"
proof (rule kept_own_pipe [OF assms(1,2)])
  show "pipes_inv tbl" using ipc_write_inv [of "k_pipes k" i d] assms by (simp add: kept_def kernel_inv_def)
qed (use assms(3) in \<open>auto simp: ipc_write_def Let_def get_pipe_def nth_list_update split: option.splits if_splits\<close>)

lemma kept_read:
  assumes "kept k0 k" and "i \<notin> set (pipe_ends (tasks (k_sched k0)))" and "ipc_read i n (k_pipes k) = (r, tbl)"
  shows "kept k0 (k\<lparr>k_pipes := tbl\<rparr>)"
proof (rule kept_own_pipe [OF assms(1,2)])
  show "pipes_inv tbl" using ipc_read_inv [of "k_pipes k" i n] assms by (simp add: kept_def kernel_inv_def)
qed (use assms(3) in \<open>auto simp: ipc_read_def Let_def get_pipe_def nth_list_update split: option.splits if_splits\<close>)

text \<open>Installing a descriptor: a file, or a pipe that no descriptor names yet.\<close>

lemma install_fd_kept:
  assumes "kept k0 k" and "pipe_of (Some e) = [] \<or> (\<exists>p. e = PipeFd p \<and> get_pipe (k_pipes k) p \<noteq> None \<and>
    p \<notin> set (pipe_ends (all_tasks (k_sched k))))"
  shows "kept k0 (snd (install_fd e k))"
proof (cases "current_task (k_sched k)")
  case (Some t)
  obtain r tbl where al: "fd_alloc e (fd_table t) = (r, tbl)" by (metis surj_pair)
  note ends = fd_alloc_ends [OF kept_table [OF assms(1) Some] al]
  let ?t = "t\<lparr>fd_table := tbl\<rparr>"
  have "kept k0 (set_current ?t k)"
  proof (cases "pipe_of (Some e) = [] \<or> r = None")
    case True
    then show ?thesis using ends by (intro kept_current [OF assms(1) Some]) (auto split: if_splits)
  next
    case False
    then obtain p where p: "e = PipeFd p" "get_pipe (k_pipes k) p \<noteq> None" "p \<notin> set (pipe_ends (all_tasks (k_sched k)))"
      using assms(2) by auto
    have m: "mset (fd_pipes tbl) = add_mset p (mset (fd_pipes (fd_table t)))" using ends False p(1) by simp
    have eq: "mset (pipe_ends (?t # tasks (k_sched k))) = add_mset p (mset (pipe_ends (all_tasks (k_sched k))))"
      using m Some by simp
    have "distinct (p # pipe_ends (all_tasks (k_sched k)))" using p(3) assms(1) by (simp add: kept_def kernel_inv_def tasks_inv_def)
    then have "distinct (pipe_ends (?t # tasks (k_sched k)))" using eq by (metis distinct_mset_mono mset.simps(2) subset_mset.order_refl)
    moreover have "set (pipe_ends (?t # tasks (k_sched k))) = insert p (set (pipe_ends (all_tasks (k_sched k))))"
      using arg_cong [OF eq, of set_mset] by (simp only: set_mset_mset set_mset_add_mset_insert)
    ultimately have "tasks_inv (k_pipes k) (k_next_id k) (?t # tasks (k_sched k))"
      using assms(1) Some p(2) ends unfolding kept_def kernel_inv_def tasks_inv_def by (auto simp del: pipe_ends_Cons)
    then show ?thesis using assms(1) Some by (simp add: kept_def kernel_inv_def isolated_def set_current_def)
  qed
  then show ?thesis using Some al by (cases r) (simp_all add: install_fd_def)
qed (use assms(1) in \<open>simp add: install_fd_def\<close>)

lemma sys_pipe_kept: "keepsS (kept k0) sys_pipe"
proof -
  have "kept k0 (snd (sys_pipe k))" if k: "kept k0 k" for k
  proof -
    have inv: "pipes_inv (k_pipes k)" using k by (simp add: kept_def kernel_inv_def)
    obtain r tbl where c: "ipc_create (k_pipes k) = (r, tbl)" by (metis surj_pair)
    show ?thesis
    proof (cases r)
      case None
      have same: "k\<lparr>k_pipes := k_pipes k\<rparr> = k" by simp
      show ?thesis using ipc_create_fresh [OF inv] c None k same by (simp add: sys_pipe_def)
    next
      case (Some i)
      have f: "get_pipe (k_pipes k) i = None" "get_pipe tbl i \<noteq> None" "\<forall>j. j \<noteq> i \<longrightarrow> get_pipe tbl j = get_pipe (k_pipes k) j" "pipes_inv tbl"
        using ipc_create_fresh [OF inv] c Some by simp_all
      have live: "get_pipe (k_pipes k) p \<noteq> None" if "p \<in> set (pipe_ends (all_tasks (k_sched k)))" for p
        using k that by (simp add: kept_def kernel_inv_def tasks_inv_def)
      have sub: "set (pipe_ends (tasks (k_sched k0))) \<subseteq> set (pipe_ends (all_tasks (k_sched k)))"
        using k by (auto simp: kept_def isolated_def all_tasks_def)
      have "kept k0 (k\<lparr>k_pipes := tbl\<rparr>)"
      proof (rule kept_own_pipe [OF k, of i])
        show "i \<notin> set (pipe_ends (tasks (k_sched k0)))" using f(1) live sub by blast
        show "\<forall>p. get_pipe (k_pipes k) p \<noteq> None \<longrightarrow> get_pipe tbl p \<noteq> None" using f(2,3) by metis
      qed (fact f)+
      moreover have "i \<notin> set (pipe_ends (all_tasks (k_sched k)))" using f(1) live by blast
      ultimately show ?thesis
        using install_fd_kept [of k0 "k\<lparr>k_pipes := tbl\<rparr>" "PipeFd i"] c Some f(2) by (simp add: sys_pipe_def)
    qed
  qed
  then show ?thesis by (simp add: keepsS_def)
qed

lemma write_pipe_kept:
  assumes "i \<notin> set (pipe_ends (tasks (k_sched k0)))"
  shows "keepsS (kept k0) (write_pipe i ptr len)"
proof -
  have "keepsS (kept k0) (\<lambda>k. case ipc_write i d (k_pipes k) of
      (Inr n, tbl) \<Rightarrow> (Inr (of_nat n), k\<lparr>k_pipes := tbl\<rparr>) | (Inl e, tbl) \<Rightarrow> (Inr u64_MAX, k\<lparr>k_pipes := tbl\<rparr>))" for d
    using kept_write [OF _ assms] by (auto simp: keepsS_def split: prod.splits sum.splits)
  then show ?thesis unfolding write_pipe_def
    by (intro keepsS_bind keepsS_get keeps)
qed

lemma read_pipe_kept:
  assumes "i \<notin> set (pipe_ends (tasks (k_sched k0)))"
  shows "keepsS (kept k0) (read_pipe i ptr len)"
proof -
  have "keepsS (kept k0) (bindS (st_bytes ptr bs) (\<lambda>_. retS (of_nat (length bs) :: u64)))" for bs by (intro keepsS_bind keepsS_ret keeps)
  then show ?thesis
    using kept_read [OF _ assms] by (auto simp: keepsS_def read_pipe_def split: prod.splits sum.splits)
qed

lemma advance_fd_kept: "keepsS (kept k0) (advance_fd fd n)"
proof -
  have "kept k0 (set_current (t\<lparr>fd_table := fd_set fd (VfsFile node off') (fd_table t)\<rparr>) k)"
    if "kept k0 k" "current_task (k_sched k) = Some t" "fd_get (fd_table t) fd = Some (VfsFile node off)" for k t node off off'
    using fd_set_ends [OF kept_table [OF that(1,2)] that(3), of node off'] by (intro kept_current [OF that(1,2)]) auto
  then show ?thesis by (auto simp: keepsS_def advance_fd_def split: option.splits FdEntry.splits sum.splits)
qed

lemma read_file_kept: "keepsS (kept k0) (read_file dev fd node off ptr len)"
  unfolding read_file_def by (auto intro!: keepsS_match keepsS_bind keepsS_on_dev keepsS_ret keeps advance_fd_kept)

lemma sys_write_kept: "keepsS (kept k0) (sys_write fd ptr len)"
proof -
  have p: "keepsS (kept k0) (put_printable b)" for b
    unfolding put_printable_def by (intro keepsS_if keepsS_ret keeps)
  have "kept k0 (snd ((case current_fd (unat fd) k of Some (PipeFd i) \<Rightarrow> write_pipe i ptr (unat len) | _ \<Rightarrow> retS u64_MAX) k))"
    if "kept k0 k" for k
    using write_pipe_kept [OF current_fd_private [OF that]] that by (auto simp: keepsS_def split: option.split FdEntry.split)
  then show ?thesis unfolding sys_write_def
    by (intro keepsS_if keepsS_ret keepsS_bind keepsS_getS keepsS_print_user p keeps)
qed

lemma sys_read_kept: "keepsS (kept k0) (sys_read dev fd ptr len)"
proof -
  have "kept k0 (snd ((case current_fd (unat fd) k of Some (PipeFd i) \<Rightarrow> read_pipe i ptr (unat len)
      | Some (VfsFile node off) \<Rightarrow> read_file dev (unat fd) node off ptr (unat len) | _ \<Rightarrow> retS u64_MAX) k))"
    if "kept k0 k" for k
    using read_pipe_kept [OF current_fd_private [OF that]] read_file_kept [of k0] that
    by (auto simp: keepsS_def split: option.split FdEntry.split)
  then show ?thesis unfolding sys_read_def
    by (intro keepsS_if keepsS_ret keepsS_getS keeps)
qed

lemma sys_brk_kept: "keepsS (kept k0) (sys_brk b)"
proof -
  have "kept k0 (snd (bindS (on_mm (brk_loop (task_cr3 t) (heap_end t) b)) (\<lambda>a. bindS (modS (set_current (t\<lparr>heap_end := a\<rparr>))) (\<lambda>_. retS a)) k))"
    if k: "kept k0 k" and t: "current_task (k_sched k) = Some t" for k t
  proof -
    obtain r x where b: "brk_loop (task_cr3 t) (heap_end t) b (k_mm k) = (r, x)" by (metis surj_pair)
    have "frames_inv x" using keepsS_D [OF keepsS_brk_loop keptD(1) [OF k] b] .
    then have k1: "kept k0 (k\<lparr>k_mm := x\<rparr>)" by (rule kept_outside(4) [OF k])
    moreover have "kept k0 (set_current (t\<lparr>heap_end := a\<rparr>) (k\<lparr>k_mm := x\<rparr>))" for a
      by (rule kept_current [OF k1]) (use t kept_table [OF k t] in auto)
    ultimately show ?thesis using b by (cases r) (simp_all add: on_mm_def bindS_def)
  qed
  then show ?thesis by (auto simp: keepsS_def sys_brk_def split: option.split)
qed

lemma sys_mmap_kept: "keepsS (kept k0) (sys_mmap len)"
proof -
  have "kept k0 (set_heap_end a k)" if "kept k0 k" for a k
    using that kept_table [OF that] by (auto simp: set_heap_end_def split: option.splits intro!: kept_current)
  then have s: "keepsS (kept k0) (modS (set_heap_end a))" for a by (simp add: keepsS_def)
  let ?m = "\<lambda>t pages. matchS (on_mm (alloc_anon (task_cr3 t) (heap_end t) pages))
      (\<lambda>_. bindS (liftS (bindR (mul_pages pages) (add64 (heap_end t)))) (\<lambda>e. bindS (modS (set_heap_end e)) (\<lambda>_. retS (heap_end t))))
      (\<lambda>_. retS u64_MAX)"
  have "keepsS (kept k0) (?m t pages)" for t :: "VfsNode Task" and pages
    by (intro keepsS_match keepsS_bind keepsS_on_mm keepsS_lift keepsS_ret s keeps)
  then have "keepsS (kept k0) (\<lambda>k. case current_task (k_sched k) of Some t \<Rightarrow> ?m t pages k | None \<Rightarrow> (Inr u64_MAX, k))" for pages
    by (auto simp: keepsS_def split: option.split)
  then show ?thesis unfolding sys_mmap_def Let_def by (intro keepsS_if keepsS_ret keepsS_bind keepsS_lift)
qed

lemma sys_open_kept: "keepsS (kept k0) (sys_open dev p)"
proof -
  have "keepsS (kept k0) (install_fd (VfsFile node 0))" for node
    using install_fd_kept [of k0 _ "VfsFile node 0"] by (simp add: keepsS_def)
  then show ?thesis unfolding sys_open_def by (intro keepsS_bind keepsS_match keepsS_ret keepsS_on_dev keepsS_get keeps)
qed

lemma sys_exit_kept: "keepsS (kept k0) (sys_exit code)"
proof -
  have "keepsS (kept k0) (\<lambda>k. case current_task (k_sched k) of
      Some task \<Rightarrow> (Inr (0 :: u64), set_current (task\<lparr>task_state := Dead\<rparr>) k) | None \<Rightarrow> (Inr 0, k))"
    by (auto simp: keepsS_def kept_table split: option.split intro!: kept_current)
  then show ?thesis unfolding sys_exit_def by (intro keepsS_bind keeps)
qed

lemma sys_close_kept: "keepsS (kept k0) (sys_close fd)"
proof -
  have "kept k0 (set_current (t\<lparr>fd_table := tbl\<rparr>) k)"
    if k: "kept k0 k" "current_task (k_sched k) = Some t" and c: "fd_close (unat fd) (fd_table t) = (b, tbl)" for k t b tbl
    using fd_close_ends [OF kept_table [OF k] c] by (intro kept_current [OF k]) auto
  then show ?thesis by (auto simp: keepsS_def sys_close_def split: option.split prod.split)
qed

lemma sys_log_kept: "keepsS (kept k0) (sys_log ptr len)"
  unfolding sys_log_def by (intro keepsS_bind keepsS_ret keepsS_print_user keeps)

lemma dispatch_kept: "keepsS (kept k0) (syscall_dispatch dev nr a b c)"
proof -
  have "keepsS (kept k0) sys_uptime" by (simp add: sys_uptime_def keepsS_get)
  then show ?thesis
    unfolding syscall_dispatch_def
    by (intro keepsS_if keepsS_ret sys_log_kept sys_pipe_kept sys_write_kept sys_read_kept sys_exit_kept sys_brk_kept
      sys_mmap_kept sys_open_kept sys_close_kept)
qed

subsection \<open>Interrupts and new processes\<close>

lemma pick_next_tasks:
  assumes "pick_next sp r (s, T) = (res, s', T')"
  shows "mset (map task_id (all_tasks s')) \<subseteq># mset (map task_id (all_tasks s)) \<and> mset (pipe_ends (all_tasks s')) \<subseteq># mset (pipe_ends (all_tasks s)) \<and>
    fd_table ` set (all_tasks s') \<subseteq> fd_table ` set (all_tasks s)"
proof (cases "current_task s")
  case None
  then show ?thesis using assms by (cases "tasks s") (auto simp: pick_next_def requeue_def all_tasks_def Let_def)
next
  case (Some c)
  show ?thesis
  proof (cases "task_state c = Dead")
    case True
    then show ?thesis using assms Some
      by (cases "tasks s") (auto simp: pick_next_def requeue_def all_tasks_def Let_def)
  next
    case False
    then show ?thesis using assms Some
      by (cases "tasks s") (auto simp: pick_next_def requeue_def all_tasks_def Let_def)
  qed
qed

lemma pick_next_kernel_inv:
  assumes "kernel_inv k" and "pick_next sp r (k_sched k, T) = (res, s', T')"
  shows "kernel_inv (k\<lparr>k_sched := s', k_ticks := n, k_cr3 := c\<rparr>)"
proof -
  note p = pick_next_tasks [OF assms(2)]
  have "\<forall>t \<in> set (all_tasks s'). fd_inv (fd_table t)"
    using p assms(1) by (fastforce simp: kernel_inv_def tasks_inv_def)
  moreover have "tasks_inv (k_pipes k) (k_next_id k) (all_tasks (k_sched k))" using assms(1) by (simp add: kernel_inv_def)
  ultimately have "tasks_inv (k_pipes k) (k_next_id k) (all_tasks s')"
    using p tasks_inv_mono [of "k_pipes k" "k_next_id k" "all_tasks (k_sched k)" "all_tasks s'" "k_pipes k"] by blast
  then show ?thesis using assms(1) by (simp add: kernel_inv_def)
qed

lemma fd_pipes_stdio [simp]: "fd_pipes with_stdio = []"
  by code_simp

lemma start_task_kernel_inv: "keepsS (kernel_inv :: 's kernel \<Rightarrow> bool) (start_task stk im)"
proof -
  have "kernel_inv (snd (start_task stk im k))" if k: "kernel_inv k" for k :: "'s kernel"
  proof -
    obtain t m where t: "task_new stk (k_next_id k) (img_entry im) (img_stack_top im) (img_cr3 im) True (k_mem k) = (t :: VfsNode Task, m)"
      by (metis surj_pair)
    then have "task_id t = k_next_id k" "fd_table t = with_stdio" by (auto simp: task_new_def Let_def split: prod.splits)
    then show ?thesis using k t
      by (fastforce simp: start_task_def kernel_inv_def tasks_inv_def all_tasks_def add_task_def split: option.splits)
  qed
  then show ?thesis by (simp add: keepsS_def)
qed

lemma spawn_kernel_inv: "keepsS kernel_inv (spawn_process (dev :: 's device) kt stk path)"
proof -
  have d: "keepsS kernel_inv (on_dev m)" for m :: "('s, 'c) op"
    by (simp add: keepsS_def on_dev_def kernel_inv_def split_def Let_def)
  have l: "keepsS kernel_inv (on_mm (load_image kt data))" for data
    using keepsS_load_image [of kt data] by (simp add: keepsS_def on_mm_def kernel_inv_def frames_inv_def split_def Let_def)
  show ?thesis unfolding spawn_process_def Let_def split_def
    by (intro keepsS_bind keepsS_get d l start_task_kernel_inv)
qed

section \<open>The running system\<close>

text \<open>
  What changes the state of the kernel after boot: a system call of the current task, the timer interrupt, the
  keyboard interrupt, and the command of the shell that starts a process. The stack pointer the timer
  interrupt finds, the task state segment, the scancode and the place of the new stack are arbitrary.
\<close>

inductive kernel_step :: "'s device \<Rightarrow> kernel_tables \<Rightarrow> 's kernel \<Rightarrow> 's kernel \<Rightarrow> bool" for dev kt where
  syscall: "syscall_dispatch dev nr a b c k = (r, k') \<Longrightarrow> kernel_step dev kt k k'"
| timer: "pick_next sp (k_cr3 k) (k_sched k, T) = (res, s, T') \<Longrightarrow>
    kernel_step dev kt k (k\<lparr>k_sched := s, k_ticks := k_ticks k + 1, k_cr3 := res_cr3 res\<rparr>)"
| key: "kernel_step dev kt k (k\<lparr>k_keys := kbuf_push scancode (k_keys k)\<rparr>)"
| spawn: "spawn_process dev kt stk path k = (r, k') \<Longrightarrow> kernel_step dev kt k k'"

lemma kernel_step_inv: "kernel_step dev kt k k' \<Longrightarrow> kernel_inv k \<Longrightarrow> kernel_inv k'"
proof (induction rule: kernel_step.induct)
  case (syscall nr a b c k r k')
  have "kept k k" using syscall.prems by (simp add: kept_def isolated_def)
  from keepsS_D [OF dispatch_kept this syscall.hyps] show ?case by (simp add: kept_def)
next
  case (timer sp k T res s T')
  show ?case by (rule pick_next_kernel_inv [OF timer.prems timer.hyps])
next
  case (key k scancode)
  then show ?case using kbuf_push_inv by (simp add: kernel_inv_def)
next
  case (spawn stk path k r k')
  show ?case by (rule keepsS_D [OF spawn_kernel_inv spawn.prems spawn.hyps])
qed

text \<open>
  \<^bold>\<open>C1.\<close> The invariant of the kernel holds in every state it can reach, whatever system calls the processes
  make with whatever arguments, in whatever order interrupts, system calls and new processes come, and whether
  they succeed or not: the counter of free frames agrees with the bitmap, no pipe holds more than 4096 bytes,
  the keyboard ring is well formed, the identifiers of the tasks are distinct and every descriptor table has its
  64 slots; every descriptor of a pipe names a live pipe, and no two descriptors in the system name the same.
  (The statics of the kernel are outside the modelled physical memory: a store through a pointer of the process
  into the kernel image itself is not covered.)
\<close>

theorem kernel_invariant:
  assumes "kernel_inv k" and "(kernel_step dev kt)\<^sup>*\<^sup>* k k'"
  shows "kernel_inv k'"
  using assms(2,1) by (induction rule: rtranclp_induct) (auto intro: kernel_step_inv)


lemma demo_kernel_inv: "kernel_inv (demo_kernel demo_mm)"
  using demo_boot by (simp add: kernel_inv_def demo_kernel_def demo_mm_def pipes_inv_new kbuf_init_inv tasks_inv_def main_task_def)

lemma demo_pipe: "\<exists>k'. syscall_dispatch dev 3 0 0 0 (demo_kernel st) = (Inr 3, k') \<and> pipe_ends (all_tasks (k_sched k')) = [0]"
proof -
  have "fd_alloc (PipeFd 0 :: VfsNode FdEntry) with_stdio = (Some 3, with_stdio[3 := Some (PipeFd 0)])" by code_simp
  moreover have "fd_pipes ((with_stdio :: VfsNode FdTable)[3 := Some (PipeFd 0)]) = [0]" by code_simp
  ultimately show ?thesis
    by (simp add: syscall_dispatch_def sys_pipe_def install_fd_def demo_kernel_def create_first main_task_def set_current_def)
qed

theorem kernel_invariant_witness:
  "\<exists>k'. (kernel_step (ahci_device ram_hba) demo_kt)\<^sup>*\<^sup>* (demo_kernel demo_mm) k' \<and> kernel_inv k' \<and> pipe_ends (all_tasks (k_sched k')) = [0]"
proof -
  obtain k' where k': "syscall_dispatch (ahci_device ram_hba) 3 0 0 0 (demo_kernel demo_mm) = (Inr 3, k')"
    "pipe_ends (all_tasks (k_sched k')) = [0]" using demo_pipe by blast
  then have "(kernel_step (ahci_device ram_hba) demo_kt)\<^sup>*\<^sup>* (demo_kernel demo_mm) k'" by (intro r_into_rtranclp kernel_step.syscall)
  with kernel_invariant [OF demo_kernel_inv this] k'(2) show ?thesis by blast
qed


end
