(* ===== verification/Irq.thy ===== *)
theory Irq
  imports System Shell
begin

text \<open>
  Interrupt sources of the boot processor: the two 8259A interrupt controllers (ross-kernel/src/pic.rs), channel 0 of the 8254 timer
  (pit.rs) and the handlers of the keyboard and of unused lines (keyboard.rs, idt.rs). The drivers are sequences of port writes; what the
  chips make of them follows their data sheets, as far as the drivers use them.
\<close>

section \<open>The chips\<close>

text \<open>
  An 8259A: a write with bit 4 to the command port starts the initialisation and the next writes to the data port are the vector base, the cascade
  wiring and the mode; outside of it the data port is the mask, and the command 0x20 ends the interrupt in service that has the highest priority.
\<close>

record i8259 =
  icw :: nat      \<comment> \<open>the initialisation word expected next, 0 for none\<close>
  icw1 :: u8
  vbase :: u8
  wiring :: u8
  imr :: u8
  isr :: u8

definition i8259_command :: "u8 \<Rightarrow> i8259 \<Rightarrow> i8259" where
  "i8259_command v c =
     (if bit v 4 then c\<lparr>icw := 2, icw1 := v, imr := 0, isr := 0\<rparr>
      else if v = 0x20 then c\<lparr>isr := isr c AND (isr c - 1)\<rparr>
      else c)"

definition i8259_data :: "u8 \<Rightarrow> i8259 \<Rightarrow> i8259" where
  "i8259_data v c =
     (let after3 = (if bit (icw1 c) 0 then 4 else 0) in
      if icw c = 2 then c\<lparr>vbase := v AND 0xF8, icw := if bit (icw1 c) 1 then after3 else 3\<rparr>
      else if icw c = 3 then c\<lparr>wiring := v, icw := after3\<rparr>
      else if icw c = 4 then c\<lparr>icw := 0\<rparr>
      else c\<lparr>imr := v\<rparr>)"

text \<open>Channel 0 of the timer: the control word and the two bytes of the reload value.\<close>

record i8254 =
  control :: u8
  low_byte :: "u8 option"
  reload :: "u16 option"

definition i8254_data :: "u8 \<Rightarrow> i8254 \<Rightarrow> i8254" where
  "i8254_data v c =
     (case low_byte c of
        None \<Rightarrow> c\<lparr>low_byte := Some v\<rparr>
      | Some l \<Rightarrow> c\<lparr>low_byte := None, reload := Some (u16_le l v)\<rparr>)"

record board =
  master :: i8259
  slave :: i8259
  timer :: i8254

definition board_out :: "u16 \<Rightarrow> u8 \<Rightarrow> board \<Rightarrow> board" where
  "board_out p v b =
     (if p = 0x20 then b\<lparr>master := i8259_command v (master b)\<rparr>
      else if p = 0x21 then b\<lparr>master := i8259_data v (master b)\<rparr>
      else if p = 0xA0 then b\<lparr>slave := i8259_command v (slave b)\<rparr>
      else if p = 0xA1 then b\<lparr>slave := i8259_data v (slave b)\<rparr>
      else if p = 0x43 then b\<lparr>timer := \<lparr>control = v, low_byte = None, reload = None\<rparr>\<rparr>
      else if p = 0x40 then b\<lparr>timer := i8254_data v (timer b)\<rparr>
      else b)"

text \<open>
  The vector a line raises, and whether a request on it reaches the processor: it is unmasked and nothing of its priority or above is in service.
  The lines 8 to 15 come through line 2 of the master.
\<close>

definition vector :: "board \<Rightarrow> nat \<Rightarrow> nat" where
  "vector b n = (if n < 8 then unat (vbase (master b)) + n else unat (vbase (slave b)) + (n - 8))"

definition passes :: "i8259 \<Rightarrow> nat \<Rightarrow> bool" where
  "passes c n \<longleftrightarrow> icw c = 0 \<and> \<not> bit (imr c) n \<and> take_bit (Suc n) (isr c) = 0"

definition delivers :: "board \<Rightarrow> nat \<Rightarrow> bool" where
  "delivers b n \<longleftrightarrow> (if n < 8 then passes (master b) n else passes (slave b) (n - 8) \<and> passes (master b) 2)"

text \<open>The processor takes the interrupt of a line of the master.\<close>

definition acknowledge :: "nat \<Rightarrow> board \<Rightarrow> board" where
  "acknowledge n b = b\<lparr>master := (master b)\<lparr>isr := isr (master b) OR one_shl n\<rparr>\<rparr>"

section \<open>The interrupt controllers\<close>

definition outb :: "u16 \<Rightarrow> u8 \<Rightarrow> (board, unit) op" where
  "outb p v = modS (board_out p v)"

definition io_wait :: "(board, unit) op" where
  "io_wait = outb 0x80 0x00"

definition PIC1_CMD :: u16 where "PIC1_CMD = 0x20"
definition PIC1_DATA :: u16 where "PIC1_DATA = 0x21"
definition PIC2_CMD :: u16 where "PIC2_CMD = 0xA0"
definition PIC2_DATA :: u16 where "PIC2_DATA = 0xA1"
definition PIC_EOI :: u8 where "PIC_EOI = 0x20"

definition outb_wait :: "u16 \<Rightarrow> u8 \<Rightarrow> (board, unit) op" where
  "outb_wait p v = bindS (outb p v) (\<lambda>_. io_wait)"

definition pic_init :: "(board, unit) op" where
  "pic_init =
     bindS (outb_wait PIC1_CMD 0x11) (\<lambda>_.
     bindS (outb_wait PIC2_CMD 0x11) (\<lambda>_.
     bindS (outb_wait PIC1_DATA 0x20) (\<lambda>_.
     bindS (outb_wait PIC2_DATA 0x28) (\<lambda>_.
     bindS (outb_wait PIC1_DATA 0x04) (\<lambda>_.
     bindS (outb_wait PIC2_DATA 0x02) (\<lambda>_.
     bindS (outb_wait PIC1_DATA 0x01) (\<lambda>_.
     bindS (outb_wait PIC2_DATA 0x01) (\<lambda>_.
     bindS (outb PIC1_DATA 0xFC) (\<lambda>_.
     outb PIC2_DATA 0xFF)))))))))"

definition send_eoi :: "u8 \<Rightarrow> (board, unit) op" where
  "send_eoi irq = bindS (if 8 \<le> irq then outb PIC2_CMD PIC_EOI else retS ()) (\<lambda>_. outb PIC1_CMD PIC_EOI)"

definition send_eoi_both :: "(board, unit) op" where
  "send_eoi_both = bindS (outb PIC2_CMD PIC_EOI) (\<lambda>_. outb PIC1_CMD PIC_EOI)"

definition pic_disable :: "(board, unit) op" where
  "pic_disable = bindS (outb PIC1_DATA 0xFF) (\<lambda>_. outb PIC2_DATA 0xFF)"

lemmas pic_ports = PIC1_CMD_def PIC1_DATA_def PIC2_CMD_def PIC2_DATA_def PIC_EOI_def

section \<open>The timer\<close>

definition PIT_BASE_FREQ :: u64 where "PIT_BASE_FREQ = 1193182"
definition TARGET_HZ :: u64 where "TARGET_HZ = 100"
definition DIVISOR :: u64 where "DIVISOR = PIT_BASE_FREQ div TARGET_HZ"

definition pit_init :: "(board, unit) op" where
  "pit_init =
     bindS (outb 0x43 0x34) (\<lambda>_.
     bindS (outb 0x40 (ucast (DIVISOR AND 0xFF))) (\<lambda>_.
     outb 0x40 (ucast (drop_bit 8 DIVISOR AND 0xFF))))"

section \<open>Sleeping\<close>

text \<open>
  \<^verbatim>\<open>sleep_ms\<close> reads the tick counter until it has advanced far enough. The counter moves under the interrupt handler: \<open>clk i\<close> is
  what the read number \<open>i\<close> returns. The loop may run for ever; a value is the number of the read that ended it.
\<close>

definition div_ceil :: "u64 \<Rightarrow> u64 \<Rightarrow> u64" where
  "div_ceil a b = (if a mod b = 0 then a div b else a div b + 1)"

partial_function (option) wait_ticks :: "(nat \<Rightarrow> u64) \<Rightarrow> u64 \<Rightarrow> nat \<Rightarrow> nat option" where
  "wait_ticks clk target i = (if clk i < target then wait_ticks clk target (Suc i) else Some i)"

definition sleep_ms :: "(nat \<Rightarrow> u64) \<Rightarrow> u64 \<Rightarrow> nat res option" where
  "sleep_ms clk ms =
     (let ticks_needed = div_ceil ms (1000 div TARGET_HZ) in
      case add64 (clk 0) ticks_needed of
        Inl e \<Rightarrow> Some (Inl e)
      | Inr target \<Rightarrow> map_option Inr (wait_ticks clk target 1))"

lemma wait_ticks_first:
  assumes "i \<le> n" and "target \<le> clk n"
  shows "wait_ticks clk target i = Some (LEAST j. i \<le> j \<and> target \<le> clk j)"
  using assms(1)
proof (induction "n - i" arbitrary: i)
  case 0
  then have "i = n" by simp
  then have "(LEAST j. i \<le> j \<and> target \<le> clk j) = i" using assms(2) by (intro Least_equality) auto
  then show ?case using \<open>i = n\<close> assms(2) by (subst wait_ticks.simps) (auto dest: leD)
next
  case (Suc d)
  show ?case
  proof (cases "clk i < target")
    case True
    have "(LEAST j. i \<le> j \<and> target \<le> clk j) = (LEAST j. Suc i \<le> j \<and> target \<le> clk j)"
      using True by (intro arg_cong [of _ _ Least] ext) (metis Suc_leD le_antisym not_less not_less_eq_eq)
    then show ?thesis using True Suc.hyps(1) [of "Suc i"] Suc.hyps(2) by (subst wait_ticks.simps) simp
  next
    case False
    then have "(LEAST j. i \<le> j \<and> target \<le> clk j) = i" by (intro Least_equality) auto
    then show ?thesis using False by (subst wait_ticks.simps) simp
  qed
qed

text \<open>When the counter advances far enough the sleep ends, at the first read that shows it.\<close>

lemma sleep_ms_returns:
  assumes "unat (clk 0) + unat (div_ceil ms 10) < 2 ^ 64" and "0 < n" and "clk 0 + div_ceil ms 10 \<le> clk n"
  shows "sleep_ms clk ms = Some (Inr (LEAST j. 1 \<le> j \<and> clk 0 + div_ceil ms 10 \<le> clk j))"
  using assms wait_ticks_first [of 1 n "clk 0 + div_ceil ms 10" clk]
  by (simp add: sleep_ms_def TARGET_HZ_def add64_def)

section \<open>What the set-up leaves\<close>

text \<open>A controller that is programmed: with its vectors, its mask, and nothing in service.\<close>

definition programmed :: "u8 \<Rightarrow> u8 \<Rightarrow> u8 \<Rightarrow> i8259" where
  "programmed base w m = \<lparr>icw = 0, icw1 = 0x11, vbase = base, wiring = w, imr = m, isr = 0\<rparr>"

definition booted :: "u8 \<Rightarrow> u8 \<Rightarrow> board" where
  "booted m s = \<lparr>master = programmed 0x20 0x04 m, slave = programmed 0x28 0x02 s,
     timer = \<lparr>control = 0x34, low_byte = None, reload = Some 11931\<rparr>\<rparr>"

lemma board_out_simps [simp]:
  "board_out 0x20 v b = b\<lparr>master := i8259_command v (master b)\<rparr>" "board_out 0x21 v b = b\<lparr>master := i8259_data v (master b)\<rparr>"
  "board_out 0xA0 v b = b\<lparr>slave := i8259_command v (slave b)\<rparr>" "board_out 0xA1 v b = b\<lparr>slave := i8259_data v (slave b)\<rparr>"
  "board_out 0x43 v b = b\<lparr>timer := \<lparr>control = v, low_byte = None, reload = None\<rparr>\<rparr>" "board_out 0x40 v b = b\<lparr>timer := i8254_data v (timer b)\<rparr>"
  "board_out 0x80 v b = b"
  by (simp_all add: board_out_def)

lemma i8259_init: "i8259_data m (i8259_data 0x01 (i8259_data w (i8259_data v (i8259_command 0x11 c)))) = programmed (v AND 0xF8) w m"
  by (cases c) (simp add: i8259_command_def i8259_data_def programmed_def Let_def)

lemma i8254_init:
  "i8254_data 0x2E (i8254_data 0x9B \<lparr>control = 0x34, low_byte = None, reload = None\<rparr>) = \<lparr>control = 0x34, low_byte = None, reload = Some 11931\<rparr>"
  by (simp add: i8254_data_def)

lemma irq_setup: "bindS pit_init (\<lambda>_. pic_init) b = (Inr (), booted 0xFC 0xFF)"
proof -
  have d: "ucast (DIVISOR AND 0xFF) = (0x9B :: u8)" "ucast (drop_bit 8 DIVISOR AND 0xFF) = (0x2E :: u8)"
    by (simp_all add: DIVISOR_def PIT_BASE_FREQ_def TARGET_HZ_def)
  show ?thesis
    unfolding pit_init_def d pic_init_def outb_wait_def io_wait_def outb_def pic_ports
    by (cases b) (simp add: bindS_def i8259_init i8254_init booted_def)
qed

lemma irq_disable: "pic_disable (booted m s) = (Inr (), booted 0xFF 0xFF)"
  by (simp add: pic_disable_def outb_def pic_ports bindS_def board_out_def i8259_data_def booted_def programmed_def)

text \<open>
  \<^bold>\<open>C38.\<close> Whatever state the chips are in, after the set-up the sixteen interrupt lines raise the vectors 32 to 47, exactly the lines 0 and 1 (timer
  and keyboard) reach the processor, and the timer is a rate generator that divides its input by 11931: 100 Hz to within one hundredth of a percent. After
  \<^verbatim>\<open>disable\<close>, which the kernel calls when it has found a local APIC, no line is left.
\<close>

theorem irq_lines:
  "\<exists>b'. bindS pit_init (\<lambda>_. pic_init) b = (Inr (), b') \<and>
     map (vector b') [0 ..< 16] = [32 ..< 48] \<and> filter (delivers b') [0 ..< 16] = [0, 1] \<and>
     control (timer b') = 0x34 \<and> reload (timer b') = Some 11931 \<and> 10000 * (unat PIT_BASE_FREQ - 100 * 11931) < 100 * 11931 \<and>
     (\<exists>b''. pic_disable b' = (Inr (), b'') \<and> filter (delivers b'') [0 ..< 16] = [])"
proof -
  have "map (vector (booted 0xFC 0xFF)) [0 ..< 16] = [32 ..< 48]" "filter (delivers (booted 0xFC 0xFF)) [0 ..< 16] = [0, 1]"
    "filter (delivers (booted 0xFF 0xFF)) [0 ..< 16] = []" by code_simp+
  moreover have "control (timer (booted m s)) = 0x34" "reload (timer (booted m s)) = Some 11931" for m s by (simp_all add: booted_def)
  ultimately show ?thesis unfolding irq_setup using irq_disable by (auto simp: PIT_BASE_FREQ_def)
qed

section \<open>The handlers\<close>

text \<open>The kernel, the flag of the keyboard handler and the chips.\<close>

record 's irq =
  q_kernel :: "'s kernel"
  READY_SHOWN :: bool
  q_board :: board

definition on_kernel :: "('s kernel, 'a) op \<Rightarrow> ('s irq, 'a) op" where
  "on_kernel m = (\<lambda>q. let (r, k) = m (q_kernel q) in (r, q\<lparr>q_kernel := k\<rparr>))"

definition on_board :: "(board, 'a) op \<Rightarrow> ('s irq, 'a) op" where
  "on_board m = (\<lambda>q. let (r, b) = m (q_board q) in (r, q\<lparr>q_board := b\<rparr>))"

definition READY_MSG :: "u8 list" where "READY_MSG = ascii ''R.O.S.S. Ready.''"

definition show_ready :: "(Writer, unit) op" where
  "show_ready =
     bindS (getS id) (\<lambda>writer.
     let clear_y = wr_h writer div 2 + 20 in
     bindS (fill_rect 0 clear_y (wr_w writer) 100 BG) (\<lambda>_.
     let scale = 3; msg_w = length READY_MSG * (8 * scale + scale) - scale; cx = wr_w writer div 2 in
     bindS (set_pos (cx - msg_w div 2) (clear_y + 20)) (\<lambda>_.
     put_str READY_MSG FG scale)))"

text \<open>The scancode is what the port 0x60 delivers.\<close>

definition keyboard_handler :: "u8 \<Rightarrow> ('s irq, unit) op" where
  "keyboard_handler scancode =
     bindS (on_kernel (modS (\<lambda>k. k\<lparr>k_keys := kbuf_push scancode (k_keys k)\<rparr>))) (\<lambda>_.
     bindS (getS READY_SHOWN) (\<lambda>shown.
     bindS (if scancode = 0x1C \<and> \<not> shown then
         bindS (modS (\<lambda>q. q\<lparr>READY_SHOWN := True\<rparr>)) (\<lambda>_. on_kernel (on_writer show_ready))
       else retS ()) (\<lambda>_.
     on_board (send_eoi 1))))"

definition irq_stub_handler :: "(board, unit) op" where
  "irq_stub_handler = send_eoi_both"

subsection \<open>Writing on any screen\<close>

text \<open>Text of any scale is drawn without a panic on a screen that is at least as high as the header of the terminal.\<close>

definition screen_ok :: "Writer \<Rightarrow> bool" where
  "screen_ok wr \<longleftrightarrow> TERM_Y + 20 \<le> wr_h wr \<and> wr_w wr * wr_h wr < usize_bound \<and> wr_w wr < usize_bound \<and> wr_h wr < usize_bound"

lemma fill_rect_screen: "screen_ok wr \<Longrightarrow> y + h < usize_bound \<Longrightarrow> x + w < usize_bound \<Longrightarrow> okS (fill_rect x y w h color) wr (\<lambda>_ wr'. screen_ok wr')"
  by (rule okS_mono [OF fill_rect_painted [of wr]]) (auto simp: screen_ok_def painted_refl painted_def)

lemma set_pos_screen: "screen_ok wr \<Longrightarrow> okS (set_pos x y) wr (\<lambda>_ wr'. screen_ok wr')"
  by (simp add: set_pos_def ok_simps screen_ok_def)

lemma newline_screen: "screen_ok wr \<Longrightarrow> okS (newline scale) wr (\<lambda>_ wr'. screen_ok wr')"
proof -
  assume s: "screen_ok wr"
  let ?wr = "wr\<lparr>wr_x := LEFT_MARGIN, wr_y := TERM_Y + 20\<rparr>"
  have "okS (fill_rect 0 (TERM_Y + 20) (wr_w wr) (wr_h wr - (TERM_Y + 20)) BG) ?wr (\<lambda>_ wr'. screen_ok wr')"
    by (rule fill_rect_screen) (use s in \<open>auto simp: screen_ok_def\<close>)
  then show ?thesis using s by (simp add: newline_def ok_simps screen_ok_def)
qed

lemma put_dot_screen: "screen_ok wr \<Longrightarrow> okS (put_dot color scale gx gy) wr (\<lambda>_ wr'. screen_ok wr')"
proof -
  have "okS (set_pixel row col color) s (\<lambda>_ wr'. screen_ok wr')" if "screen_ok s" "row < wr_h s" "col < wr_w s" for s row col
    by (rule okS_mono [OF set_pixel_painted [of s]]) (use that in \<open>auto simp: screen_ok_def painted_refl painted_def\<close>)
  then show "screen_ok wr \<Longrightarrow> ?thesis" unfolding put_dot_def
    by (intro forS_total [where P = screen_ok]) (auto simp: ok_simps Let_def)
qed

lemma put_str_screen: "screen_ok wr \<Longrightarrow> okS (put_str s color scale) wr (\<lambda>_ wr'. screen_ok wr')"
proof -
  have glyph: "okS (put_glyph ch color scale) s (\<lambda>_ wr'. screen_ok wr')" if "screen_ok s" for s ch
    unfolding put_glyph_def Let_def using that
    by (intro forS_total [where P = screen_ok]) (auto simp: okS_ret intro: put_dot_screen)
  have char: "okS (put_char ch color scale) s (\<lambda>_ wr'. screen_ok wr')" if s: "screen_ok s" for s ch
  proof -
    have "okS (put_glyph ch color scale) s (\<lambda>_ s'. okS (modS (\<lambda>wr. wr\<lparr>wr_x := wr_x wr + (8 * scale + scale)\<rparr>)) s' (\<lambda>_ wr'. screen_ok wr'))" if "screen_ok s" for s
      by (rule okS_mono [OF glyph [OF that]]) (simp add: okS_mod screen_ok_def)
    then show ?thesis using s newline_screen [OF s, of scale]
      by (auto simp: put_char_def Let_def okS_bind okS_get okS_ret elim!: okS_mono)
  qed
  show "screen_ok wr \<Longrightarrow> ?thesis" unfolding put_str_def by (intro forS_total [where P = screen_ok] char)
qed

lemma show_ready_ok: "screen_ok wr \<Longrightarrow> wr_h wr + 100 < usize_bound \<Longrightarrow> okS show_ready wr (\<lambda>_ wr'. screen_ok wr')"
proof -
  assume s: "screen_ok wr" and h: "wr_h wr + 100 < usize_bound"
  have "80 \<le> wr_h wr" using s by (simp add: screen_ok_def TERM_Y_def)
  then have h2: "wr_h wr div 2 + 20 + 100 < usize_bound" using h by linarith
  have f: "okS (fill_rect 0 (wr_h wr div 2 + 20) (wr_w wr) 100 BG) wr (\<lambda>_ wr'. screen_ok wr')"
    by (rule fill_rect_screen [OF s h2]) (use s in \<open>simp add: screen_ok_def\<close>)
  have p: "okS (set_pos x y) s (\<lambda>_ s'. okS (put_str READY_MSG FG 3) s' (\<lambda>_ wr'. screen_ok wr'))" if "screen_ok s" for s x y
    by (rule okS_mono [OF set_pos_screen [OF that]]) (rule put_str_screen)
  show ?thesis unfolding show_ready_def Let_def okS_bind okS_get id_apply by (rule okS_mono [OF f]) (rule p)
qed

subsection \<open>The keyboard interrupt\<close>

lemma eoi_ends: "send_eoi 1 (acknowledge 1 (booted m s)) = (Inr (), booted m s)" "send_eoi_both (acknowledge 1 (booted m s)) = (Inr (), booted m s)"
proof -
  have "(2 :: u8) AND (2 - 1) = 0" by simp
  then show "send_eoi 1 (acknowledge 1 (booted m s)) = (Inr (), booted m s)" "send_eoi_both (acknowledge 1 (booted m s)) = (Inr (), booted m s)"
    by (simp_all add: send_eoi_def send_eoi_both_def outb_def bindS_def pic_ports acknowledge_def booted_def programmed_def i8259_command_def one_shl_def)
qed

text \<open>
  \<^bold>\<open>C39.\<close> The keyboard interrupt on a machine whose controllers are set up and have nothing in service: the handler returns, the scancode is in the
  ring (when there is room) and nothing else of the kernel has changed but the screen; the message is drawn at the first press of Enter only; and the
  controllers are as before the interrupt, so that the next key is delivered too.
\<close>

theorem keyboard_interrupt:
  assumes "q_board q = acknowledge 1 (booted m s)" and "k_writer (q_kernel q) = Some wr" and "screen_ok wr" and "wr_h wr + 100 < usize_bound"
  shows "\<exists>q' wr'. keyboard_handler scancode q = (Inr (), q') \<and> q_board q' = booted m s \<and>
    q_kernel q' = (q_kernel q)\<lparr>k_keys := kbuf_push scancode (k_keys (q_kernel q)), k_writer := Some wr'\<rparr> \<and> screen_ok wr' \<and>
    (if scancode = 0x1C \<and> \<not> READY_SHOWN q then READY_SHOWN q' \<and> show_ready wr = (Inr (), wr')
     else READY_SHOWN q' = READY_SHOWN q \<and> wr' = wr)"
proof -
  let ?k = "(q_kernel q)\<lparr>k_keys := kbuf_push scancode (k_keys (q_kernel q))\<rparr>"
  have kw: "?k\<lparr>k_writer := Some wr\<rparr> = ?k" using assms(2) by simp
  show ?thesis
  proof (cases "scancode = 0x1C \<and> \<not> READY_SHOWN q")
    case True
    obtain wr' where wr': "show_ready wr = (Inr (), wr')" "screen_ok wr'" using show_ready_ok [OF assms(3,4)] by (auto elim!: okS_E)
    have "keyboard_handler scancode q = (Inr (), q\<lparr>q_kernel := ?k\<lparr>k_writer := Some wr'\<rparr>, READY_SHOWN := True, q_board := booted m s\<rparr>)"
      using True assms(1,2) wr'(1) by (cases q) (simp add: keyboard_handler_def bindS_def on_kernel_def on_writer_def on_board_def eoi_ends(1) del: One_nat_def)
    then show ?thesis using True wr' by auto
  next
    case False
    have "keyboard_handler scancode q = (Inr (), q\<lparr>q_kernel := ?k, q_board := booted m s\<rparr>)"
      using False assms(1,2) by (cases q) (auto simp add: keyboard_handler_def bindS_def on_kernel_def on_board_def eoi_ends(1) simp del: One_nat_def)
    then show ?thesis using False kw assms(3) by (intro exI [of "\<lambda>x. \<exists>y. _ x y" "q\<lparr>q_kernel := ?k, q_board := booted m s\<rparr>"] exI [of _ wr]) auto
  qed
qed

theorem keyboard_interrupt_witness:
  "\<exists>q'. keyboard_handler 0x1C \<lparr>q_kernel = (demo_kernel demo_mm :: (nat \<Rightarrow> sector) ahci kernel)\<lparr>k_writer := Some (writer_new (\<lambda>_. 0) 640 480)\<rparr>, READY_SHOWN = False,
       q_board = acknowledge 1 (booted 0xFC 0xFF)\<rparr> = (Inr (), q') \<and> q_board q' = booted 0xFC 0xFF \<and> READY_SHOWN q' \<and>
     k_keys (q_kernel q') = kbuf_push 0x1C kbuf_init"
proof -
  let ?wr = "writer_new (\<lambda>_. 0) 640 480"
  let ?q = "\<lparr>q_kernel = (demo_kernel demo_mm :: (nat \<Rightarrow> sector) ahci kernel)\<lparr>k_writer := Some ?wr\<rparr>, READY_SHOWN = False, q_board = acknowledge 1 (booted 0xFC 0xFF)\<rparr>"
  have "q_board ?q = acknowledge 1 (booted 0xFC 0xFF)" "k_writer (q_kernel ?q) = Some ?wr" "screen_ok ?wr" "wr_h ?wr + 100 < usize_bound"
    by (simp_all add: screen_ok_def writer_new_def usize_bound_def TERM_Y_def)
  from keyboard_interrupt [OF this, of "0x1C"] show ?thesis by (auto simp: demo_kernel_def)
qed

section \<open>Screens of the end\<close>

text \<open>
  What the exception handlers, the panic handler and the handler of a failed allocation draw before they loop for ever (idt.rs and main.rs). The
  lines on the serial port are left out.
\<close>

fun hex_digits :: "nat \<Rightarrow> u8 list" where
  "hex_digits n = (if n < 16 then [hex_digit n] else hex_digits (n div 16) @ [hex_digit (n mod 16)])"

declare hex_digits.simps [simp del]

definition lower_hex :: "u64 \<Rightarrow> u8 list" where
  "lower_hex w = ascii ''0x'' @ hex_digits (unat w)"

definition panic_screen :: "u8 list \<Rightarrow> u64 \<Rightarrow> u64 \<Rightarrow> u64 \<Rightarrow> (Writer, unit) op" where
  "panic_screen name ip cr2 error_code =
     bindS (fill_rect 0 0 10000 10000 0x000000FF) (\<lambda>_.
     bindS (set_pos 100 100) (\<lambda>_.
     bindS (put_str (ascii ''!!!!!!!! KERNEL PANIC !!!!!!!!'') 0x00FFFFFF 2) (\<lambda>_.
     bindS (set_pos 100 150) (\<lambda>_.
     bindS (write_str (ascii ''EXCEPTION: '' @ name @ ascii '' (RIP: '' @ lower_hex ip @ ascii '')'')) (\<lambda>_.
     bindS (set_pos 100 200) (\<lambda>_.
     write_str (ascii ''CR2: '' @ lower_hex cr2 @ ascii ''  ERROR: '' @ lower_hex error_code)))))))"

definition divide_error_handler :: "u64 \<Rightarrow> u64 \<Rightarrow> (Writer, unit) op" where
  "divide_error_handler ip cr2 = panic_screen (ascii ''DIVIDE BY ZERO'') ip cr2 0"

definition breakpoint_handler :: "(Writer, unit) op" where
  "breakpoint_handler = put_str (0x0A # ascii ''[ROSS] BREAKPOINT HIT! System Halting.'') 0x00FF0000 2"

definition invalid_opcode_handler :: "u64 \<Rightarrow> u64 \<Rightarrow> (Writer, unit) op" where
  "invalid_opcode_handler ip cr2 = panic_screen (ascii ''INVALID OPCODE'') ip cr2 0"

definition double_fault_handler :: "u64 \<Rightarrow> u64 \<Rightarrow> u64 \<Rightarrow> (Writer, unit) op" where
  "double_fault_handler ip cr2 error_code = panic_screen (ascii ''DOUBLE FAULT'') ip cr2 error_code"

definition general_protection_fault_handler :: "u64 \<Rightarrow> u64 \<Rightarrow> u64 \<Rightarrow> (Writer, unit) op" where
  "general_protection_fault_handler ip cr2 error_code = panic_screen (ascii ''GENERAL PROTECTION FAULT'') ip cr2 error_code"

definition page_fault_handler :: "u64 \<Rightarrow> u64 \<Rightarrow> u64 \<Rightarrow> (Writer, unit) op" where
  "page_fault_handler ip cr2 error_code = panic_screen (ascii ''PAGE FAULT'') ip cr2 error_code"

text \<open>The panic handler, with the text of the panic.\<close>

definition panic_handler :: "u8 list \<Rightarrow> (Writer, unit) op" where
  "panic_handler info =
     bindS (fill_rect 0 0 3000 3000 RED) (\<lambda>_.
     bindS (set_pos 50 50) (\<lambda>_.
     bindS (write_str (ascii ''KERNEL PANIC'' @ [0x0A])) (\<lambda>_.
     write_str (info @ [0x0A]))))"

definition alloc_error :: "(Writer, unit) op" where
  "alloc_error =
     bindS (fill_rect 0 0 3000 3000 0x000000CC) (\<lambda>_.
     bindS (set_pos 80 100) (\<lambda>_.
     put_str (ascii ''OUT OF MEMORY'') 0x00FFFFFF 3))"

lemma set_pos_inside: "keepsS (inside wr0) (set_pos x y)"
  unfolding set_pos_def by (rule modS_inside) simp

text \<open>A drawing is safe when it stays inside the frame buffer on every screen and does not panic on one that is high enough.\<close>

definition safe_drawing :: "(Writer, unit) op \<Rightarrow> bool" where
  "safe_drawing m \<longleftrightarrow> (\<forall>wr. inside wr (snd (m wr)) \<and> (screen_ok wr \<longrightarrow> okS m wr (\<lambda>_ wr'. screen_ok wr')))"

lemma safe_drawing_bind: "safe_drawing m \<Longrightarrow> safe_drawing m' \<Longrightarrow> safe_drawing (bindS m (\<lambda>_. m'))"
proof -
  assume a: "safe_drawing m" "safe_drawing m'"
  have "inside wr (snd (bindS m (\<lambda>_. m') wr))" for wr
  proof -
    obtain r wr1 where 1: "m wr = (r, wr1)" by (metis surj_pair)
    then have "inside wr wr1" using a(1) unfolding safe_drawing_def by (metis snd_conv)
    moreover have "inside wr1 (snd (m' wr1))" using a(2) by (simp add: safe_drawing_def)
    ultimately show ?thesis using 1 by (cases r) (auto simp: bindS_def inside_def)
  qed
  moreover have "okS (bindS m (\<lambda>_. m')) wr (\<lambda>_ wr'. screen_ok wr')" if "screen_ok wr" for wr
    unfolding okS_bind using a that by (auto simp: safe_drawing_def elim!: okS_mono)
  ultimately show ?thesis by (simp add: safe_drawing_def)
qed

lemma safe_drawing_prims:
  "safe_drawing (set_pos x y)" "safe_drawing (put_str s color scale)" "safe_drawing (write_str s)"
  "y + h < usize_bound \<Longrightarrow> x + w < usize_bound \<Longrightarrow> safe_drawing (fill_rect x y w h color)"
proof -
  have k: "inside wr (snd (m wr))" if "keepsS (inside wr) m" for m :: "(Writer, unit) op" and wr
    using that by (simp add: keepsS_def inside_def)
  show "safe_drawing (set_pos x y)" "safe_drawing (put_str s color scale)" "safe_drawing (write_str s)"
    by (simp_all add: safe_drawing_def k set_pos_inside set_pos_screen put_str_inside put_str_screen write_str_def)
  show "safe_drawing (fill_rect x y w h color)" if "y + h < usize_bound" "x + w < usize_bound"
    using that by (simp add: safe_drawing_def k fill_rect_inside fill_rect_screen)
qed

text \<open>
  \<^bold>\<open>C40.\<close> What the kernel draws when it gives up is itself safe: each of the exception handlers, the panic handler for any text and the handler of a
  failed allocation writes to no byte outside the frame buffer, whatever the resolution, and on a screen of at least 80 lines none of them panics again.
\<close>

theorem last_screens_safe:
  "safe_drawing (divide_error_handler ip cr2) \<and> safe_drawing breakpoint_handler \<and> safe_drawing (invalid_opcode_handler ip cr2) \<and>
   safe_drawing (double_fault_handler ip cr2 e) \<and> safe_drawing (general_protection_fault_handler ip cr2 e) \<and>
   safe_drawing (page_fault_handler ip cr2 e) \<and> safe_drawing (panic_handler info) \<and> safe_drawing alloc_error"
proof -
  have "safe_drawing (panic_screen name ip cr2 e)" for name e
    unfolding panic_screen_def by (intro safe_drawing_bind safe_drawing_prims) (simp_all add: usize_bound_def)
  moreover have "safe_drawing (panic_handler info)" "safe_drawing alloc_error" "safe_drawing breakpoint_handler"
    unfolding panic_handler_def alloc_error_def breakpoint_handler_def
    by (intro safe_drawing_bind safe_drawing_prims; simp add: usize_bound_def)+
  ultimately show ?thesis
    by (simp add: divide_error_handler_def invalid_opcode_handler_def double_fault_handler_def general_protection_fault_handler_def page_fault_handler_def)
qed

end
