(* ===== verification/MainLoop.thy ===== *)
theory MainLoop
  imports Irq ShellRun
begin

text \<open>
  The splash screen and the event loop of ross-kernel/src/main.rs: the clock in the corner, and the loop that takes scancodes from the ring and hands the
  characters to the shell. Interrupts come between two rounds.
\<close>

section \<open>The splash screen\<close>

definition on_wr :: "(Writer, 'a) op \<Rightarrow> ('d shell, 'a) op" where
  "on_wr m = on_k (on_writer m)"

definition print_at :: "usize \<Rightarrow> usize \<Rightarrow> u8 list \<Rightarrow> u32 \<Rightarrow> ('d shell, unit) op" where
  "print_at x y s color = bindS (on_wr (set_pos x y)) (\<lambda>_. on_wr (put_str s color 1))"

text \<open>
  \<^verbatim>\<open>trim_matches\<close> of one character. The message of the day is what a read of 128 bytes delivers, when it is UTF-8, without line
  ends, zero bytes and white space around it.
\<close>

definition trim_byte :: "u8 \<Rightarrow> str \<Rightarrow> str" where
  "trim_byte b s = rev (dropWhile (\<lambda>c. c = b) (rev (dropWhile (\<lambda>c. c = b) s)))"

definition show_motd :: "'d hba \<Rightarrow> usize \<Rightarrow> usize \<Rightarrow> ('d shell, unit) op" where
  "show_motd hba x y =
     matchS (open_path hba (ascii ''motd.txt''))
       (\<lambda>file. matchS (on_k (on_dev (vn_read (ahci_device hba) file 0 (replicate 128 0))))
          (\<lambda>(n, buf). bindS (liftS (slice 0 n buf)) (\<lambda>bs.
             print_at x y (trim (trim_byte 0 (trim_byte 0x0A (if utf8_valid bs then bs else [])))) ACCENT))
          (\<lambda>_. retS ()))
       (\<lambda>_. retS ())"

definition splash :: "'d hba \<Rightarrow> usize \<Rightarrow> usize \<Rightarrow> nat \<Rightarrow> ('d shell, unit) op" where
  "splash hba w h memory_map_len =
     (let title_x = 20; title_y = 20; sub_y = title_y + 12; msg_y = sub_y + 12 in
      bindS (on_wr (fill_rect 0 0 w h BG)) (\<lambda>_.
      bindS (print_at title_x title_y (ascii ''R.O.S.S.'') FG) (\<lambda>_.
      bindS (print_at title_x sub_y (ascii ''Rapid Operating System Shell'') DIM) (\<lambda>_.
      bindS (print_at title_x msg_y (ascii ''Starting...'') FG) (\<lambda>_.
      bindS (show_motd hba title_x (msg_y + 16)) (\<lambda>_.
      bindS (on_wr (set_pos 50 (h - 90))) (\<lambda>_.
      bindS (getS (\<lambda>s. free_mib (frames (k_mm (sh_kernel s))))) (\<lambda>mib.
      bindS (write_fmt (ascii ''Memory: '' @ decimal mib @ ascii '' MiB free  ('' @ decimal memory_map_len @ ascii '' regions)'' @ NL)) (\<lambda>_.
      bindS (write_fmt (ascii ''Paging: CR3 switched to -2GB native tables'' @ NL)) (\<lambda>_.
      write_fmt (ascii ''Press ENTER to continue...'' @ NL)))))))))))"

section \<open>The event loop\<close>

text \<open>The first part of a round; the result is the new \<^verbatim>\<open>last_ticks\<close>.\<close>

definition uptime_clock :: "usize \<Rightarrow> u64 \<Rightarrow> ('d shell, u64) op" where
  "uptime_clock w last_ticks =
     bindS (getS (\<lambda>s. k_ticks (sh_kernel s))) (\<lambda>current_ticks.
     if current_ticks \<noteq> last_ticks then
       let seconds = unat current_ticks div 100 in
       bindS (on_wr (getS (\<lambda>wr. (wr_x wr, wr_y wr)))) (\<lambda>(old_x, old_y).
       if w < 180 then throwS (Panic ''attempt to subtract with overflow'')
       else
         bindS (on_wr (fill_rect (w - 180) 20 180 20 BG)) (\<lambda>_.
         bindS (on_wr (set_pos (w - 180) 20)) (\<lambda>_.
         bindS (write_fmt (ascii ''UPTIME: '' @ decimal seconds @ ascii ''s'')) (\<lambda>_.
         bindS (on_wr (set_pos old_x old_y)) (\<lambda>_.
         retS current_ticks)))))
     else retS last_ticks)"

definition pop_key :: "('d shell, u8 option) op" where
  "pop_key = (\<lambda>s. let (r, ks) = kbuf_pop (k_keys (sh_kernel s)) in (Inr r, s\<lparr>sh_kernel := (sh_kernel s)\<lparr>k_keys := ks\<rparr>\<rparr>))"

definition handle_key :: "'d hba \<Rightarrow> kernel_tables \<Rightarrow> u64 \<Rightarrow> u8 \<Rightarrow> ('d shell, unit) op" where
  "handle_key hba kt stk sc =
     (case scancode_to_ascii sc of Some ch \<Rightarrow> handle_byte hba kt stk ch | None \<Rightarrow> retS ())"

text \<open>\<^verbatim>\<open>while let Some(sc) = kbuf::pop()\<close>: that it ends is a theorem. The argument \<open>stks\<close> gives the places of new kernel stacks.\<close>

partial_function (option) drain_keys :: "'d hba \<Rightarrow> kernel_tables \<Rightarrow> (nat \<Rightarrow> u64) \<Rightarrow> nat \<Rightarrow> 'd shell \<Rightarrow> (unit res \<times> 'd shell) option" where
  "drain_keys hba kt stks i s =
     (case pop_key s of
        (Inr (Some sc), s1) \<Rightarrow>
          (case handle_key hba kt (stks i) sc s1 of
             (Inr _, s2) \<Rightarrow> drain_keys hba kt stks (Suc i) s2
           | (Inl e, s2) \<Rightarrow> Some (Inl e, s2))
      | (_, s1) \<Rightarrow> Some (Inr (), s1))"

definition main_round :: "'d hba \<Rightarrow> kernel_tables \<Rightarrow> (nat \<Rightarrow> u64) \<Rightarrow> usize \<Rightarrow> u64 \<Rightarrow> 'd shell \<Rightarrow> (u64 res \<times> 'd shell) option" where
  "main_round hba kt stks w last_ticks s =
     (case uptime_clock w last_ticks s of
        (Inl e, s1) \<Rightarrow> Some (Inl e, s1)
      | (Inr t, s1) \<Rightarrow> map_option (\<lambda>(r, s2). (map_sum id (\<lambda>_. t) r, s2)) (drain_keys hba kt stks 0 s1))"

section \<open>What the shell leaves alone\<close>

text \<open>
  The interface between the shell and a property of the kernel state: the property does not look at the screen, the disk driver and the serial port, and
  starting a process keeps it. Then everything the shell does keeps it.
\<close>

locale shell_frame =
  fixes Q :: "'d ahci kernel \<Rightarrow> bool"
  assumes writer_frame: "Q (k\<lparr>k_writer := wr\<rparr>) = Q k" and disk_frame: "Q (k\<lparr>k_disk := d\<rparr>) = Q k" and serial_frame: "Q (k\<lparr>k_serial := out\<rparr>) = Q k"
    and spawn_frame: "keepsS Q (spawn_process (ahci_device hba) kt stk path)"
begin

lemma frame_on_k: "keepsS Q m \<Longrightarrow> keepsS (\<lambda>s. Q (sh_kernel s)) (on_k m)"
  by (simp add: keepsS_def on_k_def split_def Let_def)

lemma frame_writer: "keepsS (\<lambda>s. Q (sh_kernel s)) (on_k (on_writer m))"
  by (rule frame_on_k) (simp add: keepsS_def on_writer_def writer_frame split_def Let_def split: option.splits)

lemma frame_dev: "keepsS (\<lambda>s. Q (sh_kernel s)) (on_k (on_dev m))"
  by (rule frame_on_k) (simp add: keepsS_def on_dev_def disk_frame split_def Let_def)

lemma frame_serial: "keepsS (\<lambda>s. Q (sh_kernel s)) (on_k (serial_print out))"
  by (rule frame_on_k) (simp add: keepsS_def serial_print_def serial_frame)

lemma frame_mod: "(\<And>s. sh_kernel (f s) = sh_kernel s) \<Longrightarrow> keepsS (\<lambda>s. Q (sh_kernel s)) (modS f)"
  by (simp add: keepsS_def)

lemmas frame = keepsS_bind keepsS_match keepsS_forS keepsS_if keepsS_ret keepsS_throw keepsS_lift keepsS_get keepsS_list frame_writer frame_dev frame_serial
  frame_on_k spawn_frame frame_mod

lemma frame_cwd: "keepsS (\<lambda>s. Q (sh_kernel s)) cwd"
  unfolding cwd_def by (intro frame)

lemma frame_resolve: "keepsS (\<lambda>s. Q (sh_kernel s)) (resolve raw)"
  unfolding resolve_def by (intro frame frame_cwd)

lemma frame_commands:
  "keepsS (\<lambda>s. Q (sh_kernel s)) cmd_help" "keepsS (\<lambda>s. Q (sh_kernel s)) clear_terminal" "keepsS (\<lambda>s. Q (sh_kernel s)) cmd_memory"
  "keepsS (\<lambda>s. Q (sh_kernel s)) cmd_uptime" "keepsS (\<lambda>s. Q (sh_kernel s)) cmd_version" "keepsS (\<lambda>s. Q (sh_kernel s)) cmd_pwd"
  "keepsS (\<lambda>s. Q (sh_kernel s)) cmd_lspci" "keepsS (\<lambda>s. Q (sh_kernel s)) (cmd_disk hba)" "keepsS (\<lambda>s. Q (sh_kernel s)) prompt"
  unfolding cmd_help_def clear_terminal_def cmd_memory_def cmd_uptime_def cmd_version_def cmd_pwd_def cmd_lspci_def cmd_disk_def prompt_def print_num_def
    shell_calls Let_def case_prod_beta
  by (intro frame frame_cwd)+

lemma frame_file_commands:
  "keepsS (\<lambda>s. Q (sh_kernel s)) (cmd_cd hba p)" "keepsS (\<lambda>s. Q (sh_kernel s)) (cmd_ls hba p)" "keepsS (\<lambda>s. Q (sh_kernel s)) (cmd_cat hba p)"
  "keepsS (\<lambda>s. Q (sh_kernel s)) (cmd_write hba p data)"
  unfolding cmd_cd_def cmd_ls_def cmd_cat_def cat_byte_def cmd_write_def write_found_def shell_calls Let_def case_prod_beta
  by (intro frame frame_resolve; simp)+

lemma frame_execute: "keepsS (\<lambda>s. Q (sh_kernel s)) (execute hba kt stk input)"
  unfolding execute_def Let_def case_prod_beta cmd_reboot_def cmd_clear_def shell_calls
  by (intro frame frame_cwd frame_resolve frame_commands frame_file_commands; simp)

lemma frame_press:
  "keepsS (\<lambda>s. Q (sh_kernel s)) (press_enter hba kt stk)" "keepsS (\<lambda>s. Q (sh_kernel s)) press_backspace" "keepsS (\<lambda>s. Q (sh_kernel s)) (press_char ch)"
  "keepsS (\<lambda>s. Q (sh_kernel s)) activate"
  unfolding press_enter_def press_backspace_def press_char_def activate_def shell_calls
  by (intro frame frame_execute frame_commands; simp)+

lemma frame_handle_key: "keepsS (\<lambda>s. Q (sh_kernel s)) (handle_key hba kt stk sc)"
proof -
  have "keepsS (\<lambda>s. Q (sh_kernel s)) (handle_byte hba kt stk ch)" for ch
    unfolding handle_byte_def
  proof (intro keepsS_bind frame_writer keepsS_get)
    fix st
    show "keepsS (\<lambda>s. Q (sh_kernel s)) (case st of
       Splash \<Rightarrow> if ch = 0x0A then bindS (modS (\<lambda>s. s\<lparr>sh_state := Active\<rparr>)) (\<lambda>_. activate) else retS ()
     | Active \<Rightarrow> if ch = 0x0A then press_enter hba kt stk else if ch = 0x08 then press_backspace
         else if 0x20 \<le> ch \<and> ch \<le> 0x7E then press_char ch else retS ())"
      by (cases st) (simp_all add: frame frame_press)
  qed
  then show ?thesis unfolding handle_key_def by (cases "scancode_to_ascii sc") auto
qed

lemma frame_splash: "keepsS (\<lambda>s. Q (sh_kernel s)) (splash hba w h n)"
  unfolding splash_def show_motd_def print_at_def on_wr_def shell_calls Let_def case_prod_beta by (intro frame)

lemma frame_clock: "keepsS (\<lambda>s. Q (sh_kernel s)) (uptime_clock w last_ticks)"
  unfolding uptime_clock_def on_wr_def shell_calls Let_def case_prod_beta by (intro frame)

end

section \<open>The keys reach the shell\<close>

lemma spawn_keys: "keepsS (\<lambda>k. k_keys k = ks) (spawn_process (dev :: 's device) kt stk path)"
proof -
  have d: "keepsS (\<lambda>k. k_keys k = ks) (on_dev m)" for m :: "('s, 'c) op" by (simp add: keepsS_def on_dev_def split_def Let_def)
  have l: "keepsS (\<lambda>k. k_keys k = ks) (on_mm m)" for m :: "(mm, 'c) op" by (simp add: keepsS_def on_mm_def split_def Let_def)
  have t: "keepsS (\<lambda>k. k_keys k = ks) (start_task stk im)" for im by (simp add: keepsS_def start_task_def split_def Let_def)
  show ?thesis unfolding spawn_process_def Let_def split_def by (intro keepsS_bind keepsS_get d l t)
qed

interpretation sf: shell_frame "\<lambda>k. kernel_inv k \<and> k_keys k = ks" for ks
proof unfold_locales
  fix hba :: "'a hba" and kt stk path
  show "keepsS (\<lambda>k. kernel_inv k \<and> k_keys k = ks) (spawn_process (ahci_device hba) kt stk path)"
    using spawn_kernel_inv [of "ahci_device hba" kt stk path] spawn_keys [of ks "ahci_device hba" kt stk path] by (simp add: keepsS_def)
qed (simp_all add: kernel_inv_def)

text \<open>The reference: the scancodes of the ring one after the other, each taken out before it is handled; the first failure ends it.\<close>

primrec run_keys :: "'d hba \<Rightarrow> kernel_tables \<Rightarrow> (nat \<Rightarrow> u64) \<Rightarrow> nat \<Rightarrow> u8 list \<Rightarrow> 'd shell \<Rightarrow> unit res \<times> 'd shell" where
  "run_keys hba kt stks i [] s = (Inr (), s)"
| "run_keys hba kt stks i (sc # scs) s =
     (case handle_key hba kt (stks i) sc (snd (pop_key s)) of
        (Inr _, s2) \<Rightarrow> run_keys hba kt stks (Suc i) scs s2
      | (Inl e, s2) \<Rightarrow> (Inl e, s2))"

lemma drain_keys_runs:
  fixes s :: "'d shell"
  assumes "kernel_inv (sh_kernel s)" and "kbuf_list (k_keys (sh_kernel s)) = scs"
  shows "\<exists>r s'. drain_keys hba kt stks i s = Some (r, s') \<and> run_keys hba kt stks i scs s = (r, s') \<and> kernel_inv (sh_kernel s') \<and>
    (r = Inr () \<longrightarrow> kbuf_list (k_keys (sh_kernel s')) = [])"
  using assms
proof (induction scs arbitrary: i s)
  case Nil
  have "kbuf_pop (k_keys (sh_kernel s)) = (None, k_keys (sh_kernel s))"
    using kb.pop_empty Nil by (simp add: kernel_inv_def)
  then have "pop_key s = (Inr None, s)" by (simp add: pop_key_def)
  then show ?case using Nil by (subst drain_keys.simps) simp
next
  case (Cons sc scs)
  let ?k = "sh_kernel s"
  have inv: "kbuf_inv (k_keys ?k)" using Cons.prems(1) by (simp add: kernel_inv_def)
  obtain ks where pop: "kbuf_pop (k_keys ?k) = (Some sc, ks)" "kbuf_list ks = scs" "kbuf_inv ks"
    using kb.pop_first [OF inv Cons.prems(2)] kbuf_pop_inv [OF inv] by (metis prod.collapse)
  let ?s1 = "s\<lparr>sh_kernel := ?k\<lparr>k_keys := ks\<rparr>\<rparr>"
  have p: "pop_key s = (Inr (Some sc), ?s1)" using pop(1) by (simp add: pop_key_def)
  obtain r s2 where h: "handle_key hba kt (stks i) sc ?s1 = (r, s2)" by (metis surj_pair)
  have "kernel_inv (sh_kernel ?s1) \<and> k_keys (sh_kernel ?s1) = ks" using Cons.prems(1) pop(3) by (simp add: kernel_inv_def)
  from keepsS_D [OF sf.frame_handle_key this h] have k2: "kernel_inv (sh_kernel s2)" "kbuf_list (k_keys (sh_kernel s2)) = scs" using pop(2) by simp_all
  show ?case
  proof (cases r)
    case (Inl e)
    then show ?thesis using p h k2 by (subst drain_keys.simps) simp
  next
    case (Inr u)
    then show ?thesis using p h Cons.IH [OF k2, of "Suc i"] by (subst drain_keys.simps) simp
  qed
qed

lemma on_wr_ok:
  assumes "k_writer (sh_kernel s) = Some wr" and "okS m wr (\<lambda>_ wr'. screen_ok wr')"
  shows "okS (on_wr m) s (\<lambda>_ s'. \<exists>wr'. k_writer (sh_kernel s') = Some wr' \<and> screen_ok wr')"
  using assms by (auto simp: okS_def on_wr_def on_k_def on_writer_def)

lemma uptime_clock_ok:
  assumes "k_writer (sh_kernel s) = Some wr" and "screen_ok wr" and "180 \<le> w" and "w < usize_bound"
  shows "\<exists>s1. uptime_clock w last_ticks s = (Inr (k_ticks (sh_kernel s)), s1)"
proof -
  let ?P = "\<lambda>_ s'. \<exists>wr'. k_writer (sh_kernel s') = Some wr' \<and> screen_ok wr'"
  have wr: "okS (on_wr m) s ?P" if "?P () s" "\<And>wr. screen_ok wr \<Longrightarrow> okS m wr (\<lambda>_ wr'. screen_ok wr')" for m :: "(Writer, unit) op" and s :: "'a shell"
    using that on_wr_ok by blast
  have fill: "okS (fill_rect (w - 180) 20 180 20 BG) wr (\<lambda>_ wr'. screen_ok wr')" if "screen_ok wr" for wr
    by (rule fill_rect_screen [OF that]) (use assms(3,4) in \<open>simp_all add: usize_bound_def\<close>)
  have fmt: "okS (write_fmt t) s ?P" if "?P () s" for t and s :: "'a shell"
    using wr [OF that, of "write_str t"] by (simp add: write_fmt_def on_wr_def write_str_def put_str_screen)
  have "okS (on_wr (fill_rect (w - 180) 20 180 20 BG)) s ?P" using wr fill assms(1,2) by blast
  then have "okS (bindS (on_wr (fill_rect (w - 180) 20 180 20 BG)) (\<lambda>_. bindS (on_wr (set_pos (w - 180) 20)) (\<lambda>_.
      bindS (write_fmt (ascii ''UPTIME: '' @ decimal (unat (k_ticks (sh_kernel s)) div 100) @ ascii ''s'')) (\<lambda>_. bindS (on_wr (set_pos (wr_x wr) (wr_y wr))) (\<lambda>_.
      retS (k_ticks (sh_kernel s))))))) s (\<lambda>t _. t = k_ticks (sh_kernel s))"
    unfolding okS_bind okS_ret
    by (elim okS_mono) (intro okS_mono [OF wr] okS_mono [OF fmt] set_pos_screen; simp)
  moreover have "on_wr (getS (\<lambda>wr. (wr_x wr, wr_y wr))) s = (Inr (wr_x wr, wr_y wr), s)"
    using assms(1) by (simp add: on_wr_def on_k_def on_writer_def)
  ultimately show ?thesis using assms(3) by (auto simp: uptime_clock_def bindS_def [of "getS _"] bindS_def [of "on_wr (getS _)"] okS_def Let_def)
qed



end
