(* ===== verification/AhciInit.thy ===== *)
theory AhciInit
  imports Pci Ahci Paging
begin

text \<open>
  Finding the SATA controller and setting up a port (\<^verbatim>\<open>init\<close> and \<^verbatim>\<open>init_port\<close> of ross-kernel/src/ahci.rs). The registers of the
  controller are a parameter: what a read returns and what a write does, by address. The log lines are left out.
\<close>

section \<open>Registers\<close>

definition HBA_CAP :: usize where "HBA_CAP = 0x00"
definition HBA_GHC :: usize where "HBA_GHC = 0x04"
definition HBA_PI :: usize where "HBA_PI = 0x0C"
definition GHC_AE :: u32 where "GHC_AE = one_shl 31"
definition HBA_PORT_BASE :: usize where "HBA_PORT_BASE = 0x100"
definition HBA_PORT_SIZE :: usize where "HBA_PORT_SIZE = 0x80"
definition PX_CLB :: usize where "PX_CLB = 0x00"
definition PX_CLBU :: usize where "PX_CLBU = 0x04"
definition PX_FB :: usize where "PX_FB = 0x08"
definition PX_FBU :: usize where "PX_FBU = 0x0C"
definition PX_IS :: usize where "PX_IS = 0x10"
definition PX_CMD :: usize where "PX_CMD = 0x18"
definition PX_SIG :: usize where "PX_SIG = 0x24"
definition PX_SSTS :: usize where "PX_SSTS = 0x28"
definition PX_SERR :: usize where "PX_SERR = 0x30"
definition CMD_ST :: u32 where "CMD_ST = one_shl 0"
definition CMD_FRE :: u32 where "CMD_FRE = one_shl 4"
definition CMD_FR :: u32 where "CMD_FR = one_shl 14"
definition CMD_CR :: u32 where "CMD_CR = one_shl 15"
definition SIG_SATA :: u32 where "SIG_SATA = 0x00000101"

record 'c mmio =
  reg_read :: "usize \<Rightarrow> 'c \<Rightarrow> u32 \<times> 'c"
  reg_write :: "usize \<Rightarrow> u32 \<Rightarrow> 'c \<Rightarrow> 'c"

text \<open>The state the set-up works on: \<^verbatim>\<open>ABAR_VIRT\<close>, the controller, memory, and the driver state it fills in.\<close>

record ('c, 'd) host =
  ABAR_VIRT :: usize
  h_ctl :: 'c
  h_mm :: mm
  h_ahci :: "'d ahci"

definition mmio_read :: "'c mmio \<Rightarrow> usize \<Rightarrow> (('c, 'd) host, u32) op" where
  "mmio_read io off = (\<lambda>h. let (v, c) = reg_read io (ABAR_VIRT h + off) (h_ctl h) in (Inr v, h\<lparr>h_ctl := c\<rparr>))"

definition mmio_write :: "'c mmio \<Rightarrow> usize \<Rightarrow> u32 \<Rightarrow> (('c, 'd) host, unit) op" where
  "mmio_write io off v = modS (\<lambda>h. h\<lparr>h_ctl := reg_write io (ABAR_VIRT h + off) v (h_ctl h)\<rparr>)"

definition port_read :: "'c mmio \<Rightarrow> u8 \<Rightarrow> usize \<Rightarrow> (('c, 'd) host, u32) op" where
  "port_read io p off = mmio_read io (HBA_PORT_BASE + unat p * HBA_PORT_SIZE + off)"

definition port_write :: "'c mmio \<Rightarrow> u8 \<Rightarrow> usize \<Rightarrow> u32 \<Rightarrow> (('c, 'd) host, unit) op" where
  "port_write io p off v = mmio_write io (HBA_PORT_BASE + unat p * HBA_PORT_SIZE + off) v"

section \<open>The port\<close>

text \<open>\<^verbatim>\<open>for _ in 0..n { if port_read(port, PX_CMD) & m == 0 { break; } }\<close>\<close>

primrec wait_cmd :: "'c mmio \<Rightarrow> u8 \<Rightarrow> u32 \<Rightarrow> nat \<Rightarrow> (('c, 'd) host, unit) op" where
  "wait_cmd io p m 0 = retS ()"
| "wait_cmd io p m (Suc n) = bindS (port_read io p PX_CMD) (\<lambda>v. if v AND m = 0 then retS () else wait_cmd io p m n)"

definition on_hmm :: "(mm, 'a) op \<Rightarrow> (('c, 'd) host, 'a) op" where
  "on_hmm m = (\<lambda>h. let (r, x) = m (h_mm h) in (r, h\<lparr>h_mm := x\<rparr>))"

definition alloc_ok_or :: "string \<Rightarrow> (('c, 'd) host, usize) op" where
  "alloc_ok_or msg = on_hmm (\<lambda>st. case alloc_page (frames st) of
       (None, s) \<Rightarrow> (Inl (Err msg), st\<lparr>frames := s\<rparr>)
     | (Some a, s) \<Rightarrow> (Inr a, st\<lparr>frames := s\<rparr>))"

text \<open>The structures of the driver, when the memory they lie in is zero but for the address of the command table.\<close>

definition zero_prd :: PrdtEntry where
  "zero_prd = \<lparr>dba = 0, dbau = 0, dbc = 0\<rparr>"

definition fresh_structures :: "u64 \<Rightarrow> u64 \<Rightarrow> 'd ahci \<Rightarrow> 'd ahci" where
  "fresh_structures ct dma a = a\<lparr>
     header := \<lparr>flags = 0, prdtl = 0, prdbc = 0, ctba = ucast (ct AND 0xFFFFFFFF), ctbau = ucast (drop_bit 32 ct)\<rparr>,
     ctable := \<lparr>cfis = replicate 64 0, acmd = replicate 16 0, prdt = replicate 8 zero_prd\<rparr>,
     pages := (pages a)(dma := replicate 4096 0)\<rparr>"

definition stop_port :: "'c mmio \<Rightarrow> u8 \<Rightarrow> (('c, 'd) host, unit) op" where
  "stop_port io p =
     bindS (port_read io p PX_CMD) (\<lambda>cmd.
     bindS (port_write io p PX_CMD (cmd AND NOT (CMD_ST OR CMD_FRE))) (\<lambda>_.
     wait_cmd io p (CMD_FR OR CMD_CR) 100000))"

definition clear_structures :: "usize \<Rightarrow> usize \<Rightarrow> usize \<Rightarrow> usize \<Rightarrow> (('c, 'd) host, unit) op" where
  "clear_structures clb fb ct dma =
     bindS (on_hmm (table_at clb)) (\<lambda>clb_virt.
     bindS (on_hmm (table_at fb)) (\<lambda>fb_virt.
     bindS (on_hmm (table_at ct)) (\<lambda>ct_virt.
     bindS (on_hmm (table_at dma)) (\<lambda>dma_virt.
     bindS (on_hmm (clear_table clb_virt)) (\<lambda>_.
     bindS (on_hmm (clear_table fb_virt)) (\<lambda>_.
     bindS (on_hmm (clear_table ct_virt)) (\<lambda>_.
     bindS (on_hmm (clear_table dma_virt)) (\<lambda>_.
     bindS (on_hmm (modS (\<lambda>st. st\<lparr>ram := wr_bytes (clb_virt + 8) (le_bytes 8 (of_nat ct :: u64)) (ram st)\<rparr>))) (\<lambda>_.
     modS (\<lambda>h. h\<lparr>h_ahci := fresh_structures (of_nat ct) (of_nat dma) (h_ahci h)\<rparr>))))))))))"

definition start_port :: "'c mmio \<Rightarrow> u8 \<Rightarrow> usize \<Rightarrow> usize \<Rightarrow> (('c, 'd) host, unit) op" where
  "start_port io p clb fb =
     bindS (port_write io p PX_CLB (ucast (of_nat clb AND (0xFFFFFFFF :: u64)))) (\<lambda>_.
     bindS (port_write io p PX_CLBU (ucast (drop_bit 32 (of_nat clb :: u64)))) (\<lambda>_.
     bindS (port_write io p PX_FB (ucast (of_nat fb AND (0xFFFFFFFF :: u64)))) (\<lambda>_.
     bindS (port_write io p PX_FBU (ucast (drop_bit 32 (of_nat fb :: u64)))) (\<lambda>_.
     bindS (port_write io p PX_SERR 0xFFFFFFFF) (\<lambda>_.
     bindS (port_write io p PX_IS 0xFFFFFFFF) (\<lambda>_.
     bindS (wait_cmd io p CMD_CR 100000) (\<lambda>_.
     bindS (port_read io p PX_CMD) (\<lambda>cmd.
     port_write io p PX_CMD (cmd OR CMD_FRE OR CMD_ST)))))))))"

definition init_port :: "'c mmio \<Rightarrow> u8 \<Rightarrow> (('c, 'd) host, unit) op" where
  "init_port io p =
     bindS (stop_port io p) (\<lambda>_.
     bindS (alloc_ok_or ''OOM: CLB'') (\<lambda>clb.
     bindS (alloc_ok_or ''OOM: FB'') (\<lambda>fb.
     bindS (alloc_ok_or ''OOM: CT'') (\<lambda>ct.
     bindS (alloc_ok_or ''OOM: DMA'') (\<lambda>dma.
     bindS (clear_structures clb fb ct dma) (\<lambda>_.
     bindS (start_port io p clb fb) (\<lambda>_.
     modS (\<lambda>h. h\<lparr>h_ahci := (h_ahci h)\<lparr>PORT := Some \<lparr>port = p, clb_phys = of_nat clb, ct_phys = of_nat ct, dma_phys = of_nat dma\<rparr>\<rparr>\<rparr>))))))))"

section \<open>The controller\<close>

primrec scan_ports :: "'c mmio \<Rightarrow> u32 \<Rightarrow> nat list \<Rightarrow> (('c, 'd) host, unit) op" where
  "scan_ports io pi [] = throwS (Err ''No SATA drive attached'')"
| "scan_ports io pi (p # ps) =
     (if pi AND one_shl p = 0 then scan_ports io pi ps
      else bindS (port_read io (of_nat p) PX_SIG) (\<lambda>sig.
        bindS (port_read io (of_nat p) PX_SSTS) (\<lambda>ssts.
        let det = ssts AND 0x0F; ipm = drop_bit 8 ssts AND 0x0F in
        if det = 3 \<and> ipm = 1 \<and> sig = SIG_SATA then init_port io (of_nat p) else scan_ports io pi ps)))"

definition ahci_init :: "config_space \<Rightarrow> PciDevice list \<Rightarrow> 'c mmio \<Rightarrow> (('c, 'd) host, unit) op" where
  "ahci_init cfg devices io =
     (case find_by_class devices 0x01 0x06 of
        None \<Rightarrow> throwS (Err ''No AHCI controller'')
      | Some controller \<Rightarrow>
          bindS (liftS (read_bar cfg controller 5)) (\<lambda>bar5.
          let abar_phys = bar5 AND 0xFFFFFFF0 in
          if abar_phys = 0 then throwS (Err ''ABAR is zero'')
          else
            bindS (modS (\<lambda>h. h\<lparr>ABAR_VIRT := unat abar_phys\<rparr>)) (\<lambda>_.
            bindS (mmio_read io HBA_GHC) (\<lambda>ghc.
            bindS (mmio_write io HBA_GHC (ghc OR GHC_AE)) (\<lambda>_.
            bindS (mmio_read io HBA_CAP) (\<lambda>cap.
            bindS (mmio_read io HBA_PI) (\<lambda>pi.
            scan_ports io pi [0 ..< 32])))))))"

section \<open>What the set-up finds and leaves\<close>

text \<open>
  The documented behaviour of the controller the search relies on: the registers that say which ports exist and what is
  attached to them are read-only, and reading does not change them either.
\<close>

definition ident_regs :: "usize \<Rightarrow> usize set" where
  "ident_regs abar = insert (abar + HBA_PI) (\<Union>p. {abar + (HBA_PORT_BASE + p * HBA_PORT_SIZE + PX_SIG), abar + (HBA_PORT_BASE + p * HBA_PORT_SIZE + PX_SSTS)})"

definition hba_regs :: "'c mmio \<Rightarrow> (usize \<Rightarrow> 'c \<Rightarrow> u32) \<Rightarrow> usize \<Rightarrow> bool" where
  "hba_regs io ident abar \<longleftrightarrow> (\<forall>a \<in> ident_regs abar. \<forall>b v c. fst (reg_read io a c) = ident a c \<and>
     ident a (snd (reg_read io b c)) = ident a c \<and> ident a (reg_write io b v c) = ident a c)"

definition sata_at :: "(usize \<Rightarrow> u32) \<Rightarrow> usize \<Rightarrow> nat \<Rightarrow> bool" where
  "sata_at regs abar p \<longleftrightarrow> bit (regs (abar + HBA_PI)) p \<and>
     (let ssts = regs (abar + (HBA_PORT_BASE + p * HBA_PORT_SIZE + PX_SSTS)) in ssts AND 0x0F = 3 \<and> drop_bit 8 ssts AND 0x0F = 1) \<and>
     regs (abar + (HBA_PORT_BASE + p * HBA_PORT_SIZE + PX_SIG)) = SIG_SATA"

text \<open>A register access changes the controller only, and not its identification.\<close>

definition reg_step :: "(usize \<Rightarrow> 'c \<Rightarrow> u32) \<Rightarrow> ('c, 'd) host \<Rightarrow> ('c, 'd) host \<Rightarrow> bool" where
  "reg_step ident h h' \<longleftrightarrow> h' = h\<lparr>h_ctl := h_ctl h'\<rparr> \<and> (\<forall>a \<in> ident_regs (ABAR_VIRT h). ident a (h_ctl h') = ident a (h_ctl h))"

lemma reg_step_refl: "reg_step ident h h"
  by (simp add: reg_step_def)

lemma reg_step_trans: "reg_step ident h h' \<Longrightarrow> reg_step ident h' h'' \<Longrightarrow> reg_step ident h h''"
  unfolding reg_step_def by (metis host.surjective host.update_convs(2) host.select_convs(1))

lemma mmio_read_ok:
  assumes "hba_regs io ident (ABAR_VIRT h)"
  shows "okS (mmio_read io off) h (\<lambda>v h'. reg_step ident h h' \<and> (ABAR_VIRT h + off \<in> ident_regs (ABAR_VIRT h) \<longrightarrow> v = ident (ABAR_VIRT h + off) (h_ctl h)))"
  using assms by (auto simp: okS_def mmio_read_def hba_regs_def reg_step_def split: prod.splits) (metis fst_conv snd_conv)+

lemma mmio_write_ok: "hba_regs io ident (ABAR_VIRT h) \<Longrightarrow> okS (mmio_write io off v) h (\<lambda>_ h'. reg_step ident h h')"
  by (simp add: okS_def mmio_write_def hba_regs_def reg_step_def)

lemma reg_step_abar: "reg_step ident h h' \<Longrightarrow> ABAR_VIRT h' = ABAR_VIRT h"
  unfolding reg_step_def by (metis host.select_convs(1) host.surjective host.update_convs(2))

lemma wait_cmd_ok: "hba_regs io ident (ABAR_VIRT h) \<Longrightarrow> okS (wait_cmd io p m n) h (\<lambda>_ h'. reg_step ident h h')"
proof (induction n arbitrary: h)
  case (Suc n)
  have "okS (wait_cmd io p m n) h' (\<lambda>_ h''. reg_step ident h h'')" if "reg_step ident h h'" for h'
    by (rule okS_mono [OF Suc.IH]) (use Suc.prems that in \<open>auto simp: reg_step_abar intro: reg_step_trans\<close>)
  then show ?case unfolding wait_cmd.simps okS_bind port_read_def
    by (intro okS_mono [OF mmio_read_ok [OF Suc.prems]]) (auto simp: okS_ret)
qed (simp add: okS_ret reg_step_refl)

lemma alloc_ok_or_ok:
  assumes "pmm_inv (frames (h_mm h))" and "0 < card (free_set (frames (h_mm h)))"
  shows "okS (alloc_ok_or msg) h (\<lambda>a h'. \<exists>s. h' = h\<lparr>h_mm := (h_mm h)\<lparr>frames := s\<rparr>\<rparr> \<and> pmm_inv s \<and>
    a \<in> frame_addrs (free_set (frames (h_mm h))) \<and> frame_addrs (free_set s) = frame_addrs (free_set (frames (h_mm h))) - {a} \<and>
    card (free_set s) = card (free_set (frames (h_mm h))) - 1)"
proof -
  have "frame_addrs (free_set (frames (h_mm h))) \<noteq> {}" using assms(2) by (auto simp: frame_addrs_def)
  then obtain a s where al: "alloc_page (frames (h_mm h)) = (Some a, s)" using pm.alloc_succeeds [OF assms(1)] by auto
  have "card (free_set s) = card (free_set (frames (h_mm h))) - 1"
    using alloc_page_Some(2,3) [OF assms(1) al] by simp
  with alloc_page_addr [OF assms(1) al] al show ?thesis by (auto simp: okS_def alloc_ok_or_def on_hmm_def)
qed


lemma port_write_ok: "hba_regs io ident (ABAR_VIRT h) \<Longrightarrow> okS (port_write io p off v) h (\<lambda>_ h'. reg_step ident h h')"
  unfolding port_write_def by (rule mmio_write_ok)

lemma port_read_ok: "hba_regs io ident (ABAR_VIRT h) \<Longrightarrow> okS (port_read io p off) h (\<lambda>_ h'. reg_step ident h h')"
  unfolding port_read_def by (rule okS_mono [OF mmio_read_ok]) auto

lemma reg_seq:
  assumes "hba_regs io ident (ABAR_VIRT h)" and "okS m h (\<lambda>_ h'. reg_step ident h h')"
    and "\<And>x h'. hba_regs io ident (ABAR_VIRT h') \<Longrightarrow> okS (f x) h' (\<lambda>_ h''. reg_step ident h' h'')"
  shows "okS (bindS m f) h (\<lambda>_ h'. reg_step ident h h')"
  unfolding okS_bind
proof (rule okS_mono [OF assms(2)])
  fix x h' assume st: "reg_step ident h h'"
  then have "hba_regs io ident (ABAR_VIRT h')" using assms(1) by (simp add: reg_step_abar)
  from assms(3) [OF this] show "okS (f x) h' (\<lambda>_ h''. reg_step ident h h'')" by (rule okS_mono) (rule reg_step_trans [OF st])
qed

lemma stop_port_ok: "hba_regs io ident (ABAR_VIRT h) \<Longrightarrow> okS (stop_port io p) h (\<lambda>_ h'. reg_step ident h h')"
  unfolding stop_port_def by (rule reg_seq [where io = io], assumption, rule port_read_ok, assumption,
    rule reg_seq [where io = io], assumption, rule port_write_ok, assumption, rule wait_cmd_ok)

lemma start_port_ok: "hba_regs io ident (ABAR_VIRT h) \<Longrightarrow> okS (start_port io p clb fb) h (\<lambda>_ h'. reg_step ident h h')"
  unfolding start_port_def
  by (rule reg_seq [where io = io], assumption, rule port_write_ok, assumption)+
    (rule reg_seq [where io = io], assumption, rule wait_cmd_ok, assumption,
     rule reg_seq [where io = io], assumption, rule port_read_ok, assumption, rule port_write_ok)

text \<open>The four frames are cleared, and the first command header points to the command table.\<close>

lemma table_at_frame: "a \<in> frame_addrs {..<MAX_PAGES} \<Longrightarrow> table_at a st = (Inr (of_nat a), st)"
proof -
  assume "a \<in> frame_addrs {..<MAX_PAGES}"
  then have lt: "a < 0x40000000" by (auto simp: frame_addrs_def MAX_PAGES_def BITMAP_BYTES_def PAGE_SIZE_def)
  then have u: "unat (of_nat a :: u64) = a" by (intro of_nat_inverse [OF refl]) simp
  then have "(of_nat a :: u64) < 0x80000000" using lt by (simp add: word_less_nat_alt)
  from table_at_ok [OF this, of st] show ?thesis by (simp add: u)
qed

lemma clear_structures_run:
  assumes "{clb, fb, ct, dma} \<subseteq> frame_addrs {..<MAX_PAGES}"
  shows "clear_structures clb fb ct dma h = (Inr (), h\<lparr>
     h_mm := (h_mm h)\<lparr>ram := wr_bytes (of_nat clb + 8) (le_bytes 8 (of_nat ct :: u64)) (zero_page (of_nat dma) (zero_page (of_nat ct)
       (zero_page (of_nat fb) (zero_page (of_nat clb) (ram (h_mm h))))))\<rparr>,
     h_ahci := fresh_structures (of_nat ct) (of_nat dma) (h_ahci h)\<rparr>)"
  using assms by (simp add: clear_structures_def bindS_def on_hmm_def table_at_frame clear_table_def)

text \<open>
  The port \<open>p\<close> is set up with four frames that were free: the driver knows its port and structures, the header in memory points to the command
  table, and the driver is ready for transfers.
\<close>

definition port_set :: "u8 \<Rightarrow> ('c, 'd) host \<Rightarrow> ('c, 'd) host \<Rightarrow> bool" where
  "port_set p h h' \<longleftrightarrow> (\<exists>clb fb ct dma. distinct [clb, fb, ct, dma] \<and> {clb, fb, ct, dma} \<subseteq> frame_addrs (free_set (frames (h_mm h))) \<and>
     frame_addrs (free_set (frames (h_mm h'))) = frame_addrs (free_set (frames (h_mm h))) - {clb, fb, ct, dma} \<and> pmm_inv (frames (h_mm h')) \<and>
     PORT (h_ahci h') = Some \<lparr>port = p, clb_phys = of_nat clb, ct_phys = of_nat ct, dma_phys = of_nat dma\<rparr> \<and>
     port_ready (h_ahci h') \<and> media (h_ahci h') = media (h_ahci h) \<and> rd64 (ram (h_mm h')) (of_nat clb + 8) = of_nat ct)"

lemma reg_step_mm: "reg_step ident h h' \<Longrightarrow> h_mm h' = h_mm h \<and> h_ahci h' = h_ahci h"
  unfolding reg_step_def by (metis host.select_convs(3,4) host.surjective host.update_convs(2))

lemma init_port_ok:
  fixes h :: "('c, 'd) host"
  assumes regs: "hba_regs io ident (ABAR_VIRT h)" and "pmm_inv (frames (h_mm h))" and "4 \<le> card (free_set (frames (h_mm h)))"
  shows "okS (init_port io p) h (\<lambda>_ h'. port_set p h h')"
proof -
  let ?F = "\<lambda>h :: ('c, 'd) host. frame_addrs (free_set (frames (h_mm h)))"
  define got where "got = (\<lambda>as (h' :: ('c, 'd) host). ABAR_VIRT h' = ABAR_VIRT h \<and> h_ahci h' = h_ahci h \<and> pmm_inv (frames (h_mm h')) \<and>
    distinct as \<and> set as \<subseteq> ?F h \<and> ?F h' = ?F h - set as \<and> card (free_set (frames (h_mm h'))) + length as = card (free_set (frames (h_mm h))))"
  have alloc: "okS (alloc_ok_or msg) h' (\<lambda>a h''. got (as @ [a]) h'')" if "got as h'" "length as < 4" for msg as h'
    using that assms(3) unfolding got_def by (intro okS_mono [OF alloc_ok_or_ok]) auto
  have stop: "okS (stop_port io p) h (\<lambda>_ h'. got [] h')"
    by (rule okS_mono [OF stop_port_ok [OF regs]]) (use assms(2) in \<open>auto simp: got_def dest: reg_step_mm reg_step_abar\<close>)
  have rest: "okS (bindS (clear_structures clb fb ct dma) (\<lambda>_. bindS (start_port io p clb fb) (\<lambda>_.
     modS (\<lambda>h. h\<lparr>h_ahci := (h_ahci h)\<lparr>PORT := Some \<lparr>port = p, clb_phys = of_nat clb, ct_phys = of_nat ct, dma_phys = of_nat dma\<rparr>\<rparr>\<rparr>)))) h' (\<lambda>_ h''. port_set p h h'')"
    if "got [clb, fb, ct, dma] h'" for clb fb ct dma h'
  proof -
    note g = that [unfolded got_def]
    have "?F h \<subseteq> frame_addrs {..<MAX_PAGES}" by (auto simp: frame_addrs_def dest: free_set_bound)
    with g have "{clb, fb, ct, dma} \<subseteq> frame_addrs {..<MAX_PAGES}" by auto
    note run = clear_structures_run [OF this, of h']
    let ?m = "wr_bytes (of_nat clb + 8) (le_bytes 8 (of_nat ct :: u64)) (zero_page (of_nat dma) (zero_page (of_nat ct)
       (zero_page (of_nat fb) (zero_page (of_nat clb) (ram (h_mm h'))))))"
    have hd: "rd64 ?m (of_nat clb + 8) = of_nat ct" unfolding wr64_def [symmetric] by (rule rd64_wr64_same)
    let ?h1 = "h'\<lparr>h_mm := (h_mm h')\<lparr>ram := ?m\<rparr>, h_ahci := fresh_structures (of_nat ct) (of_nat dma) (h_ahci h')\<rparr>"
    have "okS (start_port io p clb fb) ?h1 (\<lambda>_ h''. reg_step ident ?h1 h'')" by (rule start_port_ok) (use g regs in simp)
    then have "okS (start_port io p clb fb) ?h1 (\<lambda>_ h''. h_mm h'' = h_mm ?h1 \<and> h_ahci h'' = h_ahci ?h1)"
      by (rule okS_mono) (rule reg_step_mm)
    moreover have "port_set p h (h''\<lparr>h_ahci := (h_ahci h'')\<lparr>PORT := Some \<lparr>port = p, clb_phys = of_nat clb, ct_phys = of_nat ct, dma_phys = of_nat dma\<rparr>\<rparr>\<rparr>)"
      if "h_mm h'' = h_mm ?h1 \<and> h_ahci h'' = h_ahci ?h1" for h'' :: "('c, 'd) host"
      unfolding port_set_def
      by (intro exI [of "\<lambda>clb. \<exists>fb ct dma. _ clb fb ct dma" clb] exI [of "\<lambda>fb. \<exists>ct dma. _ fb ct dma" fb] exI [of "\<lambda>ct. \<exists>dma. _ ct dma" ct] exI [of _ dma])
        (use that g hd in \<open>simp add: fresh_structures_def port_ready_def\<close>)
    ultimately have "okS (bindS (start_port io p clb fb) (\<lambda>_. modS (\<lambda>h. h\<lparr>h_ahci := (h_ahci h)\<lparr>PORT := Some \<lparr>port = p, clb_phys = of_nat clb,
        ct_phys = of_nat ct, dma_phys = of_nat dma\<rparr>\<rparr>\<rparr>))) ?h1 (\<lambda>_ h''. port_set p h h'')"
      by (auto simp: okS_bind okS_mod elim!: okS_mono)
    then show ?thesis by (simp add: okS_def bindS_def [of "clear_structures _ _ _ _"] run)
  qed
  have "okS (bindS (alloc_ok_or ''OOM: CLB'') (\<lambda>clb. bindS (alloc_ok_or ''OOM: FB'') (\<lambda>fb. bindS (alloc_ok_or ''OOM: CT'') (\<lambda>ct.
     bindS (alloc_ok_or ''OOM: DMA'') (\<lambda>dma. bindS (clear_structures clb fb ct dma) (\<lambda>_. bindS (start_port io p clb fb) (\<lambda>_.
     modS (\<lambda>h. h\<lparr>h_ahci := (h_ahci h)\<lparr>PORT := Some \<lparr>port = p, clb_phys = of_nat clb, ct_phys = of_nat ct, dma_phys = of_nat dma\<rparr>\<rparr>\<rparr>)))))))) h1
     (\<lambda>_ h''. port_set p h h'')" if "got [] h1" for h1
    unfolding okS_bind [of "alloc_ok_or _"]
    by (rule okS_mono [OF alloc [OF that]], simp, rule okS_mono [OF alloc], simp, simp, rule okS_mono [OF alloc], simp, simp,
        rule okS_mono [OF alloc], simp, simp, rule rest, simp)
  then show ?thesis unfolding init_port_def okS_bind [of "stop_port _ _"] by (rule okS_mono [OF stop])
qed

lemma one_shl_test: "p < 32 \<Longrightarrow> w AND one_shl p = 0 \<longleftrightarrow> \<not> bit (w :: u32) p"
  unfolding one_shl_def using bit_iff_and_push_bit_not_eq_0 [of w p] by simp

lemma sata_at_cong:
  assumes "\<forall>a \<in> ident_regs A. f a = g a"
  shows "sata_at f A q = sata_at g A q"
proof -
  have "A + HBA_PI \<in> ident_regs A" "A + (HBA_PORT_BASE + q * HBA_PORT_SIZE + PX_SIG) \<in> ident_regs A"
    "A + (HBA_PORT_BASE + q * HBA_PORT_SIZE + PX_SSTS) \<in> ident_regs A" unfolding ident_regs_def by auto
  then show ?thesis using assms unfolding sata_at_def Let_def by metis
qed

lemma scan_ports_ok:
  fixes h :: "('c, 'd) host"
  assumes "hba_regs io ident A" and "pmm_inv (frames (h_mm h))" and "4 \<le> card (free_set (frames (h_mm h)))" and "ABAR_VIRT h = A"
    and "\<forall>a \<in> ident_regs A. ident a (h_ctl h) = regs a" and "\<forall>p \<in> set ps. p < 32" and "pi = regs (A + HBA_PI)"
  shows "case find (sata_at regs A) ps of
      Some p \<Rightarrow> okS (scan_ports io pi ps) h (\<lambda>_ h'. port_set (of_nat p) h h')
    | None \<Rightarrow> \<exists>h'. scan_ports io pi ps h = (Inl (Err ''No SATA drive attached''), h') \<and> h_mm h' = h_mm h \<and> h_ahci h' = h_ahci h"
  using assms
proof (induction ps arbitrary: h)
  case (Cons p ps)
  let ?off = "\<lambda>r. HBA_PORT_BASE + p * HBA_PORT_SIZE + r"
  have regs: "hba_regs io ident (ABAR_VIRT h)" using Cons.prems(1,4) by simp
  have p: "p < 32" "unat (of_nat p :: u8) = p" "\<forall>p \<in> set ps. p < 32" using Cons.prems(6) by (simp_all add: unat_of_nat)
  show ?case
  proof (cases "bit pi p")
    case False
    then have skip: "scan_ports io pi (p # ps) = scan_ports io pi ps" using p by (simp add: one_shl_test)
    have "\<not> sata_at regs A p" using False Cons.prems(7) by (simp add: sata_at_def)
    then show ?thesis unfolding skip using Cons.IH [OF Cons.prems(1-5) p(3) Cons.prems(7)] by simp
  next
    case True
    have i: "A + ?off PX_SIG \<in> ident_regs A" "A + ?off PX_SSTS \<in> ident_regs A" unfolding ident_regs_def by auto
    obtain h1 where h1: "port_read io (of_nat p) PX_SIG h = (Inr (regs (A + ?off PX_SIG)), h1)" "reg_step ident h h1"
      using mmio_read_ok [OF regs, of "?off PX_SIG"] i(1) Cons.prems(4,5) by (auto simp: port_read_def p elim!: okS_E)
    have r1: "hba_regs io ident (ABAR_VIRT h1)" "ABAR_VIRT h1 = A" using regs h1(2) Cons.prems(4) by (simp_all add: reg_step_abar)
    have i1: "ident (A + ?off PX_SSTS) (h_ctl h1) = regs (A + ?off PX_SSTS)" using h1(2) i(2) Cons.prems(4,5) by (simp add: reg_step_def)
    obtain h2 where h2: "port_read io (of_nat p) PX_SSTS h1 = (Inr (regs (A + ?off PX_SSTS)), h2)" "reg_step ident h1 h2"
      using mmio_read_ok [OF r1(1), of "?off PX_SSTS"] i(2) i1 r1(2) by (auto simp: port_read_def p elim!: okS_E)
    have s2: "reg_step ident h h2" by (rule reg_step_trans [OF h1(2) h2(2)])
    then have r2: "ABAR_VIRT h2 = A" "h_mm h2 = h_mm h" "h_ahci h2 = h_ahci h" using reg_step_abar reg_step_mm Cons.prems(4) by metis+
    have step: "scan_ports io pi (p # ps) h = (if sata_at regs A p then init_port io (of_nat p) h2 else scan_ports io pi ps h2)"
      using True p h1(1) h2(1) Cons.prems(7) by (simp add: bindS_def Let_def one_shl_test sata_at_def)
    have ps: "port_set p' h2 = port_set p' h" for p' using r2 unfolding port_set_def by (intro ext) simp
    show ?thesis
    proof (cases "sata_at regs A p")
      case True
      have "okS (init_port io (of_nat p)) h2 (\<lambda>_ h'. port_set (of_nat p) h2 h')"
        by (rule init_port_ok) (use regs r2 Cons.prems(2-4) in simp_all)
      then show ?thesis using True step ps by (simp add: okS_def)
    next
      case False
      have same: "\<forall>a \<in> ident_regs A. ident a (h_ctl h2) = regs a" using s2 Cons.prems(4,5) by (simp add: reg_step_def)
      have "pmm_inv (frames (h_mm h2))" "4 \<le> card (free_set (frames (h_mm h2)))" using r2 Cons.prems(2,3) by simp_all
      from Cons.IH [OF Cons.prems(1) this r2(1) same p(3) Cons.prems(7)] show ?thesis
        unfolding ps r2 okS_def step using False by simp
    qed
  qed
qed simp


text \<open>A machine with one controller, whose ports 0 and 2 are implemented and which has a drive on port 2.\<close>

definition demo_regs :: "usize \<Rightarrow> u32" where
  "demo_regs a = (if a = 0x100C then 5 else if a = 0x1000 + 0x100 + 2 * 0x80 + 0x24 then 0x101
     else if a = 0x1000 + 0x100 + 2 * 0x80 + 0x28 then 0x113 else 0)"

definition demo_io :: "unit mmio" where
  "demo_io = \<lparr>reg_read = (\<lambda>a c. (demo_regs a, c)), reg_write = (\<lambda>a v c. c)\<rparr>"

definition demo_sata :: PciDevice where
  "demo_sata = \<lparr>pci_bus = 0, pci_device = 31, pci_function = 2, vendor_id = 0x8086, device_id = 0x2922, pci_class = 1, pci_subclass = 6,
     prog_if = 1, header_type = 0\<rparr>"

definition off_ahci :: "unit ahci" where
  "off_ahci = \<lparr>PORT = None, header = \<lparr>flags = 0, prdtl = 0, prdbc = 0, ctba = 0, ctbau = 0\<rparr>,
     ctable = \<lparr>cfis = replicate 64 0, acmd = replicate 16 0, prdt = replicate 8 \<lparr>dba = 0, dbau = 0, dbc = 0\<rparr>\<rparr>,
     pages = (\<lambda>_. replicate 4096 0), media = ()\<rparr>"


end
