(* ===== verification/Loader.thy ===== *)
theory Loader
  imports AddressSpace Writer
begin

text \<open>
  The boot loader (rb-loader/src/main.rs and handoff.rs): the memory map it passes on, the files it loads, the page tables it builds
  for the higher half and the jump into the kernel. The firmware is a parameter: the descriptors of its memory map, the files
  of the boot volume and the pages it grants. The lines printed on the console of the firmware are left out.
\<close>

section \<open>The firmware\<close>

datatype MemoryType = CONVENTIONAL | LOADER_CODE | LOADER_DATA | OtherType u32

record MemoryDescriptor =
  md_ty :: MemoryType
  phys_start :: u64
  page_count :: u64

datatype FileType = Regular "u8 list" | Dir

datatype AllocateType = Address u64 | AnyPages

record firmware =
  fw_map :: "MemoryDescriptor list"
  fw_file :: "string \<Rightarrow> FileType option"
  allocate_pages :: "AllocateType \<Rightarrow> MemoryType \<Rightarrow> nat \<Rightarrow> u64 option"

section \<open>State\<close>

text \<open>Physical memory, which the firmware maps to itself, and the bytes of the frame buffer.\<close>

record loader =
  l_mm :: mm
  l_fb :: "nat \<Rightarrow> u8"

definition on_lmm :: "(mm, 'a) op \<Rightarrow> (loader, 'a) op" where
  "on_lmm m = (\<lambda>l. let (r, x) = m (l_mm l) in (r, l\<lparr>l_mm := x\<rparr>))"

record BootInfo =
  framebuffer_size :: usize
  screen_width :: usize
  screen_height :: usize
  memory_map :: "MemoryRegion list"
  ramdisk_addr :: u64
  ramdisk_size :: usize

section \<open>The memory map\<close>

definition MAX_REGIONS :: usize where "MAX_REGIONS = 128"

definition kind_of :: "MemoryType \<Rightarrow> MemoryKind" where
  "kind_of ty = (case ty of CONVENTIONAL \<Rightarrow> Usable | LOADER_CODE \<Rightarrow> Used | LOADER_DATA \<Rightarrow> Used | _ \<Rightarrow> Reserved)"

definition mul64 :: "u64 \<Rightarrow> u64 \<Rightarrow> u64 res" where
  "mul64 a b = (if unat a * unat b < 2 ^ 64 then Inr (a * b) else Inl (Panic ''attempt to multiply with overflow''))"

text \<open>The loop over the descriptors; \<open>count\<close> regions are stored so far.\<close>

primrec capture_map :: "usize \<Rightarrow> MemoryDescriptor list \<Rightarrow> MemoryRegion list res" where
  "capture_map count [] = Inr []"
| "capture_map count (desc # descs) =
     (if MAX_REGIONS \<le> count then Inr []
      else bindR (mul64 (page_count desc) 4096) (\<lambda>size.
        bindR (capture_map (count + 1) descs) (\<lambda>regions.
        Inr (\<lparr>mr_base = phys_start desc, mr_size = size, mr_kind = kind_of (md_ty desc)\<rparr> # regions))))"

section \<open>Drawing\<close>

definition put_byte :: "nat \<Rightarrow> u8 \<Rightarrow> (loader, unit) op" where
  "put_byte i b = modS (\<lambda>l. l\<lparr>l_fb := (l_fb l)(i := b)\<rparr>)"

definition draw_glyph :: "usize \<Rightarrow> usize \<Rightarrow> usize \<Rightarrow> nat \<Rightarrow> (loader, unit) op" where
  "draw_glyph width x y c =
     (let glyph = FONT_BASIC ! c in
      forS [0 ..< 8] (\<lambda>gy.
        let row = glyph ! gy in
        forS [0 ..< 8] (\<lambda>gx.
          if drop_bit (7 - gx) row AND 1 = 1 then
            (let offset = ((y + gy) * width + (x + gx)) * 4 in
             bindS (put_byte offset 255) (\<lambda>_. bindS (put_byte (offset + 1) 255) (\<lambda>_. put_byte (offset + 2) 255)))
          else retS ())))"

text \<open>The characters of the text are code points.\<close>

primrec draw_string :: "usize \<Rightarrow> usize \<Rightarrow> usize \<Rightarrow> nat list \<Rightarrow> (loader, unit) op" where
  "draw_string width x y [] = retS ()"
| "draw_string width x y (c # cs) =
     (if c < 128 then bindS (draw_glyph width x y c) (\<lambda>_. draw_string width (x + 10) y cs)
      else draw_string width x y cs)"

definition fill_screen :: "usize \<Rightarrow> usize \<Rightarrow> (loader, unit) op" where
  "fill_screen width height = forS [0 ..< width * height] (\<lambda>i.
     modS (\<lambda>l. l\<lparr>l_fb := (l_fb l)(4 * i := 0x00, 4 * i + 1 := 0x00, 4 * i + 2 := 0x80, 4 * i + 3 := 0x00)\<rparr>))"

section \<open>Files\<close>

definition load_kernel_file :: "firmware \<Rightarrow> (loader, u64) op" where
  "load_kernel_file fw =
     (case fw_file fw ''kernel.elf'' of
        None \<Rightarrow> throwS (Panic ''Kernel not found'')
      | Some Dir \<Rightarrow> throwS (Panic ''Not a regular file'')
      | Some (Regular contents) \<Rightarrow>
          let pages = (length contents + 4095) div 4096 in
          bindS (case allocate_pages fw (Address 0x200000) LOADER_CODE pages of
                   Some a \<Rightarrow> retS a
                 | None \<Rightarrow> (case allocate_pages fw AnyPages LOADER_CODE pages of
                     Some a \<Rightarrow> retS a
                   | None \<Rightarrow> throwS (Panic ''called `Result::unwrap()` on an `Err` value''))) (\<lambda>addr.
          bindS (on_lmm (modS (\<lambda>st. st\<lparr>ram := wr_bytes addr contents (ram st)\<rparr>))) (\<lambda>_. retS addr)))"

definition load_ramdisk_file :: "firmware \<Rightarrow> (loader, u64 \<times> usize) op" where
  "load_ramdisk_file fw =
     (case fw_file fw ''initrd.tar'' of
        None \<Rightarrow> retS (0, 0)
      | Some Dir \<Rightarrow> retS (0, 0)
      | Some (Regular contents) \<Rightarrow>
          let pages = (length contents + 4095) div 4096 in
          (case allocate_pages fw AnyPages LOADER_DATA pages of
             None \<Rightarrow> retS (0, 0)
           | Some addr \<Rightarrow>
               bindS (on_lmm (modS (\<lambda>st. st\<lparr>ram := wr_bytes addr contents (ram st)\<rparr>))) (\<lambda>_.
               retS (addr, length contents))))"

section \<open>The higher half\<close>

text \<open>The physical addresses of the three static tables of the loader.\<close>

record loader_tables =
  lt_PML4 :: u64
  lt_PDPT :: u64
  lt_PD :: u64

text \<open>The result is the value loaded into cr3.\<close>

definition map_higher_half :: "loader_tables \<Rightarrow> u64 \<Rightarrow> (mm, u64) op" where
  "map_higher_half lt cr3 =
     (let old_pml4 = cr3 AND NOT 0xFFF in
      bindS (entry old_pml4 0) (\<lambda>e.
      bindS (set_entry (lt_PML4 lt) 0 e) (\<lambda>_.
      bindS (set_entry (lt_PML4 lt) 511 (lt_PDPT lt OR 0x3)) (\<lambda>_.
      bindS (set_entry (lt_PDPT lt) 510 (lt_PD lt OR 0x3)) (\<lambda>_.
      bindS (forS [0 ..< 512] (\<lambda>i. set_entry (lt_PD lt) (of_nat i) (of_nat i * 0x200000 OR 0x3 OR 0x80))) (\<lambda>_.
      retS (lt_PML4 lt)))))))"

section \<open>The loader\<close>

definition KERNEL_ENTRY :: u64 where "KERNEL_ENTRY = 0xFFFFFFFF80200000"

definition ACTIVE_TEXT :: "nat list" where "ACTIVE_TEXT = map of_char ''ROSS Loader Active''"

definition JUMP_TEXT :: "nat list" where "JUMP_TEXT = map of_char ''Jumping to Kernel...''"

text \<open>What the kernel is entered with: the boot information, cr3 and the address of the first instruction.\<close>

definition loader_main :: "firmware \<Rightarrow> loader_tables \<Rightarrow> u64 \<Rightarrow> usize \<Rightarrow> usize \<Rightarrow> (loader, BootInfo \<times> u64 \<times> u64) op" where
  "loader_main fw lt cr3 width height =
     bindS (liftS (capture_map 0 (fw_map fw))) (\<lambda>regions.
     bindS (fill_screen width height) (\<lambda>_.
     bindS (draw_string width 50 50 ACTIVE_TEXT) (\<lambda>_.
     bindS (load_kernel_file fw) (\<lambda>kernel_ptr.
     bindS (load_ramdisk_file fw) (\<lambda>(rd_ptr, rd_size).
     bindS (draw_string width 50 100 JUMP_TEXT) (\<lambda>_.
     let info = \<lparr>framebuffer_size = width * height * 4, screen_width = width, screen_height = height, memory_map = regions,
       ramdisk_addr = rd_ptr, ramdisk_size = rd_size\<rparr> in
     bindS (on_lmm (map_higher_half lt cr3)) (\<lambda>new_cr3.
     retS (info, new_cr3, KERNEL_ENTRY))))))))"

section \<open>The tables of the loader\<close>

definition lt_list :: "loader_tables \<Rightarrow> u64 list" where
  "lt_list lt = [lt_PML4 lt, lt_PDPT lt, lt_PD lt]"

definition lt_ok :: "loader_tables \<Rightarrow> bool" where
  "lt_ok lt \<longleftrightarrow> distinct (lt_list lt) \<and> (\<forall>t \<in> set (lt_list lt). page_aligned t \<and> t < 0x80000000)"

lemma high_address:
  assumes p: "p < 0x40000000"
  shows "vidx 39 (KERNEL_VMA_BASE + p) = 511" "vidx 30 (KERNEL_VMA_BASE + p) = 510"
    "hw_base 21 (large_entry 0 (vidx 21 (KERNEL_VMA_BASE + p)) 0x83) OR take_bit 21 (KERNEL_VMA_BASE + p) = p"
proof -
  let ?v = "KERNEL_VMA_BASE + p"
  have pb: "bit p n \<Longrightarrow> n < 30" for n using p by (intro bit_bound [of p 30 n]) (simp_all add: word_less_nat_alt)
  have K: "KERNEL_VMA_BASE = NOT (mask 31)" by (simp add: KERNEL_VMA_BASE_def mask_eq_exp_minus_1)
  have "NOT (mask 31) AND p = 0" by (rule bit_word_eqI) (auto simp: bit_simps dest: pb)
  then have "?v = NOT (mask 31) OR p" unfolding K by (rule disjunctive_add_eq_or)
  then have vb: "bit ?v n \<longleftrightarrow> n < 64 \<and> (31 \<le> n \<or> bit p n)" for n by (auto simp: bit_simps dest: pb)
  have m9: "(511 :: u64) = mask 9" "(510 :: u64) = mask 9 AND NOT 1" by (simp_all add: mask_eq_exp_minus_1)
  show "vidx 39 ?v = 511" unfolding m9 by (rule bit_word_eqI) (auto simp: bit_vidx vb bit_simps)
  show "vidx 30 ?v = 510"
  proof (rule bit_word_eqI)
    fix n show "bit (vidx 30 ?v) n = bit (510 :: u64) n"
      unfolding m9 by (cases n) (auto simp: bit_vidx vb bit_simps dest: pb)
  qed
  have m: "bit (0x83 :: u64) n \<Longrightarrow> n < 8" for n by (rule bit_bound [of "0x83 :: u64" 8]) simp_all
  show "hw_base 21 (large_entry 0 (vidx 21 ?v) 0x83) OR take_bit 21 ?v = p"
    by (rule bit_word_eqI) (auto simp: hw_base_def large_entry_def bit_simps bit_vidx vb dest: pb m)
qed

lemma map_higher_half_mem:
  assumes lt: "lt_ok lt"
  obtains m' where "map_higher_half lt cr3 st = (Inr (lt_PML4 lt), st\<lparr>ram := m'\<rparr>)"
    and "rd64 m' (ent (lt_PML4 lt) 0) = rd64 (ram st) (ent (page_base cr3) 0)"
    and "rd64 m' (ent (lt_PML4 lt) 511) = lt_PDPT lt OR 3" and "rd64 m' (ent (lt_PDPT lt) 510) = lt_PD lt OR 3"
    and "\<And>j. j < 512 \<Longrightarrow> rd64 m' (ent (lt_PD lt) j) = large_entry 0 j 0x83"
    and "touched_only (set (lt_list lt)) (ram st) m'"
proof -
  let ?P = "lt_PML4 lt" and ?T = "lt_PDPT lt" and ?D = "lt_PD lt"
  have al: "page_aligned ?P" "page_aligned ?T" "page_aligned ?D" and ne: "?P \<noteq> ?T" "?P \<noteq> ?D" "?T \<noteq> ?D"
    using lt by (auto simp: lt_ok_def lt_list_def)
  let ?e = "rd64 (ram st) (ent (page_base cr3) 0)"
  define m1 where "m1 = wr64 (ent ?T 510) (?D OR 3) (wr64 (ent ?P 511) (?T OR 3) (wr64 (ent ?P 0) ?e (ram st)))"
  let ?f = "\<lambda>i. of_nat i * 0x200000 OR 0x3 OR 0x80 :: u64"
  obtain m' where run: "forS [0 ..< 512] (\<lambda>i. if False then retS () else set_entry ?D (of_nat i) (?f i)) (st\<lparr>ram := m1\<rparr>) = (Inr (), st\<lparr>ram := m'\<rparr>)"
    and rd: "\<And>t j. page_aligned t \<Longrightarrow> j < 512 \<Longrightarrow> rd64 m' (ent t j) =
       (if t = ?D \<and> unat j \<in> set [0 ..< 512] \<and> \<not> False then ?f (unat j) else rd64 m1 (ent t j))"
    and touch: "touched_only {?D} m1 m'"
    by (rule forS_entries [of ?D "[0 ..< 512]" "\<lambda>_. False" ?f "st\<lparr>ram := m1\<rparr>"]) (use al in auto)
  have f: "?f (unat j) = large_entry 0 j 0x83" "unat j \<in> set [0 ..< 512]" if "j < 512" for j
    using that large_base2 [OF that, of 0] by (simp_all add: large_entry_def or.assoc word_less_nat_alt)
  show thesis
  proof (rule that [of m'])
    show "map_higher_half lt cr3 st = (Inr ?P, st\<lparr>ram := m'\<rparr>)"
      using run by (simp add: map_higher_half_def bindS_run bindS_def Let_def m1_def entry_def set_entry_def page_base_def del: upt.simps upt_Suc)
    show "rd64 m' (ent ?P 0) = ?e" "rd64 m' (ent ?P 511) = ?T OR 3" "rd64 m' (ent ?T 510) = ?D OR 3"
      using rd al ne by (simp_all add: m1_def rd64_wr64_ent)
    show "rd64 m' (ent ?D j) = large_entry 0 j 0x83" if "j < 512" for j using rd [OF al(3) that] f [OF that] by simp
    show "touched_only (set (lt_list lt)) (ram st) m'"
      using touch wr64_frame al by (auto simp: touched_only_def m1_def lt_list_def)
  qed
qed

lemma higher_half_walk:
  assumes lt: "lt_ok lt" and "rd64 m (ent (lt_PML4 lt) 511) = lt_PDPT lt OR 3" and "rd64 m (ent (lt_PDPT lt) 510) = lt_PD lt OR 3"
    and "\<And>j. j < 512 \<Longrightarrow> rd64 m (ent (lt_PD lt) j) = large_entry 0 j 0x83" and p: "p < 0x40000000"
  shows "walk m (lt_PML4 lt) (KERNEL_VMA_BASE + p) = Some (p, True, False)"
proof -
  note ha = high_address [OF p]
  have hw: "hw_base 12 (t OR 3) = t" "bit (t OR 3) 0" "bit (t OR 3) 1" "\<not> bit (t OR 3) 2" "\<not> bit (t OR 3) 7"
    if "t \<in> set (lt_list lt)" for t
  proof -
    have t: "page_aligned t" "t < 0x80000000" using lt that by (auto simp: lt_ok_def)
    then have "page_base (t OR 3) = t" by (intro page_base_or) simp_all
    then show "hw_base 12 (t OR 3) = t" using t by (subst hw_base_eq) (simp_all add: word_less_nat_alt)
    have "(3 :: u64) = mask 2" by (simp add: mask_eq_exp_minus_1)
    then show "bit (t OR 3) 0" "bit (t OR 3) 1" "\<not> bit (t OR 3) 2" "\<not> bit (t OR 3) 7"
      using aligned_bit [OF t(1)] by (simp_all only: bit_simps) simp_all
  qed
  have T: "lt_PDPT lt \<in> set (lt_list lt)" "lt_PD lt \<in> set (lt_list lt)" by (simp_all add: lt_list_def)
  have e2: "rd64 m (ent (lt_PD lt) (vidx 21 (KERNEL_VMA_BASE + p))) = large_entry 0 (vidx 21 (KERNEL_VMA_BASE + p)) 0x83"
    by (rule assms(4)) simp
  show ?thesis
    unfolding walk_def Let_def ha(1,2) assms(2,3) hw(1) [OF T(1)] hw(1) [OF T(2)] e2
    using hw(2-) [OF T(1)] hw(2-) [OF T(2)] ha(3) by (simp add: large_entry_flags)
qed

text \<open>
  Below 512 GiB the new tables translate as those of the firmware did: entry 0 is shared, and the tables behind it
  lie outside the loader's.
\<close>

definition leads :: "u64 \<Rightarrow> bool" where
  "leads e \<longleftrightarrow> bit e 0 \<and> \<not> bit e 7"

definition low_apart :: "mem \<Rightarrow> u64 \<Rightarrow> u64 set \<Rightarrow> bool" where
  "low_apart m e4 T \<longleftrightarrow> hw_base 12 e4 \<notin> T \<and>
     (\<forall>i < 512. let e3 = rd64 m (ent (hw_base 12 e4) i) in leads e3 \<longrightarrow> hw_base 12 e3 \<notin> T \<and>
       (\<forall>j < 512. let e2 = rd64 m (ent (hw_base 12 e3) j) in leads e2 \<longrightarrow> hw_base 12 e2 \<notin> T))"

lemma hw_base_aligned: "page_aligned (hw_base 12 e)"
  unfolding aligned_def hw_base_def by (rule bit_word_eqI) (auto simp: bit_simps)

lemma map_higher_half_low:
  assumes lt: "lt_ok lt" and ap: "low_apart (ram st) (rd64 (ram st) (ent (page_base cr3) 0)) (set (lt_list lt))"
  obtains st' where "map_higher_half lt cr3 st = (Inr (lt_PML4 lt), st')"
    and "\<And>v. vidx 39 v = 0 \<Longrightarrow> walk (ram st') (lt_PML4 lt) v = walk (ram st) (page_base cr3) v"
proof -
  obtain m' where run: "map_higher_half lt cr3 st = (Inr (lt_PML4 lt), st\<lparr>ram := m'\<rparr>)"
    and e: "rd64 m' (ent (lt_PML4 lt) 0) = rd64 (ram st) (ent (page_base cr3) 0)"
    and touch: "touched_only (set (lt_list lt)) (ram st) m'"
    by (rule map_higher_half_mem [OF lt, of cr3 st]) blast
  note rt = rd64_touched [OF touch _ hw_base_aligned vidx_bound]
  have "walk m' (lt_PML4 lt) v = walk (ram st) (page_base cr3) v" if v: "vidx 39 v = 0" for v
  proof -
    let ?e4 = "rd64 (ram st) (ent (page_base cr3) 0)"
    let ?e3 = "rd64 (ram st) (ent (hw_base 12 ?e4) (vidx 30 v))"
    let ?e2 = "rd64 (ram st) (ent (hw_base 12 ?e3) (vidx 21 v))"
    have 3: "rd64 m' (ent (hw_base 12 ?e4) (vidx 30 v)) = ?e3" by (rule rt) (use ap in \<open>simp add: low_apart_def\<close>)
    have 2: "rd64 m' (ent (hw_base 12 ?e3) (vidx 21 v)) = ?e2" if "leads ?e3"
      by (rule rt) (use ap that in \<open>simp add: low_apart_def Let_def\<close>)
    have 1: "rd64 m' (ent (hw_base 12 ?e2) (vidx 12 v)) = rd64 (ram st) (ent (hw_base 12 ?e2) (vidx 12 v))" if "leads ?e3" "leads ?e2"
      by (rule rt) (use ap that in \<open>simp add: low_apart_def Let_def\<close>)
    show ?thesis unfolding walk_def v e Let_def 3 using 1 2 by (simp add: leads_def)
  qed
  then show thesis using that [of "st\<lparr>ram := m'\<rparr>"] run by simp
qed

section \<open>Drawing and memory\<close>

text \<open>Drawing always ends and changes nothing but the frame buffer.\<close>

definition draws :: "(loader, unit) op \<Rightarrow> bool" where
  "draws m \<longleftrightarrow> (\<forall>l. \<exists>fb. m l = (Inr (), l\<lparr>l_fb := fb\<rparr>))"

lemma draws_bind: "draws m \<Longrightarrow> draws m' \<Longrightarrow> draws (bindS m (\<lambda>_. m'))"
proof -
  assume d: "draws m" "draws m'"
  have "\<exists>fb. bindS m (\<lambda>_. m') l = (Inr (), l\<lparr>l_fb := fb\<rparr>)" for l
  proof -
    obtain fb where "m l = (Inr (), l\<lparr>l_fb := fb\<rparr>)" using d(1) unfolding draws_def by blast
    moreover obtain fb' where "m' (l\<lparr>l_fb := fb\<rparr>) = (Inr (), l\<lparr>l_fb := fb, l_fb := fb'\<rparr>)" using d(2) unfolding draws_def by blast
    ultimately show ?thesis by (auto simp: bindS_def)
  qed
  then show ?thesis by (simp add: draws_def)
qed

lemma draws_ret: "draws (retS ())"
  unfolding draws_def by (metis loader.surjective loader.update_convs(2) op_simps(1))

lemma draws_mod: "draws (modS (\<lambda>l. l\<lparr>l_fb := f l\<rparr>))"
  by (auto simp: draws_def)

lemma draws_forS: "(\<And>x. draws (f x)) \<Longrightarrow> draws (forS xs f)"
  by (induction xs) (simp_all add: draws_ret draws_bind)

lemma draws_screen: "draws (fill_screen width height)"
  unfolding fill_screen_def by (intro draws_forS draws_mod)

lemma draws_string: "draws (draw_string width x y cs)"
proof (induction cs arbitrary: x)
  case (Cons c cs)
  have "draws (draw_glyph width x y c)"
    unfolding draw_glyph_def Let_def by (intro draws_forS) (simp add: draws_ret draws_bind draws_mod put_byte_def)
  then show ?case using Cons.IH by (simp add: draws_bind)
qed (simp add: draws_ret)

definition region_of :: "MemoryDescriptor \<Rightarrow> MemoryRegion" where
  "region_of d = \<lparr>mr_base = phys_start d, mr_size = page_count d * 4096, mr_kind = kind_of (md_ty d)\<rparr>"

lemma capture_map_regions:
  assumes "\<forall>d \<in> set descs. unat (page_count d) * 4096 < 2 ^ 64"
  shows "capture_map count descs = Inr (map region_of (take (MAX_REGIONS - count) descs))"
  using assms
proof (induction descs arbitrary: count)
  case (Cons d descs)
  show ?case
  proof (cases "MAX_REGIONS \<le> count")
    case False
    then have "MAX_REGIONS - count = Suc (MAX_REGIONS - Suc count)" by simp
    then show ?thesis using False Cons by (simp add: mul64_def region_of_def)
  qed simp
qed simp

lemma touched_apart:
  fixes a x :: u64
  assumes "touched_only (set (lt_list lt)) m m'" and "lt_ok lt" and "\<forall>t \<in> set (lt_list lt). apart (unat t, 4096) (unat a, n)"
    and "unat a \<le> unat x" and "unat x < unat a + n"
  shows "m' x = m x"
proof -
  have "page_base x \<noteq> t" if t: "t \<in> set (lt_list lt)" for t
  proof
    assume e: "page_base x = t"
    have al: "page_aligned t" "t < 0x80000000" using assms(2) t by (auto simp: lt_ok_def)
    have "unat (x - t) < 4096" using in_frame [OF al(1)] e by simp
    moreover have "t + (x - t) = x" by simp
    ultimately have "unat x = unat t + unat (x - t)"
      using al(2) unat_add_lem [of t "x - t"] by (simp add: word_less_nat_alt)
    then show False using \<open>unat (x - t) < 4096\<close> assms(3-5) t by (fastforce simp: apart_def)
  qed
  then show ?thesis using assms(1) by (auto simp: touched_only_def)
qed

section \<open>The hand-over\<close>

lemma loader_run:
  assumes lt: "lt_ok lt"
    and k: "fw_file fw ''kernel.elf'' = Some (Regular kimg)"
      "allocate_pages fw (Address 0x200000) LOADER_CODE ((length kimg + 4095) div 4096) = Some 0x200000"
    and r: "fw_file fw ''initrd.tar'' = Some (Regular rimg)"
      "allocate_pages fw AnyPages LOADER_DATA ((length rimg + 4095) div 4096) = Some rd"
    and d: "\<forall>d \<in> set (fw_map fw). unat (page_count d) * 4096 < 2 ^ 64"
  obtains m' fb where "loader_main fw lt cr3 width height l =
      (Inr (\<lparr>framebuffer_size = width * height * 4, screen_width = width, screen_height = height, memory_map = map region_of (take 128 (fw_map fw)),
        ramdisk_addr = rd, ramdisk_size = length rimg\<rparr>, lt_PML4 lt, KERNEL_ENTRY), l\<lparr>l_mm := (l_mm l)\<lparr>ram := m'\<rparr>, l_fb := fb\<rparr>)"
    and "rd64 m' (ent (lt_PML4 lt) 511) = lt_PDPT lt OR 3" "rd64 m' (ent (lt_PDPT lt) 510) = lt_PD lt OR 3"
      "\<And>j. j < 512 \<Longrightarrow> rd64 m' (ent (lt_PD lt) j) = large_entry 0 j 0x83"
    and "touched_only (set (lt_list lt)) (wr_bytes rd rimg (wr_bytes 0x200000 kimg (ram (l_mm l)))) m'"
proof -
  have ds: "\<exists>fb'. draw_string width x y cs l = (Inr (), l\<lparr>l_fb := fb'\<rparr>)" for x y cs l using draws_string unfolding draws_def by blast
  let ?m2 = "wr_bytes rd rimg (wr_bytes 0x200000 kimg (ram (l_mm l)))"
  have swap: "l\<lparr>l_fb := fb, l_mm := st\<rparr> = l\<lparr>l_mm := st, l_fb := fb\<rparr>" for fb st by simp
  let ?l = "\<lambda>m fb. l\<lparr>l_mm := (l_mm l)\<lparr>ram := m\<rparr>, l_fb := fb\<rparr>"
  obtain fb1 where d1: "fill_screen width height l = (Inr (), l\<lparr>l_fb := fb1\<rparr>)" using draws_screen unfolding draws_def by blast
  obtain fb2 where d2: "draw_string width 50 50 ACTIVE_TEXT (l\<lparr>l_fb := fb1\<rparr>) = (Inr (), l\<lparr>l_fb := fb2\<rparr>)"
    using ds [of 50 50 ACTIVE_TEXT "l\<lparr>l_fb := fb1\<rparr>"] by auto
  obtain fb3 where d3: "draw_string width 50 100 JUMP_TEXT (?l ?m2 fb2) = (Inr (), ?l ?m2 fb3)"
    using ds [of 50 100 JUMP_TEXT "?l ?m2 fb2"] by auto
  obtain m' where hh: "map_higher_half lt cr3 ((l_mm l)\<lparr>ram := ?m2\<rparr>) = (Inr (lt_PML4 lt), (l_mm l)\<lparr>ram := m'\<rparr>)"
    and t: "rd64 m' (ent (lt_PML4 lt) 511) = lt_PDPT lt OR 3" "rd64 m' (ent (lt_PDPT lt) 510) = lt_PD lt OR 3"
      "\<And>j. j < 512 \<Longrightarrow> rd64 m' (ent (lt_PD lt) j) = large_entry 0 j 0x83" and touch: "touched_only (set (lt_list lt)) ?m2 m'"
    by (rule map_higher_half_mem [OF lt, of cr3 "(l_mm l)\<lparr>ram := ?m2\<rparr>"]) auto
  show thesis
  proof (rule that [OF _ t touch])
    show "loader_main fw lt cr3 width height l = (Inr (\<lparr>framebuffer_size = width * height * 4, screen_width = width, screen_height = height,
        memory_map = map region_of (take 128 (fw_map fw)), ramdisk_addr = rd, ramdisk_size = length rimg\<rparr>, lt_PML4 lt, KERNEL_ENTRY), ?l m' fb3)"
      unfolding loader_main_def capture_map_regions [OF d, of 0] load_kernel_file_def load_ramdisk_file_def
      using d3 by (simp add: bindS_def d1 d2 hh k r Let_def on_lmm_def MAX_REGIONS_def swap)
  qed
qed

text \<open>
  \<^bold>\<open>C18.\<close> When the firmware grants the pages at 2 MiB for the kernel and some pages for the ram disk, none of them shared with each other
  or with the tables of the loader, the loader reaches the jump with the boot information and its own tables in cr3, and the kernel finds what it was linked for:
  through these tables, every byte of the higher-half image from the entry point on is the byte of the kernel file, and the ram disk the boot information names
  is the file of the volume. The map passed on has the first 128 descriptors of the firmware, with the conventional memory marked usable.
\<close>

theorem loader_handoff:
  assumes lt: "lt_ok lt"
    and k: "fw_file fw ''kernel.elf'' = Some (Regular kimg)" "length kimg \<le> 0x3FE00000"
      "allocate_pages fw (Address 0x200000) LOADER_CODE ((length kimg + 4095) div 4096) = Some 0x200000"
    and r: "fw_file fw ''initrd.tar'' = Some (Regular rimg)" "unat rd + length rimg \<le> 2 ^ 64"
      "allocate_pages fw AnyPages LOADER_DATA ((length rimg + 4095) div 4096) = Some rd"
    and ap: "apart (0x200000, length kimg) (unat rd, length rimg)"
      "\<forall>t \<in> set (lt_list lt). apart (unat t, 4096) (0x200000, length kimg) \<and> apart (unat t, 4096) (unat rd, length rimg)"
    and d: "\<forall>d \<in> set (fw_map fw). unat (page_count d) * 4096 < 2 ^ 64"
  shows "\<exists>info l'. loader_main fw lt cr3 width height l = (Inr (info, lt_PML4 lt, KERNEL_ENTRY), l') \<and>
    (\<forall>i < length kimg. \<exists>p. walk (ram (l_mm l')) (lt_PML4 lt) (KERNEL_ENTRY + of_nat i) = Some (p, True, False) \<and> ram (l_mm l') p = kimg ! i) \<and>
    ramdisk_addr info = rd \<and> ramdisk_size info = length rimg \<and> (\<forall>i < length rimg. ram (l_mm l') (rd + of_nat i) = rimg ! i) \<and>
    screen_width info = width \<and> screen_height info = height \<and>
    memory_map info = map region_of (take 128 (fw_map fw))"
proof -
  let ?m1 = "wr_bytes 0x200000 kimg (ram (l_mm l))"
  let ?m2 = "wr_bytes rd rimg ?m1"
  obtain m' fb where run: "loader_main fw lt cr3 width height l =
      (Inr (\<lparr>framebuffer_size = width * height * 4, screen_width = width, screen_height = height, memory_map = map region_of (take 128 (fw_map fw)),
        ramdisk_addr = rd, ramdisk_size = length rimg\<rparr>, lt_PML4 lt, KERNEL_ENTRY), l\<lparr>l_mm := (l_mm l)\<lparr>ram := m'\<rparr>, l_fb := fb\<rparr>)"
    and t: "rd64 m' (ent (lt_PML4 lt) 511) = lt_PDPT lt OR 3" "rd64 m' (ent (lt_PDPT lt) 510) = lt_PD lt OR 3"
      "\<And>j. j < 512 \<Longrightarrow> rd64 m' (ent (lt_PD lt) j) = large_entry 0 j 0x83" and touch: "touched_only (set (lt_list lt)) ?m2 m'"
    using loader_run [OF lt k(1,3) r(1,3) d, of cr3 width height l] by blast
  have kb: "walk m' (lt_PML4 lt) (KERNEL_ENTRY + of_nat i) = Some (0x200000 + of_nat i, True, False) \<and> m' (0x200000 + of_nat i) = kimg ! i"
    if i: "i < length kimg" for i
  proof -
    have u: "unat (0x200000 + of_nat i :: u64) = 0x200000 + i" using i k(2) by (simp add: unat_word_ariths unat_of_nat)
    have "m' (0x200000 + of_nat i) = ?m2 (0x200000 + of_nat i)"
      by (rule touched_apart [OF touch lt, of "0x200000" "length kimg"]) (use ap i u in auto)
    also have "\<dots> = ?m1 (0x200000 + of_nat i)" by (rule wr_bytes_apart) (use ap(1) r(2) i u in \<open>auto simp: apart_def\<close>)
    also have "\<dots> = kimg ! i" by (rule wr_bytes_at) (use i k(2) in auto)
    finally have "m' (0x200000 + of_nat i) = kimg ! i" .
    moreover have "walk m' (lt_PML4 lt) (KERNEL_VMA_BASE + (0x200000 + of_nat i)) = Some (0x200000 + of_nat i, True, False)"
      by (rule higher_half_walk [OF lt t]) (use i k(2) u in \<open>auto simp: word_less_nat_alt\<close>)
    moreover have "KERNEL_ENTRY + of_nat i = KERNEL_VMA_BASE + (0x200000 + of_nat i)" by (simp add: KERNEL_ENTRY_def KERNEL_VMA_BASE_def)
    ultimately show ?thesis by (simp only:)
  qed
  have rb: "m' (rd + of_nat i) = rimg ! i" if i: "i < length rimg" for i
  proof -
    have u: "unat (rd + of_nat i) = unat rd + i" using i r(2) by (simp add: unat_word_ariths unat_of_nat)
    have "m' (rd + of_nat i) = ?m2 (rd + of_nat i)"
      by (rule touched_apart [OF touch lt, of rd "length rimg"]) (use ap i u in auto)
    also have "\<dots> = rimg ! i" by (rule wr_bytes_at) (use i r(2) in auto)
    finally show ?thesis .
  qed
  show ?thesis unfolding run using kb rb by auto
qed

text \<open>A machine with 256 MiB of conventional memory, a kernel of three bytes and a ram disk of two.\<close>

definition demo_fw :: firmware where
  "demo_fw = \<lparr>fw_map = [\<lparr>md_ty = CONVENTIONAL, phys_start = 0, page_count = 0x10000\<rparr>],
     fw_file = (\<lambda>name. if name = ''kernel.elf'' then Some (Regular [0xFA, 0x90, 0xF4]) else if name = ''initrd.tar'' then Some (Regular [0x41, 0x42]) else None),
     allocate_pages = (\<lambda>a ty n. case a of Address x \<Rightarrow> Some x | AnyPages \<Rightarrow> Some 0x800000)\<rparr>"

definition demo_lt :: loader_tables where
  "demo_lt = \<lparr>lt_PML4 = 0x1000000, lt_PDPT = 0x1001000, lt_PD = 0x1002000\<rparr>"

theorem loader_handoff_witness:
  "\<exists>info l'. loader_main demo_fw demo_lt 0 640 480 \<lparr>l_mm = demo_mm, l_fb = (\<lambda>_. 0)\<rparr> = (Inr (info, 0x1000000, KERNEL_ENTRY), l') \<and>
     (\<exists>p. walk (ram (l_mm l')) 0x1000000 (KERNEL_ENTRY + 2) = Some (p, True, False) \<and> ram (l_mm l') p = 0xF4) \<and> ram (l_mm l') (ramdisk_addr info) = 0x41"
proof -
  have lt: "lt_ok demo_lt" by (simp add: lt_ok_def lt_list_def demo_lt_def aligned_def)
  have k: "fw_file demo_fw ''kernel.elf'' = Some (Regular [0xFA, 0x90, 0xF4])" "length [0xFA, 0x90, 0xF4 :: u8] \<le> 0x3FE00000"
    "allocate_pages demo_fw (Address 0x200000) LOADER_CODE ((length [0xFA, 0x90, 0xF4 :: u8] + 4095) div 4096) = Some 0x200000"
    by (simp_all add: demo_fw_def)
  have r: "fw_file demo_fw ''initrd.tar'' = Some (Regular [0x41, 0x42])" "unat (0x800000 :: u64) + length [0x41, 0x42 :: u8] \<le> 2 ^ 64"
    "allocate_pages demo_fw AnyPages LOADER_DATA ((length [0x41, 0x42 :: u8] + 4095) div 4096) = Some 0x800000"
    by (simp_all add: demo_fw_def)
  have ap: "apart (0x200000, length [0xFA, 0x90, 0xF4 :: u8]) (unat (0x800000 :: u64), length [0x41, 0x42 :: u8])"
    "\<forall>t \<in> set (lt_list demo_lt). apart (unat t, 4096) (0x200000, length [0xFA, 0x90, 0xF4 :: u8]) \<and> apart (unat t, 4096) (unat (0x800000 :: u64), length [0x41, 0x42 :: u8])"
    by (simp_all add: apart_def lt_list_def demo_lt_def)
  have d: "\<forall>d \<in> set (fw_map demo_fw). unat (page_count d) * 4096 < 2 ^ 64" by (simp add: demo_fw_def)
  obtain info l' where "loader_main demo_fw demo_lt 0 640 480 \<lparr>l_mm = demo_mm, l_fb = (\<lambda>_. 0)\<rparr> = (Inr (info, lt_PML4 demo_lt, KERNEL_ENTRY), l')"
    and kb: "\<forall>i < length [0xFA, 0x90, 0xF4 :: u8]. \<exists>p. walk (ram (l_mm l')) (lt_PML4 demo_lt) (KERNEL_ENTRY + of_nat i) = Some (p, True, False) \<and>
      ram (l_mm l') p = [0xFA, 0x90, 0xF4] ! i" and "ramdisk_addr info = 0x800000"
    and rb: "\<forall>i < length [0x41, 0x42 :: u8]. ram (l_mm l') (0x800000 + of_nat i) = [0x41, 0x42] ! i"
    using loader_handoff [OF lt k r ap d, of 0 640 480 "\<lparr>l_mm = demo_mm, l_fb = (\<lambda>_. 0)\<rparr>"] by blast
  moreover have "lt_PML4 demo_lt = 0x1000000" by (simp add: demo_lt_def)
  moreover from kb [rule_format, of 2] have "\<exists>p. walk (ram (l_mm l')) (lt_PML4 demo_lt) (KERNEL_ENTRY + 2) = Some (p, True, False) \<and> ram (l_mm l') p = 0xF4" by simp
  moreover from rb [rule_format, of 0] have "ram (l_mm l') 0x800000 = 0x41" by simp
  ultimately show ?thesis by (intro exI [of "\<lambda>x. \<exists>y. _ x y" info] exI [of _ l']) simp
qed

section \<open>The frames of the loaded files\<close>

text \<open>
  The map is taken before the files are loaded, and the loader does not change it: the frames of the kernel and of the ram disk, which were
  conventional memory then, are free frames for the allocator of the kernel.
\<close>

lemma loaded_frames_stay_free:
  assumes d: "\<forall>d \<in> set (fw_map fw). unat (page_count d) * 4096 < 2 ^ 64" and regions: "capture_map 0 (fw_map fw) = Inr regions"
    and "desc \<in> set (take 128 (fw_map fw))" and "md_ty desc = CONVENTIONAL"
    and "p < MAX_PAGES" and "unat (phys_start desc) div PAGE_SIZE \<le> p" and "p < unat (phys_start desc) div PAGE_SIZE + unat (page_count desc)"
  shows "p \<in> free_set (pmm_init (Some regions) pmm_new)"
proof -
  have "unat (page_count desc) * 4096 < 2 ^ 64" using d assms(3) by (meson in_set_takeD)
  then have "unat (page_count desc * 4096) = unat (page_count desc) * 4096" using unat_mult_lem [of "page_count desc" 4096] by simp
  then have "p \<in> region_pages (region_of desc)"
    using assms(4-7) by (simp add: region_pages_def region_of_def kind_of_def PAGE_SIZE_def)
  moreover have "region_of desc \<in> set regions" using capture_map_regions [OF d, of 0] regions assms(3) by (auto simp: MAX_REGIONS_def)
  ultimately show ?thesis by (auto simp: pmm_init_new)
qed

end
