(* ===== verification/Smp.thy ===== *)
theory Smp
  imports Memory Prelude
begin

text \<open>
  The local APIC (ross-kernel/src/lapic.rs) and the start of the other processors (smp.rs). The registers of the APIC, the tick counter, which the
  timer interrupt moves, and the counter of processors on line, which those processors move, are parameters. A loop that polls one of them may run for
  ever: \<open>None\<close>. Log lines and the calibrated delays, which change no state, are left out. The code the processors start with is
  assembled by the compiler: a parameter, too.
\<close>

section \<open>Operations that may not end\<close>

type_synonym ('s, 'a) pop = "'s \<Rightarrow> ('a res \<times> 's) option"

definition runP :: "('s, 'a) op \<Rightarrow> ('s, 'a) pop" where
  "runP m = (\<lambda>s. Some (m s))"

definition bindP :: "('s, 'a) pop \<Rightarrow> ('a \<Rightarrow> ('s, 'b) pop) \<Rightarrow> ('s, 'b) pop" where
  "bindP m f = (\<lambda>s. case m s of None \<Rightarrow> None | Some (Inl e, s') \<Rightarrow> Some (Inl e, s') | Some (Inr x, s') \<Rightarrow> f x s')"

section \<open>State\<close>

record 'c apic_io =
  reg_rd :: "u64 \<Rightarrow> 'c \<Rightarrow> u32 \<times> 'c"
  reg_wr :: "u64 \<Rightarrow> u32 \<Rightarrow> 'c \<Rightarrow> 'c"
  tick_rd :: "'c \<Rightarrow> u64 \<times> 'c"
  online_rd :: "'c \<Rightarrow> usize \<times> 'c"
  online_add :: "'c \<Rightarrow> 'c"

record 'c smp =
  LAPIC_BASE :: u64
  LAPIC_ENABLED :: bool
  a_ctl :: 'c
  a_mem :: mem

section \<open>The local APIC\<close>

definition REG_ID :: u32 where "REG_ID = 0x020"
definition REG_EOI :: u32 where "REG_EOI = 0x0B0"
definition REG_SPURIOUS :: u32 where "REG_SPURIOUS = 0x0F0"
definition REG_ICR_LOW :: u32 where "REG_ICR_LOW = 0x300"
definition REG_ICR_HIGH :: u32 where "REG_ICR_HIGH = 0x310"
definition REG_LVT_TIMER :: u32 where "REG_LVT_TIMER = 0x320"
definition REG_TIMER_INIT :: u32 where "REG_TIMER_INIT = 0x380"
definition REG_TIMER_CURR :: u32 where "REG_TIMER_CURR = 0x390"
definition REG_TIMER_DIV :: u32 where "REG_TIMER_DIV = 0x3E0"

lemmas apic_regs = REG_ID_def REG_EOI_def REG_SPURIOUS_def REG_ICR_LOW_def REG_ICR_HIGH_def REG_LVT_TIMER_def REG_TIMER_INIT_def
  REG_TIMER_CURR_def REG_TIMER_DIV_def

definition lapic_read :: "'c apic_io \<Rightarrow> u32 \<Rightarrow> ('c smp, u32) op" where
  "lapic_read io reg =
     bindS (getS LAPIC_BASE) (\<lambda>base.
     bindS (liftS (add64 base (ucast reg))) (\<lambda>a.
     (\<lambda>s. let (v, c) = reg_rd io a (a_ctl s) in (Inr v, s\<lparr>a_ctl := c\<rparr>))))"

definition lapic_write :: "'c apic_io \<Rightarrow> u32 \<Rightarrow> u32 \<Rightarrow> ('c smp, unit) op" where
  "lapic_write io reg v =
     bindS (getS LAPIC_BASE) (\<lambda>base.
     bindS (liftS (add64 base (ucast reg))) (\<lambda>a.
     modS (\<lambda>s. s\<lparr>a_ctl := reg_wr io a v (a_ctl s)\<rparr>)))"

definition ticks :: "'c apic_io \<Rightarrow> ('c smp, u64) op" where
  "ticks io = (\<lambda>s. let (t, c) = tick_rd io (a_ctl s) in (Inr t, s\<lparr>a_ctl := c\<rparr>))"

text \<open>\<^verbatim>\<open>while pit::ticks() == t0 {}\<close>\<close>

partial_function (option) wait_tick :: "'c apic_io \<Rightarrow> u64 \<Rightarrow> ('c smp, unit) pop" where
  "wait_tick io t0 s =
     (let (t, c) = tick_rd io (a_ctl s) in
      if t = t0 then wait_tick io t0 (s\<lparr>a_ctl := c\<rparr>) else Some (Inr (), s\<lparr>a_ctl := c\<rparr>))"

definition sub64 :: "u64 \<Rightarrow> u64 \<Rightarrow> u64 res" where
  "sub64 a b = (if b \<le> a then Inr (a - b) else Inl (Panic ''attempt to subtract with overflow''))"

definition lapic_init :: "'c apic_io \<Rightarrow> u64 \<Rightarrow> ('c smp, unit) pop" where
  "lapic_init io base =
     bindP (runP (modS (\<lambda>s. s\<lparr>LAPIC_BASE := base\<rparr>))) (\<lambda>_.
     bindP (runP (lapic_write io REG_SPURIOUS 0x1FF)) (\<lambda>_.
     bindP (runP (lapic_write io REG_TIMER_DIV 0x3)) (\<lambda>_.
     bindP (runP (lapic_write io REG_LVT_TIMER 0x10000)) (\<lambda>_.
     bindP (runP (lapic_write io REG_TIMER_INIT 0xFFFFFFFF)) (\<lambda>_.
     bindP (runP (ticks io)) (\<lambda>t0.
     bindP (wait_tick io t0) (\<lambda>_.
     bindP (runP (ticks io)) (\<lambda>t1.
     bindP (runP (liftS (sub64 t1 t0))) (\<lambda>d.
     let elapsed_ticks = ucast d :: u32 in
     bindP (runP (lapic_read io REG_TIMER_CURR)) (\<lambda>curr.
     let apic_count = 0xFFFFFFFF - curr;
         counts_per_tick = (if 0 < elapsed_ticks then apic_count div elapsed_ticks else apic_count) in
     bindP (runP (lapic_write io REG_LVT_TIMER 0x20020)) (\<lambda>_.
     bindP (runP (lapic_write io REG_TIMER_DIV 0x3)) (\<lambda>_.
     bindP (runP (lapic_write io REG_TIMER_INIT counts_per_tick)) (\<lambda>_.
     runP (modS (\<lambda>s. s\<lparr>LAPIC_ENABLED := True\<rparr>)))))))))))))))"

definition init_ap :: "'c apic_io \<Rightarrow> u64 \<Rightarrow> ('c smp, unit) op" where
  "init_ap io base =
     bindS (modS (\<lambda>s. s\<lparr>LAPIC_BASE := base\<rparr>)) (\<lambda>_.
     bindS (lapic_write io REG_SPURIOUS 0x1FF) (\<lambda>_.
     bindS (lapic_write io REG_LVT_TIMER 0x20020) (\<lambda>_.
     lapic_write io REG_TIMER_DIV 0x3)))"

definition lapic_eoi :: "'c apic_io \<Rightarrow> ('c smp, unit) op" where
  "lapic_eoi io = lapic_write io REG_EOI 0"

definition is_enabled :: "('c smp, bool) op" where
  "is_enabled = getS LAPIC_ENABLED"

definition my_id :: "'c apic_io \<Rightarrow> ('c smp, u8) op" where
  "my_id io = bindS (lapic_read io REG_ID) (\<lambda>v. retS (ucast (drop_bit 24 v)))"

partial_function (option) wait_icr_idle :: "'c apic_io \<Rightarrow> ('c smp, unit) pop" where
  "wait_icr_idle io s =
     (case lapic_read io REG_ICR_LOW s of
        (Inl e, s') \<Rightarrow> Some (Inl e, s')
      | (Inr v, s') \<Rightarrow> if v AND one_shl 12 \<noteq> 0 then wait_icr_idle io s' else Some (Inr (), s'))"

definition send_init :: "'c apic_io \<Rightarrow> u8 \<Rightarrow> ('c smp, unit) pop" where
  "send_init io apic_id =
     bindP (runP (lapic_write io REG_ICR_HIGH (push_bit 24 (ucast apic_id)))) (\<lambda>_.
     bindP (runP (lapic_write io REG_ICR_LOW 0x00004500)) (\<lambda>_.
     wait_icr_idle io))"

definition send_init_deassert :: "'c apic_io \<Rightarrow> ('c smp, unit) pop" where
  "send_init_deassert io =
     bindP (runP (lapic_write io REG_ICR_HIGH 0)) (\<lambda>_.
     bindP (runP (lapic_write io REG_ICR_LOW 0x00008500)) (\<lambda>_.
     wait_icr_idle io))"

definition send_sipi :: "'c apic_io \<Rightarrow> u8 \<Rightarrow> u8 \<Rightarrow> ('c smp, unit) pop" where
  "send_sipi io apic_id vec =
     bindP (runP (lapic_write io REG_ICR_HIGH (push_bit 24 (ucast apic_id)))) (\<lambda>_.
     bindP (runP (lapic_write io REG_ICR_LOW (0x00004600 OR ucast vec))) (\<lambda>_.
     wait_icr_idle io))"

section \<open>Starting a processor\<close>

definition AP_STACK_SIZE :: usize where "AP_STACK_SIZE = 16 * 1024"
definition MAX_APS :: usize where "MAX_APS = 8"

text \<open>
  What the linker decides: the code of the trampoline and the addresses of \<^verbatim>\<open>ap_main\<close>, of the descriptor table and its limit, and of the
  stacks. \<open>ub_checks\<close> says whether the standard library checks the alignment of volatile accesses (it does with debug assertions).
\<close>

record smp_env =
  trampoline :: "u8 list"
  ap_main_addr :: u64
  kgdt_ptr :: u64
  kgdt_limit :: u16
  AP_STACKS :: u64
  ub_checks :: bool

definition db_write :: "smp_env \<Rightarrow> nat \<Rightarrow> u64 \<Rightarrow> u8 list \<Rightarrow> ('c smp, unit) op" where
  "db_write env align off bs =
     (if ub_checks env \<and> unat (0x8F00 + off) mod align \<noteq> 0
      then throwS (Panic ''ptr::write_volatile requires that the pointer argument is aligned and non-null'')
      else modS (\<lambda>s. s\<lparr>a_mem := wr_bytes (0x8F00 + off) bs (a_mem s)\<rparr>))"

definition db_write_u32 :: "smp_env \<Rightarrow> u64 \<Rightarrow> u32 \<Rightarrow> ('c smp, unit) op" where
  "db_write_u32 env off v = db_write env 4 off (le_bytes 4 v)"

definition db_write_u64 :: "smp_env \<Rightarrow> u64 \<Rightarrow> u64 \<Rightarrow> ('c smp, unit) op" where
  "db_write_u64 env off v = db_write env 8 off (le_bytes 8 v)"

definition db_write_u16 :: "smp_env \<Rightarrow> u64 \<Rightarrow> u16 \<Rightarrow> ('c smp, unit) op" where
  "db_write_u16 env off v = db_write env 2 off (le_bytes 2 v)"

definition install_trampoline :: "smp_env \<Rightarrow> u64 \<Rightarrow> u64 \<Rightarrow> ('c smp, unit) op" where
  "install_trampoline env stack_top cr3 =
     bindS (modS (\<lambda>s. s\<lparr>a_mem := wr_bytes 0x8000 (trampoline env) (a_mem s)\<rparr>)) (\<lambda>_.
     bindS (db_write_u64 env 0x00 cr3) (\<lambda>_.
     bindS (db_write_u64 env 0x08 stack_top) (\<lambda>_.
     bindS (db_write_u64 env 0x10 (ap_main_addr env)) (\<lambda>_.
     bindS (db_write_u16 env 0x20 0x1F) (\<lambda>_.
     bindS (db_write_u32 env 0x22 0x8F40) (\<lambda>_.
     bindS (db_write_u16 env 0x28 (kgdt_limit env)) (\<lambda>_.
     bindS (db_write_u64 env 0x2A (kgdt_ptr env)) (\<lambda>_.
     bindS (db_write_u64 env 0x40 0x0000000000000000) (\<lambda>_.
     bindS (db_write_u64 env 0x48 0x00CF9A000000FFFF) (\<lambda>_.
     bindS (db_write_u64 env 0x50 0x00CF92000000FFFF) (\<lambda>_.
     db_write_u64 env 0x58 0x00209A0000000000)))))))))))"

definition wake_ap :: "'c apic_io \<Rightarrow> smp_env \<Rightarrow> u64 \<Rightarrow> usize \<Rightarrow> u8 \<Rightarrow> ('c smp, unit) pop" where
  "wake_ap io env cr3 ap_num apic_id =
     (let stack_top = AP_STACKS env + of_nat (ap_num * AP_STACK_SIZE) + of_nat AP_STACK_SIZE in
      bindP (runP (install_trampoline env stack_top cr3)) (\<lambda>_.
      bindP (send_init io apic_id) (\<lambda>_.
      bindP (send_sipi io apic_id 0x08) (\<lambda>_.
      send_sipi io apic_id 0x08))))"

text \<open>What a started processor does before it enables its interrupts and idles. Its register block lies at the same address.\<close>

definition ap_main :: "'c apic_io \<Rightarrow> ('c smp, u8) op" where
  "ap_main io =
     bindS (getS LAPIC_BASE) (\<lambda>base.
     bindS (init_ap io base) (\<lambda>_.
     bindS (my_id io) (\<lambda>apic_id.
     bindS (modS (\<lambda>s. s\<lparr>a_ctl := online_add io (a_ctl s)\<rparr>)) (\<lambda>_.
     retS apic_id))))"

text \<open>The loop over the identifiers; the result is the number of processors woken.\<close>

primrec wake_all :: "'c apic_io \<Rightarrow> smp_env \<Rightarrow> u64 \<Rightarrow> u8 \<Rightarrow> usize \<Rightarrow> u8 list \<Rightarrow> ('c smp, usize) pop" where
  "wake_all io env cr3 bsp_id ap_num [] = runP (retS ap_num)"
| "wake_all io env cr3 bsp_id ap_num (apic_id # ids) =
     (if apic_id = bsp_id then wake_all io env cr3 bsp_id ap_num ids
      else if MAX_APS \<le> ap_num then runP (retS ap_num)
      else bindP (wake_ap io env cr3 ap_num apic_id) (\<lambda>_. wake_all io env cr3 bsp_id (ap_num + 1) ids))"

text \<open>\<^verbatim>\<open>while AP_ONLINE < expected && waited < 10_000_000\<close>: at most so many rounds.\<close>

primrec wait_online :: "'c apic_io \<Rightarrow> usize \<Rightarrow> nat \<Rightarrow> ('c smp, unit) op" where
  "wait_online io expected 0 = (\<lambda>s. let (n, c) = online_rd io (a_ctl s) in (Inr (), s\<lparr>a_ctl := c\<rparr>))"
| "wait_online io expected (Suc left) = (\<lambda>s.
     let (n, c) = online_rd io (a_ctl s) in
     if n < expected then wait_online io expected left (s\<lparr>a_ctl := c\<rparr>) else (Inr (), s\<lparr>a_ctl := c\<rparr>))"

definition smp_init :: "'c apic_io \<Rightarrow> smp_env \<Rightarrow> u64 \<Rightarrow> u8 list \<Rightarrow> u8 \<Rightarrow> ('c smp, unit) pop" where
  "smp_init io env cr3 ap_ids bsp_id =
     bindP (wake_all io env cr3 bsp_id 0 ap_ids) (\<lambda>expected.
     runP (wait_online io expected 10000000))"

section \<open>What the registers see\<close>

text \<open>
  The assumptions on the APIC: \<open>log\<close> observes the register writes in their order, reading adds none; and an interrupt command is accepted after finitely
  many polls: while the delivery status reads as pending, \<open>pend\<close> decreases.
\<close>

definition apic_ok :: "'c apic_io \<Rightarrow> ('c \<Rightarrow> (u64 \<times> u32) list) \<Rightarrow> ('c \<Rightarrow> nat) \<Rightarrow> u64 \<Rightarrow> bool" where
  "apic_ok io log pend base \<longleftrightarrow> unat base + 0x400 \<le> 2 ^ 64 \<and>
     (\<forall>a v c. log (reg_wr io a v c) = log c @ [(a, v)]) \<and> (\<forall>a c. log (snd (reg_rd io a c)) = log c) \<and>
     (\<forall>c. log (snd (tick_rd io c)) = log c) \<and> (\<forall>c. log (snd (online_rd io c)) = log c) \<and> (\<forall>c. log (online_add io c) = log c) \<and>
     (\<forall>c. bit (fst (reg_rd io (base + 0x300) c)) 12 \<longrightarrow> pend (snd (reg_rd io (base + 0x300) c)) < pend c)"

lemma bindP_run [simp]: "bindP (runP m) f s = (case m s of (Inl e, s') \<Rightarrow> Some (Inl e, s') | (Inr x, s') \<Rightarrow> f x s')"
  by (simp add: bindP_def runP_def)

lemma runP_run [simp]: "runP m s = Some (m s)"
  by (simp add: runP_def)

lemma apic_add:
  assumes "apic_ok io log pend base" and "reg \<le> 0x3E0"
  shows "add64 base (ucast (reg :: u32)) = Inr (base + ucast reg)"
  using assms by (simp add: add64_def apic_ok_def word_le_nat_alt unat_ucast_up)

lemma lapic_write_run:
  assumes "apic_ok io log pend base" and "LAPIC_BASE s = base" and "reg \<le> 0x3E0"
  shows "lapic_write io reg v s = (Inr (), s\<lparr>a_ctl := reg_wr io (base + ucast reg) v (a_ctl s)\<rparr>)"
  using apic_add [OF assms(1,3)] assms(2) by (simp add: lapic_write_def bindS_def)

lemma lapic_read_run:
  assumes "apic_ok io log pend base" and "LAPIC_BASE s = base" and "reg \<le> 0x3E0"
  shows "lapic_read io reg s = (Inr (fst (reg_rd io (base + ucast reg) (a_ctl s))), s\<lparr>a_ctl := snd (reg_rd io (base + ucast reg) (a_ctl s))\<rparr>)"
  using apic_add [OF assms(1,3)] assms(2) by (simp add: lapic_read_def bindS_def split_def Let_def)

lemma wait_icr_idle_ends:
  assumes "apic_ok io log pend base" and "LAPIC_BASE s = base"
  shows "\<exists>c. wait_icr_idle io s = Some (Inr (), s\<lparr>a_ctl := c\<rparr>) \<and> log c = log (a_ctl s)"
  using assms(2)
proof (induction "pend (a_ctl s)" arbitrary: s rule: less_induct)
  case less
  let ?c = "snd (reg_rd io (base + 0x300) (a_ctl s))" and ?v = "fst (reg_rd io (base + 0x300) (a_ctl s))"
  have rd: "lapic_read io REG_ICR_LOW s = (Inr ?v, s\<lparr>a_ctl := ?c\<rparr>)"
    using lapic_read_run [OF assms(1) less.prems, of REG_ICR_LOW] by (simp add: apic_regs)
  have l: "log ?c = log (a_ctl s)" using assms(1) by (simp add: apic_ok_def)
  show ?case
  proof (cases "bit ?v 12")
    case True
    then have "pend (a_ctl (s\<lparr>a_ctl := ?c\<rparr>)) < pend (a_ctl s)" using assms(1) by (simp add: apic_ok_def)
    from less.hyps [OF this] less.prems obtain c where "wait_icr_idle io (s\<lparr>a_ctl := ?c\<rparr>) = Some (Inr (), s\<lparr>a_ctl := c\<rparr>)" "log c = log ?c" by auto
    then show ?thesis using True rd l and_one_shl_zero [of ?v 12] by (subst wait_icr_idle.simps) auto
  next
    case False
    then show ?thesis using rd l and_one_shl_zero [of ?v 12] by (subst wait_icr_idle.simps) auto
  qed
qed

text \<open>An interrupt command: the destination, then the command.\<close>

definition ipi :: "u64 \<Rightarrow> u8 \<Rightarrow> u32 \<Rightarrow> (u64 \<times> u32) list" where
  "ipi base apic_id cmd = [(base + 0x310, push_bit 24 (ucast apic_id)), (base + 0x300, cmd)]"

lemma send_ipi:
  assumes ok: "apic_ok io log pend base" and b: "LAPIC_BASE s = base"
  shows "\<exists>c. bindP (runP (lapic_write io REG_ICR_HIGH (push_bit 24 (ucast apic_id)))) (\<lambda>_. bindP (runP (lapic_write io REG_ICR_LOW cmd)) (\<lambda>_. wait_icr_idle io)) s =
      Some (Inr (), s\<lparr>a_ctl := c\<rparr>) \<and> log c = log (a_ctl s) @ ipi base apic_id cmd"
proof -
  let ?c1 = "reg_wr io (base + 0x310) (push_bit 24 (ucast apic_id)) (a_ctl s)"
  let ?c2 = "reg_wr io (base + 0x300) cmd ?c1"
  have w: "lapic_write io REG_ICR_HIGH (push_bit 24 (ucast apic_id)) s = (Inr (), s\<lparr>a_ctl := ?c1\<rparr>)"
    "lapic_write io REG_ICR_LOW cmd (s\<lparr>a_ctl := ?c1\<rparr>) = (Inr (), s\<lparr>a_ctl := ?c2\<rparr>)"
    using lapic_write_run [OF ok b, of REG_ICR_HIGH] lapic_write_run [OF ok, of "s\<lparr>a_ctl := ?c1\<rparr>" REG_ICR_LOW] b by (simp_all add: apic_regs)
  obtain c where c: "wait_icr_idle io (s\<lparr>a_ctl := ?c2\<rparr>) = Some (Inr (), s\<lparr>a_ctl := c\<rparr>)" "log c = log ?c2"
    using wait_icr_idle_ends [OF ok, of "s\<lparr>a_ctl := ?c2\<rparr>"] b by auto
  have "log ?c2 = log (a_ctl s) @ ipi base apic_id cmd" using ok by (simp add: apic_ok_def ipi_def)
  then show ?thesis using c by (auto simp: w)
qed

definition wake_ipis :: "u64 \<Rightarrow> u8 \<Rightarrow> (u64 \<times> u32) list" where
  "wake_ipis base i = ipi base i 0x4500 @ ipi base i 0x4608 @ ipi base i 0x4608"

section \<open>The page of the trampoline\<close>

text \<open>What the code at 0x8000 finds: itself, the root of the page tables, its stack, the entry point, the two descriptors of tables and the small table.\<close>

definition ap_page :: "smp_env \<Rightarrow> u64 \<Rightarrow> u64 \<Rightarrow> mem \<Rightarrow> bool" where
  "ap_page env cr3 stack_top m \<longleftrightarrow> rd_bytes m 0x8000 (length (trampoline env)) = trampoline env \<and>
     rd64 m 0x8F00 = cr3 \<and> rd64 m 0x8F08 = stack_top \<and> rd64 m 0x8F10 = ap_main_addr env \<and>
     rd_bytes m 0x8F20 2 = le_bytes 2 (0x1F :: u16) \<and> rd_bytes m 0x8F22 4 = le_bytes 4 (0x8F40 :: u32) \<and>
     rd_bytes m 0x8F28 2 = le_bytes 2 (kgdt_limit env) \<and> rd_bytes m 0x8F2A 8 = le_bytes 8 (kgdt_ptr env) \<and>
     map (\<lambda>i. rd64 m (0x8F40 + 8 * of_nat i)) [0 ..< 4] = [0, 0x00CF9A000000FFFF, 0x00CF92000000FFFF, 0x00209A0000000000]"

lemma install_trampoline_ok:
  assumes "\<not> ub_checks env" and "length (trampoline env) \<le> 0xF00"
  shows "\<exists>m. install_trampoline env stack_top cr3 s = (Inr (), s\<lparr>a_mem := m\<rparr>) \<and> ap_page env cr3 stack_top m"
proof -
  let ?m = "wr_bytes 0x8F58 (le_bytes 8 (0x00209A0000000000 :: u64)) (wr_bytes 0x8F50 (le_bytes 8 (0x00CF92000000FFFF :: u64))
    (wr_bytes 0x8F48 (le_bytes 8 (0x00CF9A000000FFFF :: u64)) (wr_bytes 0x8F40 (le_bytes 8 (0 :: u64)) (wr_bytes 0x8F2A (le_bytes 8 (kgdt_ptr env))
    (wr_bytes 0x8F28 (le_bytes 2 (kgdt_limit env)) (wr_bytes 0x8F22 (le_bytes 4 (0x8F40 :: u32)) (wr_bytes 0x8F20 (le_bytes 2 (0x1F :: u16))
    (wr_bytes 0x8F10 (le_bytes 8 (ap_main_addr env)) (wr_bytes 0x8F08 (le_bytes 8 stack_top) (wr_bytes 0x8F00 (le_bytes 8 cr3)
    (wr_bytes 0x8000 (trampoline env) (a_mem s))))))))))))"
  have run: "install_trampoline env stack_top cr3 s = (Inr (), s\<lparr>a_mem := ?m\<rparr>)"
    using assms(1) by (simp add: install_trampoline_def db_write_u64_def db_write_u32_def db_write_u16_def db_write_def bindS_def)
  have idx: "[0 ..< 4] = [0, 1, 2, 3 :: nat]" by (simp add: upt_rec numeral_eq_Suc)
  note r = rd_bytes_wr_same rd_bytes_wr_apart apart_def
  have "ap_page env cr3 stack_top ?m"
    unfolding ap_page_def rd64_def idx using assms(2) by (simp add: r)
  then show ?thesis using run by blast
qed

text \<open>With the checks of the standard library on, the fifth write, to 0x8F22, is refused: no processor is started.\<close>

lemma install_trampoline_checked:
  assumes "ub_checks env"
  shows "\<exists>s'. install_trampoline env stack_top cr3 s = (Inl (Panic ''ptr::write_volatile requires that the pointer argument is aligned and non-null''), s')"
  using assms by (simp add: install_trampoline_def db_write_u64_def db_write_u32_def db_write_u16_def db_write_def bindS_def)

section \<open>Waking the processors\<close>

definition ap_stack_top :: "smp_env \<Rightarrow> nat \<Rightarrow> u64" where
  "ap_stack_top env k = AP_STACKS env + of_nat (k * AP_STACK_SIZE) + of_nat AP_STACK_SIZE"

lemma wake_ap_ok:
  assumes ok: "apic_ok io log pend base" and b: "LAPIC_BASE s = base" and e: "\<not> ub_checks env" "length (trampoline env) \<le> 0xF00"
  shows "\<exists>c m. wake_ap io env cr3 k i s = Some (Inr (), s\<lparr>a_ctl := c, a_mem := m\<rparr>) \<and> log c = log (a_ctl s) @ wake_ipis base i \<and>
    ap_page env cr3 (ap_stack_top env k) m \<and> install_trampoline env (ap_stack_top env k) cr3 s = (Inr (), s\<lparr>a_mem := m\<rparr>)"
proof -
  obtain m where m: "install_trampoline env (ap_stack_top env k) cr3 s = (Inr (), s\<lparr>a_mem := m\<rparr>)" "ap_page env cr3 (ap_stack_top env k) m"
    using install_trampoline_ok [OF e] by blast
  have swap: "s\<lparr>a_mem := m, a_ctl := c\<rparr> = s\<lparr>a_ctl := c, a_mem := m\<rparr>" for c by simp
  obtain c1 where c1: "send_init io i (s\<lparr>a_mem := m\<rparr>) = Some (Inr (), s\<lparr>a_ctl := c1, a_mem := m\<rparr>)" "log c1 = log (a_ctl s) @ ipi base i 0x4500"
    using send_ipi [OF ok, of "s\<lparr>a_mem := m\<rparr>" i "0x4500"] b by (auto simp: send_init_def swap)
  have sipi: "\<exists>c'. send_sipi io i 8 (s\<lparr>a_ctl := c, a_mem := m\<rparr>) = Some (Inr (), s\<lparr>a_ctl := c', a_mem := m\<rparr>) \<and> log c' = log c @ ipi base i 0x4608" for c
    using send_ipi [OF ok, of "s\<lparr>a_ctl := c, a_mem := m\<rparr>" i "0x4608"] b by (auto simp: send_sipi_def swap)
  obtain c2 where c2: "send_sipi io i 8 (s\<lparr>a_ctl := c1, a_mem := m\<rparr>) = Some (Inr (), s\<lparr>a_ctl := c2, a_mem := m\<rparr>)" "log c2 = log c1 @ ipi base i 0x4608"
    using sipi by blast
  obtain c3 where c3: "send_sipi io i 8 (s\<lparr>a_ctl := c2, a_mem := m\<rparr>) = Some (Inr (), s\<lparr>a_ctl := c3, a_mem := m\<rparr>)" "log c3 = log c2 @ ipi base i 0x4608"
    using sipi by blast
  have "wake_ap io env cr3 k i s = Some (Inr (), s\<lparr>a_ctl := c3, a_mem := m\<rparr>)"
    unfolding wake_ap_def Let_def using m(1) by (simp add: ap_stack_top_def bindP_def [of "send_init _ _"] bindP_def [of "send_sipi _ _ _"] c1(1) c2(1) c3(1))
  then show ?thesis using c1(2) c2(2) c3(2) m by (auto simp: wake_ipis_def)
qed

lemma wake_all_ok:
  assumes ok: "apic_ok io log pend base" and b: "LAPIC_BASE s = base" and e: "\<not> ub_checks env" "length (trampoline env) \<le> 0xF00"
  shows "\<exists>c m. wake_all io env cr3 bsp k ids s = Some (Inr (k + length (take (MAX_APS - k) (filter (\<lambda>i. i \<noteq> bsp) ids))), s\<lparr>a_ctl := c, a_mem := m\<rparr>) \<and>
    log c = log (a_ctl s) @ concat (map (wake_ipis base) (take (MAX_APS - k) (filter (\<lambda>i. i \<noteq> bsp) ids)))"
  using b
proof (induction ids arbitrary: k s)
  case Nil
  then show ?case by (auto simp: runP_def intro!: exI [of _ "a_ctl s"] exI [of _ "a_mem s"])
next
  case (Cons i ids)
  consider "i = bsp" | "i \<noteq> bsp" "MAX_APS \<le> k" | "i \<noteq> bsp" "k < MAX_APS" by force
  then show ?case
  proof cases
    case 1
    then show ?thesis using Cons.IH [OF Cons.prems] by simp
  next
    case 2
    then show ?thesis by (auto simp: runP_def intro!: exI [of _ "a_ctl s"] exI [of _ "a_mem s"])
  next
    case 3
    obtain c m where w: "wake_ap io env cr3 k i s = Some (Inr (), s\<lparr>a_ctl := c, a_mem := m\<rparr>)" "log c = log (a_ctl s) @ wake_ipis base i"
      using wake_ap_ok [OF ok Cons.prems e] by blast
    have "MAX_APS - k = Suc (MAX_APS - (k + 1))" using 3 by simp
    then show ?thesis using Cons.IH [of "s\<lparr>a_ctl := c, a_mem := m\<rparr>" "k + 1"] Cons.prems 3 w
      by (auto simp: bindP_def)
  qed
qed

lemma wait_online_ok:
  assumes "apic_ok io log pend base"
  shows "\<exists>c. wait_online io expected n s = (Inr (), s\<lparr>a_ctl := c\<rparr>) \<and> log c = log (a_ctl s)"
proof (induction n arbitrary: s)
  case 0
  then show ?case using assms by (auto simp: apic_ok_def split_def Let_def)
next
  case (Suc n)
  let ?c = "snd (online_rd io (a_ctl s))"
  have "log ?c = log (a_ctl s)" using assms by (simp add: apic_ok_def)
  then show ?case using Suc.IH [of "s\<lparr>a_ctl := ?c\<rparr>"] by (auto simp: split_def Let_def)
qed


text \<open>A machine whose registers record what is written to them, with an APIC that accepts every command at once.\<close>

definition demo_apic :: "(u64 \<times> u32) list apic_io" where
  "demo_apic = \<lparr>reg_rd = (\<lambda>a c. (0, c)), reg_wr = (\<lambda>a v c. c @ [(a, v)]), tick_rd = (\<lambda>c. (0, c)), online_rd = (\<lambda>c. (1, c)), online_add = (\<lambda>c. c)\<rparr>"

definition demo_env :: smp_env where
  "demo_env = \<lparr>trampoline = [0xFA, 0xFC], ap_main_addr = 0xFFFFFFFF80210000, kgdt_ptr = 0xFFFFFFFF80300000, kgdt_limit = 0x37, AP_STACKS = 0xFFFFFFFF80400000, ub_checks = False\<rparr>"


section \<open>The timer of the APIC\<close>

text \<open>
  The tick counter \<open>now\<close> never goes back and moves on: while it reads \<open>t0\<close>, a number of reads decreases. Then the calibration ends, and the timer of
  the boot processor is periodic on vector 32 with the count that went by in the ticks observed, divided by their number.
\<close>

definition clock_ok :: "'c apic_io \<Rightarrow> ('c \<Rightarrow> u64) \<Rightarrow> bool" where
  "clock_ok io now \<longleftrightarrow> (\<forall>c. fst (tick_rd io c) = now c \<and> now c \<le> now (snd (tick_rd io c))) \<and>
     (\<forall>t0. \<exists>left :: _ \<Rightarrow> nat. \<forall>c. now c = t0 \<longrightarrow> left (snd (tick_rd io c)) < left c)"

lemma wait_tick_ends:
  assumes "clock_ok io now" and "\<forall>c. log (snd (tick_rd io c)) = log c"
  shows "\<exists>c. wait_tick io t0 s = Some (Inr (), s\<lparr>a_ctl := c\<rparr>) \<and> log c = log (a_ctl s) \<and> now (a_ctl s) \<le> now c"
proof -
  obtain left :: "'a \<Rightarrow> nat" where left: "\<And>c. now c = t0 \<Longrightarrow> left (snd (tick_rd io c)) < left c"
    using assms(1) unfolding clock_ok_def by metis
  show ?thesis
  proof (induction "left (a_ctl s)" arbitrary: s rule: less_induct)
    case less
    let ?c = "snd (tick_rd io (a_ctl s))"
    have l: "log ?c = log (a_ctl s)" and n: "fst (tick_rd io (a_ctl s)) = now (a_ctl s)" "now (a_ctl s) \<le> now ?c"
      using assms by (simp_all add: clock_ok_def)
    show ?case
    proof (cases "now (a_ctl s) = t0")
      case True
      then have "left (a_ctl (s\<lparr>a_ctl := ?c\<rparr>)) < left (a_ctl s)" using left by simp
      from less [OF this] obtain c where "wait_tick io t0 (s\<lparr>a_ctl := ?c\<rparr>) = Some (Inr (), s\<lparr>a_ctl := c\<rparr>)" "log c = log ?c" "now ?c \<le> now c" by auto
      then show ?thesis using True l n by (subst wait_tick.simps) (auto simp: split_def Let_def intro: order_trans)
    qed (use l n in \<open>subst wait_tick.simps, auto simp: split_def Let_def\<close>)
  qed
qed

lemma ticks_run: "clock_ok io now \<Longrightarrow> ticks io s = (Inr (now (a_ctl s)), s\<lparr>a_ctl := snd (tick_rd io (a_ctl s))\<rparr>)"
  by (simp add: ticks_def clock_ok_def split_def Let_def)

lemma lapic_init_timer:
  assumes ok: "apic_ok io log pend base" and clk: "clock_ok io now"
  shows "\<exists>c d curr count. lapic_init io base s = Some (Inr (), s\<lparr>LAPIC_BASE := base, a_ctl := c, LAPIC_ENABLED := True\<rparr>) \<and>
    count = (if 0 < (ucast (d :: u64) :: u32) then (0xFFFFFFFF - curr) div ucast d else 0xFFFFFFFF - curr) \<and>
    log c = log (a_ctl s) @ [(base + 0xF0, 0x1FF), (base + 0x3E0, 3), (base + 0x320, 0x10000), (base + 0x380, 0xFFFFFFFF),
      (base + 0x320, 0x20020), (base + 0x3E0, 3), (base + 0x380, count)]"
proof -
  have w: "lapic_write io reg v x = (Inr (), x\<lparr>a_ctl := reg_wr io (base + ucast reg) v (a_ctl x)\<rparr>)" if "LAPIC_BASE x = base" "reg \<le> 0x3E0" for reg v x
    by (rule lapic_write_run [OF ok that])
  have l: "log (reg_wr io a v c) = log c @ [(a, v)]" "log (snd (reg_rd io a c)) = log c" "log (snd (tick_rd io c)) = log c" for a v c
    using ok by (simp_all add: apic_ok_def)
  let ?c4 = "reg_wr io (base + 0x380) 0xFFFFFFFF (reg_wr io (base + 0x320) 0x10000 (reg_wr io (base + 0x3E0) 3 (reg_wr io (base + 0xF0) 0x1FF (a_ctl s))))"
  let ?c5 = "snd (tick_rd io ?c4)"
  let ?s = "\<lambda>c. s\<lparr>LAPIC_BASE := base, a_ctl := c\<rparr>"
  obtain c6 where c6: "wait_tick io (now ?c4) (?s ?c5) = Some (Inr (), ?s c6)" "log c6 = log ?c5" "now ?c5 \<le> now c6"
    using wait_tick_ends [OF clk, of log "now ?c4" "?s ?c5"] l(3) by auto
  have "now ?c4 \<le> now ?c5" using clk by (simp add: clock_ok_def)
  then have d: "sub64 (now c6) (now ?c4) = Inr (now c6 - now ?c4)" using c6(3) by (simp add: sub64_def)
  have rd: "lapic_read io REG_TIMER_CURR (?s c) = (Inr (fst (reg_rd io (base + 0x390) c)), ?s (snd (reg_rd io (base + 0x390) c)))" for c
    using lapic_read_run [OF ok, of "?s c" REG_TIMER_CURR] by (simp add: apic_regs)
  let ?c7 = "snd (tick_rd io c6)" and ?d = "now c6 - now ?c4"
  let ?curr = "fst (reg_rd io (base + 0x390) ?c7)" and ?c8 = "snd (reg_rd io (base + 0x390) ?c7)"
  let ?count = "if 0 < (ucast ?d :: u32) then (0xFFFFFFFF - ?curr) div ucast ?d else 0xFFFFFFFF - ?curr"
  let ?c9 = "reg_wr io (base + 0x380) ?count (reg_wr io (base + 0x3E0) 3 (reg_wr io (base + 0x320) 0x20020 ?c8))"
  have "lapic_init io base s = Some (Inr (), s\<lparr>LAPIC_BASE := base, a_ctl := ?c9, LAPIC_ENABLED := True\<rparr>)"
    unfolding lapic_init_def using c6(1) d rd [of ?c7]
    by (simp add: w apic_regs ticks_run [OF clk] bindP_def [of "wait_tick _ _"] Let_def)
  then show ?thesis using c6(2) l by (intro exI [of "\<lambda>c. \<exists>d curr count. _ c d curr count" ?c9] exI [of "\<lambda>d. \<exists>curr count. _ d curr count" ?d]
      exI [of "\<lambda>curr. \<exists>count. _ curr count" ?curr] exI [of _ ?count]) simp
qed

text \<open>The other processors: enabled, periodic on vector 32 and divided by 16, but no initial count is ever written, so that their timers stay stopped.\<close>

lemma init_ap_no_count:
  assumes "apic_ok io log pend base"
  shows "\<exists>c. init_ap io base s = (Inr (), s\<lparr>LAPIC_BASE := base, a_ctl := c\<rparr>) \<and>
    log c = log (a_ctl s) @ [(base + 0xF0, 0x1FF), (base + 0x320, 0x20020), (base + 0x3E0, 3)]"
  using assms lapic_write_run [OF assms, of _ REG_SPURIOUS] lapic_write_run [OF assms, of _ REG_LVT_TIMER] lapic_write_run [OF assms, of _ REG_TIMER_DIV]
  by (simp add: init_ap_def bindS_def apic_regs) (auto simp: apic_ok_def)

end
