(* ===== verification/Acpi.thy ===== *)
theory Acpi
  imports Pmm Memory "HOL-Library.While_Combinator"
begin

text \<open>
  The ACPI tables (ross-kernel/src/acpi.rs): the search for the root pointer, the walk of the root table to the MADT, and
  the list of processors. Physical memory, identity-mapped, is the argument \<open>mem\<close>; the packed structures are read at the offsets
  of their fields. Log lines on the serial port are left out.
\<close>

section \<open>Raw slices\<close>

text \<open>
  The development profile checks the pointer given to \<^verbatim>\<open>from_raw_parts\<close>, and the one that is dereferenced: it is
  not null and aligned to the elements.
\<close>

definition ptr_ok :: "nat \<Rightarrow> u64 \<Rightarrow> unit res" where
  "ptr_ok align a = (if a \<noteq> 0 \<and> unat a mod align = 0 then Inr ()
     else Inl (Panic ''unsafe precondition(s) violated: requires the pointer to be aligned and non-null''))"

definition rd32 :: "mem \<Rightarrow> u64 \<Rightarrow> u32" where
  "rd32 m a = le_word (rd_bytes m a 4)"

section \<open>The root pointer\<close>

definition RSD_PTR :: "u8 list" where "RSD_PTR = ascii ''RSD PTR ''"

lemma add64_Inr: "add64 a b = Inr c \<Longrightarrow> unat c = unat a + unat b"
  by (auto simp: add64_def unat_word_ariths split: if_splits)

function scan_loop :: "mem \<Rightarrow> u64 \<Rightarrow> u64 \<Rightarrow> u64 option res" where
  "scan_loop mem addr lim =
     bindR (add64 addr 8) (\<lambda>a8.
     if a8 \<le> lim then
       bindR (ptr_ok 1 addr) (\<lambda>_.
       if rd_bytes mem addr 8 = RSD_PTR then Inr (Some addr)
       else bindR (add64 addr 16) (\<lambda>addr1. scan_loop mem addr1 lim))
     else Inr None)"
  by pat_completeness auto
termination
proof (relation "measure (\<lambda>(_, addr, _). 2 ^ 64 - unat addr)")
  show "((mem, addr1, lim), mem, addr, lim) \<in> measure (\<lambda>(_, addr, _). 2 ^ 64 - unat addr)"
    if "add64 addr 16 = Inr addr1" for mem :: mem and addr addr1 lim :: u64
    using add64_Inr [OF that] unat_lt_64 [of addr1] by simp
qed simp

declare scan_loop.simps [simp del]

definition scan_range :: "mem \<Rightarrow> u64 \<Rightarrow> u64 \<Rightarrow> u64 option res" where
  "scan_range mem start lim = scan_loop mem (start AND NOT 0xF) lim"

primrec scan_regions :: "mem \<Rightarrow> MemoryRegion list \<Rightarrow> u64 option res" where
  "scan_regions mem [] = Inr None"
| "scan_regions mem (r # rs) =
     (if mr_kind r \<noteq> Reserved \<or> 0xD0000000 \<le> mr_base r \<or> 8 * 1024 * 1024 < mr_size r then scan_regions mem rs
      else bindR (add64 (mr_base r) (mr_size r)) (\<lambda>lim.
        bindR (scan_range mem (mr_base r) lim) (\<lambda>found.
        case found of Some a \<Rightarrow> Inr (Some a) | None \<Rightarrow> scan_regions mem rs)))"

definition find_rsdp :: "mem \<Rightarrow> MemoryRegion list option \<Rightarrow> u64 option res" where
  "find_rsdp mem regions =
     bindR (scan_range mem 0xE0000 0x100000) (\<lambda>found.
     case found of Some a \<Rightarrow> Inr (Some a)
     | None \<Rightarrow> (case regions of None \<Rightarrow> Inr None | Some rs \<Rightarrow> scan_regions mem rs))"

section \<open>The tables\<close>

definition SDT_HEADER_SIZE :: usize where "SDT_HEADER_SIZE = 36"
definition MADT_SIZE :: usize where "MADT_SIZE = 44"

definition sdt_length :: "mem \<Rightarrow> u64 \<Rightarrow> usize" where
  "sdt_length mem p = unat (rd32 mem (p + 4))"

primrec find_sig :: "mem \<Rightarrow> u8 list \<Rightarrow> u64 list \<Rightarrow> u64 option res" where
  "find_sig mem sig [] = Inr None"
| "find_sig mem sig (e # es) = bindR (ptr_ok 1 e) (\<lambda>_. if rd_bytes mem e 4 = sig then Inr (Some e) else find_sig mem sig es)"

definition find_table_xsdt :: "mem \<Rightarrow> u64 \<Rightarrow> u8 list \<Rightarrow> u64 option res" where
  "find_table_xsdt mem xsdt sig =
     (let n_entries = (sdt_length mem xsdt - SDT_HEADER_SIZE) div 8; base = xsdt + of_nat SDT_HEADER_SIZE
      in bindR (ptr_ok 8 base) (\<lambda>_. find_sig mem sig (map (\<lambda>i. rd64 mem (base + of_nat (8 * i))) [0 ..< n_entries])))"

definition find_table_rsdt :: "mem \<Rightarrow> u64 \<Rightarrow> u8 list \<Rightarrow> u64 option res" where
  "find_table_rsdt mem rsdt sig =
     (let n_entries = (sdt_length mem rsdt - SDT_HEADER_SIZE) div 4; base = rsdt + of_nat SDT_HEADER_SIZE
      in bindR (ptr_ok 4 base) (\<lambda>_. find_sig mem sig (map (\<lambda>i. ucast (rd32 mem (base + of_nat (4 * i)))) [0 ..< n_entries])))"

text \<open>
  The loop of \<^verbatim>\<open>parse_madt\<close>: its guard with the \<^verbatim>\<open>break\<close> on an entry too short to hold its own header, and its body. The
  structure lengths come from the table, so that the loop ends is a theorem and not a matter of the definition.
\<close>

definition madt_more :: "mem \<Rightarrow> u64 \<Rightarrow> usize \<Rightarrow> usize \<times> u8 list \<Rightarrow> bool" where
  "madt_more mem p len = (\<lambda>(off, ids). off + 2 \<le> len \<and> 2 \<le> unat (mem (p + of_nat (off + 1))))"

definition madt_entry :: "mem \<Rightarrow> u64 \<Rightarrow> usize \<times> u8 list \<Rightarrow> usize \<times> u8 list" where
  "madt_entry mem p = (\<lambda>(off, ids).
     let ic_type = mem (p + of_nat off); ic_len = unat (mem (p + of_nat (off + 1))) in
     (off + ic_len,
      if ic_type = 0 \<and> 8 \<le> ic_len \<and> rd32 mem (p + of_nat (off + 4)) AND 1 \<noteq> 0
      then ids @ [mem (p + of_nat (off + 3))] else ids))"

definition parse_madt :: "mem \<Rightarrow> u64 \<Rightarrow> (u64 \<times> u8 list) option" where
  "parse_madt mem p =
     (case while_option (madt_more mem p (sdt_length mem p)) (madt_entry mem p) (MADT_SIZE, []) of
        None \<Rightarrow> None
      | Some (off, ids) \<Rightarrow> Some (ucast (rd32 mem (p + 36)), ids))"

record AcpiInfo =
  lapic_base :: u64
  ap_ids :: "u8 list"
  bsp_id :: u8

text \<open>The fields of \<^verbatim>\<open>Rsdp\<close> that the kernel reads.\<close>

definition rsdp_revision :: "mem \<Rightarrow> u64 \<Rightarrow> u8" where [simp]: "rsdp_revision mem r = mem (r + 15)"
definition rsdt_addr :: "mem \<Rightarrow> u64 \<Rightarrow> u32" where [simp]: "rsdt_addr mem r = rd32 mem (r + 16)"
definition xsdt_addr :: "mem \<Rightarrow> u64 \<Rightarrow> u64" where [simp]: "xsdt_addr mem r = rd64 mem (r + 24)"

text \<open>\<open>None\<close> outside is a loop that does not end.\<close>

definition acpi_init :: "mem \<Rightarrow> MemoryRegion list option \<Rightarrow> AcpiInfo option res option" where
  "acpi_init mem regions =
     (case bindR (find_rsdp mem regions) (\<lambda>rsdp. case rsdp of None \<Rightarrow> Inr None
        | Some r \<Rightarrow> if 2 \<le> rsdp_revision mem r then find_table_xsdt mem (xsdt_addr mem r) (ascii ''APIC'')
                    else find_table_rsdt mem (ucast (rsdt_addr mem r)) (ascii ''APIC'')) of
        Inl e \<Rightarrow> Some (Inl e)
      | Inr None \<Rightarrow> Some (Inr None)
      | Inr (Some madt) \<Rightarrow> (case parse_madt mem madt of None \<Rightarrow> None
          | Some (base, ids) \<Rightarrow> Some (bindR (ptr_ok 4 (base + 0x20)) (\<lambda>_.
              Inr (Some \<lparr>lapic_base = base, ap_ids = ids, bsp_id = ucast (drop_bit 24 (rd32 mem (base + 0x20)))\<rparr>)))))"

section \<open>The search finds the first pointer\<close>

definition rsdp_in :: "mem \<Rightarrow> u64 \<Rightarrow> u64 \<Rightarrow> u64 \<Rightarrow> bool" where
  "rsdp_in mem start lim a \<longleftrightarrow> aligned 4 a \<and> unat start \<le> unat a \<and> unat a + 8 \<le> unat lim \<and> rd_bytes mem a 8 = RSD_PTR"

lemma aligned_step: "aligned 4 addr \<Longrightarrow> aligned 4 a \<Longrightarrow> a \<noteq> addr \<Longrightarrow> unat addr \<le> unat a \<Longrightarrow> unat addr + 16 \<le> unat a"
proof -
  assume "aligned 4 addr" "aligned 4 a" "a \<noteq> addr" "unat addr \<le> unat a"
  then have "16 dvd unat addr" "16 dvd unat a" "unat addr < unat a" by (auto dest: aligned_dvd simp: le_less word_unat_eq_iff)
  then show ?thesis by (elim dvdE) presburger
qed

lemma scan_loop_first:
  assumes "aligned 4 addr" and "addr \<noteq> 0" and "unat addr + 8 < 2 ^ 64" and "unat lim + 16 < 2 ^ 64"
  shows "scan_loop mem addr lim = Inr (if \<exists>a. rsdp_in mem addr lim a then Some (LEAST a. rsdp_in mem addr lim a) else None)"
  using assms
proof (induction "2 ^ 64 - unat addr" arbitrary: addr rule: less_induct)
  case less
  have a8: "add64 addr 8 = Inr (addr + 8)" "unat (addr + 8) = unat addr + 8"
    using less.prems by (simp_all add: add64_def unat_word_ariths)
  show ?case
  proof (cases "addr + 8 \<le> lim")
    case False
    then have "\<not> rsdp_in mem addr lim a" for a using a8 by (auto simp: rsdp_in_def word_le_nat_alt)
    with False show ?thesis by (subst scan_loop.simps) (simp add: a8)
  next
    case True
    then have in_lim: "unat addr + 8 \<le> unat lim" using a8 by (simp add: word_le_nat_alt)
    show ?thesis
    proof (cases "rd_bytes mem addr 8 = RSD_PTR")
      case hit: True
      then have "rsdp_in mem addr lim addr" using less.prems in_lim by (simp add: rsdp_in_def)
      moreover have "(LEAST a. rsdp_in mem addr lim a) = addr"
        by (rule Least_equality) (use calculation in \<open>auto simp: rsdp_in_def word_le_nat_alt\<close>)
      ultimately show ?thesis using True hit less.prems by (subst scan_loop.simps) (auto simp: a8 ptr_ok_def)
    next
      case miss: False
      have a16: "add64 addr 16 = Inr (addr + 16)" "unat (addr + 16) = unat addr + 16"
        using less.prems in_lim by (simp_all add: add64_def unat_word_ariths)
      have same: "rsdp_in mem (addr + 16) lim a \<longleftrightarrow> rsdp_in mem addr lim a" for a
        using miss aligned_step [OF less.prems(1), of a] a16 by (auto simp: rsdp_in_def)
      have "aligned 4 (addr + 16)" using aligned_add [OF less.prems(1), of 16] by (simp add: aligned_def)
      moreover have "2 ^ 64 - unat (addr + 16) < 2 ^ 64 - unat addr" "addr + 16 \<noteq> 0" "unat (addr + 16) + 8 < 2 ^ 64"
        using a16 in_lim less.prems(4) unat_lt_64 [of "addr + 16"] by (auto simp: word_unat_eq_iff)
      ultimately have "scan_loop mem (addr + 16) lim = Inr (if \<exists>a. rsdp_in mem addr lim a then Some (LEAST a. rsdp_in mem addr lim a) else None)"
        using less.hyps [of "addr + 16"] less.prems(4) unfolding same by blast
      then show ?thesis using True miss less.prems by (subst scan_loop.simps) (simp add: a8 a16 ptr_ok_def)
    qed
  qed
qed


section \<open>The processor list\<close>

lemma madt_shrinks:
  "madt_more mem p len s \<Longrightarrow> len - fst (madt_entry mem p s) < len - fst s"
  by (auto simp: madt_more_def madt_entry_def Let_def split: prod.splits)

lemma parse_madt_ends: "\<exists>s. while_option (madt_more mem p len) (madt_entry mem p) s0 = Some s"
  by (rule measure_while_option_Some [where P = "\<lambda>_. True" and f = "\<lambda>s. len - fst s"]) (simp_all add: madt_shrinks)

lemma madt_count:
  assumes "while_option (madt_more mem p len) (madt_entry mem p) (MADT_SIZE, []) = Some (off, ids)"
  shows "ids = [] \<or> 8 * length ids + 38 \<le> len"
proof -
  let ?P = "\<lambda>(off, ids :: u8 list). 8 * length ids + 44 \<le> off \<and> (ids = [] \<or> 8 * length ids + 38 \<le> len)"
  have "?P (off, ids)"
  proof (rule while_option_rule [OF _ assms])
    show "?P (madt_entry mem p s)" if "?P s" "madt_more mem p len s" for s
      using that by (auto simp: madt_more_def madt_entry_def Let_def split: prod.splits)
  qed (simp add: MADT_SIZE_def)
  then show ?thesis by simp
qed


definition ic_bytes :: "u8 \<times> u8 list \<Rightarrow> u8 list" where
  "ic_bytes = (\<lambda>(t, body). t # of_nat (length body + 2) # body)"

definition cpu_ids :: "(u8 \<times> u8 list) list \<Rightarrow> u8 list" where
  "cpu_ids es = map (\<lambda>(t, body). body ! 1) (filter (\<lambda>(t, body). t = 0 \<and> 6 \<le> length body \<and> bit (body ! 2) 0) es)"

definition bytes_at :: "mem \<Rightarrow> u64 \<Rightarrow> nat \<Rightarrow> u8 list \<Rightarrow> bool" where
  "bytes_at mem p off bs \<longleftrightarrow> map (\<lambda>i. mem (p + of_nat i)) [off ..< off + length bs] = bs"

lemma bytes_at_append: "bytes_at mem p off (xs @ ys) \<longleftrightarrow> bytes_at mem p off xs \<and> bytes_at mem p (off + length xs) ys"
proof -
  have "[off ..< off + length (xs @ ys)] = [off ..< off + length xs] @ [off + length xs ..< off + length xs + length ys]"
    using upt_add_eq_append [of off "off + length xs" "length ys"] by (simp add: add.assoc)
  then show ?thesis unfolding bytes_at_def by (simp only: map_append append_eq_append_conv length_map length_upt add_diff_cancel_left' simp_thms)
qed

lemma bytes_at_nth: "bytes_at mem p off bs \<Longrightarrow> i < length bs \<Longrightarrow> mem (p + of_nat (off + i)) = bs ! i"
proof -
  assume at: "bytes_at mem p off bs" and i: "i < length bs"
  have "map (\<lambda>i. mem (p + of_nat i)) [off ..< off + length bs] ! i = mem (p + of_nat (off + i))" using i by simp
  with at show ?thesis by (simp add: bytes_at_def)
qed

lemma rd32_low_bit: "rd32 mem a AND 1 \<noteq> 0 \<longleftrightarrow> bit (mem a) 0"
proof -
  have "rd32 mem a AND 1 \<noteq> 0 \<longleftrightarrow> bit (rd32 mem a) 0" using bit_iff_and_push_bit_not_eq_0 [of "rd32 mem a" 0] by simp
  also have "\<dots> \<longleftrightarrow> bit (mem a) 0" by (simp add: rd32_def rd_bytes_def upt_rec bit_or_iff bit_push_bit_iff bit_unsigned_iff del: bit_0)
  finally show ?thesis .
qed

lemma madt_step:
  assumes "bytes_at mem p off (ic_bytes (t, body))" and "length body + 2 < 256" and "off + length (ic_bytes (t, body)) \<le> len"
  shows "madt_more mem p len (off, ids)"
    and "madt_entry mem p (off, ids) = (off + length (ic_bytes (t, body)), ids @ cpu_ids [(t, body)])"
proof -
  note at = bytes_at_nth [OF assms(1)]
  have l: "mem (p + of_nat (off + 1)) = of_nat (length body + 2)" "mem (p + of_nat off) = t"
    using at [of 1] at [of 0] by (simp_all add: ic_bytes_def)
  have u: "unat (mem (p + of_nat (off + 1))) = length body + 2"
    using assms(2) unfolding l by (intro of_nat_inverse [OF refl]) simp
  have b: "mem (p + of_nat (off + 3)) = body ! 1" "mem (p + of_nat (off + 4)) = body ! 2" if "6 \<le> length body"
    using that at [of 3] at [of 4] by (simp_all add: ic_bytes_def numeral_nat)
  show "madt_more mem p len (off, ids)" using assms(3) unfolding madt_more_def prod.case u by (simp add: ic_bytes_def)
  show "madt_entry mem p (off, ids) = (off + length (ic_bytes (t, body)), ids @ cpu_ids [(t, body)])"
    unfolding madt_entry_def prod.case Let_def u l(2) rd32_low_bit using b by (auto simp: cpu_ids_def ic_bytes_def simp del: of_nat_add)
qed

lemma madt_loop:
  assumes "bytes_at mem p off (concat (map ic_bytes es))" and "\<forall>(t, body) \<in> set es. length body + 2 < 256"
    and "len = off + length (concat (map ic_bytes es))"
  shows "while_option (madt_more mem p len) (madt_entry mem p) (off, ids) = Some (len, ids @ cpu_ids es)"
  using assms
proof (induction es arbitrary: off ids)
  case Nil
  then show ?case by (subst while_option_unfold) (simp add: madt_more_def cpu_ids_def)
next
  case (Cons e es)
  obtain t body where e: "e = (t, body)" by fastforce
  have "bytes_at mem p off (ic_bytes (t, body))" "bytes_at mem p (off + length (ic_bytes (t, body))) (concat (map ic_bytes es))"
    using Cons.prems(1) by (simp_all add: e bytes_at_append)
  moreover have "ids @ cpu_ids (e # es) = (ids @ cpu_ids [(t, body)]) @ cpu_ids es" by (simp add: e cpu_ids_def)
  ultimately show ?case
    using Cons.prems Cons.IH [of "off + length (ic_bytes (t, body))" "ids @ cpu_ids [(t, body)]"]
      madt_step [of mem p off t body len ids]
    by (subst while_option_unfold) (simp add: e add.assoc)
qed

definition madt_holds :: "mem \<Rightarrow> u64 \<Rightarrow> (u8 \<times> u8 list) list \<Rightarrow> bool" where
  "madt_holds mem p es \<longleftrightarrow> bytes_at mem p MADT_SIZE (concat (map ic_bytes es)) \<and> list_all (\<lambda>(t, body). length body + 2 < 256) es \<and>
     sdt_length mem p = MADT_SIZE + length (concat (map ic_bytes es))"

lemma parse_madt_cpus: "madt_holds mem p es \<Longrightarrow> parse_madt mem p = Some (ucast (rd32 mem (p + 36)), cpu_ids es)"
  using madt_loop [of mem p MADT_SIZE es "sdt_length mem p" "[]"] by (simp add: madt_holds_def parse_madt_def list_all_iff)

lemma find_sig_first:
  "list_all (\<lambda>e. e \<noteq> 0 \<and> rd_bytes mem e 4 \<noteq> sig) es \<Longrightarrow> e \<noteq> 0 \<Longrightarrow> rd_bytes mem e 4 = sig \<Longrightarrow> find_sig mem sig (es @ e # rest) = Inr (Some e)"
  by (induction es) (simp_all add: ptr_ok_def)

definition rsdt_entries :: "mem \<Rightarrow> u64 \<Rightarrow> u64 list" where
  "rsdt_entries mem rsdt = map (\<lambda>i. ucast (rd32 mem (rsdt + 36 + of_nat (4 * i)))) [0 ..< (sdt_length mem rsdt - 36) div 4]"

lemma find_rsdp_legacy:
  assumes "rsdp_in mem 0xE0000 0x100000 r" and "\<forall>a. rsdp_in mem 0xE0000 0x100000 a \<longrightarrow> r \<le> a"
  shows "find_rsdp mem regions = Inr (Some r)"
proof -
  have "scan_loop mem 0xE0000 0x100000 = Inr (if \<exists>a. rsdp_in mem 0xE0000 0x100000 a then Some (LEAST a. rsdp_in mem 0xE0000 0x100000 a) else None)"
    by (rule scan_loop_first) (simp_all add: aligned_def)
  moreover have "(LEAST a. rsdp_in mem 0xE0000 0x100000 a) = r" using assms by (intro Least_equality) auto
  ultimately have "scan_loop mem 0xE0000 0x100000 = Inr (Some r)" using assms(1) by auto
  then show ?thesis by (simp add: find_rsdp_def scan_range_def)
qed

text \<open>
  \<^bold>\<open>C21.\<close> On a machine whose first root pointer lies in the BIOS area and is of revision 1, whose root table lists the table \<open>m\<close> as
  the first with the signature of the MADT, and whose MADT holds the interrupt controller structures \<open>es\<close>, the kernel learns
  exactly the ids of the enabled processors in table order, the address of the local APIC, and the id of the boot processor from its
  register. Structures of other kinds, short ones and disabled processors are skipped.
\<close>

theorem acpi_init_correct:
  assumes "rsdp_in mem 0xE0000 0x100000 r" and "\<forall>a. rsdp_in mem 0xE0000 0x100000 a \<longrightarrow> r \<le> a" and "rsdp_revision mem r < 2"
    and "rsdt = ucast (rsdt_addr mem r)" and "aligned 2 rsdt" and "rsdt_entries mem rsdt = others @ m # rest"
    and "list_all (\<lambda>e. e \<noteq> 0 \<and> rd_bytes mem e 4 \<noteq> ascii ''APIC'') others" and "m \<noteq> 0" and "rd_bytes mem m 4 = ascii ''APIC''"
    and "madt_holds mem m es" and "lapic = rd32 mem (m + 36)" and "take_bit 2 lapic = 0"
  shows "acpi_init mem regions = Some (Inr (Some
    \<lparr>lapic_base = ucast lapic, ap_ids = cpu_ids es, bsp_id = ucast (drop_bit 24 (rd32 mem (ucast lapic + 0x20)))\<rparr>))"
proof -
  have up: "ptr_ok 4 (ucast w + k) = Inr ()" if "take_bit 2 w = 0" "k = 36 \<or> k = 0x20" for w :: u32 and k :: u64
  proof -
    have "take_bit 2 (unat w) = 0" using that(1) by (metis unsigned_0 unsigned_take_bit_eq)
    then have "unat w mod 4 = 0" by (simp add: take_bit_eq_mod)
    moreover have lt: "unat w < 2 ^ 32" using unsigned_less [of w, where ?'a = nat] by simp
    moreover have "unat (ucast w :: u64) = unat w" using lt by (simp add: unsigned_ucast_eq take_bit_nat_eq_self)
    ultimately have "unat (ucast w + k) = unat w + unat k \<and> (unat w + unat k) mod 4 = 0 \<and> unat k > 0"
      using that(2) by (auto simp: unat_word_ariths)
    then show ?thesis unfolding ptr_ok_def by (auto simp flip: unat_eq_zero)
  qed
  have "take_bit 2 (rd32 mem (r + 16)) = 0"
    using aligned_bit [OF assms(5)] by (intro bit_word_eqI) (auto simp: assms(4) bit_simps)
  then have "find_table_rsdt mem rsdt (ascii ''APIC'') = find_sig mem (ascii ''APIC'') (rsdt_entries mem rsdt)"
    using up [of "rd32 mem (r + 16)" 36] by (simp add: find_table_rsdt_def rsdt_entries_def SDT_HEADER_SIZE_def assms(4))
  then have "find_table_rsdt mem rsdt (ascii ''APIC'') = Inr (Some m)" using find_sig_first [OF assms(7-9)] assms(6) by simp
  moreover have "\<not> 2 \<le> mem (r + 15)" using assms(3) by simp
  ultimately show ?thesis
    using up [of lapic "0x20"] assms(12) find_rsdp_legacy [OF assms(1,2)] parse_madt_cpus [OF assms(10)]
    by (simp add: acpi_init_def assms(4,11))
qed


definition demo_madt :: "(u8 \<times> u8 list) list" where
  "demo_madt = [(0, [0, 0, 1, 0, 0, 0]), (1, [1, 0, 0, 0, 0xC0, 0xFE, 0, 0, 0, 0]), (0, [1, 1, 0, 0, 0, 0]), (0, [2, 2, 1, 0, 0, 0])]"

definition demo_image :: "(u64 \<times> u8 list) list" where
  "demo_image = [(0xE0000, RSD_PTR @ replicate 8 0 @ [0, 0x10, 0, 0]),
     (0x1000, ascii ''RSDT'' @ [44, 0, 0, 0] @ replicate 28 0 @ [0, 0x30, 0, 0, 0, 0x20, 0, 0]),
     (0x2000, ascii ''APIC'' @ [80, 0, 0, 0] @ replicate 28 0 @ [0, 0, 0xE0, 0xFE, 0, 0, 0, 0] @ concat (map ic_bytes demo_madt))]"

definition demo_tables :: mem where
  "demo_tables a = (case find (\<lambda>(base, bs). base \<le> a \<and> a < base + of_nat (length bs)) demo_image of
     None \<Rightarrow> 0 | Some (base, bs) \<Rightarrow> bs ! unat (a - base))"

theorem acpi_init_correct_witness:
  "acpi_init demo_tables None = Some (Inr (Some \<lparr>lapic_base = 0xFEE00000, ap_ids = [0, 2], bsp_id = 0\<rparr>))"
proof -
  have "rd_bytes demo_tables 0xE0000 8 = RSD_PTR" by code_simp
  then have "rsdp_in demo_tables 0xE0000 0x100000 0xE0000" by (simp add: rsdp_in_def aligned_def)
  moreover have "\<forall>a. rsdp_in demo_tables 0xE0000 0x100000 a \<longrightarrow> 0xE0000 \<le> a" by (simp add: rsdp_in_def word_le_nat_alt)
  moreover have "rsdp_revision demo_tables 0xE0000 < 2" by code_simp
  moreover have "0x1000 = (ucast (rsdt_addr demo_tables 0xE0000) :: u64)" by code_simp
  moreover have "aligned 2 0x1000" by code_simp
  moreover have "rsdt_entries demo_tables 0x1000 = [0x3000] @ 0x2000 # []" by code_simp
  moreover have "list_all (\<lambda>e. e \<noteq> 0 \<and> rd_bytes demo_tables e 4 \<noteq> ascii ''APIC'') [0x3000]" by code_simp
  moreover have "(0x2000 :: u64) \<noteq> 0" by simp
  moreover have "rd_bytes demo_tables 0x2000 4 = ascii ''APIC''" by code_simp
  moreover have "madt_holds demo_tables 0x2000 demo_madt" by code_simp
  moreover have "0xFEE00000 = rd32 demo_tables (0x2000 + 36)" by code_simp
  moreover have "take_bit 2 (0xFEE00000 :: u32) = 0" by code_simp
  ultimately have "acpi_init demo_tables None = Some (Inr (Some
    \<lparr>lapic_base = ucast (0xFEE00000 :: u32), ap_ids = cpu_ids demo_madt, bsp_id = ucast (drop_bit 24 (rd32 demo_tables (ucast (0xFEE00000 :: u32) + 0x20)))\<rparr>))"
    by (rule acpi_init_correct)
  moreover have "cpu_ids demo_madt = [0, 2]" by code_simp
  moreover have "ucast (drop_bit 24 (rd32 demo_tables (ucast (0xFEE00000 :: u32) + 0x20))) = (0 :: u8)" by code_simp
  moreover have "ucast (0xFEE00000 :: u32) = (0xFEE00000 :: u64)" by code_simp
  ultimately show ?thesis by (simp only:)
qed

end
