(* ===== verification/Boot.thy ===== *)
theory Boot
  imports MainLoop AhciInit Loader Smp Acpi Ramfs
begin

text \<open>
  The start of the kernel (\<^verbatim>\<open>kernel_main\<close> of ross-kernel/src/main.rs): from the boot information to the running system. The
  descriptor tables and the system call registers are set up as in Gdt, the interrupt controllers as in Irq, the other processors as in Smp; here are the steps that build the
  state of the kernel. Log lines, and the read of a file that only prints it, are left out.
\<close>

section \<open>State\<close>

text \<open>The kernel state, the registers of the SATA controller and the PCI registry.\<close>

record ('c, 'd) boot =
  b_kernel :: "'d ahci kernel"
  b_abar :: usize
  b_ctl :: 'c
  b_devices :: "PciDevice list"

definition on_bk :: "('d ahci kernel, 'a) op \<Rightarrow> (('c, 'd) boot, 'a) op" where
  "on_bk m = (\<lambda>b. let (r, k) = m (b_kernel b) in (r, b\<lparr>b_kernel := k\<rparr>))"

definition host_of :: "('c, 'd) boot \<Rightarrow> ('c, 'd) host" where
  "host_of b = \<lparr>ABAR_VIRT = b_abar b, h_ctl = b_ctl b, h_mm = k_mm (b_kernel b), h_ahci = k_disk (b_kernel b)\<rparr>"

definition on_host :: "(('c, 'd) host, 'a) op \<Rightarrow> (('c, 'd) boot, 'a) op" where
  "on_host m = (\<lambda>b. let (r, h) = m (host_of b) in
     (r, b\<lparr>b_kernel := (b_kernel b)\<lparr>k_mm := h_mm h, k_disk := h_ahci h\<rparr>, b_abar := ABAR_VIRT h, b_ctl := h_ctl h\<rparr>))"

text \<open>What the linker and the heap decide: the page tables, the \<^verbatim>\<open>.bss\<close> section, the task \<^verbatim>\<open>stable_heartbeat\<close> and the place of its stack.\<close>

record boot_env =
  be_kt :: kernel_tables
  bss_start :: u64
  bss_len :: nat
  heartbeat :: u64
  heartbeat_stack :: u64

section \<open>The steps\<close>

primrec zero_bss :: "u64 \<Rightarrow> nat \<Rightarrow> mem \<Rightarrow> mem" where
  "zero_bss a 0 m = m"
| "zero_bss a (Suc n) m = zero_bss (a + 1) n (m(a := 0))"

definition boot_writer :: "BootInfo \<Rightarrow> (nat \<Rightarrow> u32) \<Rightarrow> ('d ahci kernel, unit) op" where
  "boot_writer info fb = modS (\<lambda>k. k\<lparr>k_writer := Some (writer_new fb (screen_width info) (screen_height info))\<rparr>)"

definition boot_memory :: "boot_env \<Rightarrow> BootInfo \<Rightarrow> ('d ahci kernel, unit) op" where
  "boot_memory env info =
     bindS (modS (\<lambda>k. k\<lparr>k_mm := (k_mm k)\<lparr>frames := pmm_init (Some (memory_map info)) (frames (k_mm k))\<rparr>\<rparr>)) (\<lambda>_.
     bindS (on_mm (paging_init (be_kt env))) (\<lambda>cr3.
     modS (\<lambda>k. k\<lparr>k_cr3 := cr3\<rparr>)))"

definition boot_disk :: "config_space \<Rightarrow> 'c mmio \<Rightarrow> (('c, 'd) boot, unit) op" where
  "boot_disk cfg io =
     bindS (modS (\<lambda>b. b\<lparr>b_devices := enumerate cfg\<rparr>)) (\<lambda>_.
     bindS (getS b_devices) (\<lambda>devices.
     matchS (on_host (ahci_init cfg devices io)) retS (\<lambda>_. retS ())))"

text \<open>\<^verbatim>\<open>Task::main_task()\<close> and \<^verbatim>\<open>Task::new\<close> take the next identifiers.\<close>

definition boot_tasks :: "boot_env \<Rightarrow> ('d ahci kernel, unit) op" where
  "boot_tasks env =
     bindS (modS (\<lambda>k. k\<lparr>k_sched := set_main (main_task (k_next_id k) (k_cr3 k)) (k_sched k), k_next_id := k_next_id k + 1\<rparr>)) (\<lambda>_.
     modS (\<lambda>k. let (t, m) = task_new (heartbeat_stack env) (k_next_id k) (heartbeat env) 0 (k_cr3 k) False (k_mem k) in
       k\<lparr>k_sched := add_task t (k_sched k), k_next_id := k_next_id k + 1, k_mem := m\<rparr>))"

definition boot_ramdisk :: "BootInfo \<Rightarrow> ('d ahci kernel, unit) op" where
  "boot_ramdisk info =
     (if ramdisk_addr info \<noteq> 0 \<and> 0 < ramdisk_size info then
        bindS (ld_bytes (ramdisk_size info) (ramdisk_addr info)) (\<lambda>ramdisk.
        bindS (liftS (tar_new ramdisk)) (\<lambda>ramfs.
        modS (\<lambda>k. k\<lparr>k_vfs := vfs_init (TarFsNode ramfs) (k_vfs k)\<rparr>)))
      else retS ())"

definition boot_mount :: "'d hba \<Rightarrow> ('d ahci kernel, unit) op" where
  "boot_mount hba =
     bindS (getS (\<lambda>k. is_ready (k_disk k))) (\<lambda>ready.
     if ready then
       matchS (on_dev (mount (ahci_device hba)))
         (\<lambda>fs. modS (\<lambda>k. k\<lparr>k_vfs := mount_disk (FatNode (root fs)) (k_vfs k)\<rparr>))
         (\<lambda>_. retS ())
     else retS ())"

definition kernel_boot :: "boot_env \<Rightarrow> config_space \<Rightarrow> 'c mmio \<Rightarrow> 'd hba \<Rightarrow> BootInfo \<Rightarrow> (nat \<Rightarrow> u32) \<Rightarrow> (('c, 'd) boot, unit) op" where
  "kernel_boot env cfg io hba info fb =
     bindS (on_bk (on_mm (modS (\<lambda>st. st\<lparr>ram := zero_bss (bss_start env) (bss_len env) (ram st)\<rparr>)))) (\<lambda>_.
     bindS (on_bk (boot_writer info fb)) (\<lambda>_.
     bindS (on_bk (boot_memory env info)) (\<lambda>_.
     bindS (boot_disk cfg io) (\<lambda>_.
     bindS (on_bk (boot_tasks env)) (\<lambda>_.
     bindS (on_bk (boot_ramdisk info)) (\<lambda>_.
     on_bk (boot_mount hba)))))))"

section \<open>Steps that do not panic\<close>

text \<open>From a state with \<open>P\<close> the operation keeps \<open>P\<close> and ends with a value that has \<open>Q\<close> or with an error, but not with a panic.\<close>

definition calmS :: "('s \<Rightarrow> bool) \<Rightarrow> ('s, 'a) op \<Rightarrow> ('a \<Rightarrow> bool) \<Rightarrow> bool" where
  "calmS P m Q \<longleftrightarrow> (\<forall>s. P s \<longrightarrow> P (snd (m s)) \<and> (case fst (m s) of Inr x \<Rightarrow> Q x | Inl (Err _) \<Rightarrow> True | Inl (Panic _) \<Rightarrow> False))"

lemma calmS_bind: "calmS P m Q \<Longrightarrow> (\<And>x. Q x \<Longrightarrow> calmS P (f x) R) \<Longrightarrow> calmS P (bindS m f) R"
proof -
  assume m: "calmS P m Q" and f: "\<And>x. Q x \<Longrightarrow> calmS P (f x) R"
  have "P (snd (bindS m f s)) \<and> (case fst (bindS m f s) of Inr x \<Rightarrow> R x | Inl (Err _) \<Rightarrow> True | Inl (Panic _) \<Rightarrow> False)" if "P s" for s
  proof -
    obtain r s' where r: "m s = (r, s')" by (metis surj_pair)
    have p: "P s'" "case r of Inr x \<Rightarrow> Q x | Inl (Err _) \<Rightarrow> True | Inl (Panic _) \<Rightarrow> False" using m that r by (auto simp: calmS_def)
    show ?thesis
    proof (cases r)
      case (Inr x)
      then have "calmS P (f x) R" using p(2) f by simp
      then show ?thesis using p(1) r Inr by (simp add: bindS_def calmS_def)
    qed (use p r in \<open>simp add: bindS_def\<close>)
  qed
  then show ?thesis by (simp add: calmS_def)
qed

lemma calmS_prims:
  "Q x \<Longrightarrow> calmS P (retS x) Q" "calmS P (throwS (Err e)) Q" "calmS P a Q \<Longrightarrow> calmS P b Q \<Longrightarrow> calmS P (if c then a else b) Q"
  "r = Inr x \<Longrightarrow> Q x \<Longrightarrow> calmS P (liftS r) Q"
  by (simp_all add: calmS_def)

lemma calmS_mod: "(\<And>s. P s \<Longrightarrow> P (f s)) \<Longrightarrow> calmS P (modS f) (\<lambda>_. True)"
  by (simp add: calmS_def)

text \<open>Recovering from the errors of such a step leaves a step that ends.\<close>

lemma calmS_match:
  assumes "calmS P m Q" and "\<And>x. Q x \<Longrightarrow> calmS P (ok x) R" and "\<And>e. calmS P (err e) R"
  shows "calmS P (matchS m ok err) R"
proof -
  have "P (snd (matchS m ok err s)) \<and> (case fst (matchS m ok err s) of Inr x \<Rightarrow> R x | Inl (Err _) \<Rightarrow> True | Inl (Panic _) \<Rightarrow> False)" if "P s" for s
  proof -
    obtain r s' where r: "m s = (r, s')" by (metis surj_pair)
    have p: "P s'" "case r of Inr x \<Rightarrow> Q x | Inl (Err _) \<Rightarrow> True | Inl (Panic _) \<Rightarrow> False" using assms(1) that r by (auto simp: calmS_def)
    show ?thesis
    proof (cases r)
      case (Inr x)
      then show ?thesis using p r assms(2) [of x] by (simp add: matchS_ok calmS_def)
    next
      case (Inl e)
      then obtain msg where "e = Err msg" using p(2) by (cases e) simp_all
      then show ?thesis using p(1) r Inl assms(3) [of msg] by (simp add: matchS_err calmS_def)
    qed
  qed
  then show ?thesis by (simp add: calmS_def)
qed

subsection \<open>The disk driver\<close>

definition frames_ok :: "('c, 'd) host \<Rightarrow> bool" where
  "frames_ok h \<longleftrightarrow> pmm_inv (frames (h_mm h))"

lemma calm_regs: "calmS frames_ok (mmio_read io off) (\<lambda>_. True)" "calmS frames_ok (mmio_write io off v) (\<lambda>_. True)"
  "calmS frames_ok (port_read io p off) (\<lambda>_. True)" "calmS frames_ok (port_write io p off v) (\<lambda>_. True)"
  by (simp_all add: calmS_def frames_ok_def mmio_read_def mmio_write_def port_read_def port_write_def split_def Let_def)

lemma calm_wait_cmd: "calmS frames_ok (wait_cmd io p m n) (\<lambda>_. True)"
proof (induction n)
  case (Suc n)
  show ?case unfolding wait_cmd.simps by (rule calmS_bind [OF calm_regs(3)], rule calmS_prims(3), rule calmS_prims(1), simp, rule Suc.IH)
next
  case 0
  show ?case unfolding wait_cmd.simps by (rule calmS_prims(1)) simp
qed

lemma calm_alloc: "calmS frames_ok (alloc_ok_or msg) (\<lambda>a. a \<in> frame_addrs {..<MAX_PAGES})"
proof -
  have "a \<in> frame_addrs {..<MAX_PAGES}" if "pmm_inv s" "alloc_page s = (Some a, s')" for a s s'
    using pm.alloc_ok [OF that] pm.avail_frames [OF that(1)] by blast
  moreover have "pmm_inv s'" if "pmm_inv s" "alloc_page s = (r, s')" for r s s'
    using pm.alloc_invar [OF that(1)] that(2) by simp
  ultimately show ?thesis
    unfolding calmS_def frames_ok_def
  proof (intro allI impI, goal_cases)
    case (1 h)
    obtain r s' where "alloc_page (frames (h_mm h)) = (r, s')" by (metis surj_pair)
    with 1 show ?case by (cases r) (auto simp: alloc_ok_or_def on_hmm_def)
  qed
qed

lemma calm_table: "a \<in> frame_addrs {..<MAX_PAGES} \<Longrightarrow> calmS frames_ok (on_hmm (table_at a)) (\<lambda>_. True)"
  by (simp add: calmS_def on_hmm_def table_at_frame)

lemma calm_memory: "calmS frames_ok (on_hmm (clear_table t)) (\<lambda>_. True)" "calmS frames_ok (on_hmm (modS (\<lambda>st. st\<lparr>ram := f st\<rparr>))) (\<lambda>_. True)"
  by (simp_all add: calmS_def frames_ok_def on_hmm_def clear_table_def)

lemma calm_stop_port: "calmS frames_ok (stop_port io p) (\<lambda>_. True)"
  unfolding stop_port_def by (rule calmS_bind [OF calm_regs(3)], rule calmS_bind [OF calm_regs(4)], rule calm_wait_cmd)

lemma calm_start_port: "calmS frames_ok (start_port io p clb fb) (\<lambda>_. True)"
  unfolding start_port_def
  by (rule calmS_bind [OF calm_regs(4)], rule calmS_bind [OF calm_regs(4)], rule calmS_bind [OF calm_regs(4)], rule calmS_bind [OF calm_regs(4)],
      rule calmS_bind [OF calm_regs(4)], rule calmS_bind [OF calm_regs(4)], rule calmS_bind [OF calm_wait_cmd], rule calmS_bind [OF calm_regs(3)], rule calm_regs(4))

lemma calm_driver: "(\<And>h. h_mm (f h) = h_mm h) \<Longrightarrow> calmS frames_ok (modS f) (\<lambda>_. True)"
  by (rule calmS_mod) (simp add: frames_ok_def)

lemma calm_clear_structures:
  assumes "clb \<in> frame_addrs {..<MAX_PAGES}" and "fb \<in> frame_addrs {..<MAX_PAGES}" and "ct \<in> frame_addrs {..<MAX_PAGES}" and "dma \<in> frame_addrs {..<MAX_PAGES}"
  shows "calmS frames_ok (clear_structures clb fb ct dma) (\<lambda>_. True)"
  unfolding clear_structures_def
  by (rule calmS_bind [OF calm_table [OF assms(1)]], rule calmS_bind [OF calm_table [OF assms(2)]], rule calmS_bind [OF calm_table [OF assms(3)]],
      rule calmS_bind [OF calm_table [OF assms(4)]], rule calmS_bind [OF calm_memory(1)], rule calmS_bind [OF calm_memory(1)], rule calmS_bind [OF calm_memory(1)],
      rule calmS_bind [OF calm_memory(1)], rule calmS_bind [OF calm_memory(2)], rule calm_driver) simp

lemma calm_init_port: "calmS frames_ok (init_port io p) (\<lambda>_. True)"
  unfolding init_port_def
  by (rule calmS_bind [OF calm_stop_port], rule calmS_bind [OF calm_alloc], rule calmS_bind [OF calm_alloc], rule calmS_bind [OF calm_alloc], rule calmS_bind [OF calm_alloc],
      rule calmS_bind [OF calm_clear_structures], assumption, assumption, assumption, assumption, rule calmS_bind [OF calm_start_port], rule calm_driver) simp

lemma calm_ahci_init: "calmS frames_ok (ahci_init cfg devices io) (\<lambda>_. True)"
proof -
  have scan: "calmS frames_ok (scan_ports io pi ps) (\<lambda>_. True)" for pi ps
  proof (induction ps)
    case (Cons p ps)
    show ?case unfolding scan_ports.simps Let_def
      by (rule calmS_prims(3), rule Cons.IH, rule calmS_bind [OF calm_regs(3)], rule calmS_bind [OF calm_regs(3)], rule calmS_prims(3), rule calm_init_port, rule Cons.IH)
  next
    case Nil
    show ?case unfolding scan_ports.simps by (rule calmS_prims(2))
  qed
  have set_up: "calmS frames_ok (bindS (modS (\<lambda>h. h\<lparr>ABAR_VIRT := a\<rparr>)) (\<lambda>_. bindS (mmio_read io HBA_GHC) (\<lambda>ghc. bindS (mmio_write io HBA_GHC (ghc OR GHC_AE)) (\<lambda>_.
      bindS (mmio_read io HBA_CAP) (\<lambda>cap. bindS (mmio_read io HBA_PI) (\<lambda>pi. scan_ports io pi [0 ..< 32])))))) (\<lambda>_. True)" for a
    by (rule calmS_bind [OF calm_driver], simp, rule calmS_bind [OF calm_regs(1)], rule calmS_bind [OF calm_regs(2)], rule calmS_bind [OF calm_regs(1)],
        rule calmS_bind [OF calm_regs(1)], rule scan)
  show ?thesis
  proof (cases "find_by_class devices 1 6")
    case None
    show ?thesis unfolding ahci_init_def None option.case by (rule calmS_prims(2))
  next
    case (Some d)
    have "\<exists>v. read_bar cfg d 5 = Inr v" by (simp add: read_bar_def)
    then obtain v where v: "read_bar cfg d 5 = Inr v" by blast
    show ?thesis unfolding ahci_init_def Some option.case Let_def
      by (rule calmS_bind [OF calmS_prims(4) [OF v]], rule TrueI, rule calmS_prims(3), rule calmS_prims(2), rule set_up)
  qed
qed

lemma calm_mount: "calmS (\<lambda>_. True) (mount (ahci_device hba)) (\<lambda>_. True)"
proof -
  have p: "calmS (\<lambda>_. True) port_state (\<lambda>_. True)" by (simp add: calmS_def port_state_def split: option.split)
  have i: "calmS (\<lambda>_. True) (issue hba msg p) (\<lambda>_. True)" for msg p
    by (auto simp: calmS_def issue_def complete_def split_def Let_def split: polled.split)
  have r: "calmS (\<lambda>_. True) (read_sectors hba 0 1 buf) (\<lambda>_. True)" if "length buf = 512" for buf
  proof -
    have "calmS (\<lambda>_. True) (bindS port_state (\<lambda>p. bindS (\<lambda>s. (Inr (), f p s)) (\<lambda>_. bindS (issue hba ''AHCI read timed out'' p) (\<lambda>_. (\<lambda>s. (Inr (g p s), s))))))
      (\<lambda>_. True)" for f and g :: "PortState \<Rightarrow> 'a ahci \<Rightarrow> u8 list"
      by (rule calmS_bind [OF p], rule calmS_bind [where Q = "\<lambda>_. True"], simp add: calmS_def, rule calmS_bind [OF i]) (simp add: calmS_def)
    then show ?thesis using that by (simp add: read_sectors_def Let_def)
  qed
  have b: "calmS (\<lambda>_. True) (liftS (parse_bpb sec)) (\<lambda>_. True)" for sec
    by (simp add: calmS_def parse_bpb_def Let_def)
  have "calmS (\<lambda>_. True) (dev_read (ahci_device hba) 0 1 (replicate 512 0)) (\<lambda>_. True)" by (simp add: ahci_device_def r)
  then show ?thesis unfolding mount_def Let_def
    by (rule calmS_bind) (rule calmS_bind [OF b], rule calmS_prims(1), rule TrueI)
qed

section \<open>The boot\<close>

lemma kernel_step_run: "(kernel_step dev kt)\<^sup>*\<^sup>* k k' \<Longrightarrow> kernel_inv k \<Longrightarrow> kernel_inv k'"
  by (induction rule: rtranclp_induct) (auto intro: kernel_step_inv)

text \<open>A machine that has just been switched on.\<close>

definition cold :: "'d ahci kernel \<Rightarrow> bool" where
  "cold k \<longleftrightarrow> frames (k_mm k) = pmm_new \<and> k_pipes k = pipes_new \<and> k_keys k = kbuf_init \<and> k_sched k = scheduler_new \<and> k_next_id k = 0 \<and> k_vfs k = VFS"

definition boot_inv :: "VfsNode Scheduler \<Rightarrow> nat \<Rightarrow> u64 \<Rightarrow> 'd ahci kernel \<Rightarrow> bool" where
  "boot_inv sc n c k \<longleftrightarrow> kernel_inv k \<and> k_sched k = sc \<and> k_next_id k = n \<and> k_cr3 k = c"

lemma okS_on_bk: "okS m (b_kernel b) (\<lambda>x k. P x (b\<lparr>b_kernel := k\<rparr>)) \<Longrightarrow> okS (on_bk m) b P"
  by (auto simp: okS_def on_bk_def)

lemma recoverS:
  assumes "calmS P m Q" and "P s" and "\<And>x s'. P s' \<Longrightarrow> okS (ok x) s' R" and "\<And>e s'. P s' \<Longrightarrow> okS (err e) s' R"
  shows "okS (matchS m ok err) s R"
proof -
  obtain r s' where r: "m s = (r, s')" by (metis surj_pair)
  have p: "P s'" "case r of Inr x \<Rightarrow> Q x | Inl (Err _) \<Rightarrow> True | Inl (Panic _) \<Rightarrow> False" using assms(1,2) r by (auto simp: calmS_def)
  show ?thesis
  proof (cases r)
    case (Inr x)
    then show ?thesis using assms(3) [OF p(1)] r by (simp add: okS_def matchS_ok)
  next
    case (Inl e)
    then obtain msg where "e = Err msg" using p(2) by (cases e) simp_all
    then show ?thesis using assms(4) [OF p(1)] r Inl by (simp add: okS_def matchS_err)
  qed
qed

lemma boot_memory_ok:
  assumes "kernel_inv k"
  shows "okS (boot_memory env info) k (\<lambda>_. boot_inv (k_sched k) (k_next_id k) (kt_PML4 (be_kt env)))"
proof -
  have k: "okS (set_entry t i v) st (\<lambda>_ st'. frames st' = fs)" if "frames st = fs" for t i v st fs using that by (simp add: okS_def set_entry_def)
  have f: "okS (forS xs g) st (\<lambda>_ st'. frames st' = fs)" if "frames st = fs" "\<And>x st. frames st = fs \<Longrightarrow> okS (g x) st (\<lambda>_ st'. frames st' = fs)"
    for xs :: "nat list" and g st fs by (rule forS_total [where P = "\<lambda>st. frames st = fs"]) (use that in auto)
  have link: "okS (link_pd kt i) st (\<lambda>_ st'. frames st' = fs)" if "frames st = fs" for kt i st fs
    using that by (simp add: link_pd_def Let_def okS_def set_entry_def bindS_def)
  have fill: "okS (fill_pd kt i) st (\<lambda>_ st'. frames st' = fs)" if "frames st = fs" for kt i st fs
    unfolding fill_pd_def Let_def by (intro f that k)
  have paging: "okS (paging_init kt) st (\<lambda>c st'. c = kt_PML4 kt \<and> frames st' = fs)" if "frames st = fs" for kt st fs
    unfolding paging_init_def okS_bind okS_ret
    by (rule okS_mono [OF k [OF that]], rule okS_mono [OF k], assumption, rule okS_mono [OF f], assumption, erule link, rule okS_mono [OF f], assumption, erule fill) simp
  let ?k = "k\<lparr>k_mm := (k_mm k)\<lparr>frames := pmm_init (Some (memory_map info)) (frames (k_mm k))\<rparr>\<rparr>"
  have inv: "pmm_inv (pmm_init (Some (memory_map info)) (frames (k_mm k)))" using assms pmm_init_inv by (simp add: kernel_inv_def)
  obtain st' where "paging_init (be_kt env) (k_mm ?k) = (Inr (kt_PML4 (be_kt env)), st')" "frames st' = pmm_init (Some (memory_map info)) (frames (k_mm k))"
    using paging [of "k_mm ?k" "frames (k_mm ?k)" "be_kt env"] by (auto elim!: okS_E)
  then show ?thesis using assms inv by (simp add: boot_memory_def okS_def bindS_def on_mm_def boot_inv_def kernel_inv_def)
qed

lemma calm_on_host:
  fixes m :: "(('c, 'd) host, 'a) op"
  assumes "calmS frames_ok m Q"
  shows "calmS (\<lambda>b. boot_inv sc n c (b_kernel b)) (on_host m) Q"
  unfolding calmS_def
proof (intro allI impI)
  fix b :: "('c, 'd) boot" assume b: "boot_inv sc n c (b_kernel b)"
  then have "frames_ok (host_of b)" by (simp add: boot_inv_def kernel_inv_def frames_ok_def host_of_def)
  with assms have "frames_ok (snd (m (host_of b)))" "case fst (m (host_of b)) of Inr x \<Rightarrow> Q x | Inl (Err _) \<Rightarrow> True | Inl (Panic _) \<Rightarrow> False"
    unfolding calmS_def by blast+
  then show "boot_inv sc n c (b_kernel (snd (on_host m b))) \<and> (case fst (on_host m b) of Inr x \<Rightarrow> Q x | Inl (Err _) \<Rightarrow> True | Inl (Panic _) \<Rightarrow> False)"
    using b by (auto simp: on_host_def boot_inv_def kernel_inv_def frames_ok_def split_def Let_def)
qed

lemma boot_disk_ok:
  fixes b :: "('c, 'd) boot"
  assumes "boot_inv sc n c (b_kernel b)"
  shows "okS (boot_disk cfg io) b (\<lambda>_ b'. boot_inv sc n c (b_kernel b'))"
proof -
  have "calmS (\<lambda>b :: ('c, 'd) boot. boot_inv sc n c (b_kernel b)) (on_host (ahci_init cfg devices io)) (\<lambda>_. True)" for devices
    by (rule calm_on_host [OF calm_ahci_init])
  then have "okS (matchS (on_host (ahci_init cfg devices io)) retS (\<lambda>_. retS ())) b' (\<lambda>_ b'. boot_inv sc n c (b_kernel b'))"
    if "boot_inv sc n c (b_kernel b')" for devices and b' :: "('c, 'd) boot"
    by (rule recoverS) (use that in \<open>simp_all add: okS_ret\<close>)
  then show ?thesis using assms by (simp add: boot_disk_def ok_simps)
qed

lemma boot_mount_ok:
  assumes "boot_inv sc n c k"
  shows "okS (boot_mount hba) k (\<lambda>_ k'. boot_inv sc n c k')"
proof -
  have "calmS (boot_inv sc n c) (on_dev (mount (ahci_device hba))) (\<lambda>_. True)"
    using calm_mount [of hba] by (auto simp: calmS_def on_dev_def boot_inv_def kernel_inv_def split_def Let_def)
  then have "okS (matchS (on_dev (mount (ahci_device hba))) (\<lambda>fs. modS (\<lambda>k. k\<lparr>k_vfs := mount_disk (FatNode (root fs)) (k_vfs k)\<rparr>)) (\<lambda>_. retS ())) k (\<lambda>_ k'. boot_inv sc n c k')"
    by (rule recoverS) (use assms in \<open>auto simp: okS_mod okS_ret boot_inv_def kernel_inv_def\<close>)
  then show ?thesis using assms by (simp add: boot_mount_def ok_simps)
qed

lemma boot_tasks_ok:
  assumes "boot_inv scheduler_new 0 c k"
  shows "okS (boot_tasks env) k (\<lambda>_ k'. \<exists>t. task_id t = 1 \<and> task_cr3 t = c \<and> task_state t = Ready \<and>
    boot_inv \<lparr>tasks = [t], current_task = Some (main_task 0 c)\<rparr> 2 c k')"
proof -
  obtain t m where t: "task_new (heartbeat_stack env) 1 (heartbeat env) 0 c False (k_mem k) = (t :: VfsNode Task, m)" by (metis surj_pair)
  then have i: "task_id t = 1" "fd_table t = with_stdio" "task_cr3 t = c" "task_state t = Ready" by (auto simp: task_new_def Let_def split: prod.splits)
  have "tasks_inv (k_pipes k) 2 [main_task 0 c, t]" using i by (simp add: tasks_inv_def main_task_def)
  then show ?thesis using assms t i
    by (auto simp: boot_tasks_def okS_def bindS_def boot_inv_def kernel_inv_def scheduler_new_def set_main_def add_task_def all_tasks_def numeral_2_eq_2)
qed

lemma ld_bytes_state: "snd (ld_bytes n v k) = k"
proof (induction n arbitrary: v)
  case (Suc n)
  have "snd (ld8 v k) = k" by (simp add: ld8_def split: option.split)
  then show ?case using Suc by (auto simp: bindS_def split: prod.splits sum.splits) (metis snd_conv)+
qed simp

lemma boot_ramdisk_ok:
  assumes "boot_inv sc n c k" and "boot_ramdisk info k = (r, k')"
  shows "boot_inv sc n c k'" and "ramdisk_size info = 0 \<Longrightarrow> r = Inr ()"
proof -
  obtain r1 where l: "ld_bytes (ramdisk_size info) (ramdisk_addr info) k = (r1, k)" using ld_bytes_state by (metis surj_pair snd_conv)
  show "boot_inv sc n c k'"
    using assms l by (auto simp: boot_ramdisk_def bindS_def liftS_def boot_inv_def kernel_inv_def split: if_splits sum.splits prod.splits)
  show "ramdisk_size info = 0 \<Longrightarrow> r = Inr ()" using assms(2) by (simp add: boot_ramdisk_def)
qed

text \<open>Everything before the file systems.\<close>

definition boot_devices :: "boot_env \<Rightarrow> config_space \<Rightarrow> 'c mmio \<Rightarrow> BootInfo \<Rightarrow> (nat \<Rightarrow> u32) \<Rightarrow> (('c, 'd) boot, unit) op" where
  "boot_devices env cfg io info fb =
     bindS (on_bk (on_mm (modS (\<lambda>st. st\<lparr>ram := zero_bss (bss_start env) (bss_len env) (ram st)\<rparr>)))) (\<lambda>_.
     bindS (on_bk (boot_writer info fb)) (\<lambda>_.
     bindS (on_bk (boot_memory env info)) (\<lambda>_.
     bindS (boot_disk cfg io) (\<lambda>_.
     on_bk (boot_tasks env)))))"

lemma kernel_boot_devices:
  "kernel_boot env cfg io hba info fb = bindS (boot_devices env cfg io info fb) (\<lambda>_. bindS (on_bk (boot_ramdisk info)) (\<lambda>_. on_bk (boot_mount hba)))"
  by (simp add: kernel_boot_def boot_devices_def bindS_assoc)

lemma boot_devices_ok:
  fixes b :: "('c, 'd) boot"
  assumes "cold (b_kernel b)"
  shows "okS (boot_devices env cfg io info fb) b (\<lambda>_ b. \<exists>t. task_id t = 1 \<and> task_cr3 t = kt_PML4 (be_kt env) \<and>
    boot_inv \<lparr>tasks = [t], current_task = Some (main_task 0 (kt_PML4 (be_kt env)))\<rparr> 2 (kt_PML4 (be_kt env)) (b_kernel b))"
proof -
  let ?c = "kt_PML4 (be_kt env)"
  have "kernel_inv (b_kernel b)" "k_sched (b_kernel b) = scheduler_new" "k_next_id (b_kernel b) = 0"
    using assms by (simp_all add: cold_def kernel_inv_def pmm_inv_new pipes_inv_new kbuf_init_inv tasks_inv_def all_tasks_def scheduler_new_def)
  then have z: "okS (on_bk (on_mm (modS (\<lambda>st. st\<lparr>ram := zero_bss (bss_start env) (bss_len env) (ram st)\<rparr>)))) b
      (\<lambda>_ b. kernel_inv (b_kernel b) \<and> k_sched (b_kernel b) = scheduler_new \<and> k_next_id (b_kernel b) = 0)"
    by (intro okS_on_bk) (auto simp: okS_def on_mm_def kernel_inv_def)
  have w: "okS (on_bk (boot_writer info fb)) b (\<lambda>_ b. kernel_inv (b_kernel b) \<and> k_sched (b_kernel b) = scheduler_new \<and> k_next_id (b_kernel b) = 0)"
    if "kernel_inv (b_kernel b) \<and> k_sched (b_kernel b) = scheduler_new \<and> k_next_id (b_kernel b) = 0" for b :: "('c, 'd) boot"
    using that by (intro okS_on_bk) (auto simp: okS_def boot_writer_def kernel_inv_def)
  have m: "okS (on_bk (boot_memory env info)) b (\<lambda>_ b. boot_inv scheduler_new 0 ?c (b_kernel b))"
    if "kernel_inv (b_kernel b) \<and> k_sched (b_kernel b) = scheduler_new \<and> k_next_id (b_kernel b) = 0" for b :: "('c, 'd) boot"
    using that boot_memory_ok [of "b_kernel b" env info] by (intro okS_on_bk) simp
  let ?T = "\<lambda>b :: ('c, 'd) boot. \<exists>t. task_id t = 1 \<and> task_cr3 t = ?c \<and> boot_inv \<lparr>tasks = [t], current_task = Some (main_task 0 ?c)\<rparr> 2 ?c (b_kernel b)"
  have t: "okS (on_bk (boot_tasks env)) b (\<lambda>_. ?T)" if "boot_inv scheduler_new 0 ?c (b_kernel b)" for b :: "('c, 'd) boot"
    by (rule okS_on_bk, rule okS_mono [OF boot_tasks_ok [OF that]]) auto
  show ?thesis
    unfolding boot_devices_def okS_bind
    by (rule okS_mono [OF z], rule okS_mono [OF w], assumption, rule okS_mono [OF m], assumption, rule okS_mono [OF boot_disk_ok], assumption, rule t)
qed


definition demo_cold :: "(unit, nat \<Rightarrow> sector) boot" where
  "demo_cold = \<lparr>b_kernel = (demo_kernel \<lparr>frames = pmm_new, ram = (\<lambda>_. 0)\<rparr>)\<lparr>k_next_id := 0, k_sched := scheduler_new, k_vfs := VFS\<rparr>, b_abar = 0, b_ctl = (), b_devices = []\<rparr>"

definition demo_info :: BootInfo where
  "demo_info = \<lparr>framebuffer_size = 0, screen_width = 640, screen_height = 480, memory_map = [demo_region], ramdisk_addr = 0, ramdisk_size = 0\<rparr>"

definition demo_boot_env :: boot_env where
  "demo_boot_env = \<lparr>be_kt = demo_kt, bss_start = 0x200000, bss_len = 0x8000, heartbeat = 0xFFFFFFFF80210000, heartbeat_stack = 0xFFFFFFFF80900000\<rparr>"


end
