(* ===== verification/Trampoline.thy ===== *)
theory Trampoline
  imports Smp Gdt AddressSpace
begin

text \<open>
  The start code of the other processors (the assembly of ross-kernel/src/smp.rs between \<^verbatim>\<open>ap_trampoline_start\<close> and \<^verbatim>\<open>ap_trampoline_end\<close>, and the first lines
  of \<^verbatim>\<open>ap_main\<close>): from real mode through protected mode to 64 bit mode. The instructions act on the registers and the memory as the manual of
  the processor says, as far as the code uses them: loading a selector reads its descriptor from the table in memory, an address goes
  through the page tables once paging is on, and there is no handler for exceptions yet, so that a fault stops the processor. Each definition is one part of the
  code, instruction by instruction.
\<close>

section \<open>The processor\<close>

datatype cpu_mode = Real16 | Prot16 | Prot32 | Long64

record ap =
  p_mode :: cpu_mode
  p_cr0 :: u64
  p_cr3 :: u64
  p_cr4 :: u64
  p_efer :: u64
  p_if :: bool
  p_df :: bool
  p_gdt :: "u16 \<times> u64"
  p_cs :: u16
  p_ds :: u16
  p_es :: u16
  p_ss :: u16
  p_ds_base :: u64
  p_rip :: u64
  p_rsp :: u64
  p_rbp :: u64
  p_mem :: mem

definition fault :: "(ap, 'a) op" where
  "fault = throwS (Panic ''triple fault'')"

text \<open>From a linear to a physical address. Write protection of ring 0 (CR0.WP) is off after INIT.\<close>

definition xlat :: "u64 \<Rightarrow> (ap, u64) op" where
  "xlat v = (\<lambda>s. if bit (p_cr0 s) 31
     then (case walk (p_mem s) (p_cr3 s) v of Some (p, _) \<Rightarrow> (Inr p, s) | None \<Rightarrow> fault s)
     else (Inr v, s))"

primrec ld_lin :: "nat \<Rightarrow> u64 \<Rightarrow> (ap, u8 list) op" where
  "ld_lin 0 v = retS []"
| "ld_lin (Suc n) v = bindS (xlat v) (\<lambda>p. bindS (getS (\<lambda>s. p_mem s p)) (\<lambda>b. bindS (ld_lin n (v + 1)) (\<lambda>bs. retS (b # bs))))"

primrec st_lin :: "u64 \<Rightarrow> u8 list \<Rightarrow> (ap, unit) op" where
  "st_lin v [] = retS ()"
| "st_lin v (b # bs) = bindS (xlat v) (\<lambda>p. bindS (modS (\<lambda>s. s\<lparr>p_mem := (p_mem s)(p := b)\<rparr>)) (\<lambda>_. st_lin (v + 1) bs))"

text \<open>A data operand: segment DS has a base outside 64 bit mode only.\<close>

definition ld_ds :: "nat \<Rightarrow> u64 \<Rightarrow> (ap, u8 list) op" where
  "ld_ds n off = bindS (getS (\<lambda>s. if p_mode s = Long64 then off else p_ds_base s + off)) (ld_lin n)"

text \<open>The descriptor of a selector, and the loading of code and data selectors.\<close>

definition load_desc :: "u16 \<Rightarrow> (ap, seg) op" where
  "load_desc sel =
     bindS (getS p_gdt) (\<lambda>(limit, base).
     if sel AND NOT 7 = 0 \<or> limit < sel OR 7 then fault
     else bindS (ld_lin 8 (base + ucast (sel AND NOT 7))) (\<lambda>d. retS (decode_seg (le_word d))))"

definition load_cs :: "u16 \<Rightarrow> (ap, unit) op" where
  "load_cs sel =
     bindS (load_desc sel) (\<lambda>d.
     bindS (getS (\<lambda>s. bit (p_efer s) 10)) (\<lambda>lma.
     if \<not> seg_present d \<or> \<not> seg_code d \<or> lma \<and> seg_long d \<and> bit (seg_flags d) 2 then fault
     else modS (\<lambda>s. s\<lparr>p_cs := sel, p_mode := (if lma \<and> seg_long d then Long64 else if bit (seg_flags d) 2 then Prot32 else Prot16)\<rparr>)))"

definition load_data :: "u16 \<Rightarrow> (ap, u64) op" where
  "load_data sel =
     bindS (getS p_mode) (\<lambda>mode.
     if mode = Long64 \<and> sel = 0 then retS 0
     else bindS (load_desc sel) (\<lambda>d. if seg_present d \<and> seg_data d then retS (ucast (seg_base d)) else fault))"

text \<open>\<^verbatim>\<open>mov ds, ax; mov es, ax; mov ss, ax\<close>\<close>

definition set_segments :: "u16 \<Rightarrow> (ap, unit) op" where
  "set_segments sel =
     bindS (load_data sel) (\<lambda>base. bindS (modS (\<lambda>s. s\<lparr>p_ds := sel, p_ds_base := base\<rparr>)) (\<lambda>_.
     bindS (load_data sel) (\<lambda>_. bindS (modS (\<lambda>s. s\<lparr>p_es := sel\<rparr>)) (\<lambda>_.
     bindS (load_data sel) (\<lambda>_. modS (\<lambda>s. s\<lparr>p_ss := sel\<rparr>))))))"

text \<open>The next instruction must be mapped.\<close>

definition jump :: "u64 \<Rightarrow> (ap, unit) op" where
  "jump a = bindS (xlat a) (\<lambda>_. modS (\<lambda>s. s\<lparr>p_rip := a\<rparr>))"

definition far_jump :: "u16 \<Rightarrow> u64 \<Rightarrow> (ap, unit) op" where
  "far_jump sel a = bindS (load_cs sel) (\<lambda>_. jump a)"

text \<open>\<^verbatim>\<open>mov cr0, eax\<close>: paging needs protection, in long mode the extended tables too, and makes long mode active.\<close>

definition set_cr0 :: "u64 \<Rightarrow> (ap, unit) op" where
  "set_cr0 v = (\<lambda>s.
     if bit v 31 \<and> (\<not> bit v 0 \<or> bit (p_efer s) 8 \<and> \<not> bit (p_cr4 s) 5) then fault s
     else (Inr (), s\<lparr>p_cr0 := v, p_efer := (if bit v 31 \<and> bit (p_efer s) 8 then p_efer s OR 0x400 else p_efer s)\<rparr>))"

definition push_q :: "u64 \<Rightarrow> (ap, unit) op" where
  "push_q v = bindS (modS (\<lambda>s. s\<lparr>p_rsp := p_rsp s - 8\<rparr>)) (\<lambda>_. bindS (getS p_rsp) (\<lambda>a. st_lin a (le_bytes 8 v)))"

definition pop_q :: "(ap, u64) op" where
  "pop_q = bindS (getS p_rsp) (\<lambda>a. bindS (ld_lin 8 a) (\<lambda>d. bindS (modS (\<lambda>s. s\<lparr>p_rsp := p_rsp s + 8\<rparr>)) (\<lambda>_. retS (le_word d))))"

definition lretq :: "(ap, unit) op" where
  "lretq = bindS pop_q (\<lambda>a. bindS pop_q (\<lambda>sel. far_jump (ucast sel) a))"

section \<open>The code\<close>

text \<open>The offsets of the labels in the code, which the assembler decides; \<open>lbl_ret\<close> is the instruction behind the call.\<close>

record labels =
  lbl_pm32 :: u64
  lbl_lm64 :: u64
  lbl_after_cs :: u64
  lbl_ret :: u64

definition ap_real16 :: "labels \<Rightarrow> (ap, unit) op" where
  "ap_real16 l =
     bindS (modS (\<lambda>s. s\<lparr>p_if := False\<rparr>)) (\<lambda>_.
     bindS (modS (\<lambda>s. s\<lparr>p_df := False\<rparr>)) (\<lambda>_.
     bindS (modS (\<lambda>s. s\<lparr>p_ds := 0, p_ds_base := 0, p_es := 0, p_ss := 0\<rparr>)) (\<lambda>_.
     bindS (ld_ds 6 0x8F20) (\<lambda>d.
     bindS (modS (\<lambda>s. s\<lparr>p_gdt := (le_word (take 2 d), take_bit 24 (le_word (drop 2 d)))\<rparr>)) (\<lambda>_.
     bindS (getS p_cr0) (\<lambda>eax.
     bindS (set_cr0 (eax OR 1)) (\<lambda>_.
     far_jump 0x08 (lbl_pm32 l + 0x8000))))))))"

definition ap_pm32 :: "labels \<Rightarrow> (ap, unit) op" where
  "ap_pm32 l =
     bindS (set_segments 0x10) (\<lambda>_.
     bindS (modS (\<lambda>s. s\<lparr>p_rsp := 0x8FF0\<rparr>)) (\<lambda>_.
     bindS (modS (\<lambda>s. s\<lparr>p_cr4 := p_cr4 s OR 0x20\<rparr>)) (\<lambda>_.
     bindS (ld_ds 4 0x8F00) (\<lambda>eax.
     bindS (modS (\<lambda>s. s\<lparr>p_cr3 := le_word eax\<rparr>)) (\<lambda>_.
     bindS (modS (\<lambda>s. s\<lparr>p_efer := p_efer s OR 0x100\<rparr>)) (\<lambda>_.
     bindS (getS p_cr0) (\<lambda>eax.
     bindS (set_cr0 (eax OR 0x80000001)) (\<lambda>_.
     far_jump 0x18 (lbl_lm64 l + 0x8000)))))))))"

definition ap_lm64 :: "labels \<Rightarrow> (ap, unit) op" where
  "ap_lm64 l =
     bindS (set_segments 0) (\<lambda>_.
     bindS (ld_ds 10 0x8F28) (\<lambda>d.
     bindS (modS (\<lambda>s. s\<lparr>p_gdt := (le_word (take 2 d), le_word (drop 2 d))\<rparr>)) (\<lambda>_.
     bindS (push_q 0x08) (\<lambda>_.
     bindS (push_q (lbl_after_cs l + 0x8000)) (\<lambda>_.
     bindS lretq (\<lambda>_.
     bindS (ld_ds 8 0x8F08) (\<lambda>d.
     bindS (modS (\<lambda>s. s\<lparr>p_rsp := le_word d\<rparr>)) (\<lambda>_.
     bindS (modS (\<lambda>s. s\<lparr>p_rbp := 0\<rparr>)) (\<lambda>_.
     bindS (ld_ds 8 0x8F10) (\<lambda>rax.
     bindS (push_q (lbl_ret l + 0x8000)) (\<lambda>_.
     jump (le_word rax))))))))))))"

text \<open>The inline assembly at the start of \<^verbatim>\<open>ap_main\<close>.\<close>

definition ap_main_segments :: "(ap, unit) op" where
  "ap_main_segments = set_segments 0x10"

definition ap_start :: "labels \<Rightarrow> (ap, unit) op" where
  "ap_start l = bindS (ap_real16 l) (\<lambda>_. bindS (ap_pm32 l) (\<lambda>_. bindS (ap_lm64 l) (\<lambda>_. ap_main_segments)))"

text \<open>What INIT and a start-up interrupt with vector 8 leave: real mode at 0800:0000, paging and protection off.\<close>

definition sipi_state :: "mem \<Rightarrow> ap \<Rightarrow> bool" where
  "sipi_state m s \<longleftrightarrow> p_mode s = Real16 \<and> p_cr0 s = 0x60000010 \<and> p_cr4 s = 0 \<and> p_efer s = 0 \<and> p_cs s = 0x0800 \<and> p_rip s = 0 \<and> p_mem s = m"

section \<open>Addresses\<close>

lemma xlat_off [simp]: "\<not> bit (p_cr0 s) 31 \<Longrightarrow> xlat v s = (Inr v, s)"
  by (simp add: xlat_def)

text \<open>The addresses the tables of the kernel map: the first 4 GiB to themselves, the alias to the first 2 GiB.\<close>

definition tr :: "u64 \<Rightarrow> u64 \<Rightarrow> bool" where
  "tr v p \<longleftrightarrow> v = p \<and> v < 0x100000000 \<or> p < 0x80000000 \<and> v = p + KERNEL_VMA_BASE"

definition paged :: "kernel_tables \<Rightarrow> ap \<Rightarrow> bool" where
  "paged kt s \<longleftrightarrow> kt_ok kt \<and> bit (p_cr0 s) 31 \<and> p_cr3 s = kt_PML4 kt \<and> boot_map kt (p_mem s)"

lemma xlat_on: "paged kt s \<Longrightarrow> tr v p \<Longrightarrow> xlat v s = (Inr p, s)"
  using boot_map_low [of kt "p_mem s" v] boot_map_alias [of kt "p_mem s" p] by (auto simp: xlat_def paged_def tr_def)

lemma ld_lin_run:
  assumes "\<And>i. i < n \<Longrightarrow> xlat (v + of_nat i) s = (Inr (p + of_nat i), s)"
  shows "ld_lin n v s = (Inr (rd_bytes (p_mem s) p n), s)"
  using assms
proof (induction n arbitrary: v p)
  case (Suc n)
  have "ld_lin n (v + 1) s = (Inr (rd_bytes (p_mem s) (p + 1) n), s)"
    using Suc.prems [of "Suc i" for i] by (intro Suc.IH) (simp add: add.assoc)
  moreover have "rd_bytes (p_mem s) p (Suc n) = p_mem s p # rd_bytes (p_mem s) (p + 1) n"
    unfolding rd_bytes_def upt_conv_Cons [OF zero_less_Suc] map_Suc_upt [symmetric] by (simp add: add.assoc)
  ultimately show ?case using Suc.prems [of 0] by (simp add: bindS_def)
qed (simp add: rd_bytes_def)

lemma ld_lin_off: "\<not> bit (p_cr0 s) 31 \<Longrightarrow> ld_lin n v s = (Inr (rd_bytes (p_mem s) v n), s)"
  by (rule ld_lin_run) simp

lemma ld_lin_on: "paged kt s \<Longrightarrow> (\<And>i. i < n \<Longrightarrow> tr (v + of_nat i) (p + of_nat i)) \<Longrightarrow> ld_lin n v s = (Inr (rd_bytes (p_mem s) p n), s)"
  by (rule ld_lin_run) (rule xlat_on)

lemma wr_bytes_Cons:
  assumes "length bs < 2 ^ 64 - 1"
  shows "wr_bytes (a + 1) bs (m(a := b)) = wr_bytes a (b # bs) m"
proof
  fix x
  show "wr_bytes (a + 1) bs (m(a := b)) x = wr_bytes a (b # bs) m x"
  proof (cases "x = a")
    case True
    have "a - (a + 1) = - 1" by simp
    then have "unat (a - (a + 1)) = 2 ^ 64 - 1" by (simp add: unsigned_minus_1_eq_mask mask_eq_exp_minus_1)
    then show ?thesis using True assms by (simp add: wr_bytes_def)
  next
    case False
    then have "unat (x - a) = Suc (unat (x - (a + 1)))" using unat_minus_one [of "x - a"] by (simp add: diff_diff_eq unat_gt_0)
    then show ?thesis using False by (simp add: wr_bytes_def)
  qed
qed

lemma st_lin_run:
  assumes "paged kt s" and "\<And>i. i < length bs \<Longrightarrow> tr (v + of_nat i) (p + of_nat i)" and "length bs < 2 ^ 64 - 1"
    and "\<And>i. i < length bs \<Longrightarrow> page_base (p + of_nat i) \<notin> set (kt_list kt)"
  shows "st_lin v bs s = (Inr (), s\<lparr>p_mem := wr_bytes p bs (p_mem s)\<rparr>) \<and> boot_map kt (wr_bytes p bs (p_mem s))"
  using assms
proof (induction bs arbitrary: v p s)
  case Nil
  then show ?case by (simp add: wr_bytes_def paged_def)
next
  case (Cons b bs)
  let ?s = "s\<lparr>p_mem := (p_mem s)(p := b)\<rparr>"
  have t: "touched_only {page_base p} (p_mem s) ((p_mem s)(p := b))" by (simp add: touched_only_def)
  have "boot_map kt ((p_mem s)(p := b))"
    using Cons.prems(1) Cons.prems(4) [of 0] by (intro boot_map_touched [OF _ _ t]) (auto simp: paged_def)
  then have "paged kt ?s" using Cons.prems(1) by (simp add: paged_def)
  moreover have "tr (v + 1 + of_nat i) (p + 1 + of_nat i)" "page_base (p + 1 + of_nat i) \<notin> set (kt_list kt)" if "i < length bs" for i
    using Cons.prems(2,4) [of "Suc i"] that by (simp_all add: add.assoc)
  ultimately have "st_lin (v + 1) bs ?s = (Inr (), ?s\<lparr>p_mem := wr_bytes (p + 1) bs (p_mem ?s)\<rparr>) \<and> boot_map kt (wr_bytes (p + 1) bs (p_mem ?s))"
    using Cons.prems(3) by (intro Cons.IH) auto
  then have "st_lin (v + 1) bs ?s = (Inr (), s\<lparr>p_mem := wr_bytes p (b # bs) (p_mem s)\<rparr>) \<and> boot_map kt (wr_bytes p (b # bs) (p_mem s))"
    using wr_bytes_Cons [of bs p "p_mem s" b] Cons.prems(3) by simp
  moreover have "xlat v s = (Inr p, s)" using xlat_on [OF Cons.prems(1) Cons.prems(2) [of 0]] by simp
  moreover have "st_lin v (b # bs) s = st_lin (v + 1) bs ?s" if "xlat v s = (Inr p, s)" using that by (simp add: bindS_def)
  ultimately show ?case by metis
qed

lemma rd_bytes_append: "rd_bytes m a (i + j) = rd_bytes m a i @ rd_bytes m (a + of_nat i) j"
proof -
  have "[0 ..< i + j] = [0 ..< i] @ map (\<lambda>k. k + i) [0 ..< j]"
    using upt_add_eq_append [of 0 i j] map_add_upt [of i j] by (simp only: add.commute [of i j])
  moreover have "a + of_nat (k + i) = a + of_nat i + of_nat k" for k by simp
  ultimately show ?thesis by (simp only: rd_bytes_def map_append map_map comp_def)
qed

section \<open>Descriptors\<close>

lemma load_desc_run:
  assumes "p_gdt s = (limit, base)" and "sel AND NOT 7 \<noteq> 0" and "sel OR 7 \<le> limit" and "ld_lin 8 (base + ucast (sel AND NOT 7)) s = (Inr d, s)"
  shows "load_desc sel s = (Inr (decode_seg (le_word d)), s)"
  using assms by (simp add: load_desc_def bindS_def fault_def not_less)

text \<open>The three descriptors of the small table: 32 bit code, data with base 0, 64 bit code.\<close>

lemma mini_code32: "seg_present (decode_seg 0x00CF9A000000FFFF)" "seg_code (decode_seg 0x00CF9A000000FFFF)"
  "bit (seg_flags (decode_seg 0x00CF9A000000FFFF)) 2" "\<not> seg_long (decode_seg 0x00CF9A000000FFFF)"
  by (simp_all add: decode_seg_def seg_present_def seg_code_def seg_long_def bit_simps)

lemma mini_data32: "seg_present (decode_seg 0x00CF92000000FFFF)" "seg_data (decode_seg 0x00CF92000000FFFF)" "seg_base (decode_seg 0x00CF92000000FFFF) = 0"
  by (simp_all add: decode_seg_def seg_present_def seg_data_def bit_simps)

lemma mini_code64: "seg_present (decode_seg 0x00209A0000000000)" "seg_code (decode_seg 0x00209A0000000000)"
  "\<not> bit (seg_flags (decode_seg 0x00209A0000000000)) 2" "seg_long (decode_seg 0x00209A0000000000)"
  by (simp_all add: decode_seg_def seg_present_def seg_code_def seg_long_def bit_simps)

section \<open>The three parts\<close>

lemma ap_page_gdt:
  assumes "ap_page env c3 st m"
  shows "rd64 m 0x8F48 = 0x00CF9A000000FFFF" "rd64 m 0x8F50 = 0x00CF92000000FFFF" "rd64 m 0x8F58 = 0x00209A0000000000"
proof -
  have "[0 ..< 4] = [0, 1, 2, 3 :: nat]" by (simp add: upt_rec)
  then show "rd64 m 0x8F48 = 0x00CF9A000000FFFF" "rd64 m 0x8F50 = 0x00CF92000000FFFF" "rd64 m 0x8F58 = 0x00209A0000000000"
    using assms unfolding ap_page_def by simp_all
qed

lemma ap_real16_run:
  assumes s: "sipi_state m s" and pg: "ap_page env c3 st m"
  shows "okS (ap_real16 l) s (\<lambda>_ s'. p_mode s' = Prot32 \<and> p_cr0 s' = 0x60000011 \<and> p_cr4 s' = 0 \<and> p_efer s' = 0 \<and> \<not> p_if s' \<and>
    p_gdt s' = (0x1F, 0x8F40) \<and> p_rip s' = lbl_pm32 l + 0x8000 \<and> p_mem s' = m)"
proof -
  have d: "rd_bytes m 0x8F20 6 = le_bytes 2 (0x1F :: u16) @ le_bytes 4 (0x8F40 :: u32)"
    using pg rd_bytes_append [of m "0x8F20" 2 4] by (simp add: ap_page_def)
  have w: "(le_word (le_bytes 2 (0x1F :: u16)) :: u16) = 0x1F" "take_bit 24 (le_word (le_bytes 4 (0x8F40 :: u32)) :: u64) = 0x8F40"
    by (code_simp, code_simp)
  have off: "\<not> bit (0x60000010 :: u64) 31" "\<not> bit (0x60000011 :: u64) 31" by (simp_all add: bit_simps)
  have r: "le_word (rd_bytes m 0x8F48 8) = (0x00CF9A000000FFFF :: u64)" using ap_page_gdt(1) [OF pg] by (simp add: rd64_def)
  show ?thesis
    using s unfolding ap_real16_def okS_bind okS_mod okS_get
    apply (simp add: sipi_state_def ld_ds_def bindS_def okS_def ld_lin_off off d w set_cr0_def far_jump_def load_cs_def load_desc_def r mini_code32 jump_def)
    done
qed

lemma le_word_take: "le_word (take n bs) = take_bit (8 * n) (le_word bs :: u64)"
proof (induction n arbitrary: bs)
  case (Suc n)
  show ?case
  proof (cases bs)
    case (Cons b bs')
    have "bit b k \<Longrightarrow> k < 8 + 8 * n" for k using bit_imp_le_length [of b k] by simp
    then show ?thesis using Cons Suc.IH [of bs'] by (intro bit_word_eqI) (auto simp: bit_simps)
  qed simp
qed simp

lemma rd32_low: "le_word (rd_bytes m a 4) = take_bit 32 (rd64 m a)"
proof -
  have "rd_bytes m a 4 = take 4 (rd_bytes m a 8)" using rd_bytes_append [of m a 4 4] by (simp add: rd_bytes_def)
  then show ?thesis by (simp add: rd64_def le_word_take)
qed

lemma take_bit_32_low: "c < 0x100000000 \<Longrightarrow> take_bit 32 (c :: u64) = c"
  by (rule take_bit_small) (simp add: word_less_nat_alt)

lemma tr_low: "v < 0x100000000 - 16 \<Longrightarrow> i < 16 \<Longrightarrow> tr (v + of_nat i) (v + of_nat i)"
  by (auto simp: tr_def word_less_nat_alt unat_word_ariths unat_of_nat)

lemma ap_pm32_run:
  assumes s: "p_mode s = Prot32" "p_cr0 s = 0x60000011" "p_cr4 s = 0" "p_efer s = 0" "p_gdt s = (0x1F, 0x8F40)" "p_mem s = m"
    and pg: "ap_page env (kt_PML4 kt) st m" and kt: "kt_ok kt" "boot_map kt m" and l: "lbl_lm64 l < 0x1000"
  shows "okS (ap_pm32 l) s (\<lambda>_ s'. p_mode s' = Long64 \<and> p_cr0 s' = 0xE0000011 \<and> p_cr3 s' = kt_PML4 kt \<and> p_efer s' = 0x500 \<and>
    p_if s' = p_if s \<and> p_rsp s' = 0x8FF0 \<and> p_mem s' = m)"
proof -
  have off: "\<not> bit (0x60000011 :: u64) 31" and on: "bit (0xE0000011 :: u64) 31" "bit (0xE0000011 :: u64) 0" by (simp_all add: bit_simps)
  have e: "bit (0x100 :: u64) 8" "bit (0x20 :: u64) 5" "bit (0x500 :: u64) 10" by (simp_all add: bit_simps)
  have r: "le_word (rd_bytes m 0x8F50 8) = (0x00CF92000000FFFF :: u64)" "le_word (rd_bytes m 0x8F58 8) = (0x00209A0000000000 :: u64)"
    using ap_page_gdt [OF pg] by (simp_all add: rd64_def)
  have "kt_PML4 kt < 0x100000000" using kt_okD(7) [OF kt(1)] by (simp add: word_less_nat_alt)
  then have c3: "le_word (rd_bytes m 0x8F00 4) = kt_PML4 kt" using pg by (simp add: rd32_low ap_page_def take_bit_32_low)
  have p: "paged kt x" if "p_cr0 x = 0xE0000011" "p_cr3 x = kt_PML4 kt" "p_mem x = m" for x using that kt on by (simp add: paged_def)
  have ld: "ld_lin 8 0x8F58 x = (Inr (rd_bytes m 0x8F58 8), x)" if "p_cr0 x = 0xE0000011" "p_cr3 x = kt_PML4 kt" "p_mem x = m" for x
    using ld_lin_on [OF p [OF that], of 8 "0x8F58" "0x8F58"] tr_low [of "0x8F58"] that(3) by simp
  have ad: "lbl_lm64 l + 0x8000 < 0x100000000" using l by (simp add: word_less_nat_alt unat_word_ariths)
  have j: "xlat (lbl_lm64 l + 0x8000) x = (Inr (lbl_lm64 l + 0x8000), x)" if "p_cr0 x = 0xE0000011" "p_cr3 x = kt_PML4 kt" "p_mem x = m" for x
    using xlat_on [OF p [OF that], of "lbl_lm64 l + 0x8000" "lbl_lm64 l + 0x8000"] ad by (simp add: tr_def)
  show ?thesis
    using s unfolding ap_pm32_def
    by (simp add: set_segments_def load_data_def ld_ds_def bindS_def okS_def ld_lin_off off on e set_cr0_def far_jump_def load_cs_def load_desc_def r c3
        mini_data32 mini_code64 jump_def ld j)
qed

lemma push_q_run:
  assumes "paged kt s" and "\<And>i. i < 8 \<Longrightarrow> tr (p_rsp s - 8 + of_nat i) (p + of_nat i)" and "\<And>i. i < 8 \<Longrightarrow> page_base (p + of_nat i) \<notin> set (kt_list kt)"
  shows "push_q v s = (Inr (), s\<lparr>p_rsp := p_rsp s - 8, p_mem := wr64 p v (p_mem s)\<rparr>) \<and> boot_map kt (wr64 p v (p_mem s))"
proof -
  have "paged kt (s\<lparr>p_rsp := p_rsp s - 8\<rparr>)" using assms(1) by (simp add: paged_def)
  from st_lin_run [OF this, of "le_bytes 8 v" "p_rsp s - 8" p] assms(2,3) show ?thesis by (simp add: push_q_def bindS_def wr64_def)
qed

lemma pop_q_run:
  assumes "paged kt s" and "\<And>i. i < 8 \<Longrightarrow> tr (p_rsp s + of_nat i) (p + of_nat i)"
  shows "pop_q s = (Inr (rd64 (p_mem s) p), s\<lparr>p_rsp := p_rsp s + 8\<rparr>)"
  using ld_lin_on [OF assms] by (simp add: pop_q_def bindS_def rd64_def)

lemma page_8000: "i < 0x1000 \<Longrightarrow> page_base (0x8000 + i) = 0x8000"
proof -
  assume "i < 0x1000"
  then have "unat ((0x8000 + i) - 0x8000) < 4096" by (simp add: word_less_nat_alt)
  then show ?thesis by (subst (asm) in_frame) (simp_all add: aligned_def)
qed

lemma wr64_touched: "(\<And>i. i < 8 \<Longrightarrow> page_base (p + of_nat i) \<in> T) \<Longrightarrow> touched_only T m (wr64 p v m)"
  unfolding touched_only_def wr64_def wr_bytes_def
proof (intro allI impI)
  fix x assume T: "\<And>i. i < 8 \<Longrightarrow> page_base (p + of_nat i) \<in> T" and x: "page_base x \<notin> T"
  have "\<not> unat (x - p) < 8" using T [of "unat (x - p)"] x by auto
  then show "(if unat (x - p) < length (le_bytes 8 v) then le_bytes 8 v ! unat (x - p) else m x) = m x" by simp
qed

text \<open>What the kernel gives a processor beside the page at 0x8000: its descriptor table and the stack, both behind the alias.\<close>

definition gdt_at :: "mem \<Rightarrow> u64 \<Rightarrow> Gdt \<Rightarrow> bool" where
  "gdt_at m a g \<longleftrightarrow> (\<forall>i < length g. rd64 m (a + 8 * of_nat i) = g ! i)"

lemma alias_range:
  assumes "unat p + n \<le> 0x80000000" and "i < n"
  shows "tr (p + KERNEL_VMA_BASE + of_nat i) (p + of_nat i)"
proof -
  have "unat (p + of_nat i) = unat p + i" using assms by (simp add: unat_word_ariths unat_of_nat)
  then have "p + of_nat i < 0x80000000" using assms by (simp add: word_less_nat_alt)
  then show ?thesis by (simp add: tr_def)
qed

lemma load_desc_kernel:
  assumes p: "paged kt s" and g: "p_gdt s = (limit, g + KERNEL_VMA_BASE)" "unat g + 64 \<le> 0x80000000" and sel: "sel = 0x08 \<or> sel = 0x10" "0x17 \<le> limit"
  shows "load_desc sel s = (Inr (decode_seg (rd64 (p_mem s) (g + ucast sel))), s)"
proof -
  have s: "sel AND NOT 7 = sel" "sel \<noteq> 0" "sel OR 7 \<le> limit" using sel by (auto simp: word_le_nat_alt)
  have "unat (g + ucast sel) = unat g + unat sel" using sel(1) g(2) by (auto simp: unat_word_ariths)
  then have "unat (g + ucast sel) + 8 \<le> 0x80000000" using sel(1) g(2) by auto
  from alias_range [OF this] have "ld_lin 8 (g + ucast sel + KERNEL_VMA_BASE) s = (Inr (rd_bytes (p_mem s) (g + ucast sel) 8), s)"
    by (intro ld_lin_on [OF p])
  then show ?thesis using load_desc_run [OF g(1), of sel] s by (simp add: rd64_def add.commute add.left_commute)
qed

lemma rd64_wr64_apart:
  assumes "unat a + 8 \<le> 2 ^ 64" and "unat b + 8 \<le> 2 ^ 64" and "apart (unat a, 8) (unat b, 8)"
  shows "rd64 (wr64 a v m) b = rd64 m b"
  using rd_bytes_wr_apart [of a "le_bytes 8 v" b 8 m] assms by (simp add: rd64_def wr64_def)

lemma kernel_segments_run:
  assumes p: "paged kt s" and g: "p_gdt s = (limit, g + KERNEL_VMA_BASE)" "unat g + 64 \<le> 0x80000000" "0x17 \<le> limit"
    and d: "rd64 (p_mem s) (g + 0x10) = create_gdt_entry 0 0 0x92 0x0"
  shows "set_segments 0x10 s = (Inr (), s\<lparr>p_ds := 0x10, p_ds_base := 0, p_es := 0x10, p_ss := 0x10\<rparr>)"
proof -
  have l: "load_data 0x10 x = (Inr 0, x)" if "paged kt x" "p_gdt x = p_gdt s" "p_mem x = p_mem s" for x
    using load_desc_kernel [OF that(1) _ g(2) _ g(3), of "0x10"] that g(1) d kinds(5,7) segs(2) by (simp add: load_data_def bindS_def)
  have q: "paged kt (s\<lparr>p_ds := a, p_ds_base := b\<rparr>)" "paged kt (s\<lparr>p_ds := a, p_ds_base := b, p_es := c\<rparr>)" for a b c
    using p by (simp_all add: paged_def)
  show ?thesis using p by (simp add: set_segments_def bindS_def l q)
qed

lemma far_jump_kernel:
  assumes p: "paged kt s" and g: "p_gdt s = (limit, g + KERNEL_VMA_BASE)" "unat g + 64 \<le> 0x80000000" "0x17 \<le> limit"
    and d: "rd64 (p_mem s) (g + 0x08) = create_gdt_entry 0 0 0x9A 0x2" and e: "bit (p_efer s) 10" and a: "tr a a'"
  shows "far_jump 0x08 a s = (Inr (), s\<lparr>p_cs := 0x08, p_mode := Long64, p_rip := a\<rparr>)"
proof -
  have "\<not> bit (seg_flags (decode_seg (create_gdt_entry 0 0 0x9A 0x2))) 2" by (simp add: segs bit_simps)
  then have "load_cs 0x08 s = (Inr (), s\<lparr>p_cs := 0x08, p_mode := Long64\<rparr>)"
    using load_desc_kernel [OF p g(1,2) _ g(3), of "0x08"] d e kinds(1,2,4) by (simp add: load_cs_def bindS_def)
  moreover have "paged kt (s\<lparr>p_cs := 0x08, p_mode := Long64\<rparr>)" using p by (simp add: paged_def)
  ultimately show ?thesis using xlat_on [OF _ a] by (simp add: far_jump_def jump_def bindS_def)
qed

text \<open>
  The layout a start relies on: the tables of the kernel outside the page of the trampoline, the descriptor table of the kernel at the
  physical address \<open>g\<close>, eight bytes below \<open>sp\<close> for the return address, and no two of them in the same place.
\<close>

definition ap_layout :: "kernel_tables \<Rightarrow> smp_env \<Rightarrow> u64 \<Rightarrow> u64 \<Rightarrow> mem \<Rightarrow> bool" where
  "ap_layout kt env g sp m \<longleftrightarrow> kt_ok kt \<and> boot_map kt m \<and> 0x8000 \<notin> set (kt_list kt) \<and>
     kgdt_ptr env = g + KERNEL_VMA_BASE \<and> unat g + 64 \<le> 0x80000000 \<and> 0x17 \<le> kgdt_limit env \<and>
     rd64 m (g + 0x08) = create_gdt_entry 0 0 0x9A 0x2 \<and> rd64 m (g + 0x10) = create_gdt_entry 0 0 0x92 0x0 \<and>
     8 \<le> unat sp \<and> unat sp \<le> 0x80000000 \<and> (\<forall>i < 8. page_base (sp - 8 + of_nat i) \<notin> insert 0x8000 (set (kt_list kt))) \<and>
     apart (0x8000, 0x1000) (unat g, 64) \<and> apart (unat sp - 8, 8) (unat g, 64)"

lemma push_q_low:
  assumes "paged kt s" and "0x8000 \<notin> set (kt_list kt)" and a: "p_rsp s = a + 8" "0x8000 \<le> unat a" "unat a + 8 \<le> 0x9000"
  shows "push_q v s = (Inr (), s\<lparr>p_rsp := a, p_mem := wr64 a v (p_mem s)\<rparr>) \<and> boot_map kt (wr64 a v (p_mem s))"
proof -
  have "page_base (a + of_nat i) = 0x8000" if "i < 8" for i
  proof -
    have "unat (a - 0x8000 + of_nat i) < 0x1000" using a(2,3) that by (simp add: unat_word_ariths unat_of_nat unat_sub word_le_nat_alt)
    then show ?thesis using page_8000 [of "a - 0x8000 + of_nat i"] by (simp add: word_less_nat_alt)
  qed
  moreover have "tr (a + of_nat i) (a + of_nat i)" if "i < 8" for i
    using tr_low [of a i] a(3) that by (simp add: word_less_nat_alt)
  ultimately show ?thesis using push_q_run [OF assms(1), of a v] assms(2) a(1) by simp
qed

lemma pop_q_low:
  assumes "paged kt s" and "unat (p_rsp s) + 8 \<le> 0x9000"
  shows "pop_q s = (Inr (rd64 (p_mem s) (p_rsp s)), s\<lparr>p_rsp := p_rsp s + 8\<rparr>)"
  using tr_low [of "p_rsp s"] assms by (intro pop_q_run) (auto simp: word_less_nat_alt)

lemma ld_ds_low:
  assumes "paged kt s" and "p_mode s = Long64" and "unat a + n \<le> 0x9000" and "n \<le> 16"
  shows "ld_ds n a s = (Inr (rd_bytes (p_mem s) a n), s)"
  using ld_lin_on [OF assms(1), of n a a] tr_low [of a] assms by (simp add: ld_ds_def bindS_def word_less_nat_alt)

text \<open>The memory behind the three pushes, and what the code then reads from it.\<close>

definition ap_stacked :: "u64 \<Rightarrow> mem \<Rightarrow> mem" where
  "ap_stacked after m = wr64 0x8FE0 after (wr64 0x8FE8 0x08 m)"

lemma ap_stacked_reads:
  assumes "ap_layout kt env g sp m"
  shows "rd64 (ap_stacked a m) 0x8FE0 = a" "rd64 (ap_stacked a m) 0x8FE8 = 0x08"
    "rd64 (ap_stacked a m) 0x8F08 = rd64 m 0x8F08" "rd64 (ap_stacked a m) 0x8F10 = rd64 m 0x8F10"
    "rd64 (ap_stacked a m) (g + 0x08) = create_gdt_entry 0 0 0x9A 0x2"
    "rd64 (wr64 (sp - 8) r (ap_stacked a m)) (g + 0x10) = create_gdt_entry 0 0 0x92 0x0"
proof -
  have g: "unat g + 64 \<le> 0x80000000" and d: "rd64 m (g + 0x08) = create_gdt_entry 0 0 0x9A 0x2" "rd64 m (g + 0x10) = create_gdt_entry 0 0 0x92 0x0"
    and sp: "8 \<le> unat sp" "unat sp \<le> 0x80000000" and ap: "apart (0x8000, 0x1000) (unat g, 64)" "apart (unat sp - 8, 8) (unat g, 64)"
    using assms by (auto simp: ap_layout_def)
  have u: "unat (g + 0x08) = unat g + 8" "unat (g + 0x10) = unat g + 16" using g by (simp_all add: unat_word_ariths)
  have v: "unat (sp - 8) = unat sp - 8" using sp by (simp add: unat_sub word_le_nat_alt)
  have far: "apart (0x8FE0, 8) (unat g + k, 8)" "apart (0x8FE8, 8) (unat g + k, 8)" "apart (unat sp - 8, 8) (unat g + k, 8)" if "k + 8 \<le> 64" for k
    using ap that by (auto simp: apart_def)
  show "rd64 (ap_stacked a m) 0x8FE0 = a" by (simp add: ap_stacked_def rd64_wr64_same)
  show "rd64 (ap_stacked a m) 0x8FE8 = 0x08" "rd64 (ap_stacked a m) 0x8F08 = rd64 m 0x8F08" "rd64 (ap_stacked a m) 0x8F10 = rd64 m 0x8F10"
    by (simp_all add: ap_stacked_def rd64_wr64_apart rd64_wr64_same apart_def)
  show "rd64 (ap_stacked a m) (g + 0x08) = create_gdt_entry 0 0 0x9A 0x2"
    using d g far [of 8] by (simp add: ap_stacked_def rd64_wr64_apart u)
  show "rd64 (wr64 (sp - 8) r (ap_stacked a m)) (g + 0x10) = create_gdt_entry 0 0 0x92 0x0"
    using d g sp far [of 16] by (simp add: ap_stacked_def rd64_wr64_apart u v)
qed

lemma ap_stacked_rest:
  assumes "page_base x \<noteq> 0x8000"
  shows "ap_stacked a m x = m x"
proof -
  have "touched_only {0x8000} m' (wr64 b v m')" if "b = 0x8FE0 \<or> b = 0x8FE8" for b v m'
  proof (rule wr64_touched)
    fix i :: nat assume "i < 8"
    then have "0xFE0 + of_nat i < (0x1000 :: u64)" "0xFE8 + of_nat i < (0x1000 :: u64)" by (simp_all add: word_less_nat_alt unat_word_ariths unat_of_nat)
    then show "page_base (b + of_nat i) \<in> {0x8000}" using that page_8000 [of "0xFE0 + of_nat i"] page_8000 [of "0xFE8 + of_nat i"] by (auto simp: add.assoc [symmetric])
  qed
  then show ?thesis using assms by (simp add: ap_stacked_def touched_only_def)
qed

lemma lretq_run:
  assumes p: "paged kt s" and g: "p_gdt s = (limit, g + KERNEL_VMA_BASE)" "unat g + 64 \<le> 0x80000000" "0x17 \<le> limit" and e: "p_efer s = 0x500"
    and r: "p_rsp s = 0x8FE0" "rd64 (p_mem s) 0x8FE0 = a" "rd64 (p_mem s) 0x8FE8 = 0x08" "a < 0x9000"
    and d: "rd64 (p_mem s) (g + 0x08) = create_gdt_entry 0 0 0x9A 0x2"
  shows "lretq s = (Inr (), s\<lparr>p_rsp := 0x8FF0, p_cs := 0x08, p_mode := Long64, p_rip := a\<rparr>)"
proof -
  have q: "paged kt (s\<lparr>p_rsp := b\<rparr>)" for b using p by (simp add: paged_def)
  have pops: "pop_q s = (Inr a, s\<lparr>p_rsp := 0x8FE8\<rparr>)" "pop_q (s\<lparr>p_rsp := 0x8FE8\<rparr>) = (Inr 0x08, s\<lparr>p_rsp := 0x8FF0\<rparr>)"
    using pop_q_low [OF p] pop_q_low [OF q, of "0x8FE8"] r by simp_all
  have "a < 0x100000000" using r(4) by (simp add: word_less_nat_alt)
  then have t: "tr a a" by (simp add: tr_def)
  have "bit (0x500 :: u64) 10" by (simp add: bit_simps)
  then show ?thesis using far_jump_kernel [OF q _ g(2,3) _ _ t, of "0x8FF0"] g(1) d e by (simp add: lretq_def bindS_def pops)
qed

lemma ap_lm64_run:
  assumes s: "p_mode s = Long64" "p_cr0 s = 0xE0000011" "p_cr3 s = kt_PML4 kt" "p_efer s = 0x500" "p_rsp s = 0x8FF0" "p_mem s = m"
    and pg: "ap_page env c3 (sp + KERNEL_VMA_BASE) m" and lay: "ap_layout kt env g sp m"
    and e: "ap_main_addr env = e + KERNEL_VMA_BASE" "e < 0x80000000" and l: "lbl_after_cs l < 0x1000"
  shows "okS (bindS (ap_lm64 l) (\<lambda>_. ap_main_segments)) s (\<lambda>_ s'. p_mode s' = Long64 \<and> p_cr0 s' = 0xE0000011 \<and> p_cr3 s' = kt_PML4 kt \<and> p_cs s' = 0x08 \<and>
    p_ds s' = 0x10 \<and> p_es s' = 0x10 \<and> p_ss s' = 0x10 \<and> p_if s' = p_if s \<and> p_rip s' = ap_main_addr env \<and>
    p_rsp s' = sp + KERNEL_VMA_BASE - 8 \<and> p_rbp s' = 0 \<and> rd64 (p_mem s') (sp - 8) = lbl_ret l + 0x8000 \<and> boot_map kt (p_mem s') \<and>
    (\<forall>x. page_base x \<noteq> 0x8000 \<and> 8 \<le> unat (x - (sp - 8)) \<longrightarrow> p_mem s' x = m x))"
proof -
  have lay': "kt_ok kt" "boot_map kt m" "0x8000 \<notin> set (kt_list kt)" and g: "kgdt_ptr env = g + KERNEL_VMA_BASE" "unat g + 64 \<le> 0x80000000" "0x17 \<le> kgdt_limit env"
    and d: "rd64 m (g + 0x08) = create_gdt_entry 0 0 0x9A 0x2" "rd64 m (g + 0x10) = create_gdt_entry 0 0 0x92 0x0"
    and sp: "8 \<le> unat sp" "unat sp \<le> 0x80000000" "\<And>i. i < 8 \<Longrightarrow> page_base (sp - 8 + of_nat i) \<notin> insert 0x8000 (set (kt_list kt))"
    and ap: "apart (0x8000, 0x1000) (unat g, 64)" "apart (unat sp - 8, 8) (unat g, 64)"
    using lay by (auto simp: ap_layout_def)
  let ?a = "lbl_after_cs l + 0x8000"
  define m1 m2 m3 where "m1 = wr64 0x8FE8 0x08 m" and "m2 = ap_stacked ?a m" and "m3 = wr64 (sp - 8) (lbl_ret l + 0x8000) m2"
  note rd = ap_stacked_reads [OF lay, where a = ?a, folded m2_def]
  have on: "bit (0xE0000011 :: u64) 31" "bit (0x500 :: u64) 10" by (simp_all add: bit_simps)
  have P: "paged kt x" if "p_cr0 x = 0xE0000011" "p_cr3 x = kt_PML4 kt" "boot_map kt (p_mem x)" for x using that lay'(1) on by (simp add: paged_def)
  have b1: "push_q 0x08 x = (Inr (), x\<lparr>p_rsp := 0x8FE8, p_mem := m1\<rparr>) \<and> boot_map kt m1"
    if "p_cr0 x = 0xE0000011" "p_cr3 x = kt_PML4 kt" "p_mem x = m" "p_rsp x = 0x8FF0" for x
    using push_q_low [OF P lay'(3), of x "0x8FE8" "0x08"] lay'(2) that by (simp add: m1_def)
  then have bm1: "boot_map kt m1" using s by blast
  have b2: "push_q ?a x = (Inr (), x\<lparr>p_rsp := 0x8FE0, p_mem := m2\<rparr>) \<and> boot_map kt m2"
    if "p_cr0 x = 0xE0000011" "p_cr3 x = kt_PML4 kt" "p_mem x = m1" "p_rsp x = 0x8FE8" for x
    using push_q_low [OF P lay'(3), of x "0x8FE0"] bm1 that by (simp add: m1_def m2_def ap_stacked_def)
  have bm2: "boot_map kt m2" using b2 [of "s\<lparr>p_mem := m1, p_rsp := 0x8FE8\<rparr>"] s by simp
  have v: "unat (sp - 8) + 8 \<le> 0x80000000" using sp by (simp add: unat_sub word_le_nat_alt)
  have b3: "push_q (lbl_ret l + 0x8000) x = (Inr (), x\<lparr>p_rsp := sp + KERNEL_VMA_BASE - 8, p_mem := m3\<rparr>) \<and> boot_map kt m3"
    if "p_cr0 x = 0xE0000011" "p_cr3 x = kt_PML4 kt" "p_mem x = m2" "p_rsp x = sp + KERNEL_VMA_BASE" for x
    using push_q_run [OF P, of x "sp - 8" "lbl_ret l + 0x8000"] bm2 that alias_range [OF v] sp(3) by (simp add: m3_def algebra_simps)
  have bm3: "boot_map kt m3" using b3 [of "s\<lparr>p_mem := m2, p_rsp := sp + KERNEL_VMA_BASE\<rparr>"] s by simp
  have ld: "ld_ds n b x = (Inr (rd_bytes (p_mem x) b n), x)"
    if "p_cr0 x = 0xE0000011" "p_cr3 x = kt_PML4 kt" "boot_map kt (p_mem x)" "p_mode x = Long64" "unat b + n \<le> 0x9000" "n \<le> 16" for n b x
    using ld_ds_low [OF P] that by blast
  have d10: "rd_bytes m 0x8F28 10 = le_bytes 2 (kgdt_limit env) @ le_bytes 8 (kgdt_ptr env)"
    using pg rd_bytes_append [of m "0x8F28" 2 8] by (simp add: ap_page_def)
  have w: "le_word (rd_bytes m2 0x8F08 8) = sp + KERNEL_VMA_BASE" "le_word (rd_bytes m2 0x8F10 8) = ap_main_addr env"
    using rd(3,4) pg by (simp_all add: rd64_def ap_page_def)
  have a: "?a < 0x9000" using l by (simp add: word_less_nat_alt unat_word_ariths)
  have ret: "lretq x = (Inr (), x\<lparr>p_rsp := 0x8FF0, p_cs := 0x08, p_mode := Long64, p_rip := ?a\<rparr>)"
    if "p_cr0 x = 0xE0000011" "p_cr3 x = kt_PML4 kt" "p_mem x = m2" "p_rsp x = 0x8FE0" "p_efer x = 0x500" "p_gdt x = (kgdt_limit env, kgdt_ptr env)" for x
    using lretq_run [OF P _ g(2,3) _ _ _ _ a, of x] that bm2 rd g(1) by simp
  have jmp: "jump (ap_main_addr env) x = (Inr (), x\<lparr>p_rip := ap_main_addr env\<rparr>)"
    if "p_cr0 x = 0xE0000011" "p_cr3 x = kt_PML4 kt" "p_mem x = m3" for x
    using xlat_on [OF P, of x "e + KERNEL_VMA_BASE" e] that bm3 e by (simp add: jump_def bindS_def tr_def)
  have seg: "set_segments 0x10 x = (Inr (), x\<lparr>p_ds := 0x10, p_ds_base := 0, p_es := 0x10, p_ss := 0x10\<rparr>)"
    if "p_cr0 x = 0xE0000011" "p_cr3 x = kt_PML4 kt" "p_mem x = m3" "p_gdt x = (kgdt_limit env, kgdt_ptr env)" for x
    using kernel_segments_run [OF P _ g(2,3), of x] that bm3 rd(6) g(1) by (simp add: m3_def)
  have m3: "rd64 m3 (sp - 8) = lbl_ret l + 0x8000" "page_base x \<noteq> 0x8000 \<and> 8 \<le> unat (x - (sp - 8)) \<Longrightarrow> m3 x = m x" for x
    using ap_stacked_rest [of x ?a m] by (simp_all add: m3_def m2_def rd64_wr64_same) (simp add: wr64_def wr_bytes_def)
  show ?thesis
    unfolding ap_lm64_def ap_main_segments_def okS_def using s lay'(2)
    by (simp add: bindS_def set_segments_def [of 0] load_data_def ld d10 b1 [THEN conjunct1] b2 [THEN conjunct1] b3 [THEN conjunct1] bm2 ret w jmp seg bm3 m3)
qed

section \<open>From the wake-up to the entry\<close>

lemma wr_bytes_8000:
  assumes "touched_only {0x8000} m0 m" and "0x8000 \<le> unat a" and "unat a + length bs \<le> 0x9000"
  shows "touched_only {0x8000} m0 (wr_bytes a bs m)"
  unfolding touched_only_def
proof (intro allI impI)
  fix x assume x: "page_base x \<notin> {0x8000}"
  have "\<not> unat (x - 0x8000) < 4096" using x in_frame [of "0x8000" x] by (simp add: aligned_def)
  then have "apart (unat a, length bs) (unat x, 1)"
  proof (cases "0x8000 \<le> x")
    case True
    then have "unat (x - 0x8000) = unat x - 0x8000" by (simp add: unat_sub)
    then show ?thesis using assms(3) \<open>\<not> unat (x - 0x8000) < 4096\<close> by (auto simp: apart_def)
  next
    case False
    then show ?thesis using assms(2) by (auto simp: apart_def word_le_nat_alt)
  qed
  then have "wr_bytes a bs m x = m x" using assms(3) by (intro wr_bytes_apart) auto
  then show "wr_bytes a bs m x = m0 x" using assms(1) x by (simp add: touched_only_def)
qed

lemma install_trampoline_touched:
  assumes "\<not> ub_checks env" and "length (trampoline env) \<le> 0xF00" and "install_trampoline env st c3 s = (Inr (), s')"
  shows "touched_only {0x8000} (a_mem s) (a_mem s')"
proof -
  have "touched_only {0x8000} (a_mem s) (a_mem s)" by (simp add: touched_only_def)
  with assms show ?thesis
    by (auto simp: install_trampoline_def db_write_u64_def db_write_u32_def db_write_u16_def db_write_def bindS_def intro!: wr_bytes_8000)
qed

lemma ap_layout_touched:
  assumes "ap_layout kt env g sp m" and t: "touched_only {0x8000} m m'"
  shows "ap_layout kt env g sp m'"
proof -
  have k: "kt_ok kt" "boot_map kt m" "0x8000 \<notin> set (kt_list kt)" and g: "unat g + 64 \<le> 0x80000000" "apart (0x8000, 0x1000) (unat g, 64)"
    using assms(1) by (simp_all add: ap_layout_def)
  have "rd64 m' (g + j) = rd64 m (g + j)" if "unat j \<le> 16" for j
  proof (rule rd64_cong)
    fix i :: nat assume "i < 8"
    then have u: "unat (g + j + of_nat i) = unat g + unat j + i" using g(1) that by (simp add: unat_word_ariths unat_of_nat)
    have "page_base (g + j + of_nat i) \<noteq> 0x8000"
    proof
      assume "page_base (g + j + of_nat i) = 0x8000"
      then have b: "unat (g + j + of_nat i - 0x8000) < 4096" using in_frame [of "0x8000" "g + j + of_nat i"] by (simp add: aligned_def)
      have "unat (g + j + of_nat i) = unat (g + j + of_nat i - 0x8000 + 0x8000)" by simp
      also have "\<dots> = unat (g + j + of_nat i - 0x8000) + 0x8000" using b by (subst unat_word_ariths) simp
      finally show False using b u g(2) that \<open>i < 8\<close> by (simp add: apart_def)
    qed
    then show "m' (g + j + of_nat i) = m (g + j + of_nat i)" using t by (simp add: touched_only_def)
  qed
  then show ?thesis using assms(1) boot_map_touched [OF k(1,2) t] k(3) by (simp add: ap_layout_def)
qed

text \<open>A processor at the entry point \<open>e\<close> of the kernel, with the stack that ends at the physical address \<open>sp\<close>; \<open>m\<close> is the memory before the wake-up.\<close>

definition ap_arrived :: "kernel_tables \<Rightarrow> labels \<Rightarrow> u64 \<Rightarrow> u64 \<Rightarrow> mem \<Rightarrow> ap \<Rightarrow> bool" where
  "ap_arrived kt l e sp m c \<longleftrightarrow> p_mode c = Long64 \<and> p_cr3 c = kt_PML4 kt \<and> p_rip c = e + KERNEL_VMA_BASE \<and>
     walk (p_mem c) (p_cr3 c) (p_rip c) = Some (e, True, True) \<and> p_cs c = 0x08 \<and> p_ds c = 0x10 \<and> p_es c = 0x10 \<and> p_ss c = 0x10 \<and> \<not> p_if c \<and>
     p_rsp c = sp + KERNEL_VMA_BASE - 8 \<and> rd64 (p_mem c) (sp - 8) = lbl_ret l + 0x8000 \<and>
     (\<forall>x. page_base x \<noteq> 0x8000 \<and> 8 \<le> unat (x - (sp - 8)) \<longrightarrow> p_mem c x = m x)"

lemma ap_start_run:
  assumes c: "sipi_state m c" and pg: "ap_page env (kt_PML4 kt) (sp + KERNEL_VMA_BASE) m" and lay: "ap_layout kt env g sp m"
    and t: "touched_only {0x8000} m0 m" and e: "ap_main_addr env = e + KERNEL_VMA_BASE" "e < 0x80000000"
    and l: "lbl_lm64 l < 0x1000" "lbl_after_cs l < 0x1000"
  shows "okS (ap_start l) c (\<lambda>_. ap_arrived kt l e sp m0)"
  unfolding ap_start_def okS_bind
proof (rule okS_mono [OF ap_real16_run [OF c pg]], elim conjE)
  have kt: "kt_ok kt" "boot_map kt m" using lay by (simp_all add: ap_layout_def)
  fix c1 :: ap assume c1: "p_mode c1 = Prot32" "p_cr0 c1 = 0x60000011" "p_cr4 c1 = 0" "p_efer c1 = 0" "\<not> p_if c1" "p_gdt c1 = (0x1F, 0x8F40)" "p_mem c1 = m"
  show "okS (ap_pm32 l) c1 (\<lambda>_ s. okS (ap_lm64 l) s (\<lambda>_ s. okS ap_main_segments s (\<lambda>_. ap_arrived kt l e sp m0)))"
  proof (rule okS_mono [OF ap_pm32_run [OF c1(1-4,6,7) pg kt l(1)]], elim conjE)
    fix c2 :: ap assume c2: "p_mode c2 = Long64" "p_cr0 c2 = 0xE0000011" "p_cr3 c2 = kt_PML4 kt" "p_efer c2 = 0x500" "p_rsp c2 = 0x8FF0" "p_mem c2 = m" "p_if c2 = p_if c1"
    show "okS (ap_lm64 l) c2 (\<lambda>_ s. okS ap_main_segments s (\<lambda>_. ap_arrived kt l e sp m0))"
      unfolding okS_bind [symmetric]
      by (rule okS_mono [OF ap_lm64_run [OF c2(1-6) pg lay e l(2)]])
        (use t c1(5) c2(7) e boot_map_alias [OF kt(1)] in \<open>auto simp: touched_only_def ap_arrived_def\<close>)
  qed
qed

text \<open>
  \<^bold>\<open>C23.\<close> A processor that is woken reaches the Rust entry of the kernel. After \<^verbatim>\<open>wake_ap\<close> has prepared the page at 0x8000 and sent its interrupts, the
  start code, run from the state a start-up interrupt leaves, does not fault on its way through the three modes and arrives at \<^verbatim>\<open>ap_main\<close> in 64 bit mode with the
  page tables of the kernel active, the code and data selectors of the kernel's own descriptor table loaded, interrupts off, and the stack of this processor with the
  return address on it; it has written to nothing but its page and those eight bytes.
\<close>

theorem ap_start_reaches_main:
  assumes "apic_ok io log pend base" and "LAPIC_BASE s = base" and "\<not> ub_checks env" and "length (trampoline env) \<le> 0xF00"
    and "ap_layout kt env g sp (a_mem s)" and "ap_stack_top env k = sp + KERNEL_VMA_BASE" and "ap_main_addr env = e + KERNEL_VMA_BASE" and "e < 0x80000000"
    and "lbl_lm64 l < 0x1000" and "lbl_after_cs l < 0x1000"
  shows "\<exists>s'. wake_ap io env (kt_PML4 kt) k i s = Some (Inr (), s') \<and>
    (\<forall>c. sipi_state (a_mem s') c \<longrightarrow> okS (ap_start l) c (\<lambda>_. ap_arrived kt l e sp (a_mem s)))"
proof -
  obtain a m where w: "wake_ap io env (kt_PML4 kt) k i s = Some (Inr (), s\<lparr>a_ctl := a, a_mem := m\<rparr>)" and pg: "ap_page env (kt_PML4 kt) (ap_stack_top env k) m"
    and inst: "install_trampoline env (ap_stack_top env k) (kt_PML4 kt) s = (Inr (), s\<lparr>a_mem := m\<rparr>)"
    using wake_ap_ok [OF assms(1-4), of "kt_PML4 kt" k i] by blast
  have t: "touched_only {0x8000} (a_mem s) m" using install_trampoline_touched [OF assms(3,4) inst] by simp
  show ?thesis
    using w ap_start_run [OF _ pg [unfolded assms(6)] ap_layout_touched [OF assms(5) t] t assms(7-10)] by auto
qed

text \<open>A machine with the tables of the kernel from 2 MiB on and its descriptor table at 3 MiB.\<close>

definition demo_labels :: labels where
  "demo_labels = \<lparr>lbl_pm32 = 0x20, lbl_lm64 = 0x60, lbl_after_cs = 0x80, lbl_ret = 0x90\<rparr>"

definition demo_ap :: "mem \<Rightarrow> ap" where
  "demo_ap m = \<lparr>p_mode = Real16, p_cr0 = 0x60000010, p_cr3 = 0, p_cr4 = 0, p_efer = 0, p_if = False, p_df = False, p_gdt = (0, 0), p_cs = 0x0800, p_ds = 0, p_es = 0,
     p_ss = 0, p_ds_base = 0, p_rip = 0, p_rsp = 0, p_rbp = 0, p_mem = m\<rparr>"

lemma demo_boot_map: obtains m where "boot_map demo_kt m" "rd64 m 0x300008 = create_gdt_entry 0 0 0x9A 0x2" "rd64 m 0x300010 = create_gdt_entry 0 0 0x92 0x0"
proof -
  have "\<forall>j < 512. rd64 (ram demo_mm) (ent (kt_PDPT_HIGH demo_kt) j) = 0" by (simp add: demo_mm_def rd64_zero)
  then obtain m where m: "boot_map demo_kt m" unfolding boot_map_def by (rule paging_init_mem [OF demo_kt_ok]) blast
  let ?m = "wr64 0x300010 (create_gdt_entry 0 0 0x92 0x0) (wr64 0x300008 (create_gdt_entry 0 0 0x9A 0x2) m)"
  have b: "page_base (p + of_nat i) = 0x300000" if "p = 0x300008 \<or> p = 0x300010" "i < 8" for p :: u64 and i
  proof -
    have "unat (p + of_nat i - 0x300000) < 4096" using that by (auto simp: unat_word_ariths unat_of_nat)
    then show ?thesis by (subst (asm) in_frame) (simp_all add: aligned_def)
  qed
  have "touched_only {0x300000} m' (wr64 p v m')" if "p = 0x300008 \<or> p = 0x300010" for p v m' using b that by (intro wr64_touched) auto
  moreover have "{0x300000} \<inter> set (kt_list demo_kt) = {}" by (simp add: kt_list_def demo_kt_def pd_table_def)
  ultimately have "boot_map demo_kt (wr64 p v m')" if "boot_map demo_kt m'" "p = 0x300008 \<or> p = 0x300010" for p v m'
    using boot_map_touched [OF demo_kt_ok that(1), of "{0x300000}" "wr64 p v m'"] that(2) by simp
  then have "boot_map demo_kt ?m" using m by simp
  moreover have "rd64 ?m 0x300008 = create_gdt_entry 0 0 0x9A 0x2" "rd64 ?m 0x300010 = create_gdt_entry 0 0 0x92 0x0"
    by (simp_all add: rd64_wr64_apart rd64_wr64_same apart_def)
  ultimately show ?thesis by (rule that)
qed

theorem ap_start_reaches_main_witness:
  "\<exists>m s' c. wake_ap demo_apic demo_env 0x200000 0 1 \<lparr>LAPIC_BASE = 0xFEE00000, LAPIC_ENABLED = True, a_ctl = [], a_mem = m\<rparr> = Some (Inr (), s') \<and>
     sipi_state (a_mem s') c \<and> fst (ap_start demo_labels c) = Inr () \<and> p_mode (snd (ap_start demo_labels c)) = Long64 \<and> p_rip (snd (ap_start demo_labels c)) = 0xFFFFFFFF80210000"
proof -
  obtain m where m: "boot_map demo_kt m" "rd64 m 0x300008 = create_gdt_entry 0 0 0x9A 0x2" "rd64 m 0x300010 = create_gdt_entry 0 0 0x92 0x0"
    by (rule demo_boot_map)
  have ok: "apic_ok demo_apic id (\<lambda>_. 0) 0xFEE00000" by (simp add: apic_ok_def demo_apic_def)
  let ?s = "\<lparr>LAPIC_BASE = 0xFEE00000, LAPIC_ENABLED = True, a_ctl = [], a_mem = m\<rparr> :: (u64 \<times> u32) list smp"
  have b: "page_base (0x403FF8 + of_nat i) = 0x403000" if "i < 8" for i
  proof -
    have "unat (0x403FF8 + of_nat i - 0x403000 :: u64) < 4096" using that by (simp add: unat_word_ariths unat_of_nat)
    then show ?thesis by (subst (asm) in_frame) (simp_all add: aligned_def)
  qed
  have "ap_layout demo_kt demo_env 0x300000 0x404000 m"
    using m demo_kt_ok b by (simp add: ap_layout_def demo_env_def kt_list_def demo_kt_def pd_table_def KERNEL_VMA_BASE_def apart_def)
  then obtain s' where s': "wake_ap demo_apic demo_env 0x200000 0 1 ?s = Some (Inr (), s')"
    and c: "\<And>c. sipi_state (a_mem s') c \<Longrightarrow> okS (ap_start demo_labels) c (\<lambda>_. ap_arrived demo_kt demo_labels 0x210000 0x404000 m)"
    using ap_start_reaches_main [OF ok, of ?s demo_env demo_kt "0x300000" "0x404000" 0 "0x210000" demo_labels 1]
    by (auto simp: demo_env_def demo_labels_def ap_stack_top_def AP_STACK_SIZE_def KERNEL_VMA_BASE_def demo_kt_def)
  have i: "sipi_state (a_mem s') (demo_ap (a_mem s'))" by (simp add: sipi_state_def demo_ap_def)
  from c [OF i] s' i show ?thesis by (intro exI [of _ m] exI [of _ s'] exI [of _ "demo_ap (a_mem s')"]) (auto simp: okS_def ap_arrived_def KERNEL_VMA_BASE_def)
qed

end
