(* ===== verification/SyscallEntry.thy ===== *)
theory SyscallEntry
  imports UserCalls
begin

text \<open>
  The way of a system call from the inline assembly of a user program (ross-user/hello and ross-user/init) through the processor and
  the assembly stub of ross-kernel/src/syscall.rs to the dispatcher and back, and the two user programs. The stub runs on the stack of the process: its pushes and pops go
  through the page tables of the process. What the calling convention leaves open, the registers a function may change and what it puts below its stack pointer, is a
  parameter, and so are the addresses the linker chooses.
\<close>

section \<open>The processor\<close>

record 's thread =
  th_k :: "'s kernel"
  th_r :: ctx

definition on_k :: "('s kernel, 'a) op \<Rightarrow> ('s thread, 'a) op" where
  "on_k m = (\<lambda>s. let (r, k) = m (th_k s) in (r, s\<lparr>th_k := k\<rparr>))"

definition mod_r :: "(ctx \<Rightarrow> ctx) \<Rightarrow> ('s thread, unit) op" where
  "mod_r f = modS (\<lambda>s. s\<lparr>th_r := f (th_r s)\<rparr>)"

definition push_r :: "u64 \<Rightarrow> ('s thread, unit) op" where
  "push_r v =
     bindS (mod_r (\<lambda>r. r\<lparr>rsp := rsp r - 8\<rparr>)) (\<lambda>_.
     bindS (getS (\<lambda>s. rsp (th_r s))) (\<lambda>a. on_k (st_bytes a (le_bytes 8 v))))"

definition pop_r :: "('s thread, u64) op" where
  "pop_r =
     bindS (getS (\<lambda>s. rsp (th_r s))) (\<lambda>a.
     bindS (on_k (ld_bytes 8 a)) (\<lambda>bs.
     bindS (mod_r (\<lambda>r. r\<lparr>rsp := rsp r + 8\<rparr>)) (\<lambda>_. retS (le_word bs))))"

primrec push_list :: "u64 list \<Rightarrow> ('s thread, unit) op" where
  "push_list [] = retS ()"
| "push_list (v # vs) = bindS (push_r v) (\<lambda>_. push_list vs)"

primrec pop_list :: "nat \<Rightarrow> ('s thread, u64 list) op" where
  "pop_list 0 = retS []"
| "pop_list (Suc n) = bindS pop_r (\<lambda>v. bindS (pop_list n) (\<lambda>vs. retS (v # vs)))"

text \<open>\<^verbatim>\<open>syscall\<close> and \<^verbatim>\<open>sysretq\<close>; \<open>rip\<close> is the address of the next instruction.\<close>

definition syscall_insn :: "msrs \<Rightarrow> ctx \<Rightarrow> ctx" where
  "syscall_insn m r = r\<lparr>rcx := rip r, r11 := rflags r, rip := LSTAR m, rflags := rflags r AND NOT (SFMASK m), cs_sel := syscall_cs m, ss_sel := syscall_ss m\<rparr>"

definition sysretq :: "msrs \<Rightarrow> ctx \<Rightarrow> ctx" where
  "sysretq m r = r\<lparr>rip := rcx r, rflags := (r11 r AND 0x3C7FD7) OR 2, cs_sel := sysret_cs m, ss_sel := sysret_ss m\<rparr>"

section \<open>The stub\<close>

text \<open>What the compiled dispatcher leaves: the registers that belong to the callee, and the bytes below the stack pointer, the return address on top.\<close>

record callee =
  caller_saved :: ctx
  frame :: "u8 list"

definition clobbered :: "callee \<Rightarrow> u64 \<Rightarrow> ctx \<Rightarrow> ctx" where
  "clobbered ce v r = (let c = caller_saved ce in r\<lparr>rax := v, rcx := rcx c, rdx := rdx c, rsi := rsi c, rdi := rdi c, r8 := r8 c, r9 := r9 c, r10 := r10 c,
     r11 := r11 c, rflags := rflags c\<rparr>)"

definition call_dispatch :: "'s device \<Rightarrow> callee \<Rightarrow> ('s thread, unit) op" where
  "call_dispatch dev ce =
     bindS (getS th_r) (\<lambda>r.
     bindS (on_k (st_bytes (rsp r - of_nat (length (frame ce))) (frame ce))) (\<lambda>_.
     bindS (on_k (syscall_dispatch dev (rdi r) (rsi r) (rdx r) (rcx r))) (\<lambda>v.
     mod_r (clobbered ce v))))"

definition entry_pushes :: "ctx \<Rightarrow> u64 list" where
  "entry_pushes r = [r11 r, rcx r, rbp r, rbx r, r12 r, r13 r, r14 r, r15 r]"

definition syscall_handler_stub :: "'s device \<Rightarrow> msrs \<Rightarrow> callee \<Rightarrow> ('s thread, unit) op" where
  "syscall_handler_stub dev m ce =
     bindS (getS th_r) (\<lambda>r.
     bindS (push_list [rax r, rdx r]) (\<lambda>_.
     bindS (mod_r (\<lambda>r. r\<lparr>rax := (rax r AND NOT 0xFF) OR 0x53, rdx := (rdx r AND NOT 0xFFFF) OR 0x3F8\<rparr>)) (\<lambda>_.
     bindS (on_k (serial_print_byte 0x53)) (\<lambda>_.
     bindS pop_r (\<lambda>d. bindS (mod_r (\<lambda>r. r\<lparr>rdx := d\<rparr>)) (\<lambda>_.
     bindS pop_r (\<lambda>a. bindS (mod_r (\<lambda>r. r\<lparr>rax := a\<rparr>)) (\<lambda>_.
     bindS (getS th_r) (\<lambda>r.
     bindS (push_list (entry_pushes r)) (\<lambda>_.
     bindS (mod_r (\<lambda>r. r\<lparr>rcx := rdx r\<rparr>)) (\<lambda>_.
     bindS (mod_r (\<lambda>r. r\<lparr>rdx := rsi r\<rparr>)) (\<lambda>_.
     bindS (mod_r (\<lambda>r. r\<lparr>rsi := rdi r\<rparr>)) (\<lambda>_.
     bindS (mod_r (\<lambda>r. r\<lparr>rdi := rax r\<rparr>)) (\<lambda>_.
     bindS (call_dispatch dev ce) (\<lambda>_.
     bindS (pop_list 8) (\<lambda>vs.
     bindS (mod_r (\<lambda>r. r\<lparr>r15 := vs ! 0, r14 := vs ! 1, r13 := vs ! 2, r12 := vs ! 3, rbx := vs ! 4, rbp := vs ! 5, rcx := vs ! 6, r11 := vs ! 7\<rparr>)) (\<lambda>_.
     mod_r (sysretq m))))))))))))))))))"

section \<open>The user programs\<close>

text \<open>The function \<^verbatim>\<open>syscall\<close> of both programs; \<open>ret\<close> is the address behind its \<^verbatim>\<open>syscall\<close> instruction.\<close>

definition user_syscall :: "'s device \<Rightarrow> msrs \<Rightarrow> callee \<Rightarrow> u64 \<Rightarrow> u64 \<Rightarrow> u64 \<Rightarrow> u64 \<Rightarrow> u64 \<Rightarrow> ('s thread, u64) op" where
  "user_syscall dev m ce ret nr a1 a2 a3 =
     bindS (mod_r (\<lambda>r. r\<lparr>rax := nr, rdi := a1, rsi := a2, rdx := a3, rip := ret\<rparr>)) (\<lambda>_.
     bindS (mod_r (syscall_insn m)) (\<lambda>_.
     bindS (syscall_handler_stub dev m ce) (\<lambda>_.
     getS (\<lambda>s. rax (th_r s)))))"

definition SYS_WRITE :: u64 where "SYS_WRITE = 4"
definition SYS_EXIT :: u64 where "SYS_EXIT = 6"

definition HELLO_MSG :: str where
  "HELLO_MSG = [0x48, 0x65, 0x6C, 0x6C, 0x6F, 0x20, 0x66, 0x72, 0x6F, 0x6D, 0x20, 0x50, 0x68, 0x61, 0x73, 0x65, 0x20, 0x38, 0x21, 0x0A]"

definition INIT_MSG :: str where
  "INIT_MSG = [0x48, 0x65, 0x6C, 0x6C, 0x6F, 0x20, 0x66, 0x72, 0x6F, 0x6D, 0x20, 0x55, 0x73, 0x65, 0x72, 0x6C, 0x61, 0x6E, 0x64, 0x20, 0x45, 0x4C, 0x46, 0x21, 0x0A]"

text \<open>\<^verbatim>\<open>_start\<close> of hello and of init up to their endless loops; \<open>msg\<close> is the address of the string, \<open>ret1\<close> and \<open>ret2\<close> those behind the two calls.\<close>

definition hello_start :: "'s device \<Rightarrow> msrs \<Rightarrow> callee \<Rightarrow> u64 \<Rightarrow> u64 \<Rightarrow> u64 \<Rightarrow> ('s thread, unit) op" where
  "hello_start dev m ce msg ret1 ret2 =
     bindS (user_syscall dev m ce ret1 SYS_WRITE 1 msg (of_nat (length HELLO_MSG))) (\<lambda>_.
     bindS (user_syscall dev m ce ret2 SYS_EXIT 0 0 0) (\<lambda>_.
     retS ()))"

definition init_start :: "'s device \<Rightarrow> msrs \<Rightarrow> callee \<Rightarrow> u64 \<Rightarrow> u64 \<Rightarrow> ('s thread, unit) op" where
  "init_start dev m ce msg ret1 =
     bindS (user_syscall dev m ce ret1 1 msg (of_nat (length INIT_MSG)) 0) (\<lambda>_.
     retS ())"

section \<open>The stack of the process\<close>

lemma on_k_run: "on_k m s = (fst (m (th_k s)), s\<lparr>th_k := snd (m (th_k s))\<rparr>)"
  by (simp add: on_k_def split_def Let_def)

lemma mod_r_run [simp]: "mod_r f s = (Inr (), s\<lparr>th_r := f (th_r s)\<rparr>)"
  by (simp add: mod_r_def)

lemma holds_append: "holds k a (xs @ ys) \<longleftrightarrow> holds k a xs \<and> holds k (a + length xs) ys"
  by (induction xs arbitrary: a) (auto simp: holds_Cons, auto simp: holds_def)

lemma writable_sub: "writable k lo n \<Longrightarrow> lo \<le> b \<Longrightarrow> b + m \<le> lo + n \<Longrightarrow> writable k b m"
proof -
  assume w: "writable k lo n" and b: "lo \<le> b" "b + m \<le> lo + n"
  have e: "lo + (b - lo + j) = b + j" for j using b by simp
  have "img (k_cr3 k) (k_mm k) (of_nat (b + j)) \<noteq> None \<and> (\<exists>p u. walk (ram (k_mm k)) (k_cr3 k) (of_nat (b + j)) = Some (p, True, u))" if "j < m" for j
  proof -
    have "b - lo + j < n" using b that by simp
    then show ?thesis using w unfolding writable_def e [symmetric] by blast
  qed
  moreover have "b + m \<le> 2 ^ 47" using w b by (simp add: writable_def)
  ultimately show "writable k b m" by (simp add: writable_def)
qed

text \<open>
  \<open>k\<close> differs from \<open>k0\<close> in the bytes of the process between \<open>lo\<close> and \<open>sp\<close> at most, and the words \<open>vs\<close> lie at \<open>a\<close>, up to \<open>sp\<close>.
\<close>

definition on_stack :: "'s kernel \<Rightarrow> nat \<Rightarrow> nat \<Rightarrow> 's kernel \<Rightarrow> nat \<Rightarrow> u64 list \<Rightarrow> bool" where
  "on_stack k0 lo sp k a vs \<longleftrightarrow> k_cr3 k = k_cr3 k0 \<and> user_inv (k_cr3 k0) (k_mm k) \<and> writable k lo (sp - lo) \<and> lo \<le> a \<and> a + 8 * length vs = sp \<and> sp \<le> 2 ^ 47 \<and>
     holds k a (concat (map (le_bytes 8) vs)) \<and>
     (\<forall>w. unat w < 2 ^ 47 \<longrightarrow> \<not> (lo \<le> unat w \<and> unat w < sp) \<longrightarrow> img (k_cr3 k0) (k_mm k) w = img (k_cr3 k0) (k_mm k0) w)"

lemma holds_stored:
  assumes "user_step (k_cr3 k) (stored b bs) 0 (k_mm k) st'" and "b + length bs \<le> 2 ^ 47"
  shows "holds (k\<lparr>k_mm := st'\<rparr>) b bs" and "holds k a xs \<Longrightarrow> a + length xs \<le> b \<or> b + length bs \<le> a \<Longrightarrow> holds (k\<lparr>k_mm := st'\<rparr>) a xs"
proof -
  have i: "img (k_cr3 k) st' (of_nat w) = stored b bs w (img (k_cr3 k) (k_mm k) (of_nat w))" if "w < 2 ^ 47" for w
    using assms(1) that unat_of_low [of w] by (simp add: user_step_def)
  show "holds (k\<lparr>k_mm := st'\<rparr>) b bs" using assms(2) by (auto simp: holds_def stored_def i simp del: of_nat_add)
  show "holds (k\<lparr>k_mm := st'\<rparr>) a xs" if "holds k a xs" "a + length xs \<le> b \<or> b + length bs \<le> a"
    unfolding holds_def
  proof (intro conjI allI impI)
    show "a + length xs \<le> 2 ^ 47" using that(1) by (simp add: holds_def)
    fix j assume "j < length xs"
    then show "img (k_cr3 (k\<lparr>k_mm := st'\<rparr>)) (k_mm (k\<lparr>k_mm := st'\<rparr>)) (of_nat (a + j)) = Some (xs ! j)"
      using that i [of "a + j"] by (auto simp: holds_def stored_def simp del: of_nat_add)
  qed
qed

lemma st_below:
  assumes s: "on_stack k0 lo sp k a vs" and b: "lo \<le> b" "b + length bs \<le> a"
  obtains st' where "st_bytes (of_nat b) bs k = (Inr (), k\<lparr>k_mm := st'\<rparr>)" and "on_stack k0 lo sp (k\<lparr>k_mm := st'\<rparr>) a vs" and "holds (k\<lparr>k_mm := st'\<rparr>) b bs"
proof -
  note o = s [unfolded on_stack_def]
  have wl: "writable k lo (sp - lo)" "a \<le> sp" "lo \<le> a" and ui: "user_inv (k_cr3 k) (k_mm k)" using o by simp_all
  have wb: "writable k b (length bs)" using writable_sub [OF wl(1) b(1)] wl(2,3) b by simp
  obtain st' where st: "st_bytes (of_nat b) bs k = (Inr (), k\<lparr>k_mm := st'\<rparr>)" and u: "user_step (k_cr3 k) (stored b bs) 0 (k_mm k) st'"
    and w: "walk (ram st') (k_cr3 k) = walk (ram (k_mm k)) (k_cr3 k)"
    by (rule st_bytes_ok [OF ui wb])
  have len: "b + length bs \<le> 2 ^ 47" using o b by simp
  have "img (k_cr3 k0) st' x = img (k_cr3 k0) (k_mm k0) x" if "unat x < 2 ^ 47" "\<not> (lo \<le> unat x \<and> unat x < sp)" for x
    using o u that b by (auto simp: user_step_def stored_def)
  moreover have "writable (k\<lparr>k_mm := st'\<rparr>) lo (sp - lo)" by (rule writable_step [OF wl(1) u w]) simp_all
  ultimately have "on_stack k0 lo sp (k\<lparr>k_mm := st'\<rparr>) a vs"
    using o u holds_stored(2) [OF u len] b by (auto simp: on_stack_def user_step_def)
  then show ?thesis using that st holds_stored(1) [OF u len] by blast
qed

lemma push_r_ok:
  assumes s: "on_stack k0 lo sp k a vs" and b: "lo + 8 \<le> a" and r: "rsp r = of_nat a"
  obtains st' where "push_r v \<lparr>th_k = k, th_r = r\<rparr> = (Inr (), \<lparr>th_k = k\<lparr>k_mm := st'\<rparr>, th_r = r\<lparr>rsp := of_nat (a - 8)\<rparr>\<rparr>)"
    and "on_stack k0 lo sp (k\<lparr>k_mm := st'\<rparr>) (a - 8) (v # vs)"
proof -
  obtain st' where st: "st_bytes (of_nat (a - 8)) (le_bytes 8 v) k = (Inr (), k\<lparr>k_mm := st'\<rparr>)" and o: "on_stack k0 lo sp (k\<lparr>k_mm := st'\<rparr>) a vs"
    and h: "holds (k\<lparr>k_mm := st'\<rparr>) (a - 8) (le_bytes 8 v)"
    by (rule st_below [OF s, of "a - 8" "le_bytes 8 v"]) (use b in simp_all)
  have e: "(of_nat a :: u64) - 8 = of_nat (a - 8)" using b by (simp add: of_nat_diff)
  have "on_stack k0 lo sp (k\<lparr>k_mm := st'\<rparr>) (a - 8) (v # vs)" using o h b by (auto simp: on_stack_def holds_append)
  then show ?thesis using that st r e by (simp add: push_r_def bindS_def on_k_run)
qed

lemma push_list_ok:
  assumes "on_stack k0 lo sp k a vs" and "lo + 8 * length ws \<le> a" and "rsp r = of_nat a"
  obtains st' where "push_list ws \<lparr>th_k = k, th_r = r\<rparr> = (Inr (), \<lparr>th_k = k\<lparr>k_mm := st'\<rparr>, th_r = r\<lparr>rsp := of_nat (a - 8 * length ws)\<rparr>\<rparr>)"
    and "on_stack k0 lo sp (k\<lparr>k_mm := st'\<rparr>) (a - 8 * length ws) (rev ws @ vs)"
  using assms
proof (induction ws arbitrary: k a vs r thesis)
  case Nil
  have "k\<lparr>k_mm := k_mm k\<rparr> = k" "r\<lparr>rsp := of_nat a\<rparr> = r" using Nil.prems(4) by simp_all
  then show ?case using Nil.prems(2) by (intro Nil.prems(1) [of "k_mm k"]) (simp_all only: push_list.simps retS_def list.size mult_0_right diff_zero rev.simps append_Nil)
next
  case (Cons w ws)
  obtain st1 where 1: "push_r w \<lparr>th_k = k, th_r = r\<rparr> = (Inr (), \<lparr>th_k = k\<lparr>k_mm := st1\<rparr>, th_r = r\<lparr>rsp := of_nat (a - 8)\<rparr>\<rparr>)"
    "on_stack k0 lo sp (k\<lparr>k_mm := st1\<rparr>) (a - 8) (w # vs)"
    by (rule push_r_ok [OF Cons.prems(2) _ Cons.prems(4), of w]) (use Cons.prems(3) in auto)
  obtain st2 where "push_list ws \<lparr>th_k = k\<lparr>k_mm := st1\<rparr>, th_r = r\<lparr>rsp := of_nat (a - 8)\<rparr>\<rparr> =
      (Inr (), \<lparr>th_k = k\<lparr>k_mm := st1, k_mm := st2\<rparr>, th_r = r\<lparr>rsp := of_nat (a - 8), rsp := of_nat (a - 8 - 8 * length ws)\<rparr>\<rparr>)"
    "on_stack k0 lo sp (k\<lparr>k_mm := st1, k_mm := st2\<rparr>) (a - 8 - 8 * length ws) (rev ws @ (w # vs))"
    by (rule Cons.IH [OF _ 1(2), of "r\<lparr>rsp := of_nat (a - 8)\<rparr>"]) (use Cons.prems(3) in auto)
  then show ?case using Cons.prems(1) [of st2] 1(1) by (simp add: bindS_def)
qed

lemma pop_r_ok:
  assumes s: "on_stack k0 lo sp k a (v # vs)" and r: "rsp r = of_nat a"
  shows "pop_r \<lparr>th_k = k, th_r = r\<rparr> = (Inr v, \<lparr>th_k = k, th_r = r\<lparr>rsp := of_nat (a + 8)\<rparr>\<rparr>)" and "on_stack k0 lo sp k (a + 8) vs"
proof -
  have u: "user_inv (k_cr3 k) (k_mm k)" using s by (simp add: on_stack_def)
  have h: "holds k a (le_bytes 8 v)" "holds k (a + 8) (concat (map (le_bytes 8) vs))"
    using s by (simp_all add: on_stack_def holds_append)
  have "ld_bytes 8 (of_nat a) k = (Inr (le_bytes 8 v), k)" using ld_bytes_holds [OF u h(1)] by simp
  then show "pop_r \<lparr>th_k = k, th_r = r\<rparr> = (Inr v, \<lparr>th_k = k, th_r = r\<lparr>rsp := of_nat (a + 8)\<rparr>\<rparr>)"
    using r by (simp add: pop_r_def bindS_def on_k_run add.commute)
  show "on_stack k0 lo sp k (a + 8) vs" using s h(2) by (simp add: on_stack_def)
qed

lemma pop_list_ok:
  assumes "on_stack k0 lo sp k a (ws @ vs)" and "rsp r = of_nat a" and "n = length ws"
  shows "pop_list n \<lparr>th_k = k, th_r = r\<rparr> = (Inr ws, \<lparr>th_k = k, th_r = r\<lparr>rsp := of_nat (a + 8 * n)\<rparr>\<rparr>) \<and> on_stack k0 lo sp k (a + 8 * n) vs"
  using assms
proof (induction ws arbitrary: a r n)
  case Nil
  then have "r\<lparr>rsp := of_nat a\<rparr> = r" by (metis ctx.surjective ctx.update_convs(19))
  then show ?case using Nil by simp
next
  case (Cons w ws)
  note p = pop_r_ok [OF Cons.prems(1) [unfolded append_Cons] Cons.prems(2)]
  have "pop_list (length ws) \<lparr>th_k = k, th_r = r\<lparr>rsp := of_nat (a + 8)\<rparr>\<rparr> =
      (Inr ws, \<lparr>th_k = k, th_r = r\<lparr>rsp := of_nat (a + 8), rsp := of_nat (a + 8 + 8 * length ws)\<rparr>\<rparr>) \<and> on_stack k0 lo sp k (a + 8 + 8 * length ws) vs"
    by (rule Cons.IH [OF p(2)]) simp_all
  then show ?case using p(1) Cons.prems(3) by (simp add: bindS_def add.assoc)
qed

section \<open>A system call\<close>

text \<open>What a program may rely on: the result in rax, its callee-saved registers and its stack pointer as they were, and the next instruction in ring 3.\<close>

definition abi :: "msrs \<Rightarrow> u64 \<Rightarrow> ctx \<Rightarrow> ctx \<Rightarrow> bool" where
  "abi m v r r' \<longleftrightarrow> rax r' = v \<and> rbx r' = rbx r \<and> rbp r' = rbp r \<and> r12 r' = r12 r \<and> r13 r' = r13 r \<and> r14 r' = r14 r \<and> r15 r' = r15 r \<and> rsp r' = rsp r \<and>
     rip r' = rip r \<and> rflags r' = (rflags r AND 0x3C7FD7) OR 2 \<and> cs_sel r' = sysret_cs m \<and> ss_sel r' = sysret_ss m"

lemma k_serial_mm: "k\<lparr>k_mm := st, k_serial := x\<rparr> = k\<lparr>k_serial := x, k_mm := st\<rparr>"
  by simp

lemma on_stack_serial [simp]: "on_stack k0 lo sp (k\<lparr>k_serial := x\<rparr>) a vs = on_stack k0 lo sp k a vs"
  by (simp add: on_stack_def holds_def writable_def)

lemma on_stack_other: "on_stack k0 lo sp k a vs \<Longrightarrow> k_cr3 k' = k_cr3 k \<Longrightarrow> k_mm k' = k_mm k \<Longrightarrow> on_stack k0 lo sp k' a vs"
  by (auto simp: on_stack_def holds_def writable_def)

lemma call_dispatch_ok:
  assumes s: "on_stack k0 lo sp k a vs" and room: "lo + length (frame ce) \<le> a" and r: "rsp r = of_nat a"
    and disp: "\<And>st. on_stack k0 lo sp (k\<lparr>k_mm := st\<rparr>) a vs \<Longrightarrow> syscall_dispatch dev (rdi r) (rsi r) (rdx r) (rcx r) (k\<lparr>k_mm := st\<rparr>) = (Inr v, k2\<lparr>k_mm := st\<rparr>)"
    and k2: "k_cr3 k2 = k_cr3 k0"
  obtains st where "call_dispatch dev ce \<lparr>th_k = k, th_r = r\<rparr> = (Inr (), \<lparr>th_k = k2\<lparr>k_mm := st\<rparr>, th_r = clobbered ce v r\<rparr>)" and "on_stack k0 lo sp (k2\<lparr>k_mm := st\<rparr>) a vs"
proof -
  let ?b = "a - length (frame ce)"
  obtain st where st: "st_bytes (of_nat ?b) (frame ce) k = (Inr (), k\<lparr>k_mm := st\<rparr>)" and o: "on_stack k0 lo sp (k\<lparr>k_mm := st\<rparr>) a vs"
    by (rule st_below [OF s, of ?b "frame ce"]) (use room in simp_all)
  have e: "(of_nat a :: u64) - of_nat (length (frame ce)) = of_nat ?b" using room by (simp add: of_nat_diff)
  have "k_cr3 k = k_cr3 k0" using s by (simp add: on_stack_def)
  then have "on_stack k0 lo sp (k2\<lparr>k_mm := st\<rparr>) a vs" using k2 by (intro on_stack_other [OF o]) simp_all
  then show ?thesis using st disp [OF o] r e by (intro that) (simp_all add: call_dispatch_def bindS_def on_k_run)
qed

lemma stub_ok:
  assumes s: "on_stack k lo sp k sp []" and room: "lo + 64 + length (frame ce) \<le> sp" and r: "rsp r = of_nat sp"
    and disp: "\<And>st. on_stack k lo sp (k\<lparr>k_mm := st\<rparr>) (sp - 64) (rev (entry_pushes r)) \<Longrightarrow>
      syscall_dispatch dev (rax r) (rdi r) (rsi r) (rdx r) (k\<lparr>k_serial := k_serial k @ [0x53], k_mm := st\<rparr>) = (Inr v, k2\<lparr>k_mm := st\<rparr>)"
    and k2: "k_cr3 k2 = k_cr3 k"
  obtains st r' where "syscall_handler_stub dev m ce \<lparr>th_k = k, th_r = r\<rparr> = (Inr (), \<lparr>th_k = k2\<lparr>k_mm := st\<rparr>, th_r = r'\<rparr>)"
    and "abi m v (r\<lparr>rip := rcx r, rflags := r11 r\<rparr>) r'" and "on_stack k lo sp (k2\<lparr>k_mm := st\<rparr>) sp []"
proof -
  obtain st1 where 1: "push_list [rax r, rdx r] \<lparr>th_k = k, th_r = r\<rparr> = (Inr (), \<lparr>th_k = k\<lparr>k_mm := st1\<rparr>, th_r = r\<lparr>rsp := of_nat (sp - 16)\<rparr>\<rparr>)"
    and o1: "on_stack k lo sp (k\<lparr>k_mm := st1\<rparr>) (sp - 16) [rdx r, rax r]"
    by (rule push_list_ok [OF s _ r, of "[rax r, rdx r]"]) (use room in simp_all)
  let ?k = "k\<lparr>k_mm := st1, k_serial := k_serial k @ [0x53]\<rparr>"
  have o2: "on_stack k lo sp ?k (sp - 16) [rdx r, rax r]" using o1 by simp
  have a: "sp - 16 + 8 + 8 = sp" "sp - 16 + 8 = sp - 8" using room by simp_all
  have p1: "pop_r \<lparr>th_k = ?k, th_r = q\<rparr> = (Inr (rdx r), \<lparr>th_k = ?k, th_r = q\<lparr>rsp := of_nat (sp - 16 + 8)\<rparr>\<rparr>)" if "rsp q = of_nat (sp - 16)" for q
    using pop_r_ok(1) [OF o2 that] .
  have o3: "on_stack k lo sp ?k (sp - 16 + 8) [rax r]" by (rule pop_r_ok(2) [OF o2, of "r\<lparr>rsp := of_nat (sp - 16)\<rparr>"]) simp
  have p2: "pop_r \<lparr>th_k = ?k, th_r = q\<rparr> = (Inr (rax r), \<lparr>th_k = ?k, th_r = q\<lparr>rsp := of_nat sp\<rparr>\<rparr>)" if "rsp q = of_nat (sp - 16 + 8)" for q
    using pop_r_ok(1) [OF o3 that] a by simp
  have o4: "on_stack k lo sp ?k sp []" using pop_r_ok(2) [OF o3, of "r\<lparr>rsp := of_nat (sp - 16 + 8)\<rparr>"] a by simp
  obtain st2 where 2: "push_list (entry_pushes r) \<lparr>th_k = ?k, th_r = r\<rparr> = (Inr (), \<lparr>th_k = ?k\<lparr>k_mm := st2\<rparr>, th_r = r\<lparr>rsp := of_nat (sp - 64)\<rparr>\<rparr>)"
    and o5: "on_stack k lo sp (?k\<lparr>k_mm := st2\<rparr>) (sp - 64) (rev (entry_pushes r))"
    by (rule push_list_ok [OF o4 _ r, of "entry_pushes r"]) (use room in \<open>simp_all add: entry_pushes_def\<close>)
  let ?q = "r\<lparr>rsp := of_nat (sp - 64), rcx := rdx r, rdx := rsi r, rsi := rdi r, rdi := rax r\<rparr>" and ?k5 = "k\<lparr>k_serial := k_serial k @ [0x53], k_mm := st2\<rparr>"
  have o6: "on_stack k lo sp ?k5 (sp - 64) (rev (entry_pushes r))" by (rule on_stack_other [OF o5]) simp_all
  have d: "syscall_dispatch dev (rax r) (rdi r) (rsi r) (rdx r) (?k5\<lparr>k_mm := st\<rparr>) = (Inr v, k2\<lparr>k_mm := st\<rparr>)"
    if "on_stack k lo sp (?k5\<lparr>k_mm := st\<rparr>) (sp - 64) (rev (entry_pushes r))" for st
    using disp [OF on_stack_other [OF that]] by simp
  obtain st3 where 3: "call_dispatch dev ce \<lparr>th_k = ?k5, th_r = ?q\<rparr> = (Inr (), \<lparr>th_k = k2\<lparr>k_mm := st3\<rparr>, th_r = clobbered ce v ?q\<rparr>)"
    and o7: "on_stack k lo sp (k2\<lparr>k_mm := st3\<rparr>) (sp - 64) (rev (entry_pushes r))"
  proof (rule call_dispatch_ok [OF o6 _ _ _ k2, where r = ?q and ce = ce and dev = dev and v = v])
    show "lo + length (frame ce) \<le> sp - 64" "rsp ?q = of_nat (sp - 64)" using room by simp_all
    show "syscall_dispatch dev (rdi ?q) (rsi ?q) (rdx ?q) (rcx ?q) (?k5\<lparr>k_mm := st\<rparr>) = (Inr v, k2\<lparr>k_mm := st\<rparr>)"
      if "on_stack k lo sp (?k5\<lparr>k_mm := st\<rparr>) (sp - 64) (rev (entry_pushes r))" for st using d [OF that] by simp
  qed
  have 4: "pop_list 8 \<lparr>th_k = k2\<lparr>k_mm := st3\<rparr>, th_r = clobbered ce v ?q\<rparr> =
      (Inr (rev (entry_pushes r)), \<lparr>th_k = k2\<lparr>k_mm := st3\<rparr>, th_r = (clobbered ce v ?q)\<lparr>rsp := of_nat sp\<rparr>\<rparr>)" and o8: "on_stack k lo sp (k2\<lparr>k_mm := st3\<rparr>) sp []"
    using pop_list_ok [of k lo sp "k2\<lparr>k_mm := st3\<rparr>" "sp - 64" "rev (entry_pushes r)" "[]" "clobbered ce v ?q" 8] o7 room
    by (simp_all add: entry_pushes_def clobbered_def Let_def)
  let ?v = "rev (entry_pushes r)"
  define R where "R = (clobbered ce v ?q)\<lparr>rsp := of_nat sp, r15 := ?v ! 0, r14 := ?v ! 1, r13 := ?v ! 2, r12 := ?v ! 3, rbx := ?v ! 4, rbp := ?v ! 5, rcx := ?v ! 6, r11 := ?v ! 7\<rparr>"
  have rr: "r\<lparr>rdx := rdx r, rsp := of_nat sp, rax := rax r\<rparr> = r" using r by simp
  have "syscall_handler_stub dev m ce \<lparr>th_k = k, th_r = r\<rparr> = (Inr (), \<lparr>th_k = k2\<lparr>k_mm := st3\<rparr>, th_r = sysretq m R\<rparr>)"
    using 1 2 3 4 p1 p2 rr
    by (simp del: push_list.simps add: syscall_handler_stub_def bindS_def on_k_run serial_print_byte_def R_def)
  moreover have "abi m v (r\<lparr>rip := rcx r, rflags := r11 r\<rparr>) (sysretq m R)"
    using r by (simp add: abi_def sysretq_def R_def clobbered_def entry_pushes_def Let_def)
  ultimately show ?thesis using that o8 by blast
qed

lemma user_syscall_ok:
  assumes s: "on_stack k lo sp k sp []" and room: "lo + 64 + length (frame ce) \<le> sp" and r: "rsp r = of_nat sp"
    and disp: "\<And>st vs. on_stack k lo sp (k\<lparr>k_mm := st\<rparr>) (sp - 64) vs \<Longrightarrow>
      syscall_dispatch dev nr a1 a2 a3 (k\<lparr>k_serial := k_serial k @ [0x53], k_mm := st\<rparr>) = (Inr v, k2\<lparr>k_mm := st\<rparr>)"
    and k2: "k_cr3 k2 = k_cr3 k"
  obtains st r' where "user_syscall dev m ce ret nr a1 a2 a3 \<lparr>th_k = k, th_r = r\<rparr> = (Inr v, \<lparr>th_k = k2\<lparr>k_mm := st\<rparr>, th_r = r'\<rparr>)"
    and "abi m v (r\<lparr>rip := ret\<rparr>) r'" and "on_stack k lo sp (k2\<lparr>k_mm := st\<rparr>) sp []"
proof -
  let ?R = "syscall_insn m (r\<lparr>rax := nr, rdi := a1, rsi := a2, rdx := a3, rip := ret\<rparr>)"
  have R: "rsp ?R = of_nat sp" "rax ?R = nr" "rdi ?R = a1" "rsi ?R = a2" "rdx ?R = a3" using r by (simp_all add: syscall_insn_def)
  obtain st r' where 1: "syscall_handler_stub dev m ce \<lparr>th_k = k, th_r = ?R\<rparr> = (Inr (), \<lparr>th_k = k2\<lparr>k_mm := st\<rparr>, th_r = r'\<rparr>)"
    and 2: "abi m v (?R\<lparr>rip := rcx ?R, rflags := r11 ?R\<rparr>) r'" and 3: "on_stack k lo sp (k2\<lparr>k_mm := st\<rparr>) sp []"
    by (rule stub_ok [OF s room R(1) _ k2, where dev = dev and m = m and v = v]) (use disp in \<open>simp_all add: R\<close>)
  have "abi m v (r\<lparr>rip := ret\<rparr>) r'" "rax r' = v" using 2 by (simp_all add: abi_def syscall_insn_def)
  then show ?thesis using that 1 3 by (simp add: user_syscall_def bindS_def)
qed

section \<open>The calls of the two programs\<close>

definition printable :: "str \<Rightarrow> bool" where
  "printable s \<longleftrightarrow> (\<forall>b \<in> set s. b = 0x0A \<or> 0x20 \<le> b \<and> b \<le> 0x7E)"

lemma holds_output [simp]: "holds (k\<lparr>k_writer := x\<rparr>) p s = holds k p s" "holds (k\<lparr>k_serial := y\<rparr>) p s = holds k p s"
  by (simp_all add: holds_def)

lemma put_printable_text:
  assumes "b = 0x0A \<or> 0x20 \<le> b \<and> b \<le> 0x7E"
  shows "put_printable b = on_writer (put_char b FG 1)"
proof (cases "b = 0x0A \<or> b = 0x20")
  case False
  then have "0x20 < b" using assms by (simp add: order_less_le eq_commute)
  then have "0x21 \<le> b" by (simp add: word_le_nat_alt word_less_nat_alt)
  then show ?thesis using False assms by (auto simp: put_printable_def)
qed (auto simp: put_printable_def)

lemma serial_print_byte_run: "serial_print_byte b k = (Inr (), k\<lparr>k_serial := k_serial k @ [b]\<rparr>)"
  by (simp add: serial_print_byte_def)

lemma print_user_screen:
  assumes "user_inv (k_cr3 k) (k_mm k)" and "holds k p s" and "printable s" and "k_writer k = Some w" and "put_str s FG 1 w = (Inr (), w')"
  shows "print_user put_printable (length s) (of_nat p) k = (Inr (), k\<lparr>k_writer := Some w'\<rparr>)"
  using assms
proof (induction s arbitrary: p k w)
  case Nil
  then show ?case by (simp add: put_str_def)
next
  case (Cons b s)
  obtain w1 where w1: "put_char b FG 1 w = (Inr (), w1)" "put_str s FG 1 w1 = (Inr (), w')"
    using Cons.prems(5) by (auto simp: put_str_def bindS_def split: prod.splits sum.splits)
  have "ld8 (of_nat p) k = (Inr b, k)" using Cons.prems(2) by (intro ld8_img [OF Cons.prems(1)]) (simp_all add: holds_Cons unat_of_low)
  moreover have b: "b = 0x0A \<or> 0x20 \<le> b \<and> b \<le> 0x7E" using Cons.prems(3) by (simp add: printable_def)
  have "put_printable b k = (Inr (), k\<lparr>k_writer := Some w1\<rparr>)" using Cons.prems(4) w1(1) by (simp add: put_printable_text [OF b] on_writer_def)
  moreover have "print_user put_printable (length s) (of_nat (Suc p)) (k\<lparr>k_writer := Some w1\<rparr>) = (Inr (), k\<lparr>k_writer := Some w1, k_writer := Some w'\<rparr>)"
    using Cons.prems w1(2) by (intro Cons.IH) (simp_all add: printable_def holds_Cons)
  ultimately show ?case by (simp add: bindS_def add.commute)
qed

lemma print_user_serial:
  assumes "user_inv (k_cr3 k) (k_mm k)" and "holds k p s"
  shows "print_user serial_print_byte (length s) (of_nat p) k = (Inr (), k\<lparr>k_serial := k_serial k @ s\<rparr>)"
  using assms
proof (induction s arbitrary: p k)
  case (Cons b s)
  have "ld8 (of_nat p) k = (Inr b, k)" using Cons.prems(2) by (intro ld8_img [OF Cons.prems(1)]) (simp_all add: holds_Cons unat_of_low)
  moreover have "print_user serial_print_byte (length s) (of_nat (Suc p)) (k\<lparr>k_serial := k_serial k @ [b]\<rparr>) =
      (Inr (), k\<lparr>k_serial := k_serial k @ [b], k_serial := (k_serial k @ [b]) @ s\<rparr>)"
    using Cons.IH [of "k\<lparr>k_serial := k_serial k @ [b]\<rparr>" "Suc p"] Cons.prems by (simp add: holds_Cons)
  ultimately show ?case using serial_print_byte_run [of b k] by (simp add: bindS_def add.commute)
qed simp

lemma start_stack: "user_inv (k_cr3 k) (k_mm k) \<Longrightarrow> writable k lo (sp - lo) \<Longrightarrow> lo \<le> sp \<Longrightarrow> sp \<le> 2 ^ 47 \<Longrightarrow> on_stack k lo sp k sp []"
  by (simp add: on_stack_def holds_def)

lemma rebase_stack: "on_stack k0 lo sp k sp [] \<Longrightarrow> on_stack k lo sp k sp []"
  by (simp add: on_stack_def)

lemma stack_inv: "on_stack k0 lo sp k a vs \<Longrightarrow> user_inv (k_cr3 k) (k_mm k)"
  by (simp add: on_stack_def)

lemma holds_outside:
  assumes "on_stack k0 lo sp k a vs" and "holds k0 p s" and "p + length s \<le> lo \<or> sp \<le> p"
  shows "holds k p s"
proof -
  have "img (k_cr3 k0) (k_mm k) (of_nat (p + j)) = Some (s ! j)" if "j < length s" for j
  proof -
    have "p + j < 2 ^ 47" using assms(2) that by (simp add: holds_def)
    then have u: "unat (of_nat (p + j) :: u64) = p + j" "unat (of_nat (p + j) :: u64) < 2 ^ 47" using unat_of_low [of "p + j"] by (simp_all del: of_nat_add)
    have "\<not> (lo \<le> p + j \<and> p + j < sp)" using assms(3) that by auto
    then show ?thesis using assms(1,2) u that by (simp add: on_stack_def holds_def del: of_nat_add)
  qed
  then show ?thesis using assms(1,2) by (simp add: holds_def on_stack_def del: of_nat_add)
qed

lemma dispatch_write_screen:
  assumes "user_inv (k_cr3 k) (k_mm k)" and h: "holds k p s" and "printable s" and "s \<noteq> []" and "k_writer k = Some w" and "put_str s FG 1 w = (Inr (), w')"
  shows "syscall_dispatch dev SYS_WRITE 1 (of_nat p) (of_nat (length s)) k = (Inr (of_nat (length s)), k\<lparr>k_writer := Some w'\<rparr>)"
proof -
  have len: "length s < 2 ^ 64" using h by (simp add: holds_def)
  have L: "unat (of_nat (length s) :: u64) = length s" "(of_nat (length s) :: u64) \<noteq> 0"
    using unat_of_low [OF len] of_nat_nonzero [OF _ len] assms(4) by auto
  have e: "k\<lparr>k_writer := Some w\<rparr> = k" using assms(5) by simp
  have "print_user put_printable (length s) (of_nat p) (k\<lparr>k_writer := Some w\<rparr>) = (Inr (), k\<lparr>k_writer := Some w'\<rparr>)"
    unfolding e by (rule print_user_screen [OF assms(1-3,5,6)])
  then show ?thesis using assms(5) L by (simp add: syscall_dispatch_def SYS_WRITE_def sys_write_def bindS_def on_writer_def)
qed

lemma dispatch_exit:
  assumes "current_task (k_sched k) = Some t"
  shows "syscall_dispatch dev SYS_EXIT code a b k =
    (Inr 0, set_current (t\<lparr>task_state := Dead\<rparr>) (k\<lparr>k_serial := k_serial k @ EXIT_PREFIX @ decimal (unat code) @ [0x29, 0x0A]\<rparr>))"
  using assms by (simp add: syscall_dispatch_def SYS_EXIT_def sys_exit_def bindS_def serial_print_def)

lemma write_call_ok:
  assumes o: "on_stack k lo sp k sp []" and stk: "lo + 64 + length (frame ce) \<le> sp" "p + length s \<le> lo \<or> sp \<le> p" "rsp r = of_nat sp"
    and h: "holds k p s" and s: "printable s" "s \<noteq> []" and w: "k_writer k = Some w" "put_str s FG 1 w = (Inr (), w')"
  obtains st r' where "user_syscall dev m ce ret SYS_WRITE 1 (of_nat p) (of_nat (length s)) \<lparr>th_k = k, th_r = r\<rparr> =
      (Inr (of_nat (length s)), \<lparr>th_k = k\<lparr>k_serial := k_serial k @ [0x53], k_writer := Some w', k_mm := st\<rparr>, th_r = r'\<rparr>)"
    and "abi m (of_nat (length s)) (r\<lparr>rip := ret\<rparr>) r'" and "on_stack k lo sp (k\<lparr>k_serial := k_serial k @ [0x53], k_writer := Some w', k_mm := st\<rparr>) sp []"
proof -
  have d: "syscall_dispatch dev SYS_WRITE 1 (of_nat p) (of_nat (length s)) (k\<lparr>k_serial := k_serial k @ [0x53], k_mm := st\<rparr>) =
      (Inr (of_nat (length s)), k\<lparr>k_serial := k_serial k @ [0x53], k_writer := Some w', k_mm := st\<rparr>)" if "on_stack k lo sp (k\<lparr>k_mm := st\<rparr>) (sp - 64) vs" for st vs
  proof -
    let ?k = "k\<lparr>k_serial := k_serial k @ [0x53], k_mm := st\<rparr>"
    have o': "on_stack k lo sp ?k (sp - 64) vs" by (rule on_stack_other [OF that]) simp_all
    show ?thesis using dispatch_write_screen [OF stack_inv [OF o'] holds_outside [OF o' h stk(2)] s _ w(2), of dev] w(1) by simp
  qed
  show ?thesis by (rule user_syscall_ok [OF o stk(1,3) d]) (use that in simp_all)
qed

lemma exit_call_ok:
  assumes o: "on_stack k lo sp k sp []" and stk: "lo + 64 + length (frame ce) \<le> sp" "rsp r = of_nat sp" and t: "current_task (k_sched k) = Some t"
    and k': "k' = set_current (t\<lparr>task_state := Dead\<rparr>) (k\<lparr>k_serial := k_serial k @ [0x53] @ EXIT_PREFIX @ decimal (unat code) @ [0x29, 0x0A]\<rparr>)"
  obtains st r' where "user_syscall dev m ce ret SYS_EXIT code a b \<lparr>th_k = k, th_r = r\<rparr> = (Inr 0, \<lparr>th_k = k'\<lparr>k_mm := st\<rparr>, th_r = r'\<rparr>)"
    and "abi m 0 (r\<lparr>rip := ret\<rparr>) r'" and "on_stack k lo sp (k'\<lparr>k_mm := st\<rparr>) sp []"
proof -
  have "syscall_dispatch dev SYS_EXIT code a b (k\<lparr>k_serial := k_serial k @ [0x53], k_mm := st\<rparr>) = (Inr 0, k'\<lparr>k_mm := st\<rparr>)" for st
    using t by (subst dispatch_exit [where t = t]) (simp_all add: set_current_def k')
  then show ?thesis by (rule user_syscall_ok [OF o stk]) (use that in \<open>simp_all add: set_current_def k'\<close>)
qed

lemma hello_printable: "printable HELLO_MSG" "HELLO_MSG \<noteq> []" "length HELLO_MSG = 20"
  by (simp_all add: printable_def HELLO_MSG_def)


definition demo_callee :: callee where
  "demo_callee = \<lparr>caller_saved = \<lparr>rax = 0, rcx = 0, rdx = 0, rbx = 0, rbp = 0, rsi = 0, rdi = 0, r8 = 0, r9 = 0, r10 = 0, r11 = 0, r12 = 0, r13 = 0, r14 = 0, r15 = 0,
     rip = 0, cs_sel = 0, rflags = 0, rsp = 0, ss_sel = 0\<rparr>, frame = replicate 64 0\<rparr>"

definition demo_user_regs :: ctx where
  "demo_user_regs = (caller_saved demo_callee)\<lparr>rbx := 7, rsp := 0x400C00, rip := 0x400100, cs_sel := 0x23, ss_sel := 0x1B, rflags := 0x202\<rparr>"

definition demo_msrs :: msrs where
  "demo_msrs = syscall_init 0xFFFFFFFF80220000 \<lparr>EFER = 0x500, STAR = 0, LSTAR = 0, SFMASK = 0\<rparr>"

definition with_idle :: "'s kernel \<Rightarrow> 's kernel" where
  "with_idle k = k\<lparr>k_sched := (k_sched k)\<lparr>tasks := [main_task 9 0x200000]\<rparr>\<rparr>"

lemma with_idle_same [simp]: "holds (with_idle k) a s = holds k a s" "writable (with_idle k) a n = writable k a n" "k_cr3 (with_idle k) = k_cr3 k" "k_mm (with_idle k) = k_mm k"
  "k_writer (with_idle k) = k_writer k" "current_task (k_sched (with_idle k)) = current_task (k_sched k)"
  by (simp_all add: with_idle_def holds_def writable_def)


text \<open>
  The program init: its message is on the serial port, behind the letter of the stub and the prefix of \<^verbatim>\<open>sys_log\<close> and before another line end, and nothing else of the kernel
  has changed but the stack of the process.
\<close>

lemma init_logs:
  assumes inv: "user_inv (k_cr3 k) (k_mm k)" and msg: "holds k p INIT_MSG"
    and stk: "writable k lo (sp - lo)" "lo + 64 + length (frame ce) \<le> sp" "sp \<le> 2 ^ 47" "p + length INIT_MSG \<le> lo \<or> sp \<le> p" "rsp r = of_nat sp"
  shows "\<exists>st r'. init_start dev m ce (of_nat p) ret1 \<lparr>th_k = k, th_r = r\<rparr> =
      (Inr (), \<lparr>th_k = k\<lparr>k_serial := k_serial k @ [0x53] @ LOG_PREFIX @ INIT_MSG @ [0x0A], k_mm := st\<rparr>, th_r = r'\<rparr>) \<and> abi m 0 (r\<lparr>rip := ret1\<rparr>) r'"
proof -
  let ?k1 = "k\<lparr>k_serial := k_serial k @ [0x53] @ LOG_PREFIX @ INIT_MSG @ [0x0A]\<rparr>"
  have o: "on_stack k lo sp k sp []" using stk by (intro start_stack [OF inv]) auto
  have L: "unat (of_nat (length INIT_MSG) :: u64) = length INIT_MSG" by (simp add: INIT_MSG_def)
  have d: "syscall_dispatch dev 1 (of_nat p) (of_nat (length INIT_MSG)) 0 (k\<lparr>k_serial := k_serial k @ [0x53], k_mm := st\<rparr>) = (Inr 0, ?k1\<lparr>k_mm := st\<rparr>)"
    if "on_stack k lo sp (k\<lparr>k_mm := st\<rparr>) (sp - 64) vs" for st vs
  proof -
    let ?k = "k\<lparr>k_mm := st, k_serial := k_serial k @ [0x53] @ LOG_PREFIX\<rparr>"
    have o': "on_stack k lo sp ?k (sp - 64) vs" by (rule on_stack_other [OF that]) simp_all
    have "print_user serial_print_byte (length INIT_MSG) (of_nat p) ?k = (Inr (), ?k\<lparr>k_serial := k_serial ?k @ INIT_MSG\<rparr>)"
      by (rule print_user_serial [OF stack_inv [OF o'] holds_outside [OF o' msg stk(4)]])
    then show ?thesis unfolding syscall_dispatch_def sys_log_def L by (simp add: bindS_def serial_print_def)
  qed
  obtain st r' where "user_syscall dev m ce ret1 1 (of_nat p) (of_nat (length INIT_MSG)) 0 \<lparr>th_k = k, th_r = r\<rparr> = (Inr 0, \<lparr>th_k = ?k1\<lparr>k_mm := st\<rparr>, th_r = r'\<rparr>)"
    and "abi m 0 (r\<lparr>rip := ret1\<rparr>) r'"
    by (rule user_syscall_ok [OF o stk(2,5) d]) simp_all
  then show ?thesis by (simp add: init_start_def bindS_def) blast
qed

end
