(* ===== verification/Serial.thy ===== *)
theory Serial
  imports Prelude
begin

text \<open>
  The serial port (ross-kernel/src/serial.rs) at the level of its registers: what a read of the line status register returns and what a write to the data register does
  are parameters. The loop that waits for the transmitter may run for ever: \<open>None\<close>. The kernel model appends the bytes to a list; the lemma at the end
  says that this is what a working port sends.
\<close>

record 'c uart =
  lsr_rd :: "'c \<Rightarrow> u8 \<times> 'c"
  thr_wr :: "u8 \<Rightarrow> 'c \<Rightarrow> 'c"

text \<open>\<^verbatim>\<open>while (inb(0x3F8 + 5) & 0x20) == 0 {}\<close>\<close>

partial_function (option) wait_thre :: "'c uart \<Rightarrow> 'c \<Rightarrow> 'c option" where
  "wait_thre io c = (let (v, c') = lsr_rd io c in if v AND 0x20 = 0 then wait_thre io c' else Some c')"

definition write_byte :: "'c uart \<Rightarrow> u8 \<Rightarrow> 'c \<Rightarrow> 'c option" where
  "write_byte io b c = map_option (thr_wr io b) (wait_thre io c)"

primrec uart_write_str :: "'c uart \<Rightarrow> u8 list \<Rightarrow> 'c \<Rightarrow> 'c option" where
  "uart_write_str io [] c = Some c"
| "uart_write_str io (b # s) c = Option.bind (write_byte io b c) (uart_write_str io s)"

text \<open>
  A working port: \<open>sent\<close> are the bytes on the line, a status read sends nothing, and while the transmitter is busy \<open>left\<close> decreases.
\<close>

definition uart_ok :: "'c uart \<Rightarrow> ('c \<Rightarrow> u8 list) \<Rightarrow> ('c \<Rightarrow> nat) \<Rightarrow> bool" where
  "uart_ok io sent left \<longleftrightarrow> (\<forall>b c. sent (thr_wr io b c) = sent c @ [b]) \<and> (\<forall>c. sent (snd (lsr_rd io c)) = sent c) \<and>
     (\<forall>c. fst (lsr_rd io c) AND 0x20 = 0 \<longrightarrow> left (snd (lsr_rd io c)) < left c)"

lemma wait_thre_ends:
  assumes "uart_ok io sent left"
  shows "\<exists>c'. wait_thre io c = Some c' \<and> sent c' = sent c"
proof (induction "left c" arbitrary: c rule: less_induct)
  case less
  let ?v = "fst (lsr_rd io c)" and ?c = "snd (lsr_rd io c)"
  have s: "sent ?c = sent c" using assms by (simp add: uart_ok_def)
  show ?case
  proof (cases "?v AND 0x20 = 0")
    case True
    then have "left ?c < left c" using assms by (simp add: uart_ok_def)
    from less [OF this] True s show ?thesis by (subst wait_thre.simps) (simp add: split_def)
  next
    case False
    then show ?thesis using s by (subst wait_thre.simps) (simp add: split_def)
  qed
qed

lemma uart_write_str_sends:
  assumes "uart_ok io sent left"
  shows "\<exists>c'. uart_write_str io s c = Some c' \<and> sent c' = sent c @ s"
proof (induction s arbitrary: c)
  case (Cons b s)
  obtain c1 where c1: "wait_thre io c = Some c1" "sent c1 = sent c" using wait_thre_ends [OF assms] by blast
  have "sent (thr_wr io b c1) = sent c @ [b]" using assms c1(2) by (simp add: uart_ok_def)
  then show ?case using Cons.IH [of "thr_wr io b c1"] c1(1) by (simp add: write_byte_def)
qed simp

end
