(* ===== verification/Spec2Isabelle.thy ===== *)
theory Spec2Isabelle
  imports UserCalls ShellFiles Boot Trampoline SyscallEntry Serial
begin

text \<open>
  \<^bold>\<open>A verification library for the ROSS system.\<close>

  ROSS is a small x86-64 operating system in Rust: a UEFI boot loader (rb-loader), a kernel (ross-kernel) and user programs (ross-user). The loader captures the memory map, loads the
  kernel and an archive and jumps to the kernel; the kernel sets up memory, tasks, devices and file systems, starts the other processors and runs a shell; a task that the
  shell starts runs in ring 3 and enters the kernel by system calls. File names below are under src/ross-kernel/src unless they say otherwise.

  \<^bold>\<open>How the code is modelled.\<close> A function that changes state is a function from the old state to a result and the new
  state (\<open>('s, 'a) op\<close> in Prelude). A result is \<open>Inr\<close> of a value or \<open>Inl\<close> of an exception: \<open>Err\<close> for a Rust \<^verbatim>\<open>Err\<close>
  and \<open>Panic\<close> for everything that ends in the panic handler, which halts the machine: failed assertions, arithmetic overflow in
  the development profile, indices out of range, page faults of the kernel. Machine integers whose
  wrap-around or bits matter are words; \<^verbatim>\<open>usize\<close> values that only count are natural numbers with the overflow check written
  out where the code can reach it. Loops are recursive functions with termination proofs; the two loops over the cluster
  chain of a directory that the code itself does not bound carry fuel, and the theorems about them
  state how much is enough: one round for each cluster of the chain. The loop over the processor table is a \<open>while_option\<close> that is shown to end for every memory content. Loops that poll a device
  (\<open>wait_ticks\<close>, \<open>wait_tick\<close>, \<open>wait_icr_idle\<close>, \<open>wait_thre\<close>, and \<open>drain_keys\<close>, which a keyboard can keep busy) are partial functions with \<open>None\<close> for a loop that does not end, and
  the theorems show that they do end when the device makes progress. Physical memory is a function from addresses to bytes (Memory); page tables live in it.
  Locks are taken for one call at a time and left out, but for the keyboard ring, which has none.

  \<^bold>\<open>The theories and what they show.\<close>

  \<^item> Prelude, Memory, Strings, Fifo: results and state, total correctness (\<open>okS\<close>) and preservation (\<open>keepsS\<close>) of operations,
    little-endian encodings; bytes, pages and frames; the parts of \<^verbatim>\<open>core::str\<close> the code uses; the interface of a bounded queue.
  \<^item> Loader (rb-loader): the capture of the memory map, the loading of kernel and archive and the tables for the jump; the kernel finds every byte of its image where it expects it.
  \<^item> Pmm (pmm.rs): the frame allocator. It hands out usable frames only and none twice; it takes the lowest.
  \<^item> Kbuf (kbuf.rs): the keyboard ring refines a queue, also when the interrupt comes between the atomic
    accesses of a reader.
  \<^item> Ipc, Fd (ipc.rs, fd.rs): pipes are bounded streams; descriptors are allocated lowest first.
  \<^item> Paging, AddressSpace, UserMem (paging.rs, mmap.rs): the boot tables, user spaces and the mapping of pages against the
    page walk of the processor; the memory of a process as the process sees it.
  \<^item> Gdt (gdt.rs, idt.rs, the registers of syscall.rs): descriptors, gates and selectors decode to what the code means.
  \<^item> Task (task.rs, the timer of idt.rs): new tasks start where they should, round robin is fair, dead tasks go, and a
    timer interrupt saves and restores every register.
  \<^item> Writer (writer.rs, the font of ross-common): text never leaves the framebuffer. Serial (serial.rs): a working port sends the bytes in order.
  \<^item> Pci, Acpi (pci.rs, acpi.rs): the registry holds exactly the functions of the machine; the tables of the firmware give exactly the enabled processors.
  \<^item> Ahci, AhciInit (ahci.rs): the driver finds the first port with a drive and sets it up; sector transfers over a drive that meets the ATA contract (a locale).
  \<^item> Vnode, Fat32, Fat32Disk, Fat32File, Volume, Fat32Dir (fat32.rs): the file system over a block device (a locale that the driver interprets): files are byte sequences,
    directories are lists of entries.
  \<^item> Ramfs, Vfs, Store (ramfs.rs, vfs.rs): the archive parser, path resolution, and a file saved through all layers
    down to the drive and loaded again.
  \<^item> Elf, Kernel, Spawn (elf.rs, spawn_process of task.rs): the loader puts the bytes of the segments where the program expects
    them; the kernel state as one record.
  \<^item> Syscall, System, UserCalls (syscall.rs): every system call; the invariant of the whole kernel over
    any order of system calls, interrupts and new processes; what a process sees of brk, open, read and pipes.
  \<^item> SyscallEntry (the stub of syscall.rs, ross-user/hello, ross-user/init): a system call from the assembly of a program to the dispatcher and back; the program hello prints and leaves.
  \<^item> Shell, ShellRun, ShellFiles (shell.rs): the line editor refines the editing of a list, the buffers stay in their bounds, and a file written with one command is printed by another.
  \<^item> Irq (pic.rs, pit.rs, keyboard.rs, the handlers of idt.rs and the panic handler of main.rs): the interrupt lines, the keyboard interrupt, the last screens.
  \<^item> Smp, Trampoline (lapic.rs, smp.rs): the interrupts that wake the other processors, and their way from real mode to the Rust entry.
  \<^item> MainLoop, Boot (main.rs): a round of the event loop against a reference, with a locale for what the shell commands keep of the kernel; the start of the kernel establishes the invariant.

  \<^bold>\<open>Parameters.\<close> The firmware (what its calls return), the registers of the SATA controller, the local APIC and the serial port, the configuration space of PCI, the drive (a locale with the
  behaviour the ATA specification documents), the scancodes of the keyboard; the addresses the linker chooses for static tables, stacks, strings and labels; the address of a new kernel
  stack (from the heap allocator, a third-party crate); the registers and the stack frame a compiled function leaves, as far as the calling convention leaves them open; whether the standard library
  checks the alignment of volatile accesses (\<open>ub_checks\<close>).

  \<^bold>\<open>Not modelled.\<close> The heap allocator (linked_list_allocator, a third-party crate: heap.rs only hands it an array); progress messages on the serial port at boot; calibrated delays, which change
  no state; the bodies of the test tasks, endless loops that print; scratch.rs, temp.rs and common.rs, which belong to no crate. kernel_main is modelled in parts: the steps
  that build the kernel state are composed in Boot and the loop in MainLoop, while the descriptor tables, the interrupt controllers and the other processors are theories of their own over their own state.
\<close>

end
